(* ===== verification/Prelude.thy ===== *)
theory Prelude
  imports Main "HOL-Library.Monad_Syntax"
begin

text \<open>
  Shared vocabulary of the development: how Go's slices, maps and panics are written in
  HOL, the collections of facts that the component theories extend, and the generic
  lemmas on lists, options and cardinalities that several components use.

  A Go run-time panic (an index or a slice bound out of range, a nil dereference) and a
  call of \<^verbatim>\<open>log.Fatal\<close> end the process. An operation that can reach one returns an
  \<open>option\<close>, and \<open>None\<close> is that outcome; \<open>Some\<close> carries the new state and the
  results. Go's \<^verbatim>\<open>int\<close> values that count terms, log positions, nanoseconds or
  tasks are \<^typ>\<open>int\<close>; positions of a slice that only come from \<^verbatim>\<open>range\<close> are
  \<^typ>\<open>nat\<close>. Values that the code lets wrap around (\<^verbatim>\<open>uint64\<close> versions,
  \<^verbatim>\<open>uint32\<close> hashes, \<^verbatim>\<open>int64\<close> operation ids) are machine words.
\<close>

named_theorems go_defs "definitions of Go's slice and map operations"
named_theorems wf_intros "operations keep the well-formedness of a component"
named_theorems frame_simps "fields that an operation leaves alone"

section \<open>Slices\<close>

text \<open>Reading \<^verbatim>\<open>xs[i]\<close>: an index outside the slice panics.\<close>

definition idx :: "'a list \<Rightarrow> int \<Rightarrow> 'a option" where
  "idx xs i = (if 0 \<le> i \<and> i < int (length xs) then Some (xs ! nat i) else None)"

text \<open>Writing \<^verbatim>\<open>xs[i] = v\<close>.\<close>

definition upd :: "'a list \<Rightarrow> int \<Rightarrow> 'a \<Rightarrow> 'a list option" where
  "upd xs i v = (if 0 \<le> i \<and> i < int (length xs) then Some (xs[nat i := v]) else None)"

text \<open>
  Reslicing \<^verbatim>\<open>xs[lo:hi]\<close> panics unless \<open>0 \<le> lo \<le> hi \<le> len(xs)\<close>. (Go allows
  \<open>hi\<close> up to the capacity; every reslice in the modelled code has \<open>hi\<close> checked against
  or computed from the length.)
\<close>

definition reslice :: "'a list \<Rightarrow> int \<Rightarrow> int \<Rightarrow> 'a list option" where
  "reslice xs lo hi =
     (if 0 \<le> lo \<and> lo \<le> hi \<and> hi \<le> int (length xs)
      then Some (take (nat (hi - lo)) (drop (nat lo) xs)) else None)"

lemma idx_Some [simp]: "0 \<le> i \<Longrightarrow> i < int (length xs) \<Longrightarrow> idx xs i = Some (xs ! nat i)"
  by (simp add: idx_def)

lemma idx_nat [simp]: "k < length xs \<Longrightarrow> idx xs (int k) = Some (xs ! k)"
  by (simp add: idx_def)

lemma idx_eq_Some: "idx xs i = Some x \<longleftrightarrow> 0 \<le> i \<and> i < int (length xs) \<and> x = xs ! nat i"
  by (auto simp: idx_def)

lemma upd_nat [simp]: "k < length xs \<Longrightarrow> upd xs (int k) v = Some (xs[k := v])"
  by (simp add: upd_def)

lemma upd_eq_Some: "upd xs i v = Some ys \<longleftrightarrow> 0 \<le> i \<and> i < int (length xs) \<and> ys = xs[nat i := v]"
  by (auto simp: upd_def)

lemma reslice_eq_Some:
  "reslice xs lo hi = Some ys \<longleftrightarrow>
     0 \<le> lo \<and> lo \<le> hi \<and> hi \<le> int (length xs) \<and> ys = take (nat (hi - lo)) (drop (nat lo) xs)"
  by (auto simp: reslice_def)

lemma reslice_from [simp]:
  "0 \<le> lo \<Longrightarrow> lo \<le> int (length xs) \<Longrightarrow> reslice xs lo (int (length xs)) = Some (drop (nat lo) xs)"
  by (simp add: reslice_def nat_diff_distrib)

lemma reslice_upto [simp]:
  "0 \<le> hi \<Longrightarrow> hi \<le> int (length xs) \<Longrightarrow> reslice xs 0 hi = Some (take (nat hi) xs)"
  by (simp add: reslice_def)

section \<open>Generic lemmas\<close>

lemma bind_Some_iff: "Option.bind m f = Some y \<longleftrightarrow> (\<exists>x. m = Some x \<and> f x = Some y)"
  by (cases m) auto

lemma last_conv_nth_int:
  "xs \<noteq> [] \<Longrightarrow> last xs = xs ! (length xs - 1)"
  by (rule last_conv_nth)

end
