(* ===== verification/Persister.thy ===== *)
theory Persister
  imports Prelude
begin

text \<open>
  The stable storage of a server (\<^verbatim>\<open>src/tester1/persister.go\<close>) and the value
  streams kept in it. \<^verbatim>\<open>labgob\<close> writes one self-describing value after the other into
  a buffer and reads them back in the same order; a byte buffer is therefore the list of
  the values encoded into it. Decoding into a variable of another type, or from an
  exhausted buffer, is an error. The empty list is the empty (or nil) buffer.
\<close>

record ('r, 's) Persister =
  raftstate :: "'r list"
  snapshot :: "'s list"

definition MakePersister :: "('r, 's) Persister" where
  "MakePersister = \<lparr>raftstate = [], snapshot = []\<rparr>"

definition clone :: "'a list \<Rightarrow> 'a list" where
  "clone orig = map (\<lambda>x. x) orig"

definition Copy :: "('r, 's) Persister \<Rightarrow> ('r, 's) Persister" where
  "Copy ps = MakePersister\<lparr>raftstate := raftstate ps, snapshot := snapshot ps\<rparr>"

definition ReadRaftState :: "('r, 's) Persister \<Rightarrow> 'r list" where
  "ReadRaftState ps = clone (raftstate ps)"

text \<open>
  The size of an encoded buffer depends on gob's byte layout; \<open>bytes\<close> is that measure.
\<close>

definition RaftStateSize :: "('r list \<Rightarrow> int) \<Rightarrow> ('r, 's) Persister \<Rightarrow> int" where
  "RaftStateSize bytes ps = bytes (raftstate ps)"

definition Save :: "'r list \<Rightarrow> 's list \<Rightarrow> ('r, 's) Persister \<Rightarrow> ('r, 's) Persister" where
  "Save rs ss ps = ps\<lparr>raftstate := clone rs, snapshot := clone ss\<rparr>"

definition ReadSnapshot :: "('r, 's) Persister \<Rightarrow> 's list" where
  "ReadSnapshot ps = clone (snapshot ps)"

definition SnapshotSize :: "('s list \<Rightarrow> int) \<Rightarrow> ('r, 's) Persister \<Rightarrow> int" where
  "SnapshotSize bytes ps = bytes (snapshot ps)"

lemma clone_id [simp]: "clone xs = xs"
  by (simp add: clone_def)

lemma Save_reads [simp]:
  "ReadRaftState (Save rs ss ps) = rs" "ReadSnapshot (Save rs ss ps) = ss"
  by (simp_all add: Save_def ReadRaftState_def ReadSnapshot_def)

lemma Copy_id [simp]: "Copy (ps :: ('r, 's) Persister) = ps"
  by (simp add: Copy_def MakePersister_def)

lemma Save_Save [simp]: "Save rs ss (Save rs' ss' ps) = Save rs ss ps"
  by (simp add: Save_def)

section \<open>The contract of stable storage\<close>

text \<open>
  What Raft relies on: one atomic write of both parts, reads return the last write, and a
  fresh copy handed to a restarted server reads the same.
\<close>

locale stable_storage =
  fixes save :: "'r list \<Rightarrow> 's list \<Rightarrow> 'p \<Rightarrow> 'p"
    and read_state :: "'p \<Rightarrow> 'r list"
    and read_snapshot :: "'p \<Rightarrow> 's list"
    and copy :: "'p \<Rightarrow> 'p"
  assumes state_save: "read_state (save rs ss p) = rs"
    and snapshot_save: "read_snapshot (save rs ss p) = ss"
    and state_copy: "read_state (copy p) = read_state p"
    and snapshot_copy: "read_snapshot (copy p) = read_snapshot p"
begin

text \<open>A restart after any number of writes sees exactly the last one.\<close>

lemma restart_reads_last_write:
  "read_state (copy (fold (\<lambda>(rs, ss). save rs ss) (ws @ [(rs, ss)]) p)) = rs \<and>
   read_snapshot (copy (fold (\<lambda>(rs, ss). save rs ss) (ws @ [(rs, ss)]) p)) = ss"
  by (simp add: state_save snapshot_save state_copy snapshot_copy)

text \<open>Writing only the Raft state back together with the stored snapshot keeps the snapshot.\<close>

lemma state_only_write:
  "read_snapshot (save rs (read_snapshot p) p) = read_snapshot p"
  by (simp add: snapshot_save)

end

interpretation stable: stable_storage Save ReadRaftState ReadSnapshot Copy
  by unfold_locales simp_all

end
