(* ===== verification/Raft_State.thy ===== *)
theory Raft_State
  imports Persister
begin

text \<open>
  The state of one Raft peer (\<^verbatim>\<open>src/raft1/raft.go\<close>): the struct, the access
  functions between logical log indices and positions of the truncated log slice, timers,
  persistence and construction. The other Raft theories hold the handlers.

  \<^item> A command is an interface value; \<open>None\<close> is Go's nil.
  \<^item> \<open>mu\<close> is True while the peer's mutex is held by nobody who will release it: every
    modelled operation runs under the mutex, acquires it on entry and, except where the
    code forgets to, releases it on return.
  \<^item> \<open>applyWaiting\<close> is the condition variable \<^verbatim>\<open>applyCond\<close>: True while the
    applier goroutine sleeps in \<^verbatim>\<open>Wait\<close>. \<^verbatim>\<open>Signal\<close> and \<^verbatim>\<open>Broadcast\<close>
    make it False.
  \<^item> \<open>peers\<close> is the number of RPC end points; an end point is its position.
\<close>

datatype role = Leader | Candidate | Follower

definition ElectionTimeoutLowerBound :: int where "ElectionTimeoutLowerBound = 300"
definition ElectionTimeoutRange :: int where "ElectionTimeoutRange = 200"
definition Millisecond :: int where "Millisecond = 1000000"
definition HeartBeatInterval :: int where "HeartBeatInterval = 50 * Millisecond"
definition NotVoted :: int where "NotVoted = -1"

lemmas raft_consts = ElectionTimeoutLowerBound_def ElectionTimeoutRange_def Millisecond_def
  HeartBeatInterval_def NotVoted_def

record 'c LogEntry =
  leCommand :: "'c option"
  leTerm :: int
  leIndex :: int

text \<open>\<^verbatim>\<open>LogEntry{}\<close>, the zero value.\<close>

definition zeroEntry :: "'c LogEntry" where
  "zeroEntry = \<lparr>leCommand = None, leTerm = 0, leIndex = 0\<rparr>"

lemma zeroEntry_sel [simp]:
  "leCommand zeroEntry = None" "leTerm zeroEntry = 0" "leIndex zeroEntry = 0"
  by (simp_all add: zeroEntry_def)

text \<open>The values that \<^verbatim>\<open>EncodeRaftState\<close> writes.\<close>

datatype 'c gobval = GInt int | GLog "'c LogEntry list"

record ('c, 's) Raft =
  mu :: bool
  peers :: nat
  persister :: "('c gobval, 's) Persister"
  me :: nat
  dead :: bool
  CurrentTerm :: int
  VotedFor :: int
  Log :: "'c LogEntry list"
  State :: role
  Majority :: int
  CommitIndex :: int
  LastApplied :: int
  LastContect :: int
  ElectionTimeout :: int
  NextIndex :: "int list"
  MatchIndex :: "int list"
  applyWaiting :: bool
  LastIncludedIndex :: int
  LastIncludedTerm :: int

definition GetState :: "('c, 's) Raft \<Rightarrow> int \<times> bool" where
  "GetState rf = (CurrentTerm rf, State rf = Leader)"

section \<open>Logical and physical log indices\<close>

definition ConvertToPhysicIdx :: "('c, 's) Raft \<Rightarrow> int \<Rightarrow> int \<times> bool" where
  "ConvertToPhysicIdx rf logicIndex =
     (if logicIndex < LastIncludedIndex rf then (0, False)
      else let physicIndex = logicIndex - LastIncludedIndex rf in
        if physicIndex \<ge> int (length (Log rf)) then (0, False) else (physicIndex, True))"

definition GetLastLog :: "('c, 's) Raft \<Rightarrow> 'c LogEntry option" where
  "GetLastLog rf = idx (Log rf) (int (length (Log rf)) - 1)"

definition ConvertToLogicIdx :: "('c, 's) Raft \<Rightarrow> int \<Rightarrow> int \<times> bool" where
  "ConvertToLogicIdx rf physicIndex =
     (if physicIndex < 0 \<or> physicIndex \<ge> int (length (Log rf)) then (0, False)
      else (LastIncludedIndex rf + physicIndex, True))"

definition GetLogEntry :: "('c, 's) Raft \<Rightarrow> int \<Rightarrow> 'c LogEntry \<times> bool" where
  "GetLogEntry rf logicalindex =
     (if logicalindex < LastIncludedIndex rf then (zeroEntry, False)
      else let localIndex = logicalindex - LastIncludedIndex rf in
        if localIndex \<ge> int (length (Log rf)) then (zeroEntry, False)
        else (Log rf ! nat localIndex, True))"

text \<open>
  The bounds check admits a start beyond the end, which the slice expression then panics
  on: \<open>None\<close>.
\<close>

definition GetLogSlices :: "('c, 's) Raft \<Rightarrow> int \<Rightarrow> int \<Rightarrow> ('c LogEntry list \<times> bool) option" where
  "GetLogSlices rf logicalstart logicalend =
     (let localstart = logicalstart - LastIncludedIndex rf;
          localend = logicalend - LastIncludedIndex rf
      in if localstart < 0 \<or> localend > int (length (Log rf)) then Some ([], False)
         else do { logslice \<leftarrow> reslice (Log rf) localstart localend; Some (logslice, True) })"

section \<open>Persistence, timers, construction\<close>

definition EncodeRaftState :: "('c, 's) Raft \<Rightarrow> 'c gobval list" where
  "EncodeRaftState rf =
     [GInt (CurrentTerm rf), GInt (VotedFor rf), GLog (Log rf),
      GInt (LastIncludedIndex rf), GInt (LastIncludedTerm rf)]"

definition persist :: "('c, 's) Raft \<Rightarrow> ('c, 's) Raft" where
  "persist rf =
     (let raftstate = EncodeRaftState rf; mSnapshot = ReadSnapshot (persister rf)
      in rf\<lparr>persister := Save raftstate mSnapshot (persister rf)\<rparr>)"

fun DecodeInt :: "'c gobval list \<Rightarrow> (int \<times> 'c gobval list) option" where
  "DecodeInt (GInt i # vs) = Some (i, vs)"
| "DecodeInt _ = None"

fun DecodeLog :: "'c gobval list \<Rightarrow> ('c LogEntry list \<times> 'c gobval list) option" where
  "DecodeLog (GLog l # vs) = Some (l, vs)"
| "DecodeLog _ = None"

text \<open>\<^verbatim>\<open>log.Fatal\<close> on a decoding error: \<open>None\<close>.\<close>

definition readPersist :: "'c gobval list \<Rightarrow> ('c, 's) Raft \<Rightarrow> ('c, 's) Raft option" where
  "readPersist data rf =
     (if data = [] then Some rf
      else do {
        (currentTerm, d) \<leftarrow> DecodeInt data;
        (votedFor, d) \<leftarrow> DecodeInt d;
        (mLog, d) \<leftarrow> DecodeLog d;
        (lastIncludeIndex, d) \<leftarrow> DecodeInt d;
        (lastIncludeTerm, d) \<leftarrow> DecodeInt d;
        Some (rf\<lparr>CurrentTerm := currentTerm, VotedFor := votedFor, Log := mLog,
                LastIncludedIndex := lastIncludeIndex, LastIncludedTerm := lastIncludeTerm\<rparr>)
      })"

definition PersistBytes :: "('c gobval list \<Rightarrow> int) \<Rightarrow> ('c, 's) Raft \<Rightarrow> int" where
  "PersistBytes bytes rf = RaftStateSize bytes (persister rf)"

text \<open>\<open>clk\<close> is the pair of the current time and the non-negative number that
  \<^verbatim>\<open>rand.Int63()\<close> returns.\<close>

type_synonym clock = "int \<times> int"

definition resetTimer :: "clock \<Rightarrow> ('c, 's) Raft \<Rightarrow> ('c, 's) Raft" where
  "resetTimer clk rf =
     (let ms = ElectionTimeoutLowerBound + snd clk mod ElectionTimeoutRange
      in rf\<lparr>LastContect := fst clk, ElectionTimeout := ms * Millisecond\<rparr>)"

definition Kill :: "('c, 's) Raft \<Rightarrow> ('c, 's) Raft" where
  "Kill rf = rf\<lparr>dead := True, applyWaiting := False\<rparr>"

definition killed :: "('c, 's) Raft \<Rightarrow> bool" where
  "killed rf = dead rf"

definition Make :: "nat \<Rightarrow> nat \<Rightarrow> ('c gobval, 's) Persister \<Rightarrow> clock \<Rightarrow> ('c, 's) Raft option" where
  "Make numServer m ps clk =
     (let rf = \<lparr>mu = False, peers = numServer, persister = ps, me = m, dead = False,
                CurrentTerm = 0, VotedFor = NotVoted, Log = [zeroEntry], State = Follower,
                Majority = int numServer div 2 + 1, CommitIndex = 0, LastApplied = 0,
                LastContect = 0, ElectionTimeout = 0,
                NextIndex = replicate numServer 0, MatchIndex = replicate numServer 0,
                applyWaiting = False, LastIncludedIndex = 0, LastIncludedTerm = 0\<rparr>
      in readPersist (ReadRaftState ps) (resetTimer clk rf))"

section \<open>Well-formed logs\<close>

text \<open>
  The truncated log is never empty: position 0 is the last entry covered by the snapshot
  (or the placeholder entry 0 of a log that was never truncated), and positions and
  logical indices differ by \<open>LastIncludedIndex\<close>.
\<close>

definition consecutive :: "int \<Rightarrow> 'c LogEntry list \<Rightarrow> bool" where
  "consecutive b es \<longleftrightarrow> (\<forall>i < length es. leIndex (es ! i) = b + int i)"

definition wf_log :: "int \<Rightarrow> int \<Rightarrow> 'c LogEntry list \<Rightarrow> bool" where
  "wf_log b bt es \<longleftrightarrow> 0 \<le> b \<and> es \<noteq> [] \<and> consecutive b es \<and> leTerm (hd es) = bt"

definition wf_raft :: "('c, 's) Raft \<Rightarrow> bool" where
  "wf_raft rf \<longleftrightarrow>
     wf_log (LastIncludedIndex rf) (LastIncludedTerm rf) (Log rf) \<and>
     me rf < peers rf \<and> Majority rf = int (peers rf) div 2 + 1 \<and>
     length (NextIndex rf) = peers rf \<and> length (MatchIndex rf) = peers rf"

definition lastIndex :: "('c, 's) Raft \<Rightarrow> int" where
  "lastIndex rf = LastIncludedIndex rf + int (length (Log rf)) - 1"

lemma consecutive_Nil [simp]: "consecutive b []"
  by (simp add: consecutive_def)

lemma consecutive_Cons [simp]:
  "consecutive b (e # es) \<longleftrightarrow> leIndex e = b \<and> consecutive (b + 1) es"
  by (auto simp: consecutive_def less_Suc_eq_0_disj all_conj_distrib nth_Cons split: nat.splits)

lemma consecutive_append [simp]:
  "consecutive b (es @ fs) \<longleftrightarrow> consecutive b es \<and> consecutive (b + int (length es)) fs"
  by (induction es arbitrary: b) (auto simp: algebra_simps)

lemma consecutive_take: "consecutive b es \<Longrightarrow> consecutive b (take k es)"
  by (simp add: consecutive_def)

lemma consecutive_drop: "consecutive b es \<Longrightarrow> k \<le> length es \<Longrightarrow> consecutive (b + int k) (drop k es)"
  by (simp add: consecutive_def)

lemma consecutive_nth: "consecutive b es \<Longrightarrow> i < length es \<Longrightarrow> leIndex (es ! i) = b + int i"
  by (simp add: consecutive_def)

lemma wf_logD:
  assumes "wf_log b bt es"
  shows "0 \<le> b" "es \<noteq> []" "consecutive b es" "leTerm (es ! 0) = bt"
  using assms by (auto simp: wf_log_def hd_conv_nth)

lemma wf_raftD:
  assumes "wf_raft rf"
  shows "Log rf \<noteq> []" "0 \<le> LastIncludedIndex rf" "consecutive (LastIncludedIndex rf) (Log rf)"
    "wf_log (LastIncludedIndex rf) (LastIncludedTerm rf) (Log rf)"
    "me rf < peers rf" "Majority rf = int (peers rf) div 2 + 1"
    "length (NextIndex rf) = peers rf" "length (MatchIndex rf) = peers rf"
  using assms by (auto simp: wf_raft_def wf_log_def)

lemma GetLastLog_Some: "Log rf \<noteq> [] \<Longrightarrow> GetLastLog rf = Some (last (Log rf))"
  by (simp add: GetLastLog_def idx_def last_conv_nth nat_diff_distrib Suc_leI)

lemma GetLastLog_eq_Some: "GetLastLog rf = Some l \<longleftrightarrow> Log rf \<noteq> [] \<and> l = last (Log rf)"
  by (cases "Log rf = []") (auto simp: GetLastLog_Some, simp add: GetLastLog_def idx_def)

lemma last_leIndex: "wf_raft rf \<Longrightarrow> leIndex (last (Log rf)) = lastIndex rf"
  by (auto simp: wf_raft_def wf_log_def consecutive_def lastIndex_def last_conv_nth of_nat_diff Suc_leI)

lemma lastIndex_ge: "wf_raft rf \<Longrightarrow> LastIncludedIndex rf \<le> lastIndex rf"
  by (simp add: lastIndex_def wf_raft_def wf_log_def Suc_leI)

lemma GetLogEntry_True:
  "snd (GetLogEntry rf i) \<longleftrightarrow> LastIncludedIndex rf \<le> i \<and> i \<le> lastIndex rf"
  by (auto simp: GetLogEntry_def lastIndex_def Let_def)

lemma GetLogEntry_in:
  "LastIncludedIndex rf \<le> i \<Longrightarrow> i \<le> lastIndex rf \<Longrightarrow>
     GetLogEntry rf i = (Log rf ! nat (i - LastIncludedIndex rf), True)"
  by (auto simp: GetLogEntry_def lastIndex_def Let_def)

lemma GetLogEntry_out:
  "i < LastIncludedIndex rf \<or> lastIndex rf < i \<Longrightarrow> GetLogEntry rf i = (zeroEntry, False)"
  by (auto simp: GetLogEntry_def lastIndex_def Let_def)

lemma GetLogEntry_index:
  "wf_raft rf \<Longrightarrow> GetLogEntry rf i = (e, True) \<Longrightarrow> leIndex e = i \<and> e \<in> set (Log rf)"
  by (auto simp: GetLogEntry_def Let_def consecutive_def wf_raft_def wf_log_def split: if_splits)


text \<open>Field frames of the bookkeeping operations.\<close>

lemma persist_frame [simp]:
  "mu (persist rf) = mu rf" "peers (persist rf) = peers rf" "me (persist rf) = me rf"
  "dead (persist rf) = dead rf" "CurrentTerm (persist rf) = CurrentTerm rf"
  "VotedFor (persist rf) = VotedFor rf" "Log (persist rf) = Log rf" "State (persist rf) = State rf"
  "Majority (persist rf) = Majority rf" "CommitIndex (persist rf) = CommitIndex rf"
  "LastApplied (persist rf) = LastApplied rf" "NextIndex (persist rf) = NextIndex rf"
  "MatchIndex (persist rf) = MatchIndex rf" "applyWaiting (persist rf) = applyWaiting rf"
  "LastIncludedIndex (persist rf) = LastIncludedIndex rf"
  "LastIncludedTerm (persist rf) = LastIncludedTerm rf"
  "LastContect (persist rf) = LastContect rf" "ElectionTimeout (persist rf) = ElectionTimeout rf"
  "raftstate (persister (persist rf)) = EncodeRaftState rf"
  "snapshot (persister (persist rf)) = snapshot (persister rf)"
  by (simp_all add: persist_def Save_def ReadSnapshot_def)

lemma resetTimer_frame [simp]:
  "mu (resetTimer k rf) = mu rf" "peers (resetTimer k rf) = peers rf" "me (resetTimer k rf) = me rf"
  "dead (resetTimer k rf) = dead rf" "CurrentTerm (resetTimer k rf) = CurrentTerm rf"
  "VotedFor (resetTimer k rf) = VotedFor rf" "Log (resetTimer k rf) = Log rf"
  "State (resetTimer k rf) = State rf" "persister (resetTimer k rf) = persister rf"
  "Majority (resetTimer k rf) = Majority rf" "CommitIndex (resetTimer k rf) = CommitIndex rf"
  "LastApplied (resetTimer k rf) = LastApplied rf" "NextIndex (resetTimer k rf) = NextIndex rf"
  "MatchIndex (resetTimer k rf) = MatchIndex rf" "applyWaiting (resetTimer k rf) = applyWaiting rf"
  "LastIncludedIndex (resetTimer k rf) = LastIncludedIndex rf"
  "LastIncludedTerm (resetTimer k rf) = LastIncludedTerm rf"
  by (simp_all add: resetTimer_def)

lemma Encode_frame [simp]: "EncodeRaftState (persist rf) = EncodeRaftState rf"
  "EncodeRaftState (resetTimer k rf) = EncodeRaftState rf"
  by (simp_all add: EncodeRaftState_def)

lemma lastIndex_frame [simp]: "lastIndex (persist rf) = lastIndex rf"
  "lastIndex (resetTimer k rf) = lastIndex rf"
  by (simp_all add: lastIndex_def)

lemma GetLastLog_frame [simp]: "GetLastLog (persist rf) = GetLastLog rf"
  "GetLastLog (resetTimer k rf) = GetLastLog rf"
  by (simp_all add: GetLastLog_def)

lemma wf_raft_frame [simp]: "wf_raft (persist rf) = wf_raft rf"
  "wf_raft (resetTimer k rf) = wf_raft rf"
  by (simp_all add: wf_raft_def)

lemma readPersist_Encode [simp]:
  "readPersist (EncodeRaftState rf) r0 =
     Some (r0\<lparr>CurrentTerm := CurrentTerm rf, VotedFor := VotedFor rf, Log := Log rf,
            LastIncludedIndex := LastIncludedIndex rf, LastIncludedTerm := LastIncludedTerm rf\<rparr>)"
  by (simp add: readPersist_def EncodeRaftState_def)

section \<open>An example peer\<close>

text \<open>A leader of term 2 among three peers, with an entry of term 1 and one of term 2; the
  witnesses of the properties use it.\<close>

definition examplePeer :: "(nat, nat) Raft" where
  "examplePeer =
     \<lparr>mu = False, peers = 3, persister = \<lparr>raftstate = [], snapshot = [7]\<rparr>, me = 0, dead = False,
      CurrentTerm = 2, VotedFor = 0,
      Log = [zeroEntry, \<lparr>leCommand = Some 10, leTerm = 1, leIndex = 1\<rparr>,
             \<lparr>leCommand = Some 20, leTerm = 2, leIndex = 2\<rparr>],
      State = Leader, Majority = 2, CommitIndex = 1, LastApplied = 0,
      LastContect = 0, ElectionTimeout = 0, NextIndex = [3, 3, 3], MatchIndex = [0, 2, 0],
      applyWaiting = False, LastIncludedIndex = 0, LastIncludedTerm = 0\<rparr>"

lemma examplePeer_wf [simp]: "wf_raft examplePeer"
  by (simp add: examplePeer_def wf_raft_def wf_log_def)

section \<open>Properties\<close>

text \<open>On a well-formed peer, \<^verbatim>\<open>GetLogSlices(s, e)\<close> with \<open>s\<close> inside the retained
  log and \<open>s \<le> e\<close> at most one past its end does not panic and returns exactly the retained
  entries whose logical index lies in \<open>[s, e)\<close>.\<close>

lemma GetLogSlices_spec:
  assumes wf: "wf_raft rf" and "LastIncludedIndex rf \<le> s" "s \<le> e" "e \<le> lastIndex rf + 1"
  shows "GetLogSlices rf s e =
           Some (filter (\<lambda>le. s \<le> leIndex le \<and> leIndex le < e) (Log rf), True)"
proof -
  let ?b = "LastIncludedIndex rf" and ?L = "Log rf"
  let ?p = "\<lambda>le. s \<le> leIndex le \<and> leIndex le < e"
  define i n where "i = nat (s - ?b)" and "n = nat (e - s)"
  have len: "i + n \<le> length ?L" using assms by (simp add: i_def n_def lastIndex_def)
  have ix: "leIndex (?L ! k) = ?b + int k" if "k < length ?L" for k
    using wf_raftD(3)[OF wf] that by (rule consecutive_nth)
  have f1: "filter ?p (take i ?L) = []"
    using assms(2) ix by (auto simp: filter_empty_conv in_set_conv_nth i_def)
  have f2: "filter ?p (take n (drop i ?L)) = take n (drop i ?L)"
    using assms(2,3) ix len by (auto simp: filter_id_conv in_set_conv_nth i_def n_def)
  have f3: "filter ?p (drop n (drop i ?L)) = []"
    using assms(2,3) ix len by (auto simp: filter_empty_conv in_set_conv_nth i_def n_def split: if_splits)
  have "filter ?p (take i ?L @ take n (drop i ?L) @ drop n (drop i ?L)) = take n (drop i ?L)"
    by (simp only: filter_append f1 f2 f3 append_Nil append_Nil2)
  then have "filter ?p ?L = take n (drop i ?L)"
    by (simp only: append_take_drop_id)
  then show ?thesis
    using assms len
    by (simp add: GetLogSlices_def Let_def reslice_def i_def n_def lastIndex_def algebra_simps)
qed

text \<open>C24: a crash and a restart lose nothing that was persisted. \<^verbatim>\<open>Make\<close> on the
  storage written by \<^verbatim>\<open>persist\<close> succeeds and restores term, vote, log, index and term of the
  snapshot boundary, and the snapshot itself; the peer starts as a follower with nothing
  committed or applied and is well-formed again. On empty storage it starts in term 0 with no
  vote and the placeholder entry only.\<close>

theorem persist_Make_roundtrip:
  assumes "wf_raft rf"
  shows "(\<exists>rf'. Make (peers rf) (me rf) (Copy (persister (persist rf))) clk = Some rf' \<and>
           CurrentTerm rf' = CurrentTerm rf \<and> VotedFor rf' = VotedFor rf \<and> Log rf' = Log rf \<and>
           LastIncludedIndex rf' = LastIncludedIndex rf \<and> LastIncludedTerm rf' = LastIncludedTerm rf \<and>
           ReadSnapshot (persister rf') = ReadSnapshot (persister rf) \<and> wf_raft rf' \<and> State rf' = Follower \<and>
           CommitIndex rf' = 0 \<and> LastApplied rf' = 0 \<and> \<not> mu rf' \<and> persister rf' = persister (persist rf)) \<and>
         (\<exists>rf0. Make (peers rf) (me rf) MakePersister clk = Some rf0 \<and>
           CurrentTerm rf0 = 0 \<and> VotedFor rf0 = NotVoted \<and> Log rf0 = [zeroEntry] \<and> LastIncludedIndex rf0 = 0)"
proof -
  let ?r0 = "resetTimer clk \<lparr>mu = False, peers = peers rf, persister = persister (persist rf),
      me = me rf, dead = False, CurrentTerm = 0, VotedFor = NotVoted, Log = [zeroEntry],
      State = Follower, Majority = int (peers rf) div 2 + 1, CommitIndex = 0, LastApplied = 0,
      LastContect = 0, ElectionTimeout = 0, NextIndex = replicate (peers rf) 0,
      MatchIndex = replicate (peers rf) 0, applyWaiting = False, LastIncludedIndex = 0,
      LastIncludedTerm = 0\<rparr>"
  have "Make (peers rf) (me rf) (Copy (persister (persist rf))) clk =
      Some (?r0\<lparr>CurrentTerm := CurrentTerm rf, VotedFor := VotedFor rf, Log := Log rf,
        LastIncludedIndex := LastIncludedIndex rf, LastIncludedTerm := LastIncludedTerm rf\<rparr>)"
    by (simp add: Make_def ReadRaftState_def Let_def)
  then show ?thesis
    using assms by (simp add: wf_raft_def ReadSnapshot_def Make_def readPersist_def ReadRaftState_def MakePersister_def Let_def)
qed

theorem persist_Make_roundtrip_witness:
  "\<exists>rf'. Make 3 0 (Copy (persister (persist examplePeer))) (5, 9) = Some rf' \<and> CurrentTerm rf' = 2 \<and> VotedFor rf' = 0 \<and>
     map leIndex (Log rf') = [0, 1, 2] \<and> State rf' = Follower \<and> CommitIndex rf' = 0 \<and> ReadSnapshot (persister rf') = [7]"
proof -
  have "wf_raft examplePeer" by simp
  from persist_Make_roundtrip [OF this, of "(5, 9)"] show ?thesis
    by (auto simp: examplePeer_def zeroEntry_def ReadSnapshot_def)
qed

end
