(* ===== verification/Raft_Contract.thy ===== *)
theory Raft_Contract
  imports Raft_State
begin

text \<open>
  The contract that every operation of a peer keeps, as an interface: it does not panic on
  a well-formed peer, keeps the peer well-formed, keeps on stable storage everything the
  peer may have promised to others, and only moves term and vote forward. The theories of
  the handlers interpret \<open>raft_operation\<close> on the handlers; runs of operations are dealt
  with once, here.
\<close>

text \<open>What a restart would read: an empty buffer means the initial state of
  \<^verbatim>\<open>Make\<close>.\<close>

definition savedState :: "('c, 's) Raft \<Rightarrow> 'c gobval list" where
  "savedState rf =
     (if raftstate (persister rf) = []
      then [GInt 0, GInt NotVoted, GLog [zeroEntry], GInt 0, GInt 0]
      else raftstate (persister rf))"

text \<open>The stored log is the current one, the stored term is not ahead, and a vote that has
  been cast in the current term is stored with its term.\<close>

definition durable :: "('c, 's) Raft \<Rightarrow> bool" where
  "durable rf \<longleftrightarrow>
     (\<exists>t v. savedState rf = [GInt t, GInt v, GLog (Log rf), GInt (LastIncludedIndex rf),
                             GInt (LastIncludedTerm rf)] \<and>
        t \<le> CurrentTerm rf \<and>
        (VotedFor rf \<noteq> NotVoted \<longrightarrow> t = CurrentTerm rf \<and> v = VotedFor rf))"

text \<open>Identity never changes, the term never decreases, and within a term a cast vote is
  never changed.\<close>

definition evolves :: "('c, 's) Raft \<Rightarrow> ('c, 's) Raft \<Rightarrow> bool" where
  "evolves rf rf' \<longleftrightarrow>
     me rf' = me rf \<and> peers rf' = peers rf \<and> Majority rf' = Majority rf \<and>
     CurrentTerm rf \<le> CurrentTerm rf' \<and>
     (CurrentTerm rf' = CurrentTerm rf \<longrightarrow> VotedFor rf \<noteq> NotVoted \<longrightarrow> VotedFor rf' = VotedFor rf)"

lemma evolves_refl [simp]: "evolves rf rf"
  by (simp add: evolves_def)

lemma evolves_trans: "evolves a b \<Longrightarrow> evolves b c \<Longrightarrow> evolves a c"
  by (auto simp: evolves_def)

lemma Encode_not_Nil [simp]: "EncodeRaftState rf \<noteq> []" "[] \<noteq> EncodeRaftState rf"
  by (simp_all add: EncodeRaftState_def)

lemma savedState_persist [simp]: "savedState (persist rf) = EncodeRaftState rf"
  by (simp add: savedState_def EncodeRaftState_def)

lemma savedState_reset [simp]: "savedState (resetTimer k rf) = savedState rf"
  by (simp add: savedState_def)

lemma durable_persist [simp]: "durable (persist rf)"
  by (simp add: durable_def EncodeRaftState_def)

lemma durable_reset [simp]: "durable (resetTimer k rf) = durable rf"
  by (simp add: durable_def)

lemma evolves_frame [simp]:
  "evolves a (persist b) = evolves a b" "evolves a (resetTimer k b) = evolves a b"
  by (simp_all add: evolves_def)

text \<open>An operation writes the whole state to stable storage or nothing at all.\<close>

definition saves :: "('c, 's) Raft \<Rightarrow> ('c, 's) Raft \<Rightarrow> bool" where
  "saves rf rf' \<longleftrightarrow> savedState rf' = savedState rf \<or> savedState rf' = EncodeRaftState rf'"

lemma saves_refl [simp]: "saves rf rf"
  by (simp add: saves_def)

lemma saves_persist [simp]: "saves rf (persist rf')" "saves rf (resetTimer k (persist rf'))"
  by (simp_all add: saves_def)

text \<open>A restart of a peer whose promises are durable: it comes back with the same log and
  snapshot boundary, and in its current term if it has voted there.\<close>

lemma restart_durable:
  assumes wf: "wf_raft rf" and du: "durable rf"
  obtains rf' where
    "Make (peers rf) (me rf) (Copy (persister rf)) clk = Some rf'"
    "wf_raft rf'" "durable rf'" "Log rf' = Log rf" "LastIncludedIndex rf' = LastIncludedIndex rf"
    "LastIncludedTerm rf' = LastIncludedTerm rf" "CurrentTerm rf' \<le> CurrentTerm rf"
    "VotedFor rf \<noteq> NotVoted \<Longrightarrow> CurrentTerm rf' = CurrentTerm rf \<and> VotedFor rf' = VotedFor rf"
    "savedState rf' = savedState rf" "State rf' = Follower" "me rf' = me rf" "peers rf' = peers rf"
    "CommitIndex rf' = 0" "\<not> mu rf'" "LastApplied rf' = 0"
    "GInt (CurrentTerm rf') = savedState rf ! 0" "GInt (VotedFor rf') = savedState rf ! 1"
proof -
  from du obtain t v where sv: "savedState rf =
        [GInt t, GInt v, GLog (Log rf), GInt (LastIncludedIndex rf), GInt (LastIncludedTerm rf)]"
      and t: "t \<le> CurrentTerm rf" "VotedFor rf \<noteq> NotVoted \<longrightarrow> t = CurrentTerm rf \<and> v = VotedFor rf"
    by (auto simp: durable_def)
  let ?r0 = "resetTimer clk \<lparr>mu = False, peers = peers rf, persister = persister rf,
      me = me rf, dead = False, CurrentTerm = 0, VotedFor = NotVoted, Log = [zeroEntry],
      State = Follower, Majority = int (peers rf) div 2 + 1, CommitIndex = 0, LastApplied = 0,
      LastContect = 0, ElectionTimeout = 0, NextIndex = replicate (peers rf) 0,
      MatchIndex = replicate (peers rf) 0, applyWaiting = False, LastIncludedIndex = 0,
      LastIncludedTerm = 0\<rparr>"
  let ?r = "?r0\<lparr>CurrentTerm := t, VotedFor := v, Log := Log rf,
        LastIncludedIndex := LastIncludedIndex rf, LastIncludedTerm := LastIncludedTerm rf\<rparr>"
  have mk: "Make (peers rf) (me rf) (Copy (persister rf)) clk = Some ?r"
    using sv by (auto simp: Make_def ReadRaftState_def Let_def readPersist_def savedState_def
        resetTimer_def split: if_splits)
  have sv': "savedState ?r = savedState rf" by (simp add: savedState_def)
  show ?thesis
    by (rule that [OF mk])
       (use wf sv sv' t in \<open>simp_all add: wf_raft_def durable_def\<close>)
qed

section \<open>Promises\<close>

text \<open>A vote for candidate \<open>c\<close> in term \<open>t\<close> binds the peer, now and after a restart: it has
  left the term or its vote there is \<open>c\<close>, and so says its storage.\<close>

definition binds :: "int \<Rightarrow> int \<Rightarrow> int \<Rightarrow> int \<Rightarrow> bool" where
  "binds t c t' v' \<longleftrightarrow> t < t' \<or> t = t' \<and> v' = c"

definition promised :: "int \<Rightarrow> nat \<Rightarrow> ('c, 's) Raft \<Rightarrow> bool" where
  "promised t c rf \<longleftrightarrow> binds t (int c) (CurrentTerm rf) (VotedFor rf) \<and>
     (\<exists>t' v'. savedState rf ! 0 = GInt t' \<and> savedState rf ! 1 = GInt v' \<and> binds t (int c) t' v')"

definition keeps_promises :: "('c, 's) Raft \<Rightarrow> ('c, 's) Raft \<Rightarrow> bool" where
  "keeps_promises rf rf' \<longleftrightarrow> (\<forall>t c. promised t c rf \<longrightarrow> promised t c rf')"

text \<open>Peer \<open>i\<close> of \<open>n\<close> is in order.\<close>

definition node_ok :: "nat \<Rightarrow> nat \<Rightarrow> ('c, 's) Raft \<Rightarrow> bool" where
  "node_ok n i rf \<longleftrightarrow> wf_raft rf \<and> durable rf \<and> me rf = i \<and> peers rf = n"

lemma promised_same: "promised t c rf \<Longrightarrow> promised t c' rf \<Longrightarrow> CurrentTerm rf = t \<Longrightarrow> c = c'"
  by (auto simp: promised_def binds_def)

lemma promised_current:
  "promised t c rf \<Longrightarrow> t \<le> CurrentTerm rf" "promised t c rf \<Longrightarrow> t = CurrentTerm rf \<Longrightarrow> VotedFor rf = int c"
  by (auto simp: promised_def binds_def)

lemma promised_evolves:
  assumes "promised t c rf" "evolves rf rf'" "saves rf rf'"
  shows "promised t c rf'"
proof -
  have "int c \<noteq> NotVoted" by (simp add: NotVoted_def)
  then have "binds t (int c) (CurrentTerm rf') (VotedFor rf')"
    using assms(1,2) by (auto simp: promised_def binds_def evolves_def)
  then show ?thesis
    using assms(1,3) by (auto simp: promised_def saves_def EncodeRaftState_def)
qed

lemma keeps_promises_evolves: "evolves rf rf' \<Longrightarrow> saves rf rf' \<Longrightarrow> keeps_promises rf rf'"
  using promised_evolves by (auto simp: keeps_promises_def)

lemma node_keep:
  assumes "node_ok n i rf" "wf_raft rf'" "durable rf'" "evolves rf rf'" "saves rf rf'"
  shows "node_ok n i rf' \<and> keeps_promises rf rf'"
  using assms keeps_promises_evolves [OF assms(4,5)] by (simp add: node_ok_def evolves_def)

lemma restart_keeps:
  assumes ok: "node_ok n i rf"
  obtains rf' where "Make n i (Copy (persister rf)) clk = Some rf'" "node_ok n i rf'" "keeps_promises rf rf'"
    "State rf' = Follower" "Log rf' = Log rf" "LastIncludedIndex rf' = LastIncludedIndex rf"
    "LastIncludedTerm rf' = LastIncludedTerm rf" "CurrentTerm rf' \<le> CurrentTerm rf"
proof -
  from ok have wf: "wf_raft rf" and du: "durable rf" and [simp]: "me rf = i" "peers rf = n"
    by (simp_all add: node_ok_def)
  from wf du obtain rf' where r: "Make (peers rf) (me rf) (Copy (persister rf)) clk = Some rf'"
      "wf_raft rf'" "durable rf'" "savedState rf' = savedState rf" "State rf' = Follower" "me rf' = me rf"
      "peers rf' = peers rf" "Log rf' = Log rf" "LastIncludedIndex rf' = LastIncludedIndex rf"
      "LastIncludedTerm rf' = LastIncludedTerm rf" "CurrentTerm rf' \<le> CurrentTerm rf"
      and sv: "GInt (CurrentTerm rf') = savedState rf ! 0" "GInt (VotedFor rf') = savedState rf ! 1"
    by (rule restart_durable)
  have "promised t c rf'" if "promised t c rf" for t c
    using that r(4) sv unfolding promised_def by (metis gobval.inject(1))
  then show ?thesis
    using r by (intro that [of rf']) (auto simp: node_ok_def keeps_promises_def)
qed

section \<open>Operations and runs of operations\<close>

text \<open>Running an operation on a sequence of inputs, stopping at a panic.\<close>

fun run_op :: "('i \<Rightarrow> ('c, 's) Raft \<Rightarrow> (('c, 's) Raft \<times> 'o) option) \<Rightarrow> 'i list \<Rightarrow> ('c, 's) Raft \<Rightarrow>
    (('c, 's) Raft \<times> 'o list) option" where
  "run_op f [] rf = Some (rf, [])"
| "run_op f (i # is) rf =
     do { (rf1, out) \<leftarrow> f i rf; (rf2, outs) \<leftarrow> run_op f is rf1; Some (rf2, out # outs) }"

locale raft_operation =
  fixes op :: "'i \<Rightarrow> ('c, 's) Raft \<Rightarrow> (('c, 's) Raft \<times> 'o) option"
    and valid :: "'i \<Rightarrow> bool"
  assumes total: "wf_raft rf \<Longrightarrow> valid i \<Longrightarrow> \<exists>rf' out. op i rf = Some (rf', out)"
    and keeps_wf: "wf_raft rf \<Longrightarrow> valid i \<Longrightarrow> op i rf = Some (rf', out) \<Longrightarrow> wf_raft rf'"
    and keeps_durable: "wf_raft rf \<Longrightarrow> durable rf \<Longrightarrow> valid i \<Longrightarrow> op i rf = Some (rf', out) \<Longrightarrow> durable rf'"
    and keeps_evolves: "op i rf = Some (rf', out) \<Longrightarrow> evolves rf rf'"
    and keeps_saved: "wf_raft rf \<Longrightarrow> valid i \<Longrightarrow> op i rf = Some (rf', out) \<Longrightarrow> saves rf rf'"
begin

lemma op_node_ok:
  assumes "node_ok n i rf" "valid inp" "op inp rf = Some (rf', out)"
  shows "node_ok n i rf' \<and> keeps_promises rf rf'"
  using assms keeps_wf keeps_durable keeps_evolves keeps_saved
  by (intro node_keep) (auto simp: node_ok_def)

text \<open>Any sequence of valid invocations runs without a panic and keeps the contract.\<close>

lemma run_ok:
  "wf_raft rf \<Longrightarrow> durable rf \<Longrightarrow> \<forall>i \<in> set is. valid i \<Longrightarrow>
     \<exists>rf' outs. run_op op is rf = Some (rf', outs) \<and> wf_raft rf' \<and> durable rf' \<and> evolves rf rf' \<and>
       length outs = length is"
proof (induction "is" arbitrary: rf)
  case Nil
  then show ?case by simp
next
  case (Cons i "is")
  then have v: "valid i" by simp
  obtain rf1 out where s: "op i rf = Some (rf1, out)" using total Cons.prems(1) v by blast
  have "wf_raft rf1" "durable rf1" using keeps_wf keeps_durable Cons.prems v s by blast+
  then obtain rf' outs where "run_op op is rf1 = Some (rf', outs)" "wf_raft rf'" "durable rf'"
      "evolves rf1 rf'" "length outs = length is"
    using Cons.IH Cons.prems(3) by (metis list.set_intros(2))
  then show ?case using s keeps_evolves [OF s] by (auto intro: evolves_trans)
qed

end

end
