(* ===== verification/Raft_Election.thy ===== *)
theory Raft_Election
  imports Raft_Contract
begin

text \<open>
  Leader election of \<^verbatim>\<open>src/raft1/raft.go\<close>: the \<^verbatim>\<open>RequestVote\<close> handler, the
  two halves of \<^verbatim>\<open>AttemptElection\<close> (starting an election under the mutex, and the
  goroutine that handles one reply under the mutex), \<^verbatim>\<open>BecomeLeader\<close> and the election
  branch of \<^verbatim>\<open>ticker\<close>. The vote counter \<^verbatim>\<open>voteSum\<close> is a local variable that
  the goroutines of one election share; it is passed in and out explicitly.
\<close>

record RequestVoteArgs =
  rvTerm :: int
  rvCandidateID :: nat
  rvLastLogIndex :: int
  rvLastLogTerm :: int

record RequestVoteReply =
  rvrTerm :: int
  rvrVoteGrabted :: bool

definition RequestVote ::
    "clock \<Rightarrow> RequestVoteArgs \<Rightarrow> ('c, 's) Raft \<Rightarrow> (('c, 's) Raft \<times> RequestVoteReply) option" where
  "RequestVote clk args rf =
     (if rvTerm args < CurrentTerm rf
      then Some (rf, \<lparr>rvrTerm = CurrentTerm rf, rvrVoteGrabted = False\<rparr>)
      else
        let rf1 = (if rvTerm args > CurrentTerm rf
                   then persist (rf\<lparr>CurrentTerm := rvTerm args, VotedFor := NotVoted, State := Follower\<rparr>)
                   else rf);
            refuse = \<lparr>rvrTerm = CurrentTerm rf1, rvrVoteGrabted = False\<rparr>
        in if VotedFor rf1 \<noteq> NotVoted \<and> VotedFor rf1 \<noteq> int (rvCandidateID args)
           then Some (rf1, refuse)
           else do {
             lastLog \<leftarrow> GetLastLog rf1;
             if rvLastLogTerm args < leTerm lastLog then Some (rf1, refuse)
             else if rvLastLogTerm args = leTerm lastLog \<and> rvLastLogIndex args < leIndex lastLog
             then Some (rf1, refuse)
             else Some (resetTimer clk (persist (rf1\<lparr>VotedFor := int (rvCandidateID args)\<rparr>)),
                        refuse\<lparr>rvrVoteGrabted := True\<rparr>)
           })"

text \<open>The first critical section: the new state, the arguments of every
  \<^verbatim>\<open>RequestVote\<close> call it sends (one per other peer) and the initial vote count.\<close>

definition AttemptElection ::
    "clock \<Rightarrow> ('c, 's) Raft \<Rightarrow> (('c, 's) Raft \<times> RequestVoteArgs \<times> int) option" where
  "AttemptElection clk rf =
     (let rf1 = rf\<lparr>State := Candidate, CurrentTerm := CurrentTerm rf + 1, VotedFor := int (me rf)\<rparr>
      in do {
        lastLog \<leftarrow> GetLastLog rf1;
        Some (persist (resetTimer clk rf1),
              \<lparr>rvTerm = CurrentTerm rf1, rvCandidateID = me rf1,
               rvLastLogIndex = leIndex lastLog, rvLastLogTerm = leTerm lastLog\<rparr>, 1)
      })"

text \<open>The peers that a loop over \<^verbatim>\<open>rf.peers\<close> skipping \<^verbatim>\<open>rf.me\<close> visits.\<close>

definition otherPeers :: "('c, 's) Raft \<Rightarrow> nat list" where
  "otherPeers rf = filter (\<lambda>i. i \<noteq> me rf) [0..<peers rf]"

definition BecomeLeader :: "('c, 's) Raft \<Rightarrow> ('c, 's) Raft option" where
  "BecomeLeader rf =
     (let rf1 = rf\<lparr>State := Leader\<rparr> in do {
        lastlog \<leftarrow> GetLastLog rf1;
        if peers rf1 \<le> length (NextIndex rf1) \<and> peers rf1 \<le> length (MatchIndex rf1)
        then Some (rf1\<lparr>NextIndex := map (\<lambda>i. if i < peers rf1 then leIndex lastlog + 1 else NextIndex rf1 ! i)
                                       [0..<length (NextIndex rf1)],
                      MatchIndex := map (\<lambda>i. if i < peers rf1 then 0 else MatchIndex rf1 ! i)
                                       [0..<length (MatchIndex rf1)]\<rparr>)
        else None
      })"

text \<open>The critical section of one election goroutine after its RPC. \<open>None\<close> as the reply is
  a failed call. The last component says whether the goroutine goes on to
  \<^verbatim>\<open>BroadcastEntries\<close>.\<close>

definition HandleVoteReply ::
    "RequestVoteArgs \<Rightarrow> RequestVoteReply option \<Rightarrow> int \<Rightarrow> ('c, 's) Raft \<Rightarrow>
       (('c, 's) Raft \<times> int \<times> bool) option" where
  "HandleVoteReply args rep voteSum rf =
     (case rep of
        None \<Rightarrow> Some (rf, voteSum, False)
      | Some reply \<Rightarrow>
          if State rf \<noteq> Candidate \<or> CurrentTerm rf \<noteq> rvTerm args then Some (rf, voteSum, False)
          else if rvrTerm reply > CurrentTerm rf
          then Some (persist (rf\<lparr>State := Follower, CurrentTerm := rvrTerm reply\<rparr>), voteSum, False)
          else if rvrVoteGrabted reply
          then (if voteSum + 1 \<ge> Majority rf \<and> State rf = Candidate
                then do { rf' \<leftarrow> BecomeLeader rf; Some (rf', voteSum + 1, True) }
                else Some (rf, voteSum + 1, False))
          else Some (rf, voteSum, False))"

text \<open>One iteration of \<^verbatim>\<open>ticker\<close>: what it does after reading the clock. A leader sends a
  round of heartbeats; anyone else starts an election when the timer has expired.\<close>

datatype tick = TickStop | TickBroadcast | TickElection | TickIdle

definition ticker :: "int \<Rightarrow> ('c, 's) Raft \<Rightarrow> tick" where
  "ticker now rf =
     (if killed rf then TickStop
      else if State rf = Leader then TickBroadcast
      else if now - LastContect rf > ElectionTimeout rf then TickElection
      else TickIdle)"

section \<open>What the election operations keep\<close>

lemma otherPeers_set [simp]: "set (otherPeers rf) = {i. i < peers rf \<and> i \<noteq> me rf}"
  by (auto simp: otherPeers_def)

lemma distinct_otherPeers [simp]: "distinct (otherPeers rf)"
  by (simp add: otherPeers_def)

lemma GetLastLog_upd [simp]:
  "GetLastLog (rf\<lparr>State := st\<rparr>) = GetLastLog rf" "GetLastLog (rf\<lparr>CurrentTerm := t\<rparr>) = GetLastLog rf"
  "GetLastLog (rf\<lparr>VotedFor := v\<rparr>) = GetLastLog rf"
  "GetLastLog (rf\<lparr>State := st, CurrentTerm := t, VotedFor := v\<rparr>) = GetLastLog rf"
  "GetLastLog (rf\<lparr>CurrentTerm := t, VotedFor := v, State := st\<rparr>) = GetLastLog rf"
  by (simp_all add: GetLastLog_def)

lemma BecomeLeader_wf_eq:
  assumes "wf_raft rf"
  shows "BecomeLeader rf =
     Some (rf\<lparr>State := Leader, NextIndex := replicate (peers rf) (lastIndex rf + 1),
             MatchIndex := replicate (peers rf) 0\<rparr>)"
proof -
  have *: "map (\<lambda>i. if i < n then (c :: int) else f i) [0..<n] = replicate n c" for n c f
    by (rule nth_equalityI) auto
  show ?thesis
    using wf_raftD[OF assms] assms
    by (simp add: BecomeLeader_def GetLastLog_Some last_leIndex *)
qed

lemma RequestVote_cases:
  assumes "RequestVote clk args rf = Some (rf', reply)"
  obtains (stale) "rvTerm args < CurrentTerm rf" "rf' = rf" "\<not> rvrVoteGrabted reply"
      "rvrTerm reply = CurrentTerm rf"
  | (refused) "CurrentTerm rf \<le> rvTerm args" "\<not> rvrVoteGrabted reply" "rvrTerm reply = rvTerm args"
      "rf' = (if rvTerm args > CurrentTerm rf
              then persist (rf\<lparr>CurrentTerm := rvTerm args, VotedFor := NotVoted, State := Follower\<rparr>)
              else rf)"
  | (granted) rf1 where "CurrentTerm rf \<le> rvTerm args" "rvrVoteGrabted reply" "rvrTerm reply = rvTerm args"
      "rf1 = (if rvTerm args > CurrentTerm rf
              then persist (rf\<lparr>CurrentTerm := rvTerm args, VotedFor := NotVoted, State := Follower\<rparr>)
              else rf)"
      "rf' = resetTimer clk (persist (rf1\<lparr>VotedFor := int (rvCandidateID args)\<rparr>))"
      "VotedFor rf1 = NotVoted \<or> VotedFor rf1 = int (rvCandidateID args)"
      "Log rf \<noteq> []"
      "leTerm (last (Log rf)) < rvLastLogTerm args \<or>
         leTerm (last (Log rf)) = rvLastLogTerm args \<and> leIndex (last (Log rf)) \<le> rvLastLogIndex args"
proof (cases "rvTerm args < CurrentTerm rf")
  case True
  then show ?thesis using assms by (intro stale) (auto simp: RequestVote_def)
next
  case False
  define rf1 where "rf1 = (if rvTerm args > CurrentTerm rf
              then persist (rf\<lparr>CurrentTerm := rvTerm args, VotedFor := NotVoted, State := Follower\<rparr>)
              else rf)"
  have ct: "CurrentTerm rf1 = rvTerm args" using False by (simp add: rf1_def)
  have gl: "GetLastLog rf1 = GetLastLog rf" by (simp add: rf1_def)
  have unf: "RequestVote clk args rf =
      (if VotedFor rf1 \<noteq> NotVoted \<and> VotedFor rf1 \<noteq> int (rvCandidateID args)
       then Some (rf1, \<lparr>rvrTerm = CurrentTerm rf1, rvrVoteGrabted = False\<rparr>)
       else do {
         lastLog \<leftarrow> GetLastLog rf;
         if rvLastLogTerm args < leTerm lastLog \<or>
            rvLastLogTerm args = leTerm lastLog \<and> rvLastLogIndex args < leIndex lastLog
         then Some (rf1, \<lparr>rvrTerm = CurrentTerm rf1, rvrVoteGrabted = False\<rparr>)
         else Some (resetTimer clk (persist (rf1\<lparr>VotedFor := int (rvCandidateID args)\<rparr>)),
                    \<lparr>rvrTerm = CurrentTerm rf1, rvrVoteGrabted = True\<rparr>)
       })"
    unfolding RequestVote_def Let_def rf1_def [symmetric] gl using False
    by (cases "GetLastLog rf") simp_all
  show ?thesis
  proof (cases "rvrVoteGrabted reply")
    case True
    then show ?thesis
      using assms False ct unfolding unf
      by (intro granted [OF _ _ _ rf1_def])
         (auto simp: bind_Some_iff GetLastLog_eq_Some split: if_splits)
  next
    case no: False
    then have "rf' = rf1" "rvrTerm reply = rvTerm args"
      using assms ct unfolding unf by (auto simp: bind_Some_iff split: if_splits)
    then show ?thesis using False no by (intro refused) (simp_all add: rf1_def)
  qed
qed


lemma wf_raft_upd [simp]:
  "wf_raft (rf\<lparr>CurrentTerm := t\<rparr>) = wf_raft rf" "wf_raft (rf\<lparr>VotedFor := v\<rparr>) = wf_raft rf"
  "wf_raft (rf\<lparr>State := st\<rparr>) = wf_raft rf" "wf_raft (rf\<lparr>CommitIndex := ci\<rparr>) = wf_raft rf"
  "wf_raft (rf\<lparr>LastApplied := la\<rparr>) = wf_raft rf" "wf_raft (rf\<lparr>applyWaiting := aw\<rparr>) = wf_raft rf"
  "wf_raft (rf\<lparr>mu := m\<rparr>) = wf_raft rf" "wf_raft (rf\<lparr>persister := ps\<rparr>) = wf_raft rf"
  by (simp_all add: wf_raft_def)

lemma wf_raft_upd3 [simp]:
  "wf_raft (rf\<lparr>CurrentTerm := t, VotedFor := v\<rparr>) = wf_raft rf"
  "wf_raft (rf\<lparr>CurrentTerm := t, VotedFor := v, State := st\<rparr>) = wf_raft rf"
  "wf_raft (rf\<lparr>State := st, CurrentTerm := t, VotedFor := v\<rparr>) = wf_raft rf"
  "wf_raft (rf\<lparr>State := st, CurrentTerm := t\<rparr>) = wf_raft rf"
  "wf_raft (rf\<lparr>CurrentTerm := t, State := st\<rparr>) = wf_raft rf"
  "wf_raft (rf\<lparr>CurrentTerm := t, State := st, VotedFor := v\<rparr>) = wf_raft rf"
  "wf_raft (rf\<lparr>CommitIndex := ci, applyWaiting := aw\<rparr>) = wf_raft rf"
  by (simp_all add: wf_raft_def)

lemma RequestVote_evolves: "RequestVote clk args rf = Some (rf', r) \<Longrightarrow> evolves rf rf'"
  by (erule RequestVote_cases) (auto simp: evolves_def)

lemma RequestVote_total: "wf_raft rf \<Longrightarrow> \<exists>rf' r. RequestVote clk args rf = Some (rf', r)"
  by (auto simp: RequestVote_def Let_def GetLastLog_Some wf_raftD(1))

lemma RequestVote_wf: "wf_raft rf \<Longrightarrow> RequestVote clk args rf = Some (rf', r) \<Longrightarrow> wf_raft rf'"
  by (erule RequestVote_cases) auto

lemma RequestVote_durable: "durable rf \<Longrightarrow> RequestVote clk args rf = Some (rf', r) \<Longrightarrow> durable rf'"
  by (erule RequestVote_cases) auto

lemma RequestVote_saves: "RequestVote clk args rf = Some (rf', r) \<Longrightarrow> saves rf rf'"
  by (erule RequestVote_cases) auto

interpretation rv: raft_operation "\<lambda>(clk, args). RequestVote clk args" "\<lambda>_. True"
  by unfold_locales
     (auto simp: RequestVote_total intro: RequestVote_wf RequestVote_durable RequestVote_evolves
       RequestVote_saves)

lemma AttemptElection_eq:
  assumes "Log rf \<noteq> []"
  shows "AttemptElection clk rf =
     Some (persist (resetTimer clk (rf\<lparr>State := Candidate, CurrentTerm := CurrentTerm rf + 1,
                                      VotedFor := int (me rf)\<rparr>)),
           \<lparr>rvTerm = CurrentTerm rf + 1, rvCandidateID = me rf,
            rvLastLogIndex = leIndex (last (Log rf)), rvLastLogTerm = leTerm (last (Log rf))\<rparr>, 1)"
  using assms by (simp add: AttemptElection_def Let_def GetLastLog_Some)

lemma AttemptElection_Some:
  assumes "AttemptElection clk rf = Some (rf', args, n)"
  shows "Log rf \<noteq> []"
    "rf' = persist (resetTimer clk (rf\<lparr>State := Candidate, CurrentTerm := CurrentTerm rf + 1,
                                      VotedFor := int (me rf)\<rparr>))"
    "args = \<lparr>rvTerm = CurrentTerm rf + 1, rvCandidateID = me rf,
            rvLastLogIndex = leIndex (last (Log rf)), rvLastLogTerm = leTerm (last (Log rf))\<rparr>"
    "n = 1"
  using assms by (auto simp: AttemptElection_def Let_def bind_Some_iff GetLastLog_eq_Some)

interpretation elect: raft_operation "\<lambda>clk rf. AttemptElection clk rf" "\<lambda>_. True"
  by unfold_locales
     (auto simp: AttemptElection_eq wf_raftD(1) evolves_def dest!: AttemptElection_Some(2))

lemma BecomeLeader_Some:
  assumes "BecomeLeader rf = Some rf'"
  obtains ni mi where "rf' = rf\<lparr>State := Leader, NextIndex := ni, MatchIndex := mi\<rparr>"
    "length ni = length (NextIndex rf)" "length mi = length (MatchIndex rf)"
  using assms by (auto simp: BecomeLeader_def Let_def bind_Some_iff split: if_splits)

lemma HandleVoteReply_cases:
  assumes "HandleVoteReply args rep vs rf = Some (rf', vs', b)"
  obtains (ignored) "rf' = rf" "vs' = vs" "\<not> b"
      "\<forall>r. rep = Some r \<longrightarrow> State rf = Candidate \<longrightarrow> CurrentTerm rf = rvTerm args \<longrightarrow> \<not> rvrVoteGrabted r"
  | (stepdown) r where "rep = Some r" "rvrTerm r > CurrentTerm rf" "vs' = vs" "\<not> b"
      "rf' = persist (rf\<lparr>State := Follower, CurrentTerm := rvrTerm r\<rparr>)"
      "State rf = Candidate" "CurrentTerm rf = rvTerm args"
  | (counted) r where "rep = Some r" "rvrVoteGrabted r" "rf' = rf" "vs' = vs + 1" "\<not> b"
      "State rf = Candidate" "CurrentTerm rf = rvTerm args" "vs + 1 < Majority rf"
  | (elected) r where "rep = Some r" "rvrVoteGrabted r" "BecomeLeader rf = Some rf'" "vs' = vs + 1" "b"
      "State rf = Candidate" "CurrentTerm rf = rvTerm args" "Majority rf \<le> vs + 1"
      "rvrTerm r \<le> CurrentTerm rf"
proof (cases rep)
  case None
  with assms show ?thesis by (intro ignored) (auto simp: HandleVoteReply_def)
next
  case (Some r)
  note A = assms [unfolded HandleVoteReply_def Some option.case]
  show ?thesis
  proof (cases "State rf \<noteq> Candidate \<or> CurrentTerm rf \<noteq> rvTerm args")
    case True
    with A Some show ?thesis by (intro ignored) auto
  next
    case act: False
    show ?thesis
    proof (cases "rvrTerm r > CurrentTerm rf")
      case True
      with A act Some show ?thesis by (intro stepdown) auto
    next
      case nt: False
      show ?thesis
      proof (cases "rvrVoteGrabted r")
        case True
        show ?thesis
        proof (cases "vs + 1 \<ge> Majority rf")
          case mj: True
          with A act nt True Some show ?thesis by (intro elected) (auto simp: bind_Some_iff)
        next
          case False
          with A act nt True Some show ?thesis by (intro counted) auto
        qed
      next
        case False
        with A act nt Some show ?thesis by (intro ignored) auto
      qed
    qed
  qed
qed


lemma HandleVoteReply_total: "wf_raft rf \<Longrightarrow> \<exists>rf' n b. HandleVoteReply args rep vs rf = Some (rf', n, b)"
  by (auto simp: HandleVoteReply_def BecomeLeader_wf_eq split: option.splits)

lemma BecomeLeader_wf: "wf_raft rf \<Longrightarrow> BecomeLeader rf = Some rf' \<Longrightarrow> wf_raft rf'"
  by (auto simp: BecomeLeader_wf_eq wf_raft_def)

lemma durable_volatile [simp]:
  "durable (rf\<lparr>State := st, NextIndex := ni, MatchIndex := mi\<rparr>) = durable rf"
  "durable (rf\<lparr>State := st\<rparr>) = durable rf"
  "durable (rf\<lparr>CommitIndex := ci\<rparr>) = durable rf" "durable (rf\<lparr>applyWaiting := aw\<rparr>) = durable rf"
  "durable (rf\<lparr>NextIndex := ni\<rparr>) = durable rf" "durable (rf\<lparr>MatchIndex := mi\<rparr>) = durable rf"
  "durable (rf\<lparr>LastApplied := la\<rparr>) = durable rf" "durable (rf\<lparr>mu := m\<rparr>) = durable rf"
  by (simp_all add: durable_def savedState_def)

interpretation vote_reply: raft_operation "\<lambda>(args, rep, vs). HandleVoteReply args rep vs" "\<lambda>_. True"
proof (unfold_locales, goal_cases)
  case (1 rf i)
  then show ?case using HandleVoteReply_total by (cases i) auto
next
  case (2 rf i rf' out)
  then show ?case
    by (cases i; cases out) (auto elim!: HandleVoteReply_cases intro: BecomeLeader_wf)
next
  case (3 rf i rf' out)
  then show ?case
    by (cases i; cases out) (auto elim!: HandleVoteReply_cases BecomeLeader_Some)
next
  case (4 i rf rf' out)
  then show ?case
    by (cases i; cases out) (auto elim!: HandleVoteReply_cases BecomeLeader_Some simp: evolves_def)
next
  case (5 rf i rf' out)
  then show ?case
    by (cases i; cases out)
      (auto elim!: HandleVoteReply_cases BecomeLeader_Some simp: saves_def savedState_def)
qed

section \<open>Properties\<close>

text \<open>Whether the candidate's log is at least as up to date as the voter's.\<close>

definition up_to_date :: "RequestVoteArgs \<Rightarrow> ('c, 's) Raft \<Rightarrow> bool" where
  "up_to_date args rf \<longleftrightarrow>
     leTerm (last (Log rf)) < rvLastLogTerm args \<or>
     leTerm (last (Log rf)) = rvLastLogTerm args \<and> lastIndex rf \<le> rvLastLogIndex args"

text \<open>C21: \<^verbatim>\<open>RequestVote\<close> on a well-formed peer always answers, and grants the vote
  exactly when the candidate's term is not older, the peer has not voted for somebody else
  in that term, and the candidate's log is at least as up to date. A granted vote is in
  the state and on stable storage, in the candidate's term, before the reply is sent.\<close>

theorem RequestVote_grants_iff:
  assumes "wf_raft rf"
  shows "\<exists>rf' reply. RequestVote clk args rf = Some (rf', reply) \<and>
     (rvrVoteGrabted reply \<longleftrightarrow>
        CurrentTerm rf \<le> rvTerm args \<and>
        (CurrentTerm rf < rvTerm args \<or> VotedFor rf \<in> {NotVoted, int (rvCandidateID args)}) \<and>
        up_to_date args rf) \<and>
     rvrTerm reply = max (CurrentTerm rf) (rvTerm args) \<and>
     (rvrVoteGrabted reply \<longrightarrow>
        CurrentTerm rf' = rvTerm args \<and> VotedFor rf' = int (rvCandidateID args) \<and>
        savedState rf' = EncodeRaftState rf')"
proof (cases "rvTerm args < CurrentTerm rf")
  case True
  then show ?thesis by (simp add: RequestVote_def)
next
  case False
  then show ?thesis
    using assms
    by (cases "CurrentTerm rf < rvTerm args")
       (auto simp: RequestVote_def Let_def GetLastLog_Some wf_raftD(1) up_to_date_def
         last_leIndex EncodeRaftState_def)
qed

theorem RequestVote_grants_iff_witness:
  "\<exists>rf' reply. RequestVote (0, 0) \<lparr>rvTerm = 3, rvCandidateID = 1, rvLastLogIndex = 2, rvLastLogTerm = 2\<rparr>
      examplePeer = Some (rf', reply) \<and> rvrVoteGrabted reply \<and> VotedFor rf' = 1"
  using RequestVote_grants_iff [of examplePeer "(0, 0)"
      "\<lparr>rvTerm = 3, rvCandidateID = 1, rvLastLogIndex = 2, rvLastLogTerm = 2\<rparr>"]
  by (auto simp: examplePeer_def up_to_date_def wf_raft_def wf_log_def lastIndex_def)

text \<open>The reply goroutine of an election makes the peer leader exactly when the peer is
  still a candidate of the term it asked for, the reply grants the vote in a term that is
  not newer, and the counted votes reach the majority; the new leader then sends every peer
  what follows its own last entry and assumes nothing replicated.\<close>

lemma HandleVoteReply_elects_iff:
  assumes "wf_raft rf" and "State rf \<noteq> Leader"
  shows "\<exists>rf' n b. HandleVoteReply args (Some reply) voteSum rf = Some (rf', n, b) \<and>
     (State rf' = Leader \<longleftrightarrow>
        State rf = Candidate \<and> CurrentTerm rf = rvTerm args \<and> rvrTerm reply \<le> CurrentTerm rf \<and>
        rvrVoteGrabted reply \<and> Majority rf \<le> voteSum + 1) \<and>
     (State rf' = Leader \<longrightarrow>
        b \<and> CurrentTerm rf' = CurrentTerm rf \<and> Log rf' = Log rf \<and>
        (\<forall>i < peers rf'. NextIndex rf' ! i = lastIndex rf' + 1 \<and> MatchIndex rf' ! i = 0))"
  using assms by (auto simp: HandleVoteReply_def BecomeLeader_wf_eq lastIndex_def)

text \<open>C26: every timer reset draws an election timeout of at least 300 ms and less than
  500 ms; until it has passed \<^verbatim>\<open>ticker\<close> starts no election, and once it has passed a live
  peer that is not the leader starts one.\<close>

theorem election_timeout_bounds:
  assumes "0 \<le> r"
  shows "300 * Millisecond \<le> ElectionTimeout (resetTimer (t, r) rf) \<and>
    ElectionTimeout (resetTimer (t, r) rf) < 500 * Millisecond \<and>
    (now - t \<le> 300 * Millisecond \<longrightarrow> ticker now (resetTimer (t, r) rf) \<noteq> TickElection) \<and>
    (500 * Millisecond \<le> now - t \<and> State rf \<noteq> Leader \<and> \<not> killed rf \<longrightarrow>
       ticker now (resetTimer (t, r) rf) = TickElection)"
  using assms pos_mod_bound [of 200 r] pos_mod_sign [of 200 r]
  by (auto simp: resetTimer_def raft_consts ticker_def killed_def)

theorem election_timeout_bounds_witness:
  "300 * Millisecond \<le> ElectionTimeout (resetTimer (0, 1234) examplePeer) \<and>
    ElectionTimeout (resetTimer (0, 1234) examplePeer) < 500 * Millisecond"
  using election_timeout_bounds [of 1234 0 examplePeer 0] by simp

text \<open>A candidate that learns of a newer term from a vote reply adopts the term but keeps
  its vote for itself. In the adopted term it therefore refuses its vote to every other
  candidate, however up to date.\<close>

lemma stepdown_keeps_stale_vote:
  assumes "State rf = Candidate" "CurrentTerm rf = rvTerm args" "VotedFor rf = int (me rf)"
    and "CurrentTerm rf < rvrTerm reply"
  shows "\<exists>rf'. HandleVoteReply args (Some reply) voteSum rf = Some (rf', voteSum, False) \<and>
     CurrentTerm rf' = rvrTerm reply \<and> State rf' = Follower \<and>
     (\<forall>a clk. rvTerm a = CurrentTerm rf' \<longrightarrow> rvCandidateID a \<noteq> me rf \<longrightarrow>
        RequestVote clk a rf' = Some (rf', \<lparr>rvrTerm = rvTerm a, rvrVoteGrabted = False\<rparr>))"
  using assms by (auto simp: HandleVoteReply_def RequestVote_def NotVoted_def)

end
