(* ===== verification/Raft_Replication.thy ===== *)
theory Raft_Replication
  imports Raft_Election
begin

text \<open>
  Log replication of \<^verbatim>\<open>src/raft1/raft.go\<close>: the \<^verbatim>\<open>AppendEntries\<close> handler with
  its consistency check, \<^verbatim>\<open>Start\<close>, the goroutine of \<^verbatim>\<open>BroadcastEntries\<close> (what it
  sends, and how it handles the reply) and \<^verbatim>\<open>updateCommitIndex\<close>.
\<close>

record 'c AppendEntriesArgs =
  aeTerm :: int
  aeLeaderID :: nat
  aePrevLogIndex :: int
  aePrevLogTerm :: int
  aeEntries :: "'c LogEntry list"
  aeLeaderCommit :: int

record AppendEntriesReply =
  aerTerm :: int
  aerSuccess :: bool
  aerXTerm :: int
  aerXIndex :: int
  aerXLen :: int

definition zeroAppendReply :: AppendEntriesReply where
  "zeroAppendReply = \<lparr>aerTerm = 0, aerSuccess = False, aerXTerm = 0, aerXIndex = 0, aerXLen = 0\<rparr>"

text \<open>The loop that looks for the first index of the conflicting term.\<close>

function firstOfTerm :: "('c, 's) Raft \<Rightarrow> int \<Rightarrow> int \<Rightarrow> int" where
  "firstOfTerm rf xterm firstIndex =
     (if firstIndex > LastIncludedIndex rf
      then let (prevEntry, ok) = GetLogEntry rf (firstIndex - 1)
           in if \<not> ok \<or> leTerm prevEntry \<noteq> xterm then firstIndex
              else firstOfTerm rf xterm (firstIndex - 1)
      else firstIndex)"
  by pat_completeness auto
termination
  by (relation "measure (\<lambda>(rf, xterm, i). nat (i - LastIncludedIndex rf))") auto

declare firstOfTerm.simps [simp del]

definition checkLogConsistency ::
    "'c AppendEntriesArgs \<Rightarrow> AppendEntriesReply \<Rightarrow> ('c, 's) Raft \<Rightarrow> (bool \<times> AppendEntriesReply) option" where
  "checkLogConsistency args reply rf =
     (if aePrevLogIndex args < LastIncludedIndex rf
      then Some (False, reply\<lparr>aerSuccess := False, aerTerm := CurrentTerm rf,
                             aerXLen := LastIncludedIndex rf + 1\<rparr>)
      else
        let (prevLog, ok) = GetLogEntry rf (aePrevLogIndex args) in do {
          lastLog \<leftarrow> GetLastLog rf;
          if \<not> ok
          then Some (False, reply\<lparr>aerSuccess := False, aerXIndex := 0, aerXTerm := 0,
                                 aerXLen := leIndex lastLog + 1\<rparr>)
          else if leTerm prevLog \<noteq> aePrevLogTerm args
          then Some (False, reply\<lparr>aerSuccess := False, aerXTerm := leTerm prevLog,
                                 aerXIndex := firstOfTerm rf (leTerm prevLog) (leIndex prevLog)\<rparr>)
          else Some (True, reply)
        })"

text \<open>The loop over the new entries, with the index of the last entry read before it.\<close>

fun appendLoop :: "int \<Rightarrow> 'c LogEntry list \<Rightarrow> ('c, 's) Raft \<Rightarrow> ('c, 's) Raft option" where
  "appendLoop lastIdx [] rf = Some rf"
| "appendLoop lastIdx (newEntry # es) rf =
     (if leIndex newEntry > lastIdx
      then Some (rf\<lparr>Log := Log rf @ newEntry # es\<rparr>)
      else
        let curEntry = fst (GetLogEntry rf (leIndex newEntry))
        in if leTerm curEntry \<noteq> leTerm newEntry
           then let arrEndIdx = fst (ConvertToPhysicIdx rf (leIndex curEntry))
                in do { kept \<leftarrow> reslice (Log rf) 0 arrEndIdx;
                        Some (rf\<lparr>Log := kept @ newEntry # es\<rparr>) }
           else appendLoop lastIdx es rf)"

text \<open>\<^verbatim>\<open>defer rf.persist()\<close> runs on every return.\<close>

definition AppendEntries ::
    "clock \<Rightarrow> 'c AppendEntriesArgs \<Rightarrow> ('c, 's) Raft \<Rightarrow> (('c, 's) Raft \<times> AppendEntriesReply) option" where
  "AppendEntries clk args rf =
     (if aeTerm args < CurrentTerm rf
      then Some (persist rf, zeroAppendReply\<lparr>aerSuccess := False, aerTerm := CurrentTerm rf\<rparr>)
      else
        let rf1 = (if aeTerm args > CurrentTerm rf
                   then rf\<lparr>CurrentTerm := aeTerm args, VotedFor := NotVoted, State := Follower\<rparr> else rf);
            reply = zeroAppendReply\<lparr>aerTerm := CurrentTerm rf1\<rparr>;
            rf2 = resetTimer clk (rf1\<lparr>State := Follower\<rparr>)
        in do {
          (ok, reply) \<leftarrow> checkLogConsistency args reply rf2;
          if \<not> ok then Some (persist rf2, reply)
          else do {
            lastlog \<leftarrow> GetLastLog rf2;
            rf3 \<leftarrow> appendLoop (leIndex lastlog) (aeEntries args) rf2;
            lastlog \<leftarrow> GetLastLog rf3;
            let rf4 = (if aeLeaderCommit args > CommitIndex rf3
                       then rf3\<lparr>CommitIndex := min (aeLeaderCommit args) (leIndex lastlog),
                                applyWaiting := False\<rparr>
                       else rf3);
            Some (persist rf4, reply\<lparr>aerSuccess := True\<rparr>)
          }
        })"

text \<open>\<^verbatim>\<open>Start\<close> up to the release of the mutex; it then calls \<^verbatim>\<open>BroadcastEntries\<close>
  when it was the leader.\<close>

definition Start :: "'c \<Rightarrow> ('c, 's) Raft \<Rightarrow> (('c, 's) Raft \<times> (int \<times> int \<times> bool)) option" where
  "Start command rf =
     (if State rf \<noteq> Leader then Some (rf, -1, -1, False)
      else do {
        lastlog \<leftarrow> GetLastLog rf;
        let newLogEntry = \<lparr>leCommand = Some command, leTerm = CurrentTerm rf, leIndex = leIndex lastlog + 1\<rparr>;
        let rf1 = persist (rf\<lparr>Log := Log rf @ [newLogEntry]\<rparr>);
        Some (rf1, leIndex newLogEntry, CurrentTerm rf1, True)
      })"

section \<open>Commit index of a leader\<close>

text \<open>How many peers are known to hold index \<open>N\<close>, the leader itself counted first.\<close>

fun countReplicas :: "nat list \<Rightarrow> int \<Rightarrow> ('c, 's) Raft \<Rightarrow> int \<Rightarrow> int option" where
  "countReplicas [] N rf count = Some count"
| "countReplicas (i # is) N rf count =
     (if i = me rf then countReplicas is N rf count
      else do { m \<leftarrow> idx (MatchIndex rf) (int i);
                countReplicas is N rf (if m \<ge> N then count + 1 else count) })"

function commitLoop :: "int \<Rightarrow> int \<Rightarrow> ('c, 's) Raft \<Rightarrow> ('c, 's) Raft option" where
  "commitLoop N end rf =
     (if N < end
      then let curEntry = fst (GetLogEntry rf N)
           in if leTerm curEntry \<noteq> CurrentTerm rf then commitLoop (N + 1) end rf
              else case countReplicas [0..<peers rf] N rf 1 of
                     None \<Rightarrow> None
                   | Some count \<Rightarrow>
                       commitLoop (N + 1) end
                         (if count \<ge> Majority rf then rf\<lparr>CommitIndex := N, applyWaiting := False\<rparr> else rf)
      else Some rf)"
  by pat_completeness auto
termination
  by (relation "measure (\<lambda>(N, end, rf). nat (end - N))") auto

declare commitLoop.simps [simp del]

definition updateCommitIndex :: "('c, 's) Raft \<Rightarrow> ('c, 's) Raft option" where
  "updateCommitIndex rf =
     do { lastlog \<leftarrow> GetLastLog rf; commitLoop (CommitIndex rf + 1) (leIndex lastlog + 1) rf }"

section \<open>The goroutine of BroadcastEntries\<close>

record 's InstallSnapshotArgs =
  isTerm :: int
  isLeaderId :: nat
  isLastIncludedIndex :: int
  isLastIncludedTerm :: int
  isData :: "'s list"

text \<open>What the first critical section decides to send.\<close>

datatype ('c, 's) toSend =
    SendNothing
  | SendSnapshot "'s InstallSnapshotArgs"
  | SendEntries "'c AppendEntriesArgs"

definition PrepareEntries :: "nat \<Rightarrow> ('c, 's) Raft \<Rightarrow> ('c, 's) toSend option" where
  "PrepareEntries serverIndex rf =
     (if State rf \<noteq> Leader \<or> killed rf then Some SendNothing
      else do {
        nextIndex \<leftarrow> idx (NextIndex rf) (int serverIndex);
        lastLog \<leftarrow> GetLastLog rf;
        if nextIndex \<le> LastIncludedIndex rf
        then Some (SendSnapshot
               \<lparr>isTerm = CurrentTerm rf, isLeaderId = me rf, isLastIncludedIndex = LastIncludedIndex rf,
                isLastIncludedTerm = LastIncludedTerm rf, isData = ReadSnapshot (persister rf)\<rparr>)
        else do {
          let previndex = nextIndex - 1;
          let prevLog = fst (GetLogEntry rf previndex);
          (entriesToSend, slice_ok) \<leftarrow> GetLogSlices rf nextIndex (leIndex lastLog + 1);
          if \<not> slice_ok then Some SendNothing
          else Some (SendEntries
                 \<lparr>aeTerm = CurrentTerm rf, aeLeaderID = me rf, aePrevLogIndex = previndex,
                  aePrevLogTerm = leTerm prevLog, aeEntries = entriesToSend,
                  aeLeaderCommit = CommitIndex rf\<rparr>)
        }
      })"

text \<open>The peers that \<^verbatim>\<open>BroadcastEntries\<close> starts a goroutine for.\<close>

definition BroadcastEntries :: "('c, 's) Raft \<Rightarrow> nat list" where
  "BroadcastEntries rf = (if State rf \<noteq> Leader then [] else otherPeers rf)"

text \<open>The second critical section; \<open>None\<close> as the reply is a failed call.\<close>

definition HandleAppendReply ::
    "nat \<Rightarrow> 'c AppendEntriesArgs \<Rightarrow> AppendEntriesReply option \<Rightarrow> ('c, 's) Raft \<Rightarrow> ('c, 's) Raft option" where
  "HandleAppendReply serverIndex args rep rf =
     (case rep of
        None \<Rightarrow> Some rf
      | Some reply \<Rightarrow>
          if aeTerm args \<noteq> CurrentTerm rf then Some rf
          else if aerTerm reply > CurrentTerm rf
          then Some (persist (rf\<lparr>CurrentTerm := aerTerm reply, State := Follower, VotedFor := NotVoted\<rparr>))
          else if aerSuccess reply
          then do {
            let newMatchIndex = aePrevLogIndex args + int (length (aeEntries args));
            let newNextIndex = newMatchIndex + 1;
            ni \<leftarrow> idx (NextIndex rf) (int serverIndex);
            rf1 \<leftarrow> (if newNextIndex > ni
                    then do { xs \<leftarrow> upd (NextIndex rf) (int serverIndex) newNextIndex;
                              Some (rf\<lparr>NextIndex := xs\<rparr>) }
                    else Some rf);
            mi \<leftarrow> idx (MatchIndex rf1) (int serverIndex);
            rf2 \<leftarrow> (if newMatchIndex > mi
                    then do { xs \<leftarrow> upd (MatchIndex rf1) (int serverIndex) newMatchIndex;
                              Some (rf1\<lparr>MatchIndex := xs\<rparr>) }
                    else Some rf1);
            updateCommitIndex rf2
          }
          else
            let target = (if aerXTerm reply = 0 then aerXLen reply
                          else case find (\<lambda>e. leTerm e = aerXTerm reply) (rev (Log rf)) of
                                 Some e \<Rightarrow> leIndex e + 1
                               | None \<Rightarrow> aerXIndex reply)
            in do { xs \<leftarrow> upd (NextIndex rf) (int serverIndex) target;
                    Some (rf\<lparr>NextIndex := xs\<rparr>) })"


section \<open>The log after AppendEntries\<close>

text \<open>The reference: keep what agrees in term, and at the first disagreement (or past the
  end) continue with the leader's entries.\<close>

fun mergeLog :: "'c LogEntry list \<Rightarrow> 'c LogEntry list \<Rightarrow> 'c LogEntry list" where
  "mergeLog xs [] = xs"
| "mergeLog [] ys = ys"
| "mergeLog (x # xs) (y # ys) = (if leTerm x = leTerm y then x # mergeLog xs ys else y # ys)"

lemma mergeLog_Nil2 [simp]: "mergeLog [] ys = ys"
  by (cases ys) simp_all

lemma consecutive_mergeLog: "consecutive b xs \<Longrightarrow> consecutive b ys \<Longrightarrow> consecutive b (mergeLog xs ys)"
  by (induction xs ys arbitrary: b rule: mergeLog.induct) auto

lemma length_mergeLog: "length ys \<le> length (mergeLog xs ys)"
  by (induction xs ys rule: mergeLog.induct) auto

lemma mergeLog_terms: "i < length ys \<Longrightarrow> leTerm (mergeLog xs ys ! i) = leTerm (ys ! i)"
  by (induction xs ys arbitrary: i rule: mergeLog.induct) (auto simp: nth_Cons split: nat.splits)

lemma set_mergeLog: "set (mergeLog xs ys) \<subseteq> set xs \<union> set ys"
  by (induction xs ys rule: mergeLog.induct) auto

lemma mergeLog_self [simp]: "mergeLog ys ys = ys"
  by (induction ys) auto

lemma mergeLog_idem: "mergeLog (mergeLog xs ys) ys = mergeLog xs ys"
  by (induction xs ys rule: mergeLog.induct) auto

lemma appendLoop_merge:
  assumes wf: "wf_raft rf"
  shows "consecutive (LastIncludedIndex rf + int k) es \<Longrightarrow> k \<le> length (Log rf) \<Longrightarrow>
     appendLoop (lastIndex rf) es rf =
       Some (rf\<lparr>Log := take k (Log rf) @ mergeLog (drop k (Log rf)) es\<rparr>)"
proof (induction es arbitrary: k)
  case Nil
  then show ?case by simp
next
  case (Cons e es)
  have ei: "leIndex e = LastIncludedIndex rf + int k" and
    es: "consecutive (LastIncludedIndex rf + int (Suc k)) es"
    using Cons.prems(1) by (simp_all add: algebra_simps)
  show ?case
  proof (cases "k < length (Log rf)")
    case False
    then have "k = length (Log rf)" using Cons.prems(2) by simp
    then show ?thesis using ei by (simp add: lastIndex_def)
  next
    case True
    then have in_log: "\<not> leIndex e > lastIndex rf" using ei by (simp add: lastIndex_def)
    have get: "GetLogEntry rf (leIndex e) = (Log rf ! k, True)"
      using True ei by (simp add: GetLogEntry_def)
    have cur: "leIndex (Log rf ! k) = LastIncludedIndex rf + int k"
      using wf_raftD(3)[OF wf] True by (rule consecutive_nth)
    have phys: "ConvertToPhysicIdx rf (leIndex (Log rf ! k)) = (int k, True)"
      using True cur by (simp add: ConvertToPhysicIdx_def)
    have dk: "drop k (Log rf) = Log rf ! k # drop (Suc k) (Log rf)"
      using True by (simp add: Cons_nth_drop_Suc)
    have tk: "take k (Log rf) @ [Log rf ! k] = take (Suc k) (Log rf)"
      using True by (simp add: take_Suc_conv_app_nth)
    show ?thesis
    proof (cases "leTerm (Log rf ! k) = leTerm e")
      case eq: True
      then show ?thesis
        using in_log get Cons.IH [OF es] True tk by (simp add: dk)
    next
      case False
      then show ?thesis
        using in_log get phys True by (simp add: dk reslice_def)
    qed
  qed
qed

text \<open>The physical position right after the previous entry of the arguments.\<close>

definition appendAt :: "'c AppendEntriesArgs \<Rightarrow> ('c, 's) Raft \<Rightarrow> nat" where
  "appendAt args rf = nat (aePrevLogIndex args - LastIncludedIndex rf) + 1"

text \<open>The consistency check of the handler succeeds.\<close>

definition consistent :: "'c AppendEntriesArgs \<Rightarrow> ('c, 's) Raft \<Rightarrow> bool" where
  "consistent args rf \<longleftrightarrow>
     LastIncludedIndex rf \<le> aePrevLogIndex args \<and> aePrevLogIndex args \<le> lastIndex rf \<and>
     leTerm (Log rf ! nat (aePrevLogIndex args - LastIncludedIndex rf)) = aePrevLogTerm args"

definition valid_append :: "'c AppendEntriesArgs \<Rightarrow> bool" where
  "valid_append args \<longleftrightarrow> consecutive (aePrevLogIndex args + 1) (aeEntries args)"

definition mergedLog :: "'c AppendEntriesArgs \<Rightarrow> ('c, 's) Raft \<Rightarrow> 'c LogEntry list" where
  "mergedLog args rf = take (appendAt args rf) (Log rf) @
     mergeLog (drop (appendAt args rf) (Log rf)) (aeEntries args)"

lemma checkLogConsistency_iff:
  assumes "wf_raft rf"
  shows "\<exists>b r. checkLogConsistency args reply rf = Some (b, r) \<and> (b \<longleftrightarrow> consistent args rf) \<and>
     (b \<longrightarrow> r = reply) \<and> (\<not> b \<longrightarrow> \<not> aerSuccess r) \<and>
     (aerTerm reply = CurrentTerm rf \<longrightarrow> aerTerm r = CurrentTerm rf)"
  using assms
  by (cases "GetLogEntry rf (aePrevLogIndex args)")
     (auto simp: checkLogConsistency_def GetLastLog_Some wf_raftD(1) consistent_def
       GetLogEntry_def lastIndex_def Let_def split: if_splits)

text \<open>The state after the term check: the same log, a follower of the leader's term.\<close>

definition acceptLeader :: "clock \<Rightarrow> int \<Rightarrow> ('c, 's) Raft \<Rightarrow> ('c, 's) Raft" where
  "acceptLeader clk t rf =
     resetTimer clk ((if t > CurrentTerm rf
        then rf\<lparr>CurrentTerm := t, VotedFor := NotVoted, State := Follower\<rparr> else rf)\<lparr>State := Follower\<rparr>)"

lemma acceptLeader_simps [simp]:
  "Log (acceptLeader clk t rf) = Log rf"
  "LastIncludedIndex (acceptLeader clk t rf) = LastIncludedIndex rf"
  "LastIncludedTerm (acceptLeader clk t rf) = LastIncludedTerm rf"
  "lastIndex (acceptLeader clk t rf) = lastIndex rf"
  "CurrentTerm (acceptLeader clk t rf) = max t (CurrentTerm rf)"
  "State (acceptLeader clk t rf) = Follower"
  "CommitIndex (acceptLeader clk t rf) = CommitIndex rf"
  "LastApplied (acceptLeader clk t rf) = LastApplied rf"
  "applyWaiting (acceptLeader clk t rf) = applyWaiting rf"
  "me (acceptLeader clk t rf) = me rf" "peers (acceptLeader clk t rf) = peers rf"
  "mu (acceptLeader clk t rf) = mu rf" "dead (acceptLeader clk t rf) = dead rf"
  "Majority (acceptLeader clk t rf) = Majority rf" "persister (acceptLeader clk t rf) = persister rf"
  "VotedFor (acceptLeader clk t rf) = (if t > CurrentTerm rf then NotVoted else VotedFor rf)"
  "wf_raft (acceptLeader clk t rf) = wf_raft rf"
  by (auto simp: acceptLeader_def lastIndex_def wf_raft_def)

lemma consistent_acceptLeader [simp]:
  "consistent args (acceptLeader clk t rf) = consistent args rf"
  "mergedLog args (acceptLeader clk t rf) = mergedLog args rf"
  by (simp_all add: consistent_def mergedLog_def appendAt_def)

lemma evolves_acceptLeader: "CurrentTerm rf \<le> t \<Longrightarrow> evolves rf (acceptLeader clk t rf)"
  by (auto simp: evolves_def)

lemma wf_mergedLog:
  assumes "wf_raft rf" "consistent args rf" "valid_append args"
  shows "wf_log (LastIncludedIndex rf) (LastIncludedTerm rf) (mergedLog args rf)"
proof -
  let ?k = "appendAt args rf" and ?L = "Log rf" and ?b = "LastIncludedIndex rf"
  have k: "0 < ?k" "?k \<le> length ?L" and pk: "aePrevLogIndex args + 1 = ?b + int ?k"
    using assms(2) by (auto simp: appendAt_def consistent_def lastIndex_def)
  have ne: "?L \<noteq> []" using assms(1) by (rule wf_raftD)
  have c: "consecutive ?b ?L" using assms(1) by (rule wf_raftD)
  have "consecutive ?b (mergedLog args rf)"
    using consecutive_take [OF c] consecutive_mergeLog [OF consecutive_drop [OF c k(2)]]
      assms(3) k pk by (simp add: mergedLog_def valid_append_def min_def)
  moreover have "take ?k ?L \<noteq> []" "hd (take ?k ?L) = hd ?L"
    using k ne by (auto simp: hd_conv_nth)
  ultimately show ?thesis
    using wf_logD [OF wf_raftD(4) [OF assms(1)]] ne
    by (simp add: wf_log_def mergedLog_def hd_conv_nth nth_append)
qed

lemma AppendEntries_cases:
  assumes wf: "wf_raft rf" and v: "valid_append args"
  obtains
    (stale) reply where "aeTerm args < CurrentTerm rf"
      "AppendEntries clk args rf = Some (persist rf, reply)"
      "\<not> aerSuccess reply" "aerTerm reply = CurrentTerm rf"
  | (rejected) reply where "CurrentTerm rf \<le> aeTerm args" "\<not> consistent args rf"
      "AppendEntries clk args rf = Some (persist (acceptLeader clk (aeTerm args) rf), reply)"
      "\<not> aerSuccess reply" "aerTerm reply = aeTerm args"
      "checkLogConsistency args (zeroAppendReply\<lparr>aerTerm := aeTerm args\<rparr>) (acceptLeader clk (aeTerm args) rf)
         = Some (False, reply)"
  | (accepted) rf3 reply where "CurrentTerm rf \<le> aeTerm args" "consistent args rf"
      "rf3 = (acceptLeader clk (aeTerm args) rf)\<lparr>Log := mergedLog args rf\<rparr>" "wf_raft rf3"
      "AppendEntries clk args rf =
         Some (persist (if aeLeaderCommit args > CommitIndex rf
                        then rf3\<lparr>CommitIndex := min (aeLeaderCommit args) (lastIndex rf3), applyWaiting := False\<rparr>
                        else rf3), reply)"
      "aerSuccess reply" "aerTerm reply = aeTerm args"
      "reply = zeroAppendReply\<lparr>aerTerm := aeTerm args, aerSuccess := True\<rparr>"
proof (cases "aeTerm args < CurrentTerm rf")
  case True
  then show ?thesis by (intro stale) (auto simp: AppendEntries_def zeroAppendReply_def)
next
  case nst: False
  define rf2 where "rf2 = acceptLeader clk (aeTerm args) rf"
  define r0 where "r0 = zeroAppendReply\<lparr>aerTerm := aeTerm args\<rparr>"
  have w2: "wf_raft rf2" using wf by (simp add: rf2_def)
  have ct: "CurrentTerm rf2 = aeTerm args" using nst by (simp add: rf2_def)
  obtain b r where ch: "checkLogConsistency args r0 rf2 = Some (b, r)"
      "b \<longleftrightarrow> consistent args rf2" "b \<longrightarrow> r = r0" "\<not> b \<longrightarrow> \<not> aerSuccess r"
      "aerTerm r0 = CurrentTerm rf2 \<longrightarrow> aerTerm r = CurrentTerm rf2"
    using checkLogConsistency_iff [OF w2, of args r0] by blast
  have rt: "aerTerm r = aeTerm args" using ch ct by (simp add: r0_def)
  have e1: "resetTimer clk ((if aeTerm args > CurrentTerm rf
        then rf\<lparr>CurrentTerm := aeTerm args, VotedFor := NotVoted, State := Follower\<rparr> else rf)\<lparr>State := Follower\<rparr>)
      = rf2" by (simp only: rf2_def acceptLeader_def)
  have e2: "CurrentTerm (if aeTerm args > CurrentTerm rf
        then rf\<lparr>CurrentTerm := aeTerm args, VotedFor := NotVoted, State := Follower\<rparr> else rf) = aeTerm args"
    using nst by auto
  have unf: "AppendEntries clk args rf = do {
          (ok, reply) \<leftarrow> checkLogConsistency args r0 rf2;
          if \<not> ok then Some (persist rf2, reply)
          else do {
            lastlog \<leftarrow> GetLastLog rf2;
            rf3 \<leftarrow> appendLoop (leIndex lastlog) (aeEntries args) rf2;
            lastlog \<leftarrow> GetLastLog rf3;
            let rf4 = (if aeLeaderCommit args > CommitIndex rf3
                       then rf3\<lparr>CommitIndex := min (aeLeaderCommit args) (leIndex lastlog),
                                applyWaiting := False\<rparr>
                       else rf3);
            Some (persist rf4, reply\<lparr>aerSuccess := True\<rparr>)
          }}"
    unfolding AppendEntries_def Let_def e1 e2 r0_def using nst by (simp only: if_False)
  show ?thesis
  proof (cases "consistent args rf")
    case False
    then show ?thesis
      using ch rt nst unf unfolding rf2_def r0_def by (intro rejected) auto
  next
    case c: True
    define rf3 where "rf3 = rf2\<lparr>Log := mergedLog args rf\<rparr>"
    have "appendLoop (lastIndex rf2) (aeEntries args) rf2 = Some rf3"
    proof -
      have "consecutive (LastIncludedIndex rf2 + int (appendAt args rf2)) (aeEntries args)"
        "appendAt args rf2 \<le> length (Log rf2)"
        using c v by (auto simp: appendAt_def rf2_def consistent_def valid_append_def lastIndex_def algebra_simps)
      from appendLoop_merge [OF w2 this] show ?thesis
        by (simp add: rf3_def mergedLog_def rf2_def appendAt_def)
    qed
    moreover have w3: "wf_raft rf3"
      using w2 wf_mergedLog [OF wf c v] by (simp add: wf_raft_def rf3_def rf2_def)
    moreover have "CommitIndex rf3 = CommitIndex rf" by (simp add: rf3_def rf2_def)
    ultimately have "AppendEntries clk args rf =
         Some (persist (if aeLeaderCommit args > CommitIndex rf
                        then rf3\<lparr>CommitIndex := min (aeLeaderCommit args) (lastIndex rf3), applyWaiting := False\<rparr>
                        else rf3), r0\<lparr>aerSuccess := True\<rparr>)"
      unfolding unf using ch c w2
      by (simp add: GetLastLog_Some wf_raftD(1) last_leIndex rf2_def [THEN arg_cong [where f = "consistent args"]])
    then show ?thesis
      using nst c w3 by (intro accepted) (auto simp: rf3_def rf2_def r0_def)
  qed
qed


lemma appendLoop_frame:
  "appendLoop li es rf = Some rf' \<Longrightarrow> \<exists>l. rf' = rf\<lparr>Log := l\<rparr>"
proof (induction li es rf rule: appendLoop.induct)
  case (1 li rf)
  then have "rf' = rf\<lparr>Log := Log rf\<rparr>" by simp
  then show ?case ..
next
  case (2 li e es rf)
  then show ?case by (auto simp: Let_def bind_Some_iff split: if_splits)
qed

lemma AppendEntries_evolves:
  assumes "AppendEntries clk args rf = Some (rf', reply)"
  shows "evolves rf rf'"
  using assms
  by (auto simp: AppendEntries_def Let_def bind_Some_iff evolves_def split: if_splits
      dest!: appendLoop_frame)

interpretation append: raft_operation "\<lambda>(clk, args). AppendEntries clk args" "\<lambda>(clk, args). valid_append args"
proof (unfold_locales, goal_cases)
  case (1 rf i)
  obtain clk args where i: "i = (clk, args)" by (cases i)
  with 1 show ?case by (auto elim!: AppendEntries_cases [of rf args clk])
next
  case (2 rf i rf' out)
  obtain clk args where i: "i = (clk, args)" by (cases i)
  with 2 have v: "valid_append args" and s: "AppendEntries clk args rf = Some (rf', out)" by auto
  show ?case
    using \<open>wf_raft rf\<close> v by (cases rule: AppendEntries_cases [of rf args clk]) (use \<open>wf_raft rf\<close> s in auto)
next
  case (3 rf i rf' out)
  obtain clk args where i: "i = (clk, args)" by (cases i)
  with 3 have v: "valid_append args" and s: "AppendEntries clk args rf = Some (rf', out)" by auto
  show ?case
    using \<open>wf_raft rf\<close> v by (cases rule: AppendEntries_cases [of rf args clk]) (use s in auto)
next
  case (4 i rf rf' out)
  then show ?case
    by (cases i) (auto simp: AppendEntries_evolves)
next
  case (5 rf i rf' out)
  obtain clk args where i: "i = (clk, args)" by (cases i)
  with 5 have v: "valid_append args" and s: "AppendEntries clk args rf = Some (rf', out)" by auto
  show ?case
    using \<open>wf_raft rf\<close> v by (cases rule: AppendEntries_cases [of rf args clk]) (use s in auto)
qed


section \<open>Start and the commit index\<close>

lemma Start_leader_eq:
  assumes "wf_raft rf" "State rf = Leader"
  shows "Start c rf =
     Some (persist (rf\<lparr>Log := Log rf @ [\<lparr>leCommand = Some c, leTerm = CurrentTerm rf, leIndex = lastIndex rf + 1\<rparr>]\<rparr>),
           lastIndex rf + 1, CurrentTerm rf, True)"
  using assms by (simp add: Start_def GetLastLog_Some wf_raftD(1) last_leIndex)

lemma wf_log_snoc:
  "wf_log b bt es \<Longrightarrow> leIndex e = b + int (length es) \<Longrightarrow> wf_log b bt (es @ [e])"
  by (simp add: wf_log_def)

interpretation start: raft_operation Start "\<lambda>_. True"
proof (unfold_locales, goal_cases)
  case (1 rf i)
  then show ?case by (cases "State rf = Leader") (auto simp: Start_def GetLastLog_Some wf_raftD(1))
next
  case (2 rf i rf' out)
  then show ?case
    by (cases "State rf = Leader")
       (auto simp: Start_leader_eq wf_raft_def lastIndex_def intro!: wf_log_snoc, auto simp: Start_def wf_raft_def)
next
  case (3 rf i rf' out)
  then show ?case
    by (cases "State rf = Leader") (auto simp: Start_leader_eq, auto simp: Start_def)
next
  case (4 i rf rf' out)
  then show ?case by (auto simp: Start_def evolves_def bind_Some_iff split: if_splits)
next
  case (5 rf i rf' out)
  then show ?case by (auto simp: Start_def bind_Some_iff split: if_splits)
qed

text \<open>The replicas of index \<open>N\<close> that a leader knows of.\<close>

definition replicas :: "int \<Rightarrow> ('c, 's) Raft \<Rightarrow> nat set" where
  "replicas N rf = insert (me rf) {i. i < peers rf \<and> i \<noteq> me rf \<and> N \<le> MatchIndex rf ! i}"

definition committable :: "('c, 's) Raft \<Rightarrow> int \<Rightarrow> bool" where
  "committable rf N \<longleftrightarrow>
     leTerm (fst (GetLogEntry rf N)) = CurrentTerm rf \<and> Majority rf \<le> int (card (replicas N rf))"

lemma countReplicas_card:
  assumes "set is \<subseteq> {..<length (MatchIndex rf)}" "distinct is"
  shows "countReplicas is N rf c =
     Some (c + int (card {i \<in> set is. i \<noteq> me rf \<and> N \<le> MatchIndex rf ! i}))"
  using assms
proof (induction "is" arbitrary: c)
  case Nil
  then show ?case by simp
next
  case (Cons i "is")
  let ?S = "\<lambda>A. {j \<in> A. j \<noteq> me rf \<and> N \<le> MatchIndex rf ! j}"
  have "?S (set (i # is)) =
      (if i \<noteq> me rf \<and> N \<le> MatchIndex rf ! i then insert i (?S (set is)) else ?S (set is))"
    by auto
  then show ?case using Cons by simp
qed

lemma card_replicas:
  "card (replicas N rf) = 1 + card {i. i < peers rf \<and> i \<noteq> me rf \<and> N \<le> MatchIndex rf ! i}"
  by (simp add: replicas_def)

lemma countReplicas_replicas:
  assumes "wf_raft rf"
  shows "countReplicas [0..<peers rf] N rf 1 = Some (int (card (replicas N rf)))"
proof -
  have "{i \<in> set [0..<peers rf]. i \<noteq> me rf \<and> N \<le> MatchIndex rf ! i} =
      {i. i < peers rf \<and> i \<noteq> me rf \<and> N \<le> MatchIndex rf ! i}" by auto
  then show ?thesis
    using assms by (subst countReplicas_card) (auto simp: card_replicas wf_raftD(8))
qed

lemma committable_frame [simp]:
  "committable (rf\<lparr>CommitIndex := ci, applyWaiting := aw\<rparr>) = committable rf"
  by (rule ext) (simp add: committable_def replicas_def GetLogEntry_def Let_def)

lemma commitLoop_step:
  assumes "wf_raft rf" "N < end"
  shows "commitLoop N end rf =
     commitLoop (N + 1) end (if committable rf N then rf\<lparr>CommitIndex := N, applyWaiting := False\<rparr> else rf)"
  using assms by (simp add: commitLoop.simps [of N] committable_def countReplicas_replicas Let_def)

lemma commitLoop_spec:
  "wf_raft rf \<Longrightarrow> commitLoop N end rf =
     (let G = {M \<in> {N..<end}. committable rf M} in
      Some (if G = {} then rf else rf\<lparr>CommitIndex := Max G, applyWaiting := False\<rparr>))"
proof (induction "nat (end - N)" arbitrary: N rf)
  case 0
  then show ?case by (simp add: commitLoop.simps [of N])
next
  case (Suc d)
  define G where "G = (\<lambda>a. {M \<in> {a..<end}. committable rf M})"
  have fin: "finite (G a)" for a by (rule finite_subset [of _ "{a..<end}"]) (auto simp: G_def)
  have lt: "N < end" and d: "d = nat (end - (N + 1))" using Suc.hyps(2) by auto
  have "{N..<end} = insert N {N + 1..<end}" using lt by auto
  then have ins: "G N = (if committable rf N then insert N (G (N + 1)) else G (N + 1))"
    by (auto simp: G_def)
  let ?rf1 = "if committable rf N then rf\<lparr>CommitIndex := N, applyWaiting := False\<rparr> else rf"
  have c1: "committable ?rf1 = committable rf" by simp
  have "wf_raft ?rf1" using Suc.prems by simp
  from Suc.hyps(1) [OF d this, unfolded c1, folded G_def]
  have step: "commitLoop N end rf =
      Some (if G (N + 1) = {} then ?rf1 else ?rf1\<lparr>CommitIndex := Max (G (N + 1)), applyWaiting := False\<rparr>)"
    using commitLoop_step [OF Suc.prems lt] by (simp only: Let_def G_def)
  have "Max (insert N (G (N + 1))) = Max (G (N + 1))" if "G (N + 1) \<noteq> {}"
  proof -
    have "N \<le> Max (G (N + 1))" using Max_in [OF fin that] by (simp add: G_def)
    then show ?thesis using that fin by (simp add: max_def)
  qed
  then have "commitLoop N end rf =
      Some (if G N = {} then rf else rf\<lparr>CommitIndex := Max (G N), applyWaiting := False\<rparr>)"
    using step ins by (cases "committable rf N"; cases "G (N + 1) = {}") simp_all
  then show ?case by (simp only: Let_def G_def)
qed

lemma updateCommitIndex_eq:
  assumes "wf_raft rf"
  shows "updateCommitIndex rf =
     (let G = {N. CommitIndex rf < N \<and> N \<le> lastIndex rf \<and> committable rf N} in
      Some (if G = {} then rf else rf\<lparr>CommitIndex := Max G, applyWaiting := False\<rparr>))"
proof -
  have "{M \<in> {CommitIndex rf + 1..<lastIndex rf + 1}. committable rf M} =
      {N. CommitIndex rf < N \<and> N \<le> lastIndex rf \<and> committable rf N}" by auto
  moreover have "updateCommitIndex rf = commitLoop (CommitIndex rf + 1) (lastIndex rf + 1) rf"
    using assms by (simp add: updateCommitIndex_def GetLastLog_Some wf_raftD(1) last_leIndex)
  ultimately show ?thesis using commitLoop_spec [OF assms] by (simp only:)
qed

lemma updateCommitIndex_frame:
  assumes "wf_raft rf" "updateCommitIndex rf = Some rf'"
  obtains (same) "rf' = rf"
    | (moved) N where "rf' = rf\<lparr>CommitIndex := N, applyWaiting := False\<rparr>" "CommitIndex rf < N"
        "N \<le> lastIndex rf" "committable rf N"
proof -
  let ?G = "{N. CommitIndex rf < N \<and> N \<le> lastIndex rf \<and> committable rf N}"
  have fin: "finite ?G" by (rule finite_subset [of _ "{CommitIndex rf..lastIndex rf}"]) auto
  show ?thesis
  proof (cases "?G = {}")
    case True
    then show ?thesis using assms same by (simp add: updateCommitIndex_eq)
  next
    case False
    then have "Max ?G \<in> ?G" using Max_in fin by blast
    then show ?thesis
      using assms False by (intro moved [of "Max ?G"]) (auto simp: updateCommitIndex_eq Let_def)
  qed
qed


section \<open>Reply handling\<close>

text \<open>What a successful reply teaches the leader about a follower.\<close>

definition learnMatch :: "nat \<Rightarrow> int \<Rightarrow> ('c, 's) Raft \<Rightarrow> ('c, 's) Raft" where
  "learnMatch i m rf =
     rf\<lparr>NextIndex := (NextIndex rf)[i := max (m + 1) (NextIndex rf ! i)],
        MatchIndex := (MatchIndex rf)[i := max m (MatchIndex rf ! i)]\<rparr>"

lemma learnMatch_frame [simp]:
  "Log (learnMatch i m rf) = Log rf" "CurrentTerm (learnMatch i m rf) = CurrentTerm rf"
  "VotedFor (learnMatch i m rf) = VotedFor rf" "State (learnMatch i m rf) = State rf"
  "me (learnMatch i m rf) = me rf" "peers (learnMatch i m rf) = peers rf"
  "Majority (learnMatch i m rf) = Majority rf" "CommitIndex (learnMatch i m rf) = CommitIndex rf"
  "LastIncludedIndex (learnMatch i m rf) = LastIncludedIndex rf"
  "LastIncludedTerm (learnMatch i m rf) = LastIncludedTerm rf"
  "lastIndex (learnMatch i m rf) = lastIndex rf" "persister (learnMatch i m rf) = persister rf"
  "LastApplied (learnMatch i m rf) = LastApplied rf" "mu (learnMatch i m rf) = mu rf"
  "dead (learnMatch i m rf) = dead rf" "applyWaiting (learnMatch i m rf) = applyWaiting rf"
  "wf_raft (learnMatch i m rf) = wf_raft rf" "durable (learnMatch i m rf) = durable rf"
  by (simp_all add: learnMatch_def lastIndex_def wf_raft_def durable_def savedState_def)

text \<open>Where a rejected leader backs up to.\<close>

definition backup :: "AppendEntriesReply \<Rightarrow> ('c, 's) Raft \<Rightarrow> int" where
  "backup reply rf =
     (if aerXTerm reply = 0 then aerXLen reply
      else case find (\<lambda>e. leTerm e = aerXTerm reply) (rev (Log rf)) of
             Some e \<Rightarrow> leIndex e + 1
           | None \<Rightarrow> aerXIndex reply)"

lemma HandleAppendReply_success_eq:
  assumes "wf_raft rf" "i < peers rf" "aeTerm args = CurrentTerm rf" "aerTerm r \<le> CurrentTerm rf"
    and "aerSuccess r"
  shows "HandleAppendReply i args (Some r) rf =
     updateCommitIndex (learnMatch i (aePrevLogIndex args + int (length (aeEntries args))) rf)"
  using assms wf_raftD(7,8)[OF assms(1)]
  by (auto simp: HandleAppendReply_def learnMatch_def max_def Let_def list_update_id)

lemma HandleAppendReply_cases:
  assumes wf: "wf_raft rf" and i: "i < peers rf" and h: "HandleAppendReply i args rep rf = Some rf'"
  obtains (ignored) "rf' = rf"
      "rep = None \<or> aeTerm args \<noteq> CurrentTerm rf"
  | (stepdown) r where "rep = Some r" "aeTerm args = CurrentTerm rf" "aerTerm r > CurrentTerm rf"
      "rf' = persist (rf\<lparr>CurrentTerm := aerTerm r, State := Follower, VotedFor := NotVoted\<rparr>)"
  | (success) r where "rep = Some r" "aeTerm args = CurrentTerm rf" "aerTerm r \<le> CurrentTerm rf"
      "aerSuccess r"
      "updateCommitIndex (learnMatch i (aePrevLogIndex args + int (length (aeEntries args))) rf) = Some rf'"
  | (backoff) r where "rep = Some r" "aeTerm args = CurrentTerm rf" "aerTerm r \<le> CurrentTerm rf"
      "\<not> aerSuccess r" "rf' = rf\<lparr>NextIndex := (NextIndex rf)[i := backup r rf]\<rparr>"
proof (cases rep)
  case None
  with h show ?thesis by (intro ignored) (auto simp: HandleAppendReply_def)
next
  case (Some r)
  show ?thesis
  proof (cases "aeTerm args = CurrentTerm rf")
    case False
    with Some h show ?thesis by (intro ignored) (auto simp: HandleAppendReply_def)
  next
    case t: True
    show ?thesis
    proof (cases "aerTerm r > CurrentTerm rf")
      case True
      with Some h t show ?thesis by (intro stepdown) (auto simp: HandleAppendReply_def)
    next
      case nt: False
      show ?thesis
      proof (cases "aerSuccess r")
        case True
        with Some h t nt show ?thesis
          by (intro success) (auto simp: HandleAppendReply_success_eq [OF wf i t])
      next
        case False
        with Some h t nt i wf_raftD(7)[OF wf] show ?thesis
          by (intro backoff) (auto simp: HandleAppendReply_def Let_def bind_Some_iff upd_def backup_def)
      qed
    qed
  qed
qed

lemma HandleAppendReply_total:
  assumes wf: "wf_raft rf" and i: "i < peers rf"
  shows "\<exists>rf'. HandleAppendReply i args rep rf = Some rf'"
proof (cases rep)
  case None
  then show ?thesis by (simp add: HandleAppendReply_def)
next
  case (Some r)
  show ?thesis
  proof (cases "aeTerm args = CurrentTerm rf \<and> aerTerm r \<le> CurrentTerm rf \<and> aerSuccess r")
    case True
    then show ?thesis
      using Some HandleAppendReply_success_eq [OF wf i, of args r] wf
      by (simp add: updateCommitIndex_eq Let_def)
  next
    case False
    then show ?thesis
      using Some i wf_raftD(7)[OF wf] by (auto simp: HandleAppendReply_def Let_def upd_def)
  qed
qed

lemma wf_raft_NextIndex:
  "wf_raft rf \<Longrightarrow> length xs = length (NextIndex rf) \<Longrightarrow> wf_raft (rf\<lparr>NextIndex := xs\<rparr>)"
  by (simp add: wf_raft_def)

lemma HandleAppendReply_keeps:
  assumes "wf_raft rf" "i < peers rf" "HandleAppendReply i args rep rf = Some rf'"
  shows "wf_raft rf'" "durable rf \<Longrightarrow> durable rf'" "evolves rf rf'" "saves rf rf'"
proof -
  have wl: "wf_raft (learnMatch i m rf)" for m using assms(1) by simp
  show "wf_raft rf'"
    using assms by (cases rule: HandleAppendReply_cases)
       (use assms(1) in \<open>auto elim!: updateCommitIndex_frame [OF wl] simp: wf_raft_NextIndex\<close>)
  show "durable rf \<Longrightarrow> durable rf'"
    using assms by (cases rule: HandleAppendReply_cases)
       (auto elim!: updateCommitIndex_frame [OF wl])
  show "evolves rf rf'"
    using assms by (cases rule: HandleAppendReply_cases)
       (auto elim!: updateCommitIndex_frame [OF wl] simp: evolves_def)
  show "saves rf rf'"
    using assms by (cases rule: HandleAppendReply_cases)
       (auto elim!: updateCommitIndex_frame [OF wl] simp: saves_def savedState_def)
qed


section \<open>What a leader sends\<close>

lemma PrepareEntries_cases:
  assumes wf: "wf_raft rf" and p: "PrepareEntries j rf = Some out"
  obtains (nothing) "out = SendNothing"
  | (snapshot) args where "out = SendSnapshot args" "State rf = Leader" "isTerm args = CurrentTerm rf"
      "isLeaderId args = me rf" "isLastIncludedIndex args = LastIncludedIndex rf"
      "isLastIncludedTerm args = LastIncludedTerm rf" "isData args = snapshot (persister rf)"
  | (entries) args k where "out = SendEntries args" "State rf = Leader" "aeTerm args = CurrentTerm rf"
      "aeLeaderID args = me rf" "0 < k" "k \<le> length (Log rf)" "aePrevLogIndex args = LastIncludedIndex rf + int k - 1"
      "aePrevLogTerm args = leTerm (Log rf ! (k - 1))" "aeEntries args = drop k (Log rf)"
      "aeLeaderCommit args = CommitIndex rf" "valid_append args"
proof -
  have last: "leIndex (last (Log rf)) = LastIncludedIndex rf + int (length (Log rf)) - 1"
    using last_leIndex [OF wf] by (simp add: lastIndex_def)
  show ?thesis
  proof (cases out)
    case SendNothing
    then show ?thesis by (rule nothing)
  next
    case (SendSnapshot args)
    then show ?thesis
      using p by (intro snapshot [of args])
        (auto simp: PrepareEntries_def bind_Some_iff ReadSnapshot_def Let_def split: if_splits)
  next
    case (SendEntries args)
    define k where "k = nat (aePrevLogIndex args + 1 - LastIncludedIndex rf)"
    from p SendEntries have *: "State rf = Leader" "LastIncludedIndex rf < aePrevLogIndex args + 1"
      "aeTerm args = CurrentTerm rf" "aeLeaderID args = me rf" "aeLeaderCommit args = CommitIndex rf"
      "aePrevLogTerm args = leTerm (fst (GetLogEntry rf (aePrevLogIndex args)))"
      and sl: "GetLogSlices rf (aePrevLogIndex args + 1) (leIndex (last (Log rf)) + 1) = Some (aeEntries args, True)"
      by (auto simp: PrepareEntries_def bind_Some_iff Let_def GetLastLog_eq_Some split: if_splits)
    then have k: "0 < k" "aePrevLogIndex args = LastIncludedIndex rf + int k - 1" by (auto simp: k_def)
    from sl have "k \<le> length (Log rf)" and e: "aeEntries args = drop k (Log rf)"
      using k by (auto simp: GetLogSlices_def Let_def bind_Some_iff reslice_eq_Some last split: if_splits)
    moreover from this have "valid_append args"
      using consecutive_drop [OF wf_raftD(3) [OF wf]] k by (simp add: valid_append_def)
    moreover have "fst (GetLogEntry rf (aePrevLogIndex args)) = Log rf ! (k - 1)"
      using k calculation by (simp add: GetLogEntry_def Let_def nat_diff_distrib)
    ultimately show ?thesis using SendEntries * k by (intro entries) auto
  qed
qed

section \<open>Properties\<close>
section \<open>Properties\<close>

text \<open>C15: \<^verbatim>\<open>AppendEntries\<close> on a well-formed peer, for arguments whose entries are numbered
  from \<open>PrevLogIndex + 1\<close>, never panics and is decided by the term and the consistency check
  alone. On success the log is the reference merge at the previous index, and the commit
  index moves to the leader's, capped at the last entry; on failure log and commit index
  are unchanged. The state is on stable storage before the reply is sent.\<close>

theorem AppendEntries_spec:
  assumes wf: "wf_raft rf" and v: "valid_append args"
  shows "\<exists>rf' reply. AppendEntries clk args rf = Some (rf', reply) \<and>
     (aerSuccess reply \<longleftrightarrow> CurrentTerm rf \<le> aeTerm args \<and> consistent args rf) \<and>
     Log rf' = (if aerSuccess reply then mergedLog args rf else Log rf) \<and>
     CommitIndex rf' = (if aerSuccess reply \<and> CommitIndex rf < aeLeaderCommit args
                        then min (aeLeaderCommit args) (lastIndex rf') else CommitIndex rf) \<and>
     CurrentTerm rf' = max (aeTerm args) (CurrentTerm rf) \<and>
     aerTerm reply = CurrentTerm rf' \<and> savedState rf' = EncodeRaftState rf' \<and> wf_raft rf'"
  using wf v
proof (cases rule: AppendEntries_cases [of rf args clk])
  case (stale reply)
  then show ?thesis using wf by simp
next
  case (rejected reply)
  then show ?thesis using wf by (simp add: max_def)
next
  case (accepted rf3 reply)
  then show ?thesis by (auto simp: max_def lastIndex_def)
qed

definition exampleAppend :: "nat AppendEntriesArgs" where
  "exampleAppend =
     \<lparr>aeTerm = 3, aeLeaderID = 1, aePrevLogIndex = 1, aePrevLogTerm = 1,
      aeEntries = [\<lparr>leCommand = Some 30, leTerm = 3, leIndex = 2\<rparr>, \<lparr>leCommand = Some 40, leTerm = 3, leIndex = 3\<rparr>],
      aeLeaderCommit = 2\<rparr>"

lemma exampleAppend_facts:
  "valid_append exampleAppend" "consistent exampleAppend examplePeer" "CurrentTerm examplePeer < aeTerm exampleAppend"
  "aeTerm exampleAppend = 3"
  by (simp_all add: exampleAppend_def examplePeer_def valid_append_def consistent_def lastIndex_def)

lemma exampleAppend_succeeds:
  "\<exists>rf' reply. AppendEntries (0, 0) exampleAppend examplePeer = Some (rf', reply) \<and> aerSuccess reply"
  by (rule AppendEntries_cases [of examplePeer exampleAppend "(0, 0)"]) (use exampleAppend_facts in auto)

theorem AppendEntries_spec_witness:
  "\<exists>rf' reply. AppendEntries (0, 0) exampleAppend examplePeer = Some (rf', reply) \<and>
     aerSuccess reply \<and> Log rf' = mergedLog exampleAppend examplePeer \<and> CurrentTerm rf' = 3"
  using AppendEntries_spec [of examplePeer exampleAppend "(0, 0)"] exampleAppend_facts
  by (auto simp: max_def)

text \<open>What a successful reply promises. The follower's log reaches at least to the last
  entry sent, holds an entry of the same term at every index that was sent, and agrees with
  its old log up to the previous index.\<close>

lemma AppendEntries_success_replicates:
  assumes wf: "wf_raft rf" and v: "valid_append args"
    and ae: "AppendEntries clk args rf = Some (rf', reply)" and ok: "aerSuccess reply"
  shows "aePrevLogIndex args + int (length (aeEntries args)) \<le> lastIndex rf' \<and>
     (\<forall>e \<in> set (aeEntries args).
        \<exists>e'. GetLogEntry rf' (leIndex e) = (e', True) \<and> leTerm e' = leTerm e) \<and>
     (\<forall>i. LastIncludedIndex rf \<le> i \<longrightarrow> i \<le> aePrevLogIndex args \<longrightarrow> GetLogEntry rf' i = GetLogEntry rf i)"
  using wf v
proof (cases rule: AppendEntries_cases [of rf args clk])
  case (accepted rf3 reply')
  let ?k = "appendAt args rf" and ?b = "LastIncludedIndex rf" and ?es = "aeEntries args"
  have L: "Log rf' = take ?k (Log rf) @ mergeLog (drop ?k (Log rf)) ?es"
    and b: "LastIncludedIndex rf' = ?b"
    using accepted ae by (auto simp: mergedLog_def)
  have k: "?k \<le> length (Log rf)" "int ?k = aePrevLogIndex args + 1 - ?b" "?b \<le> aePrevLogIndex args"
    using accepted(2) by (auto simp: appendAt_def consistent_def lastIndex_def)
  note len = length_mergeLog [of ?es "drop ?k (Log rf)"]
  have g: "GetLogEntry rf' (aePrevLogIndex args + 1 + int j) = (mergeLog (drop ?k (Log rf)) ?es ! j, True)"
    if "j < length ?es" for j
  proof -
    have "nat (aePrevLogIndex args + 1 + int j - ?b) = ?k + j" using k by linarith
    then show ?thesis using that k len by (simp add: GetLogEntry_def b L Let_def nth_append)
  qed
  have "\<exists>e'. GetLogEntry rf' (leIndex e) = (e', True) \<and> leTerm e' = leTerm e" if "e \<in> set ?es" for e
  proof -
    obtain j where j: "j < length ?es" "e = ?es ! j" using \<open>e \<in> set ?es\<close> by (metis in_set_conv_nth)
    then have "leIndex e = aePrevLogIndex args + 1 + int j"
      using v by (auto simp: valid_append_def consecutive_nth)
    then show ?thesis using g [OF j(1)] j mergeLog_terms [OF j(1), of "drop ?k (Log rf)"] by simp
  qed
  moreover have "GetLogEntry rf' i = GetLogEntry rf i" if "?b \<le> i" "i \<le> aePrevLogIndex args" for i
  proof -
    have "nat (i - ?b) < ?k" using that k by linarith
    then show ?thesis using that k by (simp add: GetLogEntry_def b L Let_def nth_append)
  qed
  moreover have "aePrevLogIndex args + int (length ?es) \<le> lastIndex rf'"
    using k len by (simp add: lastIndex_def b L)
  ultimately show ?thesis by blast
qed (use ae ok in auto)

text \<open>A duplicated or retransmitted \<^verbatim>\<open>AppendEntries\<close> that succeeded succeeds again
  and changes neither log nor commit index.\<close>

lemma AppendEntries_retransmit:
  assumes wf: "wf_raft rf" and v: "valid_append args"
    and ae: "AppendEntries clk args rf = Some (rf', reply)" and ok: "aerSuccess reply"
  shows "\<exists>rf''. AppendEntries clk' args rf' = Some (rf'', reply) \<and>
     Log rf'' = Log rf' \<and> CommitIndex rf'' = CommitIndex rf' \<and> CurrentTerm rf'' = CurrentTerm rf'"
  using wf v
proof (cases rule: AppendEntries_cases [of rf args clk])
  case (accepted rf3 reply')
  let ?k = "appendAt args rf"
  have k: "?k \<le> length (Log rf)" "0 < ?k"
    using accepted(2) by (auto simp: appendAt_def consistent_def lastIndex_def)
  have L: "Log rf' = mergedLog args rf" and b: "LastIncludedIndex rf' = LastIncludedIndex rf"
    and t: "CurrentTerm rf' = aeTerm args" and wf': "wf_raft rf'"
    and ci: "CommitIndex rf' = (if CommitIndex rf < aeLeaderCommit args
         then min (aeLeaderCommit args) (lastIndex rf') else CommitIndex rf)"
    using accepted ae by (auto simp: lastIndex_def)
  have k': "appendAt args rf' = ?k" by (simp add: appendAt_def b)
  have m: "mergedLog args rf' = Log rf'"
    using k by (simp add: mergedLog_def k' L) (simp add: mergedLog_def mergeLog_idem)
  have "Log rf' ! (?k - 1) = Log rf ! (?k - 1)"
    using k by (simp add: L mergedLog_def nth_append)
  then have "consistent args rf'"
    using accepted(2) k by (auto simp: consistent_def b appendAt_def lastIndex_def L mergedLog_def)
  then have c: "consistent args rf'" .
  show ?thesis
    using wf' v
  proof (cases rule: AppendEntries_cases [of rf' args clk'])
    case (accepted rf3' reply'')
    moreover have "reply' = reply" using ae \<open>AppendEntries clk args rf = Some (_, reply')\<close> by simp
    ultimately show ?thesis
      using m ci t \<open>reply' = zeroAppendReply\<lparr>aerTerm := aeTerm args, aerSuccess := True\<rparr>\<close>
      by (auto simp: lastIndex_def min_def)
  qed (use c t in auto)
qed (use ae ok in auto)

text \<open>C22: \<^verbatim>\<open>updateCommitIndex\<close> terminates and moves the commit index to the largest index
  above it that holds an entry of the leader's own term and is known to be stored on a
  majority, counting the leader once; if there is none the state is unchanged. An entry of
  an older term is never counted directly.\<close>

theorem updateCommitIndex_spec:
  assumes "wf_raft rf"
  shows "updateCommitIndex rf =
     (let G = {N. CommitIndex rf < N \<and> N \<le> lastIndex rf \<and>
                  leTerm (fst (GetLogEntry rf N)) = CurrentTerm rf \<and>
                  int (peers rf) div 2 + 1 \<le> int (card (replicas N rf))} in
      Some (if G = {} then rf else rf\<lparr>CommitIndex := Max G, applyWaiting := False\<rparr>))"
  using updateCommitIndex_eq [OF assms] wf_raftD(6) [OF assms] by (simp add: committable_def)

theorem updateCommitIndex_spec_witness:
  "updateCommitIndex examplePeer =
     (let G = {N. CommitIndex examplePeer < N \<and> N \<le> lastIndex examplePeer \<and>
                  leTerm (fst (GetLogEntry examplePeer N)) = CurrentTerm examplePeer \<and>
                  int (peers examplePeer) div 2 + 1 \<le> int (card (replicas N examplePeer))} in
      Some (if G = {} then examplePeer else examplePeer\<lparr>CommitIndex := Max G, applyWaiting := False\<rparr>))"
  by (rule updateCommitIndex_spec) simp

end
