(* ===== verification/Raft_Snapshot.thy ===== *)
theory Raft_Snapshot
  imports Raft_Replication
begin

text \<open>
  Log compaction of \<^verbatim>\<open>src/raft1/raft.go\<close>: \<^verbatim>\<open>Snapshot\<close> (called by the service),
  the \<^verbatim>\<open>InstallSnapShot\<close> handler and the two critical sections of
  \<^verbatim>\<open>sendSnapShot\<close>.
\<close>

record InstallSnapshotReply =
  isrTerm :: int

definition Snapshot :: "int \<Rightarrow> 's list \<Rightarrow> ('c, 's) Raft \<Rightarrow> ('c, 's) Raft option" where
  "Snapshot index snap rf =
     (if index \<le> LastIncludedIndex rf then Some rf
      else
        let (entryAtIndex, ok) = GetLogEntry rf index
        in if \<not> ok then Some rf
           else do {
             let logStartIndex = index - LastIncludedIndex rf;
             log' \<leftarrow> reslice (Log rf) logStartIndex (int (length (Log rf)));
             let rf1 = rf\<lparr>Log := log', LastIncludedIndex := index, LastIncludedTerm := leTerm entryAtIndex\<rparr>;
             Some (rf1\<lparr>persister := Save (EncodeRaftState rf1) snap (persister rf1)\<rparr>)
           })"

definition InstallSnapShot ::
    "clock \<Rightarrow> 's InstallSnapshotArgs \<Rightarrow> ('c, 's) Raft \<Rightarrow> ('c, 's) Raft \<times> InstallSnapshotReply" where
  "InstallSnapShot clk args rf =
     (let reply = \<lparr>isrTerm = CurrentTerm rf\<rparr>
      in if isTerm args < CurrentTerm rf then (rf, reply)
         else
           let rf1 = (if isTerm args > CurrentTerm rf
                      then rf\<lparr>CurrentTerm := isTerm args, VotedFor := NotVoted\<rparr> else rf);
               rf2 = resetTimer clk (rf1\<lparr>State := Follower\<rparr>)
           in if isLastIncludedIndex args \<le> LastIncludedIndex rf2 then (rf2, reply)
              else
                let newLog = [zeroEntry\<lparr>leIndex := isLastIncludedIndex args, leTerm := isLastIncludedTerm args\<rparr>];
                    rf3 = rf2\<lparr>Log := newLog, LastIncludedIndex := isLastIncludedIndex args,
                              LastIncludedTerm := isLastIncludedTerm args\<rparr>
                in (rf3\<lparr>persister := Save (EncodeRaftState rf3) (isData args) (persister rf3),
                        applyWaiting := False\<rparr>, reply))"

text \<open>The check before the call: the early return does not release the mutex. The second
  component says whether the RPC is sent.\<close>

definition sendSnapShot :: "('c, 's) Raft \<Rightarrow> ('c, 's) Raft \<times> bool" where
  "sendSnapShot rf = (if State rf \<noteq> Leader then (rf\<lparr>mu := True\<rparr>, False) else (rf, True))"

text \<open>The critical section after the call.\<close>

definition HandleSnapReply ::
    "nat \<Rightarrow> 's InstallSnapshotArgs \<Rightarrow> InstallSnapshotReply option \<Rightarrow> ('c, 's) Raft \<Rightarrow> ('c, 's) Raft option" where
  "HandleSnapReply server args rep rf =
     (case rep of
        None \<Rightarrow> Some rf
      | Some reply \<Rightarrow>
          if isTerm args \<noteq> CurrentTerm rf then Some rf
          else if isrTerm reply > CurrentTerm rf
          then Some (persist (rf\<lparr>CurrentTerm := isrTerm reply, State := Follower\<rparr>))
          else do {
            mi \<leftarrow> idx (MatchIndex rf) (int server);
            rf1 \<leftarrow> (if isLastIncludedIndex args > mi
                    then do { xs \<leftarrow> upd (MatchIndex rf) (int server) (isLastIncludedIndex args);
                              Some (rf\<lparr>MatchIndex := xs\<rparr>) }
                    else Some rf);
            ni \<leftarrow> idx (NextIndex rf1) (int server);
            rf2 \<leftarrow> (if isLastIncludedIndex args + 1 > ni
                    then do { xs \<leftarrow> upd (NextIndex rf1) (int server) (isLastIncludedIndex args + 1);
                              Some (rf1\<lparr>NextIndex := xs\<rparr>) }
                    else Some rf1);
            updateCommitIndex rf2
          })"

section \<open>What the snapshot operations keep\<close>

lemma Snapshot_eq:
  "Snapshot index snap rf =
     Some (if LastIncludedIndex rf < index \<and> index \<le> lastIndex rf
           then let rf1 = rf\<lparr>Log := drop (nat (index - LastIncludedIndex rf)) (Log rf),
                            LastIncludedIndex := index,
                            LastIncludedTerm := leTerm (Log rf ! nat (index - LastIncludedIndex rf))\<rparr>
                in rf1\<lparr>persister := Save (EncodeRaftState rf1) snap (persister rf)\<rparr>
           else rf)"
  by (auto simp: Snapshot_def GetLogEntry_def Let_def lastIndex_def)

lemma wf_log_drop:
  assumes "wf_log b bt es" "k < length es"
  shows "wf_log (b + int k) (leTerm (es ! k)) (drop k es)"
  using assms consecutive_drop [of b es k] by (auto simp: wf_log_def hd_drop_conv_nth)

lemma Snapshot_wf:
  assumes "wf_raft rf" "Snapshot index snap rf = Some rf'"
  shows "wf_raft rf'"
  using assms wf_log_drop [of "LastIncludedIndex rf" "LastIncludedTerm rf" "Log rf" "nat (index - LastIncludedIndex rf)"]
  by (auto simp: Snapshot_eq wf_raft_def Let_def lastIndex_def)

lemma savedState_Save:
  "Log rf1 \<noteq> [] \<Longrightarrow> savedState (rf1\<lparr>persister := Save (EncodeRaftState rf1) snap ps\<rparr>) = EncodeRaftState rf1"
  by (simp add: savedState_def Save_def EncodeRaftState_def)

lemma durable_Save: "durable (rf1\<lparr>persister := Save (EncodeRaftState rf1) snap ps\<rparr>)"
  by (simp add: durable_def savedState_def Save_def EncodeRaftState_def)

interpretation snap: raft_operation "\<lambda>(index, snap) rf. map_option (\<lambda>r. (r, ())) (Snapshot index snap rf)" "\<lambda>_. True"
proof (unfold_locales, goal_cases)
  case (1 rf i)
  then show ?case by (cases i) (auto simp: Snapshot_eq)
next
  case (2 rf i rf' out)
  then show ?case by (cases i) (auto intro: Snapshot_wf)
next
  case (3 rf i rf' out)
  then show ?case by (cases i) (auto simp: Snapshot_eq Let_def durable_Save split: if_splits)
next
  case (4 i rf rf' out)
  then show ?case by (cases i) (auto simp: Snapshot_eq Let_def evolves_def split: if_splits)
next
  case (5 rf i rf' out)
  then show ?case
    by (cases i) (auto simp: Snapshot_eq Let_def saves_def savedState_def Save_def EncodeRaftState_def split: if_splits)
qed

definition valid_snapshot :: "'s InstallSnapshotArgs \<Rightarrow> bool" where
  "valid_snapshot args \<longleftrightarrow> 0 \<le> isLastIncludedIndex args"

lemma InstallSnapShot_cases:
  assumes "InstallSnapShot clk args rf = (rf', reply)"
  obtains (stale) "isTerm args < CurrentTerm rf" "rf' = rf"
  | (old) "CurrentTerm rf \<le> isTerm args" "isLastIncludedIndex args \<le> LastIncludedIndex rf"
      "rf' = acceptLeader clk (isTerm args) rf"
  | (installed) rf3 where "CurrentTerm rf \<le> isTerm args" "LastIncludedIndex rf < isLastIncludedIndex args"
      "rf3 = (acceptLeader clk (isTerm args) rf)\<lparr>
          Log := [zeroEntry\<lparr>leIndex := isLastIncludedIndex args, leTerm := isLastIncludedTerm args\<rparr>],
          LastIncludedIndex := isLastIncludedIndex args, LastIncludedTerm := isLastIncludedTerm args\<rparr>"
      "rf' = rf3\<lparr>persister := Save (EncodeRaftState rf3) (isData args) (persister rf), applyWaiting := False\<rparr>"
proof (cases "isTerm args < CurrentTerm rf")
  case True
  then show ?thesis using assms by (intro stale) (auto simp: InstallSnapShot_def)
next
  case ns: False
  define rf1 where "rf1 = (if isTerm args > CurrentTerm rf
      then rf\<lparr>CurrentTerm := isTerm args, VotedFor := NotVoted\<rparr> else rf)"
  have rf2: "resetTimer clk (rf1\<lparr>State := Follower\<rparr>) = acceptLeader clk (isTerm args) rf"
    by (simp add: acceptLeader_def rf1_def)
  show ?thesis
  proof (cases "isLastIncludedIndex args \<le> LastIncludedIndex rf")
    case True
    then show ?thesis
      using assms ns unfolding InstallSnapShot_def Let_def rf1_def [symmetric] rf2
      by (intro old) auto
  next
    case False
    then show ?thesis
      using assms ns unfolding InstallSnapShot_def Let_def rf1_def [symmetric] rf2
      by (intro installed) auto
  qed
qed

lemma durable_acceptLeader: "durable rf \<Longrightarrow> durable (acceptLeader clk t rf)"
  by (auto simp: durable_def savedState_def)

interpretation install: raft_operation
  "\<lambda>(clk, args) rf. Some (InstallSnapShot clk args rf)" "\<lambda>(clk, args). valid_snapshot args"
proof (unfold_locales, goal_cases)
  case (1 rf i)
  then show ?case by (cases i) auto
next
  case (2 rf i rf' out)
  then show ?case
    by (cases i) (auto elim!: InstallSnapShot_cases simp: wf_raft_def wf_log_def valid_snapshot_def
        acceptLeader_def split: if_splits)
next
  case (3 rf i rf' out)
  then show ?case
    by (cases i) (auto elim!: InstallSnapShot_cases simp: durable_acceptLeader durable_Save)
next
  case (4 i rf rf' out)
  then show ?case
    by (cases i) (auto elim!: InstallSnapShot_cases simp: evolves_def)
next
  case (5 rf i rf' out)
  then show ?case
    by (cases i) (auto elim!: InstallSnapShot_cases simp: saves_def savedState_def Save_def EncodeRaftState_def)
qed


lemma NextIndex_MatchIndex_commute:
  "rf\<lparr>MatchIndex := a, NextIndex := b\<rparr> = rf\<lparr>NextIndex := b, MatchIndex := a\<rparr>"
  by (cases rf) simp

lemma HandleSnapReply_cases:
  assumes wf: "wf_raft rf" and i: "i < peers rf" and h: "HandleSnapReply i args rep rf = Some rf'"
  obtains (ignored) "rf' = rf" "rep = None \<or> isTerm args \<noteq> CurrentTerm rf"
  | (stepdown) r where "rep = Some r" "isTerm args = CurrentTerm rf" "isrTerm r > CurrentTerm rf"
      "rf' = persist (rf\<lparr>CurrentTerm := isrTerm r, State := Follower\<rparr>)"
  | (success) r where "rep = Some r" "isTerm args = CurrentTerm rf" "isrTerm r \<le> CurrentTerm rf"
      "updateCommitIndex (learnMatch i (isLastIncludedIndex args) rf) = Some rf'"
proof (cases rep)
  case None
  with h show ?thesis by (intro ignored) (auto simp: HandleSnapReply_def)
next
  case (Some r)
  consider "isTerm args \<noteq> CurrentTerm rf" | "isTerm args = CurrentTerm rf" "isrTerm r > CurrentTerm rf"
    | "isTerm args = CurrentTerm rf" "isrTerm r \<le> CurrentTerm rf" by linarith
  then show ?thesis
  proof cases
    case 1
    with Some h show ?thesis by (intro ignored) (auto simp: HandleSnapReply_def)
  next
    case 2
    with Some h show ?thesis by (intro stepdown) (auto simp: HandleSnapReply_def)
  next
    case 3
    with Some h i wf_raftD(7,8)[OF wf] show ?thesis
      by (intro success) (auto simp: HandleSnapReply_def learnMatch_def max_def Let_def NextIndex_MatchIndex_commute
          split: if_splits)
  qed
qed

lemma HandleSnapReply_keeps:
  assumes "wf_raft rf" "i < peers rf" "HandleSnapReply i args rep rf = Some rf'"
  shows "wf_raft rf'" "durable rf \<Longrightarrow> durable rf'" "evolves rf rf'" "saves rf rf'"
proof -
  have wl: "wf_raft (learnMatch i m rf)" for m using assms(1) by simp
  show "wf_raft rf'"
    using assms by (cases rule: HandleSnapReply_cases)
       (use assms(1) in \<open>auto elim!: updateCommitIndex_frame [OF wl]\<close>)
  show "durable rf \<Longrightarrow> durable rf'"
    using assms by (cases rule: HandleSnapReply_cases) (auto elim!: updateCommitIndex_frame [OF wl])
  show "evolves rf rf'"
    using assms by (cases rule: HandleSnapReply_cases)
       (auto elim!: updateCommitIndex_frame [OF wl] simp: evolves_def)
  show "saves rf rf'"
    using assms by (cases rule: HandleSnapReply_cases)
       (auto elim!: updateCommitIndex_frame [OF wl] simp: saves_def savedState_def)
qed

section \<open>Properties\<close>

text \<open>\<^verbatim>\<open>Snapshot(index)\<close> never panics. For an index inside the retained log it drops
  exactly the entries below \<open>index\<close>: every entry from \<open>index\<close> on is found under the same
  logical index as before, the last index is unchanged, and the new boundary, the shortened
  log and the snapshot go to stable storage in one write. For any other index it does
  nothing.\<close>

lemma Snapshot_compacts:
  assumes "wf_raft rf"
  shows "\<exists>rf'. Snapshot index snap rf = Some rf' \<and> wf_raft rf' \<and> lastIndex rf' = lastIndex rf \<and>
     (if LastIncludedIndex rf < index \<and> index \<le> lastIndex rf
      then LastIncludedIndex rf' = index \<and> (\<forall>i \<ge> index. GetLogEntry rf' i = GetLogEntry rf i) \<and>
           LastIncludedTerm rf' = leTerm (fst (GetLogEntry rf index)) \<and>
           raftstate (persister rf') = EncodeRaftState rf' \<and> snapshot (persister rf') = snap
      else rf' = rf)"
proof (cases "LastIncludedIndex rf < index \<and> index \<le> lastIndex rf")
  case False
  then show ?thesis using assms by (auto simp: Snapshot_eq)
next
  case True
  define k where "k = nat (index - LastIncludedIndex rf)"
  obtain rf' where r: "Snapshot index snap rf = Some rf'" by (simp add: Snapshot_eq)
  have k: "k < length (Log rf)" "index = LastIncludedIndex rf + int k"
    using True by (auto simp: k_def lastIndex_def)
  have L: "Log rf' = drop k (Log rf)" and b: "LastIncludedIndex rf' = index"
    and t: "LastIncludedTerm rf' = leTerm (Log rf ! k)"
    and p: "persister rf' = Save (EncodeRaftState rf') snap (persister rf)"
    using r True by (auto simp: Snapshot_eq Let_def k_def EncodeRaftState_def)
  have "GetLogEntry rf' i = GetLogEntry rf i" if "index \<le> i" for i
  proof -
    have "nat (i - LastIncludedIndex rf) = k + nat (i - index)" using that k by linarith
    then show ?thesis
      using that k by (auto simp: GetLogEntry_def L b Let_def of_nat_diff)
  qed
  moreover have "fst (GetLogEntry rf index) = Log rf ! k"
    using k by (simp add: GetLogEntry_def)
  moreover have "lastIndex rf' = lastIndex rf"
    using k by (simp add: lastIndex_def L b of_nat_diff)
  ultimately show ?thesis
    using r True b t p Snapshot_wf [OF assms r] by (simp add: Save_def)
qed

text \<open>\<^verbatim>\<open>InstallSnapShot\<close> of a snapshot that is not older than the peer's own always
  leaves a log that ends at the snapshot's last index. Entries that the peer holds beyond
  that index are discarded, also when its log contains the snapshot's last entry and agrees
  with the leader; the comment in the handler announces a truncation that keeps them.\<close>

lemma InstallSnapShot_discards_suffix:
  assumes "InstallSnapShot clk args rf = (rf', reply)"
    and "CurrentTerm rf \<le> isTerm args" and "LastIncludedIndex rf < isLastIncludedIndex args"
  shows "lastIndex rf' = isLastIncludedIndex args \<and> LastIncludedIndex rf' = isLastIncludedIndex args \<and>
     CommitIndex rf' = CommitIndex rf \<and> savedState rf' = EncodeRaftState rf' \<and>
     snapshot (persister rf') = isData args \<and>
     (\<forall>i. isLastIncludedIndex args < i \<longrightarrow> GetLogEntry rf' i = (zeroEntry, False))"
  using assms
  by (auto elim!: InstallSnapShot_cases
      simp: lastIndex_def GetLogEntry_def Save_def savedState_def EncodeRaftState_def)

text \<open>\<^verbatim>\<open>sendSnapShot\<close> on a peer that has just lost its leadership returns with the
  peer's mutex held; on a leader it does not touch the state.\<close>

lemma sendSnapShot_leaks_mutex:
  "mu (fst (sendSnapShot rf)) = (mu rf \<or> State rf \<noteq> Leader) \<and>
   snd (sendSnapShot rf) = (State rf = Leader) \<and>
   (State rf = Leader \<longrightarrow> fst (sendSnapShot rf) = rf)"
  by (simp add: sendSnapShot_def)

end
