(* ===== verification/Raft_Apply.thy ===== *)
theory Raft_Apply
  imports Raft_Snapshot
begin

text \<open>
  The applier goroutine of \<^verbatim>\<open>src/raft1/raft.go\<close> and the messages it sends on
  \<^verbatim>\<open>applyCh\<close> (\<^verbatim>\<open>src/raftapi/raftapi.go\<close>). The goroutine holds the mutex while it
  decides what to deliver and while it advances \<^verbatim>\<open>LastApplied\<close>, but not while it
  sends; handlers run in between. Its control point is therefore explicit.
\<close>

record ('c, 's) ApplyMsg =
  CommandValid :: bool
  Command :: "'c option"
  CommandTerm :: int
  CommandIndex :: int
  SnapshotValid :: bool
  SnapshotData :: "'s list"
  SnapshotTerm :: int
  SnapshotIndex :: int

definition zeroApplyMsg :: "('c, 's) ApplyMsg" where
  "zeroApplyMsg = \<lparr>CommandValid = False, Command = None, CommandTerm = 0, CommandIndex = 0,
     SnapshotValid = False, SnapshotData = [], SnapshotTerm = 0, SnapshotIndex = 0\<rparr>"

definition commandMsg :: "'c LogEntry \<Rightarrow> ('c, 's) ApplyMsg" where
  "commandMsg entry = zeroApplyMsg\<lparr>CommandValid := True, Command := leCommand entry,
     CommandTerm := leTerm entry, CommandIndex := leIndex entry\<rparr>"

text \<open>At the loop head, asleep on the condition variable, sending a snapshot or entries (with
  the value that \<^verbatim>\<open>LastApplied\<close> is to reach), or finished with the channel closed.\<close>

datatype applier_pc = AHead | AWait | ASnap int | AEntries int | AClosed

definition nothingToApply :: "('c, 's) Raft \<Rightarrow> bool" where
  "nothingToApply rf \<longleftrightarrow> CommitIndex rf \<le> LastApplied rf \<and> LastApplied rf \<ge> LastIncludedIndex rf"

text \<open>The body of the critical section, entered from the loop head or after a wake-up.\<close>

definition applierBody ::
    "('c, 's) Raft \<Rightarrow> (applier_pc \<times> ('c, 's) Raft \<times> ('c, 's) ApplyMsg list) option" where
  "applierBody rf =
     (if nothingToApply rf then Some (AWait, rf\<lparr>applyWaiting := True\<rparr>, [])
      else if LastApplied rf < LastIncludedIndex rf
      then Some (ASnap (LastIncludedIndex rf), rf,
             [zeroApplyMsg\<lparr>SnapshotValid := True, SnapshotData := ReadSnapshot (persister rf),
               SnapshotTerm := LastIncludedTerm rf, SnapshotIndex := LastIncludedIndex rf\<rparr>])
      else do {
        (appliedEntries, ok) \<leftarrow> GetLogSlices rf (LastApplied rf + 1) (CommitIndex rf + 1);
        if \<not> ok \<or> appliedEntries = [] then Some (AHead, rf, [])
        else Some (AEntries (CommitIndex rf), rf, map commandMsg appliedEntries)
      })"

text \<open>One scheduling step of the goroutine. While it is asleep nothing happens; a wake-up
  re-enters the waiting loop without looking at \<^verbatim>\<open>killed()\<close>.\<close>

fun Applier :: "applier_pc \<Rightarrow> ('c, 's) Raft \<Rightarrow>
    (applier_pc \<times> ('c, 's) Raft \<times> ('c, 's) ApplyMsg list) option" where
  "Applier AHead rf = (if killed rf then Some (AClosed, rf, []) else applierBody rf)"
| "Applier AWait rf = (if applyWaiting rf then Some (AWait, rf, []) else applierBody rf)"
| "Applier (ASnap li) rf = Some (AHead, rf\<lparr>LastApplied := max (LastApplied rf) li\<rparr>, [])"
| "Applier (AEntries ci) rf = Some (AHead, rf\<lparr>LastApplied := max (LastApplied rf) ci\<rparr>, [])"
| "Applier AClosed rf = Some (AClosed, rf, [])"

section \<open>Interleaving with the handlers\<close>

text \<open>What any handler may do to the fields the applier works with. It never writes
  \<^verbatim>\<open>LastApplied\<close>, and whoever gives the applier work wakes it.\<close>

definition handler_step :: "('c, 's) Raft \<Rightarrow> ('c, 's) Raft \<Rightarrow> bool" where
  "handler_step rf rf' \<longleftrightarrow> wf_raft rf' \<and> LastApplied rf' = LastApplied rf \<and>
     (applyWaiting rf' \<longrightarrow> applyWaiting rf) \<and>
     (applyWaiting rf' \<longrightarrow> nothingToApply rf \<longrightarrow> nothingToApply rf')"

text \<open>Runs of the applier interleaved with handler steps; the list is everything sent on the
  channel so far.\<close>

inductive applier_run :: "applier_pc \<Rightarrow> ('c, 's) Raft \<Rightarrow> ('c, 's) ApplyMsg list \<Rightarrow> bool" where
  init: "wf_raft rf \<Longrightarrow> LastApplied rf = 0 \<Longrightarrow> \<not> applyWaiting rf \<Longrightarrow> applier_run AHead rf []"
| applier: "applier_run pc rf out \<Longrightarrow> Applier pc rf = Some (pc', rf', msgs) \<Longrightarrow>
     applier_run pc' rf' (out @ msgs)"
| handler: "applier_run pc rf out \<Longrightarrow> handler_step rf rf' \<Longrightarrow> applier_run pc rf' out"

text \<open>The state the service is in after a message: the last index it covers.\<close>

definition msgIndex :: "('c, 's) ApplyMsg \<Rightarrow> int" where
  "msgIndex m = (if CommandValid m then CommandIndex m else SnapshotIndex m)"

definition position :: "('c, 's) ApplyMsg list \<Rightarrow> int" where
  "position out = (if out = [] then 0 else msgIndex (last out))"

text \<open>The order a service expects: each command is the successor of what came before, each
  snapshot lies strictly ahead.\<close>

fun in_order :: "int \<Rightarrow> ('c, 's) ApplyMsg list \<Rightarrow> bool" where
  "in_order p [] = True"
| "in_order p (m # ms) =
     ((if CommandValid m then \<not> SnapshotValid m \<and> CommandIndex m = p + 1
       else SnapshotValid m \<and> p < SnapshotIndex m) \<and> in_order (msgIndex m) ms)"

lemma in_order_append:
  "in_order p (xs @ ys) \<longleftrightarrow> in_order p xs \<and> in_order (if xs = [] then p else msgIndex (last xs)) ys"
  by (induction xs arbitrary: p) auto

lemma in_order_commands:
  "consecutive (p + 1) es \<Longrightarrow> in_order p (map commandMsg es)"
  by (induction es arbitrary: p) (auto simp: commandMsg_def zeroApplyMsg_def msgIndex_def)

lemma last_consecutive:
  "consecutive b es \<Longrightarrow> es \<noteq> [] \<Longrightarrow> leIndex (last es) = b + int (length es) - 1"
  by (simp add: consecutive_def last_conv_nth of_nat_diff Suc_leI)

lemma applierBody_slices:
  assumes wf: "wf_raft rf" and "\<not> nothingToApply rf" "LastIncludedIndex rf \<le> LastApplied rf"
  shows "GetLogSlices rf (LastApplied rf + 1) (CommitIndex rf + 1) =
     Some (if CommitIndex rf \<le> lastIndex rf
           then (take (nat (CommitIndex rf - LastApplied rf))
                   (drop (nat (LastApplied rf + 1 - LastIncludedIndex rf)) (Log rf)), True)
           else ([], False))"
  using assms by (auto simp: GetLogSlices_def nothingToApply_def reslice_def lastIndex_def Let_def)

lemma applierBody_cases:
  assumes wf: "wf_raft rf"
  obtains (wait) "nothingToApply rf" "applierBody rf = Some (AWait, rf\<lparr>applyWaiting := True\<rparr>, [])"
  | (snap) m where "\<not> nothingToApply rf" "LastApplied rf < LastIncludedIndex rf"
      "applierBody rf = Some (ASnap (LastIncludedIndex rf), rf, [m])"
      "\<not> CommandValid m" "SnapshotValid m" "SnapshotIndex m = LastIncludedIndex rf"
      "SnapshotData m = snapshot (persister rf)"
  | (spin) "\<not> nothingToApply rf" "applierBody rf = Some (AHead, rf, [])" "lastIndex rf < CommitIndex rf"
  | (entries) es where "\<not> nothingToApply rf" "LastIncludedIndex rf \<le> LastApplied rf"
      "applierBody rf = Some (AEntries (CommitIndex rf), rf, map commandMsg es)"
      "es \<noteq> []" "consecutive (LastApplied rf + 1) es" "LastApplied rf + int (length es) = CommitIndex rf"
      "set es \<subseteq> set (Log rf)" "CommitIndex rf \<le> lastIndex rf"
proof -
  consider "nothingToApply rf" | "\<not> nothingToApply rf" "LastApplied rf < LastIncludedIndex rf"
    | "\<not> nothingToApply rf" "LastIncludedIndex rf \<le> LastApplied rf" by linarith
  then show ?thesis
  proof cases
    case 1
    then show ?thesis by (intro wait) (auto simp: applierBody_def)
  next
    case 2
    then show ?thesis
      by (intro snap [where m = "zeroApplyMsg\<lparr>SnapshotValid := True, SnapshotData := ReadSnapshot (persister rf),
               SnapshotTerm := LastIncludedTerm rf, SnapshotIndex := LastIncludedIndex rf\<rparr>"])
         (auto simp: applierBody_def zeroApplyMsg_def ReadSnapshot_def)
  next
    case 3
    note sl = applierBody_slices [OF wf 3]
    show ?thesis
    proof (cases "CommitIndex rf \<le> lastIndex rf")
      case False
      then show ?thesis using 3 sl by (intro spin) (auto simp: applierBody_def)
    next
      case True
      define k n where "k = nat (LastApplied rf + 1 - LastIncludedIndex rf)"
        and "n = nat (CommitIndex rf - LastApplied rf)"
      define es where "es = take n (drop k (Log rf))"
      have kn: "0 < n" "k + n \<le> length (Log rf)" "LastIncludedIndex rf + int k = LastApplied rf + 1"
        "int n = CommitIndex rf - LastApplied rf"
        using 3 True by (auto simp: k_def n_def nothingToApply_def lastIndex_def)
      have len: "length es = n" using kn by (simp add: es_def)
      have "consecutive (LastIncludedIndex rf + int k) es"
        unfolding es_def using kn consecutive_take consecutive_drop wf_raftD(3) [OF wf]
        by (metis add_leD1)
      then have c: "consecutive (LastApplied rf + 1) es" using kn by simp
      have body: "applierBody rf = Some (AEntries (CommitIndex rf), rf, map commandMsg es)"
        using 3 sl True len kn(1) by (auto simp: applierBody_def es_def k_def n_def)
      show ?thesis
        using 3 True len kn c body
        by (intro entries [where es = es]) (auto simp: es_def dest!: in_set_takeD in_set_dropD)
    qed
  qed
qed


definition applier_inv :: "applier_pc \<Rightarrow> ('c, 's) Raft \<Rightarrow> ('c, 's) ApplyMsg list \<Rightarrow> bool" where
  "applier_inv pc rf out \<longleftrightarrow>
     wf_raft rf \<and> in_order 0 out \<and> (applyWaiting rf \<longrightarrow> pc = AWait \<and> nothingToApply rf) \<and>
     (case pc of ASnap li \<Rightarrow> position out = li \<and> LastApplied rf < li
               | AEntries ci \<Rightarrow> position out = ci \<and> LastApplied rf < ci
               | _ \<Rightarrow> position out = LastApplied rf)"

lemma position_append: "ms \<noteq> [] \<Longrightarrow> position (out @ ms) = msgIndex (last ms)"
  by (simp add: position_def)

lemma in_order_snoc: "in_order 0 out \<Longrightarrow> in_order (position out) ms \<Longrightarrow> in_order 0 (out @ ms)"
  by (auto simp: in_order_append position_def)

lemma applierBody_inv:
  fixes rf :: "('c, 's) Raft" and out :: "('c, 's) ApplyMsg list"
  assumes "wf_raft rf" "in_order 0 out" "position out = LastApplied rf" "\<not> applyWaiting rf"
    and b: "applierBody rf = Some (pc', rf', msgs)"
  shows "applier_inv pc' rf' (out @ msgs)"
  using assms(1)
proof (cases rule: applierBody_cases)
  case wait
  then show ?thesis using assms by (simp add: applier_inv_def nothingToApply_def)
next
  case (snap m)
  then show ?thesis
    using assms in_order_snoc [of out "[m]"] by (auto simp: applier_inv_def position_append msgIndex_def)
next
  case spin
  then show ?thesis using assms by (simp add: applier_inv_def)
next
  case (entries es)
  have "last (map commandMsg es) = (commandMsg (last es) :: ('c, 's) ApplyMsg)"
    using entries(4) by (simp add: last_map)
  moreover have "leIndex (last es) = CommitIndex rf"
    using last_consecutive [OF entries(5,4)] entries(6) by simp
  ultimately have "msgIndex (last (map commandMsg es) :: ('c, 's) ApplyMsg) = CommitIndex rf"
    by (simp add: msgIndex_def commandMsg_def zeroApplyMsg_def)
  moreover have "LastApplied rf < CommitIndex rf" using entries(4,6) by (cases es) auto
  moreover have "pc' = AEntries (CommitIndex rf)" "rf' = rf" "msgs = map commandMsg es"
    using b entries(3) by auto
  moreover have "in_order 0 (out @ map commandMsg es)"
    using in_order_snoc [OF assms(2)] in_order_commands [OF entries(5)] assms(3) by simp
  ultimately show ?thesis
    using assms(1,4) entries(4,6) by (simp add: applier_inv_def position_append)
qed

lemma applier_step_inv:
  assumes "applier_inv pc rf out" "Applier pc rf = Some (pc', rf', msgs)"
  shows "applier_inv pc' rf' (out @ msgs)"
proof (cases pc)
  case AHead
  then show ?thesis
    using assms applierBody_inv [of rf out pc' rf' msgs]
    by (auto simp: applier_inv_def [of AHead] applier_inv_def [of AClosed] split: if_splits)
next
  case AWait
  then show ?thesis
    using assms applierBody_inv [of rf out pc' rf' msgs]
    by (auto simp: applier_inv_def [of AWait] split: if_splits)
qed (use assms in \<open>auto simp: applier_inv_def nothingToApply_def\<close>)

lemma applier_run_inv: "applier_run pc rf out \<Longrightarrow> applier_inv pc rf out"
proof (induction rule: applier_run.induct)
  case (init rf)
  then show ?case by (simp add: applier_inv_def position_def)
next
  case (applier pc rf out pc' rf' msgs)
  then show ?case by (blast intro: applier_step_inv)
next
  case (handler pc rf out rf')
  then show ?case by (auto simp: applier_inv_def handler_step_def split: applier_pc.splits)
qed

section \<open>Every handler is such a step\<close>

lemma nothingToApply_cong:
  "CommitIndex rf' = CommitIndex rf \<Longrightarrow> LastApplied rf' = LastApplied rf \<Longrightarrow>
   LastIncludedIndex rf' = LastIncludedIndex rf \<Longrightarrow> nothingToApply rf' = nothingToApply rf"
  by (simp add: nothingToApply_def)

lemma RequestVote_handler_step:
  assumes "wf_raft rf" "RequestVote clk args rf = Some (rf', r)"
  shows "handler_step rf rf'"
  using assms(2) RequestVote_wf [OF assms]
  by (cases rule: RequestVote_cases) (auto simp: handler_step_def nothingToApply_def)

lemma AttemptElection_handler_step:
  assumes "wf_raft rf" "AttemptElection clk rf = Some (rf', a, n)"
  shows "handler_step rf rf'"
  using assms AttemptElection_Some(2) [OF assms(2)]
  by (auto simp: handler_step_def nothingToApply_def)

lemma HandleVoteReply_handler_step:
  assumes "wf_raft rf" "HandleVoteReply args rep vs rf = Some (rf', n, b)"
  shows "handler_step rf rf'"
proof -
  have "wf_raft rf'" using vote_reply.keeps_wf [of rf "(args, rep, vs)"] assms by simp
  then show ?thesis
    using assms(2)
    by (auto simp: handler_step_def nothingToApply_def elim!: HandleVoteReply_cases BecomeLeader_Some)
qed

lemma AppendEntries_handler_step:
  assumes "wf_raft rf" "valid_append args" "AppendEntries clk args rf = Some (rf', r)"
  shows "handler_step rf rf'"
  using assms(1,2)
  by (cases rule: AppendEntries_cases [of rf args clk])
     (use assms in \<open>auto simp: handler_step_def nothingToApply_def split: if_splits\<close>)

lemma Start_handler_step:
  assumes "wf_raft rf" "Start c rf = Some (rf', r)"
  shows "handler_step rf rf'"
  using assms start.keeps_wf [OF assms(1) _ assms(2)]
  by (auto simp: Start_def handler_step_def nothingToApply_def bind_Some_iff split: if_splits)

lemma updateCommitIndex_handler_step:
  assumes "wf_raft rf" "updateCommitIndex (learnMatch i m rf) = Some rf'"
  shows "handler_step rf rf'"
proof -
  have "wf_raft (learnMatch i m rf)" using assms(1) by simp
  from this assms(2) show ?thesis
    by (cases rule: updateCommitIndex_frame) (use assms(1) in \<open>auto simp: handler_step_def nothingToApply_def\<close>)
qed

lemma HandleAppendReply_handler_step:
  assumes "wf_raft rf" "i < peers rf" "HandleAppendReply i args rep rf = Some rf'"
  shows "handler_step rf rf'"
  using assms
  by (cases rule: HandleAppendReply_cases)
     (use assms(1) HandleAppendReply_keeps(1) [OF assms] updateCommitIndex_handler_step in
        \<open>auto simp: handler_step_def nothingToApply_def\<close>)

lemma HandleSnapReply_handler_step:
  assumes "wf_raft rf" "i < peers rf" "HandleSnapReply i args rep rf = Some rf'"
  shows "handler_step rf rf'"
  using assms
  by (cases rule: HandleSnapReply_cases)
     (use assms(1) updateCommitIndex_handler_step in \<open>auto simp: handler_step_def nothingToApply_def\<close>)

lemma InstallSnapShot_handler_step:
  assumes "wf_raft rf" "valid_snapshot args" "InstallSnapShot clk args rf = (rf', r)"
  shows "handler_step rf rf'"
  using assms(3)
proof (cases rule: InstallSnapShot_cases)
  case stale
  then show ?thesis using assms(1) by (simp add: handler_step_def)
next
  case old
  then show ?thesis using assms(1) by (simp add: handler_step_def nothingToApply_def)
next
  case (installed rf3)
  then show ?thesis
    using install.keeps_wf [of rf "(clk, args)" rf' r] assms by (simp add: handler_step_def)
qed

lemma Snapshot_handler_step:
  assumes "wf_raft rf" "Snapshot index snap rf = Some rf'" "applyWaiting rf \<longrightarrow> index \<le> LastApplied rf"
  shows "handler_step rf rf'"
  using assms Snapshot_wf [OF assms(1,2)]
  by (auto simp: handler_step_def Snapshot_eq nothingToApply_def Let_def split: if_splits)


section \<open>Properties\<close>

text \<open>C23: whatever the handlers do in between, the applier delivers in order. The first
  command has index 1 or follows a snapshot, every command is the successor of the message
  before it, every snapshot lies strictly ahead of what was delivered, and nothing is
  delivered twice.\<close>

theorem applier_in_order:
  assumes "applier_run pc rf out"
  shows "in_order 0 out"
  using applier_run_inv [OF assms] by (simp add: applier_inv_def)

lemma exampleRun:
  "applier_run AHead (examplePeer\<lparr>CommitIndex := 0\<rparr>) [] \<and>
   applier_run AWait (examplePeer\<lparr>CommitIndex := 0, applyWaiting := True\<rparr>) []"
proof -
  let ?r = "examplePeer\<lparr>CommitIndex := 0\<rparr>"
  have i: "applier_run AHead ?r []"
    by (rule applier_run.init) (simp_all add: examplePeer_def wf_raft_def wf_log_def)
  have "Applier AHead ?r = Some (AWait, ?r\<lparr>applyWaiting := True\<rparr>, [])"
    by (simp add: examplePeer_def applierBody_def nothingToApply_def killed_def)
  from applier_run.applier [OF i this] i show ?thesis by (simp add: examplePeer_def)
qed

text \<open>A run that delivers: the first entry is sent, the commit index moves while the applier is
  sending, and the second entry follows in the next round.\<close>

definition exampleOut :: "(nat, nat) ApplyMsg list" where
  "exampleOut = map commandMsg (tl (Log examplePeer))"

lemma exampleOut_run: "applier_run (AEntries 2) (examplePeer\<lparr>CommitIndex := 2, LastApplied := 1\<rparr>) exampleOut"
proof -
  let ?m = "\<lambda>k. [commandMsg (Log examplePeer ! k)] :: (nat, nat) ApplyMsg list"
  let ?r = "examplePeer\<lparr>CommitIndex := 2\<rparr>"
  have 1: "applier_run AHead examplePeer []"
    by (rule applier_run.init) (simp_all add: examplePeer_def wf_raft_def wf_log_def consecutive_def zeroEntry_def less_Suc_eq numeral_2_eq_2)
  have "Applier AHead examplePeer = Some (AEntries 1, examplePeer, ?m 1)"
    by (simp add: examplePeer_def applierBody_def nothingToApply_def killed_def GetLogSlices_def reslice_def lastIndex_def Let_def)
  from applier_run.applier [OF 1 this] have 2: "applier_run (AEntries 1) examplePeer (?m 1)" by simp
  have "handler_step examplePeer ?r"
    by (simp add: handler_step_def examplePeer_def wf_raft_def wf_log_def consecutive_def zeroEntry_def less_Suc_eq numeral_2_eq_2)
  from applier_run.handler [OF 2 this] have 3: "applier_run (AEntries 1) ?r (?m 1)" .
  have "Applier (AEntries 1) ?r = Some (AHead, ?r\<lparr>LastApplied := 1\<rparr>, [])" by (simp add: examplePeer_def)
  from applier_run.applier [OF 3 this] have 4: "applier_run AHead (?r\<lparr>LastApplied := 1\<rparr>) (?m 1)" by simp
  have "Applier AHead (?r\<lparr>LastApplied := 1\<rparr>) = Some (AEntries 2, ?r\<lparr>LastApplied := 1\<rparr>, ?m 2)"
    by (simp add: examplePeer_def applierBody_def nothingToApply_def killed_def GetLogSlices_def reslice_def lastIndex_def Let_def)
  from applier_run.applier [OF 4 this] show ?thesis by (simp add: exampleOut_def examplePeer_def)
qed

theorem applier_in_order_witness:
  "in_order 0 exampleOut \<and> map CommandIndex exampleOut = [1, 2] \<and> map Command exampleOut = [Some 10, Some 20]"
  using applier_in_order [OF exampleOut_run] by (simp add: exampleOut_def examplePeer_def commandMsg_def)

text \<open>No wake-up is lost. In every interleaving with the handlers, while the applier
  sleeps on the condition variable there is neither an unapplied committed entry nor an
  unapplied snapshot.\<close>

lemma applier_no_lost_wakeup:
  assumes "applier_run pc rf out" and "applyWaiting rf"
  shows "CommitIndex rf \<le> LastApplied rf \<and> LastIncludedIndex rf \<le> LastApplied rf \<and>
     LastApplied rf = position out"
  using applier_run_inv [OF assms(1)] assms(2) by (auto simp: applier_inv_def nothingToApply_def)

text \<open>With the mutex free the applier makes progress and never panics. From the loop head
  of a live peer, if something is committed beyond what is applied and the log holds it,
  the next two steps deliver exactly the entries up to the commit index and record that.\<close>

lemma applier_delivers_committed:
  assumes "wf_raft rf" "\<not> killed rf" "LastIncludedIndex rf \<le> LastApplied rf"
    and "LastApplied rf < CommitIndex rf" "CommitIndex rf \<le> lastIndex rf"
  shows "\<exists>msgs rf'. Applier AHead rf = Some (AEntries (CommitIndex rf), rf, msgs) \<and>
     Applier (AEntries (CommitIndex rf)) rf = Some (AHead, rf', []) \<and>
     LastApplied rf' = CommitIndex rf \<and>
     map CommandIndex msgs = [LastApplied rf + 1..CommitIndex rf] \<and>
     (\<forall>m \<in> set msgs. \<exists>e \<in> set (Log rf). m = commandMsg e)"
  using assms(1)
proof (cases rule: applierBody_cases)
  case (entries es)
  have "[a..a + int (length xs) - 1] = map leIndex xs" if "consecutive a xs" for a and xs :: "'a LogEntry list"
    using that
  proof (induction xs arbitrary: a)
    case (Cons x xs)
    then show ?case using Cons.IH [of "a + 1"] by (simp add: upto_rec1 algebra_simps)
  qed simp
  from this [OF entries(5)] have "map leIndex es = [LastApplied rf + 1..CommitIndex rf]"
    using entries(6) by (simp add: algebra_simps)
  then have "map CommandIndex (map commandMsg es) = [LastApplied rf + 1..CommitIndex rf]"
    by (simp add: comp_def commandMsg_def zeroApplyMsg_def)
  then show ?thesis using entries assms by auto
qed (use assms in \<open>auto simp: nothingToApply_def\<close>)

text \<open>\<^verbatim>\<open>Kill\<close> wakes a sleeping applier, but the waiting loop does not test
  \<^verbatim>\<open>killed()\<close>: with nothing to apply the goroutine goes back to sleep and never closes
  the channel, so a reader ranging over it never ends.\<close>

lemma killed_applier_sleeps_again:
  assumes "nothingToApply rf"
  shows "Applier AWait (Kill rf) = Some (AWait, (Kill rf)\<lparr>applyWaiting := True\<rparr>, [])"
  using assms by (simp add: Kill_def applierBody_def nothingToApply_def)

end
