(* ===== verification/Raft_Cluster.thy ===== *)
theory Raft_Cluster
  imports Raft_Apply
begin

text \<open>
  A cluster of Raft peers (\<^verbatim>\<open>src/raft1/raft.go\<close>) on an unreliable network. The state is
  the peers together with every RPC ever issued; a run is a list of events, each of which is
  one critical section of one peer: starting an election, running a handler for a call that
  the network delivers, handling a reply, preparing a call, a client or service call, or a
  crash followed by a restart from stable storage. The network may delay, reorder, duplicate
  and lose requests, and delay and lose replies: the list of events decides.

  \<^item> A goroutine that waits for a reply belongs to one incarnation of its peer: \<open>epochs\<close>
    counts the restarts, and replies for an earlier incarnation reach nobody.
  \<^item> A peer whose mutex was left locked takes no further step; an event at it changes
    nothing.
  \<^item> \<open>None\<close> is a run in which a peer panicked.
\<close>

section \<open>The cluster\<close>

text \<open>A call waits for its delivery, has been performed by the receiver, or has been dealt
  with by the sender's goroutine, which either got the reply or saw a failed call.\<close>

datatype 'r call_state = Waiting | Replied 'r | Handled 'r bool

record Election =
  elCand :: nat
  elEpoch :: nat
  elArgs :: RequestVoteArgs
  elVotes :: int
  elCalls :: "nat \<Rightarrow> RequestVoteReply call_state"

record 'c AppendCall =
  acFrom :: nat
  acEpoch :: nat
  acTo :: nat
  acArgs :: "'c AppendEntriesArgs"
  acState :: "AppendEntriesReply call_state"

text \<open>\<open>scSent\<close>: the check at the start of \<^verbatim>\<open>sendSnapShot\<close> was passed.\<close>

record 's SnapCall =
  scFrom :: nat
  scEpoch :: nat
  scTo :: nat
  scArgs :: "'s InstallSnapshotArgs"
  scSent :: bool
  scState :: "InstallSnapshotReply call_state"

record ('c, 's) Cluster =
  size :: nat
  nodes :: "nat \<Rightarrow> ('c, 's) Raft"
  epochs :: "nat \<Rightarrow> nat"
  elections :: "Election list"
  appends :: "'c AppendCall list"
  snaps :: "'s SnapCall list"

definition setNode :: "nat \<Rightarrow> ('c, 's) Raft \<Rightarrow> ('c, 's) Cluster \<Rightarrow> ('c, 's) Cluster" where
  "setNode i rf s = s\<lparr>nodes := (nodes s)(i := rf)\<rparr>"

text \<open>A reply is kept for the waiting goroutine; the reply of a duplicate is dropped.\<close>

definition deliver :: "'r \<Rightarrow> 'r call_state \<Rightarrow> 'r call_state" where
  "deliver r c = (case c of Waiting \<Rightarrow> Replied r | _ \<Rightarrow> c)"

datatype ('c, 's) event =
    Elect nat clock
  | DeliverVote nat nat clock
  | HandleVote nat nat bool
  | SendTo nat nat
  | DeliverAppend nat clock
  | HandleAppend nat bool
  | FireSnap nat
  | DeliverSnap nat clock
  | HandleSnap nat bool
  | ClientStart nat 'c
  | ServiceSnapshot nat int "'s list"
  | Crash nat clock

definition stepElect :: "nat \<Rightarrow> clock \<Rightarrow> ('c, 's) Cluster \<Rightarrow> ('c, 's) Cluster option" where
  "stepElect i clk s = do {
     (rf, args, voteSum) \<leftarrow> AttemptElection clk (nodes s i);
     Some ((setNode i rf s)\<lparr>elections := elections s @
       [\<lparr>elCand = i, elEpoch = epochs s i, elArgs = args, elVotes = voteSum, elCalls = (\<lambda>_. Waiting)\<rparr>]\<rparr>)
   }"

definition stepDeliverVote :: "nat \<Rightarrow> nat \<Rightarrow> clock \<Rightarrow> ('c, 's) Cluster \<Rightarrow> ('c, 's) Cluster option" where
  "stepDeliverVote k j clk s =
     (let el = elections s ! k in do {
        (rf, reply) \<leftarrow> RequestVote clk (elArgs el) (nodes s j);
        Some ((setNode j rf s)\<lparr>elections := (elections s)[k :=
          el\<lparr>elCalls := (elCalls el)(j := deliver reply (elCalls el j))\<rparr>]\<rparr>)
      })"

definition stepHandleVote :: "nat \<Rightarrow> nat \<Rightarrow> bool \<Rightarrow> ('c, 's) Cluster \<Rightarrow> ('c, 's) Cluster option" where
  "stepHandleVote k j ok s =
     (let el = elections s ! k in
      case elCalls el j of
        Replied reply \<Rightarrow>
          let rep = (if ok then Some reply else None) in do {
            (rf, voteSum, lead) \<leftarrow> HandleVoteReply (elArgs el) rep (elVotes el) (nodes s (elCand el));
            Some ((setNode (elCand el) rf s)\<lparr>elections := (elections s)[k :=
              el\<lparr>elVotes := voteSum, elCalls := (elCalls el)(j := Handled reply ok)\<rparr>]\<rparr>)
          }
      | _ \<Rightarrow> Some s)"

definition stepSendTo :: "nat \<Rightarrow> nat \<Rightarrow> ('c, 's) Cluster \<Rightarrow> ('c, 's) Cluster option" where
  "stepSendTo i j s = do {
     out \<leftarrow> PrepareEntries j (nodes s i);
     Some (case out of
         SendNothing \<Rightarrow> s
       | SendEntries args \<Rightarrow>
           s\<lparr>appends := appends s @
             [\<lparr>acFrom = i, acEpoch = epochs s i, acTo = j, acArgs = args, acState = Waiting\<rparr>]\<rparr>
       | SendSnapshot args \<Rightarrow>
           s\<lparr>snaps := snaps s @
             [\<lparr>scFrom = i, scEpoch = epochs s i, scTo = j, scArgs = args, scSent = False, scState = Waiting\<rparr>]\<rparr>)
   }"

definition stepDeliverAppend :: "nat \<Rightarrow> clock \<Rightarrow> ('c, 's) Cluster \<Rightarrow> ('c, 's) Cluster option" where
  "stepDeliverAppend k clk s =
     (let c = appends s ! k in do {
        (rf, reply) \<leftarrow> AppendEntries clk (acArgs c) (nodes s (acTo c));
        Some ((setNode (acTo c) rf s)\<lparr>appends := (appends s)[k := c\<lparr>acState := deliver reply (acState c)\<rparr>]\<rparr>)
      })"

definition stepHandleAppend :: "nat \<Rightarrow> bool \<Rightarrow> ('c, 's) Cluster \<Rightarrow> ('c, 's) Cluster option" where
  "stepHandleAppend k ok s =
     (let c = appends s ! k in
      case acState c of
        Replied reply \<Rightarrow>
          let rep = (if ok then Some reply else None) in do {
            rf \<leftarrow> HandleAppendReply (acTo c) (acArgs c) rep (nodes s (acFrom c));
            Some ((setNode (acFrom c) rf s)\<lparr>appends := (appends s)[k := c\<lparr>acState := Handled reply ok\<rparr>]\<rparr>)
          }
      | _ \<Rightarrow> Some s)"

definition stepFireSnap :: "nat \<Rightarrow> ('c, 's) Cluster \<Rightarrow> ('c, 's) Cluster" where
  "stepFireSnap k s =
     (let c = snaps s ! k; (rf, sent) = sendSnapShot (nodes s (scFrom c))
      in (setNode (scFrom c) rf s)\<lparr>snaps := (snaps s)[k := c\<lparr>scSent := sent\<rparr>]\<rparr>)"

definition stepDeliverSnap :: "nat \<Rightarrow> clock \<Rightarrow> ('c, 's) Cluster \<Rightarrow> ('c, 's) Cluster" where
  "stepDeliverSnap k clk s =
     (let c = snaps s ! k; (rf, reply) = InstallSnapShot clk (scArgs c) (nodes s (scTo c))
      in (setNode (scTo c) rf s)\<lparr>snaps := (snaps s)[k := c\<lparr>scState := deliver reply (scState c)\<rparr>]\<rparr>)"

definition stepHandleSnap :: "nat \<Rightarrow> bool \<Rightarrow> ('c, 's) Cluster \<Rightarrow> ('c, 's) Cluster option" where
  "stepHandleSnap k ok s =
     (let c = snaps s ! k in
      case scState c of
        Replied reply \<Rightarrow>
          let rep = (if ok then Some reply else None) in do {
            rf \<leftarrow> HandleSnapReply (scTo c) (scArgs c) rep (nodes s (scFrom c));
            Some ((setNode (scFrom c) rf s)\<lparr>snaps := (snaps s)[k := c\<lparr>scState := Handled reply ok\<rparr>]\<rparr>)
          }
      | _ \<Rightarrow> Some s)"

definition stepCrash :: "nat \<Rightarrow> clock \<Rightarrow> ('c, 's) Cluster \<Rightarrow> ('c, 's) Cluster option" where
  "stepCrash i clk s = do {
     rf \<leftarrow> Make (size s) i (Copy (persister (nodes s i))) clk;
     Some ((setNode i rf s)\<lparr>epochs := (epochs s)(i := epochs s i + 1)\<rparr>)
   }"

text \<open>The peer at which an event takes place, and the conditions under which the event is
  one of the system.\<close>

definition active :: "nat \<Rightarrow> ('c, 's) Cluster \<Rightarrow> bool" where
  "active i s \<longleftrightarrow> i < size s \<and> \<not> mu (nodes s i)"

definition step :: "('c, 's) event \<Rightarrow> ('c, 's) Cluster \<Rightarrow> ('c, 's) Cluster option" where
  "step ev s =
     (case ev of
        Elect i clk \<Rightarrow> if active i s then stepElect i clk s else Some s
      | DeliverVote k j clk \<Rightarrow>
          if k < length (elections s) \<and> j \<noteq> elCand (elections s ! k) \<and> active j s
          then stepDeliverVote k j clk s else Some s
      | HandleVote k j ok \<Rightarrow>
          if k < length (elections s) \<and> j < size s \<and> active (elCand (elections s ! k)) s \<and>
             elEpoch (elections s ! k) = epochs s (elCand (elections s ! k))
          then stepHandleVote k j ok s else Some s
      | SendTo i j \<Rightarrow> if active i s \<and> j < size s \<and> j \<noteq> i then stepSendTo i j s else Some s
      | DeliverAppend k clk \<Rightarrow>
          if k < length (appends s) \<and> active (acTo (appends s ! k)) s then stepDeliverAppend k clk s else Some s
      | HandleAppend k ok \<Rightarrow>
          if k < length (appends s) \<and> active (acFrom (appends s ! k)) s \<and>
             acEpoch (appends s ! k) = epochs s (acFrom (appends s ! k))
          then stepHandleAppend k ok s else Some s
      | FireSnap k \<Rightarrow>
          if k < length (snaps s) \<and> active (scFrom (snaps s ! k)) s \<and> \<not> scSent (snaps s ! k) \<and>
             scEpoch (snaps s ! k) = epochs s (scFrom (snaps s ! k))
          then Some (stepFireSnap k s) else Some s
      | DeliverSnap k clk \<Rightarrow>
          if k < length (snaps s) \<and> scSent (snaps s ! k) \<and> active (scTo (snaps s ! k)) s
          then Some (stepDeliverSnap k clk s) else Some s
      | HandleSnap k ok \<Rightarrow>
          if k < length (snaps s) \<and> active (scFrom (snaps s ! k)) s \<and>
             scEpoch (snaps s ! k) = epochs s (scFrom (snaps s ! k))
          then stepHandleSnap k ok s else Some s
      | ClientStart i c \<Rightarrow>
          if active i s then map_option (\<lambda>(rf, _). setNode i rf s) (Start c (nodes s i)) else Some s
      | ServiceSnapshot i ix d \<Rightarrow>
          if active i s then map_option (\<lambda>rf. setNode i rf s) (Snapshot ix d (nodes s i)) else Some s
      | Crash i clk \<Rightarrow> if i < size s then stepCrash i clk s else Some s)"

fun steps :: "('c, 's) event list \<Rightarrow> ('c, 's) Cluster \<Rightarrow> ('c, 's) Cluster option" where
  "steps [] s = Some s"
| "steps (ev # evs) s = do { s' \<leftarrow> step ev s; steps evs s' }"

text \<open>A fresh cluster: every peer made by \<^verbatim>\<open>Make\<close> on empty storage.\<close>

definition freshPeer :: "nat \<Rightarrow> nat \<Rightarrow> ('c, 's) Raft" where
  "freshPeer n i = the (Make n i MakePersister (0, 0))"

definition initCluster :: "nat \<Rightarrow> ('c, 's) Cluster" where
  "initCluster n =
     \<lparr>size = n, nodes = freshPeer n, epochs = (\<lambda>_. 0), elections = [], appends = [], snaps = []\<rparr>"

end
