(* ===== verification/Raft_Safety.thy ===== *)
theory Raft_Safety
  imports Raft_Cluster
begin

text \<open>
  Election safety of the cluster: at most one peer is ever leader of a term. The invariant
  ties every vote that a candidate has received to a promise of the voter that survives
  restarts; two majorities share a voter, and a voter promises a term to one candidate only.
\<close>

section \<open>Quorums\<close>

locale quorum_system =
  fixes Q :: "'a set \<Rightarrow> bool"
  assumes intersect: "Q A \<Longrightarrow> Q B \<Longrightarrow> A \<inter> B \<noteq> {}"
begin

lemma unique_winner:
  assumes "Q A" "Q B" "\<And>x. x \<in> A \<Longrightarrow> vote x c" "\<And>x. x \<in> B \<Longrightarrow> vote x d"
    and "\<And>x. x \<in> A \<Longrightarrow> vote x c \<Longrightarrow> vote x d \<Longrightarrow> c = d"
  shows "c = d"
  using intersect [OF assms(1,2)] assms(3-5) by blast

end

definition majority :: "nat \<Rightarrow> nat set \<Rightarrow> bool" where
  "majority n A \<longleftrightarrow> A \<subseteq> {..<n} \<and> n div 2 + 1 \<le> card A"

interpretation maj: quorum_system "majority n" for n
proof
  fix A B
  assume "majority n A" "majority n B"
  then have A: "A \<subseteq> {..<n}" "n < 2 * card A" and B: "B \<subseteq> {..<n}" "n < 2 * card B"
    by (auto simp: majority_def)
  then have fin: "finite A" "finite B" using finite_subset by blast+
  show "A \<inter> B \<noteq> {}"
  proof
    assume "A \<inter> B = {}"
    then have "card A + card B = card (A \<union> B)" using fin by (simp add: card_Un_disjoint)
    also have "\<dots> \<le> card {..<n}" using A B by (intro card_mono) auto
    finally show False using A B by simp
  qed
qed

lemma majority_mono: "majority n A \<Longrightarrow> A \<subseteq> B \<Longrightarrow> B \<subseteq> {..<n} \<Longrightarrow> majority n B"
  unfolding majority_def by (meson card_mono finite_lessThan finite_subset le_trans)

section \<open>The invariant\<close>

definition granted :: "RequestVoteReply call_state \<Rightarrow> bool" where
  "granted c = (case c of Waiting \<Rightarrow> False | Replied r \<Rightarrow> rvrVoteGrabted r
     | Handled r ok \<Rightarrow> rvrVoteGrabted r)"

lemma granted_simps [simp]:
  "\<not> granted Waiting" "granted (Replied r) = rvrVoteGrabted r" "granted (Handled r ok) = rvrVoteGrabted r"
  by (simp_all add: granted_def)

definition counted :: "Election \<Rightarrow> nat set" where
  "counted el = {j. \<exists>r. elCalls el j = Handled r True \<and> rvrVoteGrabted r}"

definition voters :: "Election \<Rightarrow> nat set" where
  "voters el = insert (elCand el) {j. granted (elCalls el j)}"

definition el_ok :: "('c, 's) Cluster \<Rightarrow> Election \<Rightarrow> bool" where
  "el_ok s el \<longleftrightarrow> elCand el < size s \<and> rvCandidateID (elArgs el) = elCand el \<and>
     \<not> granted (elCalls el (elCand el)) \<and> elVotes el \<le> 1 + int (card (counted el)) \<and>
     (\<forall>j \<in> voters el. j < size s \<and> promised (rvTerm (elArgs el)) (elCand el) (nodes s j))"

definition won :: "('c, 's) Cluster \<Rightarrow> int \<Rightarrow> nat \<Rightarrow> bool" where
  "won s t i \<longleftrightarrow> (\<exists>el \<in> set (elections s). elCand el = i \<and> rvTerm (elArgs el) = t \<and> majority (size s) (voters el))"

definition append_ok :: "('c, 's) Cluster \<Rightarrow> 'c AppendCall \<Rightarrow> bool" where
  "append_ok s c \<longleftrightarrow> acFrom c < size s \<and> acTo c < size s \<and> acTo c \<noteq> acFrom c \<and> valid_append (acArgs c) \<and>
     won s (aeTerm (acArgs c)) (acFrom c)"

definition snap_ok :: "('c, 's) Cluster \<Rightarrow> 's SnapCall \<Rightarrow> bool" where
  "snap_ok s c \<longleftrightarrow> scFrom c < size s \<and> scTo c < size s \<and> scTo c \<noteq> scFrom c \<and> valid_snapshot (scArgs c) \<and>
     won s (isTerm (scArgs c)) (scFrom c)"

text \<open>Nobody has voted for two candidates of one term.\<close>

definition single_vote :: "Election \<Rightarrow> Election \<Rightarrow> bool" where
  "single_vote a b \<longleftrightarrow> (rvTerm (elArgs a) = rvTerm (elArgs b) \<longrightarrow> voters a \<inter> voters b \<noteq> {} \<longrightarrow> elCand a = elCand b)"

definition cluster_ok :: "('c, 's) Cluster \<Rightarrow> bool" where
  "cluster_ok s \<longleftrightarrow> (\<forall>i < size s. node_ok (size s) i (nodes s i)) \<and>
     (\<forall>el \<in> set (elections s). el_ok s el) \<and>
     (\<forall>a \<in> set (elections s). \<forall>b \<in> set (elections s). single_vote a b) \<and>
     (\<forall>i < size s. State (nodes s i) = Leader \<longrightarrow> won s (CurrentTerm (nodes s i)) i) \<and>
     (\<forall>c \<in> set (appends s). append_ok s c) \<and> (\<forall>c \<in> set (snaps s). snap_ok s c)"

lemma cluster_okD:
  assumes "cluster_ok s"
  shows "i < size s \<Longrightarrow> node_ok (size s) i (nodes s i)" "el \<in> set (elections s) \<Longrightarrow> el_ok s el"
    "i < size s \<Longrightarrow> State (nodes s i) = Leader \<Longrightarrow> won s (CurrentTerm (nodes s i)) i"
    "c \<in> set (appends s) \<Longrightarrow> append_ok s c" "d \<in> set (snaps s) \<Longrightarrow> snap_ok s d"
    "a \<in> set (elections s) \<Longrightarrow> b \<in> set (elections s) \<Longrightarrow> single_vote a b"
  using assms by (auto simp: cluster_ok_def)

text \<open>A term is won by one candidate only, now and in the past, since elections are never
  forgotten.\<close>

lemma won_unique:
  assumes "cluster_ok s" "won s t i" "won s t j"
  shows "i = j"
proof -
  obtain a b where a: "a \<in> set (elections s)" "elCand a = i" "rvTerm (elArgs a) = t" "majority (size s) (voters a)"
    and b: "b \<in> set (elections s)" "elCand b = j" "rvTerm (elArgs b) = t" "majority (size s) (voters b)"
    using assms(2,3) by (auto simp: won_def)
  from maj.intersect [OF a(4) b(4)] cluster_okD(6) [OF assms(1) a(1) b(1)] a b show ?thesis
    by (simp add: single_vote_def)
qed

section \<open>Preservation\<close>

lemma setNode_simps [simp]:
  "size (setNode i rf s) = size s" "nodes (setNode i rf s) = (nodes s)(i := rf)"
  "epochs (setNode i rf s) = epochs s" "elections (setNode i rf s) = elections s"
  "appends (setNode i rf s) = appends s" "snaps (setNode i rf s) = snaps s"
  "won (setNode i rf s) = won s"
  by (simp_all add: setNode_def won_def fun_eq_iff)

text \<open>One peer changes, keeps its promises, and is leader only of a term that it has won.\<close>

lemma setNode_ok:
  assumes ok: "cluster_ok s" and "node_ok (size s) i rf \<and> keeps_promises (nodes s i) rf"
    and "State rf = Leader \<Longrightarrow> won s (CurrentTerm rf) i"
  shows "cluster_ok (setNode i rf s)"
proof -
  have "el_ok (setNode i rf s) el" if "el \<in> set (elections s)" for el
    using cluster_okD(2) [OF ok that] assms(2) by (auto simp: el_ok_def keeps_promises_def)
  then show ?thesis
    using ok assms(2,3) by (auto simp: cluster_ok_def append_ok_def snap_ok_def)
qed

text \<open>An election is added or moves on.\<close>

definition el_extends :: "Election \<Rightarrow> Election \<Rightarrow> bool" where
  "el_extends el el' \<longleftrightarrow> elCand el' = elCand el \<and> elArgs el' = elArgs el \<and> voters el \<subseteq> voters el'"

lemma won_mono:
  assumes "won s t i" "size s' = size s"
    and "\<And>el. el \<in> set (elections s) \<Longrightarrow> \<exists>el' \<in> set (elections s'). el_extends el el' \<and> voters el' \<subseteq> {..<size s}"
  shows "won s' t i"
proof -
  obtain el where el: "el \<in> set (elections s)" "elCand el = i" "rvTerm (elArgs el) = t" "majority (size s) (voters el)"
    using assms(1) by (auto simp: won_def)
  then obtain el' where "el' \<in> set (elections s')" "el_extends el el'" "voters el' \<subseteq> {..<size s}"
    using assms(3) by blast
  with el majority_mono [OF el(4), of "voters el'"] assms(2) show ?thesis
    by (auto simp: won_def el_extends_def)
qed

lemma elections_ok:
  assumes ok: "cluster_ok s"
    and all: "\<And>el. el \<in> set els \<Longrightarrow> el_ok s el"
    and ext: "\<And>el. el \<in> set (elections s) \<Longrightarrow> \<exists>el' \<in> set els. el_extends el el'"
    and single: "\<And>a b. a \<in> set els \<Longrightarrow> b \<in> set els \<Longrightarrow> single_vote a b"
  shows "cluster_ok (s\<lparr>elections := els\<rparr>)"
proof -
  let ?s = "s\<lparr>elections := els\<rparr>"
  have v: "voters el \<subseteq> {..<size s}" if "el \<in> set els" for el
    using all [OF that] by (auto simp: el_ok_def)
  have won: "won ?s t i" if "won s t i" for t i
  proof (rule won_mono [OF that])
    fix el
    assume "el \<in> set (elections s)"
    from ext [OF this] v show "\<exists>el' \<in> set (elections ?s). el_extends el el' \<and> voters el' \<subseteq> {..<size s}" by auto
  qed simp
  have "el_ok ?s el" if "el \<in> set els" for el using all [OF that] by (simp add: el_ok_def)
  then show ?thesis
    using ok won single by (auto simp: cluster_ok_def append_ok_def snap_ok_def)
qed

lemma el_extends_refl [simp]: "el_extends el el"
  by (simp add: el_extends_def)

lemma single_vote_refl: "single_vote a a"
  by (simp add: single_vote_def)

lemma single_vote_sym: "single_vote a b \<Longrightarrow> single_vote b a"
  by (auto simp: single_vote_def Int_commute)

text \<open>A new vote of \<open>j\<close> in the term it is in now cannot contradict an older one.\<close>

lemma single_vote_new:
  assumes ok: "cluster_ok s" and a: "a \<in> set (elections s)"
    and old: "\<And>x. x \<in> voters a \<Longrightarrow> x \<in> voters b \<Longrightarrow> x \<noteq> j \<Longrightarrow> rvTerm (elArgs a) = rvTerm (elArgs b) \<Longrightarrow>
      elCand a = elCand b"
    and j: "CurrentTerm (nodes s j) = rvTerm (elArgs b)" "VotedFor (nodes s j) = int (elCand b)"
  shows "single_vote a b"
  unfolding single_vote_def
proof (intro impI)
  assume t: "rvTerm (elArgs a) = rvTerm (elArgs b)" and "voters a \<inter> voters b \<noteq> {}"
  then obtain x where x: "x \<in> voters a" "x \<in> voters b" by auto
  show "elCand a = elCand b"
  proof (cases "x = j")
    case True
    then have "promised (rvTerm (elArgs b)) (elCand a) (nodes s j)"
      using cluster_okD(2) [OF ok a] x t by (auto simp: el_ok_def)
    then show ?thesis using j promised_current(2) by fastforce
  qed (use old x t in auto)
qed

lemma new_election_ok:
  assumes "cluster_ok s" "el_ok s el" "\<And>a. a \<in> set (elections s) \<Longrightarrow> single_vote a el"
  shows "cluster_ok (s\<lparr>elections := elections s @ [el]\<rparr>)"
proof (rule elections_ok [OF assms(1)])
  show "el_ok s a" if "a \<in> set (elections s @ [el])" for a
    using that assms(2) cluster_okD(2) [OF assms(1)] by auto
  show "\<exists>el' \<in> set (elections s @ [el]). el_extends a el'" if "a \<in> set (elections s)" for a
    using that by (intro bexI [of _ a]) auto
  show "single_vote a b" if "a \<in> set (elections s @ [el])" "b \<in> set (elections s @ [el])" for a b
    using that assms(3) cluster_okD(6) [OF assms(1), of a b] single_vote_sym [of b el] single_vote_refl [of el]
    by auto
qed

lemma extends_update:
  assumes k: "k < length els" and el: "el_extends (els ! k) el" and a: "a \<in> set els"
  shows "\<exists>el' \<in> set (els[k := el]). el_extends a el'"
proof -
  obtain m where m: "m < length els" "a = els ! m" using a by (auto simp: in_set_conv_nth)
  then have "els[k := el] ! m \<in> set (els[k := el])" by (intro nth_mem) simp
  moreover have "el_extends a (els[k := el] ! m)" using m el k by (auto simp: nth_list_update)
  ultimately show ?thesis ..
qed

lemma next_election_ok:
  assumes ok: "cluster_ok s" and k: "k < length (elections s)" and el: "el_ok s el" "el_extends (elections s ! k) el"
    and single: "\<And>a. a \<in> set (elections s) \<Longrightarrow> single_vote a el"
  shows "cluster_ok (s\<lparr>elections := (elections s)[k := el]\<rparr>)"
proof (rule elections_ok [OF ok])
  note sub = set_update_subset_insert [of "elections s" k el]
  show "el_ok s a" if "a \<in> set ((elections s)[k := el])" for a
    using that sub el(1) cluster_okD(2) [OF ok] by blast
  show "single_vote a b" if "a \<in> set ((elections s)[k := el])" "b \<in> set ((elections s)[k := el])" for a b
    using subsetD [OF sub that(1)] subsetD [OF sub that(2)] single [of a] single_vote_sym [OF single [of b]]
      cluster_okD(6) [OF ok, of a b] single_vote_refl [of el] by auto
  show "\<exists>el' \<in> set ((elections s)[k := el]). el_extends a el'" if "a \<in> set (elections s)" for a
    using extends_update [OF k el(2) that] .
qed

text \<open>Calls of the other kinds come and move on.\<close>

lemma appends_ok:
  assumes "cluster_ok s" "\<And>c. c \<in> set cs \<Longrightarrow> append_ok s c"
  shows "cluster_ok (s\<lparr>appends := cs\<rparr>)"
  using assms by (auto simp: cluster_ok_def append_ok_def snap_ok_def el_ok_def won_def)

lemma snaps_ok:
  assumes "cluster_ok s" "\<And>c. c \<in> set cs \<Longrightarrow> snap_ok s c"
  shows "cluster_ok (s\<lparr>snaps := cs\<rparr>)"
  using assms by (auto simp: cluster_ok_def append_ok_def snap_ok_def el_ok_def won_def)

lemma epochs_ok: "cluster_ok s \<Longrightarrow> cluster_ok (s\<lparr>epochs := e\<rparr>)"
  by (auto simp: cluster_ok_def append_ok_def snap_ok_def el_ok_def won_def)

lemma append_state_ok:
  assumes "cluster_ok s" "k < length (appends s)"
  shows "cluster_ok (s\<lparr>appends := (appends s)[k := (appends s ! k)\<lparr>acState := st\<rparr>]\<rparr>)"
proof (rule appends_ok [OF assms(1)])
  fix c
  assume "c \<in> set ((appends s)[k := (appends s ! k)\<lparr>acState := st\<rparr>])"
  then have "c \<in> set (appends s) \<or> c = (appends s ! k)\<lparr>acState := st\<rparr>"
    using set_update_subset_insert by fastforce
  then show "append_ok s c"
    using cluster_okD(4) [OF assms(1)] nth_mem [OF assms(2)] by (auto simp: append_ok_def)
qed

lemma snap_state_ok:
  assumes "cluster_ok s" "k < length (snaps s)" "scFrom d = scFrom (snaps s ! k)" "scTo d = scTo (snaps s ! k)"
    "scArgs d = scArgs (snaps s ! k)"
  shows "cluster_ok (s\<lparr>snaps := (snaps s)[k := d]\<rparr>)"
proof (rule snaps_ok [OF assms(1)])
  fix c
  assume "c \<in> set ((snaps s)[k := d])"
  then have "c \<in> set (snaps s) \<or> c = d"
    using set_update_subset_insert by fastforce
  then show "snap_ok s c"
    using cluster_okD(5) [OF assms(1), of c] cluster_okD(5) [OF assms(1) nth_mem [OF assms(2)]] assms(3-5)
    by (auto simp: snap_ok_def)
qed

section \<open>Every step keeps the invariant\<close>

lemma update_commute [simp]:
  "(setNode i rf s)\<lparr>elections := els\<rparr> = setNode i rf (s\<lparr>elections := els\<rparr>)"
  "(setNode i rf s)\<lparr>appends := cs\<rparr> = setNode i rf (s\<lparr>appends := cs\<rparr>)"
  "(setNode i rf s)\<lparr>snaps := ds\<rparr> = setNode i rf (s\<lparr>snaps := ds\<rparr>)"
  "(setNode i rf s)\<lparr>epochs := e\<rparr> = setNode i rf (s\<lparr>epochs := e\<rparr>)"
  by (simp_all add: setNode_def)

text \<open>An operation that makes its peer neither candidate nor leader.\<close>

definition quiet :: "('c, 's) Raft \<Rightarrow> ('c, 's) Raft \<Rightarrow> bool" where
  "quiet rf rf' \<longleftrightarrow> (State rf' \<noteq> Follower \<longrightarrow> State rf' = State rf \<and> CurrentTerm rf' = CurrentTerm rf)"

lemma quiet_ok:
  assumes "cluster_ok s" "i < size s" "node_ok (size s) i rf \<and> keeps_promises (nodes s i) rf" "quiet (nodes s i) rf"
  shows "cluster_ok (setNode i rf s)"
  using assms cluster_okD(3) [OF assms(1,2)] by (intro setNode_ok) (auto simp: quiet_def)

lemma stepElect_ok:
  assumes ok: "cluster_ok s" and i: "i < size s" and st: "stepElect i clk s = Some s'"
  shows "cluster_ok s'"
proof -
  obtain rf args v where a: "AttemptElection clk (nodes s i) = Some (rf, args, v)"
    and s': "s' = (setNode i rf s)\<lparr>elections := elections s @
       [\<lparr>elCand = i, elEpoch = epochs s i, elArgs = args, elVotes = v, elCalls = (\<lambda>_. Waiting)\<rparr>]\<rparr>"
      (is "s' = _\<lparr>elections := _ @ [?el]\<rparr>")
    using st by (auto simp: stepElect_def bind_Some_iff)
  note A = AttemptElection_Some [OF a]
  from cluster_okD(1) [OF ok i] have me: "me (nodes s i) = i" by (simp add: node_ok_def)
  let ?s = "setNode i rf s"
  have ok1: "cluster_ok ?s"
    using setNode_ok [OF ok elect.op_node_ok [OF cluster_okD(1) [OF ok i] _ a]] A(2) by simp
  have rf: "CurrentTerm rf = rvTerm args" "VotedFor rf = int i" "savedState rf = EncodeRaftState rf"
    using A me by (simp_all add: EncodeRaftState_def)
  have vot: "voters ?el = {i}" by (simp add: voters_def granted_def)
  have "promised (rvTerm args) i rf" using rf by (simp add: promised_def binds_def EncodeRaftState_def)
  then have "el_ok ?s ?el"
    using A(3,4) me i unfolding el_ok_def vot by (simp add: granted_def)
  moreover have "single_vote b ?el" if "b \<in> set (elections ?s)" for b
    using that rf vot by (intro single_vote_new [OF ok1, where j = i]) auto
  ultimately have "cluster_ok (?s\<lparr>elections := elections ?s @ [?el]\<rparr>)"
    by (rule new_election_ok [OF ok1])
  then show ?thesis by (simp add: s')
qed

lemma RequestVote_quiet: "RequestVote clk args rf = Some (rf', r) \<Longrightarrow> quiet rf rf'"
  by (erule RequestVote_cases) (auto simp: quiet_def split: if_splits)

lemma RequestVote_promises:
  assumes "RequestVote clk args rf = Some (rf', r)" "rvrVoteGrabted r"
  shows "CurrentTerm rf' = rvTerm args" "VotedFor rf' = int (rvCandidateID args)"
    "promised (rvTerm args) (rvCandidateID args) rf'"
  using assms by (auto elim!: RequestVote_cases simp: promised_def binds_def EncodeRaftState_def)

lemma granted_deliver [simp]: "granted (deliver r c) = (if c = Waiting then rvrVoteGrabted r else granted c)"
  by (cases c) (simp_all add: granted_def deliver_def)

lemma stepDeliverVote_ok:
  assumes ok: "cluster_ok s" and k: "k < length (elections s)" and j: "j \<noteq> elCand (elections s ! k)" "j < size s"
    and st: "stepDeliverVote k j clk s = Some s'"
  shows "cluster_ok s'"
proof -
  let ?el = "elections s ! k"
  obtain rf r where v: "RequestVote clk (elArgs ?el) (nodes s j) = Some (rf, r)"
    and s': "s' = (setNode j rf s)\<lparr>elections := (elections s)[k :=
          ?el\<lparr>elCalls := (elCalls ?el)(j := deliver r (elCalls ?el j))\<rparr>]\<rparr>" (is "_ = _\<lparr>elections := _[k := ?el']\<rparr>")
    using st by (auto simp: stepDeliverVote_def bind_Some_iff Let_def)
  let ?s = "setNode j rf s"
  have ok1: "cluster_ok ?s"
    using rv.op_node_ok [OF cluster_okD(1) [OF ok j(2)], of "(clk, elArgs ?el)" rf r] v RequestVote_quiet [OF v]
    by (intro quiet_ok [OF ok j(2)]) simp_all
  have el: "el_ok s ?el" "el_ok ?s ?el" using cluster_okD(2) [OF ok] cluster_okD(2) [OF ok1] k by simp_all
  let ?new = "elCalls ?el j = Waiting \<and> rvrVoteGrabted r"
  have vot: "voters ?el' = (if ?new then insert j (voters ?el) else voters ?el)"
    by (auto simp: voters_def split: if_splits)
  have cnt: "counted ?el' = counted ?el"
    by (auto simp: counted_def deliver_def split: call_state.splits if_splits)
  have "el_ok ?s ?el'"
    using el(2) RequestVote_promises(3) [OF v] j
    by (auto simp: el_ok_def vot cnt split: if_splits)
  moreover have "el_extends ?el ?el'" by (auto simp: el_extends_def vot)
  moreover have "single_vote b ?el'" if b: "b \<in> set (elections ?s)" for b
  proof (cases ?new)
    case True
    then show ?thesis
      using b RequestVote_promises(1,2) [OF v] el(1) cluster_okD(6) [OF ok, of b ?el] k
        arg_cong [OF vot, of "\<lambda>V. _ \<in> V"]
      by (intro single_vote_new [OF ok1, where j = j]) (auto simp: el_ok_def single_vote_def)
  next
    case False
    then show ?thesis using b cluster_okD(6) [OF ok, of b ?el] k by (auto simp: single_vote_def vot)
  qed
  ultimately have "cluster_ok (?s\<lparr>elections := (elections ?s)[k := ?el']\<rparr>)"
    using k by (intro next_election_ok [OF ok1]) auto
  then show ?thesis by (simp add: s')
qed

lemma HandleVoteReply_votes:
  assumes "HandleVoteReply args rep vs rf = Some (rf', vs', b)"
  shows "vs' \<le> vs + (case rep of Some r \<Rightarrow> if rvrVoteGrabted r then 1 else 0 | None \<Rightarrow> 0)"
    and "\<not> b \<Longrightarrow> quiet rf rf'"
    and "b \<Longrightarrow> \<exists>r. rep = Some r \<and> rvrVoteGrabted r \<and> CurrentTerm rf' = rvTerm args \<and> Majority rf \<le> vs'"
  using assms by (auto elim!: HandleVoteReply_cases BecomeLeader_Some simp: quiet_def split: option.split)

lemma stepHandleVote_ok:
  assumes ok: "cluster_ok s" and k: "k < length (elections s)"
    and st: "stepHandleVote k j okay s = Some s'"
  shows "cluster_ok s'"
proof (cases "elCalls (elections s ! k) j")
  case (Replied r)
  let ?el = "elections s ! k" let ?i = "elCand ?el" let ?rep = "if okay then Some r else None"
  obtain rf v b where h: "HandleVoteReply (elArgs ?el) ?rep (elVotes ?el) (nodes s ?i) = Some (rf, v, b)"
    and s': "s' = (setNode ?i rf s)\<lparr>elections := (elections s)[k :=
        ?el\<lparr>elVotes := v, elCalls := (elCalls ?el)(j := Handled r okay)\<rparr>]\<rparr>" (is "_ = _\<lparr>elections := _[k := ?el']\<rparr>")
    using st Replied by (auto simp: stepHandleVote_def bind_Some_iff Let_def)
  note V = HandleVoteReply_votes [OF h]
  have el: "el_ok s ?el" using cluster_okD(2) [OF ok] k by simp
  then have i: "?i < size s" by (simp add: el_ok_def)
  have vot: "voters ?el' = voters ?el" by (auto simp: voters_def Replied split: if_splits)
  have cnt: "counted ?el' = (if okay \<and> rvrVoteGrabted r then insert j (counted ?el) else counted ?el)"
    "j \<notin> counted ?el" by (auto simp: counted_def Replied)
  have sub: "counted ?el \<subseteq> voters ?el" by (auto simp: counted_def voters_def)
  have fin: "finite (voters ?el)" "voters ?el \<subseteq> {..<size s}"
    using el finite_subset [of "voters ?el" "{..<size s}"] by (auto simp: el_ok_def)
  then have fc: "finite (counted ?el)" using sub finite_subset by blast
  have vc: "v \<le> 1 + int (card (counted ?el'))"
    using el V(1) cnt fc by (auto simp: el_ok_def split: if_splits)
  let ?s = "s\<lparr>elections := (elections s)[k := ?el']\<rparr>"
  have "el_ok s ?el'" using el vc Replied unfolding el_ok_def vot by auto
  moreover have "el_extends ?el ?el'" by (simp add: el_extends_def vot)
  moreover have "single_vote b ?el'" if "b \<in> set (elections s)" for b
    using that cluster_okD(6) [OF ok, of b ?el] k by (simp add: single_vote_def vot)
  ultimately have ok1: "cluster_ok ?s" by (intro next_election_ok [OF ok k]) auto
  have keep: "node_ok (size ?s) ?i rf \<and> keeps_promises (nodes ?s ?i) rf"
    using vote_reply.op_node_ok [OF cluster_okD(1) [OF ok i], of "(elArgs ?el, ?rep, elVotes ?el)" rf "(v, b)"] h by simp
  have "cluster_ok (setNode ?i rf ?s)"
  proof (cases b)
    case False
    then show ?thesis using quiet_ok [OF ok1 _ keep] i V(2) by simp
  next
    case True
    then have lead: "okay" "rvrVoteGrabted r" "CurrentTerm rf = rvTerm (elArgs ?el)" "Majority (nodes s ?i) \<le> v"
      using V(3) by (auto split: if_splits)
    have m: "Majority (nodes s ?i) = int (size s) div 2 + 1"
      using cluster_okD(1) [OF ok i] by (auto simp: node_ok_def wf_raft_def)
    have "insert ?i (counted ?el') \<subseteq> voters ?el'" by (auto simp: counted_def voters_def)
    moreover have "?i \<notin> counted ?el'" using el Replied lead by (auto simp: el_ok_def counted_def split: if_splits)
    ultimately have "Suc (card (counted ?el')) \<le> card (voters ?el)"
      using card_mono [OF fin(1), of "insert ?i (counted ?el')"] fc cnt vot by (simp split: if_splits)
    with vc lead(4) m have "majority (size s) (voters ?el')" using fin(2) vot by (simp add: majority_def)
    then have "won ?s (CurrentTerm rf) ?i"
      using lead(3) k unfolding won_def by (intro bexI [of _ ?el']) (auto simp: set_update_memI)
    then show ?thesis using setNode_ok [OF ok1 keep] by simp
  qed
  then show ?thesis by (simp add: s')
qed (use ok st in \<open>auto simp: stepHandleVote_def\<close>)

lemma stepSendTo_ok:
  assumes ok: "cluster_ok s" and ij: "i < size s" "j < size s" "j \<noteq> i" and st: "stepSendTo i j s = Some s'"
  shows "cluster_ok s'"
proof -
  obtain out where p: "PrepareEntries j (nodes s i) = Some out" and
    s': "s' = (case out of SendNothing \<Rightarrow> s
       | SendEntries args \<Rightarrow> s\<lparr>appends := appends s @
             [\<lparr>acFrom = i, acEpoch = epochs s i, acTo = j, acArgs = args, acState = Waiting\<rparr>]\<rparr>
       | SendSnapshot args \<Rightarrow> s\<lparr>snaps := snaps s @
             [\<lparr>scFrom = i, scEpoch = epochs s i, scTo = j, scArgs = args, scSent = False, scState = Waiting\<rparr>]\<rparr>)"
    using st by (auto simp: stepSendTo_def bind_Some_iff)
  have wf: "wf_raft (nodes s i)" using cluster_okD(1) [OF ok ij(1)] by (simp add: node_ok_def)
  from wf p show ?thesis
  proof (cases rule: PrepareEntries_cases)
    case nothing
    then show ?thesis using ok s' by simp
  next
    case (snapshot args)
    moreover have "valid_snapshot args" using snapshot wf_raftD(2) [OF wf] by (simp add: valid_snapshot_def)
    ultimately show ?thesis
      using s' ij cluster_okD(3) [OF ok ij(1)] cluster_okD(5) [OF ok]
      by (auto intro!: snaps_ok [OF ok] simp: snap_ok_def)
  next
    case (entries args k)
    then show ?thesis
      using s' ij cluster_okD(3) [OF ok ij(1)] cluster_okD(4) [OF ok]
      by (auto intro!: appends_ok [OF ok] simp: append_ok_def)
  qed
qed

lemma AppendEntries_quiet:
  assumes "wf_raft rf" "valid_append args" "AppendEntries clk args rf = Some (rf', r)"
  shows "quiet rf rf'"
  using assms(1,2)
  by (cases rule: AppendEntries_cases [of rf args clk]) (use assms(3) in \<open>auto simp: quiet_def\<close>)

lemma updateCommitIndex_quiet:
  assumes "wf_raft rf" "updateCommitIndex (learnMatch i m rf) = Some rf'"
  shows "quiet rf rf'"
proof -
  have "wf_raft (learnMatch i m rf)" using assms(1) by simp
  from this assms(2) show ?thesis by (cases rule: updateCommitIndex_frame) (auto simp: quiet_def)
qed

lemma HandleAppendReply_quiet:
  assumes "wf_raft rf" "i < peers rf" "HandleAppendReply i args rep rf = Some rf'"
  shows "quiet rf rf'"
  using assms
  by (cases rule: HandleAppendReply_cases)
    (use assms(1) updateCommitIndex_quiet in \<open>auto simp: quiet_def\<close>)

lemma HandleSnapReply_quiet:
  assumes "wf_raft rf" "i < peers rf" "HandleSnapReply i args rep rf = Some rf'"
  shows "quiet rf rf'"
  using assms
  by (cases rule: HandleSnapReply_cases)
    (use assms(1) updateCommitIndex_quiet in \<open>auto simp: quiet_def\<close>)

lemma stepDeliverAppend_ok:
  assumes ok: "cluster_ok s" and k: "k < length (appends s)" and st: "stepDeliverAppend k clk s = Some s'"
  shows "cluster_ok s'"
proof -
  let ?c = "appends s ! k" let ?j = "acTo ?c"
  obtain rf r where a: "AppendEntries clk (acArgs ?c) (nodes s ?j) = Some (rf, r)"
    and s': "s' = (setNode ?j rf s)\<lparr>appends := (appends s)[k := ?c\<lparr>acState := deliver r (acState ?c)\<rparr>]\<rparr>"
    using st by (auto simp: stepDeliverAppend_def bind_Some_iff Let_def)
  from cluster_okD(4) [OF ok, of ?c] k have j: "?j < size s" and v: "valid_append (acArgs ?c)"
    by (auto simp: append_ok_def)
  note n = cluster_okD(1) [OF ok j]
  then have wf: "wf_raft (nodes s ?j)" by (simp add: node_ok_def)
  have "cluster_ok (setNode ?j rf s)"
    using append.op_node_ok [OF n, of "(clk, acArgs ?c)" rf r] a v AppendEntries_quiet [OF wf v a]
    by (intro quiet_ok [OF ok j]) simp_all
  from append_state_ok [OF this, of k] k show ?thesis by (simp add: s')
qed

lemma stepHandleAppend_ok:
  assumes ok: "cluster_ok s" and k: "k < length (appends s)" and st: "stepHandleAppend k okay s = Some s'"
  shows "cluster_ok s'"
proof (cases "acState (appends s ! k)")
  case (Replied r)
  let ?c = "appends s ! k" let ?i = "acFrom ?c" let ?rep = "if okay then Some r else None"
  obtain rf where h: "HandleAppendReply (acTo ?c) (acArgs ?c) ?rep (nodes s ?i) = Some rf"
    and s': "s' = (setNode ?i rf s)\<lparr>appends := (appends s)[k := ?c\<lparr>acState := Handled r okay\<rparr>]\<rparr>"
    using st Replied by (auto simp: stepHandleAppend_def bind_Some_iff Let_def)
  from cluster_okD(4) [OF ok, of ?c] k have i: "?i < size s" and j: "acTo ?c < size s" by (auto simp: append_ok_def)
  note n = cluster_okD(1) [OF ok i]
  then have wf: "wf_raft (nodes s ?i)" "durable (nodes s ?i)" "acTo ?c < peers (nodes s ?i)"
    using j by (simp_all add: node_ok_def)
  note keep = HandleAppendReply_keeps [OF wf(1,3) h]
  have "cluster_ok (setNode ?i rf s)"
    using node_keep [OF n keep(1) keep(2) [OF wf(2)] keep(3,4)] HandleAppendReply_quiet [OF wf(1,3) h]
    by (rule quiet_ok [OF ok i])
  from append_state_ok [OF this, of k] k show ?thesis by (simp add: s')
qed (use ok st in \<open>auto simp: stepHandleAppend_def\<close>)

lemma stepFireSnap_ok:
  assumes ok: "cluster_ok s" and k: "k < length (snaps s)"
  shows "cluster_ok (stepFireSnap k s)"
proof -
  let ?c = "snaps s ! k" let ?i = "scFrom ?c"
  obtain rf sent where f: "sendSnapShot (nodes s ?i) = (rf, sent)" by fastforce
  from cluster_okD(5) [OF ok, of ?c] k have i: "?i < size s" by (auto simp: snap_ok_def)
  note n = cluster_okD(1) [OF ok i]
  have "rf = nodes s ?i \<or> rf = (nodes s ?i)\<lparr>mu := True\<rparr>" using f by (auto simp: sendSnapShot_def split: if_splits)
  then have "node_ok (size s) ?i rf \<and> keeps_promises (nodes s ?i) rf" "quiet (nodes s ?i) rf"
    using n by (auto simp: node_ok_def keeps_promises_def promised_def savedState_def quiet_def)
  then have "cluster_ok (setNode ?i rf s)" by (rule quiet_ok [OF ok i])
  from snap_state_ok [OF this, of k "?c\<lparr>scSent := sent\<rparr>"] k show ?thesis by (simp add: stepFireSnap_def f Let_def)
qed

lemma InstallSnapShot_quiet: "InstallSnapShot clk args rf = (rf', r) \<Longrightarrow> quiet rf rf'"
  by (erule InstallSnapShot_cases) (auto simp: quiet_def)

lemma stepDeliverSnap_ok:
  assumes ok: "cluster_ok s" and k: "k < length (snaps s)"
  shows "cluster_ok (stepDeliverSnap k clk s)"
proof -
  let ?c = "snaps s ! k" let ?j = "scTo ?c"
  obtain rf r where f: "InstallSnapShot clk (scArgs ?c) (nodes s ?j) = (rf, r)" by fastforce
  from cluster_okD(5) [OF ok, of ?c] k have j: "?j < size s" and v: "valid_snapshot (scArgs ?c)"
    by (auto simp: snap_ok_def)
  have "cluster_ok (setNode ?j rf s)"
    using install.op_node_ok [OF cluster_okD(1) [OF ok j], of "(clk, scArgs ?c)" rf r] f v InstallSnapShot_quiet [OF f]
    by (intro quiet_ok [OF ok j]) simp_all
  from snap_state_ok [OF this, of k "?c\<lparr>scState := deliver r (scState ?c)\<rparr>"] k show ?thesis
    by (simp add: stepDeliverSnap_def f Let_def)
qed

lemma stepHandleSnap_ok:
  assumes ok: "cluster_ok s" and k: "k < length (snaps s)" and st: "stepHandleSnap k okay s = Some s'"
  shows "cluster_ok s'"
proof (cases "scState (snaps s ! k)")
  case (Replied r)
  let ?c = "snaps s ! k" let ?i = "scFrom ?c" let ?rep = "if okay then Some r else None"
  obtain rf where h: "HandleSnapReply (scTo ?c) (scArgs ?c) ?rep (nodes s ?i) = Some rf"
    and s': "s' = (setNode ?i rf s)\<lparr>snaps := (snaps s)[k := ?c\<lparr>scState := Handled r okay\<rparr>]\<rparr>"
    using st Replied by (auto simp: stepHandleSnap_def bind_Some_iff Let_def)
  from cluster_okD(5) [OF ok, of ?c] k have i: "?i < size s" and j: "scTo ?c < size s" by (auto simp: snap_ok_def)
  note n = cluster_okD(1) [OF ok i]
  then have wf: "wf_raft (nodes s ?i)" "durable (nodes s ?i)" "scTo ?c < peers (nodes s ?i)"
    using j by (simp_all add: node_ok_def)
  note keep = HandleSnapReply_keeps [OF wf(1,3) h]
  have "cluster_ok (setNode ?i rf s)"
    using node_keep [OF n keep(1) keep(2) [OF wf(2)] keep(3,4)] HandleSnapReply_quiet [OF wf(1,3) h]
    by (rule quiet_ok [OF ok i])
  from snap_state_ok [OF this, of k "?c\<lparr>scState := Handled r okay\<rparr>"] k show ?thesis by (simp add: s')
qed (use ok st in \<open>auto simp: stepHandleSnap_def\<close>)

lemma stepCrash_ok:
  assumes ok: "cluster_ok s" and i: "i < size s" and st: "stepCrash i clk s = Some s'"
  shows "cluster_ok s'"
proof -
  obtain rf where r: "Make (size s) i (Copy (persister (nodes s i))) clk = Some rf"
      "node_ok (size s) i rf" "keeps_promises (nodes s i) rf" "State rf = Follower"
    by (rule restart_keeps [OF cluster_okD(1) [OF ok i]])
  then have "cluster_ok (setNode i rf s)" by (intro quiet_ok [OF ok i]) (simp_all add: quiet_def)
  with st r(1) show ?thesis using epochs_ok by (auto simp: stepCrash_def simp del: update_commute)
qed

lemma Start_quiet: "Start c rf = Some (rf', r) \<Longrightarrow> quiet rf rf'"
  by (auto simp: Start_def quiet_def bind_Some_iff split: if_splits)

lemma Snapshot_quiet: "Snapshot ix d rf = Some rf' \<Longrightarrow> quiet rf rf'"
  by (auto simp: Snapshot_eq quiet_def Let_def split: if_splits)

lemma step_ok:
  assumes ok: "cluster_ok s" and st: "step ev s = Some s'"
  shows "cluster_ok s'"
proof (cases ev)
  case (ClientStart i c)
  show ?thesis
  proof (cases "active i s")
    case True
    then have i: "i < size s" by (simp add: active_def)
    obtain rf r where a: "Start c (nodes s i) = Some (rf, r)" "s' = setNode i rf s"
      using st ClientStart True by (auto simp: step_def)
    then show ?thesis
      using start.op_node_ok [OF cluster_okD(1) [OF ok i] _ a(1)] Start_quiet [OF a(1)] quiet_ok [OF ok i] by simp
  qed (use st ClientStart ok in \<open>simp add: step_def\<close>)
next
  case (ServiceSnapshot i ix d)
  show ?thesis
  proof (cases "active i s")
    case True
    then have i: "i < size s" by (simp add: active_def)
    obtain rf where a: "Snapshot ix d (nodes s i) = Some rf" "s' = setNode i rf s"
      using st ServiceSnapshot True by (auto simp: step_def)
    then show ?thesis
      using snap.op_node_ok [OF cluster_okD(1) [OF ok i], of "(ix, d)" rf "()"] Snapshot_quiet [OF a(1)]
        quiet_ok [OF ok i] by simp
  qed (use st ServiceSnapshot ok in \<open>simp add: step_def\<close>)
qed (use st ok in \<open>auto simp: step_def active_def split: if_splits
      intro: stepElect_ok stepDeliverVote_ok stepHandleVote_ok stepSendTo_ok stepDeliverAppend_ok stepHandleAppend_ok
        stepFireSnap_ok stepDeliverSnap_ok stepHandleSnap_ok stepCrash_ok\<close>)

lemma steps_ok: "cluster_ok s \<Longrightarrow> steps evs s = Some s' \<Longrightarrow> cluster_ok s'"
proof (induction evs arbitrary: s)
  case (Cons ev evs)
  from Cons.prems(2) obtain s1 where "step ev s = Some s1" "steps evs s1 = Some s'"
    by (auto simp: bind_Some_iff)
  then show ?case using Cons.IH step_ok [OF Cons.prems(1)] by blast
qed simp

lemma Make_fresh:
  "Make n i MakePersister clk = Some (resetTimer clk \<lparr>mu = False, peers = n, persister = MakePersister, me = i, dead = False,
      CurrentTerm = 0, VotedFor = NotVoted, Log = [zeroEntry], State = Follower, Majority = int n div 2 + 1,
      CommitIndex = 0, LastApplied = 0, LastContect = 0, ElectionTimeout = 0, NextIndex = replicate n 0,
      MatchIndex = replicate n 0, applyWaiting = False, LastIncludedIndex = 0, LastIncludedTerm = 0\<rparr>)"
  by (simp add: Make_def readPersist_def ReadRaftState_def MakePersister_def Let_def)

lemma freshPeer_ok: "i < n \<Longrightarrow> node_ok n i (freshPeer n i)"
  unfolding freshPeer_def Make_fresh
  by (simp add: node_ok_def wf_raft_def wf_log_def durable_def savedState_def MakePersister_def)

lemma init_ok: "cluster_ok (initCluster n)"
  by (simp add: cluster_ok_def initCluster_def freshPeer_ok) (simp add: freshPeer_def Make_fresh)

section \<open>The history of elections\<close>

definition history_extends :: "('c, 's) Cluster \<Rightarrow> ('c, 's) Cluster \<Rightarrow> bool" where
  "history_extends s s' \<longleftrightarrow> size s' = size s \<and> (\<forall>el \<in> set (elections s). \<exists>el' \<in> set (elections s'). el_extends el el')"

lemma history_refl: "size s' = size s \<Longrightarrow> elections s' = elections s \<Longrightarrow> history_extends s s'"
  by (auto simp: history_extends_def intro: el_extends_refl)

lemma history_trans: "history_extends a b \<Longrightarrow> history_extends b c \<Longrightarrow> history_extends a c"
  unfolding history_extends_def el_extends_def by (metis order.trans)

lemma deliver_extends:
  "el_extends el (el\<lparr>elCalls := (elCalls el)(j := deliver r (elCalls el j))\<rparr>)"
  "elCalls el j = Replied r \<Longrightarrow> el_extends el (el\<lparr>elVotes := v, elCalls := (elCalls el)(j := Handled r ok)\<rparr>)"
  by (auto simp: el_extends_def voters_def)

lemma step_history:
  assumes "step ev s = Some s'"
  shows "history_extends s s'"
proof (cases ev)
  case (Elect i clk)
  then show ?thesis
    using assms by (auto simp: step_def stepElect_def bind_Some_iff history_extends_def split: if_splits
        intro: el_extends_refl)
next
  case (DeliverVote k j clk)
  then show ?thesis
    using assms by (auto simp: step_def stepDeliverVote_def bind_Some_iff history_extends_def Let_def split: if_splits
        intro: el_extends_refl intro!: extends_update [OF _ deliver_extends(1)])
next
  case (HandleVote k j ok)
  then show ?thesis
    using assms by (auto simp: step_def stepHandleVote_def bind_Some_iff history_extends_def Let_def
        split: if_splits call_state.splits intro: el_extends_refl intro!: extends_update [OF _ deliver_extends(2)])
next
  case (SendTo i j)
  show ?thesis
  proof (cases "active i s \<and> j < size s \<and> j \<noteq> i")
    case True
    then obtain out where "PrepareEntries j (nodes s i) = Some out"
      using assms SendTo by (auto simp: step_def stepSendTo_def bind_Some_iff)
    then show ?thesis
      using assms SendTo True by (cases out) (auto intro!: history_refl simp: step_def stepSendTo_def)
  qed (use assms SendTo in \<open>auto simp: step_def intro: history_refl\<close>)
qed (use assms in \<open>auto intro!: history_refl simp: step_def stepDeliverAppend_def stepHandleAppend_def
      stepFireSnap_def stepDeliverSnap_def stepHandleSnap_def stepCrash_def bind_Some_iff Let_def case_prod_beta
      split: if_splits call_state.splits\<close>)

lemma steps_history: "steps evs s = Some s' \<Longrightarrow> history_extends s s'"
proof (induction evs arbitrary: s)
  case (Cons ev evs)
  then show ?case by (auto simp: bind_Some_iff dest!: step_history intro: history_trans)
qed (auto intro: history_refl)

lemma won_history:
  assumes "won s t i" and h: "history_extends s s'" and ok: "cluster_ok s'"
  shows "won s' t i"
proof (rule won_mono [OF assms(1)])
  show size: "size s' = size s" using h by (simp add: history_extends_def)
  fix el
  assume "el \<in> set (elections s)"
  with h obtain el' where "el' \<in> set (elections s')" "el_extends el el'" by (auto simp: history_extends_def)
  with cluster_okD(2) [OF ok, of el'] size
  show "\<exists>el' \<in> set (elections s'). el_extends el el' \<and> voters el' \<subseteq> {..<size s}" by (auto simp: el_ok_def)
qed

section \<open>Election safety\<close>

text \<open>C2: election safety. In every run of a cluster of any size, with any interleaving,
  delays, losses and duplications of messages, restarts and snapshots: if peer \<open>i\<close> is leader
  of a term at some moment and peer \<open>j\<close> is leader of the same term at that or any later
  moment, then \<open>i = j\<close>.\<close>

theorem election_safety:
  assumes "steps evs (initCluster n :: ('c, 's) Cluster) = Some s" and "steps evs' s = Some s'"
    and "i < n" "State (nodes s i) = Leader" and "j < n" "State (nodes s' j) = Leader"
    and "CurrentTerm (nodes s i) = CurrentTerm (nodes s' j)"
  shows "i = j"
proof -
  have size: "size s = n" "size s' = n"
    using steps_history [OF assms(1)] steps_history [OF assms(2)]
    by (simp_all add: history_extends_def initCluster_def)
  have ok: "cluster_ok s" "cluster_ok s'" using steps_ok init_ok assms(1,2) by blast+
  have "won s (CurrentTerm (nodes s i)) i" using cluster_okD(3) [OF ok(1), of i] assms size by simp
  then have "won s' (CurrentTerm (nodes s i)) i" by (rule won_history [OF _ steps_history [OF assms(2)] ok(2)])
  moreover have "won s' (CurrentTerm (nodes s i)) j" using cluster_okD(3) [OF ok(2), of j] assms size by simp
  ultimately show ?thesis by (rule won_unique [OF ok(2)])
qed

lemma exampleElection:
  "map_option (\<lambda>s. State (nodes s 0))
     (steps [Elect 0 (1, 1), DeliverVote 0 1 (1, 1), HandleVote 0 1 True] (initCluster 3 :: (nat, nat) Cluster)) =
   Some Leader"
  by code_simp

theorem election_safety_witness:
  "\<exists>s. steps [Elect 0 (1, 1), DeliverVote 0 1 (1, 1), HandleVote 0 1 True] (initCluster 3 :: (nat, nat) Cluster) = Some s \<and>
     {j. j < 3 \<and> State (nodes s j) = Leader \<and> CurrentTerm (nodes s 0) = CurrentTerm (nodes s j)} = {0}"
proof -
  obtain s where s: "steps [Elect 0 (1, 1), DeliverVote 0 1 (1, 1), HandleVote 0 1 True]
      (initCluster 3 :: (nat, nat) Cluster) = Some s" "State (nodes s 0) = Leader"
    using exampleElection by auto
  have "j = 0" if "j < 3" "State (nodes s j) = Leader" "CurrentTerm (nodes s 0) = CurrentTerm (nodes s j)" for j
    using election_safety [OF s(1) _ _ s(2) that(1,2,3), of "[]"] by simp
  with s show ?thesis by (intro exI [of _ s]) auto
qed

end
