(* ===== verification/Raft_Matching.thy ===== *)
theory Raft_Matching
  imports Raft_Safety "HOL-Library.Sublist"
begin

text \<open>
  Log matching of the cluster: two peers that hold entries of the same index and term hold
  the same entries at every earlier index that both still retain. The invariant is stated
  with a ledger: the whole log, from index 0, that the leader of each term had or has. A
  log is legitimate when each of its prefixes ending in an entry of term \<open>t\<close> is a prefix of
  the ledger's log of \<open>t\<close>. Peers store the tail of a legitimate log from their snapshot
  boundary on; an \<^verbatim>\<open>InstallSnapShot\<close> leaves a boundary entry of which only the term is known.
\<close>

section \<open>Legitimate logs\<close>

type_synonym 'c ledger = "int \<Rightarrow> 'c LogEntry list option"

definition legit :: "'c ledger \<Rightarrow> 'c LogEntry list \<Rightarrow> bool" where
  "legit H F \<longleftrightarrow> F \<noteq> [] \<and>
     (\<forall>k < length F. \<exists>L. H (leTerm (F ! k)) = Some L \<and> k < length L \<and> take (Suc k) F = take (Suc k) L)"

definition ledger_ok :: "'c ledger \<Rightarrow> bool" where
  "ledger_ok H \<longleftrightarrow> H 0 = Some [zeroEntry] \<and> (\<forall>t L. H t = Some L \<longrightarrow> legit H L)"

definition ledger_le :: "'c ledger \<Rightarrow> 'c ledger \<Rightarrow> bool" where
  "ledger_le H H' \<longleftrightarrow> (\<forall>t L. H t = Some L \<longrightarrow> (\<exists>L'. H' t = Some L' \<and> prefix L L'))"

lemma legit_take: "legit H F \<Longrightarrow> legit H (take (Suc k) F)"
  by (auto simp: legit_def min_def)

lemma legit_mono: "legit H F \<Longrightarrow> ledger_le H H' \<Longrightarrow> legit H' F"
  unfolding legit_def ledger_le_def
proof (elim conjE, intro conjI allI impI)
  fix k
  assume H: "\<forall>k < length F. \<exists>L. H (leTerm (F ! k)) = Some L \<and> k < length L \<and> take (Suc k) F = take (Suc k) L"
    and le: "\<forall>t L. H t = Some L \<longrightarrow> (\<exists>L'. H' t = Some L' \<and> prefix L L')" and k: "k < length F"
  then obtain L where L: "H (leTerm (F ! k)) = Some L" "k < length L" "take (Suc k) F = take (Suc k) L" by blast
  with le obtain L' where "H' (leTerm (F ! k)) = Some L'" "prefix L L'" by blast
  with L show "\<exists>L. H' (leTerm (F ! k)) = Some L \<and> k < length L \<and> take (Suc k) F = take (Suc k) L"
    by (intro exI [of _ L']) (auto simp: prefix_def)
qed simp

lemma ledger_le_refl [simp]: "ledger_le H H"
  by (auto simp: ledger_le_def)

text \<open>The heart of the matter: entries of one term at one index fix the whole prefix.\<close>

lemma legit_match:
  assumes "legit H F" "legit H G" "k < length F" "k < length G" "leTerm (F ! k) = leTerm (G ! k)"
  shows "take (Suc k) F = take (Suc k) G"
proof -
  obtain L where "H (leTerm (F ! k)) = Some L" "take (Suc k) F = take (Suc k) L"
    using assms(1,3) by (auto simp: legit_def)
  moreover obtain L' where "H (leTerm (G ! k)) = Some L'" "take (Suc k) G = take (Suc k) L'"
    using assms(2,4) by (auto simp: legit_def)
  ultimately show ?thesis using assms(5) by simp
qed

section \<open>Stored tails\<close>

definition tail_of :: "nat \<Rightarrow> 'c LogEntry list \<Rightarrow> 'c LogEntry list \<Rightarrow> bool" where
  "tail_of b es F \<longleftrightarrow> b < length F \<and> (\<exists>e. es = e # drop (Suc b) F \<and> leTerm e = leTerm (F ! b))"

lemma tail_of_length: "tail_of b es F \<Longrightarrow> length F = b + length es"
  by (auto simp: tail_of_def)

lemma tail_of_drop_Suc: "tail_of b es F \<Longrightarrow> 0 < k \<Longrightarrow> drop k es = drop (b + k) F"
  by (auto simp: tail_of_def drop_Cons' add.commute)

lemma tail_of_nth:
  assumes "tail_of b es F" "k < length es"
  shows "leTerm (es ! k) = leTerm (F ! (b + k))" "0 < k \<Longrightarrow> es ! k = F ! (b + k)"
  using assms by (auto simp: tail_of_def nth_Cons split: nat.splits)

lemma tail_of_drop:
  assumes "tail_of b es F" "k < length es"
  shows "tail_of (b + k) (drop k es) F"
proof -
  have "drop k es = es ! k # drop (Suc k) es" using assms(2) by (simp add: Cons_nth_drop_Suc)
  also have "drop (Suc k) es = drop (Suc (b + k)) F" using tail_of_drop_Suc [OF assms(1), of "Suc k"] by simp
  finally show ?thesis
    using assms tail_of_length [OF assms(1)] tail_of_nth(1) [OF assms] by (auto simp: tail_of_def)
qed

lemma tail_of_snoc: "tail_of b es F \<Longrightarrow> tail_of b (es @ [e]) (F @ [e])"
  by (auto simp: tail_of_def nth_append)

text \<open>Merging the entries of a legitimate log, up to some index, into the tail of another one
  that agrees at the previous index: the result is a tail of one of the two.\<close>

lemma mergeLog_either:
  assumes "\<And>k. k < length xs \<Longrightarrow> k < length ys \<Longrightarrow> leTerm (xs ! k) = leTerm (ys ! k) \<Longrightarrow> xs ! k = ys ! k"
  shows "mergeLog xs ys = (if prefix ys xs then xs else ys)"
  using assms
proof (induction xs ys rule: mergeLog.induct)
  case (3 x xs y ys)
  have "leTerm x = leTerm y \<Longrightarrow> x = y" using 3(2) [of 0] by simp
  moreover have "leTerm x = leTerm y \<Longrightarrow> mergeLog xs ys = (if prefix ys xs then xs else ys)"
    using 3(1) 3(2) [of "Suc _"] by auto
  ultimately show ?case by auto
qed auto

lemma merge_tail:
  assumes F: "legit H F" "tail_of b es F" and G: "legit H G" "drop (Suc p) G = new" "p < length G"
    and p: "b \<le> p" "p < length F" "leTerm (F ! p) = leTerm (G ! p)"
  shows "\<exists>R \<in> {F, G}. tail_of b (take (Suc p - b) es @ mergeLog (drop (Suc p - b) es) new) R"
proof -
  let ?k = "Suc p - b"
  have eq: "take (Suc p) F = take (Suc p) G"
    using legit_match [OF F(1) G(1) p(2) G(3) p(3)] .
  have dk: "drop ?k es = drop (Suc p) F"
    using tail_of_drop_Suc [OF F(2), of ?k] p(1) by simp
  have "mergeLog (drop ?k es) new = (if prefix new (drop ?k es) then drop ?k es else new)"
  proof (rule mergeLog_either)
    fix m
    assume m: "m < length (drop ?k es)" "m < length new" "leTerm (drop ?k es ! m) = leTerm (new ! m)"
    then have "leTerm (F ! (Suc p + m)) = leTerm (G ! (Suc p + m))"
      and l: "Suc p + m < length F" "Suc p + m < length G"
      unfolding dk G(2) [symmetric] by auto
    then have "take (Suc (Suc p + m)) F = take (Suc (Suc p + m)) G" by (intro legit_match [OF F(1) G(1)])
    then have "take (Suc (Suc p + m)) F ! (Suc p + m) = take (Suc (Suc p + m)) G ! (Suc p + m)" by simp
    then show "drop ?k es ! m = new ! m" using l unfolding dk G(2) [symmetric] by simp
  qed
  moreover have "tail_of b (take ?k es @ new) G"
  proof -
    obtain e where e: "es = e # drop (Suc b) F" "leTerm e = leTerm (F ! b)" using F(2) by (auto simp: tail_of_def)
    have "take ?k es = e # drop (Suc b) (take (Suc p) F)"
      using p(1) by (simp add: e(1) take_Cons' drop_take)
    also have "\<dots> = e # drop (Suc b) (take (Suc p) G)" by (simp only: eq)
    finally have "take ?k es @ new = e # drop (Suc b) (take (Suc p) G @ drop (Suc p) G)"
      using p(1) G(2,3) by simp
    moreover have "F ! b = G ! b" using eq p(1) by (metis le_imp_less_Suc nth_take)
    ultimately show ?thesis using e(2) p(1) G(3) by (simp add: tail_of_def)
  qed
  ultimately show ?thesis using F(2) by auto
qed

section \<open>The invariant\<close>

definition log_ok :: "'c ledger \<Rightarrow> ('c, 's) Raft \<Rightarrow> bool" where
  "log_ok H rf \<longleftrightarrow> (\<exists>F. legit H F \<and> tail_of (nat (LastIncludedIndex rf)) (Log rf) F)"

definition lead_ok :: "'c ledger \<Rightarrow> ('c, 's) Raft \<Rightarrow> bool" where
  "lead_ok H rf \<longleftrightarrow> (State rf = Leader \<longrightarrow>
     (\<exists>L. H (CurrentTerm rf) = Some L \<and> tail_of (nat (LastIncludedIndex rf)) (Log rf) L))"

definition append_legit :: "'c ledger \<Rightarrow> 'c AppendEntriesArgs \<Rightarrow> bool" where
  "append_legit H args \<longleftrightarrow> 0 \<le> aePrevLogIndex args \<and>
     (\<exists>G. legit H G \<and> nat (aePrevLogIndex args) < length G \<and>
        drop (Suc (nat (aePrevLogIndex args))) G = aeEntries args \<and>
        leTerm (G ! nat (aePrevLogIndex args)) = aePrevLogTerm args)"

definition snap_legit :: "'c ledger \<Rightarrow> 's InstallSnapshotArgs \<Rightarrow> bool" where
  "snap_legit H args \<longleftrightarrow> 0 \<le> isLastIncludedIndex args \<and>
     (\<exists>G. legit H G \<and> length G = Suc (nat (isLastIncludedIndex args)) \<and>
        leTerm (G ! nat (isLastIncludedIndex args)) = isLastIncludedTerm args)"

text \<open>The ledger has an entry only for terms that somebody has won, and the winner is not a
  candidate of the term any more; terms are positive.\<close>

definition led_ok :: "'c ledger \<Rightarrow> ('c, 's) Cluster \<Rightarrow> bool" where
  "led_ok H s \<longleftrightarrow> (\<forall>t. H t \<noteq> None \<longrightarrow> t \<noteq> 0 \<longrightarrow>
     (\<exists>i < size s. won s t i \<and> \<not> (State (nodes s i) = Candidate \<and> CurrentTerm (nodes s i) = t)))"

definition term_ok :: "('c, 's) Raft \<Rightarrow> bool" where
  "term_ok rf \<longleftrightarrow> promised (- 1) 0 rf \<and> promised (- 1) 1 rf"

lemma term_ok_nonneg: "term_ok rf \<Longrightarrow> 0 \<le> CurrentTerm rf"
  by (auto simp: term_ok_def promised_def binds_def)

definition matching :: "'c ledger \<Rightarrow> ('c, 's) Cluster \<Rightarrow> bool" where
  "matching H s \<longleftrightarrow> ledger_ok H \<and> led_ok H s \<and>
     (\<forall>i < size s. log_ok H (nodes s i) \<and> lead_ok H (nodes s i) \<and> term_ok (nodes s i)) \<and>
     (\<forall>el \<in> set (elections s). 0 < rvTerm (elArgs el)) \<and>
     (\<forall>c \<in> set (appends s). append_legit H (acArgs c)) \<and> (\<forall>c \<in> set (snaps s). snap_legit H (scArgs c))"

lemma matchingD:
  assumes "matching H s"
  shows "ledger_ok H" "led_ok H s" "i < size s \<Longrightarrow> log_ok H (nodes s i)" "i < size s \<Longrightarrow> lead_ok H (nodes s i)"
    "i < size s \<Longrightarrow> term_ok (nodes s i)" "el \<in> set (elections s) \<Longrightarrow> 0 < rvTerm (elArgs el)"
    "c \<in> set (appends s) \<Longrightarrow> append_legit H (acArgs c)" "d \<in> set (snaps s) \<Longrightarrow> snap_legit H (scArgs d)"
  using assms by (auto simp: matching_def)

text \<open>A peer that has won a term is not behind it.\<close>

lemma won_term:
  assumes "cluster_ok s" "won s t i"
  shows "t \<le> CurrentTerm (nodes s i)"
  using assms(2) cluster_okD(2) [OF assms(1)] promised_current(1)
  by (fastforce simp: won_def el_ok_def voters_def)

lemma log_ok_mono: "log_ok H rf \<Longrightarrow> ledger_le H H' \<Longrightarrow> log_ok H' rf"
  using legit_mono by (auto simp: log_ok_def)

lemma append_legit_mono: "append_legit H a \<Longrightarrow> ledger_le H H' \<Longrightarrow> append_legit H' a"
  using legit_mono unfolding append_legit_def by blast

lemma snap_legit_mono: "snap_legit H a \<Longrightarrow> ledger_le H H' \<Longrightarrow> snap_legit H' a"
  using legit_mono unfolding snap_legit_def by blast

section \<open>Preservation\<close>

text \<open>The calls of the next state: known arguments, or new ones that are legitimate.\<close>

definition calls_ok :: "'c ledger \<Rightarrow> ('c, 's) Cluster \<Rightarrow> ('c, 's) Cluster \<Rightarrow> bool" where
  "calls_ok H s s' \<longleftrightarrow>
     (\<forall>c \<in> set (appends s'). acArgs c \<in> acArgs ` set (appends s) \<or> append_legit H (acArgs c)) \<and>
     (\<forall>d \<in> set (snaps s'). scArgs d \<in> scArgs ` set (snaps s) \<or> snap_legit H (scArgs d)) \<and>
     (\<forall>el \<in> set (elections s'). elArgs el \<in> elArgs ` set (elections s) \<or> 0 < rvTerm (elArgs el))"

text \<open>A candidate stays one of its term, or is one of a new term.\<close>

definition candidacy :: "('c, 's) Raft \<Rightarrow> ('c, 's) Raft \<Rightarrow> bool" where
  "candidacy rf rf' \<longleftrightarrow> (State rf' = Candidate \<longrightarrow>
     State rf = Candidate \<and> CurrentTerm rf' = CurrentTerm rf \<or> CurrentTerm rf < CurrentTerm rf')"

lemma matching_node:
  assumes ok: "cluster_ok s" and ok': "cluster_ok s'" and mt: "matching H s" and h: "history_extends s s'"
    and nodes: "nodes s' = (nodes s)(i := rf)" and i: "i < size s" and calls: "calls_ok H s s'"
    and keep: "keeps_promises (nodes s i) rf" and cand: "candidacy (nodes s i) rf"
    and le: "ledger_le H H'" and H': "ledger_ok H'" and log: "log_ok H' rf" and lead: "lead_ok H' rf"
    and others: "\<And>j. j < size s \<Longrightarrow> j \<noteq> i \<Longrightarrow> lead_ok H' (nodes s j)"
    and new: "\<And>t. H' t \<noteq> None \<Longrightarrow> H t = None \<Longrightarrow> won s' t i \<and> State rf \<noteq> Candidate"
  shows "matching H' s'"
proof -
  have size: "size s' = size s" using h by (simp add: history_extends_def)
  note won = won_history [OF _ h ok']
  have "led_ok H' s'"
    unfolding led_ok_def
  proof (intro allI impI)
    fix t
    assume t: "H' t \<noteq> None" "t \<noteq> 0"
    show "\<exists>j < size s'. won s' t j \<and> \<not> (State (nodes s' j) = Candidate \<and> CurrentTerm (nodes s' j) = t)"
    proof (cases "H t")
      case None
      then show ?thesis using new [OF t(1)] i size nodes by (intro exI [of _ i]) simp
    next
      case (Some L)
      then obtain j where j: "j < size s" "won s t j"
        "\<not> (State (nodes s j) = Candidate \<and> CurrentTerm (nodes s j) = t)"
        using matchingD(2) [OF mt] t(2) by (auto simp: led_ok_def)
      then show ?thesis
        using won [OF j(2)] won_term [OF ok j(2)] cand size nodes
        by (intro exI [of _ j]) (auto simp: candidacy_def)
    qed
  qed
  moreover have "term_ok rf" using matchingD(5) [OF mt i] keep by (simp add: term_ok_def keeps_promises_def)
  moreover have "append_legit H' (acArgs c)" if "c \<in> set (appends s')" for c
    using calls that matchingD(7) [OF mt] append_legit_mono [OF _ le] by (fastforce simp: calls_ok_def)
  moreover have "snap_legit H' (scArgs d)" if "d \<in> set (snaps s')" for d
    using calls that matchingD(8) [OF mt] snap_legit_mono [OF _ le] by (fastforce simp: calls_ok_def)
  moreover have "0 < rvTerm (elArgs el)" if "el \<in> set (elections s')" for el
    using calls that matchingD(6) [OF mt] by (fastforce simp: calls_ok_def)
  ultimately show ?thesis
    using H' log lead others log_ok_mono [OF matchingD(3) [OF mt] le] matchingD(5) [OF mt]
    by (auto simp: matching_def nodes size)
qed

definition sameLog :: "('c, 's) Raft \<Rightarrow> ('c, 's) Raft \<Rightarrow> bool" where
  "sameLog rf rf' \<longleftrightarrow> Log rf' = Log rf \<and> LastIncludedIndex rf' = LastIncludedIndex rf"

lemma matching_same:
  assumes "cluster_ok s" "cluster_ok s'" "matching H s" "history_extends s s'"
    and "nodes s' = (nodes s)(i := rf)" "i < size s" "calls_ok H s s'"
    and "keeps_promises (nodes s i) rf" "candidacy (nodes s i) rf" "log_ok H rf" "lead_ok H rf"
  shows "matching H s'"
  by (rule matching_node [OF assms(1-9)]) (use assms matchingD(1,4) in auto)

lemma matching_quiet:
  assumes "cluster_ok s" "cluster_ok s'" and mt: "matching H s" and "history_extends s s'"
    and "nodes s' = (nodes s)(i := rf)" and i: "i < size s" and "calls_ok H s s'"
    and "keeps_promises (nodes s i) rf" and q: "quiet (nodes s i) rf" and l: "sameLog (nodes s i) rf"
  shows "matching H s'"
  using matchingD(3,4) [OF mt i] q l
  by (intro matching_same [OF assms(1-8)])
    (auto simp: candidacy_def quiet_def log_ok_def lead_ok_def sameLog_def)

text \<open>Operations that leave the log alone.\<close>

lemma RequestVote_sameLog: "RequestVote clk args rf = Some (rf', r) \<Longrightarrow> sameLog rf rf'"
  by (erule RequestVote_cases) (auto simp: sameLog_def)

lemma HandleVoteReply_sameLog: "HandleVoteReply args rep vs rf = Some (rf', v, b) \<Longrightarrow> sameLog rf rf'"
  by (auto elim!: HandleVoteReply_cases BecomeLeader_Some simp: sameLog_def)

lemma updateCommitIndex_sameLog:
  assumes "wf_raft rf" "updateCommitIndex (learnMatch i m rf) = Some rf'"
  shows "sameLog rf rf'"
proof -
  have "wf_raft (learnMatch i m rf)" using assms(1) by simp
  from this assms(2) show ?thesis by (cases rule: updateCommitIndex_frame) (auto simp: sameLog_def)
qed

lemma HandleAppendReply_sameLog:
  assumes "wf_raft rf" "i < peers rf" "HandleAppendReply i args rep rf = Some rf'"
  shows "sameLog rf rf'"
  using assms
  by (cases rule: HandleAppendReply_cases) (use assms(1) updateCommitIndex_sameLog in \<open>auto simp: sameLog_def\<close>)

lemma HandleSnapReply_sameLog:
  assumes "wf_raft rf" "i < peers rf" "HandleSnapReply i args rep rf = Some rf'"
  shows "sameLog rf rf'"
  using assms
  by (cases rule: HandleSnapReply_cases) (use assms(1) updateCommitIndex_sameLog in \<open>auto simp: sameLog_def\<close>)

section \<open>Operations that change the log\<close>

lemma nat_index:
  assumes "wf_raft rf" "LastIncludedIndex rf \<le> p"
  shows "nat (p - LastIncludedIndex rf) = nat p - nat (LastIncludedIndex rf)"
    "nat (LastIncludedIndex rf) \<le> nat p"
  using assms wf_raftD(2) [OF assms(1)] by (simp_all add: nat_diff_distrib)

lemma AppendEntries_log_ok:
  assumes wf: "wf_raft rf" and v: "valid_append args" and ae: "AppendEntries clk args rf = Some (rf', r)"
    and log: "log_ok H rf" and msg: "append_legit H args"
  shows "log_ok H rf' \<and> (State rf' = Follower \<or> rf' = persist rf)"
  using wf v
proof (cases rule: AppendEntries_cases [of rf args clk])
  case (accepted rf3 reply)
  let ?p = "nat (aePrevLogIndex args)" and ?b = "nat (LastIncludedIndex rf)"
  obtain F where F: "legit H F" "tail_of ?b (Log rf) F" using log by (auto simp: log_ok_def)
  obtain G where G: "legit H G" "?p < length G" "drop (Suc ?p) G = aeEntries args"
      "leTerm (G ! ?p) = aePrevLogTerm args"
    using msg by (auto simp: append_legit_def)
  have le: "LastIncludedIndex rf \<le> aePrevLogIndex args" "aePrevLogIndex args \<le> lastIndex rf"
    using accepted(2) by (simp_all add: consistent_def)
  note ix = nat_index [OF wf le(1)]
  have pl: "?p - ?b < length (Log rf)" using le ix by (auto simp: lastIndex_def)
  have "leTerm (F ! ?p) = leTerm (G ! ?p)"
    using tail_of_nth(1) [OF F(2) pl] accepted(2) ix G(4) by (simp add: consistent_def)
  moreover have "?p < length F" using pl ix(2) tail_of_length [OF F(2)] by simp
  ultimately obtain R where "R \<in> {F, G}" "tail_of ?b (take (Suc ?p - ?b) (Log rf) @
      mergeLog (drop (Suc ?p - ?b) (Log rf)) (aeEntries args)) R"
    using merge_tail [OF F G(1,3,2) ix(2)] by blast
  moreover have "appendAt args rf = Suc ?p - ?b" using ix by (simp add: appendAt_def Suc_diff_le)
  ultimately have "\<exists>R. legit H R \<and> tail_of ?b (mergedLog args rf) R"
    using F(1) G(1) by (auto simp: mergedLog_def)
  then show ?thesis using accepted ae by (auto simp: log_ok_def)
qed (use ae log in \<open>auto simp: log_ok_def\<close>)

lemma InstallSnapShot_log_ok:
  assumes "wf_raft rf" and i: "InstallSnapShot clk args rf = (rf', r)" and log: "log_ok H rf"
    and msg: "snap_legit H args"
  shows "log_ok H rf' \<and> (State rf' = Follower \<or> rf' = rf)"
  using i
proof (cases rule: InstallSnapShot_cases)
  case (installed rf3)
  obtain G where G: "legit H G" "length G = Suc (nat (isLastIncludedIndex args))"
      "leTerm (G ! nat (isLastIncludedIndex args)) = isLastIncludedTerm args"
    using msg by (auto simp: snap_legit_def)
  then have "tail_of (nat (isLastIncludedIndex args)) (Log rf') G" by (simp add: tail_of_def installed)
  then show ?thesis using G(1) installed by (auto simp: log_ok_def)
qed (use log in \<open>auto simp: log_ok_def\<close>)

lemma Snapshot_tail:
  assumes wf: "wf_raft rf" and s: "Snapshot ix d rf = Some rf'" and F: "tail_of (nat (LastIncludedIndex rf)) (Log rf) F"
  shows "tail_of (nat (LastIncludedIndex rf')) (Log rf') F"
proof (cases "LastIncludedIndex rf < ix \<and> ix \<le> lastIndex rf")
  case True
  let ?k = "nat (ix - LastIncludedIndex rf)"
  have "?k < length (Log rf)" using True by (auto simp: lastIndex_def)
  from tail_of_drop [OF F this] show ?thesis
    using s True nat_index [OF wf, of ix] by (auto simp: Snapshot_eq Let_def)
qed (use s F in \<open>auto simp: Snapshot_eq\<close>)

lemma ledger_legit: "ledger_ok H \<Longrightarrow> H t = Some L \<Longrightarrow> legit H L"
  by (simp add: ledger_ok_def)

lemma ledger_append:
  assumes H: "ledger_ok H" "H t = Some L" "t \<noteq> 0" "leTerm e = t"
  shows "ledger_ok (H(t \<mapsto> L @ [e])) \<and> ledger_le H (H(t \<mapsto> L @ [e]))"
proof -
  let ?H = "H(t \<mapsto> L @ [e])"
  have le: "ledger_le H ?H" using H(2) by (auto simp: ledger_le_def)
  have old: "legit ?H M" if "H u = Some M" for u M
    using H(1) that legit_mono [OF _ le] by (auto simp: ledger_ok_def)
  have "legit ?H (L @ [e])"
    using old [OF H(2)] H(4) unfolding legit_def by (auto simp: nth_append less_Suc_eq)
  then have "legit ?H M" if "?H u = Some M" for u M using that old by (cases "u = t") auto
  then show ?thesis using le H by (auto simp: ledger_ok_def)
qed

lemma ledger_new:
  assumes H: "ledger_ok H" "H t = None" "legit H F"
  shows "ledger_ok (H(t \<mapsto> F)) \<and> ledger_le H (H(t \<mapsto> F))"
proof -
  let ?H = "H(t \<mapsto> F)"
  have le: "ledger_le H ?H" using H(2) by (auto simp: ledger_le_def)
  have "legit ?H M" if "?H u = Some M" for u M
    using that H legit_mono [OF _ le] by (cases "u = t") (auto simp: ledger_ok_def)
  moreover have "t \<noteq> 0" using H(1,2) by (auto simp: ledger_ok_def)
  ultimately show ?thesis using le H(1) by (auto simp: ledger_ok_def)
qed

section \<open>The steps\<close>

text \<open>What every step knows.\<close>

definition matching_step :: "'c ledger \<Rightarrow> ('c, 's) Cluster \<Rightarrow> ('c, 's) Cluster \<Rightarrow> bool" where
  "matching_step H s s' \<longleftrightarrow> cluster_ok s \<and> cluster_ok s' \<and> matching H s \<and> history_extends s s'"

lemma won_positive: "matching H s \<Longrightarrow> won s t i \<Longrightarrow> 0 < t"
  by (auto simp: won_def matching_def)

lemma lead_other:
  assumes "matching_step H s s'" "j < size s" "won s' t i" "j \<noteq> i"
  shows "lead_ok (H(t \<mapsto> L)) (nodes s j)"
proof (cases "State (nodes s j) = Leader \<and> CurrentTerm (nodes s j) = t")
  case True
  then have "won s t j" using assms cluster_okD(3) [of s j] by (auto simp: matching_step_def)
  then have "won s' t j" using assms(1) won_history [of s t j s'] by (simp add: matching_step_def)
  then show ?thesis using won_unique [of s' t i j] assms by (simp add: matching_step_def)
next
  case False
  then show ?thesis using assms matchingD(4) [of H s j] by (auto simp: matching_step_def lead_ok_def)
qed

text \<open>A leader's new entry goes to the ledger of its term.\<close>

lemma lead_start_matching:
  assumes ms: "matching_step H s s'" and i: "i < size s" and st: "Start c (nodes s i) = Some (rf, r)"
    and s': "s' = setNode i rf s" and lead: "State (nodes s i) = Leader" and t: "t = CurrentTerm (nodes s i)"
    and e: "e = \<lparr>leCommand = Some c, leTerm = t, leIndex = lastIndex (nodes s i) + 1\<rparr>"
    and L: "H t = Some L" "tail_of (nat (LastIncludedIndex (nodes s i))) (Log (nodes s i)) L"
  shows "ledger_le H (H(t \<mapsto> L @ [e])) \<and> matching (H(t \<mapsto> L @ [e])) s'"
proof -
  from ms have ok: "cluster_ok s" "cluster_ok s'" and mt: "matching H s" and h: "history_extends s s'"
    by (simp_all add: matching_step_def)
  note keep = start.op_node_ok [OF cluster_okD(1) [OF ok(1) i] _ st, simplified]
  have calls: "calls_ok H s s'" by (auto simp: calls_ok_def s')
  have won: "won s t i" using cluster_okD(3) [OF ok(1) i lead] t by simp
  let ?H = "H(t \<mapsto> L @ [e])"
  have H': "ledger_ok ?H" "ledger_le H ?H"
    using ledger_append [OF matchingD(1) [OF mt] L(1), of e] won_positive [OF mt won] e by auto
  have rf: "Log rf = Log (nodes s i) @ [e]" "LastIncludedIndex rf = LastIncludedIndex (nodes s i)"
    "State rf = Leader" "CurrentTerm rf = t"
    using st lead e t cluster_okD(1) [OF ok(1) i] by (auto simp: node_ok_def Start_leader_eq)
  have tail: "tail_of (nat (LastIncludedIndex rf)) (Log rf) (L @ [e])"
    using tail_of_snoc [OF L(2)] by (simp add: rf)
  moreover have "legit ?H (L @ [e])" by (rule ledger_legit [OF H'(1), of t]) simp
  ultimately have "log_ok ?H rf" "lead_ok ?H rf" unfolding log_ok_def lead_ok_def by (blast, simp add: rf)
  then have "matching ?H s'"
    using H' keep s' won lead_other [OF ms _ _ , of _ t i] rf(3) L(1)
    by (intro matching_node [OF ok mt h _ i calls]) (auto simp: candidacy_def split: if_splits)
  then show ?thesis using H'(2) by blast
qed

lemma start_matching:
  assumes ms: "matching_step H s s'" and i: "i < size s" and st: "Start c (nodes s i) = Some (rf, r)"
    and s': "s' = setNode i rf s"
  shows "\<exists>H'. ledger_le H H' \<and> matching H' s'"
proof (cases "State (nodes s i) = Leader")
  case False
  then have "rf = nodes s i" using st by (simp add: Start_def)
  then show ?thesis using ms s' by (auto simp: matching_step_def setNode_def intro!: exI [of _ H])
next
  case True
  from ms have mt: "matching H s" by (simp add: matching_step_def)
  obtain L where "H (CurrentTerm (nodes s i)) = Some L"
      "tail_of (nat (LastIncludedIndex (nodes s i))) (Log (nodes s i)) L"
    using matchingD(4) [OF mt i] True by (auto simp: lead_ok_def)
  from lead_start_matching [OF ms i st s' True refl refl this] show ?thesis by blast
qed

lemma HandleVoteReply_lead:
  assumes "HandleVoteReply args rep vs rf = Some (rf', vs', True)"
  shows "State rf = Candidate" "CurrentTerm rf = rvTerm args" "CurrentTerm rf' = CurrentTerm rf" "State rf' = Leader"
  using assms by (auto elim!: HandleVoteReply_cases BecomeLeader_Some)

text \<open>A new leader's log becomes the ledger of its term.\<close>

lemma elected_matching:
  assumes ms: "matching_step H s s'" and nodes: "nodes s' = (nodes s)(i := rf)" and i: "i < size s"
    and calls: "calls_ok H s s'" and keep: "keeps_promises (nodes s i) rf"
    and was: "State (nodes s i) = Candidate" and lead: "State rf = Leader"
    and t: "t = CurrentTerm rf" "CurrentTerm (nodes s i) = t" "0 < t"
    and F: "legit H F" "tail_of (nat (LastIncludedIndex rf)) (Log rf) F"
  shows "H t = None \<and> ledger_le H (H(t \<mapsto> F)) \<and> matching (H(t \<mapsto> F)) s'"
proof -
  from ms have ok: "cluster_ok s" "cluster_ok s'" and mt: "matching H s" and h: "history_extends s s'"
    by (simp_all add: matching_step_def)
  have won: "won s' t i" using cluster_okD(3) [OF ok(2), of i] i h lead nodes t by (simp add: history_extends_def)
  have none: "H t = None"
  proof (rule ccontr)
    assume "H t \<noteq> None"
    with t(3) obtain m where m: "won s t m" "\<not> (State (nodes s m) = Candidate \<and> CurrentTerm (nodes s m) = t)"
      using matchingD(2) [OF mt] by (auto simp: led_ok_def)
    then have "m = i" using won_unique [OF ok(2) won_history [OF m(1) h ok(2)] won] by simp
    then show False using m(2) was t by simp
  qed
  let ?H = "H(t \<mapsto> F)"
  have H': "ledger_ok ?H" "ledger_le H ?H" using ledger_new [OF matchingD(1) [OF mt] none F(1)] by simp_all
  then have "log_ok ?H rf" "lead_ok ?H rf"
    using F legit_mono [OF F(1) H'(2)] unfolding log_ok_def lead_ok_def by (blast, simp add: t(1))
  then have "matching ?H s'"
    using H' keep won lead lead_other [OF ms _ won]
    by (intro matching_node [OF ok mt h nodes i calls]) (auto simp: candidacy_def split: if_splits)
  then show ?thesis using H'(2) none by blast
qed

lemma vote_matching:
  assumes ms: "matching_step H s s'" and k: "k < length (elections s)" and st: "stepHandleVote k j okay s = Some s'"
  shows "\<exists>H'. ledger_le H H' \<and> matching H' s'"
proof (cases "elCalls (elections s ! k) j")
  case (Replied r)
  let ?el = "elections s ! k" let ?i = "elCand ?el" let ?rep = "if okay then Some r else None"
  from ms have ok: "cluster_ok s" "cluster_ok s'" and mt: "matching H s" and h: "history_extends s s'"
    by (simp_all add: matching_step_def)
  obtain rf v b where hv: "HandleVoteReply (elArgs ?el) ?rep (elVotes ?el) (nodes s ?i) = Some (rf, v, b)"
    and s': "s' = (setNode ?i rf s)\<lparr>elections := (elections s)[k :=
        ?el\<lparr>elVotes := v, elCalls := (elCalls ?el)(j := Handled r okay)\<rparr>]\<rparr>"
    using st Replied by (auto simp: stepHandleVote_def bind_Some_iff Let_def)
  have i: "?i < size s" using cluster_okD(2) [OF ok(1)] k by (simp add: el_ok_def)
  have keep: "keeps_promises (nodes s ?i) rf"
    using vote_reply.op_node_ok [OF cluster_okD(1) [OF ok(1) i], of "(elArgs ?el, ?rep, elVotes ?el)" rf "(v, b)"] hv
    by simp
  have nodes: "nodes s' = (nodes s)(?i := rf)" by (simp add: s')
  have calls: "calls_ok H s s'"
    using k by (auto simp: calls_ok_def s' dest!: set_update_subset_insert [THEN subsetD])
  note same = HandleVoteReply_sameLog [OF hv]
  show ?thesis
  proof (cases b)
    case False
    then show ?thesis
      using matching_quiet [OF ok mt h nodes i calls keep _ same] HandleVoteReply_votes(2) [OF hv] ledger_le_refl by blast
  next
    case True
    note lead = HandleVoteReply_lead [OF hv [unfolded True [simplified, THEN eqTrueI]]]
    obtain F where F: "legit H F" "tail_of (nat (LastIncludedIndex rf)) (Log rf) F"
      using matchingD(3) [OF mt i] same by (auto simp: log_ok_def sameLog_def)
    have "0 < CurrentTerm rf" using matchingD(6) [OF mt, of ?el] k lead by auto
    from elected_matching [OF ms nodes i calls keep lead(1,4) refl _ this F] lead(3) show ?thesis by auto
  qed
qed (use ms st in \<open>auto simp: stepHandleVote_def matching_step_def intro!: exI [of _ H]\<close>)

lemma deliver_vote_matching:
  assumes ms: "matching_step H s s'" and k: "k < length (elections s)" and j: "j < size s"
    and st: "stepDeliverVote k j clk s = Some s'"
  shows "matching H s'"
proof -
  from ms have ok: "cluster_ok s" "cluster_ok s'" and mt: "matching H s" and h: "history_extends s s'"
    by (simp_all add: matching_step_def)
  let ?el = "elections s ! k"
  obtain rf r where v: "RequestVote clk (elArgs ?el) (nodes s j) = Some (rf, r)"
    and s': "s' = (setNode j rf s)\<lparr>elections := (elections s)[k :=
          ?el\<lparr>elCalls := (elCalls ?el)(j := deliver r (elCalls ?el j))\<rparr>]\<rparr>"
    using st by (auto simp: stepDeliverVote_def bind_Some_iff Let_def)
  have "calls_ok H s s'" using k by (auto simp: calls_ok_def s' dest!: set_update_subset_insert [THEN subsetD])
  then show ?thesis
    using rv.op_node_ok [OF cluster_okD(1) [OF ok(1) j], of "(clk, elArgs ?el)" rf r] v s'
      RequestVote_quiet [OF v] RequestVote_sameLog [OF v]
    by (intro matching_quiet [OF ok mt h _ j]) auto
qed

lemma elect_matching:
  assumes ms: "matching_step H s s'" and i: "i < size s" and st: "stepElect i clk s = Some s'"
  shows "matching H s'"
proof -
  from ms have ok: "cluster_ok s" "cluster_ok s'" and mt: "matching H s" and h: "history_extends s s'"
    by (simp_all add: matching_step_def)
  obtain rf args v where a: "AttemptElection clk (nodes s i) = Some (rf, args, v)"
    and s': "s' = (setNode i rf s)\<lparr>elections := elections s @
       [\<lparr>elCand = i, elEpoch = epochs s i, elArgs = args, elVotes = v, elCalls = (\<lambda>_. Waiting)\<rparr>]\<rparr>"
    using st by (auto simp: stepElect_def bind_Some_iff)
  note A = AttemptElection_Some [OF a]
  have "calls_ok H s s'" using A(3) term_ok_nonneg [OF matchingD(5) [OF mt i]] by (auto simp: calls_ok_def s')
  moreover have "log_ok H rf" "lead_ok H rf" "candidacy (nodes s i) rf"
    using A(2) matchingD(3) [OF mt i] by (auto simp: log_ok_def lead_ok_def candidacy_def)
  ultimately show ?thesis
    using elect.op_node_ok [OF cluster_okD(1) [OF ok(1) i] _ a] s'
    by (intro matching_same [OF ok mt h _ i]) auto
qed

lemma send_matching:
  assumes ms: "matching_step H s s'" and i: "i < size s" and st: "stepSendTo i j s = Some s'"
  shows "matching H s'"
proof -
  from ms have ok: "cluster_ok s" "cluster_ok s'" and mt: "matching H s" and h: "history_extends s s'"
    by (simp_all add: matching_step_def)
  let ?rf = "nodes s i" let ?b = "nat (LastIncludedIndex ?rf)"
  obtain out where p: "PrepareEntries j ?rf = Some out" using st by (auto simp: stepSendTo_def bind_Some_iff)
  have wf: "wf_raft ?rf" using cluster_okD(1) [OF ok(1) i] by (simp add: node_ok_def)
  have lead: "\<exists>L. legit H L \<and> tail_of ?b (Log ?rf) L" if "State ?rf = Leader"
    using matchingD(4) [OF mt i] that ledger_legit [OF matchingD(1) [OF mt]] by (auto simp: lead_ok_def)
  from wf p have "nodes s' = (nodes s)(i := ?rf) \<and> calls_ok H s s'"
  proof (cases rule: PrepareEntries_cases)
    case nothing
    then show ?thesis using st p by (auto simp: stepSendTo_def calls_ok_def)
  next
    case (snapshot args)
    then obtain L where L: "legit H L" "tail_of ?b (Log ?rf) L" using lead by auto
    have "hd (Log ?rf) = Log ?rf ! 0" using wf_raftD(1) [OF wf] by (rule hd_conv_nth)
    then have "leTerm (L ! ?b) = isLastIncludedTerm args"
      using tail_of_nth(1) [OF L(2), of 0] wf_raftD(1,4) [OF wf] snapshot by (simp add: wf_log_def)
    moreover have "?b < length L" using L(2) by (simp add: tail_of_def)
    ultimately have "snap_legit H args"
      using snapshot legit_take [OF L(1), of ?b] wf_raftD(2) [OF wf]
      unfolding snap_legit_def by (intro conjI exI [of _ "take (Suc ?b) L"]) simp_all
    then show ?thesis using st p snapshot(1) by (auto simp: stepSendTo_def calls_ok_def)
  next
    case (entries args k)
    then obtain L where L: "legit H L" "tail_of ?b (Log ?rf) L" using lead by auto
    have pr: "nat (aePrevLogIndex args) = ?b + k - 1" "0 \<le> aePrevLogIndex args"
      using entries(5,7) wf_raftD(2) [OF wf] by auto
    have "append_legit H args"
      unfolding append_legit_def
    proof (intro conjI exI [of _ L])
      show "nat (aePrevLogIndex args) < length L" using pr entries(5,6) tail_of_length [OF L(2)] by simp
      show "drop (Suc (nat (aePrevLogIndex args))) L = aeEntries args"
        using pr entries(5,9) tail_of_drop_Suc [OF L(2) entries(5)] by simp
      show "leTerm (L ! nat (aePrevLogIndex args)) = aePrevLogTerm args"
        using pr entries(5,6,8) tail_of_nth(1) [OF L(2), of "k - 1"] by simp
    qed (use L pr in auto)
    then show ?thesis using st p entries(1) by (auto simp: stepSendTo_def calls_ok_def)
  qed
  then show ?thesis
    by (intro matching_quiet [OF ok mt h _ i, of ?rf]) (auto simp: keeps_promises_def quiet_def sameLog_def)
qed

lemma calls_ok_update:
  "k < length (appends s) \<Longrightarrow> acArgs c = acArgs (appends s ! k) \<Longrightarrow>
     calls_ok H s (setNode i rf (s\<lparr>appends := (appends s)[k := c]\<rparr>))"
  "k < length (snaps s) \<Longrightarrow> scArgs d = scArgs (snaps s ! k) \<Longrightarrow>
     calls_ok H s (setNode i rf (s\<lparr>snaps := (snaps s)[k := d]\<rparr>))"
  "calls_ok H s (setNode i rf s)" "calls_ok H s (setNode i rf (s\<lparr>epochs := e\<rparr>))"
  by (auto simp: calls_ok_def dest!: set_update_subset_insert [THEN subsetD])

lemma deliver_append_matching:
  assumes ms: "matching_step H s s'" and k: "k < length (appends s)" and st: "stepDeliverAppend k clk s = Some s'"
  shows "matching H s'"
proof -
  from ms have ok: "cluster_ok s" "cluster_ok s'" and mt: "matching H s" and h: "history_extends s s'"
    by (simp_all add: matching_step_def)
  let ?c = "appends s ! k" let ?j = "acTo ?c"
  obtain rf r where a: "AppendEntries clk (acArgs ?c) (nodes s ?j) = Some (rf, r)"
    and s': "s' = (setNode ?j rf s)\<lparr>appends := (appends s)[k := ?c\<lparr>acState := deliver r (acState ?c)\<rparr>]\<rparr>"
    using st by (auto simp: stepDeliverAppend_def bind_Some_iff Let_def)
  from cluster_okD(4) [OF ok(1), of ?c] k have j: "?j < size s" and v: "valid_append (acArgs ?c)"
    by (auto simp: append_ok_def)
  note n = cluster_okD(1) [OF ok(1) j]
  then have wf: "wf_raft (nodes s ?j)" by (simp add: node_ok_def)
  have "log_ok H rf \<and> (State rf = Follower \<or> rf = persist (nodes s ?j))"
    using AppendEntries_log_ok [OF wf v a matchingD(3) [OF mt j]] matchingD(7) [OF mt] k by simp
  moreover from this have "lead_ok H rf" "candidacy (nodes s ?j) rf"
    using matchingD(4) [OF mt j] by (auto simp: lead_ok_def candidacy_def)
  ultimately show ?thesis
    using append.op_node_ok [OF n, of "(clk, acArgs ?c)" rf r] a v s' calls_ok_update(1) [OF k]
    by (intro matching_same [OF ok mt h _ j, of rf]) auto
qed

lemma handle_append_matching:
  assumes ms: "matching_step H s s'" and k: "k < length (appends s)" and st: "stepHandleAppend k okay s = Some s'"
  shows "matching H s'"
proof (cases "acState (appends s ! k)")
  case (Replied r)
  from ms have ok: "cluster_ok s" "cluster_ok s'" and mt: "matching H s" and h: "history_extends s s'"
    by (simp_all add: matching_step_def)
  let ?c = "appends s ! k" let ?i = "acFrom ?c" let ?rep = "if okay then Some r else None"
  obtain rf where hr: "HandleAppendReply (acTo ?c) (acArgs ?c) ?rep (nodes s ?i) = Some rf"
    and s': "s' = (setNode ?i rf s)\<lparr>appends := (appends s)[k := ?c\<lparr>acState := Handled r okay\<rparr>]\<rparr>"
    using st Replied by (auto simp: stepHandleAppend_def bind_Some_iff Let_def)
  from cluster_okD(4) [OF ok(1), of ?c] k have i: "?i < size s" and j: "acTo ?c < size s" by (auto simp: append_ok_def)
  have wf: "wf_raft (nodes s ?i)" "acTo ?c < peers (nodes s ?i)"
    using j cluster_okD(1) [OF ok(1) i] by (simp_all add: node_ok_def)
  note keep = HandleAppendReply_keeps [OF wf hr]
  show ?thesis
    using keeps_promises_evolves [OF keep(3,4)] HandleAppendReply_quiet [OF wf hr] HandleAppendReply_sameLog [OF wf hr]
      calls_ok_update(1) [OF k] s'
    by (intro matching_quiet [OF ok mt h _ i, of rf]) auto
qed (use ms st in \<open>auto simp: stepHandleAppend_def matching_step_def\<close>)

lemma deliver_snap_matching:
  assumes ms: "matching_step H s s'" and k: "k < length (snaps s)" and st: "stepDeliverSnap k clk s = s'"
  shows "matching H s'"
proof -
  from ms have ok: "cluster_ok s" "cluster_ok s'" and mt: "matching H s" and h: "history_extends s s'"
    by (simp_all add: matching_step_def)
  let ?c = "snaps s ! k" let ?j = "scTo ?c"
  obtain rf r where f: "InstallSnapShot clk (scArgs ?c) (nodes s ?j) = (rf, r)" by fastforce
  from cluster_okD(5) [OF ok(1), of ?c] k have j: "?j < size s" and v: "valid_snapshot (scArgs ?c)"
    by (auto simp: snap_ok_def)
  note n = cluster_okD(1) [OF ok(1) j]
  have "log_ok H rf \<and> (State rf = Follower \<or> rf = nodes s ?j)"
    using InstallSnapShot_log_ok [OF _ f matchingD(3) [OF mt j]] matchingD(8) [OF mt] k n by (simp add: node_ok_def)
  moreover from this have "lead_ok H rf" "candidacy (nodes s ?j) rf"
    using matchingD(4) [OF mt j] by (auto simp: lead_ok_def candidacy_def)
  ultimately show ?thesis
    using install.op_node_ok [OF n, of "(clk, scArgs ?c)" rf r] f v st calls_ok_update(2) [OF k]
    by (intro matching_same [OF ok mt h _ j, of rf]) (auto simp: stepDeliverSnap_def Let_def)
qed

lemma handle_snap_matching:
  assumes ms: "matching_step H s s'" and k: "k < length (snaps s)" and st: "stepHandleSnap k okay s = Some s'"
  shows "matching H s'"
proof (cases "scState (snaps s ! k)")
  case (Replied r)
  from ms have ok: "cluster_ok s" "cluster_ok s'" and mt: "matching H s" and h: "history_extends s s'"
    by (simp_all add: matching_step_def)
  let ?c = "snaps s ! k" let ?i = "scFrom ?c" let ?rep = "if okay then Some r else None"
  obtain rf where hr: "HandleSnapReply (scTo ?c) (scArgs ?c) ?rep (nodes s ?i) = Some rf"
    and s': "s' = (setNode ?i rf s)\<lparr>snaps := (snaps s)[k := ?c\<lparr>scState := Handled r okay\<rparr>]\<rparr>"
    using st Replied by (auto simp: stepHandleSnap_def bind_Some_iff Let_def)
  from cluster_okD(5) [OF ok(1), of ?c] k have i: "?i < size s" and j: "scTo ?c < size s" by (auto simp: snap_ok_def)
  have wf: "wf_raft (nodes s ?i)" "scTo ?c < peers (nodes s ?i)"
    using j cluster_okD(1) [OF ok(1) i] by (simp_all add: node_ok_def)
  note keep = HandleSnapReply_keeps [OF wf hr]
  show ?thesis
    using keeps_promises_evolves [OF keep(3,4)] HandleSnapReply_quiet [OF wf hr] HandleSnapReply_sameLog [OF wf hr]
      calls_ok_update(2) [OF k] s'
    by (intro matching_quiet [OF ok mt h _ i, of rf]) auto
qed (use ms st in \<open>auto simp: stepHandleSnap_def matching_step_def\<close>)

lemma fire_snap_matching:
  assumes ms: "matching_step H s s'" and k: "k < length (snaps s)" and st: "stepFireSnap k s = s'"
  shows "matching H s'"
proof -
  from ms have ok: "cluster_ok s" "cluster_ok s'" and mt: "matching H s" and h: "history_extends s s'"
    by (simp_all add: matching_step_def)
  let ?i = "scFrom (snaps s ! k)"
  obtain rf sent where f: "sendSnapShot (nodes s ?i) = (rf, sent)" by fastforce
  have i: "?i < size s" using cluster_okD(5) [OF ok(1), of "snaps s ! k"] k by (auto simp: snap_ok_def)
  have "rf = nodes s ?i \<or> rf = (nodes s ?i)\<lparr>mu := True\<rparr>" using f by (auto simp: sendSnapShot_def split: if_splits)
  then have "keeps_promises (nodes s ?i) rf" "quiet (nodes s ?i) rf" "sameLog (nodes s ?i) rf"
    by (auto simp: keeps_promises_def promised_def savedState_def quiet_def sameLog_def)
  then show ?thesis
    using st f calls_ok_update(2) [OF k]
    by (intro matching_quiet [OF ok mt h _ i, of rf]) (auto simp: stepFireSnap_def Let_def)
qed

lemma crash_matching:
  assumes ms: "matching_step H s s'" and i: "i < size s" and st: "stepCrash i clk s = Some s'"
  shows "matching H s'"
proof -
  from ms have ok: "cluster_ok s" "cluster_ok s'" and mt: "matching H s" and h: "history_extends s s'"
    by (simp_all add: matching_step_def)
  obtain rf where r: "Make (size s) i (Copy (persister (nodes s i))) clk = Some rf" "keeps_promises (nodes s i) rf"
      "State rf = Follower" "Log rf = Log (nodes s i)" "LastIncludedIndex rf = LastIncludedIndex (nodes s i)"
    by (rule restart_keeps [OF cluster_okD(1) [OF ok(1) i]])
  then show ?thesis
    using st calls_ok_update(4)
    by (intro matching_quiet [OF ok mt h _ i, of rf]) (auto simp: stepCrash_def quiet_def sameLog_def)
qed

lemma service_matching:
  assumes ms: "matching_step H s s'" and i: "i < size s" and st: "Snapshot ix d (nodes s i) = Some rf"
    and s': "s' = setNode i rf s"
  shows "matching H s'"
proof -
  from ms have ok: "cluster_ok s" "cluster_ok s'" and mt: "matching H s" and h: "history_extends s s'"
    by (simp_all add: matching_step_def)
  note n = cluster_okD(1) [OF ok(1) i]
  then have wf: "wf_raft (nodes s i)" by (simp add: node_ok_def)
  have "State rf = State (nodes s i)" "CurrentTerm rf = CurrentTerm (nodes s i)"
    using st by (auto simp: Snapshot_eq Let_def split: if_splits)
  then have "log_ok H rf" "lead_ok H rf" "candidacy (nodes s i) rf"
    using matchingD(3,4) [OF mt i] Snapshot_tail [OF wf st] by (auto simp: log_ok_def lead_ok_def candidacy_def)
  then show ?thesis
    using snap.op_node_ok [OF n, of "(ix, d)" rf "()"] st s' calls_ok_update(3)
    by (intro matching_same [OF ok mt h _ i, of rf]) auto
qed

lemma step_matching:
  assumes ok: "cluster_ok s" and mt: "matching H s" and st: "step ev s = Some s'"
  shows "\<exists>H'. ledger_le H H' \<and> matching H' s'"
proof -
  have ms: "matching_step H s s'"
    using ok mt step_ok [OF ok st] step_history [OF st] by (simp add: matching_step_def)
  have idle: "s' = s \<Longrightarrow> ?thesis" using mt ledger_le_refl by blast
  have same: "matching H s' \<Longrightarrow> ?thesis" using ledger_le_refl by blast
  show ?thesis
  proof (cases ev)
    case (HandleVote k j okay)
    then show ?thesis using st vote_matching [OF ms, of k j okay] idle by (auto simp: step_def split: if_splits)
  next
    case (ClientStart i c)
    then show ?thesis
      using st start_matching [OF ms, of i c] idle by (fastforce simp: step_def active_def split: if_splits)
  next
    case (ServiceSnapshot i ix d)
    then show ?thesis
      using st service_matching [OF ms, of i ix d] same idle by (fastforce simp: step_def active_def split: if_splits)
  next
    case (Elect i clk)
    then show ?thesis
      using st elect_matching [OF ms, of i clk] same idle by (auto simp: step_def active_def split: if_splits)
  next
    case (DeliverVote k j clk)
    then show ?thesis
      using st deliver_vote_matching [OF ms, of k j clk] same idle by (auto simp: step_def active_def split: if_splits)
  next
    case (SendTo i j)
    then show ?thesis
      using st send_matching [OF ms, of i j] same idle by (auto simp: step_def active_def split: if_splits)
  next
    case (DeliverAppend k clk)
    then show ?thesis
      using st deliver_append_matching [OF ms, of k clk] same idle by (auto simp: step_def split: if_splits)
  next
    case (HandleAppend k okay)
    then show ?thesis
      using st handle_append_matching [OF ms, of k okay] same idle by (auto simp: step_def split: if_splits)
  next
    case (FireSnap k)
    then show ?thesis
      using st fire_snap_matching [OF ms, of k] same idle by (auto simp: step_def split: if_splits)
  next
    case (DeliverSnap k clk)
    then show ?thesis
      using st deliver_snap_matching [OF ms, of k clk] same idle by (auto simp: step_def split: if_splits)
  next
    case (HandleSnap k okay)
    then show ?thesis
      using st handle_snap_matching [OF ms, of k okay] same idle by (auto simp: step_def split: if_splits)
  next
    case (Crash i clk)
    then show ?thesis
      using st crash_matching [OF ms, of i clk] same idle by (auto simp: step_def split: if_splits)
  qed
qed

lemma steps_matching:
  "cluster_ok s \<Longrightarrow> matching H s \<Longrightarrow> steps evs s = Some s' \<Longrightarrow> \<exists>H'. ledger_le H H' \<and> matching H' s'"
proof (induction evs arbitrary: s H)
  case Nil
  then show ?case by (intro exI [of _ H]) simp
next
  case (Cons ev evs)
  from Cons.prems(3) obtain s1 where s1: "step ev s = Some s1" "steps evs s1 = Some s'"
    by (auto simp: bind_Some_iff)
  obtain H1 where H1: "ledger_le H H1" "matching H1 s1" using step_matching [OF Cons.prems(1,2) s1(1)] by blast
  from Cons.IH [OF step_ok [OF Cons.prems(1) s1(1)] H1(2) s1(2)]
  obtain H2 where "ledger_le H1 H2" "matching H2 s'" by blast
  moreover from this H1(1) have "ledger_le H H2" unfolding ledger_le_def by (meson prefix_order.trans)
  ultimately show ?case by blast
qed

lemma init_matching: "matching [0 \<mapsto> [zeroEntry]] (initCluster n)"
proof -
  have "legit [0 \<mapsto> [zeroEntry]] [zeroEntry]" by (simp add: legit_def)
  moreover have "tail_of 0 [zeroEntry] [zeroEntry]" by (simp add: tail_of_def)
  ultimately show ?thesis
    unfolding matching_def initCluster_def freshPeer_def Make_fresh
    by (auto simp: ledger_ok_def led_ok_def log_ok_def lead_ok_def term_ok_def promised_def binds_def savedState_def
        MakePersister_def NotVoted_def split: if_splits)
qed

lemma run_matching:
  assumes "steps evs (initCluster n) = Some s"
  shows "size s = n \<and> cluster_ok s \<and> (\<exists>H. matching H s)"
  using steps_matching [OF init_ok init_matching assms] steps_ok [OF init_ok assms] steps_history [OF assms]
  by (auto simp: history_extends_def initCluster_def)

section \<open>Log matching\<close>

lemma GetLogEntry_tail:
  assumes "wf_raft rf" "tail_of (nat (LastIncludedIndex rf)) (Log rf) F" "GetLogEntry rf m = (e, True)"
  shows "nat m < length F" "leTerm e = leTerm (F ! nat m)" "LastIncludedIndex rf < m \<Longrightarrow> e = F ! nat m"
proof -
  let ?k = "nat (m - LastIncludedIndex rf)"
  have in_log: "LastIncludedIndex rf \<le> m" "m \<le> lastIndex rf" using assms(3) GetLogEntry_True [of rf m] by simp_all
  then have k: "?k < length (Log rf)" "e = Log rf ! ?k" "nat (LastIncludedIndex rf) + ?k = nat m"
    using assms(3) GetLogEntry_in [OF in_log] nat_index [OF assms(1) in_log(1)] by (auto simp: lastIndex_def)
  then show "nat m < length F" "leTerm e = leTerm (F ! nat m)"
    using tail_of_length [OF assms(2)] tail_of_nth(1) [OF assms(2) k(1)] by simp_all
  show "LastIncludedIndex rf < m \<Longrightarrow> e = F ! nat m" using k tail_of_nth(2) [OF assms(2) k(1)] by simp
qed

text \<open>C3: log matching. In every run of a cluster, if two peers retain entries of the same
  term at index \<open>k\<close>, then at every index up to \<open>k\<close> that both retain the entries have the same
  term, and above both snapshot boundaries they are the same entry, command included.\<close>

theorem log_matching:
  assumes "steps evs (initCluster n) = Some s" and "i < n" "j < n"
    and "GetLogEntry (nodes s i) k = (e, True)" "GetLogEntry (nodes s j) k = (e', True)" "leTerm e = leTerm e'"
    and "m \<le> k" "GetLogEntry (nodes s i) m = (d, True)" "GetLogEntry (nodes s j) m = (d', True)"
  shows "leTerm d = leTerm d' \<and>
    (LastIncludedIndex (nodes s i) < m \<and> LastIncludedIndex (nodes s j) < m \<longrightarrow> d = d')"
proof -
  from run_matching [OF assms(1)] obtain H where size: "size s = n" and ok: "cluster_ok s" and mt: "matching H s"
    by blast
  have wf: "wf_raft (nodes s i)" "wf_raft (nodes s j)"
    using cluster_okD(1) [OF ok] assms(2,3) size by (simp_all add: node_ok_def)
  obtain F G where F: "legit H F" "tail_of (nat (LastIncludedIndex (nodes s i))) (Log (nodes s i)) F"
    and G: "legit H G" "tail_of (nat (LastIncludedIndex (nodes s j))) (Log (nodes s j)) G"
    using matchingD(3) [OF mt, of i] matchingD(3) [OF mt, of j] assms(2,3) size by (auto simp: log_ok_def)
  note fk = GetLogEntry_tail [OF wf(1) F(2) assms(4)] and gk = GetLogEntry_tail [OF wf(2) G(2) assms(5)]
  note fm = GetLogEntry_tail [OF wf(1) F(2) assms(8)] and gm = GetLogEntry_tail [OF wf(2) G(2) assms(9)]
  have "take (Suc (nat k)) F = take (Suc (nat k)) G"
    using legit_match [OF F(1) G(1) fk(1) gk(1)] fk(2) gk(2) assms(6) by simp
  moreover have "nat m < Suc (nat k)" using assms(7) by linarith
  ultimately have "F ! nat m = G ! nat m" by (metis nth_take)
  then show ?thesis using fm gm by simp
qed

definition exampleEvents :: "(nat, nat) event list" where
  "exampleEvents =
     [Elect 0 (1, 1), DeliverVote 0 1 (1, 1), HandleVote 0 1 True, ClientStart 0 7, SendTo 0 1, DeliverAppend 0 (2, 2)]"

lemma exampleEvents_logs:
  "map_option (\<lambda>s. (GetLogEntry (nodes s 0) 1, GetLogEntry (nodes s 1) 1, LastIncludedIndex (nodes s 0),
       LastIncludedIndex (nodes s 1))) (steps exampleEvents (initCluster 3)) =
   Some ((\<lparr>leCommand = Some 7, leTerm = 1, leIndex = 1\<rparr>, True), (\<lparr>leCommand = Some 7, leTerm = 1, leIndex = 1\<rparr>, True), 0, 0)"
  by code_simp

theorem log_matching_witness:
  "\<exists>s d d'. steps exampleEvents (initCluster 3) = Some s \<and> GetLogEntry (nodes s 0) 1 = (d, True) \<and>
     GetLogEntry (nodes s 1) 1 = (d', True) \<and> d = d'"
proof -
  obtain s where s: "steps exampleEvents (initCluster 3) = Some s"
      "GetLogEntry (nodes s 0) 1 = (\<lparr>leCommand = Some 7, leTerm = 1, leIndex = 1\<rparr>, True)"
      "GetLogEntry (nodes s 1) 1 = (\<lparr>leCommand = Some 7, leTerm = 1, leIndex = 1\<rparr>, True)"
    and b: "LastIncludedIndex (nodes s 0) = 0" "LastIncludedIndex (nodes s 1) = 0"
    using exampleEvents_logs by auto
  show ?thesis
    using log_matching [OF s(1) _ _ s(2) s(3) _ _ s(2) s(3)] s b by auto
qed

end
