(* ===== verification/Raft_Completeness.thy ===== *)
theory Raft_Completeness
  imports Raft_Matching
begin

text \<open>
  State machine safety of the cluster in runs without snapshots: peers never commit different
  entries at one index. (With snapshots they can: see \<open>Raft_Defects\<close>.) The argument is leader
  completeness. An entry of term \<open>t\<close> that a peer has acknowledged to the leader of \<open>t\<close> stays in
  the peer's log unless a leader of a later term that the peer has reached lacks it; a vote of
  the peer then shows the candidate to be ahead of the entry. By induction on terms every
  leader after \<open>t\<close> has every entry that a majority has acknowledged.
\<close>

section \<open>Entries that a log holds\<close>

definition holds :: "int \<Rightarrow> nat \<Rightarrow> 'c LogEntry list \<Rightarrow> bool" where
  "holds t n F \<longleftrightarrow> n < length F \<and> leTerm (F ! n) = t"

text \<open>Index \<open>n\<close> of the ledger of \<open>t\<close> is an entry of the term itself.\<close>

definition own :: "'c ledger \<Rightarrow> int \<Rightarrow> nat \<Rightarrow> bool" where
  "own H t n \<longleftrightarrow> (\<exists>L. H t = Some L \<and> holds t n L)"

text \<open>Some leader after \<open>t\<close>, of a term up to \<open>T\<close>, lacks the entry.\<close>

definition lost :: "'c ledger \<Rightarrow> int \<Rightarrow> nat \<Rightarrow> int \<Rightarrow> bool" where
  "lost H t n T \<longleftrightarrow> (\<exists>u L. t < u \<and> u \<le> T \<and> H u = Some L \<and> \<not> holds t n L)"

lemma lost_mono: "lost H t n T \<Longrightarrow> T \<le> T' \<Longrightarrow> lost H t n T'"
  by (force simp: lost_def)

definition succeeded :: "AppendEntriesReply call_state \<Rightarrow> bool" where
  "succeeded c = (case c of Waiting \<Rightarrow> False | Replied r \<Rightarrow> aerSuccess r | Handled r ok \<Rightarrow> aerSuccess r)"

lemma succeeded_simps [simp]:
  "\<not> succeeded Waiting" "succeeded (Replied r) = aerSuccess r" "succeeded (Handled r ok) = aerSuccess r"
  by (simp_all add: succeeded_def)

lemma succeeded_deliver: "succeeded (deliver r c) \<longleftrightarrow> (if c = Waiting then aerSuccess r else succeeded c)"
  by (cases c) (simp_all add: deliver_def)

text \<open>The last index that an \<^verbatim>\<open>AppendEntries\<close> call covers.\<close>

definition covers :: "'c AppendEntriesArgs \<Rightarrow> nat" where
  "covers args = nat (aePrevLogIndex args) + length (aeEntries args)"

text \<open>Peer \<open>p\<close> has acknowledged index \<open>n\<close> to the leader of term \<open>t\<close>, or is that leader.\<close>

definition acked :: "'c ledger \<Rightarrow> ('c, 's) Cluster \<Rightarrow> nat \<Rightarrow> int \<Rightarrow> nat \<Rightarrow> bool" where
  "acked H s p t n \<longleftrightarrow>
     (\<exists>c \<in> set (appends s). acTo c = p \<and> aeTerm (acArgs c) = t \<and> succeeded (acState c) \<and> n \<le> covers (acArgs c)) \<or>
     won s t p \<and> (\<exists>L. H t = Some L \<and> n < length L)"

definition committed :: "'c ledger \<Rightarrow> ('c, 's) Cluster \<Rightarrow> int \<Rightarrow> nat \<Rightarrow> bool" where
  "committed H s t n \<longleftrightarrow> own H t n \<and> (\<exists>Q. majority (size s) Q \<and> (\<forall>p \<in> Q. acked H s p t n))"

text \<open>The term that a restart would read.\<close>

definition savedTerm :: "('c, 's) Raft \<Rightarrow> int" where
  "savedTerm rf = (case savedState rf ! 0 of GInt t \<Rightarrow> t | _ \<Rightarrow> 0)"

section \<open>The invariant\<close>

definition ledger_sorted :: "'c ledger \<Rightarrow> bool" where
  "ledger_sorted H \<longleftrightarrow> (\<forall>t L. H t = Some L \<longrightarrow> sorted (map leTerm L) \<and> (\<forall>e \<in> set L. leTerm e \<le> t))"

text \<open>A call carries a segment of the ledger of its term.\<close>

definition append_from :: "'c ledger \<Rightarrow> 'c AppendEntriesArgs \<Rightarrow> bool" where
  "append_from H args \<longleftrightarrow> 0 \<le> aePrevLogIndex args \<and>
     (\<exists>L. H (aeTerm args) = Some L \<and> covers args < length L \<and> leTerm (L ! nat (aePrevLogIndex args)) = aePrevLogTerm args \<and>
        aeEntries args = take (length (aeEntries args)) (drop (Suc (nat (aePrevLogIndex args))) L))"

text \<open>What a peer has acknowledged is in its log, or a later leader lacks it.\<close>

definition kept :: "'c ledger \<Rightarrow> ('c, 's) Cluster \<Rightarrow> nat \<Rightarrow> bool" where
  "kept H s p \<longleftrightarrow> (\<forall>t n. own H t n \<longrightarrow> acked H s p t n \<longrightarrow>
     t \<le> savedTerm (nodes s p) \<and> (holds t n (Log (nodes s p)) \<or> lost H t n (savedTerm (nodes s p))))"

definition ahead :: "RequestVoteArgs \<Rightarrow> int \<Rightarrow> nat \<Rightarrow> bool" where
  "ahead args t n \<longleftrightarrow> t < rvLastLogTerm args \<or> t = rvLastLogTerm args \<and> int n \<le> rvLastLogIndex args"

text \<open>A vote in an undecided election.\<close>

definition vote_kept :: "'c ledger \<Rightarrow> ('c, 's) Cluster \<Rightarrow> RequestVoteArgs \<Rightarrow> nat \<Rightarrow> bool" where
  "vote_kept H s args p \<longleftrightarrow> rvTerm args \<le> savedTerm (nodes s p) \<and>
     (\<forall>t n. own H t n \<longrightarrow> acked H s p t n \<longrightarrow> t < rvTerm args \<longrightarrow> ahead args t n \<or> lost H t n (rvTerm args - 1))"

text \<open>The majority that elected the leader of \<open>u\<close>.\<close>

definition elected_by :: "'c ledger \<Rightarrow> ('c, 's) Cluster \<Rightarrow> int \<Rightarrow> 'c LogEntry list \<Rightarrow> nat set \<Rightarrow> bool" where
  "elected_by H s u L Q \<longleftrightarrow> majority (size s) Q \<and> (\<forall>p \<in> Q. u \<le> savedTerm (nodes s p) \<and>
     (\<forall>t n. own H t n \<longrightarrow> acked H s p t n \<longrightarrow> t < u \<longrightarrow> holds t n L \<or> lost H t n (u - 1)))"

definition candidate_ok :: "('c, 's) Cluster \<Rightarrow> Election \<Rightarrow> bool" where
  "candidate_ok s el \<longleftrightarrow>
     (let rf = nodes s (elCand el) in State rf = Candidate \<longrightarrow> CurrentTerm rf = rvTerm (elArgs el) \<longrightarrow>
        rvLastLogTerm (elArgs el) = leTerm (last (Log rf)) \<and> rvLastLogIndex (elArgs el) = lastIndex rf)"

definition complete :: "'c ledger \<Rightarrow> ('c, 's) Cluster \<Rightarrow> bool" where
  "complete H s \<longleftrightarrow> ledger_sorted H \<and>
     (\<forall>p < size s. LastIncludedIndex (nodes s p) = 0 \<and> kept H s p \<and>
        (\<forall>e \<in> set (Log (nodes s p)). leTerm e \<le> savedTerm (nodes s p))) \<and>
     (\<forall>c \<in> set (appends s). append_from H (acArgs c)) \<and> (\<forall>d \<in> set (snaps s). isLastIncludedIndex (scArgs d) = 0) \<and>
     (\<forall>el \<in> set (elections s). candidate_ok s el \<and>
        (H (rvTerm (elArgs el)) = None \<longrightarrow> (\<forall>p \<in> voters el. vote_kept H s (elArgs el) p))) \<and>
     (\<forall>u L. H u = Some L \<longrightarrow> u \<noteq> 0 \<longrightarrow> (\<exists>Q. elected_by H s u L Q))"

lemma completeD:
  assumes "complete H s"
  shows "ledger_sorted H" "p < size s \<Longrightarrow> LastIncludedIndex (nodes s p) = 0" "p < size s \<Longrightarrow> kept H s p"
    "p < size s \<Longrightarrow> e \<in> set (Log (nodes s p)) \<Longrightarrow> leTerm e \<le> savedTerm (nodes s p)"
    "c \<in> set (appends s) \<Longrightarrow> append_from H (acArgs c)" "d \<in> set (snaps s) \<Longrightarrow> isLastIncludedIndex (scArgs d) = 0"
    "el \<in> set (elections s) \<Longrightarrow> candidate_ok s el"
    "el \<in> set (elections s) \<Longrightarrow> H (rvTerm (elArgs el)) = None \<Longrightarrow> q \<in> voters el \<Longrightarrow> vote_kept H s (elArgs el) q"
    "H u = Some L \<Longrightarrow> u \<noteq> 0 \<Longrightarrow> \<exists>Q. elected_by H s u L Q"
  using assms by (auto simp: complete_def)

section \<open>Leader completeness\<close>

text \<open>Every leader of a later term has every committed entry.\<close>

lemma leader_completeness:
  assumes cp: "complete H s" and cm: "committed H s t n" and u: "t < u" "H u = Some L" and t: "0 < t"
  shows "holds t n L"
  using u
proof (induction "nat (u - t)" arbitrary: u L rule: less_induct)
  case less
  then have "u \<noteq> 0" using t by simp
  then obtain Q' where Q': "majority (size s) Q'"
      "\<And>p. p \<in> Q' \<Longrightarrow> own H t n \<Longrightarrow> acked H s p t n \<Longrightarrow> holds t n L \<or> lost H t n (u - 1)"
    using completeD(9) [OF cp less.prems(2)] less.prems(1) by (auto simp: elected_by_def)
  obtain Q where Q: "majority (size s) Q" "\<And>p. p \<in> Q \<Longrightarrow> acked H s p t n" and o: "own H t n"
    using cm by (auto simp: committed_def)
  obtain p where "p \<in> Q" "p \<in> Q'" using maj.intersect [OF Q(1) Q'(1)] by auto
  then consider "holds t n L" | "lost H t n (u - 1)" using Q(2) Q'(2) [OF _ o] by blast
  then show ?case
  proof cases
    case 2
    then obtain v M where v: "t < v" "v \<le> u - 1" "H v = Some M" "\<not> holds t n M" by (auto simp: lost_def)
    then show ?thesis using less.hyps [of v M] by simp
  qed
qed


section \<open>Facts on logs and stored terms\<close>

lemma savedTerm_persist [simp]: "savedTerm (persist rf) = CurrentTerm rf"
  by (simp add: savedTerm_def EncodeRaftState_def)

lemma savedTerm_reset [simp]: "savedTerm (resetTimer clk rf) = savedTerm rf"
  by (simp add: savedTerm_def)

lemma savedTerm_le: "durable rf \<Longrightarrow> savedTerm rf \<le> CurrentTerm rf"
  by (auto simp: durable_def savedTerm_def)

lemma promised_saved: "promised t c rf \<Longrightarrow> t \<le> savedTerm rf"
  by (auto simp: promised_def savedTerm_def binds_def)

text \<open>Keeping all promises includes keeping the stored term.\<close>

lemma savedTerm_mono:
  assumes "durable rf" "keeps_promises rf rf'"
  shows "savedTerm rf \<le> savedTerm rf'"
proof -
  obtain v where "savedState rf ! 0 = GInt (savedTerm rf)" "savedState rf ! 1 = GInt v" "savedTerm rf \<le> CurrentTerm rf"
    using assms(1) by (auto simp: durable_def savedTerm_def)
  then have "promised (savedTerm rf - 1) c rf" for c by (auto simp: promised_def binds_def)
  then have "promised (savedTerm rf - 1) 0 rf'" "promised (savedTerm rf - 1) 1 rf'"
    using assms(2) by (simp_all add: keeps_promises_def)
  then show ?thesis by (auto simp: promised_def savedTerm_def binds_def)
qed

lemma tail_holds: "tail_of 0 es F \<Longrightarrow> holds t n es \<longleftrightarrow> holds t n F"
  using tail_of_length [of 0 es F] tail_of_nth(1) [of 0 es F n] by (auto simp: holds_def)

lemma legit_sorted:
  assumes "legit H F" "ledger_sorted H"
  shows "sorted (map leTerm F)"
proof -
  let ?k = "length F - 1"
  have k: "?k < length F" using assms(1) by (simp add: legit_def)
  then obtain L where L: "H (leTerm (F ! ?k)) = Some L" "take (Suc ?k) F = take (Suc ?k) L"
    using assms(1) unfolding legit_def by blast
  have "take (Suc ?k) F = F" using k by simp
  then have "map leTerm F = take (Suc ?k) (map leTerm L)" using L(2) by (metis take_map)
  then show ?thesis using L(1) assms(2) by (simp add: ledger_sorted_def sorted_wrt_take)
qed

text \<open>The log of an entry's term has the entry.\<close>

lemma holds_own: "legit H F \<Longrightarrow> holds t n F \<Longrightarrow> own H t n"
  unfolding legit_def own_def holds_def by (metis lessI nth_take)

lemma same_term_below:
  assumes "legit H F" "tail_of 0 es F" "legit H L" and k: "k < length es" "k < length L"
    and "leTerm (es ! k) = leTerm (L ! k)" "m \<le> k"
  shows "leTerm (es ! m) = leTerm (L ! m)"
proof -
  have "take (Suc k) F = take (Suc k) L"
    using tail_of_length [OF assms(2)] tail_of_nth(1) [OF assms(2) k(1)] assms(6) k
    by (intro legit_match [OF assms(1,3)]) auto
  then have "F ! m = L ! m" using assms(7) by (metis le_imp_less_Suc nth_take)
  then show ?thesis using tail_of_nth(1) [OF assms(2), of m] k assms(7) by simp
qed

lemma mergeLog_prefix:
  "length ys \<le> length xs \<Longrightarrow> (\<And>i. i < length ys \<Longrightarrow> leTerm (xs ! i) = leTerm (ys ! i)) \<Longrightarrow> mergeLog xs ys = xs"
proof (induction xs ys rule: mergeLog.induct)
  case (3 x xs y ys)
  have "leTerm x = leTerm y" using 3(3) [of 0] by simp
  moreover have "mergeLog xs ys = xs" using 3(1) 3(2) 3(3) [of "Suc _"] calculation by auto
  ultimately show ?case by simp
qed auto

text \<open>Merging a segment of \<open>L\<close> into a log that agrees with \<open>L\<close> at the previous index: the
  result agrees with \<open>L\<close> over the segment, and wherever the log did before.\<close>

lemma merge_agrees:
  assumes F: "legit H F" "tail_of 0 es F" and L: "legit H L"
    and p: "p < length es" "leTerm (es ! p) = leTerm (L ! p)"
    and new: "new = take (length new) (drop (Suc p) L)" "p + length new < length L"
    and k: "k \<le> p + length new \<or> k < length es \<and> k < length L \<and> leTerm (es ! k) = leTerm (L ! k)"
  shows "holds (leTerm (L ! k)) k (take (Suc p) es @ mergeLog (drop (Suc p) es) new)" (is "holds _ _ ?R")
proof -
  note below = same_term_below [OF F L]
  have nth: "new ! i = L ! (Suc p + i)" if "i < length new" for i
  proof -
    have "new ! i = take (length new) (drop (Suc p) L) ! i" by (rule arg_cong [OF new(1)])
    then show ?thesis using that new(2) by simp
  qed
  have len: "length (take (Suc p) es) = Suc p" using p(1) by simp
  consider "k \<le> p" | "p < k" "k \<le> p + length new" | "p + length new < k" by linarith
  then show ?thesis
  proof cases
    case 1
    then have "?R ! k = es ! k" "k < length ?R" using len by (auto simp: nth_append)
    then show ?thesis using below [OF p(1) _ p(2) 1] new(2) by (simp add: holds_def)
  next
    case 2
    define i where "i = k - Suc p"
    then have i: "k = Suc p + i" "i < length new" using 2 by auto
    then have "?R ! k = mergeLog (drop (Suc p) es) new ! i" using len by (simp add: nth_append)
    moreover have "k < length ?R" using i length_mergeLog [of new "drop (Suc p) es"] len by simp
    ultimately show ?thesis using mergeLog_terms [OF i(2)] nth [OF i(2)] i(1) by (simp add: holds_def)
  next
    case 3
    then have ek: "k < length es" "k < length L" "leTerm (es ! k) = leTerm (L ! k)" using k by auto
    have "mergeLog (drop (Suc p) es) new = drop (Suc p) es"
    proof (rule mergeLog_prefix)
      show "length new \<le> length (drop (Suc p) es)" using 3 ek(1) by simp
      fix i
      assume i: "i < length new"
      then have "leTerm (es ! (Suc p + i)) = leTerm (L ! (Suc p + i))" using 3 by (intro below [OF ek]) simp
      then show "leTerm (drop (Suc p) es ! i) = leTerm (new ! i)" using nth [OF i] p(1) by (simp add: Suc_leI)
    qed
    then show ?thesis using ek by (simp add: holds_def)
  qed
qed


section \<open>Growing ledgers\<close>

text \<open>A term's log grows by entries of the term; a new term starts with none of its own.\<close>

definition grows :: "'c ledger \<Rightarrow> 'c ledger \<Rightarrow> bool" where
  "grows H H' \<longleftrightarrow>
     (\<forall>t L. H t = Some L \<longrightarrow> (\<exists>E. H' t = Some (L @ E) \<and> (\<forall>e \<in> set E. leTerm e = t))) \<and>
     (\<forall>t L. H t = None \<longrightarrow> H' t = Some L \<longrightarrow> (\<forall>e \<in> set L. leTerm e \<noteq> t))"

lemma grows_refl [simp]: "grows H H"
  by (simp add: grows_def)

lemma growsE:
  assumes "grows H H'" "H t = Some L"
  obtains E where "H' t = Some (L @ E)" "\<forall>e \<in> set E. leTerm e = t"
  using assms unfolding grows_def by blast

lemma holds_append: "holds t n F \<Longrightarrow> holds t n (F @ E)"
  by (auto simp: holds_def nth_append)

lemma holds_append_other: "\<forall>e \<in> set E. leTerm e \<noteq> t \<Longrightarrow> holds t n (F @ E) \<longleftrightarrow> holds t n F"
  by (auto simp: holds_def nth_append)

lemma lost_grows: "grows H H' \<Longrightarrow> lost H t n T \<Longrightarrow> lost H' t n T"
  unfolding lost_def by (metis growsE holds_append_other less_irrefl)

lemma own_grows: "grows H H' \<Longrightarrow> own H t n \<Longrightarrow> own H' t n"
  unfolding own_def by (metis growsE holds_append)

lemma append_from_grows:
  assumes g: "grows H H'" and a: "append_from H args"
  shows "append_from H' args"
proof -
  obtain L where L: "H (aeTerm args) = Some L" "covers args < length L" "0 \<le> aePrevLogIndex args"
      "leTerm (L ! nat (aePrevLogIndex args)) = aePrevLogTerm args"
      "aeEntries args = take (length (aeEntries args)) (drop (Suc (nat (aePrevLogIndex args))) L)"
    using a by (auto simp: append_from_def)
  obtain E where E: "H' (aeTerm args) = Some (L @ E)" using g L(1) by (rule growsE)
  have "take (length (aeEntries args)) (drop (Suc (nat (aePrevLogIndex args))) (L @ E)) = aeEntries args"
    using L(2,5) by (simp add: covers_def)
  then show ?thesis using E L(2-4) by (auto simp: append_from_def covers_def nth_append)
qed

section \<open>Preservation\<close>

text \<open>What a step may do: peer \<open>i\<close> moves on without forgetting, the ledger grows, and every new
  acknowledgement is one of \<open>i\<close>, of a term not before its own, for an entry that it now holds.\<close>

definition moves :: "'c ledger \<Rightarrow> ('c, 's) Cluster \<Rightarrow> 'c ledger \<Rightarrow> ('c, 's) Cluster \<Rightarrow> nat \<Rightarrow> bool" where
  "moves H s H' s' i \<longleftrightarrow> cluster_ok s \<and> size s' = size s \<and> grows H H' \<and> i < size s \<and>
     (\<forall>j. j \<noteq> i \<longrightarrow> nodes s' j = nodes s j) \<and> keeps_promises (nodes s i) (nodes s' i) \<and>
     (\<forall>p t n. own H' t n \<longrightarrow> acked H' s' p t n \<longrightarrow> own H t n \<and> acked H s p t n \<or>
        p = i \<and> CurrentTerm (nodes s i) \<le> t \<and> t \<le> savedTerm (nodes s' i) \<and> holds t n (Log (nodes s' i)))"

lemma moves_saved:
  assumes "moves H s H' s' i" "p < size s"
  shows "savedTerm (nodes s p) \<le> savedTerm (nodes s' p)"
proof (cases "p = i")
  case True
  moreover have "durable (nodes s i)" using assms cluster_okD(1) [of s i] by (auto simp: moves_def node_ok_def)
  ultimately show ?thesis using assms savedTerm_mono by (auto simp: moves_def)
qed (use assms in \<open>auto simp: moves_def\<close>)

text \<open>Acknowledgements of terms before one that the peer has stored are old.\<close>

lemma moves_old:
  assumes m: "moves H s H' s' i" and "p < size s" "own H' t n" "acked H' s' p t n" "t < savedTerm (nodes s p)"
  shows "own H t n \<and> acked H s p t n"
proof -
  have "durable (nodes s i)" using m cluster_okD(1) [of s i] by (auto simp: moves_def node_ok_def)
  then have "savedTerm (nodes s i) \<le> CurrentTerm (nodes s i)" by (rule savedTerm_le)
  then show ?thesis using assms by (fastforce simp: moves_def)
qed

lemma moves_kept:
  assumes m: "moves H s H' s' i" and kept: "kept H s p" and p: "p < size s"
    and log: "\<And>t n. p = i \<Longrightarrow> own H t n \<Longrightarrow> t \<le> savedTerm (nodes s i) \<Longrightarrow> holds t n (Log (nodes s i)) \<Longrightarrow>
      holds t n (Log (nodes s' i)) \<or> lost H' t n (savedTerm (nodes s' i))"
  shows "kept H' s' p"
  unfolding kept_def
proof (intro allI impI)
  fix t n
  assume o: "own H' t n" and a: "acked H' s' p t n"
  note sv = moves_saved [OF m p]
  show "t \<le> savedTerm (nodes s' p) \<and> (holds t n (Log (nodes s' p)) \<or> lost H' t n (savedTerm (nodes s' p)))"
  proof (cases "own H t n \<and> acked H s p t n")
    case True
    then have k: "t \<le> savedTerm (nodes s p)" "holds t n (Log (nodes s p)) \<or> lost H t n (savedTerm (nodes s p))"
      using kept by (auto simp: kept_def)
    moreover have "grows H H'" using m by (simp add: moves_def)
    ultimately have "lost H t n (savedTerm (nodes s p)) \<Longrightarrow> lost H' t n (savedTerm (nodes s' p))"
      using lost_grows lost_mono sv by blast
    moreover have "p \<noteq> i \<Longrightarrow> nodes s' p = nodes s p" using m by (simp add: moves_def)
    ultimately show ?thesis using k sv log True by (cases "p = i") auto
  next
    case False
    then show ?thesis using m o a by (auto simp: moves_def)
  qed
qed

lemma moves_vote_kept:
  assumes m: "moves H s H' s' i" and v: "vote_kept H s args p" and p: "p < size s"
  shows "vote_kept H' s' args p"
  unfolding vote_kept_def
proof (intro conjI allI impI)
  have r: "rvTerm args \<le> savedTerm (nodes s p)" using v by (simp add: vote_kept_def)
  then show "rvTerm args \<le> savedTerm (nodes s' p)" using moves_saved [OF m p] by simp
  fix t n
  assume a: "own H' t n" "acked H' s' p t n" "t < rvTerm args"
  then have "own H t n \<and> acked H s p t n" using r by (intro moves_old [OF m p]) auto
  then have "ahead args t n \<or> lost H t n (rvTerm args - 1)" using v a(3) by (simp add: vote_kept_def)
  moreover have "grows H H'" using m by (simp add: moves_def)
  ultimately show "ahead args t n \<or> lost H' t n (rvTerm args - 1)" using lost_grows by blast
qed

lemma moves_elected:
  assumes m: "moves H s H' s' i" and e: "elected_by H s u L Q"
  shows "elected_by H' s' u (L @ E) Q"
  unfolding elected_by_def
proof (intro conjI ballI allI impI)
  have size: "size s' = size s" and g: "grows H H'" using m by (simp_all add: moves_def)
  show "majority (size s') Q" using e size by (simp add: elected_by_def)
  fix p
  assume pQ: "p \<in> Q"
  then have p: "p < size s" and u: "u \<le> savedTerm (nodes s p)" using e by (auto simp: elected_by_def majority_def)
  show "u \<le> savedTerm (nodes s' p)" using u moves_saved [OF m p] by simp
  fix t n
  assume a: "own H' t n" "acked H' s' p t n" "t < u"
  then have "own H t n \<and> acked H s p t n" using u by (intro moves_old [OF m p]) auto
  then have "holds t n L \<or> lost H t n (u - 1)" using e pQ a(3) by (simp add: elected_by_def)
  then show "holds t n (L @ E) \<or> lost H' t n (u - 1)" using lost_grows [OF g] holds_append by blast
qed


text \<open>The calls of the next state.\<close>

definition calls_complete :: "'c ledger \<Rightarrow> ('c, 's) Cluster \<Rightarrow> 'c ledger \<Rightarrow> ('c, 's) Cluster \<Rightarrow> bool" where
  "calls_complete H s H' s' \<longleftrightarrow>
     (\<forall>c \<in> set (appends s'). acArgs c \<in> acArgs ` set (appends s) \<or> append_from H' (acArgs c)) \<and>
     (\<forall>d \<in> set (snaps s'). scArgs d \<in> scArgs ` set (snaps s) \<or> isLastIncludedIndex (scArgs d) = 0) \<and>
     (\<forall>el' \<in> set (elections s'). candidate_ok s' el' \<and> (\<forall>p \<in> voters el'. p < size s \<and>
        ((\<exists>el \<in> set (elections s). elArgs el = elArgs el' \<and> p \<in> voters el) \<or>
         (H' (rvTerm (elArgs el')) = None \<longrightarrow> vote_kept H' s' (elArgs el') p))))"

lemma complete_next:
  assumes cp: "complete H s" and m: "moves H s H' s' i" and calls: "calls_complete H s H' s'"
    and srt: "ledger_sorted H'" and base: "LastIncludedIndex (nodes s' i) = 0"
    and log: "\<And>t n. own H t n \<Longrightarrow> t \<le> savedTerm (nodes s i) \<Longrightarrow> holds t n (Log (nodes s i)) \<Longrightarrow>
      holds t n (Log (nodes s' i)) \<or> lost H' t n (savedTerm (nodes s' i))"
    and terms: "\<And>e. e \<in> set (Log (nodes s' i)) \<Longrightarrow> leTerm e \<le> savedTerm (nodes s' i)"
    and new: "\<And>u L. H u = None \<Longrightarrow> H' u = Some L \<Longrightarrow> \<exists>Q. elected_by H' s' u L Q"
  shows "complete H' s'"
  unfolding complete_def
proof (intro conjI allI ballI impI)
  have size: "size s' = size s" and g: "grows H H'" and others: "\<And>j. j \<noteq> i \<Longrightarrow> nodes s' j = nodes s j"
    using m by (simp_all add: moves_def)
  show "ledger_sorted H'" by (rule srt)
  fix p
  assume "p < size s'"
  then have p: "p < size s" by (simp add: size)
  show "LastIncludedIndex (nodes s' p) = 0" using base others completeD(2) [OF cp p] by (cases "p = i") auto
  show "kept H' s' p" using moves_kept [OF m completeD(3) [OF cp p] p] log by blast
  show "leTerm e \<le> savedTerm (nodes s' p)" if "e \<in> set (Log (nodes s' p))" for e
    using that terms others completeD(4) [OF cp p] by (cases "p = i") auto
next
  fix c
  assume "c \<in> set (appends s')"
  moreover have "append_from H (acArgs d) \<Longrightarrow> append_from H' (acArgs d)" for d :: "'a AppendCall"
    using m append_from_grows by (auto simp: moves_def)
  ultimately show "append_from H' (acArgs c)"
    using calls completeD(5) [OF cp] by (fastforce simp: calls_complete_def)
next
  fix d
  assume "d \<in> set (snaps s')"
  then show "isLastIncludedIndex (scArgs d) = 0" using calls completeD(6) [OF cp] by (fastforce simp: calls_complete_def)
next
  fix el'
  assume el': "el' \<in> set (elections s')"
  then show "candidate_ok s' el'" using calls by (simp add: calls_complete_def)
  fix p
  assume none: "H' (rvTerm (elArgs el')) = None" and p: "p \<in> voters el'"
  have "H (rvTerm (elArgs el')) = None"
    using none m by (cases "H (rvTerm (elArgs el'))") (auto simp: moves_def elim: growsE)
  then show "vote_kept H' s' (elArgs el') p"
    using calls el' none p moves_vote_kept [OF m completeD(8) [OF cp]] unfolding calls_complete_def by metis
next
  fix u L
  assume u: "H' u = Some L" "u \<noteq> 0"
  show "\<exists>Q. elected_by H' s' u L Q"
  proof (cases "H u")
    case None
    then show ?thesis using new u(1) by blast
  next
    case (Some M)
    have g: "grows H H'" using m by (simp add: moves_def)
    obtain E where "H' u = Some (M @ E)" using g Some by (rule growsE)
    then have "L = M @ E" using u(1) by simp
    moreover obtain Q where "elected_by H s u M Q" using completeD(9) [OF cp Some u(2)] by blast
    ultimately show ?thesis using moves_elected [OF m] by blast
  qed
qed


section \<open>Steps that leave the logs alone\<close>

text \<open>The winner of a term in the ledger does not change.\<close>

lemma won_back:
  assumes ms: "matching_step H s s'" and mt': "matching H' s'" and "H t \<noteq> None" "won s' t p"
  shows "won s t p"
proof -
  have "t \<noteq> 0" using won_positive [OF mt' assms(4)] by simp
  then obtain i where i: "won s t i" using assms(1,3) matchingD(2) [of H s] by (auto simp: matching_step_def led_ok_def)
  then have "won s' t i" using ms won_history [of s t i s'] by (simp add: matching_step_def)
  then have "i = p" using ms assms(4) won_unique [of s' t i p] by (simp add: matching_step_def)
  then show ?thesis using i by simp
qed

text \<open>No call has been acknowledged anew.\<close>

definition acks_from :: "('c, 's) Cluster \<Rightarrow> ('c, 's) Cluster \<Rightarrow> bool" where
  "acks_from s s' \<longleftrightarrow> (\<forall>c' \<in> set (appends s'). succeeded (acState c') \<longrightarrow>
     (\<exists>c \<in> set (appends s). acTo c = acTo c' \<and> acArgs c = acArgs c' \<and> succeeded (acState c)))"

lemma acked_back:
  assumes "matching_step H s s'" "matching H' s'" "acks_from s s'" "acked H s' p t n"
  shows "acked H s p t n"
  using assms(4) won_back [OF assms(1,2)] assms(3) by (fastforce simp: acked_def acks_from_def)

lemma complete_same:
  assumes ms: "matching_step H s s'" and mt': "matching H s'" and cp: "complete H s"
    and nodes: "nodes s' = (nodes s)(i := rf)" and i: "i < size s" and keep: "keeps_promises (nodes s i) rf"
    and same: "sameLog (nodes s i) rf" and calls: "calls_complete H s H s'" and acks: "acks_from s s'"
  shows "complete H s'"
proof -
  have ok: "cluster_ok s" and size: "size s' = size s" using ms by (simp_all add: matching_step_def history_extends_def)
  have m: "moves H s H s' i"
    using ok size i keep acked_back [OF ms mt' acks] by (auto simp: moves_def nodes)
  show ?thesis
  proof (rule complete_next [OF cp m calls completeD(1) [OF cp]])
    show "LastIncludedIndex (nodes s' i) = 0" using same completeD(2) [OF cp i] by (simp add: nodes sameLog_def)
    show "leTerm e \<le> savedTerm (nodes s' i)" if "e \<in> set (Log (nodes s' i))" for e
      using that same completeD(4) [OF cp i, of e] moves_saved [OF m i] by (simp add: nodes sameLog_def)
  qed (use same nodes in \<open>auto simp: sameLog_def\<close>)
qed

text \<open>A candidate goes on with the same log in the same term.\<close>

definition stands :: "('c, 's) Raft \<Rightarrow> ('c, 's) Raft \<Rightarrow> bool" where
  "stands rf rf' \<longleftrightarrow> (State rf' = Candidate \<longrightarrow>
     State rf = Candidate \<and> CurrentTerm rf' = CurrentTerm rf \<and> sameLog rf rf')"

lemma stands_quiet: "quiet rf rf' \<Longrightarrow> sameLog rf rf' \<Longrightarrow> stands rf rf'"
  by (auto simp: quiet_def stands_def)

lemma candidate_ok_stands:
  assumes "candidate_ok s el" "nodes s' = (nodes s)(i := rf)" "stands (nodes s i) rf"
    and "elCand el' = elCand el" "elArgs el' = elArgs el"
  shows "candidate_ok s' el'"
  using assms by (auto simp: candidate_ok_def stands_def sameLog_def lastIndex_def Let_def)

text \<open>Calls are kept or, when new, in order.\<close>

definition calls_from :: "'c ledger \<Rightarrow> ('c, 's) Cluster \<Rightarrow> ('c, 's) Cluster \<Rightarrow> bool" where
  "calls_from H s s' \<longleftrightarrow>
     (\<forall>c \<in> set (appends s'). acArgs c \<in> acArgs ` set (appends s) \<or> append_from H (acArgs c)) \<and>
     (\<forall>d \<in> set (snaps s'). scArgs d \<in> scArgs ` set (snaps s) \<or> isLastIncludedIndex (scArgs d) = 0) \<and>
     (\<forall>el' \<in> set (elections s'). \<exists>el \<in> set (elections s).
        elArgs el' = elArgs el \<and> elCand el' = elCand el \<and> voters el' = voters el)"

lemma calls_from_complete:
  assumes ok: "cluster_ok s" and cp: "complete H s" and c: "calls_from H' s s'" and nodes: "nodes s' = (nodes s)(i := rf)"
    and st: "stands (nodes s i) rf"
  shows "calls_complete H s H' s'"
proof -
  have "candidate_ok s' el' \<and> (\<forall>p \<in> voters el'. p < size s \<and> (\<exists>el \<in> set (elections s). elArgs el = elArgs el' \<and> p \<in> voters el))"
    if el': "el' \<in> set (elections s')" for el'
  proof -
    obtain el where el: "el \<in> set (elections s)" "elArgs el' = elArgs el" "elCand el' = elCand el" "voters el' = voters el"
      using c el' by (auto simp: calls_from_def)
    then show ?thesis
      using candidate_ok_stands [OF completeD(7) [OF cp el(1)] nodes st el(3,2)] cluster_okD(2) [OF ok el(1)]
      by (auto simp: el_ok_def)
  qed
  then show ?thesis using c unfolding calls_complete_def calls_from_def by blast
qed

lemma complete_quiet:
  assumes ms: "matching_step H s s'" and mt': "matching H s'" and cp: "complete H s"
    and nodes: "nodes s' = (nodes s)(i := rf)" and i: "i < size s" and keep: "keeps_promises (nodes s i) rf"
    and q: "quiet (nodes s i) rf" and same: "sameLog (nodes s i) rf" and c: "calls_from H s s'" and acks: "acks_from s s'"
  shows "complete H s'"
proof -
  have "cluster_ok s" using ms by (simp add: matching_step_def)
  then have "calls_complete H s H s'" using calls_from_complete [OF _ cp c nodes stands_quiet [OF q same]] by simp
  from complete_same [OF ms mt' cp nodes i keep same this acks] show ?thesis .
qed


text \<open>What every step knows.\<close>

definition complete_step :: "'c ledger \<Rightarrow> ('c, 's) Cluster \<Rightarrow> ('c, 's) Cluster \<Rightarrow> bool" where
  "complete_step H s s' \<longleftrightarrow> matching_step H s s' \<and> complete H s"

lemma complete_stepD:
  assumes "complete_step H s s'"
  shows "matching_step H s s'" "complete H s" "cluster_ok s" "cluster_ok s'" "matching H s" "history_extends s s'"
    "size s' = size s"
  using assms by (auto simp: complete_step_def matching_step_def history_extends_def)

lemma calls_from_update:
  "k < length (appends s) \<Longrightarrow> acArgs c = acArgs (appends s ! k) \<Longrightarrow>
     calls_from H s (setNode i rf (s\<lparr>appends := (appends s)[k := c]\<rparr>))"
  "k < length (snaps s) \<Longrightarrow> scArgs d = scArgs (snaps s ! k) \<Longrightarrow>
     calls_from H s (setNode i rf (s\<lparr>snaps := (snaps s)[k := d]\<rparr>))"
  "calls_from H s (setNode i rf s)" "calls_from H s (setNode i rf (s\<lparr>epochs := e\<rparr>))"
  by (auto simp: calls_from_def dest!: set_update_subset_insert [THEN subsetD] intro: bexI [of _ "_ :: Election"])

lemma acks_from_same: "appends s' = appends s \<Longrightarrow> acks_from s s'"
  by (auto simp: acks_from_def)

lemma acks_from_update:
  assumes "k < length (appends s)" "acTo c = acTo (appends s ! k)" "acArgs c = acArgs (appends s ! k)"
    and "succeeded (acState c) \<Longrightarrow> succeeded (acState (appends s ! k))" "appends s' = (appends s)[k := c]"
  shows "acks_from s s'"
  unfolding acks_from_def
proof (intro ballI impI)
  fix c'
  assume "c' \<in> set (appends s')" "succeeded (acState c')"
  then have "c' \<in> set (appends s) \<or> c' = c" using assms(5) set_update_subset_insert by fastforce
  then show "\<exists>d \<in> set (appends s). acTo d = acTo c' \<and> acArgs d = acArgs c' \<and> succeeded (acState d)"
    using assms(1-4) \<open>succeeded (acState c')\<close> nth_mem [OF assms(1)] by auto
qed

lemma send_complete:
  assumes cs: "complete_step H s s'" and i: "i < size s" and st: "stepSendTo i j s = Some s'"
  shows "complete H s'"
proof -
  note D = complete_stepD [OF cs]
  let ?rf = "nodes s i"
  obtain out where p: "PrepareEntries j ?rf = Some out" using st by (auto simp: stepSendTo_def bind_Some_iff)
  have wf: "wf_raft ?rf" using cluster_okD(1) [OF D(3) i] by (simp add: node_ok_def)
  note b = completeD(2) [OF D(2) i]
  from wf p have "nodes s' = (nodes s)(i := ?rf) \<and> calls_from H s s' \<and> acks_from s s'"
  proof (cases rule: PrepareEntries_cases)
    case nothing
    then show ?thesis using st p by (auto simp: stepSendTo_def calls_from_def acks_from_def)
  next
    case (snapshot args)
    then show ?thesis using st p b by (auto simp: stepSendTo_def calls_from_def acks_from_def)
  next
    case (entries args k)
    then obtain L where L: "H (CurrentTerm ?rf) = Some L" "tail_of 0 (Log ?rf) L"
      using matchingD(4) [OF D(5) i] b by (auto simp: lead_ok_def)
    note len = tail_of_length [OF L(2)]
    have pr: "nat (aePrevLogIndex args) = k - 1" "0 \<le> aePrevLogIndex args" using entries(5,7) b by auto
    have "append_from H args"
      unfolding append_from_def
    proof (intro conjI exI [of _ L])
      show "covers args < length L" using pr entries(5,6,9) len by (simp add: covers_def)
      show "leTerm (L ! nat (aePrevLogIndex args)) = aePrevLogTerm args"
        using pr entries(5,6,8) tail_of_nth(1) [OF L(2), of "k - 1"] by simp
      have "aeEntries args = drop (Suc (nat (aePrevLogIndex args))) L"
        using pr entries(5,9) tail_of_drop_Suc [OF L(2) entries(5)] by simp
      then show "aeEntries args = take (length (aeEntries args)) (drop (Suc (nat (aePrevLogIndex args))) L)" by simp
    qed (use L entries pr in simp_all)
    then show ?thesis using st p entries(1) by (auto simp: stepSendTo_def calls_from_def acks_from_def)
  qed
  then show ?thesis
    using send_matching [OF D(1) i st]
    by (intro complete_quiet [OF D(1) _ D(2) _ i, of ?rf]) (auto simp: keeps_promises_def quiet_def sameLog_def)
qed

lemma handle_append_complete:
  assumes cs: "complete_step H s s'" and k: "k < length (appends s)" and st: "stepHandleAppend k okay s = Some s'"
  shows "complete H s'"
proof (cases "acState (appends s ! k)")
  case (Replied r)
  note D = complete_stepD [OF cs]
  let ?c = "appends s ! k" let ?i = "acFrom ?c" let ?rep = "if okay then Some r else None"
  obtain rf where hr: "HandleAppendReply (acTo ?c) (acArgs ?c) ?rep (nodes s ?i) = Some rf"
    and s': "s' = (setNode ?i rf s)\<lparr>appends := (appends s)[k := ?c\<lparr>acState := Handled r okay\<rparr>]\<rparr>"
    using st Replied by (auto simp: stepHandleAppend_def bind_Some_iff Let_def)
  from cluster_okD(4) [OF D(3), of ?c] k have i: "?i < size s" and j: "acTo ?c < size s" by (auto simp: append_ok_def)
  have wf: "wf_raft (nodes s ?i)" "acTo ?c < peers (nodes s ?i)"
    using j cluster_okD(1) [OF D(3) i] by (simp_all add: node_ok_def)
  note keep = HandleAppendReply_keeps [OF wf hr]
  have "acks_from s s'" using k Replied s' by (intro acks_from_update [OF k, of "?c\<lparr>acState := Handled r okay\<rparr>"]) auto
  then show ?thesis
    using keeps_promises_evolves [OF keep(3,4)] HandleAppendReply_quiet [OF wf hr] HandleAppendReply_sameLog [OF wf hr]
      calls_from_update(1) [OF k] s' handle_append_matching [OF D(1) k st]
    by (intro complete_quiet [OF D(1) _ D(2) _ i, of rf]) auto
qed (use cs st in \<open>auto simp: stepHandleAppend_def complete_step_def\<close>)

lemma handle_snap_complete:
  assumes cs: "complete_step H s s'" and k: "k < length (snaps s)" and st: "stepHandleSnap k okay s = Some s'"
  shows "complete H s'"
proof (cases "scState (snaps s ! k)")
  case (Replied r)
  note D = complete_stepD [OF cs]
  let ?c = "snaps s ! k" let ?i = "scFrom ?c" let ?rep = "if okay then Some r else None"
  obtain rf where hr: "HandleSnapReply (scTo ?c) (scArgs ?c) ?rep (nodes s ?i) = Some rf"
    and s': "s' = (setNode ?i rf s)\<lparr>snaps := (snaps s)[k := ?c\<lparr>scState := Handled r okay\<rparr>]\<rparr>"
    using st Replied by (auto simp: stepHandleSnap_def bind_Some_iff Let_def)
  from cluster_okD(5) [OF D(3), of ?c] k have i: "?i < size s" and j: "scTo ?c < size s" by (auto simp: snap_ok_def)
  have wf: "wf_raft (nodes s ?i)" "scTo ?c < peers (nodes s ?i)"
    using j cluster_okD(1) [OF D(3) i] by (simp_all add: node_ok_def)
  note keep = HandleSnapReply_keeps [OF wf hr]
  show ?thesis
    using keeps_promises_evolves [OF keep(3,4)] HandleSnapReply_quiet [OF wf hr] HandleSnapReply_sameLog [OF wf hr]
      calls_from_update(2) [OF k] s' handle_snap_matching [OF D(1) k st]
    by (intro complete_quiet [OF D(1) _ D(2) _ i, of rf]) (auto intro: acks_from_same)
qed (use cs st in \<open>auto simp: stepHandleSnap_def complete_step_def\<close>)

lemma fire_snap_complete:
  assumes cs: "complete_step H s s'" and k: "k < length (snaps s)" and st: "stepFireSnap k s = s'"
  shows "complete H s'"
proof -
  note D = complete_stepD [OF cs]
  let ?i = "scFrom (snaps s ! k)"
  obtain rf sent where f: "sendSnapShot (nodes s ?i) = (rf, sent)" by fastforce
  have i: "?i < size s" using cluster_okD(5) [OF D(3), of "snaps s ! k"] k by (auto simp: snap_ok_def)
  have "rf = nodes s ?i \<or> rf = (nodes s ?i)\<lparr>mu := True\<rparr>" using f by (auto simp: sendSnapShot_def split: if_splits)
  then have "keeps_promises (nodes s ?i) rf" "quiet (nodes s ?i) rf" "sameLog (nodes s ?i) rf"
    by (auto simp: keeps_promises_def promised_def savedState_def quiet_def sameLog_def)
  then show ?thesis
    using st f calls_from_update(2) [OF k] fire_snap_matching [OF D(1) k st]
    by (intro complete_quiet [OF D(1) _ D(2) _ i, of rf]) (auto simp: stepFireSnap_def Let_def intro: acks_from_same)
qed

lemma deliver_snap_complete:
  assumes cs: "complete_step H s s'" and k: "k < length (snaps s)" and st: "stepDeliverSnap k clk s = s'"
  shows "complete H s'"
proof -
  note D = complete_stepD [OF cs]
  let ?c = "snaps s ! k" let ?j = "scTo ?c"
  obtain rf r where f: "InstallSnapShot clk (scArgs ?c) (nodes s ?j) = (rf, r)" by fastforce
  from cluster_okD(5) [OF D(3), of ?c] k have j: "?j < size s" and v: "valid_snapshot (scArgs ?c)"
    by (auto simp: snap_ok_def)
  have "isLastIncludedIndex (scArgs ?c) = 0" using completeD(6) [OF D(2), of ?c] k by simp
  with f have "sameLog (nodes s ?j) rf"
    by (cases rule: InstallSnapShot_cases) (use completeD(2) [OF D(2) j] in \<open>auto simp: sameLog_def\<close>)
  moreover have "keeps_promises (nodes s ?j) rf"
    using install.op_node_ok [OF cluster_okD(1) [OF D(3) j], of "(clk, scArgs ?c)" rf r] f v by simp
  ultimately show ?thesis
    using st f calls_from_update(2) [OF k] deliver_snap_matching [OF D(1) k st] InstallSnapShot_quiet [OF f]
    by (intro complete_quiet [OF D(1) _ D(2) _ j, of rf]) (auto simp: stepDeliverSnap_def Let_def intro: acks_from_same)
qed

lemma crash_complete:
  assumes cs: "complete_step H s s'" and i: "i < size s" and st: "stepCrash i clk s = Some s'"
  shows "complete H s'"
proof -
  note D = complete_stepD [OF cs]
  obtain rf where r: "Make (size s) i (Copy (persister (nodes s i))) clk = Some rf" "keeps_promises (nodes s i) rf"
      "State rf = Follower" "Log rf = Log (nodes s i)" "LastIncludedIndex rf = LastIncludedIndex (nodes s i)"
    by (rule restart_keeps [OF cluster_okD(1) [OF D(3) i]])
  then show ?thesis
    using st calls_from_update(4) crash_matching [OF D(1) i st]
    by (intro complete_quiet [OF D(1) _ D(2) _ i, of rf])
      (auto simp: stepCrash_def quiet_def sameLog_def intro: acks_from_same)
qed


section \<open>Votes\<close>

lemma log_full:
  assumes "matching H s" "complete H s" "p < size s"
  obtains F where "legit H F" "tail_of 0 (Log (nodes s p)) F"
  using matchingD(3) [OF assms(1,3)] completeD(2) [OF assms(2,3)] by (auto simp: log_ok_def)

lemma tail_terms: "tail_of 0 es F \<Longrightarrow> map leTerm es = map leTerm F"
  using tail_of_length [of 0 es F] tail_of_nth(1) [of 0 es F] by (intro nth_equalityI) auto

lemma tail_last: "tail_of 0 es F \<Longrightarrow> leTerm (last es) = leTerm (last F) \<and> es \<noteq> [] \<and> F \<noteq> []"
  using tail_terms [of es F] by (metis last_map list.map_disc_iff tail_of_def list.distinct(1))

lemma last_sorted:
  assumes "sorted (map leTerm F)" "holds t n F"
  shows "t \<le> leTerm (last F)"
proof -
  have "F \<noteq> []" using assms(2) by (auto simp: holds_def)
  moreover have "leTerm (F ! n) \<le> leTerm (F ! (length F - 1))"
    using assms sorted_nth_mono [OF assms(1), of n "length F - 1"] by (auto simp: holds_def)
  ultimately show ?thesis using assms(2) by (simp add: holds_def last_conv_nth)
qed

text \<open>A voter whose log is not ahead of the candidate's: what the voter has acknowledged, the
  candidate has too, or a leader in between lacks it.\<close>

lemma vote_ahead:
  assumes mt: "matching H s" and cp: "complete H s" and p: "p < size s"
    and up: "leTerm (last (Log (nodes s p))) < rvLastLogTerm args \<or>
      leTerm (last (Log (nodes s p))) = rvLastLogTerm args \<and> lastIndex (nodes s p) \<le> rvLastLogIndex args"
    and sv: "savedTerm (nodes s p) \<le> rvTerm args" and none: "H (rvTerm args) = None"
    and a: "own H t n" "acked H s p t n"
  shows "ahead args t n \<or> lost H t n (rvTerm args - 1)"
proof -
  let ?log = "Log (nodes s p)"
  have "holds t n ?log \<or> lost H t n (savedTerm (nodes s p))" using completeD(3) [OF cp p] a by (simp add: kept_def)
  then show ?thesis
  proof
    assume h: "holds t n ?log"
    obtain F where F: "legit H F" "tail_of 0 ?log F" using mt cp p by (rule log_full)
    have "sorted (map leTerm ?log)" using legit_sorted [OF F(1) completeD(1) [OF cp]] tail_terms [OF F(2)] by simp
    from last_sorted [OF this h] have "t \<le> leTerm (last ?log)" .
    moreover have "int n \<le> lastIndex (nodes s p)"
      using h completeD(2) [OF cp p] by (simp add: holds_def lastIndex_def)
    ultimately show ?thesis using up by (auto simp: ahead_def)
  next
    assume "lost H t n (savedTerm (nodes s p))"
    then obtain u L where u: "t < u" "u \<le> savedTerm (nodes s p)" "H u = Some L" "\<not> holds t n L" by (auto simp: lost_def)
    then have "u \<noteq> rvTerm args" using none by auto
    then show ?thesis using u sv unfolding lost_def by (intro disjI2 exI [of _ u] exI [of _ L]) simp
  qed
qed

lemma RequestVote_up_to_date:
  assumes "RequestVote clk args rf = Some (rf', r)" "rvrVoteGrabted r" "wf_raft rf"
  shows "leTerm (last (Log rf)) < rvLastLogTerm args \<or>
      leTerm (last (Log rf)) = rvLastLogTerm args \<and> lastIndex rf \<le> rvLastLogIndex args" "CurrentTerm rf \<le> rvTerm args"
  using assms last_leIndex [OF assms(3)] by (auto elim!: RequestVote_cases)

lemma deliver_vote_complete:
  assumes cs: "complete_step H s s'" and k: "k < length (elections s)" and j: "j < size s"
    and st: "stepDeliverVote k j clk s = Some s'"
  shows "complete H s'"
proof -
  note D = complete_stepD [OF cs]
  let ?el = "elections s ! k"
  obtain rf r where v: "RequestVote clk (elArgs ?el) (nodes s j) = Some (rf, r)"
    and s': "s' = (setNode j rf s)\<lparr>elections := (elections s)[k :=
          ?el\<lparr>elCalls := (elCalls ?el)(j := deliver r (elCalls ?el j))\<rparr>]\<rparr>" (is "_ = _\<lparr>elections := _[k := ?el']\<rparr>")
    using st by (auto simp: stepDeliverVote_def bind_Some_iff Let_def)
  have n: "node_ok (size s) j (nodes s j)" by (rule cluster_okD(1) [OF D(3) j])
  then have wf: "wf_raft (nodes s j)" and du: "durable (nodes s j)" by (simp_all add: node_ok_def)
  have nodes: "nodes s' = (nodes s)(j := rf)" and acks: "acks_from s s'" by (auto simp: s' acks_from_same)
  note mt' = deliver_vote_matching [OF D(1) k j st]
  have new: "vote_kept H s' (elArgs ?el) j" if g: "rvrVoteGrabted r" and none: "H (rvTerm (elArgs ?el)) = None"
    unfolding vote_kept_def
  proof (intro conjI allI impI)
    show "rvTerm (elArgs ?el) \<le> savedTerm (nodes s' j)"
      using promised_saved [OF RequestVote_promises(3) [OF v g]] by (simp add: nodes)
    fix t m
    assume "own H t m" "acked H s' j t m"
    then show "ahead (elArgs ?el) t m \<or> lost H t m (rvTerm (elArgs ?el) - 1)"
      using RequestVote_up_to_date [OF v g wf] savedTerm_le [OF du] acked_back [OF D(1) mt' acks]
      by (intro vote_ahead [OF D(5,2) j _ _ none]) auto
  qed
  have vot: "voters ?el' \<subseteq> (if rvrVoteGrabted r then insert j (voters ?el) else voters ?el)"
    by (auto simp: voters_def split: if_splits)
  have cand: "candidate_ok s' b" if "a \<in> set (elections s)" "elCand b = elCand a" "elArgs b = elArgs a" for a b
    using candidate_ok_stands [OF completeD(7) [OF D(2) that(1)] nodes _ that(2,3)]
      stands_quiet [OF RequestVote_quiet [OF v] RequestVote_sameLog [OF v]] by simp
  have old: "p < size s" if "a \<in> set (elections s)" "p \<in> voters a" for a p
    using cluster_okD(2) [OF D(3) that(1)] that(2) by (simp add: el_ok_def)
  have "candidate_ok s' a \<and> (\<forall>p \<in> voters a. p < size s \<and>
        ((\<exists>el \<in> set (elections s). elArgs el = elArgs a \<and> p \<in> voters el) \<or>
         (H (rvTerm (elArgs a)) = None \<longrightarrow> vote_kept H s' (elArgs a) p)))" if a: "a \<in> set (elections s')" for a
  proof (cases "a = ?el'")
    case True
    have "\<exists>el \<in> set (elections s). elArgs el = elArgs ?el \<and> p \<in> voters el" if "p \<in> voters ?el" for p
      using that k by (intro bexI [of _ ?el]) auto
    then show ?thesis
      using True vot new j k cand [of ?el ?el'] old [of ?el] by (auto split: if_splits)
  next
    case False
    then have "a \<in> set (elections s)" using a set_update_subset_insert [of "elections s" k ?el'] by (auto simp: s')
    then show ?thesis using cand old by blast
  qed
  then have "calls_complete H s H s'" by (auto simp: calls_complete_def s')
  then show ?thesis
    using rv.op_node_ok [OF n, of "(clk, elArgs ?el)" rf r] v RequestVote_sameLog [OF v]
    by (intro complete_same [OF D(1) mt' D(2) nodes j _ _ _ acks]) auto
qed


lemma elect_complete:
  assumes cs: "complete_step H s s'" and i: "i < size s" and st: "stepElect i clk s = Some s'"
  shows "complete H s'"
proof -
  note D = complete_stepD [OF cs]
  obtain rf args v where a: "AttemptElection clk (nodes s i) = Some (rf, args, v)"
    and s': "s' = (setNode i rf s)\<lparr>elections := elections s @
       [\<lparr>elCand = i, elEpoch = epochs s i, elArgs = args, elVotes = v, elCalls = (\<lambda>_. Waiting)\<rparr>]\<rparr>"
      (is "_ = _\<lparr>elections := _ @ [?el]\<rparr>")
    using st by (auto simp: stepElect_def bind_Some_iff)
  note A = AttemptElection_Some [OF a]
  have n: "node_ok (size s) i (nodes s i)" by (rule cluster_okD(1) [OF D(3) i])
  then have wf: "wf_raft (nodes s i)" and du: "durable (nodes s i)" by (simp_all add: node_ok_def)
  have nodes: "nodes s' = (nodes s)(i := rf)" and acks: "acks_from s s'" by (auto simp: s' acks_from_same)
  note mt' = elect_matching [OF D(1) i st]
  have vot: "voters ?el = {i}" by (simp add: voters_def)
  have "vote_kept H s' args i" if none: "H (rvTerm args) = None"
    unfolding vote_kept_def
  proof (intro conjI allI impI)
    show "rvTerm args \<le> savedTerm (nodes s' i)" using A by (simp add: nodes)
    fix t m
    assume "own H t m" "acked H s' i t m"
    then show "ahead args t m \<or> lost H t m (rvTerm args - 1)"
      using A(3) savedTerm_le [OF du] acked_back [OF D(1) mt' acks] last_leIndex [OF wf]
      by (intro vote_ahead [OF D(5,2) i _ _ none]) auto
  qed
  moreover have "candidate_ok s' ?el"
    using A(2,3) last_leIndex [OF wf] by (simp add: candidate_ok_def nodes lastIndex_def)
  moreover have "candidate_ok s' b \<and> (\<forall>p \<in> voters b. p < size s)" if b: "b \<in> set (elections s)" for b
  proof -
    have e: "el_ok s b" using cluster_okD(2) [OF D(3) b] .
    then have "elCand b = i \<Longrightarrow> rvTerm (elArgs b) \<le> CurrentTerm (nodes s i)"
      using promised_current(1) by (fastforce simp: el_ok_def voters_def)
    then have "candidate_ok s' b"
      using completeD(7) [OF D(2) b] A(2) by (auto simp: candidate_ok_def nodes)
    then show ?thesis using e by (simp add: el_ok_def)
  qed
  ultimately have "calls_complete H s H s'"
    using vot i unfolding calls_complete_def by (auto simp: s')
  then show ?thesis
    using elect.op_node_ok [OF n _ a] A(2)
    by (intro complete_same [OF D(1) mt' D(2) nodes i _ _ _ acks]) (auto simp: sameLog_def)
qed

text \<open>A log whose last entry is ahead of an entry of the ledger has it, or a leader lacks it.\<close>

lemma ahead_holds:
  assumes F: "legit H F" and srt: "ledger_sorted H" and o: "own H t n"
    and up: "t < leTerm (last F) \<or> t = leTerm (last F) \<and> n < length F" and T: "leTerm (last F) \<le> T"
  shows "holds t n F \<or> lost H t n T"
proof -
  let ?k = "length F - 1" and ?u = "leTerm (last F)"
  have ne: "F \<noteq> []" using F by (simp add: legit_def)
  then have lst: "F ! ?k = last F" and k: "?k < length F" by (simp_all add: last_conv_nth)
  then obtain L where L: "H ?u = Some L" "?k < length L" "take (Suc ?k) F = take (Suc ?k) L"
    using F unfolding legit_def by metis
  then have same: "F ! m = L ! m" if "m < length F" for m
    using that ne by (metis Suc_pred' length_greater_0_conv nth_take)
  show ?thesis
  proof (cases "holds t n L")
    case True
    have "n < length F"
    proof (rule ccontr)
      assume "\<not> n < length F"
      then have "leTerm (L ! ?k) \<le> leTerm (L ! n)"
        using True L(1) srt sorted_nth_mono [of "map leTerm L" ?k n] by (auto simp: ledger_sorted_def holds_def)
      then show False using True up lst same [OF k] \<open>\<not> n < length F\<close> by (auto simp: holds_def)
    qed
    then show ?thesis using True same by (simp add: holds_def)
  next
    case False
    then have "t < ?u" using up o L(1) by (auto simp: own_def)
    then show ?thesis using False L(1) T unfolding lost_def by blast
  qed
qed


section \<open>A new leader\<close>

lemma grows_new:
  assumes "H t = None" "legit H F"
  shows "grows H (H(t \<mapsto> F))"
proof -
  have "leTerm e \<noteq> t" if "e \<in> set F" for e
    using that assms unfolding legit_def in_set_conv_nth by (metis option.distinct(1))
  then show ?thesis using assms(1) by (auto simp: grows_def)
qed

lemma sorted_new:
  assumes "ledger_sorted H" "legit H F" "\<And>e. e \<in> set F \<Longrightarrow> leTerm e \<le> t"
  shows "ledger_sorted (H(t \<mapsto> F))"
  using assms legit_sorted [OF assms(2,1)] by (auto simp: ledger_sorted_def)

text \<open>The voters of a decided election: the winner's log has what they had acknowledged.\<close>

lemma voters_elected:
  assumes cs: "complete_step H s s'" and m: "moves H s H' s' i" and el: "el \<in> set (elections s)" "rvTerm (elArgs el) = t"
    and maj: "majority (size s) (voters el)" and none: "H t = None" and F: "legit H F"
    and args: "rvLastLogTerm (elArgs el) = leTerm (last F)" "rvLastLogIndex (elArgs el) = int (length F) - 1"
    and lt: "leTerm (last F) < t" and old: "\<And>p u n. own H' u n \<Longrightarrow> acked H' s' p u n \<Longrightarrow> own H u n \<and> acked H s p u n"
  shows "elected_by H' s' t F (voters el)"
  unfolding elected_by_def
proof (intro conjI ballI allI impI)
  note D = complete_stepD [OF cs]
  show "majority (size s') (voters el)" using maj D(7) by simp
  fix p
  assume p: "p \<in> voters el"
  then have ps: "p < size s" using cluster_okD(2) [OF D(3) el(1)] by (simp add: el_ok_def)
  have vk: "vote_kept H s (elArgs el) p" using completeD(8) [OF D(2) el(1) _ p] none el(2) by simp
  then show "t \<le> savedTerm (nodes s' p)" using moves_saved [OF m ps] el(2) by (simp add: vote_kept_def)
  fix u n
  assume a: "own H' u n" "acked H' s' p u n" "u < t"
  then have o: "own H u n" "acked H s p u n" using old by blast+
  then have "ahead (elArgs el) u n \<or> lost H u n (t - 1)" using vk a(3) el(2) by (simp add: vote_kept_def)
  moreover have "holds u n F \<or> lost H u n (t - 1)" if "ahead (elArgs el) u n"
    using that args lt by (intro ahead_holds [OF F completeD(1) [OF D(2)] o(1)]) (auto simp: ahead_def)
  moreover have "grows H H'" using m by (simp add: moves_def)
  ultimately show "holds u n F \<or> lost H' u n (t - 1)" using lost_grows by blast
qed

lemma legit_last: "legit H F \<Longrightarrow> H (leTerm (last F)) \<noteq> None"
  unfolding legit_def by (metis diff_less last_conv_nth length_greater_0_conv option.distinct(1) zero_less_one)

lemma elected_complete:
  assumes cs: "complete_step H s s'" and nodes: "nodes s' = (nodes s)(i := rf)" and i: "i < size s"
    and keep: "keeps_promises (nodes s i) rf" and calls: "calls_from H s s'" and app: "appends s' = appends s"
    and same: "sameLog (nodes s i) rf" and was: "State (nodes s i) = Candidate" and lead: "State rf = Leader"
    and t: "CurrentTerm rf = t" "CurrentTerm (nodes s i) = t" and none: "H t = None"
    and mt': "matching (H(t \<mapsto> F)) s'" and F: "legit H F" "tail_of 0 (Log rf) F"
  shows "complete (H(t \<mapsto> F)) s'"
proof -
  note D = complete_stepD [OF cs]
  let ?H = "H(t \<mapsto> F)"
  have g: "grows H ?H" by (rule grows_new [OF none F(1)])
  have log: "Log rf = Log (nodes s i)" using same by (simp add: sameLog_def)
  have base: "LastIncludedIndex rf = 0" "LastIncludedIndex (nodes s i) = 0"
    using same completeD(2) [OF D(2) i] by (simp_all add: sameLog_def)
  have noF: "\<not> holds t n F" for n using g none by (auto simp: grows_def holds_def)
  have old: "own H u n \<and> acked H s p u n" if "own ?H u n" "acked ?H s' p u n" for p u n
  proof -
    have "u \<noteq> t" using that(1) noF by (auto simp: own_def)
    then show ?thesis
      using that won_back [OF D(1) mt', of u p] app by (auto simp: own_def acked_def split: if_splits)
  qed
  have m: "moves H s ?H s' i"
    using D(3,7) g i keep old unfolding moves_def by (auto simp: nodes)
  have sv: "savedTerm (nodes s i) \<le> t"
    using cluster_okD(1) [OF D(3) i] savedTerm_le t(2) by (auto simp: node_ok_def)
  have terms: "leTerm e \<le> t" if "e \<in> set F" for e
  proof -
    have "leTerm e \<in> set (map leTerm (Log (nodes s i)))" using that tail_terms [OF F(2)] by (simp add: log)
    then show ?thesis using completeD(4) [OF D(2) i] sv by fastforce
  qed
  have srt: "ledger_sorted ?H" by (rule sorted_new [OF completeD(1) [OF D(2)] F(1) terms])
  have "stands (nodes s i) rf" using lead by (simp add: stands_def)
  moreover have "calls_from ?H s s'" using calls append_from_grows [OF g] unfolding calls_from_def by blast
  ultimately have cc: "calls_complete H s ?H s'" using calls_from_complete [OF D(3,2) _ nodes] by blast
  have new: "\<exists>Q. elected_by ?H s' t F Q"
  proof -
    have "won s' t i" using cluster_okD(3) [OF D(4), of i] i D(7) lead t(1) nodes by simp
    then obtain el' where el': "el' \<in> set (elections s')" "elCand el' = i" "rvTerm (elArgs el') = t"
        "majority (size s') (voters el')" by (auto simp: won_def)
    then obtain el where el: "el \<in> set (elections s)" "elArgs el' = elArgs el" "elCand el = i" "voters el' = voters el"
      using calls by (auto simp: calls_from_def)
    have args: "rvLastLogTerm (elArgs el) = leTerm (last F)" "rvLastLogIndex (elArgs el) = int (length F) - 1"
      using completeD(7) [OF D(2) el(1)] el(2,3) el'(3) was t(2) tail_last [OF F(2)] tail_of_length [OF F(2)] base
      by (auto simp: candidate_ok_def log lastIndex_def)
    have "leTerm (last F) \<le> t" using F(1) terms by (simp add: legit_def)
    then have lt: "leTerm (last F) < t" using legit_last [OF F(1)] none by (cases "leTerm (last F) = t") auto
    have "elected_by ?H s' t F (voters el)"
      using el'(3,4) el(2,4) D(7) by (intro voters_elected [OF cs m el(1) _ _ none F(1) args lt old]) simp_all
    then show ?thesis by blast
  qed
  show ?thesis
  proof (rule complete_next [OF D(2) m cc srt])
    show "leTerm e \<le> savedTerm (nodes s' i)" if "e \<in> set (Log (nodes s' i))" for e
      using that completeD(4) [OF D(2) i, of e] moves_saved [OF m i] by (simp add: nodes log)
    show "\<exists>Q. elected_by ?H s' u L Q" if "H u = None" "?H u = Some L" for u L
      using that new by (auto split: if_splits)
  qed (use base log nodes in auto)
qed


text \<open>The ledger has a new term only when peer \<open>i\<close> has just become its leader.\<close>

definition leads_new :: "'c ledger \<Rightarrow> ('c, 's) Cluster \<Rightarrow> 'c ledger \<Rightarrow> ('c, 's) Cluster \<Rightarrow> nat \<Rightarrow> bool" where
  "leads_new H s H' s' i \<longleftrightarrow> (\<forall>t. H t = None \<longrightarrow> H' t \<noteq> None \<longrightarrow>
     State (nodes s i) = Candidate \<and> State (nodes s' i) = Leader \<and> CurrentTerm (nodes s' i) = t)"

lemma leads_new_refl [simp]: "leads_new H s H s' i"
  by (simp add: leads_new_def)

lemma handle_vote_complete:
  assumes cs: "complete_step H s s'" and k: "k < length (elections s)" and st: "stepHandleVote k j okay s = Some s'"
  shows "\<exists>H'. grows H H' \<and> matching H' s' \<and> complete H' s' \<and> leads_new H s H' s' (elCand (elections s ! k))"
proof (cases "elCalls (elections s ! k) j")
  case (Replied r)
  note D = complete_stepD [OF cs]
  let ?el = "elections s ! k" let ?i = "elCand ?el" let ?rep = "if okay then Some r else None"
  obtain rf v b where hv: "HandleVoteReply (elArgs ?el) ?rep (elVotes ?el) (nodes s ?i) = Some (rf, v, b)"
    and s': "s' = (setNode ?i rf s)\<lparr>elections := (elections s)[k :=
        ?el\<lparr>elVotes := v, elCalls := (elCalls ?el)(j := Handled r okay)\<rparr>]\<rparr>" (is "_ = _\<lparr>elections := _[k := ?el']\<rparr>")
    using st Replied by (auto simp: stepHandleVote_def bind_Some_iff Let_def)
  have i: "?i < size s" using cluster_okD(2) [OF D(3)] k by (simp add: el_ok_def)
  have keep: "keeps_promises (nodes s ?i) rf"
    using vote_reply.op_node_ok [OF cluster_okD(1) [OF D(3) i], of "(elArgs ?el, ?rep, elVotes ?el)" rf "(v, b)"] hv
    by simp
  have nodes: "nodes s' = (nodes s)(?i := rf)" and app: "appends s' = appends s" by (simp_all add: s')
  have "voters ?el' = voters ?el" by (auto simp: voters_def Replied split: if_splits)
  then have calls: "calls_ok H s s'" "calls_from H s s'"
    using k by (auto simp: calls_ok_def calls_from_def s' dest!: set_update_subset_insert [THEN subsetD])
  note same = HandleVoteReply_sameLog [OF hv]
  show ?thesis
  proof (cases b)
    case False
    then have q: "quiet (nodes s ?i) rf" using HandleVoteReply_votes(2) [OF hv] by blast
    have mt': "matching H s'" by (rule matching_quiet [OF D(3-6) nodes i calls(1) keep q same])
    then show ?thesis
      using complete_quiet [OF D(1) mt' D(2) nodes i keep q same calls(2) acks_from_same [OF app]]
      by (intro exI [of _ H]) simp
  next
    case True
    note lead = HandleVoteReply_lead [OF hv [unfolded True [simplified, THEN eqTrueI]]]
    obtain F where F: "legit H F" "tail_of 0 (Log (nodes s ?i)) F" using D(5,2) i by (rule log_full)
    have F': "tail_of 0 (Log rf) F" and base: "LastIncludedIndex rf = 0"
      using F(2) same completeD(2) [OF D(2) i] by (simp_all add: sameLog_def)
    have pos: "0 < CurrentTerm rf" using matchingD(6) [OF D(5), of ?el] k lead by auto
    let ?H = "H(CurrentTerm rf \<mapsto> F)"
    have H': "H (CurrentTerm rf) = None" "matching ?H s'"
      using elected_matching [OF D(1) nodes i calls(1) keep lead(1,4) refl lead(3) [symmetric] pos F(1)] F' base by simp_all
    have "complete ?H s'"
      by (rule elected_complete [OF cs nodes i keep calls(2) app same lead(1,4) refl lead(3) [symmetric] H' F(1) F'])
    moreover have "leads_new H s ?H s' ?i" using lead nodes by (simp add: leads_new_def)
    ultimately show ?thesis using grows_new [OF H'(1) F(1)] H'(2) by blast
  qed
qed (use cs st in \<open>auto simp: stepHandleVote_def complete_step_def matching_step_def intro!: exI [of _ H]\<close>)

section \<open>Replication\<close>

lemma append_fromE:
  assumes "append_from H args" "ledger_ok H"
  obtains L where "H (aeTerm args) = Some L" "legit H L" "covers args < length L"
    "leTerm (L ! nat (aePrevLogIndex args)) = aePrevLogTerm args"
    "aeEntries args = take (length (aeEntries args)) (drop (Suc (nat (aePrevLogIndex args))) L)"
  using assms by (auto simp: append_from_def ledger_ok_def)

lemma set_segment: "xs = take n (drop m L) \<Longrightarrow> set xs \<subseteq> set L"
  using set_take_subset set_drop_subset by fast

text \<open>An accepted call leaves a log that agrees with the sender's over the call, and wherever
  it agreed before.\<close>

lemma mergedLog_agrees:
  assumes wf: "wf_raft rf" and c: "consistent args rf" and base: "LastIncludedIndex rf = 0"
    and F: "legit H F" "tail_of 0 (Log rf) F" and a: "append_from H args" "ledger_ok H" "H (aeTerm args) = Some L"
    and k: "k \<le> covers args \<or> holds (leTerm (L ! k)) k (Log rf) \<and> k < length L"
  shows "holds (leTerm (L ! k)) k (mergedLog args rf)"
proof -
  let ?p = "nat (aePrevLogIndex args)"
  have L: "legit H L" "covers args < length L" "leTerm (L ! ?p) = aePrevLogTerm args"
      "aeEntries args = take (length (aeEntries args)) (drop (Suc ?p) L)"
    using append_fromE [OF a(1,2)] a(3) by auto
  have "?p < length (Log rf)" "leTerm (Log rf ! ?p) = leTerm (L ! ?p)" "appendAt args rf = Suc ?p"
    using c base L(3) by (auto simp: consistent_def lastIndex_def appendAt_def)
  then show ?thesis
    using merge_agrees [OF F L(1), of ?p "aeEntries args" k] L(2,4) k by (auto simp: mergedLog_def covers_def holds_def)
qed


lemma set_mergedLog: "set (mergedLog args rf) \<subseteq> set (Log rf) \<union> set (aeEntries args)"
  using set_mergeLog [of "drop (appendAt args rf) (Log rf)" "aeEntries args"]
  by (auto simp: mergedLog_def dest: in_set_takeD in_set_dropD)

text \<open>An entry that is in the log when a call is accepted stays, unless the sender lacks it.\<close>

lemma mergedLog_keeps:
  assumes wf: "wf_raft rf" and c: "consistent args rf" and base: "LastIncludedIndex rf = 0"
    and F: "legit H F" "tail_of 0 (Log rf) F" and a: "append_from H args" "ledger_ok H"
    and h: "holds t n (Log rf)" "t \<le> aeTerm args"
  shows "holds t n (mergedLog args rf) \<or> lost H t n (aeTerm args)"
proof -
  obtain L where L: "H (aeTerm args) = Some L" using a by (rule append_fromE)
  show ?thesis
  proof (cases "holds t n L")
    case True
    then show ?thesis
      using mergedLog_agrees [OF wf c base F a L, of n] h by (auto simp: holds_def)
  next
    case False
    have "own H t n" using holds_own [OF F(1)] h(1) tail_holds [OF F(2)] by simp
    then have "t \<noteq> aeTerm args" using False L by (auto simp: own_def)
    then show ?thesis using False L h(2) unfolding lost_def by fastforce
  qed
qed

text \<open>A call is accepted: the receiver's log changes, and with a first reply there is a new
  acknowledgement.\<close>

lemma accepted_complete:
  assumes cs: "complete_step H s s'" and mt': "matching H s'" and k: "k < length (appends s)"
    and c: "c = appends s ! k" "acTo c = j" "acArgs c = args" and j: "j < size s" and keep: "keeps_promises (nodes s j) rf"
    and s': "s' = setNode j rf (s\<lparr>appends := (appends s)[k := c\<lparr>acState := st\<rparr>]\<rparr>)"
    and ac: "CurrentTerm (nodes s j) \<le> aeTerm args" "consistent args (nodes s j)"
    and rf: "Log rf = mergedLog args (nodes s j)" "State rf = Follower" "LastIncludedIndex rf = 0" "savedTerm rf = aeTerm args"
  shows "complete H s'"
proof -
  note D = complete_stepD [OF cs] and H = matchingD(1) [OF complete_stepD(5) [OF cs]] and base = completeD(2) [OF complete_stepD(2) [OF cs] j]
  have wf: "wf_raft (nodes s j)" and du: "durable (nodes s j)"
    using cluster_okD(1) [OF D(3) j] by (simp_all add: node_ok_def)
  have nodes: "nodes s' = (nodes s)(j := rf)" by (simp add: s')
  have calls: "calls_from H s s'" using calls_from_update(1) [OF k] c s' by simp
  have af: "append_from H args" using completeD(5) [OF D(2)] k c by force
  obtain F where F: "legit H F" "tail_of 0 (Log (nodes s j)) F" using D(5,2) j by (rule log_full)
  obtain L where L: "H (aeTerm args) = Some L" "aeEntries args = take (length (aeEntries args)) (drop (Suc (nat (aePrevLogIndex args))) L)"
    using af H by (rule append_fromE)
  have acks: "acked H s p t m \<or> p = j \<and> t = aeTerm args \<and> m \<le> covers args" if "acked H s' p t m" for p t m
    using that won_back [OF D(1) mt', of t p] c
    by (auto simp: acked_def s' dest!: set_update_subset_insert [THEN subsetD])
  have "holds (aeTerm args) m (Log rf)" if "own H (aeTerm args) m" "m \<le> covers args" for m
    using mergedLog_agrees [OF wf ac(2) base F af H L(1), of m] that L(1) by (auto simp: own_def holds_def rf(1))
  then have m: "moves H s H s' j"
    using D(3,7) j keep acks ac(1) rf(4) unfolding moves_def by (fastforce simp: nodes)
  have "stands (nodes s j) rf" using rf(2) by (simp add: stands_def)
  note cc = calls_from_complete [OF D(3,2) calls nodes this]
  show ?thesis
  proof (rule complete_next [OF D(2) m cc completeD(1) [OF D(2)]])
    show "leTerm e \<le> savedTerm (nodes s' j)" if "e \<in> set (Log (nodes s' j))" for e
    proof -
      have "e \<in> set (Log (nodes s j)) \<or> e \<in> set L"
        using that set_mergedLog [of args "nodes s j"] set_segment [OF L(2)] by (auto simp: nodes rf(1))
      then show ?thesis
        using completeD(4) [OF D(2) j, of e] moves_saved [OF m j] completeD(1) [OF D(2)] L(1) rf(4)
        by (auto simp: nodes ledger_sorted_def)
    qed
    show "holds t m (Log (nodes s' j)) \<or> lost H t m (savedTerm (nodes s' j))"
      if "t \<le> savedTerm (nodes s j)" "holds t m (Log (nodes s j))" for t m
      using mergedLog_keeps [OF wf ac(2) base F af H that(2)] that(1) savedTerm_le [OF du] ac(1) rf(4)
      by (simp add: nodes rf(1))
  qed (use rf(3) nodes in simp_all)
qed

lemma deliver_append_complete:
  assumes cs: "complete_step H s s'" and k: "k < length (appends s)" and st: "stepDeliverAppend k clk s = Some s'"
  shows "complete H s'"
proof -
  note D = complete_stepD [OF cs]
  let ?c = "appends s ! k" let ?j = "acTo ?c" let ?args = "acArgs ?c"
  obtain rf r where ae: "AppendEntries clk ?args (nodes s ?j) = Some (rf, r)"
    and s': "s' = (setNode ?j rf s)\<lparr>appends := (appends s)[k := ?c\<lparr>acState := deliver r (acState ?c)\<rparr>]\<rparr>"
      (is "_ = _\<lparr>appends := _[k := ?c']\<rparr>")
    using st by (auto simp: stepDeliverAppend_def bind_Some_iff Let_def)
  from cluster_okD(4) [OF D(3), of ?c] k have j: "?j < size s" and v: "valid_append ?args"
    by (auto simp: append_ok_def)
  have n: "node_ok (size s) ?j (nodes s ?j)" by (rule cluster_okD(1) [OF D(3) j])
  then have wf: "wf_raft (nodes s ?j)" by (simp add: node_ok_def)
  have keep: "keeps_promises (nodes s ?j) rf" using append.op_node_ok [OF n, of "(clk, ?args)" rf r] ae v by simp
  note mt' = deliver_append_matching [OF D(1) k st]
  have quiet: ?thesis if r: "\<not> aerSuccess r" and same: "sameLog (nodes s ?j) rf"
  proof -
    have "acks_from s s'"
      using k r s' by (intro acks_from_update [OF k, of ?c']) (auto simp: succeeded_deliver split: if_splits)
    then show ?thesis
      using calls_from_update(1) [OF k, of ?c'] s'
      by (intro complete_quiet [OF D(1) mt' D(2) _ j keep AppendEntries_quiet [OF wf v ae] same]) simp_all
  qed
  from wf v show ?thesis
  proof (cases rule: AppendEntries_cases [of "nodes s ?j" ?args clk])
    case (accepted rf3 reply)
    have "Log rf = mergedLog ?args (nodes s ?j)" "State rf = Follower" "LastIncludedIndex rf = 0"
        "savedTerm rf = aeTerm ?args"
      using accepted ae completeD(2) [OF D(2) j] by (auto split: if_splits)
    then show ?thesis
      using s' by (intro accepted_complete [OF cs mt' k refl refl refl j keep _ accepted(1,2)]) simp_all
  qed (use ae quiet in \<open>auto simp: sameLog_def\<close>)
qed

lemma grows_snoc:
  assumes "H t = Some L" "leTerm e = t"
  shows "grows H (H(t \<mapsto> L @ [e]))"
  using assms by (auto simp: grows_def)

lemma sorted_snoc:
  assumes "ledger_sorted H" "H t = Some L" "leTerm e = t"
  shows "ledger_sorted (H(t \<mapsto> L @ [e]))"
  using assms by (auto simp: ledger_sorted_def sorted_append)

lemma start_acks:
  assumes cs: "complete_step H s s'" and mt': "matching (H(t \<mapsto> L @ [e])) s'" and L: "H t = Some L" and e: "leTerm e = t"
    and app: "appends s' = appends s" and won: "won s t i"
    and a: "own (H(t \<mapsto> L @ [e])) u m" "acked (H(t \<mapsto> L @ [e])) s' p u m"
  shows "own H u m \<and> acked H s p u m \<or> p = i \<and> u = t \<and> m = length L"
proof (cases "u = t \<and> m = length L")
  case True
  note D = complete_stepD [OF cs]
  have "acTo d \<noteq> p \<or> m > covers (acArgs d) \<or> aeTerm (acArgs d) \<noteq> t" if "d \<in> set (appends s)" for d
    using completeD(5) [OF D(2) that] True L by (auto simp: append_from_def)
  then have "won s' t p" using a(2) True app by (fastforce simp: acked_def)
  then have "p = i" using won_unique [OF D(4)] won_history [OF won D(6,4)] by blast
  then show ?thesis using True by blast
next
  case False
  have o: "own H u m" using a(1) False L e by (auto simp: own_def holds_def nth_append less_Suc_eq split: if_splits)
  moreover have "acked H s p u m"
    using a(2) o won_back [OF complete_stepD(1) [OF cs] mt', of u p] app by (auto simp: acked_def own_def holds_def)
  ultimately show ?thesis by blast
qed

lemma start_complete:
  assumes cs: "complete_step H s s'" and i: "i < size s" and st: "Start c (nodes s i) = Some (rf, r)"
    and s': "s' = setNode i rf s"
  shows "\<exists>H'. grows H H' \<and> matching H' s' \<and> complete H' s' \<and> leads_new H s H' s' i"
proof (cases "State (nodes s i) = Leader")
  case False
  then have "rf = nodes s i" using st by (simp add: Start_def)
  then show ?thesis using cs s' by (auto simp: complete_step_def matching_step_def setNode_def intro!: exI [of _ H])
next
  case lead: True
  note D = complete_stepD [OF cs]
  define t where "t = CurrentTerm (nodes s i)"
  define e where "e = \<lparr>leCommand = Some c, leTerm = t, leIndex = lastIndex (nodes s i) + 1\<rparr>"
  have n: "node_ok (size s) i (nodes s i)" by (rule cluster_okD(1) [OF D(3) i])
  then have wf: "wf_raft (nodes s i)" and du: "durable (nodes s i)" by (simp_all add: node_ok_def)
  note base = completeD(2) [OF D(2) i]
  obtain L where L: "H t = Some L" "tail_of 0 (Log (nodes s i)) L"
    using matchingD(4) [OF D(5) i] lead base by (auto simp: lead_ok_def t_def)
  let ?H = "H(t \<mapsto> L @ [e])"
  have et: "leTerm e = t" by (simp add: e_def)
  have g: "grows H ?H" using L(1) et by (rule grows_snoc)
  have mt': "matching ?H s'"
    using lead_start_matching [where e = e and t = t, OF D(1) i st s' lead t_def e_def L(1)] L(2) base by simp
  have rf: "Log rf = Log (nodes s i) @ [e]" "LastIncludedIndex rf = 0" "State rf = Leader" "savedTerm rf = t"
    using st lead base by (auto simp: Start_leader_eq [OF wf lead] t_def e_def)
  have keep: "keeps_promises (nodes s i) rf" using start.op_node_ok [OF n _ st] by simp
  have nodes: "nodes s' = (nodes s)(i := rf)" and app: "appends s' = appends s" by (simp_all add: s')
  have won: "won s t i" using cluster_okD(3) [OF D(3) i lead] by (simp add: t_def)
  have acks: "own H u m \<and> acked H s p u m \<or> p = i \<and> u = t \<and> m = length L" if "own ?H u m" "acked ?H s' p u m" for p u m
    using that by (rule start_acks [OF cs mt' L(1) et app won])
  moreover have "holds t (length L) (Log rf)" using tail_of_length [OF L(2)] et by (simp add: holds_def rf(1) nth_append)
  ultimately have m: "moves H s ?H s' i"
    using D(3,7) i keep g unfolding moves_def by (auto simp: nodes t_def rf(4))
  have "stands (nodes s i) rf" using rf(3) by (simp add: stands_def)
  moreover have "calls_from ?H s s'" by (auto simp: calls_from_def s')
  ultimately have cc: "calls_complete H s ?H s'" using calls_from_complete [OF D(3,2) _ nodes] by blast
  have srt: "ledger_sorted ?H" using completeD(1) [OF D(2)] L(1) et by (rule sorted_snoc)
  have "complete ?H s'"
  proof (rule complete_next [OF D(2) m cc srt])
    show "leTerm f \<le> savedTerm (nodes s' i)" if "f \<in> set (Log (nodes s' i))" for f
      using that completeD(4) [OF D(2) i, of f] moves_saved [OF m i] et by (auto simp: nodes rf)
    show "\<exists>Q. elected_by ?H s' u M Q" if "H u = None" "?H u = Some M" for u M
      using that L(1) by (auto split: if_splits)
  qed (use rf nodes holds_append in auto)
  moreover have "leads_new H s ?H s' i" using L(1) by (simp add: leads_new_def)
  ultimately show ?thesis using g mt' by blast
qed

end
