(* ===== verification/Raft_Commit.thy ===== *)
theory Raft_Commit
  imports Raft_Completeness
begin

text \<open>
  What peers commit, in runs without snapshots. Every commit index is backed by a committed
  entry of a term that the peer has reached and that its log leads up to; a leader's
  \<^verbatim>\<open>MatchIndex\<close> counts acknowledgements of its term only, and a call never announces more than
  it carries. With leader completeness two commit indices are backed by entries of one log.
\<close>

section \<open>Backed commit indices\<close>

text \<open>Index \<open>k\<close> of the log \<open>es\<close> lies on the way to a committed entry of a term up to \<open>T\<close>.\<close>

definition backed :: "'c ledger \<Rightarrow> ('c, 's) Cluster \<Rightarrow> int \<Rightarrow> 'c LogEntry list \<Rightarrow> nat \<Rightarrow> bool" where
  "backed H s T es k \<longleftrightarrow>
     (\<exists>t n L. 0 < t \<and> t \<le> T \<and> committed H s t n \<and> H t = Some L \<and> k \<le> n \<and> holds (leTerm (L ! k)) k es)"

definition commit_ok :: "'c ledger \<Rightarrow> ('c, 's) Cluster \<Rightarrow> ('c, 's) Raft \<Rightarrow> bool" where
  "commit_ok H s rf \<longleftrightarrow> (0 < CommitIndex rf \<longrightarrow> backed H s (CurrentTerm rf) (Log rf) (nat (CommitIndex rf)))"

text \<open>The leader of a term knows of acknowledged entries only.\<close>

definition match_ok :: "'c ledger \<Rightarrow> ('c, 's) Cluster \<Rightarrow> nat \<Rightarrow> ('c, 's) Raft \<Rightarrow> bool" where
  "match_ok H s i rf \<longleftrightarrow> (H (CurrentTerm rf) \<noteq> None \<longrightarrow> won s (CurrentTerm rf) i \<longrightarrow>
     (\<forall>j < size s. j \<noteq> i \<longrightarrow> 0 < MatchIndex rf ! j \<longrightarrow> acked H s j (CurrentTerm rf) (nat (MatchIndex rf ! j))))"

definition announce_ok :: "'c ledger \<Rightarrow> ('c, 's) Cluster \<Rightarrow> 'c AppendEntriesArgs \<Rightarrow> bool" where
  "announce_ok H s args \<longleftrightarrow> (0 < aeLeaderCommit args \<longrightarrow> nat (aeLeaderCommit args) \<le> covers args \<and>
     (\<exists>L. H (aeTerm args) = Some L \<and> backed H s (aeTerm args) L (nat (aeLeaderCommit args))))"

definition commits :: "'c ledger \<Rightarrow> ('c, 's) Cluster \<Rightarrow> bool" where
  "commits H s \<longleftrightarrow> (\<forall>i < size s. commit_ok H s (nodes s i) \<and> match_ok H s i (nodes s i)) \<and>
     (\<forall>c \<in> set (appends s). announce_ok H s (acArgs c))"

lemma commitsD:
  assumes "commits H s"
  shows "i < size s \<Longrightarrow> commit_ok H s (nodes s i)" "i < size s \<Longrightarrow> match_ok H s i (nodes s i)"
    "c \<in> set (appends s) \<Longrightarrow> announce_ok H s (acArgs c)"
  using assms by (auto simp: commits_def)

section \<open>The past is kept\<close>

definition reaches :: "'c ledger \<Rightarrow> ('c, 's) Cluster \<Rightarrow> 'c ledger \<Rightarrow> ('c, 's) Cluster \<Rightarrow> bool" where
  "reaches H s H' s' \<longleftrightarrow> ledger_le H H' \<and> size s' = size s \<and> (\<forall>p t n. acked H s p t n \<longrightarrow> acked H' s' p t n)"

lemma reaches_refl [simp]: "reaches H s H s"
  by (simp add: reaches_def)

lemma ledger_le_trans: "ledger_le H H1 \<Longrightarrow> ledger_le H1 H2 \<Longrightarrow> ledger_le H H2"
  unfolding ledger_le_def by (meson prefix_order.trans)

lemma reaches_trans: "reaches H s H1 s1 \<Longrightarrow> reaches H1 s1 H2 s2 \<Longrightarrow> reaches H s H2 s2"
  using ledger_le_trans [of H H1 H2] by (simp add: reaches_def)

lemma ledger_leE:
  assumes "ledger_le H H'" "H t = Some L"
  obtains E where "H' t = Some (L @ E)"
  using assms by (auto simp: ledger_le_def prefix_def)

lemma grows_le: "grows H H' \<Longrightarrow> ledger_le H H'"
  unfolding grows_def ledger_le_def by (metis prefixI)

lemma committed_reaches:
  assumes "reaches H s H' s'" "committed H s t n"
  shows "committed H' s' t n"
proof -
  obtain L where L: "H t = Some L" "holds t n L" using assms(2) by (auto simp: committed_def own_def)
  have "ledger_le H H'" using assms(1) by (simp add: reaches_def)
  then obtain E where "H' t = Some (L @ E)" using L(1) by (rule ledger_leE)
  then have "own H' t n" using holds_append [OF L(2)] by (simp add: own_def)
  then show ?thesis using assms unfolding committed_def reaches_def by metis
qed

lemma backed_reaches:
  assumes r: "reaches H s H' s'" and b: "backed H s T es k" and "T \<le> T'"
    and es: "\<And>t. holds t k es \<Longrightarrow> holds t k es'"
  shows "backed H' s' T' es' k"
proof -
  obtain t n L where t: "0 < t" "t \<le> T" "committed H s t n" "H t = Some L" "k \<le> n" "holds (leTerm (L ! k)) k es"
    using b by (auto simp: backed_def)
  have "ledger_le H H'" using r by (simp add: reaches_def)
  then obtain E where E: "H' t = Some (L @ E)" using t(4) by (rule ledger_leE)
  have "k < length L" using t(3-5) by (auto simp: committed_def own_def holds_def)
  then have "holds (leTerm ((L @ E) ! k)) k es'" using es [OF t(6)] by (simp add: nth_append)
  then show ?thesis
    using t E assms(3) committed_reaches [OF r t(3)] unfolding backed_def
    by (intro exI [of _ t] exI [of _ n] exI [of _ "L @ E"]) simp
qed

lemma announce_reaches:
  assumes r: "reaches H s H' s'" and a: "announce_ok H s args"
  shows "announce_ok H' s' args"
  unfolding announce_ok_def
proof (intro impI)
  assume "0 < aeLeaderCommit args"
  then obtain L where L: "nat (aeLeaderCommit args) \<le> covers args" "H (aeTerm args) = Some L"
      "backed H s (aeTerm args) L (nat (aeLeaderCommit args))"
    using a by (auto simp: announce_ok_def)
  have "ledger_le H H'" using r by (simp add: reaches_def)
  then obtain E where E: "H' (aeTerm args) = Some (L @ E)" using L(2) by (rule ledger_leE)
  then show "nat (aeLeaderCommit args) \<le> covers args \<and>
      (\<exists>L. H' (aeTerm args) = Some L \<and> backed H' s' (aeTerm args) L (nat (aeLeaderCommit args)))"
    using L(1) backed_reaches [OF r L(3) order_refl holds_append] by auto
qed

text \<open>Acknowledgements are never taken back.\<close>

definition acks_to :: "('c, 's) Cluster \<Rightarrow> ('c, 's) Cluster \<Rightarrow> bool" where
  "acks_to s s' \<longleftrightarrow> (\<forall>c \<in> set (appends s). succeeded (acState c) \<longrightarrow>
     (\<exists>c' \<in> set (appends s'). acTo c' = acTo c \<and> acArgs c' = acArgs c \<and> succeeded (acState c')))"

lemma reaches_step:
  assumes g: "grows H H'" and ok: "cluster_ok s'" and h: "history_extends s s'" and acks: "acks_to s s'"
  shows "reaches H s H' s'"
proof -
  have "acked H' s' p t n" if a: "acked H s p t n" for p t n
  proof (cases "won s t p \<and> (\<exists>L. H t = Some L \<and> n < length L)")
    case True
    then obtain L where L: "H t = Some L" "n < length L" by auto
    obtain E where "H' t = Some (L @ E)" using g L(1) by (rule growsE)
    then show ?thesis using True L won_history [OF _ h ok] by (auto simp: acked_def)
  next
    case False
    then obtain c where "c \<in> set (appends s)" "acTo c = p" "aeTerm (acArgs c) = t" "succeeded (acState c)"
        "n \<le> covers (acArgs c)" using a by (auto simp: acked_def)
    then show ?thesis using acks unfolding acked_def acks_to_def by metis
  qed
  then show ?thesis using grows_le [OF g] h by (simp add: reaches_def history_extends_def)
qed

lemma acks_to_update:
  assumes "k < length (appends s)" "acTo c = acTo (appends s ! k)" "acArgs c = acArgs (appends s ! k)"
    and "succeeded (acState (appends s ! k)) \<Longrightarrow> succeeded (acState c)" "appends s' = (appends s)[k := c]"
  shows "acks_to s s'"
  unfolding acks_to_def
proof (intro ballI impI)
  fix d
  assume d: "d \<in> set (appends s)" "succeeded (acState d)"
  then obtain m where m: "m < length (appends s)" "d = appends s ! m" by (auto simp: in_set_conv_nth)
  then have "appends s' ! m \<in> set (appends s')" using assms(5) by (intro nth_mem) simp
  then show "\<exists>c' \<in> set (appends s'). acTo c' = acTo d \<and> acArgs c' = acArgs d \<and> succeeded (acState c')"
    using m d assms by (intro bexI [of _ "appends s' ! m"]) (auto simp: nth_list_update)
qed

lemma acks_to_sub: "set (appends s) \<subseteq> set (appends s') \<Longrightarrow> acks_to s s'"
  by (auto simp: acks_to_def)

section \<open>Preservation\<close>

text \<open>One peer moves. Its commit index is not backed anew, or is; what it knows of the others is
  of its term, or has been reset.\<close>

definition commit_next :: "'c ledger \<Rightarrow> ('c, 's) Cluster \<Rightarrow> ('c, 's) Raft \<Rightarrow> ('c, 's) Raft \<Rightarrow> bool" where
  "commit_next H s rf rf' \<longleftrightarrow> CommitIndex rf' \<le> 0 \<or>
     CommitIndex rf' = CommitIndex rf \<and> CurrentTerm rf \<le> CurrentTerm rf' \<and>
       (\<forall>t. holds t (nat (CommitIndex rf)) (Log rf) \<longrightarrow> holds t (nat (CommitIndex rf)) (Log rf')) \<or>
     commit_ok H s rf'"

definition match_next :: "'c ledger \<Rightarrow> ('c, 's) Cluster \<Rightarrow> ('c, 's) Raft \<Rightarrow> ('c, 's) Raft \<Rightarrow> bool" where
  "match_next H s rf rf' \<longleftrightarrow> (\<forall>j < size s. MatchIndex rf' ! j \<le> 0) \<or> CurrentTerm rf < CurrentTerm rf' \<or>
     CurrentTerm rf' = CurrentTerm rf \<and> (\<forall>j < size s. MatchIndex rf' ! j = MatchIndex rf ! j \<or> MatchIndex rf' ! j \<le> 0 \<or>
        acked H s j (CurrentTerm rf) (nat (MatchIndex rf' ! j)))"

lemma commits_next:
  assumes cs: "complete_step H s s'" and mt': "matching H' s'" and cm: "commits H s" and r: "reaches H s H' s'"
    and nodes: "nodes s' = (nodes s)(i := rf)" and i: "i < size s"
    and c: "commit_next H s (nodes s i) rf" and m: "match_next H s (nodes s i) rf"
    and new: "\<And>t. H t = None \<Longrightarrow> H' t \<noteq> None \<Longrightarrow> won s' t i \<and> (\<forall>j < size s. MatchIndex rf ! j \<le> 0)"
    and app: "\<And>d. d \<in> set (appends s') \<Longrightarrow> acArgs d \<in> acArgs ` set (appends s) \<or> announce_ok H s (acArgs d)"
  shows "commits H' s'"
proof -
  note D = complete_stepD [OF cs]
  have wonb: "won s t p \<or> p = i \<and> (\<forall>j < size s. MatchIndex rf ! j \<le> 0)" if "H' t \<noteq> None" "won s' t p" for t p
    using that new [of t] won_back [OF D(1) mt', of t p] won_unique [OF D(4), of t p i] by blast
  have acked: "acked H s p t n \<Longrightarrow> acked H' s' p t n" for p t n using r by (simp add: reaches_def)
  have "commit_ok H' s' (nodes s p)" if "p < size s" for p
    using commitsD(1) [OF cm that] backed_reaches [OF r _ order_refl] by (auto simp: commit_ok_def)
  moreover have "commit_ok H' s' rf"
    using c commitsD(1) [OF cm i] backed_reaches [OF r]
    by (auto simp: commit_next_def commit_ok_def intro: backed_reaches [OF r _ order_refl])
  moreover have "match_ok H' s' p (nodes s p)" if p: "p < size s" "p \<noteq> i" for p
    unfolding match_ok_def
  proof (intro impI)
    let ?t = "CurrentTerm (nodes s p)"
    assume H: "H' ?t \<noteq> None" and w: "won s' ?t p"
    then have "won s ?t p" using wonb p(2) by blast
    moreover have "H ?t \<noteq> None"
      using new [of ?t] H w won_unique [OF D(4), of ?t p i] p(2) by blast
    ultimately show "\<forall>j < size s'. j \<noteq> p \<longrightarrow> 0 < MatchIndex (nodes s p) ! j \<longrightarrow> acked H' s' j ?t (nat (MatchIndex (nodes s p) ! j))"
      using commitsD(2) [OF cm p(1)] acked D(7) by (simp add: match_ok_def)
  qed
  moreover have "match_ok H' s' i rf"
    unfolding match_ok_def
  proof (intro impI)
    let ?t = "CurrentTerm rf"
    assume H: "H' ?t \<noteq> None" and w: "won s' ?t i"
    show "\<forall>j < size s'. j \<noteq> i \<longrightarrow> 0 < MatchIndex rf ! j \<longrightarrow> acked H' s' j ?t (nat (MatchIndex rf ! j))"
    proof (cases "\<forall>j < size s. MatchIndex rf ! j \<le> 0")
      case False
      then have wi: "won s ?t i" and "H ?t \<noteq> None" using wonb [OF H w] new [of ?t] H by blast+
      moreover have "?t \<le> CurrentTerm (nodes s i)" by (rule won_term [OF D(3) wi])
      ultimately show ?thesis
        using m False commitsD(2) [OF cm i] acked D(7) unfolding match_next_def match_ok_def by (metis leD)
    qed (use D(7) in auto)
  qed
  moreover have "announce_ok H' s' (acArgs d)" if "d \<in> set (appends s')" for d
    using app [OF that] commitsD(3) [OF cm] announce_reaches [OF r] by auto
  ultimately show ?thesis using D(7) by (auto simp: commits_def nodes)
qed


section \<open>The steps\<close>

text \<open>Commit index, log and knowledge of the others are unchanged.\<close>

definition sameCommit :: "('c, 's) Raft \<Rightarrow> ('c, 's) Raft \<Rightarrow> bool" where
  "sameCommit rf rf' \<longleftrightarrow> CommitIndex rf' = CommitIndex rf \<and> MatchIndex rf' = MatchIndex rf \<and>
     Log rf' = Log rf \<and> CurrentTerm rf \<le> CurrentTerm rf'"

lemma sameCommit_next: "sameCommit rf rf' \<Longrightarrow> commit_next H s rf rf' \<and> match_next H s rf rf'"
  by (auto simp: sameCommit_def commit_next_def match_next_def)

lemma commits_same:
  assumes cs: "complete_step H s s'" and mt': "matching H s'" and cm: "commits H s"
    and nodes: "nodes s' = (nodes s)(i := rf)" and i: "i < size s" and acks: "acks_to s s'"
    and nx: "commit_next H s (nodes s i) rf \<and> match_next H s (nodes s i) rf"
    and app: "\<And>d. d \<in> set (appends s') \<Longrightarrow> acArgs d \<in> acArgs ` set (appends s) \<or> announce_ok H s (acArgs d)"
  shows "commits H s' \<and> reaches H s H s'"
proof -
  note D = complete_stepD [OF cs]
  have r: "reaches H s H s'" by (rule reaches_step [OF grows_refl D(4,6) acks])
  then show ?thesis using commits_next [OF cs mt' cm r nodes i _ _ _ app] nx by blast
qed

text \<open>What the operations do to the commit index.\<close>

lemma RequestVote_sameCommit: "RequestVote clk args rf = Some (rf', r) \<Longrightarrow> sameCommit rf rf'"
  by (erule RequestVote_cases) (auto simp: sameCommit_def)

lemma AttemptElection_sameCommit: "AttemptElection clk rf = Some (rf', args, v) \<Longrightarrow> sameCommit rf rf'"
  using AttemptElection_Some(2) [of clk rf rf' args v] by (simp add: sameCommit_def)

lemma InstallSnapShot_sameCommit:
  assumes "InstallSnapShot clk args rf = (rf', r)" "isLastIncludedIndex args = LastIncludedIndex rf"
  shows "sameCommit rf rf'"
proof -
  have "MatchIndex (acceptLeader clk t rf) = MatchIndex rf" for t by (simp add: acceptLeader_def)
  with assms(1) show ?thesis by (cases rule: InstallSnapShot_cases) (use assms(2) in \<open>auto simp: sameCommit_def\<close>)
qed

lemma sendSnapShot_sameCommit: "sendSnapShot rf = (rf', sent) \<Longrightarrow> sameCommit rf rf'"
  by (auto simp: sendSnapShot_def sameCommit_def split: if_splits)

lemma HandleVoteReply_commit:
  assumes "HandleVoteReply args rep vs rf = Some (rf', v, b)" "wf_raft rf"
  shows "CommitIndex rf' = CommitIndex rf" "Log rf' = Log rf" "CurrentTerm rf \<le> CurrentTerm rf'"
    "MatchIndex rf' = MatchIndex rf \<and> (State rf \<noteq> Leader \<longrightarrow> State rf' \<noteq> Leader) \<or> MatchIndex rf' = replicate (peers rf) 0"
  using assms by (auto elim!: HandleVoteReply_cases simp: BecomeLeader_wf_eq)

lemma Start_commit:
  assumes "Start c rf = Some (rf', r)" "wf_raft rf"
  shows "CommitIndex rf' = CommitIndex rf" "MatchIndex rf' = MatchIndex rf" "CurrentTerm rf' = CurrentTerm rf"
    "\<exists>E. Log rf' = Log rf @ E" "State rf' = State rf"
  using assms by (cases "State rf = Leader"; auto simp: Start_leader_eq; simp add: Start_def)+

lemma Make_volatile:
  assumes "Make n i ps clk = Some rf"
  shows "CommitIndex rf = 0" "MatchIndex rf = replicate n 0"
  using assms by (auto simp: Make_def readPersist_def Let_def bind_Some_iff split: if_splits)


lemma deliver_vote_commits:
  assumes cs: "complete_step H s s'" and cm: "commits H s" and k: "k < length (elections s)" and j: "j < size s"
    and st: "stepDeliverVote k j clk s = Some s'"
  shows "commits H s' \<and> reaches H s H s'"
proof -
  note D = complete_stepD [OF cs]
  obtain rf r where v: "RequestVote clk (elArgs (elections s ! k)) (nodes s j) = Some (rf, r)"
    and s': "nodes s' = (nodes s)(j := rf)" "appends s' = appends s"
    using st by (auto simp: stepDeliverVote_def bind_Some_iff Let_def)
  show ?thesis
    using sameCommit_next [OF RequestVote_sameCommit [OF v]] deliver_vote_matching [OF D(1) k j st] s'(2)
    by (intro commits_same [OF cs _ cm s'(1) j acks_to_sub]) auto
qed

lemma elect_commits:
  assumes cs: "complete_step H s s'" and cm: "commits H s" and i: "i < size s" and st: "stepElect i clk s = Some s'"
  shows "commits H s' \<and> reaches H s H s'"
proof -
  note D = complete_stepD [OF cs]
  obtain rf args v where a: "AttemptElection clk (nodes s i) = Some (rf, args, v)"
    and s': "nodes s' = (nodes s)(i := rf)" "appends s' = appends s"
    using st by (auto simp: stepElect_def bind_Some_iff)
  show ?thesis
    using sameCommit_next [OF AttemptElection_sameCommit [OF a]] elect_matching [OF D(1) i st] s'(2)
    by (intro commits_same [OF cs _ cm s'(1) i acks_to_sub]) auto
qed

lemma fire_snap_commits:
  assumes cs: "complete_step H s s'" and cm: "commits H s" and k: "k < length (snaps s)" and st: "stepFireSnap k s = s'"
  shows "commits H s' \<and> reaches H s H s'"
proof -
  note D = complete_stepD [OF cs]
  let ?i = "scFrom (snaps s ! k)"
  obtain rf sent where f: "sendSnapShot (nodes s ?i) = (rf, sent)" by fastforce
  have i: "?i < size s" using cluster_okD(5) [OF D(3), of "snaps s ! k"] k by (auto simp: snap_ok_def)
  have s': "nodes s' = (nodes s)(?i := rf)" "appends s' = appends s" using st f by (auto simp: stepFireSnap_def Let_def)
  show ?thesis
    using sameCommit_next [OF sendSnapShot_sameCommit [OF f]] fire_snap_matching [OF D(1) k st] s'(2)
    by (intro commits_same [OF cs _ cm s'(1) i acks_to_sub]) auto
qed

lemma deliver_snap_commits:
  assumes cs: "complete_step H s s'" and cm: "commits H s" and k: "k < length (snaps s)"
    and st: "stepDeliverSnap k clk s = s'"
  shows "commits H s' \<and> reaches H s H s'"
proof -
  note D = complete_stepD [OF cs]
  let ?c = "snaps s ! k" let ?j = "scTo ?c"
  obtain rf r where f: "InstallSnapShot clk (scArgs ?c) (nodes s ?j) = (rf, r)" by fastforce
  have j: "?j < size s" using cluster_okD(5) [OF D(3), of ?c] k by (auto simp: snap_ok_def)
  have s': "nodes s' = (nodes s)(?j := rf)" "appends s' = appends s" using st f by (auto simp: stepDeliverSnap_def Let_def)
  have "isLastIncludedIndex (scArgs ?c) = LastIncludedIndex (nodes s ?j)"
    using completeD(6) [OF D(2), of ?c] k completeD(2) [OF D(2) j] by simp
  then show ?thesis
    using sameCommit_next [OF InstallSnapShot_sameCommit [OF f]] deliver_snap_matching [OF D(1) k st] s'(2)
    by (intro commits_same [OF cs _ cm s'(1) j acks_to_sub]) auto
qed

lemma crash_commits:
  assumes cs: "complete_step H s s'" and cm: "commits H s" and i: "i < size s" and st: "stepCrash i clk s = Some s'"
  shows "commits H s' \<and> reaches H s H s'"
proof -
  note D = complete_stepD [OF cs]
  obtain rf where r: "Make (size s) i (Copy (persister (nodes s i))) clk = Some rf"
    and s': "nodes s' = (nodes s)(i := rf)" "appends s' = appends s"
    using st by (auto simp: stepCrash_def bind_Some_iff)
  show ?thesis
    using Make_volatile [OF r] crash_matching [OF D(1) i st] s'(2)
    by (intro commits_same [OF cs _ cm s'(1) i acks_to_sub]) (auto simp: commit_next_def match_next_def)
qed

lemma send_commits:
  assumes cs: "complete_step H s s'" and cm: "commits H s" and i: "i < size s" and st: "stepSendTo i j s = Some s'"
  shows "commits H s' \<and> reaches H s H s'"
proof -
  note D = complete_stepD [OF cs]
  let ?rf = "nodes s i"
  obtain out where p: "PrepareEntries j ?rf = Some out" using st by (auto simp: stepSendTo_def bind_Some_iff)
  have wf: "wf_raft ?rf" using cluster_okD(1) [OF D(3) i] by (simp add: node_ok_def)
  note b = completeD(2) [OF D(2) i]
  have nodes: "nodes s' = (nodes s)(i := ?rf)" and sub: "set (appends s) \<subseteq> set (appends s')"
    using st p by (cases out; auto simp: stepSendTo_def)+
  from wf p have "acArgs d \<in> acArgs ` set (appends s) \<or> announce_ok H s (acArgs d)" if d: "d \<in> set (appends s')" for d
  proof (cases rule: PrepareEntries_cases)
    case (entries args k)
    then obtain L where L: "H (CurrentTerm ?rf) = Some L" "tail_of 0 (Log ?rf) L"
      using matchingD(4) [OF D(5) i] b by (auto simp: lead_ok_def)
    have "announce_ok H s args"
      unfolding announce_ok_def
    proof (intro impI conjI exI [of _ L])
      assume "0 < aeLeaderCommit args"
      then have bk: "backed H s (CurrentTerm ?rf) (Log ?rf) (nat (aeLeaderCommit args))"
        using commitsD(1) [OF cm i] entries(10) by (simp add: commit_ok_def)
      then have "nat (aeLeaderCommit args) < length (Log ?rf)" by (auto simp: backed_def holds_def)
      then show "nat (aeLeaderCommit args) \<le> covers args" using entries(5-7,9) b by (auto simp: covers_def)
      show "backed H s (aeTerm args) L (nat (aeLeaderCommit args))"
        using bk entries(3) tail_holds [OF L(2)] by (simp add: backed_def)
    qed (use L entries in simp)
    then show ?thesis using d st p entries(1) by (auto simp: stepSendTo_def)
  qed (use d st p in \<open>auto simp: stepSendTo_def\<close>)
  then show ?thesis
    using send_matching [OF D(1) i st]
    by (intro commits_same [OF cs _ cm nodes i acks_to_sub [OF sub]]) (auto simp: commit_next_def match_next_def)
qed


text \<open>An index that the leader finds on a majority is committed.\<close>

lemma acked_below: "acked H s p t n \<Longrightarrow> m \<le> n \<Longrightarrow> acked H s p t m"
  unfolding acked_def by (meson le_trans order.strict_trans1)

lemma committable_committed:
  assumes "majority (size s) (replicas N rf)" and o: "own H t (nat N)" and won: "won s t (me rf)" and N: "0 < N"
    and match: "\<And>j. j < size s \<Longrightarrow> j \<noteq> me rf \<Longrightarrow> 0 < MatchIndex rf ! j \<Longrightarrow> acked H s j t (nat (MatchIndex rf ! j))"
  shows "committed H s t (nat N)"
proof -
  have "acked H s p t (nat N)" if p: "p \<in> replicas N rf" for p
  proof (cases "p = me rf")
    case True
    then show ?thesis using won o by (auto simp: acked_def own_def holds_def)
  next
    case False
    then have "N \<le> MatchIndex rf ! p" "p < size s" using p assms(1) by (auto simp: replicas_def majority_def)
    then have "acked H s p t (nat (MatchIndex rf ! p))" "nat N \<le> nat (MatchIndex rf ! p)"
      using match [of p] False N by simp_all
    then show ?thesis by (rule acked_below)
  qed
  then show ?thesis using o assms(1) by (auto simp: committed_def)
qed

lemma learned_next:
  assumes cs: "complete_step H s s'" and cm: "commits H s" and i: "i < size s" and j: "j < size s"
    and won: "won s (CurrentTerm (nodes s i)) i"
    and u: "updateCommitIndex (learnMatch j m (nodes s i)) = Some rf"
    and ack: "0 < m \<Longrightarrow> acked H s j (CurrentTerm (nodes s i)) (nat m)"
  shows "commit_next H s (nodes s i) rf \<and> match_next H s (nodes s i) rf"
proof -
  note D = complete_stepD [OF cs]
  let ?rf = "nodes s i" let ?rl = "learnMatch j m ?rf" let ?t = "CurrentTerm ?rf"
  have wf: "wf_raft ?rf" "me ?rf = i" "peers ?rf = size s"
    using cluster_okD(1) [OF D(3) i] by (simp_all add: node_ok_def)
  have len: "length (MatchIndex ?rf) = size s" using wf_raftD(8) [OF wf(1)] wf(3) by simp
  have mi: "MatchIndex ?rl ! p = (if p = j then max m (MatchIndex ?rf ! j) else MatchIndex ?rf ! p)" if "p < size s" for p
    using that len j by (simp add: learnMatch_def nth_list_update)
  have wl: "wf_raft ?rl" using wf(1) by simp
  from wl u have rf: "MatchIndex rf = MatchIndex ?rl \<and> CurrentTerm rf = ?t \<and> Log rf = Log ?rf"
    by (cases rule: updateCommitIndex_frame) auto
  have mn: "match_next H s ?rf rf"
    using mi ack rf by (auto simp: match_next_def max_def)
  from wl u have "commit_next H s ?rf rf"
  proof (cases rule: updateCommitIndex_frame)
    case (moved N)
    have N: "0 < N \<or> CommitIndex rf \<le> 0" using moved(1) by auto
    obtain F where F: "legit H F" "tail_of 0 (Log ?rf) F" using D(5,2) i by (rule log_full)
    have h: "holds ?t (nat N) (Log ?rf)" if "0 < N"
      using that moved(3,4) completeD(2) [OF D(2) i] GetLogEntry_in [of ?rl N]
      by (auto simp: committable_def holds_def lastIndex_def)
    then have o: "own H ?t (nat N)" if "0 < N" using that holds_own [OF F(1)] tail_holds [OF F(2)] by simp
    have "replicas N ?rl \<subseteq> {..<size s}" using wf i by (auto simp: replicas_def)
    then have maj: "majority (size s) (replicas N ?rl)"
      using moved(4) wf wf_raftD(6) [OF wf(1)] by (auto simp: committable_def majority_def)
    have "committed H s ?t (nat N)" if pos: "0 < N"
    proof (rule committable_committed [OF maj o [OF pos] _ pos])
      show "won s ?t (me ?rl)" using won wf(2) by simp
      fix p
      assume "p < size s" "p \<noteq> me ?rl" "0 < MatchIndex ?rl ! p"
      moreover have "H ?t \<noteq> None" using o [OF pos] by (auto simp: own_def)
      ultimately show "acked H s p ?t (nat (MatchIndex ?rl ! p))"
        using commitsD(2) [OF cm i] won ack mi [of p] wf(2) by (auto simp: match_ok_def max_def split: if_splits)
    qed
    moreover have "0 < ?t" by (rule won_positive [OF D(5) won])
    ultimately have "commit_ok H s rf"
      using h o moved(1) unfolding commit_ok_def backed_def own_def by (fastforce simp: holds_def)
    then show ?thesis by (simp add: commit_next_def)
  qed (simp add: commit_next_def)
  then show ?thesis using mn by blast
qed


lemma handle_append_commits:
  assumes cs: "complete_step H s s'" and cm: "commits H s" and k: "k < length (appends s)"
    and st: "stepHandleAppend k okay s = Some s'"
  shows "commits H s' \<and> reaches H s H s'"
proof (cases "acState (appends s ! k)")
  case (Replied r)
  note D = complete_stepD [OF cs]
  let ?c = "appends s ! k" let ?i = "acFrom ?c" let ?rep = "if okay then Some r else None"
  obtain rf where hr: "HandleAppendReply (acTo ?c) (acArgs ?c) ?rep (nodes s ?i) = Some rf"
    and s': "s' = (setNode ?i rf s)\<lparr>appends := (appends s)[k := ?c\<lparr>acState := Handled r okay\<rparr>]\<rparr>"
      (is "_ = _\<lparr>appends := _[k := ?c']\<rparr>")
    using st Replied by (auto simp: stepHandleAppend_def bind_Some_iff Let_def)
  have c: "append_ok s ?c" using cluster_okD(4) [OF D(3), of ?c] k by simp
  then have i: "?i < size s" and j: "acTo ?c < size s" by (auto simp: append_ok_def)
  have wf: "wf_raft (nodes s ?i)" "acTo ?c < peers (nodes s ?i)"
    using j cluster_okD(1) [OF D(3) i] by (simp_all add: node_ok_def)
  from wf hr have "commit_next H s (nodes s ?i) rf \<and> match_next H s (nodes s ?i) rf"
  proof (cases rule: HandleAppendReply_cases)
    case (success r')
    then have "succeeded (acState ?c)" using Replied by (auto split: if_splits)
    then have "acked H s (acTo ?c) (CurrentTerm (nodes s ?i)) (covers (acArgs ?c))"
      using k success(2) unfolding acked_def by (intro disjI1 bexI [of _ ?c]) auto
    moreover have "0 \<le> aePrevLogIndex (acArgs ?c)" using completeD(5) [OF D(2), of ?c] k by (simp add: append_from_def)
    then have "nat (aePrevLogIndex (acArgs ?c) + int (length (aeEntries (acArgs ?c)))) = covers (acArgs ?c)"
      by (simp add: covers_def nat_add_distrib)
    ultimately show ?thesis
      using c success(2) by (intro learned_next [OF cs cm i j _ success(5)]) (auto simp: append_ok_def)
  qed (auto intro!: sameCommit_next simp: sameCommit_def)
  moreover have "acks_to s s'" using k Replied s' by (intro acks_to_update [OF k, of ?c']) auto
  ultimately show ?thesis
    using handle_append_matching [OF D(1) k st] s' k
    by (intro commits_same [OF cs _ cm _ i, of rf]) (auto dest!: set_update_subset_insert [THEN subsetD])
qed (use cm st in \<open>auto simp: stepHandleAppend_def\<close>)

lemma handle_snap_commits:
  assumes cs: "complete_step H s s'" and cm: "commits H s" and k: "k < length (snaps s)"
    and st: "stepHandleSnap k okay s = Some s'"
  shows "commits H s' \<and> reaches H s H s'"
proof (cases "scState (snaps s ! k)")
  case (Replied r)
  note D = complete_stepD [OF cs]
  let ?c = "snaps s ! k" let ?i = "scFrom ?c" let ?rep = "if okay then Some r else None"
  obtain rf where hr: "HandleSnapReply (scTo ?c) (scArgs ?c) ?rep (nodes s ?i) = Some rf"
    and s': "nodes s' = (nodes s)(?i := rf)" "appends s' = appends s"
    using st Replied by (auto simp: stepHandleSnap_def bind_Some_iff Let_def)
  have c: "snap_ok s ?c" using cluster_okD(5) [OF D(3), of ?c] k by simp
  then have i: "?i < size s" and j: "scTo ?c < size s" by (auto simp: snap_ok_def)
  have wf: "wf_raft (nodes s ?i)" "scTo ?c < peers (nodes s ?i)"
    using j cluster_okD(1) [OF D(3) i] by (simp_all add: node_ok_def)
  from wf hr have "commit_next H s (nodes s ?i) rf \<and> match_next H s (nodes s ?i) rf"
  proof (cases rule: HandleSnapReply_cases)
    case (success r')
    then show ?thesis
      using c completeD(6) [OF D(2), of ?c] k by (intro learned_next [OF cs cm i j _ success(4)]) (auto simp: snap_ok_def)
  qed (auto intro!: sameCommit_next simp: sameCommit_def)
  then show ?thesis
    using handle_snap_matching [OF D(1) k st] s'(2)
    by (intro commits_same [OF cs _ cm s'(1) i acks_to_sub]) auto
qed (use cm st in \<open>auto simp: stepHandleSnap_def\<close>)

text \<open>A committed entry and everything before it is in the log of its term and of every later one.\<close>

lemma committed_agree:
  assumes mt: "matching H s" and cp: "complete H s" and a: "committed H s t n" "0 < t" "H t = Some M"
    and b: "t \<le> u" "H u = Some N" and m: "m \<le> n"
  shows "M ! m = N ! m" "m < length N"
proof -
  have hm: "holds t n M" using a(1,3) by (auto simp: committed_def own_def)
  have hn: "holds t n N"
  proof (cases "t = u")
    case False
    then show ?thesis using leader_completeness [OF cp a(1) _ b(2) a(2)] b(1) by simp
  qed (use hm a(3) b(2) in simp)
  have "legit H M" "legit H N" using ledger_legit [OF matchingD(1) [OF mt]] a(3) b(2) by blast+
  then have "take (Suc n) M = take (Suc n) N" using hm hn by (intro legit_match) (auto simp: holds_def)
  then show "M ! m = N ! m" using m by (metis le_imp_less_Suc nth_take)
  show "m < length N" using hn m by (simp add: holds_def)
qed

text \<open>The log of every leader that a committed index may meet leads up to it.\<close>

lemma backed_ledger:
  assumes mt: "matching H s" and cp: "complete H s" and b: "backed H s T es k" and T: "T \<le> T'" "H T' = Some L"
    and h: "holds u k es"
  shows "holds u k L"
proof -
  obtain t n M where t: "0 < t" "t \<le> T" "committed H s t n" "H t = Some M" "k \<le> n" "holds (leTerm (M ! k)) k es"
    using b by (auto simp: backed_def)
  then have "M ! k = L ! k" "k < length L"
    using committed_agree [OF mt cp t(3,1,4) _ T(2) t(5)] T(1) by simp_all
  then show ?thesis using t(6) h by (simp add: holds_def)
qed

lemma accepted_commit:
  assumes mt: "matching H s" and cp: "complete H s" and cm: "commits H s" and j: "j < size s" and wf: "wf_raft (nodes s j)"
    and c: "c \<in> set (appends s)" and ac: "CurrentTerm (nodes s j) \<le> aeTerm (acArgs c)" "consistent (acArgs c) (nodes s j)"
    and rf: "Log rf = mergedLog (acArgs c) (nodes s j)" "CurrentTerm rf = aeTerm (acArgs c)" "LastIncludedIndex rf = 0"
    and ci: "CommitIndex rf = (if aeLeaderCommit (acArgs c) > CommitIndex (nodes s j)
      then min (aeLeaderCommit (acArgs c)) (lastIndex rf) else CommitIndex (nodes s j))"
  shows "commit_next H s (nodes s j) rf"
proof -
  let ?rf = "nodes s j" let ?args = "acArgs c" let ?n = "nat (aeLeaderCommit (acArgs c))"
  note H = matchingD(1) [OF mt] and base = completeD(2) [OF cp j] and af = completeD(5) [OF cp c]
  obtain F where F: "legit H F" "tail_of 0 (Log ?rf) F" using mt cp j by (rule log_full)
  obtain L where L: "H (aeTerm ?args) = Some L" using af H by (rule append_fromE)
  note agrees = mergedLog_agrees [OF wf ac(2) base F af H L]
  consider "CommitIndex rf \<le> 0" | "CommitIndex rf = CommitIndex ?rf" "0 < CommitIndex rf"
    | "0 < CommitIndex rf" "CommitIndex rf = min (aeLeaderCommit ?args) (lastIndex rf)" "0 < aeLeaderCommit ?args"
    using ci by (force split: if_splits)
  then show ?thesis
  proof cases
    case 2
    then have bk: "backed H s (CurrentTerm ?rf) (Log ?rf) (nat (CommitIndex ?rf))"
      using commitsD(1) [OF cm j] by (simp add: commit_ok_def)
    have "holds t (nat (CommitIndex ?rf)) (Log rf)" if h: "holds t (nat (CommitIndex ?rf)) (Log ?rf)" for t
      using backed_ledger [OF mt cp bk ac(1) L h] agrees [of "nat (CommitIndex ?rf)"] h by (auto simp: holds_def rf(1))
    then show ?thesis using 2 ac(1) rf(2) by (simp add: commit_next_def)
  next
    case 3
    have an: "?n \<le> covers ?args" "backed H s (aeTerm ?args) L ?n"
      using commitsD(3) [OF cm c] 3(3) L by (auto simp: announce_ok_def)
    then have h: "holds (leTerm (L ! ?n)) ?n (Log rf)" using agrees [of ?n] rf(1) by simp
    then have "CommitIndex rf = aeLeaderCommit ?args" using 3 rf(3) by (auto simp: holds_def lastIndex_def)
    moreover have "backed H s (aeTerm ?args) (Log rf) ?n"
      by (rule backed_reaches [OF reaches_refl an(2)]) (use h in \<open>auto simp: holds_def\<close>)
    ultimately show ?thesis using rf(2) by (simp add: commit_next_def commit_ok_def)
  qed (simp add: commit_next_def)
qed

lemma deliver_append_commits:
  assumes cs: "complete_step H s s'" and cm: "commits H s" and k: "k < length (appends s)"
    and st: "stepDeliverAppend k clk s = Some s'"
  shows "commits H s' \<and> reaches H s H s'"
proof -
  note D = complete_stepD [OF cs]
  let ?c = "appends s ! k" let ?j = "acTo ?c" let ?args = "acArgs ?c" let ?rf = "nodes s (acTo (appends s ! k))"
  obtain rf r where ae: "AppendEntries clk ?args ?rf = Some (rf, r)"
    and s': "s' = (setNode ?j rf s)\<lparr>appends := (appends s)[k := ?c\<lparr>acState := deliver r (acState ?c)\<rparr>]\<rparr>"
      (is "_ = _\<lparr>appends := _[k := ?c']\<rparr>")
    using st by (auto simp: stepDeliverAppend_def bind_Some_iff Let_def)
  from cluster_okD(4) [OF D(3), of ?c] k have j: "?j < size s" and v: "valid_append ?args"
    by (auto simp: append_ok_def)
  have wf: "wf_raft ?rf" using cluster_okD(1) [OF D(3) j] by (simp add: node_ok_def)
  have ml: "MatchIndex (acceptLeader clk t ?rf) = MatchIndex ?rf" for t by (simp add: acceptLeader_def)
  from wf v have "commit_next H s ?rf rf \<and> match_next H s ?rf rf"
  proof (cases rule: AppendEntries_cases [of ?rf ?args clk])
    case (accepted rf3 reply)
    have rf: "Log rf = mergedLog ?args ?rf" "CurrentTerm rf = aeTerm ?args" "MatchIndex rf = MatchIndex ?rf"
        "LastIncludedIndex rf = 0"
      and ci: "CommitIndex rf = (if aeLeaderCommit ?args > CommitIndex ?rf
        then min (aeLeaderCommit ?args) (lastIndex rf) else CommitIndex ?rf)"
      using accepted ae ml completeD(2) [OF D(2) j] by (auto split: if_splits simp: lastIndex_def)
    have "commit_next H s ?rf rf"
      using nth_mem [OF k] by (rule accepted_commit [OF D(5,2) cm j wf _ accepted(1,2) rf(1,2,4) ci])
    then show ?thesis using rf(2,3) accepted(1) by (auto simp: match_next_def)
  qed (use ae ml in \<open>auto intro!: sameCommit_next simp: sameCommit_def\<close>)
  moreover have "acks_to s s'"
    using k s' by (intro acks_to_update [OF k, of ?c']) (auto simp: succeeded_deliver)
  ultimately show ?thesis
    using deliver_append_matching [OF D(1) k st] s' k
    by (intro commits_same [OF cs _ cm _ j, of rf]) (auto dest!: set_update_subset_insert [THEN subsetD])
qed

text \<open>What holds between a state and the next, for the ledger that goes with each.\<close>

definition sound :: "'c ledger \<Rightarrow> ('c, 's) Cluster \<Rightarrow> bool" where
  "sound H s \<longleftrightarrow> cluster_ok s \<and> matching H s \<and> complete H s \<and> commits H s"

definition follows :: "'c ledger \<Rightarrow> ('c, 's) Cluster \<Rightarrow> ('c, 's) Cluster \<Rightarrow> bool" where
  "follows H s s' \<longleftrightarrow> (\<exists>H'. sound H' s' \<and> reaches H s H' s')"

lemma followsI:
  assumes "complete_step H s s'" "matching H s'" "complete H s'" "commits H s' \<and> reaches H s H s'"
  shows "follows H s s'"
  using assms complete_stepD(4) [OF assms(1)] unfolding follows_def sound_def by blast

lemma commits_grown:
  assumes cs: "complete_step H s s'" and cm: "commits H s" and H': "grows H H'" "matching H' s'" "complete H' s'"
    and new: "leads_new H s H' s' i" and nodes: "nodes s' = (nodes s)(i := rf)" and i: "i < size s"
    and app: "appends s' = appends s" and nx: "commit_next H s (nodes s i) rf" "match_next H s (nodes s i) rf"
    and reset: "State (nodes s i) = Candidate \<Longrightarrow> State rf = Leader \<Longrightarrow> \<forall>j < size s. MatchIndex rf ! j \<le> 0"
  shows "follows H s s'"
proof -
  note D = complete_stepD [OF cs]
  have r: "reaches H s H' s'" using app by (intro reaches_step [OF H'(1) D(4,6)] acks_to_sub) simp
  have "won s' t i \<and> (\<forall>j < size s. MatchIndex rf ! j \<le> 0)" if "H t = None" "H' t \<noteq> None" for t
    using new that reset cluster_okD(3) [OF D(4), of i] i D(7) nodes by (auto simp: leads_new_def)
  then have "commits H' s'" using app by (intro commits_next [OF cs H'(2) cm r nodes i nx]) auto
  then show ?thesis using D(4) H' r unfolding follows_def sound_def by blast
qed

lemma handle_vote_follows:
  assumes cs: "complete_step H s s'" and cm: "commits H s" and k: "k < length (elections s)"
    and st: "stepHandleVote k j okay s = Some s'"
  shows "follows H s s'"
proof (cases "elCalls (elections s ! k) j")
  case (Replied r)
  note D = complete_stepD [OF cs]
  let ?el = "elections s ! k" let ?i = "elCand ?el"
  obtain rep rf v b where hv: "HandleVoteReply (elArgs ?el) rep (elVotes ?el) (nodes s ?i) = Some (rf, v, b)"
    and s': "nodes s' = (nodes s)(?i := rf)" "appends s' = appends s"
    using st Replied by (auto simp: stepHandleVote_def bind_Some_iff Let_def)
  have i: "?i < size s" using cluster_okD(2) [OF D(3)] k by (simp add: el_ok_def)
  have wf: "wf_raft (nodes s ?i)" "peers (nodes s ?i) = size s"
    using cluster_okD(1) [OF D(3) i] by (simp_all add: node_ok_def)
  note C = HandleVoteReply_commit [OF hv wf(1)]
  obtain H' where H': "grows H H'" "matching H' s'" "complete H' s'" "leads_new H s H' s' ?i"
    using handle_vote_complete [OF cs k st] by blast
  show ?thesis
    by (rule commits_grown [OF cs cm H' s'(1) i s'(2)]) (use C wf(2) in \<open>auto simp: commit_next_def match_next_def\<close>)
qed (use cs cm st in \<open>auto simp: stepHandleVote_def follows_def sound_def complete_step_def matching_step_def intro!: exI [of _ H]\<close>)

lemma start_follows:
  assumes cs: "complete_step H s s'" and cm: "commits H s" and i: "i < size s"
    and st: "Start c (nodes s i) = Some (rf, r)" and s': "s' = setNode i rf s"
  shows "follows H s s'"
proof -
  note D = complete_stepD [OF cs]
  have wf: "wf_raft (nodes s i)" using cluster_okD(1) [OF D(3) i] by (simp add: node_ok_def)
  note C = Start_commit [OF st wf]
  obtain H' where H': "grows H H'" "matching H' s'" "complete H' s'" "leads_new H s H' s' i"
    using start_complete [OF cs i st s'] by blast
  have "holds t n (Log (nodes s i)) \<Longrightarrow> holds t n (Log rf)" for t n using C(4) holds_append by auto
  then show ?thesis
    using s' C by (intro commits_grown [OF cs cm H', of rf]) (auto simp: commit_next_def match_next_def i)
qed

section \<open>Runs without snapshots\<close>

definition noSnapshot :: "('c, 's) event \<Rightarrow> bool" where
  "noSnapshot ev = (case ev of ServiceSnapshot _ _ _ \<Rightarrow> False | _ \<Rightarrow> True)"

lemma step_follows:
  assumes sd: "sound H s" and st: "step ev s = Some s'" and ns: "noSnapshot ev"
  shows "follows H s s'"
proof -
  have ok: "cluster_ok s" and cm: "commits H s" using sd by (simp_all add: sound_def)
  have cs: "complete_step H s s'"
    using sd step_ok [OF ok st] step_history [OF st] by (simp add: complete_step_def matching_step_def sound_def)
  note ms = complete_stepD(1) [OF cs]
  have idle: "s' = s \<Longrightarrow> ?thesis" using sd unfolding follows_def by (intro exI [of _ H]) simp
  show ?thesis
  proof (cases ev)
    case (Elect i clk)
    then show ?thesis
      using st idle followsI [OF cs elect_matching [OF ms] elect_complete [OF cs] elect_commits [OF cs cm]]
      by (auto simp: step_def active_def split: if_splits)
  next
    case (DeliverVote k j clk)
    then show ?thesis
      using st idle followsI [OF cs deliver_vote_matching [OF ms] deliver_vote_complete [OF cs] deliver_vote_commits [OF cs cm]]
      by (auto simp: step_def active_def split: if_splits)
  next
    case (HandleVote k j okay)
    then show ?thesis using st idle handle_vote_follows [OF cs cm] by (auto simp: step_def split: if_splits)
  next
    case (SendTo i j)
    then show ?thesis
      using st idle followsI [OF cs send_matching [OF ms] send_complete [OF cs] send_commits [OF cs cm]]
      by (auto simp: step_def active_def split: if_splits)
  next
    case (DeliverAppend k clk)
    then show ?thesis
      using st idle followsI [OF cs deliver_append_matching [OF ms] deliver_append_complete [OF cs] deliver_append_commits [OF cs cm]]
      by (auto simp: step_def split: if_splits)
  next
    case (HandleAppend k okay)
    then show ?thesis
      using st idle followsI [OF cs handle_append_matching [OF ms] handle_append_complete [OF cs] handle_append_commits [OF cs cm]]
      by (auto simp: step_def split: if_splits)
  next
    case (FireSnap k)
    then show ?thesis
      using st idle followsI [OF cs fire_snap_matching [OF ms] fire_snap_complete [OF cs] fire_snap_commits [OF cs cm]]
      by (auto simp: step_def split: if_splits)
  next
    case (DeliverSnap k clk)
    then show ?thesis
      using st idle followsI [OF cs deliver_snap_matching [OF ms] deliver_snap_complete [OF cs] deliver_snap_commits [OF cs cm]]
      by (auto simp: step_def split: if_splits)
  next
    case (HandleSnap k okay)
    then show ?thesis
      using st idle followsI [OF cs handle_snap_matching [OF ms] handle_snap_complete [OF cs] handle_snap_commits [OF cs cm]]
      by (auto simp: step_def split: if_splits)
  next
    case (ClientStart i c)
    then show ?thesis
      using st idle start_follows [OF cs cm] by (fastforce simp: step_def active_def split: if_splits)
  next
    case (Crash i clk)
    then show ?thesis
      using st idle followsI [OF cs crash_matching [OF ms] crash_complete [OF cs] crash_commits [OF cs cm]]
      by (auto simp: step_def split: if_splits)
  qed (use ns in \<open>simp add: noSnapshot_def\<close>)
qed

lemma steps_follows:
  "sound H s \<Longrightarrow> steps evs s = Some s' \<Longrightarrow> list_all noSnapshot evs \<Longrightarrow> follows H s s'"
proof (induction evs arbitrary: s H)
  case Nil
  then show ?case by (auto simp: follows_def intro!: exI [of _ H])
next
  case (Cons ev evs)
  from Cons.prems(2) obtain s1 where s1: "step ev s = Some s1" "steps evs s1 = Some s'"
    by (auto simp: bind_Some_iff)
  obtain H1 where H1: "sound H1 s1" "reaches H s H1 s1"
    using step_follows [OF Cons.prems(1) s1(1)] Cons.prems(3) by (auto simp: follows_def)
  obtain H2 where "sound H2 s'" "reaches H1 s1 H2 s'"
    using Cons.IH [OF H1(1) s1(2)] Cons.prems(3) by (auto simp: follows_def)
  then show ?case using reaches_trans [OF H1(2)] by (auto simp: follows_def)
qed

lemma init_sound: "sound [0 \<mapsto> [zeroEntry]] (initCluster n :: ('c, 's) Cluster)"
proof -
  have "complete [0 \<mapsto> [zeroEntry]] (initCluster n :: ('c, 's) Cluster)"
    unfolding complete_def initCluster_def freshPeer_def Make_fresh
    by (auto simp: ledger_sorted_def kept_def acked_def won_def savedTerm_def savedState_def MakePersister_def split: if_splits)
  moreover have "commits [0 \<mapsto> [zeroEntry]] (initCluster n :: ('c, 's) Cluster)"
    unfolding commits_def initCluster_def freshPeer_def Make_fresh by (auto simp: commit_ok_def match_ok_def won_def)
  ultimately show ?thesis by (simp add: sound_def init_ok init_matching)
qed


section \<open>State machine safety\<close>

text \<open>Up to a backed index a log is the log of the committed entry's term.\<close>

lemma backedE:
  assumes "matching H s" "backed H s T es k" and F: "legit H F" "tail_of 0 es F"
  obtains t n M where "0 < t" "t \<le> T" "committed H s t n" "H t = Some M" "k \<le> n" "take (Suc k) F = take (Suc k) M"
    "k < length F"
proof -
  obtain t n M where t: "0 < t" "t \<le> T" "committed H s t n" "H t = Some M" "k \<le> n" "holds (leTerm (M ! k)) k es"
    using assms(2) by (auto simp: backed_def)
  have "holds (leTerm (M ! k)) k F" using t(6) tail_holds [OF F(2)] by simp
  moreover have "k < length M" using t(3-5) by (auto simp: committed_def own_def holds_def)
  moreover have "legit H M" by (rule ledger_legit [OF matchingD(1) [OF assms(1)] t(4)])
  ultimately have "k < length F" "take (Suc k) F = take (Suc k) M"
    using legit_match [OF F(1)] by (auto simp: holds_def)
  then show ?thesis using t that by blast
qed

lemma backed_agree:
  assumes mt: "matching H s" and cp: "complete H s"
    and a: "backed H s T es k" "legit H F" "tail_of 0 es F" and b: "backed H s T' es' k'" "legit H G" "tail_of 0 es' G"
    and m: "m \<le> k" "m \<le> k'"
  shows "F ! m = G ! m"
proof -
  from mt a obtain t n M where t: "0 < t" "committed H s t n" "H t = Some M" "k \<le> n" "take (Suc k) F = take (Suc k) M"
    by (rule backedE)
  from mt b obtain u o' N where u: "0 < u" "committed H s u o'" "H u = Some N" "k' \<le> o'" "take (Suc k') G = take (Suc k') N"
    by (rule backedE)
  have "F ! m = M ! m" "G ! m = N ! m" using t(5) u(5) m by (metis le_imp_less_Suc nth_take)+
  moreover have "M ! m = N ! m"
  proof (cases "t \<le> u")
    case True
    then show ?thesis using committed_agree [OF mt cp t(2,1,3) _ u(3)] m t(4) by simp
  next
    case False
    then show ?thesis using committed_agree [OF mt cp u(2,1,3) _ t(3), of m] m u(4) by simp
  qed
  ultimately show ?thesis by simp
qed

lemma GetLogEntry_base:
  assumes "LastIncludedIndex rf = 0" "tail_of 0 (Log rf) F" "0 < k" "nat k < length F"
  shows "GetLogEntry rf k = (F ! nat k, True)"
  using assms tail_of_length [OF assms(2)] tail_of_nth(2) [OF assms(2), of "nat k"]
  by (auto simp: GetLogEntry_def Let_def)

text \<open>What a run without snapshots knows of an index that peer \<open>i\<close> has committed on the way.\<close>

lemma committed_run:
  assumes "steps evs (initCluster n :: ('c, 's) Cluster) = Some s" and "steps evs' s = Some s'"
    and "list_all noSnapshot (evs @ evs')" and "i < n" and k: "0 < k" "k \<le> CommitIndex (nodes s i)"
  obtains H F where "sound H s'" "size s' = n" "legit H F" "tail_of 0 (Log (nodes s i)) F"
    "backed H s' (CurrentTerm (nodes s i)) (Log (nodes s i)) (nat (CommitIndex (nodes s i)))"
    "GetLogEntry (nodes s i) k = (F ! nat k, True)"
proof -
  have "follows [0 \<mapsto> [zeroEntry]] (initCluster n) s" using steps_follows [OF init_sound assms(1)] assms(3) by simp
  then obtain H where H: "sound H s" "size s = n" by (auto simp: follows_def reaches_def initCluster_def)
  have "follows H s s'" using steps_follows [OF H(1) assms(2)] assms(3) by simp
  then obtain H' where H': "sound H' s'" "reaches H s H' s'" "size s' = n" using H(2) by (auto simp: follows_def reaches_def)
  have mt: "matching H s" "complete H s" "commits H s" "matching H' s'" using H(1) H'(1) by (simp_all add: sound_def)
  have i: "i < size s" using assms(4) H(2) by simp
  obtain F where F: "legit H F" "tail_of 0 (Log (nodes s i)) F" using mt(1,2) i by (rule log_full)
  have F': "legit H' F" using legit_mono [OF F(1)] H'(2) by (simp add: reaches_def)
  have b: "backed H s (CurrentTerm (nodes s i)) (Log (nodes s i)) (nat (CommitIndex (nodes s i)))"
    using commitsD(1) [OF mt(3) i] k by (simp add: commit_ok_def)
  have b': "backed H' s' (CurrentTerm (nodes s i)) (Log (nodes s i)) (nat (CommitIndex (nodes s i)))"
    by (rule backed_reaches [OF H'(2) b]) simp_all
  have "nat (CommitIndex (nodes s i)) < length F" using mt(4) b' F' F(2) by (rule backedE)
  then have "GetLogEntry (nodes s i) k = (F ! nat k, True)"
    using k by (intro GetLogEntry_base [OF completeD(2) [OF mt(2) i] F(2)]) simp_all
  then show ?thesis using that H' F' F(2) b' by blast
qed

text \<open>C1: state machine safety. In every run without snapshots, with any interleaving, delays,
  losses and duplications of messages and any crashes and restarts: if an index is committed at
  peer \<open>i\<close> at some moment and at peer \<open>j\<close> at that or any later moment, both peers hold an entry
  there and it is the same one, command, term and index.\<close>

theorem state_machine_safety:
  assumes "steps evs (initCluster n :: ('c, 's) Cluster) = Some s" and "steps evs' s = Some s'"
    and "list_all noSnapshot (evs @ evs')" and "i < n" "j < n"
    and "0 < k" "k \<le> CommitIndex (nodes s i)" "k \<le> CommitIndex (nodes s' j)"
  shows "snd (GetLogEntry (nodes s i) k) \<and> GetLogEntry (nodes s i) k = GetLogEntry (nodes s' j) k"
proof -
  obtain H F where F: "sound H s'" "size s' = n" "legit H F" "tail_of 0 (Log (nodes s i)) F"
      "backed H s' (CurrentTerm (nodes s i)) (Log (nodes s i)) (nat (CommitIndex (nodes s i)))"
      "GetLogEntry (nodes s i) k = (F ! nat k, True)"
    using assms(1-4,6,7) by (rule committed_run)
  then have mt: "matching H s'" "complete H s'" "commits H s'" and j: "j < size s'"
    using assms(5) by (simp_all add: sound_def)
  obtain G where G: "legit H G" "tail_of 0 (Log (nodes s' j)) G" using mt(1,2) j by (rule log_full)
  have b: "backed H s' (CurrentTerm (nodes s' j)) (Log (nodes s' j)) (nat (CommitIndex (nodes s' j)))"
    using commitsD(1) [OF mt(3) j] assms(6,8) by (simp add: commit_ok_def)
  have "nat (CommitIndex (nodes s' j)) < length G" using mt(1) b G by (rule backedE)
  moreover have "F ! nat k = G ! nat k"
    using assms(7,8) by (intro backed_agree [OF mt(1,2) F(5,3,4) b G]) simp_all
  ultimately show ?thesis
    using F(6) assms(6,8) GetLogEntry_base [OF completeD(2) [OF mt(2) j] G(2) assms(6)] by simp
qed

definition commitEvents :: "(nat, nat) event list" where
  "commitEvents =
     [Elect 0 (1, 1), DeliverVote 0 1 (1, 1), HandleVote 0 1 True, ClientStart 0 7,
      SendTo 0 1, DeliverAppend 0 (2, 2), HandleAppend 0 True]"

definition takeoverEvents :: "(nat, nat) event list" where
  "takeoverEvents =
     [Crash 0 (5, 5), Elect 1 (6, 6), DeliverVote 1 2 (6, 6), HandleVote 1 2 True, ClientStart 1 9,
      SendTo 1 0, DeliverAppend 1 (7, 7), HandleAppend 1 True]"

lemma takeover_commits:
  "map_option (\<lambda>s. (CommitIndex (nodes s 0), CurrentTerm (nodes s 0),
       map_option (\<lambda>s'. (CommitIndex (nodes s' 1), GetLogEntry (nodes s' 1) 1, State (nodes s' 1), CurrentTerm (nodes s' 1)))
         (steps takeoverEvents s))) (steps commitEvents (initCluster 3)) =
   Some (1, 1, Some (2, (\<lparr>leCommand = Some 7, leTerm = 1, leIndex = 1\<rparr>, True), Leader, 2))"
  by code_simp

theorem state_machine_safety_witness:
  "\<exists>s s'. steps commitEvents (initCluster 3) = Some s \<and> steps takeoverEvents s = Some s' \<and>
     CommitIndex (nodes s 0) = 1 \<and> CommitIndex (nodes s' 1) = 2 \<and>
     GetLogEntry (nodes s 0) 1 = (\<lparr>leCommand = Some 7, leTerm = 1, leIndex = 1\<rparr>, True)"
proof -
  obtain s s' where s: "steps commitEvents (initCluster 3) = Some s" "steps takeoverEvents s = Some s'"
      "CommitIndex (nodes s 0) = 1" "CommitIndex (nodes s' 1) = 2"
      "GetLogEntry (nodes s' 1) 1 = (\<lparr>leCommand = Some 7, leTerm = 1, leIndex = 1\<rparr>, True)"
    using takeover_commits by auto
  have "list_all noSnapshot (commitEvents @ takeoverEvents)" by code_simp
  then show ?thesis using state_machine_safety [OF s(1,2), of 0 1 1] s by auto
qed

text \<open>C4: leader completeness. In every run without snapshots: whatever peer \<open>i\<close> has committed at
  some moment is in the log of every leader, at that or any later moment, of a term not before
  the one that peer \<open>i\<close> was in.\<close>

theorem committed_in_later_leaders:
  assumes "steps evs (initCluster n :: ('c, 's) Cluster) = Some s" and "steps evs' s = Some s'"
    and "list_all noSnapshot (evs @ evs')" and "i < n" "j < n"
    and "0 < k" "k \<le> CommitIndex (nodes s i)"
    and "State (nodes s' j) = Leader" "CurrentTerm (nodes s i) \<le> CurrentTerm (nodes s' j)"
  shows "snd (GetLogEntry (nodes s i) k) \<and> GetLogEntry (nodes s' j) k = GetLogEntry (nodes s i) k"
proof -
  obtain H F where F: "sound H s'" "size s' = n" "legit H F" "tail_of 0 (Log (nodes s i)) F"
      "backed H s' (CurrentTerm (nodes s i)) (Log (nodes s i)) (nat (CommitIndex (nodes s i)))"
      "GetLogEntry (nodes s i) k = (F ! nat k, True)"
    using assms(1-4,6,7) by (rule committed_run)
  then have mt: "matching H s'" "complete H s'" and j: "j < size s'" using assms(5) by (simp_all add: sound_def)
  note base = completeD(2) [OF mt(2) j]
  obtain L where L: "H (CurrentTerm (nodes s' j)) = Some L" "tail_of 0 (Log (nodes s' j)) L"
    using matchingD(4) [OF mt(1) j] assms(8) base by (auto simp: lead_ok_def)
  obtain t m M where t: "0 < t" "t \<le> CurrentTerm (nodes s i)" "committed H s' t m" "H t = Some M"
      "nat (CommitIndex (nodes s i)) \<le> m" "take (Suc (nat (CommitIndex (nodes s i)))) F = take (Suc (nat (CommitIndex (nodes s i)))) M"
    using mt(1) F(5,3,4) by (rule backedE)
  have "nat k < Suc (nat (CommitIndex (nodes s i)))" using assms(7) by simp
  then have "F ! nat k = M ! nat k" using t(6) by (metis nth_take)
  moreover have "M ! nat k = L ! nat k" "nat k < length L"
    using committed_agree [OF mt t(3,1,4) _ L(1), of "nat k"] t(2,5) assms(7,9) by simp_all
  ultimately show ?thesis using F(6) GetLogEntry_base [OF base L(2) assms(6)] by simp
qed

theorem committed_in_later_leaders_witness:
  "\<exists>s s'. steps commitEvents (initCluster 3) = Some s \<and> steps takeoverEvents s = Some s' \<and>
     State (nodes s' 1) = Leader \<and> CurrentTerm (nodes s' 1) = 2 \<and>
     GetLogEntry (nodes s' 1) 1 = GetLogEntry (nodes s 0) 1"
proof -
  obtain s s' where s: "steps commitEvents (initCluster 3) = Some s" "steps takeoverEvents s = Some s'"
      "CommitIndex (nodes s 0) = 1" "CurrentTerm (nodes s 0) = 1" "State (nodes s' 1) = Leader" "CurrentTerm (nodes s' 1) = 2"
    using takeover_commits by auto
  have "list_all noSnapshot (commitEvents @ takeoverEvents)" by code_simp
  then show ?thesis using committed_in_later_leaders [OF s(1,2), of 0 1 1] s by auto
qed

end
