(* ===== verification/Raft_System.thy ===== *)
theory Raft_System
  imports Raft_Commit
begin

text \<open>
  The cluster together with the applier goroutine of every peer (\<^verbatim>\<open>src/raft1/raft.go\<close>) and a
  service that reads what the appliers send. The apply channel is unbuffered: the messages
  that an applier has decided to send are handed over one by one, and it goes on when the
  last one has been received. The service is a parameter: what it does with a message, on its
  own, and when its server is restarted; the locale \<open>apply_service\<close> is what it relies on.

  After a restart only the goroutines of the new incarnation are followed. An applier that is
  killed while it sends goes on with its batch, but to the channel of its own incarnation: for
  the replicated state machine this changes only objects that nobody can reach any more, since
  the network drops the replies of a deleted server. The readers of the Raft tests are
  different, and what is shown about them is restricted accordingly.
\<close>

section \<open>The system\<close>

record ('c, 's, 'r) Sys =
  cluster :: "('c, 's) Cluster"
  pcs :: "nat \<Rightarrow> applier_pc"
  chan :: "nat \<Rightarrow> ('c, 's) ApplyMsg list"
  svc :: 'r

datatype ('c, 's, 'u) sysEvent = Net "('c, 's) event" | ApplierStep nat | Receive nat | Local nat 'u

text \<open>A network event; a crash also replaces applier, channel and service of the server.\<close>

definition netStep :: "(nat \<Rightarrow> 'r \<Rightarrow> 'r) \<Rightarrow> ('c, 's) event \<Rightarrow> ('c, 's, 'r) Sys \<Rightarrow> ('c, 's, 'r) Sys option" where
  "netStep restart ev y = do {
     s \<leftarrow> step ev (cluster y);
     let y1 = y\<lparr>cluster := s\<rparr>;
     Some (case ev of
         Crash i clk \<Rightarrow>
           if i < size s
           then y1\<lparr>pcs := (pcs y)(i := AHead), chan := (chan y)(i := []), svc := restart i (svc y)\<rparr> else y1
       | _ \<Rightarrow> y1)
   }"

definition applierStep :: "nat \<Rightarrow> ('c, 's, 'r) Sys \<Rightarrow> ('c, 's, 'r) Sys option" where
  "applierStep i y =
     (if active i (cluster y) \<and> chan y i = []
      then do {
        (pc, rf, msgs) \<leftarrow> Applier (pcs y i) (nodes (cluster y) i);
        Some (y\<lparr>cluster := setNode i rf (cluster y), pcs := (pcs y)(i := pc), chan := (chan y)(i := msgs)\<rparr>)
      }
      else Some y)"

text \<open>The service may find an error and stop everything: \<open>Inl\<close>.\<close>

definition sysStep :: "(nat \<Rightarrow> ('c, 's) ApplyMsg \<Rightarrow> 'r \<Rightarrow> 'e + 'r) \<Rightarrow> (nat \<Rightarrow> 'u \<Rightarrow> 'r \<Rightarrow> 'r) \<Rightarrow> (nat \<Rightarrow> 'r \<Rightarrow> 'r) \<Rightarrow>
    ('c, 's, 'u) sysEvent \<Rightarrow> ('c, 's, 'r) Sys \<Rightarrow> ('e + ('c, 's, 'r) Sys) option" where
  "sysStep consume work restart ev y =
     (case ev of
        Net e \<Rightarrow> map_option Inr (netStep restart e y)
      | ApplierStep i \<Rightarrow> map_option Inr (applierStep i y)
      | Receive i \<Rightarrow>
          (case chan y i of
             [] \<Rightarrow> Some (Inr y)
           | m # ms \<Rightarrow>
               (case consume i m (svc y) of
                  Inl e \<Rightarrow> Some (Inl e)
                | Inr r \<Rightarrow> Some (Inr (y\<lparr>chan := (chan y)(i := ms), svc := r\<rparr>))))
      | Local i u \<Rightarrow> Some (Inr (if i < size (cluster y) then y\<lparr>svc := work i u (svc y)\<rparr> else y)))"

fun sysRun :: "(nat \<Rightarrow> ('c, 's) ApplyMsg \<Rightarrow> 'r \<Rightarrow> 'e + 'r) \<Rightarrow> (nat \<Rightarrow> 'u \<Rightarrow> 'r \<Rightarrow> 'r) \<Rightarrow> (nat \<Rightarrow> 'r \<Rightarrow> 'r) \<Rightarrow>
    ('c, 's, 'u) sysEvent list \<Rightarrow> ('c, 's, 'r) Sys \<Rightarrow> ('e + ('c, 's, 'r) Sys) option" where
  "sysRun consume work restart [] y = Some (Inr y)"
| "sysRun consume work restart (ev # evs) y = do {
     z \<leftarrow> sysStep consume work restart ev y;
     (case z of Inl e \<Rightarrow> Some (Inl e) | Inr y1 \<Rightarrow> sysRun consume work restart evs y1)
   }"

definition initSys :: "nat \<Rightarrow> 'r \<Rightarrow> ('c, 's, 'r) Sys" where
  "initSys n r = \<lparr>cluster = initCluster n, pcs = (\<lambda>_. AHead), chan = (\<lambda>_. []), svc = r\<rparr>"

definition noSnapshots :: "('c, 's, 'u) sysEvent \<Rightarrow> bool" where
  "noSnapshots ev = (case ev of Net e \<Rightarrow> noSnapshot e | _ \<Rightarrow> True)"

section \<open>Chosen commands\<close>

text \<open>Command \<open>v\<close> is at index \<open>k\<close> below a committed entry.\<close>

definition chosen :: "'c ledger \<Rightarrow> ('c, 's) Cluster \<Rightarrow> int \<Rightarrow> 'c option \<Rightarrow> bool" where
  "chosen H s k v \<longleftrightarrow> 0 < k \<and> (\<exists>t n L. 0 < t \<and> committed H s t n \<and> H t = Some L \<and> nat k \<le> n \<and> leCommand (L ! nat k) = v)"

lemma chosen_unique:
  assumes sd: "sound H s" and "chosen H s k v" "chosen H s k v'"
  shows "v = v'"
proof -
  have mt: "matching H s" "complete H s" using sd by (simp_all add: sound_def)
  obtain t n L where a: "0 < t" "committed H s t n" "H t = Some L" "nat k \<le> n" "leCommand (L ! nat k) = v"
    using assms(2) by (auto simp: chosen_def)
  obtain u m M where b: "0 < u" "committed H s u m" "H u = Some M" "nat k \<le> m" "leCommand (M ! nat k) = v'"
    using assms(3) by (auto simp: chosen_def)
  have "L ! nat k = M ! nat k"
  proof (cases "t \<le> u")
    case True
    then show ?thesis using committed_agree(1) [OF mt a(2,1,3) _ b(3) a(4)] by simp
  next
    case False
    then show ?thesis using committed_agree(1) [OF mt b(2,1,3) _ a(3) b(4)] by simp
  qed
  then show ?thesis using a(5) b(5) by simp
qed

lemma chosen_reaches:
  assumes r: "reaches H s H' s'" and c: "chosen H s k v"
  shows "chosen H' s' k v"
proof -
  obtain t n L where a: "0 < t" "committed H s t n" "H t = Some L" "nat k \<le> n" "leCommand (L ! nat k) = v" "0 < k"
    using c by (auto simp: chosen_def)
  have "ledger_le H H'" using r by (simp add: reaches_def)
  then obtain E where E: "H' t = Some (L @ E)" using a(3) by (rule ledger_leE)
  have "nat k < length L" using a(2-4) by (auto simp: committed_def own_def holds_def)
  then show ?thesis
    using a E committed_reaches [OF r a(2)] unfolding chosen_def
    by (intro conjI exI [of _ t] exI [of _ n] exI [of _ "L @ E"]) (simp_all add: nth_append)
qed

text \<open>Up to its commit index a peer's log holds chosen commands.\<close>

lemma commit_chosen:
  assumes sd: "sound H s" and i: "i < size s" and k: "0 < k" "k \<le> CommitIndex (nodes s i)"
  shows "chosen H s k (leCommand (Log (nodes s i) ! nat k))" "CommitIndex (nodes s i) \<le> lastIndex (nodes s i)"
proof -
  have mt: "matching H s" "complete H s" "commits H s" using sd by (simp_all add: sound_def)
  let ?c = "nat (CommitIndex (nodes s i))"
  obtain F where F: "legit H F" "tail_of 0 (Log (nodes s i)) F" using mt(1,2) i by (rule log_full)
  have b: "backed H s (CurrentTerm (nodes s i)) (Log (nodes s i)) ?c"
    using commitsD(1) [OF mt(3) i] k by (simp add: commit_ok_def)
  from mt(1) b F obtain t n M where t: "0 < t" "committed H s t n" "H t = Some M" "?c \<le> n"
      "take (Suc ?c) F = take (Suc ?c) M" "?c < length F" by (rule backedE)
  have len: "nat k < length (Log (nodes s i))" using t(6) k tail_of_length [OF F(2)] by simp
  have "F ! nat k = M ! nat k" using t(5) k by (metis nat_mono le_imp_less_Suc nth_take)
  moreover have "Log (nodes s i) ! nat k = F ! nat k" using tail_of_nth(2) [OF F(2) len] k by simp
  ultimately show "chosen H s k (leCommand (Log (nodes s i) ! nat k))"
    using t k unfolding chosen_def by (intro conjI exI [of _ t] exI [of _ n] exI [of _ M]) auto
  show "CommitIndex (nodes s i) \<le> lastIndex (nodes s i)"
    using t(6) tail_of_length [OF F(2)] completeD(2) [OF mt(2) i] by (simp add: lastIndex_def)
qed


section \<open>The appliers\<close>

text \<open>How many commands the service of a server has received from this incarnation.\<close>

definition received :: "applier_pc \<Rightarrow> ('c, 's) Raft \<Rightarrow> ('c, 's) ApplyMsg list \<Rightarrow> int" where
  "received pc rf q = (case pc of AEntries ci \<Rightarrow> ci - int (length q) | _ \<Rightarrow> LastApplied rf)"

text \<open>What is on its way continues what was received, and is chosen.\<close>

definition pending_ok :: "(int \<Rightarrow> 'c option \<Rightarrow> bool) \<Rightarrow> int \<Rightarrow> ('c, 's) ApplyMsg list \<Rightarrow> bool" where
  "pending_ok ch p q \<longleftrightarrow> (\<forall>m < length q. CommandValid (q ! m) \<and> CommandIndex (q ! m) = p + 1 + int m \<and>
     ch (p + 1 + int m) (Command (q ! m)))"

lemma pending_ok_Cons:
  "pending_ok ch p (m # q) \<longleftrightarrow> CommandValid m \<and> CommandIndex m = p + 1 \<and> ch (p + 1) (Command m) \<and> pending_ok ch (p + 1) q"
  by (auto simp: pending_ok_def less_Suc_eq_0_disj all_conj_distrib add.assoc)

definition applier_ok :: "(int \<Rightarrow> 'c option \<Rightarrow> bool) \<Rightarrow> applier_pc \<Rightarrow> ('c, 's) Raft \<Rightarrow> ('c, 's) ApplyMsg list \<Rightarrow> bool" where
  "applier_ok ch pc rf q \<longleftrightarrow> 0 \<le> LastApplied rf \<and> LastApplied rf \<le> received pc rf q \<and> pending_ok ch (received pc rf q) q \<and>
     (case pc of AEntries ci \<Rightarrow> True | ASnap ci \<Rightarrow> False | _ \<Rightarrow> q = [])"

lemma applier_ok_mono: "applier_ok ch pc rf q \<Longrightarrow> (\<And>k v. ch k v \<Longrightarrow> ch' k v) \<Longrightarrow> applier_ok ch' pc rf q"
  by (auto simp: applier_ok_def pending_ok_def)

lemma applier_ok_cong:
  assumes "applier_ok ch pc rf q" "LastApplied rf' = LastApplied rf"
  shows "applier_ok ch pc rf' q"
proof -
  have "received pc rf' q = received pc rf q" using assms(2) by (simp add: received_def split: applier_pc.split)
  then show ?thesis using assms by (simp add: applier_ok_def)
qed

lemma consecutive_entry:
  assumes "consecutive 0 log" "e \<in> set log"
  shows "e = log ! nat (leIndex e)"
  using assms by (auto simp: in_set_conv_nth consecutive_def)

text \<open>The fields that the applier changes.\<close>

definition applied_only :: "('c, 's) Raft \<Rightarrow> ('c, 's) Raft \<Rightarrow> bool" where
  "applied_only rf rf' \<longleftrightarrow> (\<exists>w l. rf' = rf\<lparr>applyWaiting := w, LastApplied := l\<rparr>)"

lemma applierBody_ok:
  assumes sd: "sound H s" and i: "i < size s" and rf: "rf = nodes s i" and la: "0 \<le> LastApplied rf"
    and b: "applierBody rf = Some (pc, rf', msgs)"
  shows "applier_ok (chosen H s) pc rf' msgs \<and> received pc rf' msgs = LastApplied rf \<and> applied_only rf rf'"
proof -
  have wf: "wf_raft rf" and base: "LastIncludedIndex rf = 0"
    using sd i cluster_okD(1) [of s i] completeD(2) [of H s i] by (auto simp: sound_def rf node_ok_def)
  have same: "applied_only rf rf" unfolding applied_only_def
    by (intro exI [of _ "applyWaiting rf"] exI [of _ "LastApplied rf"]) simp
  have wait: "applied_only rf (rf\<lparr>applyWaiting := True\<rparr>)" unfolding applied_only_def
    by (intro exI [of _ True] exI [of _ "LastApplied rf"]) simp
  from wf show ?thesis
  proof (cases rule: applierBody_cases)
    case (entries es)
    have "CommandIndex (map commandMsg es ! m :: ('a, 'b) ApplyMsg) = LastApplied rf + 1 + int m \<and>
        chosen H s (LastApplied rf + 1 + int m) (Command (map commandMsg es ! m :: ('a, 'b) ApplyMsg))"
      if m: "m < length es" for m
    proof -
      have ix: "leIndex (es ! m) = LastApplied rf + 1 + int m" using entries(5) m by (rule consecutive_nth)
      have "es ! m \<in> set (Log rf)" using entries(7) m by auto
      then have "es ! m = Log rf ! nat (leIndex (es ! m))"
        using wf_raftD(3) [OF wf] base by (intro consecutive_entry) simp_all
      moreover have "chosen H s (leIndex (es ! m)) (leCommand (Log rf ! nat (leIndex (es ! m))))"
        unfolding rf by (rule commit_chosen(1) [OF sd i]) (use ix la entries(6) m in \<open>auto simp: rf\<close>)
      ultimately show ?thesis using ix m by (simp add: commandMsg_def)
    qed
    moreover have "pc = AEntries (CommitIndex rf)" "rf' = rf" "msgs = map commandMsg es" using b entries(3) by auto
    moreover from this have "received pc rf' msgs = LastApplied rf" using entries(6) by (simp add: received_def)
    ultimately show ?thesis using la same by (simp add: applier_ok_def pending_ok_def commandMsg_def)
  qed (use b base la same wait in \<open>auto simp: applier_ok_def received_def pending_ok_def\<close>)
qed

lemma Applier_ok:
  assumes sd: "sound H s" and i: "i < size s" and rf: "rf = nodes s i" and ok: "applier_ok (chosen H s) pc rf []"
    and a: "Applier pc rf = Some (pc', rf', msgs)"
  shows "applier_ok (chosen H s) pc' rf' msgs \<and> received pc' rf' msgs = received pc rf [] \<and> applied_only rf rf'"
proof -
  have la: "0 \<le> LastApplied rf" using ok by (simp add: applier_ok_def)
  note body = applierBody_ok [OF sd i rf la]
  have same: "applied_only rf rf" unfolding applied_only_def
    by (intro exI [of _ "applyWaiting rf"] exI [of _ "LastApplied rf"]) simp
  show ?thesis
  proof (cases pc)
    case (AEntries ci)
    have "applied_only rf (rf\<lparr>LastApplied := max (LastApplied rf) ci\<rparr>)" unfolding applied_only_def
      by (intro exI [of _ "applyWaiting rf"] exI [of _ "max (LastApplied rf) ci"]) simp
    then show ?thesis using a ok AEntries by (auto simp: applier_ok_def received_def pending_ok_def)
  qed (use a ok same body [of pc' rf' msgs] in \<open>auto simp: applier_ok_def received_def pending_ok_def split: if_splits\<close>)
qed


lemma applied_only_sound:
  assumes sd: "sound H s" and i: "i < size s" and a: "applied_only (nodes s i) rf"
  shows "sound H (setNode i rf s) \<and> reaches H s H (setNode i rf s)"
proof -
  let ?rf = "nodes s i" let ?s = "setNode i rf s"
  have ok: "cluster_ok s" and mt: "matching H s" and cp: "complete H s" and cm: "commits H s"
    using sd by (simp_all add: sound_def)
  obtain w l where rf: "rf = ?rf\<lparr>applyWaiting := w, LastApplied := l\<rparr>" using a by (auto simp: applied_only_def)
  have sv: "savedState rf = savedState ?rf" by (simp add: rf savedState_def)
  have keep: "keeps_promises ?rf rf" using sv by (simp add: keeps_promises_def promised_def rf)
  have q: "quiet ?rf rf" "sameLog ?rf rf" by (simp_all add: rf quiet_def sameLog_def)
  have n: "node_ok (size s) i rf"
    using cluster_okD(1) [OF ok i] sv by (auto simp: node_ok_def wf_raft_def durable_def rf)
  have ok': "cluster_ok ?s" using quiet_ok [OF ok i _ q(1)] n keep by blast
  have h: "history_extends s ?s" by (rule history_refl) simp_all
  have nodes: "nodes ?s = (nodes s)(i := rf)" by simp
  have ms: "matching_step H s ?s" using ok ok' mt h by (simp add: matching_step_def)
  have mt': "matching H ?s" by (rule matching_quiet [OF ok ok' mt h nodes i calls_ok_update(3) keep q])
  have cp': "complete H ?s"
    by (rule complete_quiet [OF ms mt' cp nodes i keep q calls_from_update(3) acks_from_same]) simp
  have cs: "complete_step H s ?s" using ms cp by (simp add: complete_step_def)
  have "sameCommit ?rf rf" by (simp add: sameCommit_def rf)
  then have "commits H ?s \<and> reaches H s H ?s"
    by (intro commits_same [OF cs mt' cm nodes i acks_to_sub sameCommit_next]) auto
  then show ?thesis using ok' mt' cp' by (simp add: sound_def)
qed

text \<open>Nobody else writes \<^verbatim>\<open>LastApplied\<close>, and a restart sets it to 0.\<close>

lemma one_handler:
  assumes "nodes s' = (nodes s)(i := rf)" "handler_step (nodes s i) rf"
  shows "LastApplied (nodes s' j) = LastApplied (nodes s j)"
  using assms by (simp add: handler_step_def)

lemma step_LastApplied:
  assumes ok: "cluster_ok s" and st: "step ev s = Some s'" and nc: "\<And>i clk. ev \<noteq> Crash i clk"
  shows "LastApplied (nodes s' j) = LastApplied (nodes s j)"
proof (cases "s' = s")
  case moved: False
  have wf: "i < size s \<Longrightarrow> wf_raft (nodes s i) \<and> peers (nodes s i) = size s" for i
    using cluster_okD(1) [OF ok] by (simp add: node_ok_def)
  have act: "active i s \<Longrightarrow> i < size s" for i by (simp add: active_def)
  show ?thesis
  proof (cases ev)
    case (SendTo i k)
    then obtain out where "PrepareEntries k (nodes s i) = Some out"
      using st moved by (auto simp: step_def stepSendTo_def bind_Some_iff split: if_splits)
    then show ?thesis using st SendTo moved by (cases out) (auto simp: step_def stepSendTo_def split: if_splits)
  next
    case (DeliverAppend k clk)
    let ?c = "appends s ! k"
    obtain rf r where a: "AppendEntries clk (acArgs ?c) (nodes s (acTo ?c)) = Some (rf, r)" "k < length (appends s)"
        "nodes s' = (nodes s)(acTo ?c := rf)"
      using st DeliverAppend moved by (auto simp: step_def stepDeliverAppend_def bind_Some_iff Let_def split: if_splits)
    have "append_ok s ?c" using cluster_okD(4) [OF ok, of ?c] a(2) by simp
    then show ?thesis using AppendEntries_handler_step [OF _ _ a(1)] wf by (intro one_handler [OF a(3)]) (simp add: append_ok_def)
  next
    case (HandleAppend k okay)
    let ?c = "appends s ! k"
    obtain rep rf where a: "HandleAppendReply (acTo ?c) (acArgs ?c) rep (nodes s (acFrom ?c)) = Some rf" "k < length (appends s)"
        "nodes s' = (nodes s)(acFrom ?c := rf)"
      using st HandleAppend moved
      by (auto simp: step_def stepHandleAppend_def bind_Some_iff Let_def split: if_splits call_state.splits)
    have "append_ok s ?c" using cluster_okD(4) [OF ok, of ?c] a(2) by simp
    then show ?thesis
      using HandleAppendReply_handler_step [OF _ _ a(1)] wf by (intro one_handler [OF a(3)]) (simp add: append_ok_def)
  next
    case (DeliverSnap k clk)
    let ?c = "snaps s ! k"
    obtain rf r where a: "InstallSnapShot clk (scArgs ?c) (nodes s (scTo ?c)) = (rf, r)" by fastforce
    have b: "k < length (snaps s)" "nodes s' = (nodes s)(scTo ?c := rf)"
      using st DeliverSnap moved a by (auto simp: step_def stepDeliverSnap_def Let_def split: if_splits)
    have "snap_ok s ?c" using cluster_okD(5) [OF ok, of ?c] b(1) by simp
    then show ?thesis
      using InstallSnapShot_handler_step [OF _ _ a] wf by (intro one_handler [OF b(2)]) (simp add: snap_ok_def)
  next
    case (HandleSnap k okay)
    let ?c = "snaps s ! k"
    obtain rep rf where a: "HandleSnapReply (scTo ?c) (scArgs ?c) rep (nodes s (scFrom ?c)) = Some rf" "k < length (snaps s)"
        "nodes s' = (nodes s)(scFrom ?c := rf)"
      using st HandleSnap moved
      by (auto simp: step_def stepHandleSnap_def bind_Some_iff Let_def split: if_splits call_state.splits)
    have "snap_ok s ?c" using cluster_okD(5) [OF ok, of ?c] a(2) by simp
    then show ?thesis
      using HandleSnapReply_handler_step [OF _ _ a(1)] wf by (intro one_handler [OF a(3)]) (simp add: snap_ok_def)
  next
    case (Elect i clk)
    then obtain rf args v where a: "AttemptElection clk (nodes s i) = Some (rf, args, v)" "active i s"
        "nodes s' = (nodes s)(i := rf)"
      using st moved by (auto simp: step_def stepElect_def bind_Some_iff split: if_splits)
    then show ?thesis using AttemptElection_handler_step [OF _ a(1)] wf act by (intro one_handler [OF a(3)]) blast
  next
    case (DeliverVote k i clk)
    then obtain args rf r where a: "RequestVote clk args (nodes s i) = Some (rf, r)" "active i s"
        "nodes s' = (nodes s)(i := rf)"
      using st moved by (auto simp: step_def stepDeliverVote_def bind_Some_iff Let_def split: if_splits)
    then show ?thesis using RequestVote_handler_step [OF _ a(1)] wf act by (intro one_handler [OF a(3)]) blast
  next
    case (HandleVote k m okay)
    let ?i = "elCand (elections s ! k)"
    obtain args rep vs rf v b where a: "HandleVoteReply args rep vs (nodes s ?i) = Some (rf, v, b)" "active ?i s"
        "nodes s' = (nodes s)(?i := rf)"
      using st moved HandleVote
      by (auto simp: step_def stepHandleVote_def bind_Some_iff Let_def split: if_splits call_state.splits)
    then show ?thesis using HandleVoteReply_handler_step [OF _ a(1)] wf act by (intro one_handler [OF a(3)]) blast
  next
    case (ClientStart i c)
    then obtain rf r where a: "Start c (nodes s i) = Some (rf, r)" "active i s" "nodes s' = (nodes s)(i := rf)"
      using st moved by (auto simp: step_def split: if_splits)
    then show ?thesis using Start_handler_step [OF _ a(1)] wf act by (intro one_handler [OF a(3)]) blast
  next
    case (ServiceSnapshot i ix d)
    then show ?thesis using st by (auto simp: step_def Snapshot_eq Let_def split: if_splits)
  next
    case (FireSnap k)
    then show ?thesis
      using st by (auto simp: step_def stepFireSnap_def sendSnapShot_def Let_def case_prod_beta split: if_splits)
  qed (use nc in auto)
qed simp

lemma crash_LastApplied:
  assumes "step (Crash i clk) s = Some s'"
  shows "LastApplied (nodes s' j) = (if j = i \<and> i < size s then 0 else LastApplied (nodes s j))"
proof -
  have "LastApplied rf = 0" if "Make n i ps clk = Some rf" for n ps and rf :: "('a, 'b) Raft"
    using that by (auto simp: Make_def readPersist_def Let_def bind_Some_iff split: if_splits)
  then show ?thesis using assms by (auto simp: step_def stepCrash_def bind_Some_iff split: if_splits)
qed


section \<open>Services\<close>

definition receivedBy :: "('c, 's, 'r) Sys \<Rightarrow> nat \<Rightarrow> int" where
  "receivedBy y i = received (pcs y i) (nodes (cluster y) i) (chan y i)"

definition sys_ok :: "'c ledger \<Rightarrow> ('c, 's, 'r) Sys \<Rightarrow> bool" where
  "sys_ok H y \<longleftrightarrow> sound H (cluster y) \<and>
     (\<forall>i. if i < size (cluster y) then applier_ok (chosen H (cluster y)) (pcs y i) (nodes (cluster y) i) (chan y i)
          else chan y i = [])"

definition agreed :: "(int \<Rightarrow> 'v \<Rightarrow> bool) \<Rightarrow> bool" where
  "agreed ch \<longleftrightarrow> (\<forall>k v v'. ch k v \<longrightarrow> ch k v' \<longrightarrow> v = v')"

text \<open>What a service of \<open>n\<close> servers relies on: every server gets the commands in order, from the
  first on after a restart, and whatever the servers get at one index is one command. What it
  has to do: accept such a command, and keep its own invariant \<open>serves\<close>, given how many commands
  each server has received and which commands are chosen.\<close>

locale apply_service =
  fixes n :: nat and consume :: "nat \<Rightarrow> ('c, 's) ApplyMsg \<Rightarrow> 'r \<Rightarrow> 'e + 'r"
    and work :: "nat \<Rightarrow> 'u \<Rightarrow> 'r \<Rightarrow> 'r" and restart :: "nat \<Rightarrow> 'r \<Rightarrow> 'r"
    and serves :: "(nat \<Rightarrow> int) \<Rightarrow> (int \<Rightarrow> 'c option \<Rightarrow> bool) \<Rightarrow> 'r \<Rightarrow> bool"
  assumes more_chosen: "serves cnt ch r \<Longrightarrow> (\<And>k v. ch k v \<Longrightarrow> ch' k v) \<Longrightarrow> serves cnt ch' r"
    and consumes: "serves cnt ch r \<Longrightarrow> i < n \<Longrightarrow> agreed ch \<Longrightarrow> 0 \<le> cnt i \<Longrightarrow>
      CommandValid m \<Longrightarrow> CommandIndex m = cnt i + 1 \<Longrightarrow> ch (cnt i + 1) (Command m) \<Longrightarrow>
      \<exists>r'. consume i m r = Inr r' \<and> serves (cnt(i := cnt i + 1)) ch r'"
    and works: "serves cnt ch r \<Longrightarrow> i < n \<Longrightarrow> serves cnt ch (work i u r)"
    and restarts: "serves cnt ch r \<Longrightarrow> i < n \<Longrightarrow> serves (cnt(i := 0)) ch (restart i r)"
begin

definition service_ok :: "'c ledger \<Rightarrow> ('c, 's, 'r) Sys \<Rightarrow> bool" where
  "service_ok H y \<longleftrightarrow> sys_ok H y \<and> size (cluster y) = n \<and> serves (receivedBy y) (chosen H (cluster y)) (svc y)"

definition progress :: "'c ledger \<Rightarrow> ('c, 's, 'r) Sys \<Rightarrow> ('c, 's, 'r) Sys \<Rightarrow> bool" where
  "progress H y y' \<longleftrightarrow> (\<exists>H'. service_ok H' y' \<and> reaches H (cluster y) H' (cluster y'))"

lemma netStep_ok:
  assumes so: "service_ok H y" and st: "netStep restart ev y = Some y'" and ns: "noSnapshot ev"
  shows "progress H y y'"
proof -
  let ?s = "cluster y"
  have sd: "sound H ?s" and sz: "size ?s = n" and sv: "serves (receivedBy y) (chosen H ?s) (svc y)"
    and ap: "i < n \<Longrightarrow> applier_ok (chosen H ?s) (pcs y i) (nodes ?s i) (chan y i)" and no: "\<not> i < n \<Longrightarrow> chan y i = []" for i
    using so by (auto simp: service_ok_def sys_ok_def split: if_splits)
  have ok: "cluster_ok ?s" using sd by (simp add: sound_def)
  obtain s where s: "step ev ?s = Some s" using st by (auto simp: netStep_def bind_Some_iff)
  obtain H' where H': "sound H' s" "reaches H ?s H' s" using step_follows [OF sd s ns] by (auto simp: follows_def)
  have size: "size s = n" using H'(2) sz by (simp add: reaches_def)
  note ch = chosen_reaches [OF H'(2)]
  have sv': "serves (receivedBy y) (chosen H' s) (svc y)" using more_chosen [OF sv ch] .
  show ?thesis
  proof (cases "\<exists>i clk. ev = Crash i clk \<and> i < n")
    case True
    then obtain i clk where ev: "ev = Crash i clk" and i: "i < n" by blast
    have y': "y' = y\<lparr>cluster := s, pcs := (pcs y)(i := AHead), chan := (chan y)(i := []), svc := restart i (svc y)\<rparr>"
      using st s ev i size by (simp add: netStep_def Let_def)
    note la = crash_LastApplied [OF s [unfolded ev]]
    have "receivedBy y' = (receivedBy y)(i := 0)"
      using la i sz by (auto simp: receivedBy_def received_def y' fun_eq_iff split: applier_pc.splits)
    moreover have "applier_ok (chosen H' s) (pcs y j) (nodes s j) (chan y j)" if "j < n" "j \<noteq> i" for j
      using applier_ok_cong [OF applier_ok_mono [OF ap [OF that(1)] ch]] la that(2) by simp
    moreover have "applier_ok (chosen H' s) AHead (nodes s i) []"
      using la i sz by (simp add: applier_ok_def received_def pending_ok_def)
    ultimately show ?thesis
      using H' size restarts [OF sv' i] no unfolding progress_def service_ok_def sys_ok_def
      by (intro exI [of _ H']) (auto simp: y')
  next
    case False
    then have y': "y' = y\<lparr>cluster := s\<rparr>" using st s size by (cases ev) (auto simp: netStep_def Let_def)
    have la: "LastApplied (nodes s j) = LastApplied (nodes ?s j)" for j
    proof (cases "\<exists>i clk. ev = Crash i clk")
      case True
      then show ?thesis using crash_LastApplied s False sz by fastforce
    qed (use step_LastApplied [OF ok s] in blast)
    then have "receivedBy y' = receivedBy y" by (auto simp: receivedBy_def received_def y' fun_eq_iff split: applier_pc.splits)
    moreover have "applier_ok (chosen H' s) (pcs y j) (nodes s j) (chan y j)" if "j < n" for j
      using applier_ok_cong [OF applier_ok_mono [OF ap [OF that] ch]] la by simp
    ultimately show ?thesis
      using H' size sv' no unfolding progress_def service_ok_def sys_ok_def by (intro exI [of _ H']) (auto simp: y')
  qed
qed

lemma applierStep_ok:
  assumes so: "service_ok H y" and st: "applierStep i y = Some y'"
  shows "progress H y y'"
proof (cases "active i (cluster y) \<and> chan y i = []")
  case True
  let ?s = "cluster y"
  have sd: "sound H ?s" and sz: "size ?s = n" and sv: "serves (receivedBy y) (chosen H ?s) (svc y)"
    and ap: "j < n \<Longrightarrow> applier_ok (chosen H ?s) (pcs y j) (nodes ?s j) (chan y j)" and no: "\<not> j < n \<Longrightarrow> chan y j = []" for j
    using so by (auto simp: service_ok_def sys_ok_def split: if_splits)
  have i: "i < size ?s" using True by (simp add: active_def)
  obtain pc rf msgs where a: "Applier (pcs y i) (nodes ?s i) = Some (pc, rf, msgs)"
    and y': "y' = y\<lparr>cluster := setNode i rf ?s, pcs := (pcs y)(i := pc), chan := (chan y)(i := msgs)\<rparr>"
    using st True by (auto simp: applierStep_def bind_Some_iff)
  have "applier_ok (chosen H ?s) (pcs y i) (nodes ?s i) []" using ap [of i] i sz True by simp
  then have ok: "applier_ok (chosen H ?s) pc rf msgs \<and> received pc rf msgs = received (pcs y i) (nodes ?s i) [] \<and>
      applied_only (nodes ?s i) rf"
    using Applier_ok [OF sd i refl _ a] by blast
  then have sd': "sound H (setNode i rf ?s)" and r: "reaches H ?s H (setNode i rf ?s)"
    using applied_only_sound [OF sd i] by blast+
  note ch = chosen_reaches [OF r]
  have "receivedBy y' = receivedBy y" using ok True by (auto simp: receivedBy_def y' fun_eq_iff)
  moreover have "applier_ok (chosen H (setNode i rf ?s)) pc rf msgs" using applier_ok_mono ok ch by blast
  moreover have "applier_ok (chosen H (setNode i rf ?s)) (pcs y j) (nodes ?s j) (chan y j)" if "j < n" for j
    using applier_ok_mono [OF ap [OF that] ch] .
  ultimately show ?thesis
    using sd' r sz more_chosen [OF sv ch] no i unfolding progress_def service_ok_def sys_ok_def
    by (intro exI [of _ H]) (auto simp: y')
qed (use so st in \<open>auto simp: applierStep_def progress_def intro!: exI [of _ H]\<close>)

lemma receive_ok:
  assumes so: "service_ok H y" and q: "chan y i = m # ms"
  shows "\<exists>r. consume i m (svc y) = Inr r \<and> progress H y (y\<lparr>chan := (chan y)(i := ms), svc := r\<rparr>)"
proof -
  let ?s = "cluster y"
  have sd: "sound H ?s" and sz: "size ?s = n" and sv: "serves (receivedBy y) (chosen H ?s) (svc y)"
    and ap: "j < n \<Longrightarrow> applier_ok (chosen H ?s) (pcs y j) (nodes ?s j) (chan y j)" and no: "\<not> j < n \<Longrightarrow> chan y j = []" for j
    using so by (auto simp: service_ok_def sys_ok_def split: if_splits)
  have i: "i < n" using no q by force
  obtain ci where pc: "pcs y i = AEntries ci" using ap [OF i] q by (auto simp: applier_ok_def split: applier_pc.splits)
  have p: "pending_ok (chosen H ?s) (receivedBy y i) (m # ms)" and nn: "0 \<le> receivedBy y i"
    using ap [OF i] q by (auto simp: applier_ok_def receivedBy_def)
  then have m: "CommandValid m" "CommandIndex m = receivedBy y i + 1" "chosen H ?s (receivedBy y i + 1) (Command m)"
      "pending_ok (chosen H ?s) (receivedBy y i + 1) ms" by (simp_all add: pending_ok_Cons)
  have uniq: "agreed (chosen H ?s)" using chosen_unique [OF sd] unfolding agreed_def by blast
  obtain r where r: "consume i m (svc y) = Inr r" "serves ((receivedBy y)(i := receivedBy y i + 1)) (chosen H ?s) r"
    using consumes [OF sv i uniq nn m(1-3)] by blast
  let ?y = "y\<lparr>chan := (chan y)(i := ms), svc := r\<rparr>"
  have c: "receivedBy ?y = (receivedBy y)(i := receivedBy y i + 1)" using pc q by (auto simp: receivedBy_def received_def fun_eq_iff)
  have "applier_ok (chosen H ?s) (pcs y i) (nodes ?s i) ms"
    using ap [OF i] m(4) pc q by (auto simp: applier_ok_def received_def receivedBy_def)
  then have "service_ok H ?y" using so r(2) c by (auto simp: service_ok_def sys_ok_def i sz)
  then show ?thesis using r(1) by (auto simp: progress_def intro!: exI [of _ H])
qed

lemma sysStep_ok:
  assumes so: "service_ok H y" and st: "sysStep consume work restart ev y = Some z" and ns: "noSnapshots ev"
  shows "\<exists>y'. z = Inr y' \<and> progress H y y'"
proof (cases ev)
  case (Net e)
  then show ?thesis using st ns netStep_ok [OF so] by (auto simp: sysStep_def noSnapshots_def)
next
  case (ApplierStep i)
  then show ?thesis using st applierStep_ok [OF so] by (auto simp: sysStep_def)
next
  case (Receive i)
  show ?thesis
  proof (cases "chan y i")
    case Nil
    then show ?thesis using st Receive so by (auto simp: sysStep_def progress_def intro!: exI [of _ H])
  next
    case (Cons m ms)
    then show ?thesis using st Receive receive_ok [OF so Cons] by (auto simp: sysStep_def)
  qed
next
  case (Local i u)
  have "service_ok H (y\<lparr>svc := work i u (svc y)\<rparr>)" if "i < n"
    using so works [OF _ that] by (auto simp: service_ok_def sys_ok_def receivedBy_def [abs_def])
  then show ?thesis using st so Local by (auto simp: sysStep_def progress_def service_ok_def intro!: exI [of _ H])
qed

text \<open>No run without snapshots makes the service fail, and its invariant holds throughout.\<close>

lemma sysRun_ok:
  "service_ok H y \<Longrightarrow> sysRun consume work restart evs y = Some z \<Longrightarrow> list_all noSnapshots evs \<Longrightarrow>
     \<exists>y'. z = Inr y' \<and> progress H y y'"
proof (induction evs arbitrary: y H)
  case Nil
  then show ?case by (auto simp: progress_def intro!: exI [of _ H])
next
  case (Cons ev evs)
  obtain z1 where z1: "sysStep consume work restart ev y = Some z1"
      "(case z1 of Inl e \<Rightarrow> Some (Inl e) | Inr y1 \<Rightarrow> sysRun consume work restart evs y1) = Some z"
    using Cons.prems(2) by (auto simp: bind_Some_iff)
  obtain y1 where y1: "z1 = Inr y1" "progress H y y1" using sysStep_ok [OF Cons.prems(1) z1(1)] Cons.prems(3) by auto
  then obtain H1 where H1: "service_ok H1 y1" "reaches H (cluster y) H1 (cluster y1)" by (auto simp: progress_def)
  obtain y' where y': "z = Inr y'" "progress H1 y1 y'" using Cons.IH [OF H1(1)] z1(2) y1(1) Cons.prems(3) by auto
  then show ?case using reaches_trans [OF H1(2)] by (auto simp: progress_def)
qed

lemma init_service:
  assumes "serves (\<lambda>_. 0) (\<lambda>_ _. False) r0"
  shows "service_ok [0 \<mapsto> [zeroEntry]] (initSys n r0)"
proof -
  have "LastApplied (freshPeer n i :: ('c, 's) Raft) = 0" for i by (simp add: freshPeer_def Make_fresh)
  then have "receivedBy (initSys n r0 :: ('c, 's, 'r) Sys) = (\<lambda>_. 0)"
    "applier_ok ch AHead (nodes (initCluster n :: ('c, 's) Cluster) i) []" for ch i
    by (simp_all add: receivedBy_def received_def initSys_def initCluster_def applier_ok_def pending_ok_def fun_eq_iff)
  then show ?thesis
    using init_sound more_chosen [OF assms] by (auto simp: service_ok_def sys_ok_def initSys_def initCluster_def)
qed

end

end
