(* ===== verification/Raft_Tester.thy ===== *)
theory Raft_Tester
  imports Raft_System
begin

text \<open>
  The service that the Raft tests put on top of the peers (\<^verbatim>\<open>src/raft1/server.go\<close>) and the checks
  of the test framework (\<^verbatim>\<open>src/raft1/test.go\<close>): every server records what it is told to apply,
  compares it with what all servers have recorded, and the tests ask for a single leader and
  for agreement. An error ends the test. The theorem shows that in runs without snapshots the
  check for a single leader passes, whatever network and crashes do, and that the checks of the
  readers pass as long as no server is restarted; the reader of a killed server, which is not
  part of the system of \<open>Raft_System\<close>, may report a correct entry as out of order.
\<close>

section \<open>The servers of the tests\<close>

text \<open>\<^verbatim>\<open>logs\<close> is the copy of the committed entries; a missing key is \<open>None\<close>, a nil command \<open>Some None\<close>.\<close>

record 'c rfsrv =
  rsLastApplied :: int
  rsLogs :: "int \<rightharpoonup> 'c option"

record 'c Test =
  tsN :: nat
  tsSrvs :: "nat \<Rightarrow> 'c rfsrv"
  maxIndex :: int

datatype applyErr =
    CommitMismatch int nat nat | ApplyOutOfOrder nat int
  | NilSnapshot | SnapshotDecode | SnapshotIndexMismatch nat

definition SnapShotInterval :: int where "SnapShotInterval = 10"

definition Logs :: "'c rfsrv \<Rightarrow> int \<rightharpoonup> 'c option" where
  "Logs rs i = rsLogs rs i"

text \<open>A new server starts with an empty copy.\<close>

definition emptyRfsrv :: "'c rfsrv" where
  "emptyRfsrv = \<lparr>rsLastApplied = 0, rsLogs = Map.empty\<rparr>"

definition makeTest :: "nat \<Rightarrow> 'c Test" where
  "makeTest n = \<lparr>tsN = n, tsSrvs = (\<lambda>_. emptyRfsrv), maxIndex = 0\<rparr>"

text \<open>The tests without snapshots start every server empty.\<close>

definition mksrv :: "nat \<Rightarrow> 'c Test \<Rightarrow> 'c Test" where
  "mksrv srv ts = ts\<lparr>tsSrvs := (tsSrvs ts)(srv := emptyRfsrv)\<rparr>"

text \<open>The loop keeps the last disagreement it finds.\<close>

definition checkLogs :: "nat \<Rightarrow> ('c, 's) ApplyMsg \<Rightarrow> 'c Test \<Rightarrow> applyErr option \<times> bool \<times> 'c Test" where
  "checkLogs i m ts =
     (let ix = CommandIndex m; v = Command m;
          err = foldl (\<lambda>err j. case Logs (tsSrvs ts j) ix of
                    Some old \<Rightarrow> if old \<noteq> v then Some (CommitMismatch ix i j) else err
                  | None \<Rightarrow> err) None [0..<tsN ts];
          rs = tsSrvs ts i;
          prevok = rsLogs rs (ix - 1) \<noteq> None
      in (err, prevok,
          ts\<lparr>tsSrvs := (tsSrvs ts)(i := rs\<lparr>rsLogs := (rsLogs rs)(ix \<mapsto> v)\<rparr>),
             maxIndex := if ix > maxIndex ts then ix else maxIndex ts\<rparr>))"

text \<open>One message of \<^verbatim>\<open>applier\<close>; an error is fatal.\<close>

definition applier :: "nat \<Rightarrow> ('c, 's) ApplyMsg \<Rightarrow> 'c Test \<Rightarrow> applyErr + 'c Test" where
  "applier i m ts =
     (if \<not> CommandValid m then Inr ts
      else case checkLogs i m ts of (err, prevok, ts1) \<Rightarrow>
        let err1 = (if CommandIndex m > 1 \<and> \<not> prevok then Some (ApplyOutOfOrder i (CommandIndex m)) else err)
        in case err1 of None \<Rightarrow> Inr ts1 | Some e \<Rightarrow> Inl e)"

text \<open>The snapshot of a server: the last index and the copy of the log up to it.\<close>

datatype 'c testgob = TInt int | TLog "'c option list"

fun ingestSnap :: "nat \<Rightarrow> 'c testgob list \<Rightarrow> int \<Rightarrow> 'c rfsrv \<Rightarrow> applyErr + 'c rfsrv" where
  "ingestSnap srv [] index rs = Inl NilSnapshot"
| "ingestSnap srv (TInt lastIncludedIndex # TLog xlog # _) index rs =
     (if index \<noteq> -1 \<and> index \<noteq> lastIncludedIndex then Inl (SnapshotIndexMismatch srv)
      else Inr (rs\<lparr>rsLogs := (\<lambda>j. if 0 \<le> j \<and> j < int (length xlog) then Some (xlog ! nat j) else None),
                  rsLastApplied := lastIncludedIndex\<rparr>))"
| "ingestSnap srv _ index rs = Inl SnapshotDecode"

text \<open>A server of the tests with snapshots starts from the persisted one.\<close>

definition newRfsrv :: "nat \<Rightarrow> bool \<Rightarrow> 'c testgob list \<Rightarrow> applyErr + 'c rfsrv" where
  "newRfsrv srv withSnap persisted =
     (if withSnap \<and> persisted \<noteq> [] then ingestSnap srv persisted (-1) emptyRfsrv else Inr emptyRfsrv)"

text \<open>The copy up to \<open>index\<close>; a Go map returns nil for a missing key.\<close>

definition snapLog :: "int \<Rightarrow> 'c rfsrv \<Rightarrow> 'c option list" where
  "snapLog index rs = map (\<lambda>j. case rsLogs rs j of Some v \<Rightarrow> v | None \<Rightarrow> None) [0..index]"

text \<open>One message of \<^verbatim>\<open>applierSnap\<close>, with the call of Raft's \<^verbatim>\<open>Snapshot\<close> if it is made.\<close>

definition applierSnap :: "nat \<Rightarrow> ('c, 'c testgob) ApplyMsg \<Rightarrow> 'c Test \<Rightarrow>
    applyErr + 'c Test \<times> (int \<times> 'c testgob list) option" where
  "applierSnap i m ts =
     (if SnapshotValid m
      then case ingestSnap i (SnapshotData m) (SnapshotIndex m) (tsSrvs ts i) of
             Inl e \<Rightarrow> Inl e
           | Inr rs \<Rightarrow> Inr (ts\<lparr>tsSrvs := (tsSrvs ts)(i := rs)\<rparr>, None)
      else if CommandValid m
      then if CommandIndex m \<noteq> rsLastApplied (tsSrvs ts i) + 1 then Inl (ApplyOutOfOrder i (CommandIndex m))
           else case applier i m ts of
             Inl e \<Rightarrow> Inl e
           | Inr ts1 \<Rightarrow>
               let rs = (tsSrvs ts1 i)\<lparr>rsLastApplied := CommandIndex m\<rparr>;
                   ts2 = ts1\<lparr>tsSrvs := (tsSrvs ts1)(i := rs)\<rparr>
               in Inr (ts2, if (CommandIndex m + 1) mod SnapShotInterval = 0
                            then Some (CommandIndex m, [TInt (CommandIndex m), TLog (snapLog (CommandIndex m) rs)])
                            else None)
      else Inr (ts, None))"

section \<open>The checks\<close>

text \<open>The checks ask one server after the other while the run goes on: \<open>st i\<close> is what \<^verbatim>\<open>GetState\<close> of server
  \<open>i\<close> returns when it is asked, and \<open>connected i\<close> what \<^verbatim>\<open>IsConnected\<close> answers then.

  One round of \<^verbatim>\<open>checkOneLeader\<close>: \<open>Inl\<close> is a term with several leaders, \<open>None\<close> that nobody leads.\<close>

definition leadersOf :: "nat \<Rightarrow> (nat \<Rightarrow> bool) \<Rightarrow> (nat \<Rightarrow> int \<times> bool) \<Rightarrow> int \<Rightarrow> nat list" where
  "leadersOf n connected st t = filter (\<lambda>i. connected i \<and> st i = (t, True)) [0..<n]"

definition leaderTerms :: "nat \<Rightarrow> (nat \<Rightarrow> bool) \<Rightarrow> (nat \<Rightarrow> int \<times> bool) \<Rightarrow> int list" where
  "leaderTerms n connected st = map (\<lambda>i. fst (st i)) (filter (\<lambda>i. connected i \<and> snd (st i)) [0..<n])"

definition leaderRound :: "nat \<Rightarrow> (nat \<Rightarrow> bool) \<Rightarrow> (nat \<Rightarrow> int \<times> bool) \<Rightarrow> int + nat option" where
  "leaderRound n connected st =
     (let terms = leaderTerms n connected st
      in case find (\<lambda>t. length (leadersOf n connected st t) > 1) terms of
           Some t \<Rightarrow> Inl t
         | None \<Rightarrow>
             Inr (if terms = [] then None
                  else Some (hd (leadersOf n connected st (foldl max (-1) terms)))))"

text \<open>The loop: the argument lists what the rounds find when they wake up, ten in the code.\<close>

datatype leaderErr = MultipleLeaders int | NoLeaderFound

fun checkOneLeader :: "nat \<Rightarrow> ((nat \<Rightarrow> bool) \<times> (nat \<Rightarrow> int \<times> bool)) list \<Rightarrow> leaderErr + nat" where
  "checkOneLeader n [] = Inl NoLeaderFound"
| "checkOneLeader n ((connected, st) # rounds) =
     (case leaderRound n connected st of
        Inl t \<Rightarrow> Inl (MultipleLeaders t)
      | Inr (Some i) \<Rightarrow> Inr i
      | Inr None \<Rightarrow> checkOneLeader n rounds)"

text \<open>\<^verbatim>\<open>checkTerms\<close>: the term of the connected servers, \<open>Inl\<close> when they differ.\<close>

definition checkTerms :: "nat \<Rightarrow> (nat \<Rightarrow> bool) \<Rightarrow> (nat \<Rightarrow> int \<times> bool) \<Rightarrow> unit + int" where
  "checkTerms n connected st =
     foldl (\<lambda>acc i. case acc of
         Inl e \<Rightarrow> Inl e
       | Inr term \<Rightarrow>
           if connected i
           then let xterm = fst (st i) in
             if term = -1 then Inr xterm else if term \<noteq> xterm then Inl () else Inr term
           else Inr term)
       (Inr (-1)) [0..<n]"

text \<open>\<^verbatim>\<open>checkNoLeader\<close>: the first connected leader is the error.\<close>

definition checkNoLeader :: "nat \<Rightarrow> (nat \<Rightarrow> bool) \<Rightarrow> (nat \<Rightarrow> int \<times> bool) \<Rightarrow> nat + unit" where
  "checkNoLeader n connected st =
     (case find (\<lambda>i. connected i \<and> snd (st i)) [0..<n] of Some i \<Rightarrow> Inl i | None \<Rightarrow> Inr ())"

text \<open>\<^verbatim>\<open>nCommitted\<close>: how many servers have recorded an index, and what; \<open>Inl\<close> when they differ.\<close>

definition nCommitted :: "int \<Rightarrow> 'c Test \<Rightarrow> unit + nat \<times> 'c option" where
  "nCommitted index ts =
     foldl (\<lambda>acc j. case acc of
         Inl e \<Rightarrow> Inl e
       | Inr (count, cmd) \<Rightarrow>
           (case Logs (tsSrvs ts j) index of
              None \<Rightarrow> Inr (count, cmd)
            | Some cmd1 \<Rightarrow> if count > 0 \<and> cmd \<noteq> cmd1 then Inl () else Inr (count + 1, cmd1)))
       (Inr (0, None)) [0..<tsN ts]"


text \<open>\<^verbatim>\<open>checkNoAgreement\<close>: nobody has recorded the index.\<close>

definition checkNoAgreement :: "int \<Rightarrow> 'c Test \<Rightarrow> nat option + unit" where
  "checkNoAgreement index ts =
     (case nCommitted index ts of
        Inl _ \<Rightarrow> Inl None
      | Inr (count, _) \<Rightarrow> if count > 0 then Inl (Some count) else Inr ())"

section \<open>The recorded logs\<close>

text \<open>Exactly the first \<open>c\<close> indices are recorded, each with the chosen command.\<close>

definition recorded :: "(int \<Rightarrow> 'v \<Rightarrow> bool) \<Rightarrow> int \<Rightarrow> (int \<rightharpoonup> 'v) \<Rightarrow> bool" where
  "recorded ch c L \<longleftrightarrow> dom L = {1..c} \<and> (\<forall>k v. L k = Some v \<longrightarrow> ch k v)"

lemma recorded_empty [simp]: "recorded ch 0 Map.empty"
  by (auto simp: recorded_def)

lemma recorded_insert:
  "recorded ch c L \<Longrightarrow> 0 \<le> c \<Longrightarrow> ch (c + 1) v \<Longrightarrow> recorded ch (c + 1) (L(c + 1 \<mapsto> v))"
  by (auto simp: recorded_def)

lemma recordedD:
  assumes "recorded ch c L"
  shows "L k = Some v \<Longrightarrow> ch k v" "L k \<noteq> None \<longleftrightarrow> 1 \<le> k \<and> k \<le> c"
proof -
  have "k \<in> dom L \<longleftrightarrow> 1 \<le> k \<and> k \<le> c" using assms by (simp add: recorded_def)
  then show "L k \<noteq> None \<longleftrightarrow> 1 \<le> k \<and> k \<le> c" by (simp add: dom_def)
qed (use assms in \<open>auto simp: recorded_def\<close>)

definition tester_ok :: "nat \<Rightarrow> (nat \<Rightarrow> int) \<Rightarrow> (int \<Rightarrow> 'c option \<Rightarrow> bool) \<Rightarrow> 'c Test \<Rightarrow> bool" where
  "tester_ok n cnt ch ts \<longleftrightarrow> tsN ts = n \<and> (\<forall>i < n. recorded ch (cnt i) (rsLogs (tsSrvs ts i)))"

lemma tester_okD: "tester_ok n cnt ch ts \<Longrightarrow> i < n \<Longrightarrow> recorded ch (cnt i) (rsLogs (tsSrvs ts i))"
  by (simp add: tester_ok_def)

lemma foldl_idle: "(\<And>x. x \<in> set xs \<Longrightarrow> f a x = a) \<Longrightarrow> foldl f a xs = a"
  by (induction xs) simp_all

lemma checkLogs_none:
  assumes "\<And>j old. j < tsN ts \<Longrightarrow> Logs (tsSrvs ts j) (CommandIndex m) = Some old \<Longrightarrow> old = Command m"
  shows "fst (checkLogs i m ts) = None"
proof -
  have "foldl (\<lambda>err j. case Logs (tsSrvs ts j) (CommandIndex m) of
          Some old \<Rightarrow> if old \<noteq> Command m then Some (CommitMismatch (CommandIndex m) i j) else err
        | None \<Rightarrow> err) None [0..<tsN ts] = None"
  proof (rule foldl_idle)
    fix j assume "j \<in> set [0..<tsN ts]"
    then show "(case Logs (tsSrvs ts j) (CommandIndex m) of
          Some old \<Rightarrow> if old \<noteq> Command m then Some (CommitMismatch (CommandIndex m) i j) else None
        | None \<Rightarrow> None) = None"
      using assms [of j] by (cases "Logs (tsSrvs ts j) (CommandIndex m)") simp_all
  qed
  then show ?thesis by (simp only: checkLogs_def Let_def fst_conv)
qed

lemma applier_consumes:
  assumes ok: "tester_ok n cnt ch ts" and i: "i < n" and ag: "agreed ch" and nn: "0 \<le> cnt i"
    and m: "CommandValid m" "CommandIndex m = cnt i + 1" "ch (cnt i + 1) (Command m)"
  shows "\<exists>ts'. applier i m ts = Inr ts' \<and> tester_ok n (cnt(i := cnt i + 1)) ch ts'"
proof -
  have n: "tsN ts = n" using ok by (simp add: tester_ok_def)
  have "fst (checkLogs i m ts) = None"
  proof (rule checkLogs_none)
    fix j old assume "j < tsN ts" "Logs (tsSrvs ts j) (CommandIndex m) = Some old"
    then have "ch (cnt i + 1) old"
      using recordedD(1) [OF tester_okD [OF ok, of j], of "cnt i + 1" old] m(2) n by (simp add: Logs_def)
    then show "old = Command m" using ag m(3) by (auto simp: agreed_def)
  qed
  then obtain prevok where c: "checkLogs i m ts = (None, prevok,
      ts\<lparr>tsSrvs := (tsSrvs ts)(i := (tsSrvs ts i)\<lparr>rsLogs := (rsLogs (tsSrvs ts i))(cnt i + 1 \<mapsto> Command m)\<rparr>),
         maxIndex := max (maxIndex ts) (cnt i + 1)\<rparr>)" "prevok \<longleftrightarrow> rsLogs (tsSrvs ts i) (cnt i) \<noteq> None"
    using m(2) by (simp add: checkLogs_def Let_def max_def)
  then have "prevok \<longleftrightarrow> 1 \<le> cnt i" using recordedD(2) [OF tester_okD [OF ok i], of "cnt i"] by simp
  moreover have "recorded ch (cnt i + 1) ((rsLogs (tsSrvs ts i))(cnt i + 1 \<mapsto> Command m))"
    using tester_okD [OF ok i] nn m(3) by (rule recorded_insert)
  ultimately show ?thesis
    using ok i m nn c(1) by (auto simp: applier_def Let_def tester_ok_def)
qed

interpretation raft_tester: apply_service n applier "\<lambda>_ (_::unit) ts. ts" mksrv "tester_ok n" for n
proof (unfold_locales, goal_cases)
  case (1 cnt ch ts ch')
  then show ?case by (auto simp: tester_ok_def recorded_def)
next
  case (2 cnt ch ts i m)
  then show ?case by (rule applier_consumes)
next
  case (4 cnt ch ts i)
  then show ?case by (auto simp: tester_ok_def mksrv_def emptyRfsrv_def)
qed


section \<open>The tests pass\<close>

text \<open>The loop of \<^verbatim>\<open>nCommitted\<close> over servers that agree.\<close>

lemma nCommitted_agree:
  assumes "\<And>i v j w. i < tsN ts \<Longrightarrow> j < tsN ts \<Longrightarrow> Logs (tsSrvs ts i) k = Some v \<Longrightarrow> Logs (tsSrvs ts j) k = Some w \<Longrightarrow> v = w"
  shows "\<exists>cmd. nCommitted k ts = Inr (length (filter (\<lambda>i. Logs (tsSrvs ts i) k \<noteq> None) [0..<tsN ts]), cmd) \<and>
     (\<forall>i < tsN ts. \<forall>v. Logs (tsSrvs ts i) k = Some v \<longrightarrow> v = cmd)"
proof -
  let ?loop = "\<lambda>m. foldl (\<lambda>acc j. case acc of
         Inl e \<Rightarrow> Inl e
       | Inr (count, cmd) \<Rightarrow>
           (case Logs (tsSrvs ts j) k of
              None \<Rightarrow> Inr (count, cmd)
            | Some cmd1 \<Rightarrow> if count > 0 \<and> cmd \<noteq> cmd1 then Inl () else Inr (count + 1, cmd1)))
       (Inr (0, None)) [0..<m]"
  have "\<exists>cmd. ?loop m = Inr (length (filter (\<lambda>i. Logs (tsSrvs ts i) k \<noteq> None) [0..<m]), cmd) \<and>
     (\<forall>i < m. \<forall>v. Logs (tsSrvs ts i) k = Some v \<longrightarrow> v = cmd)" if "m \<le> tsN ts" for m
    using that
  proof (induction m)
    case (Suc m)
    then obtain cmd where IH: "?loop m = Inr (length (filter (\<lambda>i. Logs (tsSrvs ts i) k \<noteq> None) [0..<m]), cmd)"
        "\<forall>i < m. \<forall>v. Logs (tsSrvs ts i) k = Some v \<longrightarrow> v = cmd" by auto
    show ?case
    proof (cases "Logs (tsSrvs ts m) k")
      case None
      then show ?thesis using IH by (auto simp: less_Suc_eq)
    next
      case (Some w)
      have same: "v = w" if "i < m" "Logs (tsSrvs ts i) k = Some v" for i v
        using assms [of i m v w] that Some Suc.prems by simp
      have "cmd = w" if "filter (\<lambda>i. Logs (tsSrvs ts i) k \<noteq> None) [0..<m] \<noteq> []"
        using that IH(2) same by (auto simp: filter_empty_conv)
      then show ?thesis using Some IH same by (intro exI [of _ w]) (auto simp: less_Suc_eq)
    qed
  qed simp
  from this [of "tsN ts"] show ?thesis by (simp only: nCommitted_def order_refl)
qed

lemma init_tester: "tester_ok n (\<lambda>_. 0) (\<lambda>_ _. False) (makeTest n)"
  by (simp add: tester_ok_def makeTest_def emptyRfsrv_def)

text \<open>What a check reads during a run: server \<open>i\<close> is asked at some moment, each server at its own.\<close>

definition readings :: "('c, 's, unit) sysEvent list \<Rightarrow> nat \<Rightarrow> (nat \<Rightarrow> int \<times> bool) \<Rightarrow> bool" where
  "readings evs n st \<longleftrightarrow> (\<forall>i < n. \<exists>evs1 evs2 y. evs = evs1 @ evs2 \<and>
     sysRun applier (\<lambda>_ (_::unit) ts. ts) mksrv evs1 (initSys n (makeTest n) :: ('c, 's, 'c Test) Sys) = Some (Inr y) \<and>
     st i = GetState (nodes (cluster y) i))"

lemma sysStep_history:
  assumes "sysStep consume work restart ev y = Some (Inr y')"
  shows "history_extends (cluster y) (cluster y')"
proof (cases ev)
  case (Net e)
  then obtain s where s: "step e (cluster y) = Some s" "netStep restart e y = Some y'"
    using assms by (auto simp: sysStep_def netStep_def bind_Some_iff)
  then have "cluster y' = s" by (cases e) (auto simp: netStep_def Let_def)
  then show ?thesis using step_history [OF s(1)] by simp
qed (use assms in \<open>auto simp: sysStep_def applierStep_def bind_Some_iff intro!: history_refl split: if_splits list.splits sum.splits\<close>)

lemma sysRun_Cons:
  "sysRun consume work restart (ev # evs) y = Some z \<longleftrightarrow>
     (\<exists>e. sysStep consume work restart ev y = Some (Inl e) \<and> z = Inl e) \<or>
     (\<exists>y1. sysStep consume work restart ev y = Some (Inr y1) \<and> sysRun consume work restart evs y1 = Some z)"
  by (cases "sysStep consume work restart ev y") (auto split: sum.split)

lemma sysRun_history: "sysRun consume work restart evs y = Some (Inr y') \<Longrightarrow> history_extends (cluster y) (cluster y')"
proof (induction evs arbitrary: y)
  case (Cons ev evs)
  then obtain y1 where "sysStep consume work restart ev y = Some (Inr y1)" "sysRun consume work restart evs y1 = Some (Inr y')"
    unfolding sysRun_Cons by blast
  then show ?case using Cons.IH sysStep_history history_trans by blast
qed (auto intro: history_refl)

lemma sysRun_split:
  "sysRun consume work restart (xs @ ys) y = Some z \<Longrightarrow> sysRun consume work restart xs y = Some (Inr y1) \<Longrightarrow>
     sysRun consume work restart ys y1 = Some z"
  by (induction xs arbitrary: y) (auto simp: sysRun_Cons simp del: sysRun.simps(2))

text \<open>Two leaders of one term are the same server, whenever each of them was asked.\<close>

lemma leaders_of_run:
  assumes a: "sysRun applier (\<lambda>_ (_::unit) ts. ts) mksrv xs (initSys n (makeTest n) :: ('c, 's, 'c Test) Sys) = Some (Inr y)"
    and b: "sysRun applier (\<lambda>_ (_::unit) ts. ts) mksrv ys y = Some (Inr y')"
    and ns: "list_all noSnapshots (xs @ ys)" and ij: "i < n" "j < n"
    and l: "GetState (nodes (cluster y) i) = (t, True)" "GetState (nodes (cluster y') j) = (t, True)"
  shows "i = j"
proof -
  obtain H where H: "raft_tester.service_ok n H y"
    using raft_tester.sysRun_ok [OF raft_tester.init_service [OF init_tester] a] ns unfolding raft_tester.progress_def by auto
  then obtain H' where H': "raft_tester.service_ok n H' y'"
    using raft_tester.sysRun_ok [OF H b] ns unfolding raft_tester.progress_def by auto
  have ok: "cluster_ok (cluster y)" "cluster_ok (cluster y')" and n: "size (cluster y) = n" "size (cluster y') = n"
    using H H' by (auto simp: raft_tester.service_ok_def sys_ok_def sound_def)
  have "won (cluster y) t i" "won (cluster y') t j"
    using cluster_okD(3) [OF ok(1), of i] cluster_okD(3) [OF ok(2), of j] ij n l by (auto simp: GetState_def)
  then show ?thesis using won_history [OF _ sysRun_history [OF b] ok(2)] won_unique [OF ok(2)] by blast
qed

lemma readings_unique:
  fixes evs :: "('c, 's, unit) sysEvent list"
  assumes r: "readings evs n st" and ns: "list_all noSnapshots evs" and ij: "i < n" "j < n" and l: "st i = (t, True)" "st j = (t, True)"
  shows "i = j"
proof -
  obtain a b y where a: "evs = a @ b" "GetState (nodes (cluster y) i) = (t, True)"
      "sysRun applier (\<lambda>_ (_::unit) ts. ts) mksrv a (initSys n (makeTest n) :: ('c, 's, 'c Test) Sys) = Some (Inr y)"
    using r ij(1) l(1) unfolding readings_def by metis
  obtain c d y' where c: "evs = c @ d" "GetState (nodes (cluster y') j) = (t, True)"
      "sysRun applier (\<lambda>_ (_::unit) ts. ts) mksrv c (initSys n (makeTest n) :: ('c, 's, 'c Test) Sys) = Some (Inr y')"
    using r ij(2) l(2) unfolding readings_def by metis
  obtain e where "c = a @ e \<or> a = c @ e" using a(1) c(1) by (auto simp: append_eq_append_conv2)
  then show ?thesis
  proof
    assume e: "c = a @ e"
    from leaders_of_run [OF a(3) sysRun_split [OF c(3) [unfolded e] a(3)] _ ij a(2) c(2)] ns show ?thesis by (simp add: c(1) e)
  next
    assume e: "a = c @ e"
    from leaders_of_run [OF c(3) sysRun_split [OF a(3) [unfolded e] c(3)] _ ij(2,1) c(2) a(2)] ns show ?thesis by (simp add: a(1) e)
  qed
qed

lemma leaderRound_passes:
  assumes "\<And>i j t. i < n \<Longrightarrow> j < n \<Longrightarrow> st i = (t, True) \<Longrightarrow> st j = (t, True) \<Longrightarrow> i = j"
  shows "\<exists>l. leaderRound n connected st = Inr l"
proof -
  have "length (leadersOf n connected st t) \<le> 1" for t
  proof (rule ccontr)
    assume "\<not> length (leadersOf n connected st t) \<le> 1"
    then obtain i j l where l: "leadersOf n connected st t = i # j # l"
      by (cases "leadersOf n connected st t" rule: list.exhaust [case_product list.exhaust]) (auto simp: neq_Nil_conv Suc_le_length_iff)
    have "distinct (leadersOf n connected st t)" by (simp add: leadersOf_def)
    then have ne: "i \<noteq> j" using l by simp
    have "i \<in> set (leadersOf n connected st t)" "j \<in> set (leadersOf n connected st t)" by (simp_all add: l)
    then show False using assms ne by (auto simp: leadersOf_def)
  qed
  then have "find (\<lambda>t. length (leadersOf n connected st t) > 1) (leaderTerms n connected st) = None"
    by (auto simp: find_None_iff not_less)
  then show ?thesis by (simp add: leaderRound_def Let_def)
qed

definition noRestart :: "('c, 's, 'u) sysEvent \<Rightarrow> bool" where
  "noRestart ev = (case ev of Net e \<Rightarrow> (case e of Crash i clk \<Rightarrow> False | _ \<Rightarrow> True) | _ \<Rightarrow> True)"

text \<open>C9: the safety checks of the Raft tests, in every run without snapshots, with any losses and any
  interleaving of the network, the appliers and the readers. If no server is restarted in the
  run, no reader sees an entry out of order or different from what another server has recorded,
  and at its end, which may be any moment, \<^verbatim>\<open>nCommitted\<close> finds the same command on all servers
  that have got that far and counts exactly these. Whether servers are restarted or not, no
  round of \<^verbatim>\<open>checkOneLeader\<close> finds two leaders of one term, although it asks every server at
  another moment of the run.\<close>

theorem raft_tests_pass:
  assumes "sysRun applier (\<lambda>_ (_::unit) ts. ts) mksrv evs (initSys n (makeTest n) :: ('c, 's, 'c Test) Sys) = Some z"
    and "list_all noSnapshots evs"
  shows "(list_all noRestart evs \<longrightarrow> (\<exists>y. z = Inr y \<and>
       (\<forall>k. \<exists>cmd. nCommitted k (svc y) = Inr (length (filter (\<lambda>i. 1 \<le> k \<and> k \<le> receivedBy y i) [0..<n]), cmd)))) \<and>
     (\<forall>connected st. readings evs n st \<longrightarrow> (\<exists>l. leaderRound n connected st = Inr l))"
proof -
  obtain y where y: "z = Inr y" "raft_tester.progress n [0 \<mapsto> [zeroEntry]] (initSys n (makeTest n)) y"
    using raft_tester.sysRun_ok [OF raft_tester.init_service [OF init_tester] assms] by blast
  then obtain H where H: "sound H (cluster y)" "tester_ok n (receivedBy y) (chosen H (cluster y)) (svc y)"
    by (auto simp: raft_tester.progress_def raft_tester.service_ok_def sys_ok_def)
  have n: "tsN (svc y) = n" using H(2) by (simp add: tester_ok_def)
  have "\<exists>cmd. nCommitted k (svc y) = Inr (length (filter (\<lambda>i. 1 \<le> k \<and> k \<le> receivedBy y i) [0..<n]), cmd)" for k
  proof -
    have "filter (\<lambda>i. Logs (tsSrvs (svc y) i) k \<noteq> None) [0..<n] = filter (\<lambda>i. 1 \<le> k \<and> k \<le> receivedBy y i) [0..<n]"
      using recordedD(2) [OF tester_okD [OF H(2)]] by (intro filter_cong) (simp_all add: Logs_def)
    moreover have "v = w" if "i < n" "j < n" "Logs (tsSrvs (svc y) i) k = Some v" "Logs (tsSrvs (svc y) j) k = Some w" for i j v w
      using that recordedD(1) [OF tester_okD [OF H(2)]] by (intro chosen_unique [OF H(1), of k]) (auto simp: Logs_def)
    ultimately show ?thesis using nCommitted_agree [of "svc y" k] n by metis
  qed
  moreover have "\<exists>l. leaderRound n connected st = Inr l" if "readings evs n st" for connected st
    using readings_unique [OF that assms(2)] by (rule leaderRound_passes)
  ultimately show ?thesis using y(1) by blast
qed

text \<open>A leader commits an entry and its reader gets it; another server takes over and commits a second
  one, and its reader gets both. A round of \<^verbatim>\<open>checkOneLeader\<close> asks the first server before the takeover
  and the others after it.\<close>

definition testerEvents :: "(nat, nat, unit) sysEvent list" where
  "testerEvents =
     map Net commitEvents @ [ApplierStep 0, Receive 0] @ map Net (tl takeoverEvents) @ [ApplierStep 1, Receive 1, Receive 1]"

definition testerReadings :: "nat \<Rightarrow> int \<times> bool" where
  "testerReadings i = (if i = 0 then (1, True) else (2, i = 1))"

lemma testerEvents_run:
  "case sysRun applier (\<lambda>_ (_::unit) ts. ts) mksrv testerEvents (initSys 3 (makeTest 3)) of
     Some (Inr y) \<Rightarrow> receivedBy y 0 = 1 \<and> receivedBy y 1 = 2 \<and> nCommitted 1 (svc y) = Inr (2, Some 7) \<and>
       GetState (nodes (cluster y) 1) = (2, True) \<and> GetState (nodes (cluster y) 2) = (2, False) | _ \<Rightarrow> False"
  "case sysRun applier (\<lambda>_ (_::unit) ts. ts) mksrv (map Net commitEvents) (initSys 3 (makeTest 3)) of
     Some (Inr y) \<Rightarrow> GetState (nodes (cluster y) 0) = (1, True) | _ \<Rightarrow> False"
  by code_simp+

lemma testerReadings_read: "readings testerEvents 3 testerReadings"
proof -
  obtain y where y: "sysRun applier (\<lambda>_ (_::unit) ts. ts) mksrv testerEvents (initSys 3 (makeTest 3)) = Some (Inr y)"
      "GetState (nodes (cluster y) 1) = (2, True)" "GetState (nodes (cluster y) 2) = (2, False)"
    using testerEvents_run(1) by (auto split: option.splits sum.splits)
  obtain x where x: "sysRun applier (\<lambda>_ (_::unit) ts. ts) mksrv (map Net commitEvents) (initSys 3 (makeTest 3)) = Some (Inr x)"
      "GetState (nodes (cluster x) 0) = (1, True)"
    using testerEvents_run(2) by (auto split: option.splits sum.splits)
  have "testerReadings 0 = GetState (nodes (cluster x) 0)" "testerReadings 1 = GetState (nodes (cluster y) 1)"
    "testerReadings 2 = GetState (nodes (cluster y) 2)" using x(2) y(2,3) by (simp_all add: testerReadings_def)
  moreover have "testerEvents = testerEvents @ []" by simp
  moreover have "i = 0 \<or> i = 1 \<or> i = 2" if "i < 3" for i :: nat using that by auto
  ultimately show ?thesis unfolding readings_def using x(1) y(1) testerEvents_def by metis
qed

theorem raft_tests_pass_witness:
  "\<exists>y. sysRun applier (\<lambda>_ (_::unit) ts. ts) mksrv testerEvents (initSys 3 (makeTest 3)) = Some (Inr y) \<and>
     receivedBy y 0 = 1 \<and> receivedBy y 1 = 2 \<and> (\<exists>cmd. nCommitted 1 (svc y) = Inr (2, cmd)) \<and>
     (\<exists>l. leaderRound 3 (\<lambda>_. True) testerReadings = Inr l)"
proof -
  obtain y where y: "sysRun applier (\<lambda>_ (_::unit) ts. ts) mksrv testerEvents (initSys 3 (makeTest 3)) = Some (Inr y)"
      "receivedBy y 0 = 1" "receivedBy y 1 = 2" "nCommitted 1 (svc y) = Inr (2, Some 7)"
    using testerEvents_run(1) by (auto split: option.splits sum.splits)
  have "list_all noSnapshots testerEvents" "list_all noRestart testerEvents" by code_simp+
  then have "\<exists>cmd. nCommitted 1 (svc y) = Inr (length (filter (\<lambda>i. 1 \<le> (1::int) \<and> 1 \<le> receivedBy y i) [0..<3]), cmd)"
      "\<exists>l. leaderRound 3 (\<lambda>_. True) testerReadings = Inr l"
    using raft_tests_pass [OF y(1)] testerReadings_read by blast+
  then show ?thesis using y by blast
qed

text \<open>Why restarts are excluded for the readers: an instance that was killed while its applier was
  sending a batch goes on sending it, and its reader still calls \<^verbatim>\<open>checkLogs\<close>, which looks at the
  new server with the same number. If the new server has recorded nothing yet, every entry after
  the first is reported as out of order, whatever the servers have agreed on.\<close>

lemma stale_reader_fails:
  assumes "CommandValid m" "CommandIndex m > 1"
  shows "applier i m (mksrv i ts) = Inl (ApplyOutOfOrder i (CommandIndex m))"
  using assms by (simp add: applier_def checkLogs_def mksrv_def emptyRfsrv_def Let_def)

text \<open>The snapshot that a server of the tests takes after entry \<open>k\<close> restores its copy of the log:
  after reading it a server has the same command at every index up to \<open>k\<close>, nothing above, and
  goes on with entry \<open>k + 1\<close>; index 0 becomes a recorded nil.\<close>

lemma test_snapshot_roundtrip:
  assumes "\<And>j. 1 \<le> j \<Longrightarrow> j \<le> k \<Longrightarrow> rsLogs rs j \<noteq> None" and "rsLogs rs 0 = None" "0 \<le> k"
  shows "newRfsrv srv True [TInt k, TLog (snapLog k rs)] =
     Inr \<lparr>rsLastApplied = k, rsLogs = (\<lambda>j. if 1 \<le> j \<and> j \<le> k then rsLogs rs j else None)(0 \<mapsto> None)\<rparr>"
proof -
  have len: "int (length (snapLog k rs)) = k + 1" using assms(3) by (simp add: snapLog_def)
  have nth: "snapLog k rs ! nat j = (case rsLogs rs j of Some v \<Rightarrow> v | None \<Rightarrow> None)" if "0 \<le> j" "j < k + 1" for j
    using that by (simp add: snapLog_def nth_upto)
  have "(if 0 \<le> j \<and> j < int (length (snapLog k rs)) then Some (snapLog k rs ! nat j) else None) =
      ((\<lambda>j. if 1 \<le> j \<and> j \<le> k then rsLogs rs j else None)(0 \<mapsto> None)) j" for j
  proof (cases "1 \<le> j \<and> j \<le> k")
    case True
    then obtain v where "rsLogs rs j = Some v" using assms(1) [of j] by auto
    then show ?thesis using True nth [of j] by (simp add: len)
  next
    case False
    then show ?thesis using assms(2,3) nth [of 0] by (auto simp: len)
  qed
  then show ?thesis by (simp add: newRfsrv_def emptyRfsrv_def fun_eq_iff)
qed

end
