(* ===== verification/Raft_Agree.thy ===== *)
theory Raft_Agree
  imports Raft_Tester
begin

text \<open>
  Agreement as the Raft tests look for it (\<^verbatim>\<open>one\<close> and \<^verbatim>\<open>wait\<close> of \<^verbatim>\<open>src/raft1/test.go\<close>, \<^verbatim>\<open>Kill\<close> of
  \<^verbatim>\<open>src/raft1/server.go\<close>). The functions poll what the servers have recorded; their arguments are
  what they find each time they look, which is how the clock enters. Shown is what the tests rest on:
  when \<^verbatim>\<open>one\<close> returns an index, that many servers have its command there, and no server has or
  will ever record anything else at that index.
\<close>

section \<open>one\<close>

text \<open>One round over the servers, after \<open>starts\<close>. \<open>start s\<close> is what \<^verbatim>\<open>Start\<close> of server \<open>s\<close> returns; \<open>None\<close>:
  not connected, or no Raft peer.\<close>

fun tryStart :: "nat \<Rightarrow> nat \<Rightarrow> (nat \<Rightarrow> (int \<times> int \<times> bool) option) \<Rightarrow> nat \<Rightarrow> int \<times> nat" where
  "tryStart 0 n start starts = (-1, starts)"
| "tryStart (Suc k) n start starts =
     (let s = (starts + 1) mod n
      in case start s of
           Some (index1, term, ok) \<Rightarrow> if ok then (index1, s) else tryStart k n start s
         | None \<Rightarrow> tryStart k n start s)"

text \<open>The polls of two seconds; \<open>Inl\<close> is the failure of \<^verbatim>\<open>nCommitted\<close>.\<close>

fun awaitAgreement :: "int \<Rightarrow> 'c option \<Rightarrow> int \<Rightarrow> 'c Test list \<Rightarrow> unit + bool" where
  "awaitAgreement index cmd expectedServers [] = Inr False"
| "awaitAgreement index cmd expectedServers (ts # polls) =
     (case nCommitted index ts of
        Inl e \<Rightarrow> Inl e
      | Inr (nd, cmd1) \<Rightarrow>
          if nd > 0 \<and> int nd \<ge> expectedServers \<and> cmd1 = cmd then Inr True
          else awaitAgreement index cmd expectedServers polls)"

datatype oneErr = ValuesDiffer | NotAfterSubmitting | NotInTime

text \<open>The rounds of ten seconds, each with the answers of \<^verbatim>\<open>Start\<close> and the polls after it; \<open>finished\<close> says
  whether the loop ended because the test is over.\<close>

fun one :: "'c option \<Rightarrow> int \<Rightarrow> bool \<Rightarrow> nat \<Rightarrow> bool \<Rightarrow> ((nat \<Rightarrow> (int \<times> int \<times> bool) option) \<times> 'c Test list) list \<Rightarrow>
    nat \<Rightarrow> oneErr + int" where
  "one cmd expectedServers retry n finished [] starts = (if finished then Inr (-1) else Inl NotInTime)"
| "one cmd expectedServers retry n finished ((start, polls) # rounds) starts =
     (case tryStart n n start starts of (index, starts') \<Rightarrow>
        if index \<noteq> -1
        then (case awaitAgreement index cmd expectedServers polls of
                Inl _ \<Rightarrow> Inl ValuesDiffer
              | Inr True \<Rightarrow> Inr index
              | Inr False \<Rightarrow>
                  if \<not> retry then Inl NotAfterSubmitting else one cmd expectedServers retry n finished rounds starts')
        else one cmd expectedServers retry n finished rounds starts')"

section \<open>wait\<close>

datatype 'c waited = MovedOn | Decided "'c option"

datatype waitErr = WaitDiffer | TooFew nat

definition waitEnd :: "int \<Rightarrow> int \<Rightarrow> 'c Test \<Rightarrow> waitErr + 'c waited" where
  "waitEnd index n ts =
     (case nCommitted index ts of
        Inl _ \<Rightarrow> Inl WaitDiffer
      | Inr (nd, cmd) \<Rightarrow> if int nd < n then Inl (TooFew nd) else Inr (Decided cmd))"

text \<open>\<open>polls\<close> has what the servers have recorded at each look, and the terms of all servers after the
  sleep that follows it; \<open>final\<close> is what they have recorded at the end.\<close>

fun waitLoop :: "int \<Rightarrow> int \<Rightarrow> int \<Rightarrow> ('c Test \<times> int list) list \<Rightarrow> 'c Test \<Rightarrow> waitErr + 'c waited" where
  "waitLoop index n startTerm [] final = waitEnd index n final"
| "waitLoop index n startTerm ((ts, terms) # polls) final =
     (case nCommitted index ts of
        Inl _ \<Rightarrow> Inl WaitDiffer
      | Inr (nd, _) \<Rightarrow>
          if int nd \<ge> n then waitEnd index n final
          else if startTerm > -1 \<and> list_ex (\<lambda>t. t > startTerm) terms then Inr MovedOn
          else waitLoop index n startTerm polls final)"

definition wait :: "int \<Rightarrow> int \<Rightarrow> int \<Rightarrow> ('c Test \<times> int list) list \<Rightarrow> 'c Test \<Rightarrow> waitErr + 'c waited" where
  "wait index n startTerm polls final = waitLoop index n startTerm (take 30 polls) final"

section \<open>Kill\<close>

text \<open>The persister of a server that is shut down; \<open>None\<close> is nil.\<close>

definition rfsrvKill :: "('r, 's) Persister option \<Rightarrow> ('r, 's) Persister option" where
  "rfsrvKill ps = map_option (\<lambda>p. Save (ReadRaftState p) (ReadSnapshot p) p) ps"

lemma rfsrvKill_keeps: "rfsrvKill ps = ps"
  by (cases ps) (simp_all add: rfsrvKill_def Save_def ReadRaftState_def ReadSnapshot_def clone_def)

section \<open>What the answers mean\<close>

text \<open>A round that finds nobody has asked every server; a leader never returns index -1.\<close>

lemma tryStart_asked:
  assumes "tryStart k n start starts = (-1, s')" "d < k" "start ((starts + 1 + d) mod n) = Some (index1, t, ok)"
    and "\<And>s t. start s \<noteq> Some (-1, t, True)"
  shows "\<not> ok"
  using assms
proof (induction k arbitrary: d starts)
  case (Suc k)
  show ?case
  proof (cases d)
    case 0
    then show ?thesis using Suc.prems(1,3,4) by (auto simp: Let_def split: if_splits)
  next
    case (Suc e)
    have "((starts + 1) mod n + 1 + e) mod n = (starts + 1 + d) mod n"
      using mod_add_left_eq [of "starts + 1" n "1 + e"] by (simp add: Suc)
    then have next': "start (((starts + 1) mod n + 1 + e) mod n) = Some (index1, t, ok)" using Suc.prems(3) by simp
    show ?thesis
    proof (cases "tryStart k n start ((starts + 1) mod n) = (-1, s')")
      case True
      then show ?thesis using Suc.IH [OF True _ next' Suc.prems(4)] Suc.prems(2) Suc by simp
    next
      case False
      then show ?thesis using Suc.prems(1,4) by (auto simp: Let_def split: option.splits if_splits)
    qed
  qed
qed simp

lemma awaitAgreement_found:
  "awaitAgreement index cmd e polls = Inr True \<Longrightarrow>
     \<exists>ts \<in> set polls. \<exists>nd. nCommitted index ts = Inr (nd, cmd) \<and> nd > 0 \<and> int nd \<ge> e"
  by (induction polls) (auto split: sum.splits if_splits)

lemma one_found:
  assumes "one cmd e retry n finished rounds starts = Inr index" "index \<noteq> -1"
  shows "\<exists>(start, polls) \<in> set rounds. \<exists>ts \<in> set polls. \<exists>nd. nCommitted index ts = Inr (nd, cmd) \<and> nd > 0 \<and> int nd \<ge> e"
  using assms
proof (induction rounds arbitrary: starts)
  case (Cons r rounds)
  obtain start polls where r: "r = (start, polls)" by (cases r)
  obtain i s' where t: "tryStart n n start starts = (i, s')" by (cases "tryStart n n start starts")
  show ?case
  proof (cases "i \<noteq> -1 \<and> awaitAgreement i cmd e polls = Inr True")
    case True
    then have "index = i" using Cons.prems(1) r t by simp
    then show ?thesis using awaitAgreement_found [of i cmd e polls] True r by auto
  next
    case False
    then have "one cmd e retry n finished rounds s' = Inr index"
      using Cons.prems(1) r t by (auto split: sum.splits if_splits bool.splits)
    from Cons.IH [OF this Cons.prems(2)] show ?thesis by simp
  qed
qed (simp split: if_splits)

lemma wait_decided:
  assumes "wait index n startTerm polls final = Inr (Decided cmd)"
  shows "\<exists>nd. nCommitted index final = Inr (nd, cmd) \<and> int nd \<ge> n"
proof -
  have "waitLoop index n startTerm l final = Inr (Decided cmd) \<Longrightarrow> waitEnd index n final = Inr (Decided cmd)" for l
    by (induction l) (auto split: sum.splits if_splits)
  then show ?thesis using assms by (fastforce simp: wait_def waitEnd_def split: sum.splits if_splits)
qed

lemma nCommitted_chosen:
  assumes ok: "tester_ok n cnt ch ts" and ag: "agreed ch" and c: "nCommitted k ts = Inr (nd, cmd)" "nd > 0"
  shows "ch k cmd"
proof -
  have n: "tsN ts = n" using ok by (simp add: tester_ok_def)
  have ch: "ch k v" if "i < n" "Logs (tsSrvs ts i) k = Some v" for i v
    using recordedD(1) [OF tester_okD [OF ok that(1)]] that(2) by (simp add: Logs_def)
  then have "\<exists>cmd. nCommitted k ts = Inr (length (filter (\<lambda>i. Logs (tsSrvs ts i) k \<noteq> None) [0..<tsN ts]), cmd) \<and>
     (\<forall>i < tsN ts. \<forall>v. Logs (tsSrvs ts i) k = Some v \<longrightarrow> v = cmd)"
    using ag n unfolding agreed_def by (intro nCommitted_agree) blast
  then have f: "nd = length (filter (\<lambda>i. Logs (tsSrvs ts i) k \<noteq> None) [0..<tsN ts])"
      "\<forall>i < tsN ts. \<forall>v. Logs (tsSrvs ts i) k = Some v \<longrightarrow> v = cmd" using c(1) by auto
  then obtain i where "i < n" "Logs (tsSrvs ts i) k \<noteq> None" using c(2) n by (auto simp: filter_empty_conv)
  then show ?thesis using ch f(2) n by auto
qed

text \<open>Agreement is final: what \<^verbatim>\<open>nCommitted\<close> reports at one moment of a run is all that the reader of
  any server records at that index later, also after restarts.\<close>

lemma nCommitted_final:
  fixes y :: "('c, 's, 'c Test) Sys"
  assumes run: "sysRun applier (\<lambda>_ (_::unit) ts. ts) mksrv evs (initSys n (makeTest n)) = Some (Inr y)" "list_all noSnapshots evs"
    and more: "sysRun applier (\<lambda>_ (_::unit) ts. ts) mksrv evs' y = Some z" "list_all noSnapshots evs'"
    and c: "nCommitted k (svc y) = Inr (nd, cmd)" "nd > 0"
  shows "\<exists>y'. z = Inr y' \<and> (\<forall>i < n. \<forall>v. Logs (tsSrvs (svc y') i) k = Some v \<longrightarrow> v = cmd)"
proof -
  obtain H where H: "raft_tester.service_ok n H y"
    using raft_tester.sysRun_ok [OF raft_tester.init_service [OF init_tester] run] unfolding raft_tester.progress_def by blast
  then obtain y' H' where y': "z = Inr y'" "raft_tester.service_ok n H' y'" "reaches H (cluster y) H' (cluster y')"
    using raft_tester.sysRun_ok [OF H more] unfolding raft_tester.progress_def by blast
  have s: "sound H (cluster y)" "tester_ok n (receivedBy y) (chosen H (cluster y)) (svc y)"
      "sound H' (cluster y')" "tester_ok n (receivedBy y') (chosen H' (cluster y')) (svc y')"
    using H y'(2) by (simp_all add: raft_tester.service_ok_def sys_ok_def)
  have "agreed (chosen H (cluster y))" using chosen_unique [OF s(1)] unfolding agreed_def by blast
  then have "chosen H (cluster y) k cmd" by (rule nCommitted_chosen [OF s(2) _ c])
  then have "chosen H' (cluster y') k cmd" by (rule chosen_reaches [OF y'(3)])
  then have "v = cmd" if "i < n" "Logs (tsSrvs (svc y') i) k = Some v" for i v
    using recordedD(1) [OF tester_okD [OF s(4) that(1)]] that(2) by (intro chosen_unique [OF s(3)]) (auto simp: Logs_def)
  then show ?thesis using y'(1) by blast
qed

text \<open>When \<^verbatim>\<open>one\<close>, looking at the states of a run, returns an index, no server has recorded or will
  record another command there, however the run goes on.\<close>

lemma one_agreement_final:
  fixes y :: "('c, 's, 'c Test) Sys"
  assumes one: "one cmd e retry n finished rounds starts = Inr index" "index \<noteq> -1"
    and polls: "\<And>start polls ts. (start, polls) \<in> set rounds \<Longrightarrow> ts \<in> set polls \<Longrightarrow>
      \<exists>evs1 evs2 y1. evs = evs1 @ evs2 \<and> ts = svc y1 \<and>
        sysRun applier (\<lambda>_ (_::unit) ts. ts) mksrv evs1 (initSys n (makeTest n)) = Some (Inr (y1 :: ('c, 's, 'c Test) Sys)) \<and>
        sysRun applier (\<lambda>_ (_::unit) ts. ts) mksrv evs2 y1 = Some (Inr y)"
    and ns: "list_all noSnapshots evs" and i: "i < n" "Logs (tsSrvs (svc y) i) index = Some v"
  shows "v = cmd"
proof -
  obtain start polls ts nd where f: "(start, polls) \<in> set rounds" "ts \<in> set polls" "nCommitted index ts = Inr (nd, cmd)" "nd > 0"
    using one_found [OF one] by blast
  obtain evs1 evs2 y1 where r: "evs = evs1 @ evs2" "ts = svc y1"
      "sysRun applier (\<lambda>_ (_::unit) ts. ts) mksrv evs1 (initSys n (makeTest n)) = Some (Inr (y1 :: ('c, 's, 'c Test) Sys))"
      "sysRun applier (\<lambda>_ (_::unit) ts. ts) mksrv evs2 y1 = Some (Inr y)"
    using polls [OF f(1,2)] by blast
  then have "list_all noSnapshots evs1" "list_all noSnapshots evs2" using ns by simp_all
  from nCommitted_final [OF r(3) this(1) r(4) this(2) f(3) [unfolded r(2)] f(4)] i show ?thesis by auto
qed

end
