(* ===== verification/Raft_Defects.thy ===== *)
theory Raft_Defects
  imports Raft_Cluster
begin

text \<open>
  Two defects of \<^verbatim>\<open>src/raft1/raft.go\<close> as concrete runs of the cluster.

  A run of three peers in which \<^verbatim>\<open>InstallSnapShot\<close> (\<^verbatim>\<open>src/raft1/raft.go\<close>) loses a committed
  entry. Peer 0 leads term 1 and replicates two commands to peer 1, and the first one also to
  peer 2. Before it learns that peer 1 has both, it takes a snapshot at index 1 and sends it
  to peer 1, whose \<^verbatim>\<open>NextIndex\<close> still says 1. Then the acknowledgement arrives: index 2 is
  stored by a majority, and peer 0 commits it. Now the snapshot reaches peer 1 and removes
  index 2 there. Peer 2 can win term 2 with the vote of peer 1 and commit another command at
  index 2.

  A run in which \<^verbatim>\<open>sendSnapShot\<close> finds that its peer has lost the leadership and returns
  without releasing the mutex: the peer takes no further step.
\<close>

section \<open>A committed entry is lost\<close>

definition lostCommitRun :: "(string, nat) event list" where
  "lostCommitRun =
     [Elect 0 (1, 1), DeliverVote 0 1 (1, 1), HandleVote 0 1 True,
      ClientStart 0 ''a'', SendTo 0 2, DeliverAppend 0 (2, 2), HandleAppend 0 True,
      ClientStart 0 ''b'', SendTo 0 1, DeliverAppend 1 (3, 3),
      ServiceSnapshot 0 1 [9], SendTo 0 1, FireSnap 0,
      HandleAppend 1 True, DeliverSnap 0 (4, 4),
      Elect 2 (5, 5), DeliverVote 1 1 (5, 5), HandleVote 1 1 True,
      ClientStart 2 ''c'', SendTo 2 1, DeliverAppend 2 (6, 6), HandleAppend 2 True]"

text \<open>C13: with snapshots the log is not safe. There is a run of three peers, without any crash
  and with every message delivered at most once, after which two live peers have committed
  different commands at the same index.\<close>

theorem committed_entry_lost:
  "\<exists>s. steps lostCommitRun (initCluster 3) = Some s \<and>
     CommitIndex (nodes s 0) = 2 \<and> leCommand (fst (GetLogEntry (nodes s 0) 2)) = Some ''b'' \<and>
     CommitIndex (nodes s 2) = 2 \<and> leCommand (fst (GetLogEntry (nodes s 2) 2)) = Some ''c''"
proof -
  have "map_option (\<lambda>s. (CommitIndex (nodes s 0), leCommand (fst (GetLogEntry (nodes s 0) 2)),
        CommitIndex (nodes s 2), leCommand (fst (GetLogEntry (nodes s 2) 2))))
      (steps lostCommitRun (initCluster 3)) = Some (2, Some ''b'', 2, Some ''c'')"
    by code_simp
  then show ?thesis by auto
qed

section \<open>A peer is blocked\<close>

lemma step_blocked:
  assumes "mu (nodes s i)" "\<forall>clk. ev \<noteq> Crash i clk" "step ev s = Some s'"
  shows "nodes s' i = nodes s i"
proof (cases ev)
  case (SendTo j k)
  show ?thesis
  proof (cases "active j s \<and> k < size s \<and> k \<noteq> j")
    case True
    then obtain out where "PrepareEntries k (nodes s j) = Some out"
      using assms(3) SendTo by (auto simp: step_def stepSendTo_def bind_Some_iff)
    then show ?thesis using assms(3) SendTo True by (cases out) (auto simp: step_def stepSendTo_def)
  qed (use assms(3) SendTo in \<open>auto simp: step_def\<close>)
qed (use assms in \<open>auto simp: step_def active_def setNode_def stepElect_def stepDeliverVote_def stepHandleVote_def
      stepDeliverAppend_def stepHandleAppend_def stepFireSnap_def stepDeliverSnap_def stepHandleSnap_def stepCrash_def
      bind_Some_iff Let_def case_prod_beta split: if_splits call_state.splits\<close>)

lemma steps_blocked:
  "mu (nodes s i) \<Longrightarrow> \<forall>clk. Crash i clk \<notin> set evs \<Longrightarrow> steps evs s = Some s' \<Longrightarrow> nodes s' i = nodes s i"
proof (induction evs arbitrary: s)
  case (Cons ev evs)
  from Cons.prems(3) obtain s1 where s1: "step ev s = Some s1" "steps evs s1 = Some s'"
    by (auto simp: bind_Some_iff)
  have "nodes s1 i = nodes s i" using step_blocked [OF Cons.prems(1) _ s1(1)] Cons.prems(2) by auto
  then show ?case using Cons.IH [of s1] Cons.prems s1(2) by simp
qed simp

definition leakRun :: "(string, nat) event list" where
  "leakRun =
     [Elect 0 (1, 1), DeliverVote 0 1 (1, 1), HandleVote 0 1 True,
      ClientStart 0 ''a'', SendTo 0 2, DeliverAppend 0 (2, 2), HandleAppend 0 True,
      ServiceSnapshot 0 1 [9], SendTo 0 1,
      Elect 2 (3, 3), DeliverVote 1 0 (3, 3), FireSnap 0]"

text \<open>C39: a peer can be blocked for ever. There is a run without crashes, after which peer 0 is
  alive but holds its own mutex; whatever happens afterwards, short of a restart of the peer,
  its state never changes again.\<close>

theorem leaked_mutex_blocks_peer:
  "\<exists>s. steps leakRun (initCluster 3) = Some s \<and> \<not> killed (nodes s 0) \<and> State (nodes s 0) = Follower \<and>
     (\<forall>evs s'. (\<forall>clk. Crash 0 clk \<notin> set evs) \<longrightarrow> steps evs s = Some s' \<longrightarrow> nodes s' 0 = nodes s 0)"
proof -
  have "map_option (\<lambda>s. (mu (nodes s 0), killed (nodes s 0), State (nodes s 0))) (steps leakRun (initCluster 3)) =
      Some (True, False, Follower)"
    by code_simp
  then obtain s where "steps leakRun (initCluster 3) = Some s" "mu (nodes s 0)" "\<not> killed (nodes s 0)"
      "State (nodes s 0) = Follower" by auto
  then show ?thesis using steps_blocked [of s 0] by (intro exI [of _ s]) blast
qed

theorem leaked_mutex_blocks_peer_witness:
  "\<exists>s s'. steps leakRun (initCluster 3) = Some s \<and>
     steps [Elect 0 (9, 9), ClientStart 0 ''x''] s = Some s' \<and> nodes s' 0 = nodes s 0"
proof -
  obtain s where s: "steps leakRun (initCluster 3) = Some s"
      "\<forall>evs s'. (\<forall>clk. Crash 0 clk \<notin> set evs) \<longrightarrow> steps evs s = Some s' \<longrightarrow> nodes s' 0 = nodes s 0"
    using leaked_mutex_blocks_peer by blast
  have "map_option (\<lambda>s. steps [Elect 0 (9, 9), ClientStart 0 ''x''] s \<noteq> None) (steps leakRun (initCluster 3)) = Some True"
    by code_simp
  then obtain s' where s': "steps [Elect 0 (9, 9), ClientStart 0 ''x''] s = Some s'" using s(1) by auto
  have "nodes s' 0 = nodes s 0" by (rule s(2) [rule_format, OF _ s']) auto
  then show ?thesis using s(1) s' by blast
qed

end
