(* ===== verification/Raft_Total.thy ===== *)
theory Raft_Total
  imports Raft_Commit
begin

text \<open>
  No peer panics. The only step of a peer that is not total on well-formed states is the slice of
  the log that a leader sends: it is out of range when the next index of a follower is beyond the
  end of the log. Next indices come from the leader's own log and from the replies to its calls;
  in runs without snapshots both stay within the log as long as the peer leads.
\<close>

section \<open>Next indices\<close>

text \<open>What the reply of a follower may suggest.\<close>

definition reply_bounded :: "'c AppendEntriesArgs \<Rightarrow> AppendEntriesReply \<Rightarrow> bool" where
  "reply_bounded args r \<longleftrightarrow> (\<not> aerSuccess r \<longrightarrow> aerTerm r \<le> aeTerm args \<longrightarrow>
     aerXIndex r \<le> aePrevLogIndex args + 1 \<and> (aerXTerm r = 0 \<longrightarrow> aerXLen r \<le> aePrevLogIndex args + 1))"

definition next_bounded :: "('c, 's) Raft \<Rightarrow> bool" where
  "next_bounded rf \<longleftrightarrow> (State rf = Leader \<longrightarrow> (\<forall>j < peers rf. NextIndex rf ! j \<le> lastIndex rf + 1))"

definition bounded :: "('c, 's) Cluster \<Rightarrow> bool" where
  "bounded s \<longleftrightarrow> (\<forall>i < size s. next_bounded (nodes s i)) \<and>
     (\<forall>c \<in> set (appends s). \<forall>r. acState c = Replied r \<longrightarrow> reply_bounded (acArgs c) r)"

lemma firstOfTerm_le: "firstOfTerm rf t i \<le> i"
proof (induction rf t i rule: firstOfTerm.induct)
  case (1 rf t i)
  obtain e ok where g: "GetLogEntry rf (i - 1) = (e, ok)" by fastforce
  show ?case
  proof (cases "i > LastIncludedIndex rf \<and> ok \<and> leTerm e = t")
    case True
    then have "firstOfTerm rf t (i - 1) \<le> i - 1" using 1 g by auto
    then show ?thesis using True g by (subst firstOfTerm.simps) simp
  next
    case False
    then show ?thesis using g by (subst firstOfTerm.simps) auto
  qed
qed

text \<open>A follower without a snapshot suggests an index up to that of the call.\<close>

lemma AppendEntries_reply_bounded:
  assumes wf: "wf_raft rf" and l: "LastIncludedIndex rf = 0" and v: "valid_append args" "0 \<le> aePrevLogIndex args"
    and a: "AppendEntries clk args rf = Some (rf', r)"
  shows "reply_bounded args r"
  using wf v(1)
proof (cases rule: AppendEntries_cases [of rf args clk])
  case (rejected reply)
  let ?rf = "acceptLeader clk (aeTerm args) rf"
  have r: "r = reply" using rejected(3) a by simp
  obtain e ok where g: "GetLogEntry ?rf (aePrevLogIndex args) = (e, ok)" by fastforce
  have wf': "wf_raft ?rf" using wf by simp
  have last: "GetLastLog ?rf = Some (last (Log rf))" "leIndex (last (Log rf)) = lastIndex rf"
    using wf wf_raftD(1) [OF wf'] last_leIndex [OF wf] by (simp_all add: GetLastLog_Some)
  show ?thesis
  proof (cases ok)
    case True
    then have "leIndex e = aePrevLogIndex args" using GetLogEntry_index [OF wf'] g by simp
    then show ?thesis
      using rejected(6) g l v(2) True last firstOfTerm_le [of ?rf "leTerm e" "leIndex e"]
      by (auto simp: checkLogConsistency_def reply_bounded_def r zeroAppendReply_def split: if_splits)
  next
    case False
    then have "lastIndex rf < aePrevLogIndex args" using g v(2) l wf' by (auto simp: GetLogEntry_def Let_def lastIndex_def split: if_splits)
    then show ?thesis
      using rejected(6) g l v(2) False last by (auto simp: checkLogConsistency_def reply_bounded_def r)
  qed
next
  case (stale reply)
  then show ?thesis using a by (simp add: reply_bounded_def)
next
  case (accepted rf3 reply)
  then show ?thesis using a by (simp add: reply_bounded_def)
qed

lemma backup_bounded:
  assumes "wf_raft rf" "reply_bounded args r" "\<not> aerSuccess r" "aerTerm r \<le> aeTerm args" "aePrevLogIndex args \<le> lastIndex rf"
  shows "backup r rf \<le> lastIndex rf + 1"
proof (cases "find (\<lambda>e. leTerm e = aerXTerm r) (rev (Log rf))")
  case (Some e)
  then have "e \<in> set (Log rf)" by (auto simp: find_Some_iff rev_nth)
  then have "leIndex e \<le> lastIndex rf"
    using consecutive_nth [OF wf_raftD(3) [OF assms(1)]] by (auto simp: in_set_conv_nth lastIndex_def)
  then show ?thesis using assms Some by (auto simp: backup_def reply_bounded_def)
qed (use assms in \<open>auto simp: backup_def reply_bounded_def\<close>)

lemma PrepareEntries_total:
  assumes "wf_raft rf" "next_bounded rf" "j < peers rf"
  shows "\<exists>out. PrepareEntries j rf = Some out"
proof (cases "State rf \<noteq> Leader \<or> killed rf")
  case False
  then have n: "NextIndex rf ! j \<le> lastIndex rf + 1" "length (NextIndex rf) = peers rf"
    using assms wf_raftD(7) [OF assms(1)] by (simp_all add: next_bounded_def)
  have l: "GetLastLog rf = Some (last (Log rf))" "leIndex (last (Log rf)) = lastIndex rf"
    using assms(1) last_leIndex [OF assms(1)] by (simp_all add: GetLastLog_Some wf_raftD(1))
  have "\<exists>p. GetLogSlices rf (NextIndex rf ! j) (lastIndex rf + 1) = Some p" if "LastIncludedIndex rf < NextIndex rf ! j"
    using GetLogSlices_spec [OF assms(1), of "NextIndex rf ! j" "lastIndex rf + 1"] that n(1) by auto
  then show ?thesis using False n(2) assms(3) l by (auto simp: PrepareEntries_def idx_def Let_def)
qed (simp add: PrepareEntries_def)

section \<open>The invariant\<close>

lemma boundedD:
  assumes "bounded s"
  shows "i < size s \<Longrightarrow> next_bounded (nodes s i)" "c \<in> set (appends s) \<Longrightarrow> acState c = Replied r \<Longrightarrow> reply_bounded (acArgs c) r"
  using assms by (auto simp: bounded_def)

lemma next_bounded_follower: "State rf \<noteq> Leader \<Longrightarrow> next_bounded rf"
  by (simp add: next_bounded_def)

lemma next_bounded_same:
  "next_bounded rf \<Longrightarrow> State rf' = Leader \<longrightarrow> State rf = Leader \<Longrightarrow> NextIndex rf' = NextIndex rf \<Longrightarrow> peers rf' = peers rf \<Longrightarrow>
     lastIndex rf \<le> lastIndex rf' \<Longrightarrow> next_bounded rf'"
  by (force simp: next_bounded_def)

lemma bounded_node:
  assumes "bounded s" "nodes s' = (nodes s)(i := rf)" "size s' = size s" "next_bounded rf"
    and "\<And>d r. d \<in> set (appends s') \<Longrightarrow> acState d = Replied r \<Longrightarrow>
       (\<exists>c \<in> set (appends s). acArgs c = acArgs d \<and> acState c = Replied r) \<or> reply_bounded (acArgs d) r"
  shows "bounded s'"
  unfolding bounded_def
proof (intro conjI allI impI ballI)
  fix d r assume d: "d \<in> set (appends s')" "acState d = Replied r"
  show "reply_bounded (acArgs d) r" using assms(5) [OF d] boundedD(2) [OF assms(1)] by metis
qed (use assms(1-4) in \<open>simp add: bounded_def\<close>)

lemma next_bounded_update:
  assumes "next_bounded rf" "m \<le> lastIndex rf + 1" "j < length (NextIndex rf)"
  shows "next_bounded (rf\<lparr>NextIndex := (NextIndex rf)[j := m]\<rparr>)"
  using assms by (auto simp: next_bounded_def nth_list_update lastIndex_def)

lemma next_bounded_learn:
  assumes "wf_raft rf" "next_bounded rf" "State rf = Leader \<Longrightarrow> m \<le> lastIndex rf" "j < peers rf" "updateCommitIndex (learnMatch j m rf) = Some rf'"
  shows "next_bounded rf'"
proof -
  have wf: "wf_raft (learnMatch j m rf)" using assms(1) by simp
  have "next_bounded (learnMatch j m rf)"
    using assms(2,3,4) wf_raftD(7) [OF assms(1)] by (force simp: next_bounded_def learnMatch_def nth_list_update lastIndex_def)
  then show ?thesis
    using assms(5) by (auto simp: updateCommitIndex_eq [OF wf] Let_def next_bounded_def lastIndex_def split: if_splits)
qed

lemma HandleVoteReply_bounded:
  assumes "HandleVoteReply args rep vs rf = Some (rf', v, b)" "wf_raft rf" "next_bounded rf"
  shows "next_bounded rf'"
  using assms by (auto elim!: HandleVoteReply_cases simp: BecomeLeader_wf_eq next_bounded_def lastIndex_def)

lemma RequestVote_bounded:
  assumes "RequestVote clk args rf = Some (rf', r)" "next_bounded rf"
  shows "next_bounded rf'"
  using assms by (auto elim!: RequestVote_cases simp: next_bounded_def lastIndex_def)

text \<open>What a leader has sent in its term is in its log.\<close>

lemma sent_in_log:
  assumes sd: "sound H s" and c: "c \<in> set (appends s)" and i: "i < size s"
    and lead: "State (nodes s i) = Leader" "aeTerm (acArgs c) = CurrentTerm (nodes s i)"
  shows "aePrevLogIndex (acArgs c) + int (length (aeEntries (acArgs c))) \<le> lastIndex (nodes s i)" "0 \<le> aePrevLogIndex (acArgs c)"
proof -
  have mt: "matching H s" "complete H s" using sd by (simp_all add: sound_def)
  obtain L where L: "0 \<le> aePrevLogIndex (acArgs c)" "H (CurrentTerm (nodes s i)) = Some L" "covers (acArgs c) < length L"
    using completeD(5) [OF mt(2) c] lead(2) by (auto simp: append_from_def)
  have "tail_of 0 (Log (nodes s i)) L"
    using matchingD(4) [OF mt(1) i] lead(1) L(2) completeD(2) [OF mt(2) i] by (simp add: lead_ok_def)
  then have "length L = length (Log (nodes s i))" using tail_of_length by fastforce
  then show "aePrevLogIndex (acArgs c) + int (length (aeEntries (acArgs c))) \<le> lastIndex (nodes s i)" "0 \<le> aePrevLogIndex (acArgs c)"
    using L completeD(2) [OF mt(2) i] by (auto simp: covers_def lastIndex_def)
qed

lemma deliver_append_bounded:
  assumes sd: "sound H s" and b: "bounded s" and k: "k < length (appends s)" and st: "stepDeliverAppend k clk s = Some s'"
  shows "bounded s'"
proof -
  have ok: "cluster_ok s" "complete H s" using sd by (simp_all add: sound_def)
  let ?c = "appends s ! k" let ?j = "acTo ?c"
  have c: "?c \<in> set (appends s)" using k by simp
  have a: "?j < size s" "valid_append (acArgs ?c)" using cluster_okD(4) [OF ok(1) c] by (simp_all add: append_ok_def)
  have wf: "wf_raft (nodes s ?j)" using cluster_okD(1) [OF ok(1) a(1)] by (simp add: node_ok_def)
  obtain rf r where ae: "AppendEntries clk (acArgs ?c) (nodes s ?j) = Some (rf, r)"
    and s': "s' = (setNode ?j rf s)\<lparr>appends := (appends s)[k := ?c\<lparr>acState := deliver r (acState ?c)\<rparr>]\<rparr>"
    using st by (auto simp: stepDeliverAppend_def bind_Some_iff Let_def)
  have rb: "reply_bounded (acArgs ?c) r"
    using AppendEntries_reply_bounded [OF wf completeD(2) [OF ok(2) a(1)] a(2) _ ae] completeD(5) [OF ok(2) c] by (simp add: append_from_def)
  have new: "next_bounded rf"
    using wf a(2)
  proof (cases rule: AppendEntries_cases [of "nodes s ?j" "acArgs ?c" clk])
    case (stale reply)
    then show ?thesis using ae boundedD(1) [OF b a(1)] by (auto intro: next_bounded_same)
  qed (use ae in \<open>auto intro!: next_bounded_follower simp: split: if_splits\<close>)
  show ?thesis
  proof (rule bounded_node [OF b _ _ new])
    fix d r' assume d: "d \<in> set (appends s')" "acState d = Replied r'"
    then consider "d \<in> set (appends s)" | "d = ?c\<lparr>acState := deliver r (acState ?c)\<rparr>"
      using s' set_update_subset_insert [of "appends s" k] by (auto simp: setNode_def)
    then show "(\<exists>c \<in> set (appends s). acArgs c = acArgs d \<and> acState c = Replied r') \<or> reply_bounded (acArgs d) r'"
    proof cases
      case 2
      then show ?thesis using d(2) rb c by (cases "acState ?c") (auto simp: deliver_def)
    qed (use d(2) in auto)
  qed (simp_all add: s' setNode_def)
qed

lemma handle_append_bounded:
  assumes sd: "sound H s" and b: "bounded s" and k: "k < length (appends s)" and st: "stepHandleAppend k okay s = Some s'"
  shows "bounded s'"
proof (cases "acState (appends s ! k)")
  case (Replied r)
  have ok: "cluster_ok s" "complete H s" using sd by (simp_all add: sound_def)
  let ?c = "appends s ! k" let ?i = "acFrom ?c" let ?rf = "nodes s ?i"
  have c: "?c \<in> set (appends s)" using k by simp
  have a: "?i < size s" "acTo ?c < size s" using cluster_okD(4) [OF ok(1) c] by (simp_all add: append_ok_def)
  have n: "wf_raft ?rf" "peers ?rf = size s" using cluster_okD(1) [OF ok(1) a(1)] by (simp_all add: node_ok_def)
  obtain rep rf where h: "HandleAppendReply (acTo ?c) (acArgs ?c) rep ?rf = Some rf" "rep = None \<or> rep = Some r"
    and s': "s' = (setNode ?i rf s)\<lparr>appends := (appends s)[k := ?c\<lparr>acState := Handled r okay\<rparr>]\<rparr>"
    using st Replied by (auto simp: stepHandleAppend_def bind_Some_iff Let_def split: if_splits)
  have j: "acTo ?c < peers ?rf" using a(2) n(2) by simp
  note nb = boundedD(1) [OF b a(1)]
  note sent = sent_in_log [OF sd c a(1)]
  have new: "next_bounded rf"
    using n(1) j h(1)
  proof (cases rule: HandleAppendReply_cases)
    case (success r')
    then show ?thesis using sent(1) by (intro next_bounded_learn [OF n(1) nb _ j success(5)]) simp
  next
    case (backoff r')
    show ?thesis
    proof (cases "State ?rf = Leader")
      case True
      have "backup r' ?rf \<le> lastIndex ?rf + 1"
        using backoff h(2) boundedD(2) [OF b c Replied] sent(1) True by (intro backup_bounded [OF n(1), of "acArgs ?c"]) auto
      then show ?thesis using next_bounded_update [OF nb] backoff(5) j wf_raftD(7) [OF n(1)] by simp
    qed (use backoff in \<open>simp add: next_bounded_def\<close>)
  qed (use nb in \<open>auto intro: next_bounded_follower\<close>)
  show ?thesis
  proof (rule bounded_node [OF b _ _ new])
    fix d r' assume "d \<in> set (appends s')" "acState d = Replied r'"
    then have "d \<in> set (appends s)"
      using s' set_update_subset_insert [of "appends s" k "?c\<lparr>acState := Handled r okay\<rparr>"] by (auto simp: setNode_def)
    then show "(\<exists>c \<in> set (appends s). acArgs c = acArgs d \<and> acState c = Replied r') \<or> reply_bounded (acArgs d) r'"
      using \<open>acState d = Replied r'\<close> by auto
  qed (simp_all add: s' setNode_def)
qed (use st b in \<open>auto simp: stepHandleAppend_def\<close>)

lemma send_bounded:
  assumes b: "bounded s" and st: "stepSendTo i j s = Some s'"
  shows "bounded s'"
proof -
  obtain out where "PrepareEntries j (nodes s i) = Some out" using st by (auto simp: stepSendTo_def bind_Some_iff)
  then have "nodes s' = nodes s" "size s' = size s" "\<forall>d \<in> set (appends s'). d \<in> set (appends s) \<or> acState d = Waiting"
    using st by (cases out; auto simp: stepSendTo_def)+
  then show ?thesis using b by (fastforce simp: bounded_def)
qed

lemma handle_snap_bounded:
  assumes sd: "sound H s" and b: "bounded s" and k: "k < length (snaps s)" and st: "stepHandleSnap k okay s = Some s'"
  shows "bounded s'"
proof (cases "scState (snaps s ! k)")
  case (Replied r)
  have ok: "cluster_ok s" "complete H s" using sd by (simp_all add: sound_def)
  let ?c = "snaps s ! k" let ?i = "scFrom ?c" let ?rf = "nodes s ?i"
  have c: "?c \<in> set (snaps s)" using k by simp
  have a: "?i < size s" "scTo ?c < size s" using cluster_okD(5) [OF ok(1) c] by (simp_all add: snap_ok_def)
  have n: "wf_raft ?rf" "scTo ?c < peers ?rf" using cluster_okD(1) [OF ok(1) a(1)] a(2) by (simp_all add: node_ok_def)
  obtain rep rf where h: "HandleSnapReply (scTo ?c) (scArgs ?c) rep ?rf = Some rf"
    and s': "nodes s' = (nodes s)(?i := rf)" "appends s' = appends s" "size s' = size s"
    using st Replied by (auto simp: stepHandleSnap_def bind_Some_iff Let_def setNode_def)
  note nb = boundedD(1) [OF b a(1)]
  have new: "next_bounded rf"
    using n(1) n(2) h
  proof (cases rule: HandleSnapReply_cases)
    case (success r')
    have "isLastIncludedIndex (scArgs ?c) \<le> lastIndex ?rf"
      using completeD(6) [OF ok(2) c] lastIndex_ge [OF n(1)] completeD(2) [OF ok(2) a(1)] by simp
    then show ?thesis by (intro next_bounded_learn [OF n(1) nb _ n(2) success(4)])
  qed (use nb in \<open>auto intro: next_bounded_follower\<close>)
  show ?thesis by (rule bounded_node [OF b s'(1,3) new]) (use s'(2) in auto)
qed (use st b in \<open>auto simp: stepHandleSnap_def\<close>)

lemma InstallSnapShot_bounded:
  assumes "InstallSnapShot clk args rf = (rf', r)" "next_bounded rf"
  shows "next_bounded rf'"
  using assms by (cases rule: InstallSnapShot_cases) (auto intro!: next_bounded_follower)

lemma step_bounded:
  assumes sd: "sound H s" and b: "bounded s" and ns: "noSnapshot ev" and st: "step ev s = Some s'"
  shows "bounded s'"
proof -
  have ok: "cluster_ok s" using sd by (simp add: sound_def)
  have wf: "wf_raft (nodes s i)" "peers (nodes s i) = size s" "durable (nodes s i)" "me (nodes s i) = i" if "i < size s" for i
    using cluster_okD(1) [OF ok that] by (simp_all add: node_ok_def)
  have node: "bounded s'" if "nodes s' = (nodes s)(i := rf)" "size s' = size s" "appends s' = appends s" "next_bounded rf" for i rf
    by (rule bounded_node [OF b that(1,2,4)]) (use that(3) in auto)
  show ?thesis
  proof (cases ev)
    case (Elect i clk)
    show ?thesis
    proof (cases "active i s")
      case True
      then obtain rf args v where a: "AttemptElection clk (nodes s i) = Some (rf, args, v)" "nodes s' = (nodes s)(i := rf)"
          "size s' = size s" "appends s' = appends s"
        using st Elect by (auto simp: step_def stepElect_def setNode_def bind_Some_iff)
      show ?thesis by (rule node [OF a(2-4)], rule next_bounded_follower) (simp add: AttemptElection_Some(2) [OF a(1)])
    qed (use st b Elect in \<open>simp add: step_def\<close>)
  next
    case (DeliverVote k j clk)
    show ?thesis
    proof (cases "k < length (elections s) \<and> j \<noteq> elCand (elections s ! k) \<and> active j s")
      case True
      then obtain rf r where v: "RequestVote clk (elArgs (elections s ! k)) (nodes s j) = Some (rf, r)" "nodes s' = (nodes s)(j := rf)"
          "size s' = size s" "appends s' = appends s"
        using st DeliverVote by (auto simp: step_def stepDeliverVote_def setNode_def bind_Some_iff Let_def)
      have "next_bounded (nodes s j)" using boundedD(1) [OF b] True by (simp add: active_def)
      from node [OF v(2-4) RequestVote_bounded [OF v(1) this]] show ?thesis .
    qed (use st b DeliverVote in \<open>auto simp: step_def\<close>)
  next
    case (HandleVote k j okay)
    let ?el = "elections s ! k"
    show ?thesis
    proof (cases "k < length (elections s) \<and> j < size s \<and> active (elCand ?el) s \<and> elEpoch ?el = epochs s (elCand ?el) \<and> (\<exists>r. elCalls ?el j = Replied r)")
      case True
      then obtain rep rf v c where h: "HandleVoteReply (elArgs ?el) rep (elVotes ?el) (nodes s (elCand ?el)) = Some (rf, v, c)"
          "nodes s' = (nodes s)(elCand ?el := rf)" "size s' = size s" "appends s' = appends s"
        using st HandleVote by (auto simp: step_def stepHandleVote_def setNode_def bind_Some_iff Let_def)
      have i: "elCand ?el < size s" using True by (simp add: active_def)
      from node [OF h(2-4) HandleVoteReply_bounded [OF h(1) wf(1) [OF i] boundedD(1) [OF b i]]] show ?thesis .
    qed (use st b HandleVote in \<open>auto simp: step_def stepHandleVote_def Let_def split: if_splits call_state.splits\<close>)
  next
    case (SendTo i j)
    then show ?thesis using st b send_bounded [OF b] by (auto simp: step_def split: if_splits)
  next
    case (DeliverAppend k clk)
    then show ?thesis using st b deliver_append_bounded [OF sd b] by (auto simp: step_def split: if_splits)
  next
    case (HandleAppend k okay)
    then show ?thesis using st b handle_append_bounded [OF sd b] by (auto simp: step_def split: if_splits)
  next
    case (HandleSnap k okay)
    then show ?thesis using st b handle_snap_bounded [OF sd b] by (auto simp: step_def split: if_splits)
  next
    case (FireSnap k)
    let ?i = "scFrom (snaps s ! k)"
    obtain rf sent where f: "sendSnapShot (nodes s ?i) = (rf, sent)" by fastforce
    show ?thesis
    proof (cases "s' = s")
      case False
      then have s': "nodes s' = (nodes s)(?i := rf)" "size s' = size s" "appends s' = appends s" and i: "?i < size s"
        using st FireSnap f by (auto simp: step_def stepFireSnap_def setNode_def active_def Let_def split: if_splits)
      have "next_bounded rf" using f boundedD(1) [OF b i] by (auto simp: sendSnapShot_def next_bounded_def lastIndex_def split: if_splits)
      from node [OF s' this] show ?thesis .
    qed (use b in simp)
  next
    case (DeliverSnap k clk)
    let ?j = "scTo (snaps s ! k)"
    obtain rf r where f: "InstallSnapShot clk (scArgs (snaps s ! k)) (nodes s ?j) = (rf, r)" by fastforce
    show ?thesis
    proof (cases "s' = s")
      case False
      then have s': "nodes s' = (nodes s)(?j := rf)" "size s' = size s" "appends s' = appends s" and i: "?j < size s"
        using st DeliverSnap f by (auto simp: step_def stepDeliverSnap_def setNode_def active_def Let_def split: if_splits)
      from node [OF s' InstallSnapShot_bounded [OF f boundedD(1) [OF b i]]] show ?thesis .
    qed (use b in simp)
  next
    case (ClientStart i c)
    show ?thesis
    proof (cases "active i s \<and> State (nodes s i) = Leader")
      case True
      then have i: "i < size s" by (simp add: active_def)
      let ?rf = "persist ((nodes s i)\<lparr>Log := Log (nodes s i) @ [\<lparr>leCommand = Some c, leTerm = CurrentTerm (nodes s i), leIndex = lastIndex (nodes s i) + 1\<rparr>]\<rparr>)"
      have s': "nodes s' = (nodes s)(i := ?rf)" "size s' = size s" "appends s' = appends s"
        using True st ClientStart Start_leader_eq [OF wf(1) [OF i], of c] by (auto simp: step_def setNode_def)
      have "next_bounded ?rf" by (rule next_bounded_same [OF boundedD(1) [OF b i]]) (simp_all add: lastIndex_def)
      from node [OF s' this] show ?thesis .
    next
      case False
      then show ?thesis using st b ClientStart by (auto simp: step_def Start_def setNode_def split: if_splits)
    qed
  next
    case (Crash i clk)
    show ?thesis
    proof (cases "i < size s")
      case True
      obtain rf where rf: "Make (peers (nodes s i)) (me (nodes s i)) (Copy (persister (nodes s i))) clk = Some rf" "State rf = Follower"
        by (rule restart_durable [OF wf(1,3) [OF True]])
      then have s': "nodes s' = (nodes s)(i := rf)" "size s' = size s" "appends s' = appends s"
        using st Crash True wf(2,4) [OF True] by (auto simp: step_def stepCrash_def setNode_def)
      from node [OF s' next_bounded_follower] rf(2) show ?thesis by simp
    qed (use st b Crash in \<open>simp add: step_def\<close>)
  qed (use ns in \<open>simp add: noSnapshot_def\<close>)
qed

section \<open>No step panics\<close>

lemma Start_total: "wf_raft rf \<Longrightarrow> \<exists>p. Start c rf = Some p"
  using Start_leader_eq [of rf c] by (cases "State rf = Leader") (auto simp: Start_def)

lemma HandleSnapReply_total:
  assumes "wf_raft rf" "i < peers rf"
  shows "\<exists>rf'. HandleSnapReply i args rep rf = Some rf'"
proof -
  have "length (NextIndex rf) = peers rf" "length (MatchIndex rf) = peers rf" using assms(1) by (simp_all add: wf_raft_def)
  moreover have "\<exists>rf''. updateCommitIndex rf' = Some rf''" if "wf_raft rf'" for rf' :: "('a, 'b) Raft"
    using updateCommitIndex_eq [OF that] by (simp add: Let_def)
  ultimately show ?thesis
    using assms by (cases rep) (auto simp: HandleSnapReply_def idx_def upd_def wf_raft_def)
qed

lemma step_total:
  assumes sd: "sound H s" and b: "bounded s" and ns: "noSnapshot ev"
  shows "\<exists>s'. step ev s = Some s'"
proof -
  have ok: "cluster_ok s" using sd by (simp add: sound_def)
  have wf: "wf_raft (nodes s i)" "peers (nodes s i) = size s" "durable (nodes s i)" "me (nodes s i) = i" if "i < size s" for i
    using cluster_okD(1) [OF ok that] by (simp_all add: node_ok_def)
  show ?thesis
  proof (cases ev)
    case (Elect i clk)
    then show ?thesis by (auto simp: step_def stepElect_def active_def AttemptElection_eq wf_raftD(1) [OF wf(1)])
  next
    case (DeliverVote k j clk)
    then show ?thesis
      using RequestVote_total [OF wf(1), of j clk "elArgs (elections s ! k)"] by (auto simp: step_def stepDeliverVote_def active_def Let_def)
  next
    case (HandleVote k j okay)
    have "\<exists>s'. stepHandleVote k j okay s = Some s'" if i: "elCand (elections s ! k) < size s"
    proof (cases "elCalls (elections s ! k) j")
      case (Replied r)
      let ?rep = "if okay then Some r else None"
      obtain rf n b where "HandleVoteReply (elArgs (elections s ! k)) ?rep (elVotes (elections s ! k)) (nodes s (elCand (elections s ! k))) = Some (rf, n, b)"
        using HandleVoteReply_total [OF wf(1) [OF i]] by blast
      then show ?thesis using Replied by (simp add: stepHandleVote_def Let_def)
    qed (simp_all add: stepHandleVote_def)
    then show ?thesis using HandleVote by (auto simp: step_def active_def)
  next
    case (SendTo i j)
    then show ?thesis
      using PrepareEntries_total [OF wf(1) boundedD(1) [OF b], of i j] wf(2) [of i] by (auto simp: step_def stepSendTo_def active_def)
  next
    case (DeliverAppend k clk)
    have "valid_append (acArgs (appends s ! k))" if "k < length (appends s)"
      using cluster_okD(4) [OF ok nth_mem [OF that]] by (simp add: append_ok_def)
    then show ?thesis
      using DeliverAppend append.total [OF wf(1), of "acTo (appends s ! k)" "(clk, acArgs (appends s ! k))"]
      by (auto simp: step_def stepDeliverAppend_def active_def Let_def)
  next
    case (HandleAppend k okay)
    have "\<exists>s'. stepHandleAppend k okay s = Some s'" if k: "k < length (appends s)"
    proof (cases "acState (appends s ! k)")
      case (Replied r)
      let ?c = "appends s ! k" let ?rep = "if okay then Some r else None"
      have a: "acFrom ?c < size s" "acTo ?c < size s" using cluster_okD(4) [OF ok nth_mem [OF k]] by (simp_all add: append_ok_def)
      obtain rf where "HandleAppendReply (acTo ?c) (acArgs ?c) ?rep (nodes s (acFrom ?c)) = Some rf"
        using HandleAppendReply_total [OF wf(1) [OF a(1)]] a(2) wf(2) [OF a(1)] by metis
      then show ?thesis using Replied by (simp add: stepHandleAppend_def Let_def)
    qed (simp_all add: stepHandleAppend_def)
    then show ?thesis using HandleAppend by (auto simp: step_def)
  next
    case (HandleSnap k okay)
    have "\<exists>s'. stepHandleSnap k okay s = Some s'" if k: "k < length (snaps s)"
    proof (cases "scState (snaps s ! k)")
      case (Replied r)
      let ?c = "snaps s ! k" let ?rep = "if okay then Some r else None"
      have a: "scFrom ?c < size s" "scTo ?c < size s" using cluster_okD(5) [OF ok nth_mem [OF k]] by (simp_all add: snap_ok_def)
      obtain rf where "HandleSnapReply (scTo ?c) (scArgs ?c) ?rep (nodes s (scFrom ?c)) = Some rf"
        using HandleSnapReply_total [OF wf(1) [OF a(1)]] a(2) wf(2) [OF a(1)] by metis
      then show ?thesis using Replied by (simp add: stepHandleSnap_def Let_def)
    qed (simp_all add: stepHandleSnap_def)
    then show ?thesis using HandleSnap by (auto simp: step_def)
  next
    case (ClientStart i c)
    then show ?thesis using Start_total [OF wf(1), of i c] by (auto simp: step_def active_def)
  next
    case (Crash i clk)
    have "\<exists>rf. Make (size s) i (Copy (persister (nodes s i))) clk = Some rf" if "i < size s"
      using wf(2,4) [OF that] by (metis restart_durable [OF wf(1,3) [OF that]])
    then show ?thesis using Crash by (auto simp: step_def stepCrash_def)
  qed (use ns in \<open>auto simp: step_def noSnapshot_def\<close>)
qed

lemma steps_total:
  "sound H s \<Longrightarrow> bounded s \<Longrightarrow> list_all noSnapshot evs \<Longrightarrow> \<exists>s'. steps evs s = Some s'"
proof (induction evs arbitrary: s H)
  case (Cons ev evs)
  then obtain s1 where s1: "step ev s = Some s1" using step_total [OF Cons.prems(1,2), of ev] by auto
  have "bounded s1" using step_bounded [OF Cons.prems(1,2) _ s1] Cons.prems(3) by simp
  moreover obtain H1 where "sound H1 s1" using step_follows [OF Cons.prems(1) s1] Cons.prems(3) by (auto simp: follows_def)
  ultimately show ?case using Cons.IH Cons.prems(3) s1 by simp
qed simp

lemma init_bounded: "bounded (initCluster n)"
  by (auto simp: bounded_def initCluster_def freshPeer_def Make_fresh next_bounded_def)

text \<open>C7: no peer ever panics in a run without snapshots. Whatever events happen, in whatever order,
  the run goes on: no index and no slice is out of range, no stored state fails to decode.\<close>

theorem raft_never_panics:
  assumes "list_all noSnapshot evs"
  shows "\<exists>s. steps evs (initCluster n :: ('c, 's) Cluster) = Some s"
  using steps_total [OF init_sound init_bounded assms] .

theorem raft_never_panics_witness:
  "\<exists>s. steps (commitEvents @ takeoverEvents) (initCluster 3) = Some s"
proof -
  have "list_all noSnapshot (commitEvents @ takeoverEvents)" by code_simp
  then show ?thesis by (rule raft_never_panics)
qed

section \<open>A panic with snapshots\<close>

text \<open>Peer 0 leads term 1, commits two entries and makes snapshots of both, one after the other.
  The first one reaches peer 1, which thereby loses the second entry and can vote for peer 2.\<close>

definition panicRun :: "(string, nat) event list" where
  "panicRun =
     [Elect 0 (1, 1), DeliverVote 0 1 (1, 1), HandleVote 0 1 True,
      ClientStart 0 ''a'', SendTo 0 2, DeliverAppend 0 (2, 2), HandleAppend 0 True,
      ClientStart 0 ''b'', SendTo 0 1, DeliverAppend 1 (3, 3),
      ServiceSnapshot 0 1 [9], SendTo 0 1, FireSnap 0,
      HandleAppend 1 True, DeliverSnap 0 (4, 4), ServiceSnapshot 0 2 [9, 9],
      Elect 2 (5, 5), DeliverVote 1 1 (5, 5), HandleVote 1 1 True,
      SendTo 2 0, DeliverAppend 2 (6, 6), HandleAppend 2 True]"

text \<open>C14: with snapshots a leader can panic. There is a run of three peers, without any crash and with
  every message delivered at most once, after which peer 2 leads with a log that ends at index 1
  while peer 0 has discarded the entries up to index 2; the reply of peer 0 moves its next index
  to 3, and the next time the leader sends to it the slice of the log is out of range.\<close>

theorem snapshot_makes_leader_panic:
  "\<exists>s. steps panicRun (initCluster 3) = Some s \<and> State (nodes s 2) = Leader \<and> lastIndex (nodes s 2) = 1 \<and>
     LastIncludedIndex (nodes s 0) = 2 \<and> NextIndex (nodes s 2) ! 0 = 3 \<and> step (SendTo 2 0) s = None"
proof -
  have "map_option (\<lambda>s. (State (nodes s 2), lastIndex (nodes s 2), LastIncludedIndex (nodes s 0), NextIndex (nodes s 2) ! 0,
        Option.is_none (step (SendTo 2 0) s))) (steps panicRun (initCluster 3)) = Some (Leader, 1, 2, 3, True)"
    by code_simp
  then show ?thesis by (auto simp: Option.is_none_def split: option.splits)
qed

end
