(* ===== verification/Kv_Store.thy ===== *)
theory Kv_Store
  imports Prelude "HOL-Library.Word"
begin

text \<open>
  The RPC types shared by the key/value services (\<^verbatim>\<open>src/kvsrv1/rpc/rpc.go\<close>) and the
  contract of a versioned key/value store, which the unreplicated server, the replicated
  server and the clients built on them share.
\<close>

text \<open>The error values of \<^verbatim>\<open>rpc.Err\<close>; \<open>ErrEmpty\<close> is the zero value \<^verbatim>\<open>""\<close>.\<close>

datatype Err = ErrEmpty | OK | ErrNoKey | ErrVersion | ErrTimeOut | ErrMaybe | ErrWrongLeader | ErrWrongGroup

type_synonym Tversion = "64 word"

record PutArgs =
  putKey :: string
  putValue :: string
  putVersion :: Tversion
  putClientId :: int
  putRequestId :: int

record PutReply =
  prErr :: Err

record GetArgs =
  getKey :: string
  getClientId :: int
  getRequestId :: int

record GetReply =
  grValue :: string
  grVersion :: Tversion
  grErr :: Err

definition zeroGetReply :: GetReply where
  "zeroGetReply = \<lparr>grValue = '''', grVersion = 0, grErr = ErrEmpty\<rparr>"

definition zeroPutReply :: PutReply where
  "zeroPutReply = \<lparr>prErr = ErrEmpty\<rparr>"

section \<open>The contract of a versioned store\<close>

text \<open>The reference: a map from keys to values with versions.\<close>

type_synonym vmap = "string \<rightharpoonup> string \<times> Tversion"

definition spec_get :: "string \<Rightarrow> vmap \<Rightarrow> GetReply" where
  "spec_get k m = (case m k of
      None \<Rightarrow> zeroGetReply\<lparr>grErr := ErrNoKey\<rparr>
    | Some (v, n) \<Rightarrow> \<lparr>grValue = v, grVersion = n, grErr = OK\<rparr>)"

definition spec_put :: "string \<Rightarrow> string \<Rightarrow> Tversion \<Rightarrow> vmap \<Rightarrow> vmap \<times> Err" where
  "spec_put k v n m = (case m k of
      None \<Rightarrow> if n = 0 then (m(k \<mapsto> (v, 1)), OK) else (m, ErrNoKey)
    | Some (_, n') \<Rightarrow> if n' = n then (m(k \<mapsto> (v, n + 1)), OK) else (m, ErrVersion))"

text \<open>A sequence of puts, as (key, value, version) triples, with the errors it returns, and
  how many of the puts to a key succeeded.\<close>

fun run_puts :: "(string \<Rightarrow> string \<Rightarrow> Tversion \<Rightarrow> 'st \<Rightarrow> 'st \<times> Err) \<Rightarrow>
    (string \<times> string \<times> Tversion) list \<Rightarrow> 'st \<Rightarrow> 'st \<times> Err list" where
  "run_puts put [] st = (st, [])"
| "run_puts put ((k, v, n) # ops) st =
     (let (st1, e) = put k v n st; (st2, es) = run_puts put ops st1 in (st2, e # es))"

fun successes :: "string \<Rightarrow> (string \<times> string \<times> Tversion) list \<Rightarrow> Err list \<Rightarrow> nat" where
  "successes k ((k', v, n) # ops) (e # es) = (if k' = k \<and> e = OK then 1 else 0) + successes k ops es"
| "successes k _ _ = 0"

definition version_of :: "string \<Rightarrow> vmap \<Rightarrow> Tversion" where
  "version_of k m = (case m k of None \<Rightarrow> 0 | Some (_, n) \<Rightarrow> n)"

locale versioned_store =
  fixes get :: "string \<Rightarrow> 'st \<Rightarrow> GetReply"
    and put :: "string \<Rightarrow> string \<Rightarrow> Tversion \<Rightarrow> 'st \<Rightarrow> 'st \<times> Err"
    and content :: "'st \<Rightarrow> vmap"
    and invar :: "'st \<Rightarrow> bool"
  assumes get_spec: "invar st \<Longrightarrow> get k st = spec_get k (content st)"
    and put_err: "invar st \<Longrightarrow> snd (put k v n st) = snd (spec_put k v n (content st))"
    and put_content: "invar st \<Longrightarrow> content (fst (put k v n st)) = fst (spec_put k v n (content st))"
    and put_invar: "invar st \<Longrightarrow> invar (fst (put k v n st))"
begin

lemma put_get_same: "invar st \<Longrightarrow> put k v n st = (st', OK) \<Longrightarrow>
    get k st' = \<lparr>grValue = v, grVersion = n + 1, grErr = OK\<rparr>"
  using get_spec [of st' k] put_invar [of st k v n] put_err [of st k v n] put_content [of st k v n]
  by (auto simp: spec_get_def spec_put_def split: option.splits if_splits prod.splits)

lemma put_get_other: "invar st \<Longrightarrow> put k v n st = (st', e) \<Longrightarrow> k' \<noteq> k \<Longrightarrow> get k' st' = get k' st"
  using get_spec [of st' k'] get_spec [of st k'] put_invar [of st k v n] put_content [of st k v n]
  by (auto simp: spec_get_def spec_put_def split: option.splits if_splits prod.splits)

lemma put_fail_same: "invar st \<Longrightarrow> put k v n st = (st', e) \<Longrightarrow> e \<noteq> OK \<Longrightarrow> get k' st' = get k' st"
  using get_spec [of st' k'] get_spec [of st k'] put_invar [of st k v n] put_err [of st k v n]
    put_content [of st k v n]
  by (auto simp: spec_get_def spec_put_def split: option.splits if_splits prod.splits)

text \<open>Compare-and-swap: after a successful put, a put with the same version fails.\<close>

lemma put_twice: "invar st \<Longrightarrow> put k v n st = (st1, OK) \<Longrightarrow> snd (put k v' n st1) = ErrVersion"
  using put_err [of st1 k v' n] put_invar [of st k v n] put_err [of st k v n] put_content [of st k v n]
  by (auto simp: spec_put_def split: option.splits if_splits prod.splits)

lemma run_puts_invar: "invar st \<Longrightarrow> invar (fst (run_puts put ops st))"
  by (induction ops arbitrary: st) (auto simp: case_prod_beta put_invar)

text \<open>The version of a key counts its successful puts, modulo the width of the counter.\<close>

lemma version_counts:
  "invar st \<Longrightarrow> version_of k (content st) = of_nat c \<Longrightarrow>
     (case run_puts put ops st of (st', es) \<Rightarrow>
        version_of k (content st') = of_nat (c + successes k ops es))"
proof (induction ops arbitrary: st c)
  case Nil
  then show ?case by simp
next
  case (Cons op ops)
  obtain k' v n where op: "op = (k', v, n)" by (cases op)
  let ?st1 = "fst (put k' v n st)" and ?e = "snd (put k' v n st)"
  let ?c = "c + (if k' = k \<and> ?e = OK then 1 else 0)"
  have "version_of k (content ?st1) = of_nat ?c"
    using Cons.prems put_err [of st k' v n] put_content [of st k' v n]
    by (auto simp: version_of_def spec_put_def split: option.splits if_splits)
  from Cons.IH [OF put_invar [OF Cons.prems(1)] this] show ?case
    by (auto simp: op case_prod_beta algebra_simps split: prod.splits)
qed

end

end
