(* ===== verification/Kv_Server.thy ===== *)
theory Kv_Server
  imports Kv_Store
begin

text \<open>
  The unreplicated key/value server (\<^verbatim>\<open>src/kvsrv1/server.go\<close>).
\<close>

record KVServer =
  KeyVersion :: "string \<rightharpoonup> Tversion"
  KeyValue :: "string \<rightharpoonup> string"

definition MakeKVServer :: KVServer where
  "MakeKVServer = \<lparr>KeyVersion = Map.empty, KeyValue = Map.empty\<rparr>"

definition Get :: "GetArgs \<Rightarrow> KVServer \<Rightarrow> GetReply" where
  "Get args kv =
     (case KeyValue kv (getKey args) of
        None \<Rightarrow> zeroGetReply\<lparr>grErr := ErrNoKey\<rparr>
      | Some val \<Rightarrow>
          (case KeyVersion kv (getKey args) of
             None \<Rightarrow> zeroGetReply\<lparr>grErr := ErrNoKey\<rparr>
           | Some version \<Rightarrow> \<lparr>grValue = val, grVersion = version, grErr = OK\<rparr>))"

definition Put :: "PutArgs \<Rightarrow> KVServer \<Rightarrow> KVServer \<times> PutReply" where
  "Put args kv =
     (case KeyValue kv (putKey args) of
        None \<Rightarrow>
          if putVersion args = 0
          then (kv\<lparr>KeyValue := (KeyValue kv)(putKey args \<mapsto> putValue args),
                   KeyVersion := (KeyVersion kv)(putKey args \<mapsto> 1)\<rparr>, \<lparr>prErr = OK\<rparr>)
          else (kv, \<lparr>prErr = ErrNoKey\<rparr>)
      | Some _ \<Rightarrow>
          (case KeyVersion kv (putKey args) of
             None \<Rightarrow> (kv, \<lparr>prErr = ErrNoKey\<rparr>)
           | Some version \<Rightarrow>
               if version = putVersion args
               then (kv\<lparr>KeyValue := (KeyValue kv)(putKey args \<mapsto> putValue args),
                        KeyVersion := (KeyVersion kv)(putKey args \<mapsto> version + 1)\<rparr>, \<lparr>prErr = OK\<rparr>)
               else (kv, \<lparr>prErr = ErrVersion\<rparr>)))"

section \<open>The server implements a versioned store\<close>

text \<open>Both maps always have the same keys.\<close>

definition kv_wf :: "KVServer \<Rightarrow> bool" where
  "kv_wf kv \<longleftrightarrow> dom (KeyVersion kv) = dom (KeyValue kv)"

definition kv_content :: "KVServer \<Rightarrow> vmap" where
  "kv_content kv k =
     (case KeyValue kv k of None \<Rightarrow> None | Some v \<Rightarrow> map_option (\<lambda>n. (v, n)) (KeyVersion kv k))"

definition get_op :: "string \<Rightarrow> KVServer \<Rightarrow> GetReply" where
  "get_op k kv = Get \<lparr>getKey = k, getClientId = 0, getRequestId = 0\<rparr> kv"

definition put_op :: "string \<Rightarrow> string \<Rightarrow> Tversion \<Rightarrow> KVServer \<Rightarrow> KVServer \<times> Err" where
  "put_op k v n kv =
     (case Put \<lparr>putKey = k, putValue = v, putVersion = n, putClientId = 0, putRequestId = 0\<rparr> kv of
        (kv', reply) \<Rightarrow> (kv', prErr reply))"

lemma kv_wf_keys: "kv_wf kv \<Longrightarrow> KeyValue kv k = None \<longleftrightarrow> KeyVersion kv k = None"
  unfolding kv_wf_def by (metis domIff)

lemma kv_content_None: "kv_wf kv \<Longrightarrow> kv_content kv k = None \<longleftrightarrow> KeyValue kv k = None"
  using kv_wf_keys [of kv k] by (auto simp: kv_content_def split: option.splits)

lemma kv_content_Some:
  "kv_wf kv \<Longrightarrow> kv_content kv k = Some (v, n) \<longleftrightarrow> KeyValue kv k = Some v \<and> KeyVersion kv k = Some n"
  by (auto simp: kv_content_def split: option.splits)

lemma put_op_spec:
  assumes "kv_wf kv"
  shows "snd (put_op k v n kv) = snd (spec_put k v n (kv_content kv))"
    and "kv_content (fst (put_op k v n kv)) = fst (spec_put k v n (kv_content kv))"
    and "kv_wf (fst (put_op k v n kv))"
proof -
  note keys = kv_wf_keys [OF assms]
  show "snd (put_op k v n kv) = snd (spec_put k v n (kv_content kv))"
    using keys [of k]
    by (auto simp: put_op_def Put_def spec_put_def kv_content_def split: option.splits)
  show "kv_content (fst (put_op k v n kv)) = fst (spec_put k v n (kv_content kv))"
    using keys [of k]
    by (auto simp: put_op_def Put_def spec_put_def kv_content_def fun_eq_iff split: option.splits)
  show "kv_wf (fst (put_op k v n kv))"
    using assms by (auto simp: put_op_def Put_def kv_wf_def split: option.splits)
qed

interpretation kvsrv: versioned_store get_op put_op kv_content kv_wf
proof (unfold_locales, goal_cases)
  case (1 st k)
  then show ?case
    using kv_wf_keys [of st k]
    by (auto simp: get_op_def Get_def spec_get_def kv_content_def split: option.splits)
qed (simp_all add: put_op_spec)


lemma kvsrv_refines:
  assumes "kv_wf kv"
  shows "Get ga kv = spec_get (getKey ga) (kv_content kv)"
    and "spec_put (putKey pa) (putValue pa) (putVersion pa) (kv_content kv) =
           (kv_content (fst (Put pa kv)), prErr (snd (Put pa kv)))"
    and "kv_wf (fst (Put pa kv))"
proof -
  have p: "Put pa kv = Put \<lparr>putKey = putKey pa, putValue = putValue pa, putVersion = putVersion pa,
      putClientId = 0, putRequestId = 0\<rparr> kv"
    by (simp add: Put_def split: option.split)
  have g: "Get ga kv = get_op (getKey ga) kv" by (simp add: get_op_def Get_def split: option.split)
  show "Get ga kv = spec_get (getKey ga) (kv_content kv)"
    unfolding g by (rule kvsrv.get_spec [OF assms])
  show "spec_put (putKey pa) (putValue pa) (putVersion pa) (kv_content kv) =
      (kv_content (fst (Put pa kv)), prErr (snd (Put pa kv)))" "kv_wf (fst (Put pa kv))"
    using put_op_spec [OF assms, of "putKey pa" "putValue pa" "putVersion pa"]
    by (subst p, simp add: put_op_def case_prod_beta prod_eq_iff)+
qed

text \<open>The same facts oriented for rewriting.\<close>

lemma Put_rewrites:
  assumes "kv_wf kv"
  shows "kv_content (fst (Put pa kv)) = fst (spec_put (putKey pa) (putValue pa) (putVersion pa) (kv_content kv))"
    and "prErr (snd (Put pa kv)) = snd (spec_put (putKey pa) (putValue pa) (putVersion pa) (kv_content kv))"
    and "kv_wf (fst (Put pa kv))"
  using kvsrv_refines(2,3) [OF assms, of pa] by simp_all

section \<open>Properties\<close>

text \<open>The server refines the versioned-map specification. For every request, whoever sent
  it, \<^verbatim>\<open>Get\<close> answers what the abstract map holds, \<^verbatim>\<open>Put\<close> returns the specified
  error, the abstraction of the new state is the specified map, and the invariant that both
  Go maps have the same keys is kept.\<close>

lemma kvsrv_refines_store:
  assumes "kv_wf kv"
  shows "Get ga kv = spec_get (getKey ga) (kv_content kv) \<and>
     (case Put pa kv of (kv', reply) \<Rightarrow>
        spec_put (putKey pa) (putValue pa) (putVersion pa) (kv_content kv) = (kv_content kv', prErr reply) \<and>
        kv_wf kv')"
  using kvsrv_refines [OF assms] by (simp add: case_prod_beta)

text \<open>Starting from an empty server, after any sequence of puts the version of a key is the
  number of puts to that key that returned OK, modulo \<open>2^64\<close>.\<close>

lemma kvsrv_version_counts_puts:
  "case run_puts put_op ops MakeKVServer of (kv, errs) \<Rightarrow>
     version_of k (kv_content kv) = of_nat (successes k ops errs)"
proof -
  have "kv_wf MakeKVServer" "version_of k (kv_content MakeKVServer) = of_nat 0"
    by (simp_all add: kv_wf_def MakeKVServer_def version_of_def kv_content_def)
  from kvsrv.version_counts [OF this, of ops] show ?thesis by simp
qed

end
