(* ===== verification/Kv_Model.thy ===== *)
theory Kv_Model
  imports Kv_Server "HOL-Library.AList" "HOL-Library.Multiset" "HOL-Library.List_Lexorder" "HOL-Library.Char_ord"
begin

text \<open>
  The sequential model that the linearizability checker uses for histories of the
  key/value services (\<^verbatim>\<open>src/models1/kv.go\<close>), and its relation to the server. The
  checker itself (porcupine) is a library that the repository only calls.
\<close>

record KvInput =
  inOp :: nat
  inKey :: string
  inValue :: string
  inVersion :: Tversion

record KvOutput =
  outValue :: string
  outVersion :: Tversion
  outErr :: Err

record KvState =
  stValue :: string
  stVersion :: Tversion

definition modelInit :: KvState where
  "modelInit = \<lparr>stValue = '''', stVersion = 0\<rparr>"

text \<open>The next state is returned also when the step is refused; for an unknown operation there
  is none.\<close>

definition modelStep :: "KvState \<Rightarrow> KvInput \<Rightarrow> KvOutput \<Rightarrow> bool \<times> KvState option" where
  "modelStep st inp out =
     (if inOp inp = 0 then (outValue out = stValue st, Some st)
      else if inOp inp = 1
      then (if stVersion st = inVersion inp
            then (outErr out = OK \<or> outErr out = ErrMaybe,
                  Some \<lparr>stValue = inValue inp, stVersion = stVersion st + 1\<rparr>)
            else (outErr out = ErrVersion \<or> outErr out = ErrMaybe, Some st))
      else (False, None))"

text \<open>Histories are split by key. An operation is its input with anything else attached. The
  Go map from keys to slices is an association list here; the order in which Go ranges over
  it does not matter, because the keys are sorted.\<close>

definition groupOp :: "(string \<times> (KvInput \<times> 'o) list) list \<Rightarrow> KvInput \<times> 'o \<Rightarrow>
    (string \<times> (KvInput \<times> 'o) list) list" where
  "groupOp m v =
     (let key = inKey (fst v) in
      AList.update key (case map_of m key of None \<Rightarrow> [v] | Some ops \<Rightarrow> ops @ [v]) m)"

definition modelPartition :: "(KvInput \<times> 'o) list \<Rightarrow> (KvInput \<times> 'o) list list" where
  "modelPartition history =
     (let m = foldl groupOp [] history; keys = sort (map fst m)
      in map (\<lambda>k. case map_of m k of None \<Rightarrow> [] | Some ops \<Rightarrow> ops) keys)"

section \<open>The server against the model\<close>

text \<open>What the model takes a key of the server to be: a missing key is the empty value at
  version 0.\<close>

definition keyState :: "string \<Rightarrow> KVServer \<Rightarrow> KvState" where
  "keyState k kv = (case kv_content kv k of None \<Rightarrow> modelInit | Some (v, n) \<Rightarrow> \<lparr>stValue = v, stVersion = n\<rparr>)"

definition getObs :: "GetReply \<Rightarrow> KvOutput" where
  "getObs r = \<lparr>outValue = grValue r, outVersion = grVersion r, outErr = grErr r\<rparr>"

definition putObs :: "PutReply \<Rightarrow> KvOutput" where
  "putObs r = \<lparr>outValue = '''', outVersion = 0, outErr = prErr r\<rparr>"

definition getIn :: "GetArgs \<Rightarrow> KvInput" where
  "getIn a = \<lparr>inOp = 0, inKey = getKey a, inValue = '''', inVersion = 0\<rparr>"

definition putIn :: "PutArgs \<Rightarrow> KvInput" where
  "putIn a = \<lparr>inOp = 1, inKey = putKey a, inValue = putValue a, inVersion = putVersion a\<rparr>"

text \<open>Every \<^verbatim>\<open>Get\<close> of the server is a legal step of the checker's model, and every
  \<^verbatim>\<open>Put\<close> that does not answer \<^verbatim>\<open>ErrNoKey\<close> is one too and takes the model to the
  server's new state, provided no stored version is 0 (versions start at 1 and would have to
  wrap around).\<close>

lemma server_steps_accepted_by_model:
  assumes "kv_wf kv" and "\<forall>k v n. kv_content kv k = Some (v, n) \<longrightarrow> n \<noteq> 0"
  shows "modelStep (keyState (getKey ga) kv) (getIn ga) (getObs (Get ga kv)) = (True, Some (keyState (getKey ga) kv))
    \<and> (case Put pa kv of (kv', reply) \<Rightarrow>
         prErr reply \<noteq> ErrNoKey \<longrightarrow>
         modelStep (keyState (putKey pa) kv) (putIn pa) (putObs reply) = (True, Some (keyState (putKey pa) kv')))"
proof -
  obtain kv' reply where put: "Put pa kv = (kv', reply)" by fastforce
  note r = kvsrv_refines [OF assms(1)]
  have "kv_content kv' (putKey pa) =
      fst (spec_put (putKey pa) (putValue pa) (putVersion pa) (kv_content kv)) (putKey pa)"
    and "prErr reply = snd (spec_put (putKey pa) (putValue pa) (putVersion pa) (kv_content kv))"
    using r(2) [of pa] by (simp_all add: put)
  then have "prErr reply \<noteq> ErrNoKey \<longrightarrow>
      modelStep (keyState (putKey pa) kv) (putIn pa) (putObs reply) = (True, Some (keyState (putKey pa) kv'))"
    using assms(2)
    by (auto simp: modelStep_def keyState_def putIn_def putObs_def modelInit_def spec_put_def
        split: option.splits if_splits)
  moreover have "modelStep (keyState (getKey ga) kv) (getIn ga) (getObs (Get ga kv)) = (True, Some (keyState (getKey ga) kv))"
    by (simp add: r(1) modelStep_def keyState_def getIn_def getObs_def modelInit_def spec_get_def zeroGetReply_def
        split: option.split)
  ultimately show ?thesis by (simp add: put)
qed

text \<open>The checker's model refuses the answer that the server is documented to give to a
  \<^verbatim>\<open>Put\<close> with a non-zero version on a missing key.\<close>

lemma model_refuses_ErrNoKey:
  assumes "KeyValue kv (putKey pa) = None" and "putVersion pa \<noteq> 0"
  shows "Put pa kv = (kv, \<lparr>prErr = ErrNoKey\<rparr>) \<and>
     \<not> fst (modelStep (keyState (putKey pa) kv) (putIn pa) (putObs \<lparr>prErr = ErrNoKey\<rparr>))"
  using assms by (simp add: Put_def modelStep_def putIn_def putObs_def)

section \<open>Partitioning\<close>

definition opsOf :: "string \<Rightarrow> (KvInput \<times> 'o) list \<Rightarrow> (KvInput \<times> 'o) list" where
  "opsOf k history = filter (\<lambda>v. inKey (fst v) = k) history"

lemma groupOps_spec:
  "distinct (map fst (foldl groupOp [] history)) \<and>
   map_of (foldl groupOp [] history) k = (if opsOf k history = [] then None else Some (opsOf k history))"
proof (induction history arbitrary: k rule: rev_induct)
  case Nil
  then show ?case by (simp add: opsOf_def)
next
  case (snoc v history)
  then show ?case
    by (auto simp: groupOp_def Let_def opsOf_def update_conv' distinct_update split: option.splits)
qed

lemma groupOps_keys: "set (map fst (foldl groupOp [] history)) = inKey ` fst ` set history"
proof -
  have "k \<in> set (map fst (foldl groupOp [] history)) \<longleftrightarrow> opsOf k history \<noteq> []" for k
    using groupOps_spec [of history k] by (metis map_of_eq_None_iff option.distinct(1) set_map)
  then have "k \<in> set (map fst (foldl groupOp [] history)) \<longleftrightarrow> k \<in> inKey ` fst ` set history" for k
    by (auto simp: opsOf_def filter_empty_conv)
  then show ?thesis by blast
qed

lemma modelPartition_eq:
  "modelPartition history = map (\<lambda>k. opsOf k history) (sorted_list_of_set (inKey ` fst ` set history))"
proof -
  let ?ks = "map fst (foldl groupOp [] history)"
  have "sort ?ks = sorted_list_of_set (set ?ks)"
    using groupOps_spec [of history, THEN conjunct1]
    by (simp only: sorted_list_of_set_sort_remdups distinct_remdups_id)
  then show ?thesis
    unfolding modelPartition_def Let_def groupOps_keys
    by (simp add: groupOps_spec [of history, THEN conjunct2])
qed

lemma mset_filter_partition:
  "finite K \<Longrightarrow> f ` set xs \<subseteq> K \<Longrightarrow> (\<Sum>k\<in>K. mset (filter (\<lambda>x. f x = k) xs)) = mset xs"
proof (induction xs)
  case Nil
  then show ?case by simp
next
  case (Cons x xs)
  have "(\<Sum>k\<in>K. mset (filter (\<lambda>x. f x = k) (x # xs)))
      = (\<Sum>k\<in>K. (if f x = k then {#x#} else {#}) + mset (filter (\<lambda>x. f x = k) xs))"
    by (rule sum.cong) auto
  then show ?case using Cons by (simp add: sum.distrib)
qed

text \<open>Partitioning loses and invents nothing: the parts together hold exactly the
  operations of the history, each part is the non-empty sublist of the operations on one key
  in the order of the history, and the parts are in strictly ascending order of their keys.\<close>

lemma modelPartition_correct:
  "mset (concat (modelPartition history)) = mset history \<and>
   list_all (\<lambda>part. part \<noteq> [] \<and> part = opsOf (inKey (fst (hd part))) history) (modelPartition history) \<and>
   sorted_wrt (<) (map (\<lambda>part. inKey (fst (hd part))) (modelPartition history))"
proof (intro conjI)
  let ?K = "inKey ` fst ` set history"
  have ne: "opsOf k history \<noteq> [] \<and> inKey (fst (hd (opsOf k history))) = k" if "k \<in> ?K" for k
  proof -
    from that have "opsOf k history \<noteq> []" by (auto simp: opsOf_def filter_empty_conv)
    then show ?thesis using hd_in_set [of "opsOf k history"] by (auto simp: opsOf_def)
  qed
  show "mset (concat (modelPartition history)) = mset history"
    using mset_filter_partition [of ?K "\<lambda>v. inKey (fst v)" history]
    by (simp add: modelPartition_eq mset_concat comp_def sum_list_distinct_conv_sum_set opsOf_def image_image)
  show "list_all (\<lambda>part. part \<noteq> [] \<and> part = opsOf (inKey (fst (hd part))) history) (modelPartition history)"
    using ne by (auto simp: modelPartition_eq list_all_iff)
  have "map (\<lambda>part. inKey (fst (hd part))) (modelPartition history) = sorted_list_of_set ?K"
    using ne by (auto simp: modelPartition_eq comp_def intro: map_idI)
  then show "sorted_wrt (<) (map (\<lambda>part. inKey (fst (hd part))) (modelPartition history))"
    by (simp add: strict_sorted_list_of_set)
qed

end
