(* ===== verification/Itoa.thy ===== *)
theory Itoa
  imports Prelude
begin

text \<open>
  Decimal numbers as the Go library prints them, for the names of files, sockets and servers,
  and why such names are distinct.
\<close>

text \<open>\<^verbatim>\<open>%d\<close> and \<^verbatim>\<open>strconv.Itoa\<close> on non-negative numbers.\<close>

definition digit :: "nat \<Rightarrow> char" where
  "digit d = char_of (48 + d)"

fun itoa :: "nat \<Rightarrow> string" where
  "itoa n = (if n < 10 then [digit n] else itoa (n div 10) @ [digit (n mod 10)])"

declare itoa.simps [simp del]

lemma digit_inj: "d < 10 \<Longrightarrow> e < 10 \<Longrightarrow> digit d = digit e \<Longrightarrow> d = e"
proof -
  assume "d < 10" "e < 10" "digit d = digit e"
  then have "of_char (char_of (48 + d) :: char) = (of_char (char_of (48 + e) :: char) :: nat)" by (simp add: digit_def)
  with \<open>d < 10\<close> \<open>e < 10\<close> show "d = e" by simp
qed

lemma digit_not_dash: "d < 10 \<Longrightarrow> digit d \<noteq> CHR ''-''"
proof
  assume "d < 10" "digit d = CHR ''-''"
  then have "of_char (char_of (48 + d) :: char) = (of_char CHR ''-'' :: nat)" by (simp add: digit_def)
  with \<open>d < 10\<close> show False by simp
qed

lemma itoa_ne: "itoa n \<noteq> []"
  by (subst itoa.simps) simp

lemma itoa_no_dash: "CHR ''-'' \<notin> set (itoa n)"
proof (induction n rule: itoa.induct)
  case (1 n)
  have "digit (n mod 10) \<noteq> CHR ''-''" "n < 10 \<Longrightarrow> digit n \<noteq> CHR ''-''" by (simp_all add: digit_not_dash)
  then show ?case using 1 by (subst itoa.simps) auto
qed

lemma itoa_length: "length (itoa n) = 1 \<longleftrightarrow> n < 10"
  using itoa_ne [of "n div 10"] by (subst itoa.simps) simp

lemma itoa_small: "n < 10 \<Longrightarrow> itoa n = [digit n]"
  by (subst itoa.simps) simp

lemma itoa_large: "\<not> n < 10 \<Longrightarrow> itoa n = itoa (n div 10) @ [digit (n mod 10)]"
  by (subst itoa.simps) simp

lemma itoa_inj: "itoa m = itoa n \<Longrightarrow> m = n"
proof (induction m arbitrary: n rule: itoa.induct)
  case (1 m)
  show ?case
  proof (cases "m < 10 \<longleftrightarrow> n < 10")
    case True
    show ?thesis
    proof (cases "m < 10")
      case True': True
      then show ?thesis using 1(2) True itoa_small [of m] itoa_small [of n] digit_inj by simp
    next
      case False
      then have "itoa (m div 10) = itoa (n div 10)" "digit (m mod 10) = digit (n mod 10)"
        using 1(2) True itoa_large [of m] itoa_large [of n] by simp_all
      then have "m div 10 = n div 10" "m mod 10 = n mod 10" using 1(1) False digit_inj by simp_all
      then show ?thesis by (metis div_mult_mod_eq)
    qed
  next
    case False
    then show ?thesis using itoa_length [of m] itoa_length [of n] 1(2) by simp
  qed
qed

lemma dash_split: "x @ CHR ''-'' # y = x' @ CHR ''-'' # y' \<Longrightarrow> CHR ''-'' \<notin> set x \<Longrightarrow> CHR ''-'' \<notin> set x' \<Longrightarrow> x = x' \<and> y = y'"
proof (induction x arbitrary: x')
  case Nil
  then show ?case by (cases x') auto
next
  case (Cons a x)
  then show ?case by (cases x') auto
qed

end
