(* ===== verification/Test_Annotation.thy ===== *)
theory Test_Annotation
  imports Itoa "HOL-Library.Monad_Syntax"
begin

text \<open>
  The annotations that the tests collect for the diagram of a history
  (\<^verbatim>\<open>src/tester1/annotation.go\<close>): the global annotation object, the status of the servers
  as the framework reports it, and the rules that turn reports into intervals. Times
  (\<^verbatim>\<open>timestamp()\<close>) are arguments; a nil pointer or an index out of range is \<^const>\<open>None\<close>. The
  methods lock their mutex throughout, so that each is one step.
\<close>

section \<open>The annotation object\<close>

record PAnnotation =
  aTag :: string
  aStart :: int
  aEnd :: int
  aDescription :: string
  aDetails :: string
  aBackgroundColor :: string

record Continuous =
  contStart :: int
  contDesp :: string
  contDetails :: string
  contBgcolor :: string

definition zeroContinuous :: Continuous where
  "zeroContinuous = \<lparr>contStart = 0, contDesp = '''', contDetails = '''', contBgcolor = ''''\<rparr>"

record Annotation =
  annotations :: "PAnnotation list"
  continuous :: "string \<rightharpoonup> Continuous"
  finalized :: bool

definition mkAnnotation :: Annotation where
  "mkAnnotation = \<lparr>annotations = [], continuous = Map.empty, finalized = False\<rparr>"

definition COLOR_INFO :: string where "COLOR_INFO = ''#FAFAFA''"
definition COLOR_NEUTRAL :: string where "COLOR_NEUTRAL = ''#FFECB3''"
definition COLOR_SUCCESS :: string where "COLOR_SUCCESS = ''#C8E6C9''"
definition COLOR_FAILURE :: string where "COLOR_FAILURE = ''#FFCDD2''"
definition COLOR_FAULT :: string where "COLOR_FAULT = ''#B3E5FC''"
definition COLOR_USER :: string where "COLOR_USER = ''#FFF176''"

definition TAG_CHECKER :: string where "TAG_CHECKER = ''$ Checker''"
definition TAG_PARTITION :: string where "TAG_PARTITION = ''$ Failure''"
definition TAG_INFO :: string where "TAG_INFO = ''$ Test Info''"

definition clear :: "Annotation \<Rightarrow> Annotation" where
  "clear an = an\<lparr>annotations := [], continuous := Map.empty, finalized := False\<rparr>"

definition annotatePointColor :: "int \<Rightarrow> string \<Rightarrow> string \<Rightarrow> string \<Rightarrow> string \<Rightarrow> Annotation \<Rightarrow> Annotation" where
  "annotatePointColor t tag desp details bgcolor an =
     an\<lparr>annotations := annotations an @
          [\<lparr>aTag = tag, aStart = t, aEnd = 0, aDescription = desp, aDetails = details, aBackgroundColor = bgcolor\<rparr>]\<rparr>"

definition annotateIntervalColor ::
    "int \<Rightarrow> string \<Rightarrow> int \<Rightarrow> string \<Rightarrow> string \<Rightarrow> string \<Rightarrow> Annotation \<Rightarrow> Annotation" where
  "annotateIntervalColor t tag start desp details bgcolor an =
     an\<lparr>annotations := annotations an @
          [\<lparr>aTag = tag, aStart = start, aEnd = t, aDescription = desp, aDetails = details, aBackgroundColor = bgcolor\<rparr>]\<rparr>"

text \<open>The interval from the start of a continuous annotation to now.\<close>

definition concretize :: "int \<Rightarrow> string \<Rightarrow> Continuous \<Rightarrow> PAnnotation" where
  "concretize t tag cont =
     \<lparr>aTag = tag, aStart = contStart cont, aEnd = t, aDescription = contDesp cont, aDetails = contDetails cont,
      aBackgroundColor = contBgcolor cont\<rparr>"

definition annotateContinuousColor :: "int \<Rightarrow> string \<Rightarrow> string \<Rightarrow> string \<Rightarrow> string \<Rightarrow> Annotation \<Rightarrow> Annotation" where
  "annotateContinuousColor t tag desp details bgcolor an =
     (let new = \<lparr>contStart = t, contDesp = desp, contDetails = details, contBgcolor = bgcolor\<rparr> in
      case continuous an tag of
        None \<Rightarrow> an\<lparr>continuous := (continuous an)(tag \<mapsto> new)\<rparr>
      | Some cont \<Rightarrow>
          an\<lparr>annotations := annotations an @ [concretize t tag cont],
             continuous := (continuous an)(tag \<mapsto> new)\<rparr>)"

text \<open>The branch for a tag without continuous annotation is empty: the zero value is used.\<close>

definition annotateContinuousEnd :: "int \<Rightarrow> string \<Rightarrow> Annotation \<Rightarrow> Annotation" where
  "annotateContinuousEnd t tag an =
     (let cont = (case continuous an tag of None \<Rightarrow> zeroContinuous | Some c \<Rightarrow> c)
      in an\<lparr>annotations := annotations an @ [concretize t tag cont],
            continuous := (continuous an)(tag := None)\<rparr>)"

text \<open>\<^verbatim>\<open>finalize\<close> ranges over a Go map: \<open>order\<close> lists its keys as the iteration meets them.\<close>

definition finalize :: "string list \<Rightarrow> int \<Rightarrow> Annotation \<Rightarrow> PAnnotation list \<times> Annotation" where
  "finalize order t an =
     (annotations an @
        concat (map (\<lambda>tag. case continuous an tag of None \<Rightarrow> [] | Some cont \<Rightarrow> [concretize t tag cont]) order),
      an\<lparr>finalized := True\<rparr>)"

definition endAnnotation :: "int \<Rightarrow> string \<Rightarrow> PAnnotation" where
  "endAnnotation t text =
     \<lparr>aTag = TAG_INFO, aStart = t, aEnd = 0, aDescription = text, aDetails = text, aBackgroundColor = COLOR_INFO\<rparr>"

definition FinalizeAnnotations :: "string list \<Rightarrow> int \<Rightarrow> int \<Rightarrow> string \<Rightarrow> Annotation \<Rightarrow> PAnnotation list \<times> Annotation" where
  "FinalizeAnnotations order t t' text an =
     (case finalize order t an of (xs, an') \<Rightarrow> (xs @ [endAnnotation t' text], an'))"

definition SetAnnotationFinalized :: "Annotation \<Rightarrow> Annotation" where
  "SetAnnotationFinalized an = an\<lparr>finalized := True\<rparr>"

definition isFinalized :: "Annotation \<Rightarrow> bool" where
  "isFinalized an = finalized an"

text \<open>The annotations written to a file, if any; \<open>opened\<close> says whether the file could be
  opened. The environment variable is \<^verbatim>\<open>VIS_ENABLE\<close>.\<close>

definition annCleanup :: "string \<Rightarrow> bool \<Rightarrow> string list \<Rightarrow> int \<Rightarrow> int \<Rightarrow> bool \<Rightarrow> string \<Rightarrow> Annotation \<Rightarrow>
    Annotation \<times> PAnnotation list option" where
  "annCleanup enabled opened order t t' failed text an =
     (if enabled = ''never'' \<or> (\<not> failed \<and> enabled \<noteq> ''always'') \<or> isFinalized an then (clear an, None)
      else case finalize order t an of (xs, an') \<Rightarrow>
        if xs = [] then (an', None)
        else if \<not> opened then (an', None)
        else (an', Some (xs @ [endAnnotation t' text])))"

text \<open>The annotations of the programs under test.\<close>

definition Annotate :: "int \<Rightarrow> string \<Rightarrow> string \<Rightarrow> string \<Rightarrow> Annotation \<Rightarrow> Annotation" where
  "Annotate t tag desp details an = annotatePointColor t tag desp details COLOR_USER an"

definition AnnotateInterval :: "int \<Rightarrow> string \<Rightarrow> int \<Rightarrow> string \<Rightarrow> string \<Rightarrow> Annotation \<Rightarrow> Annotation" where
  "AnnotateInterval t tag start desp details an = annotateIntervalColor t tag start desp details COLOR_USER an"

definition AnnotateContinuous :: "int \<Rightarrow> string \<Rightarrow> string \<Rightarrow> string \<Rightarrow> Annotation \<Rightarrow> Annotation" where
  "AnnotateContinuous t tag desp details an = annotateContinuousColor t tag desp details COLOR_USER an"

definition AnnotateInfo :: "int \<Rightarrow> string \<Rightarrow> string \<Rightarrow> Annotation \<Rightarrow> Annotation" where
  "AnnotateInfo t desp details an = annotatePointColor t TAG_INFO desp details COLOR_INFO an"

definition AnnotateInfoInterval :: "int \<Rightarrow> int \<Rightarrow> string \<Rightarrow> string \<Rightarrow> Annotation \<Rightarrow> Annotation" where
  "AnnotateInfoInterval t start desp details an = annotateIntervalColor t TAG_INFO start desp details COLOR_INFO an"

section \<open>The status of the servers\<close>

record CheckerBegin =
  ckTs :: int
  ckDetails :: string

record FrameworkInfo =
  nservers :: nat
  connected :: "bool list"
  crashed :: "bool list"
  ckbegin :: CheckerBegin

definition mkFrameworkInfo :: "nat \<Rightarrow> FrameworkInfo" where
  "mkFrameworkInfo n =
     \<lparr>nservers = n, connected = replicate n True, crashed = replicate n False,
      ckbegin = \<lparr>ckTs = 0, ckDetails = ''''\<rparr>\<rparr>"

text \<open>The two global variables; \<^verbatim>\<open>finfo\<close> is nil until the first test begins.\<close>

record Annot =
  annotation :: Annotation
  finfo :: "FrameworkInfo option"

definition annotInit :: Annot where
  "annotInit = \<lparr>annotation = mkAnnotation, finfo = None\<rparr>"

definition AnnotateTest :: "int \<Rightarrow> string \<Rightarrow> nat \<Rightarrow> Annot \<Rightarrow> Annot" where
  "AnnotateTest t desp n st =
     (let details = desp @ '' ('' @ itoa n @ '' servers)''
      in st\<lparr>finfo := Some (mkFrameworkInfo n), annotation := AnnotateInfo t details details (clear (annotation st))\<rparr>)"

definition AnnotateCheckerBegin :: "int \<Rightarrow> string \<Rightarrow> Annot \<Rightarrow> Annot option" where
  "AnnotateCheckerBegin t details st = do {
     fi \<leftarrow> finfo st;
     Some (st\<lparr>finfo := Some (fi\<lparr>ckbegin := \<lparr>ckTs = t, ckDetails = details\<rparr>\<rparr>)\<rparr>) }"

text \<open>The last statement of the source resets the time in a local copy of \<^verbatim>\<open>ckbegin\<close>.\<close>

definition AnnotateCheckerEnd :: "int \<Rightarrow> string \<Rightarrow> string \<Rightarrow> string \<Rightarrow> Annot \<Rightarrow> Annot option" where
  "AnnotateCheckerEnd t desp details color st = do {
     fi \<leftarrow> finfo st;
     let begun = ckbegin fi;
     if ckTs begun = 0
     then Some (st\<lparr>annotation := annotatePointColor t TAG_CHECKER desp details color (annotation st)\<rparr>)
     else Some (st\<lparr>annotation := annotateIntervalColor t TAG_CHECKER (ckTs begun) desp
                     (ckDetails begun @ '': '' @ details) color (annotation st)\<rparr>) }"

definition AnnotateCheckerSuccess :: "int \<Rightarrow> string \<Rightarrow> string \<Rightarrow> Annot \<Rightarrow> Annot option" where
  "AnnotateCheckerSuccess t desp details st = AnnotateCheckerEnd t desp details COLOR_SUCCESS st"

definition AnnotateCheckerFailure :: "int \<Rightarrow> string \<Rightarrow> string \<Rightarrow> Annot \<Rightarrow> Annot option" where
  "AnnotateCheckerFailure t desp details st = AnnotateCheckerEnd t desp details COLOR_FAILURE st"

definition AnnotateCheckerNeutral :: "int \<Rightarrow> string \<Rightarrow> string \<Rightarrow> Annot \<Rightarrow> Annot option" where
  "AnnotateCheckerNeutral t desp details st = AnnotateCheckerEnd t desp details COLOR_NEUTRAL st"

definition AnnotateCheckerFailureBeforeExit :: "string \<Rightarrow> bool \<Rightarrow> string list \<Rightarrow> int \<Rightarrow> string \<Rightarrow> string \<Rightarrow> Annot \<Rightarrow>
    (Annot \<times> PAnnotation list option) option" where
  "AnnotateCheckerFailureBeforeExit enabled opened order t desp details st = do {
     st1 \<leftarrow> AnnotateCheckerFailure t desp details st;
     (case annCleanup enabled opened order t t True ''test failed'' (annotation st1) of
        (an, file) \<Rightarrow> Some (st1\<lparr>annotation := an\<rparr>, file)) }"

section \<open>Faults\<close>

text \<open>\<^verbatim>\<open>%v\<close> of a slice of integers.\<close>

fun joinInts :: "nat list \<Rightarrow> string" where
  "joinInts [] = ''''"
| "joinInts [i] = itoa i"
| "joinInts (i # is) = itoa i @ '' '' @ joinInts is"

definition fmtInts :: "nat list \<Rightarrow> string" where
  "fmtInts is = ''['' @ joinInts is @ '']''"

text \<open>The loop of \<^verbatim>\<open>annotateFault\<close> over the servers from \<open>id\<close> on: the connected ones, the crashed
  ones, and the text for those that are alone.\<close>

fun faultLoop :: "nat \<Rightarrow> bool list \<Rightarrow> bool list \<Rightarrow> (nat list \<times> nat list \<times> string) option" where
  "faultLoop i [] _ = Some ([], [], '''')"
| "faultLoop i (c # cs) (x # xs) = do {
     (conn, crashes, text) \<leftarrow> faultLoop (Suc i) cs xs;
     Some (if x then (conn, i # crashes, text)
           else if c then (i # conn, crashes, text)
           else (conn, crashes, ''['' @ itoa i @ ''] '' @ text)) }"
| "faultLoop i (c # cs) [] = None"

definition faultText :: "FrameworkInfo \<Rightarrow> string option" where
  "faultText fi = do {
     (conn, crashes, text) \<leftarrow> faultLoop 0 (connected fi) (crashed fi);
     Some (''partition = '' @ text @ (if conn \<noteq> [] then fmtInts conn else '''') @
           (if crashes \<noteq> [] then '' / crash = '' @ fmtInts crashes else '''')) }"

definition annotateFault :: "int \<Rightarrow> Annot \<Rightarrow> Annot option" where
  "annotateFault t st = do {
     fi \<leftarrow> finfo st;
     if connected fi = replicate (nservers fi) True \<and> crashed fi = replicate (nservers fi) False
     then Some (st\<lparr>annotation := annotateContinuousEnd t TAG_PARTITION (annotation st)\<rparr>)
     else do {
       text \<leftarrow> faultText fi;
       Some (st\<lparr>annotation := annotateContinuousColor t TAG_PARTITION text text COLOR_FAULT (annotation st)\<rparr>) } }"

text \<open>\<^verbatim>\<open>copy\<close> copies as many elements as fit.\<close>

definition AnnotateConnection :: "int \<Rightarrow> bool list \<Rightarrow> Annot \<Rightarrow> Annot option" where
  "AnnotateConnection t connection st = do {
     fi \<leftarrow> finfo st;
     if connected fi = connection then Some st
     else annotateFault t
       (st\<lparr>finfo := Some (fi\<lparr>connected := take (length (connected fi)) connection @
                                drop (length connection) (connected fi)\<rparr>)\<rparr>) }"

definition AnnotateTwoPartitions :: "int \<Rightarrow> nat list \<Rightarrow> nat list \<Rightarrow> Annot \<Rightarrow> Annot" where
  "AnnotateTwoPartitions t p1 p2 st =
     (let text = ''partition = '' @ fmtInts p1 @ '' '' @ fmtInts p2
      in st\<lparr>annotation := annotateContinuousColor t TAG_PARTITION text text COLOR_FAULT (annotation st)\<rparr>)"

definition AnnotateClearFailure :: "int \<Rightarrow> Annot \<Rightarrow> Annot option" where
  "AnnotateClearFailure t st = do {
     fi \<leftarrow> finfo st;
     Some (st\<lparr>finfo := Some (fi\<lparr>crashed := map (\<lambda>_. False) (crashed fi), connected := map (\<lambda>_. True) (connected fi)\<rparr>),
              annotation := annotateContinuousEnd t TAG_PARTITION (annotation st)\<rparr>) }"

text \<open>The loop of \<^verbatim>\<open>AnnotateShutdown\<close> (\<open>b\<close> true) and \<^verbatim>\<open>AnnotateRestart\<close> (\<open>b\<close> false): the new flags and
  whether one has changed.\<close>

fun setCrashed :: "bool \<Rightarrow> nat list \<Rightarrow> bool list \<Rightarrow> (bool \<times> bool list) option" where
  "setCrashed b [] xs = Some (False, xs)"
| "setCrashed b (i # is) xs =
     (if i < length xs
      then map_option (\<lambda>(changed, ys). (xs ! i \<noteq> b \<or> changed, ys)) (setCrashed b is (xs[i := b]))
      else None)"

definition annotateCrash :: "bool \<Rightarrow> int \<Rightarrow> nat list \<Rightarrow> Annot \<Rightarrow> Annot option" where
  "annotateCrash b t servers st = do {
     fi \<leftarrow> finfo st;
     (changed, xs) \<leftarrow> setCrashed b servers (crashed fi);
     let st1 = st\<lparr>finfo := Some (fi\<lparr>crashed := xs\<rparr>)\<rparr>;
     if \<not> changed then Some st1 else annotateFault t st1 }"

definition AnnotateShutdown :: "int \<Rightarrow> nat list \<Rightarrow> Annot \<Rightarrow> Annot option" where
  "AnnotateShutdown t servers st = annotateCrash True t servers st"

definition AnnotateRestart :: "int \<Rightarrow> nat list \<Rightarrow> Annot \<Rightarrow> Annot option" where
  "AnnotateRestart t servers st = annotateCrash False t servers st"

definition AnnotateShutdownAll :: "int \<Rightarrow> Annot \<Rightarrow> Annot option" where
  "AnnotateShutdownAll t st = do { fi \<leftarrow> finfo st; AnnotateShutdown t [0..<nservers fi] st }"

definition AnnotateRestartAll :: "int \<Rightarrow> Annot \<Rightarrow> Annot option" where
  "AnnotateRestartAll t st = do { fi \<leftarrow> finfo st; AnnotateRestart t [0..<nservers fi] st }"

section \<open>The diagram shows the current fault\<close>

text \<open>The reports of the framework during a test, each with its time, and the status of the
  servers (connected, crashed) that they amount to.\<close>

datatype report =
  Connection "bool list" | ClearFailure | Shutdown "nat list" | Restart "nat list" | ShutdownAll | RestartAll

fun annotateReport :: "int \<times> report \<Rightarrow> Annot \<Rightarrow> Annot option" where
  "annotateReport (t, Connection cs) st = AnnotateConnection t cs st"
| "annotateReport (t, ClearFailure) st = AnnotateClearFailure t st"
| "annotateReport (t, Shutdown is) st = AnnotateShutdown t is st"
| "annotateReport (t, Restart is) st = AnnotateRestart t is st"
| "annotateReport (t, ShutdownAll) st = AnnotateShutdownAll t st"
| "annotateReport (t, RestartAll) st = AnnotateRestartAll t st"

fun annotateReports :: "(int \<times> report) list \<Rightarrow> Annot \<Rightarrow> Annot option" where
  "annotateReports [] st = Some st"
| "annotateReports (r # rs) st = annotateReport r st \<bind> annotateReports rs"

fun status :: "nat \<Rightarrow> bool list \<times> bool list \<Rightarrow> report \<Rightarrow> bool list \<times> bool list" where
  "status n (cs, xs) (Connection cs') = (cs', xs)"
| "status n (cs, xs) ClearFailure = (replicate n True, replicate n False)"
| "status n (cs, xs) (Shutdown is) = (cs, map (\<lambda>i. i \<in> set is \<or> xs ! i) [0..<n])"
| "status n (cs, xs) (Restart is) = (cs, map (\<lambda>i. i \<notin> set is \<and> xs ! i) [0..<n])"
| "status n (cs, xs) ShutdownAll = (cs, replicate n True)"
| "status n (cs, xs) RestartAll = (cs, replicate n False)"

fun report_ok :: "nat \<Rightarrow> report \<Rightarrow> bool" where
  "report_ok n (Connection cs) \<longleftrightarrow> length cs = n"
| "report_ok n (Shutdown is) \<longleftrightarrow> list_all (\<lambda>i. i < n) is"
| "report_ok n (Restart is) \<longleftrightarrow> list_all (\<lambda>i. i < n) is"
| "report_ok n _ \<longleftrightarrow> True"

text \<open>The annotation shows the status: nothing is drawn while there is no fault, and otherwise
  the text that describes it.\<close>

definition shows_status :: "nat \<Rightarrow> bool list \<times> bool list \<Rightarrow> Annot \<Rightarrow> bool" where
  "shows_status n s st \<longleftrightarrow> length (fst s) = n \<and> length (snd s) = n \<and>
     (\<exists>fi. finfo st = Some fi \<and> nservers fi = n \<and> connected fi = fst s \<and> crashed fi = snd s \<and>
        (if s = (replicate n True, replicate n False) then continuous (annotation st) TAG_PARTITION = None
         else \<exists>text c. faultText fi = Some text \<and> continuous (annotation st) TAG_PARTITION = Some c \<and>
                contDesp c = text \<and> contDetails c = text \<and> contBgcolor c = COLOR_FAULT))"

lemma faultLoop_total: "length cs = length xs \<Longrightarrow> \<exists>r. faultLoop i cs xs = Some r"
proof (induction i cs xs rule: faultLoop.induct)
  case (2 i c cs x xs)
  then obtain r where "faultLoop (Suc i) cs xs = Some r" by auto
  then show ?case by (cases r) simp
qed simp_all

lemma faultText_total: "length (connected fi) = length (crashed fi) \<Longrightarrow> \<exists>text. faultText fi = Some text"
  using faultLoop_total [of "connected fi" "crashed fi" 0] by (auto simp: faultText_def)

lemma annotateFault_shows:
  assumes "finfo st = Some fi" "nservers fi = n" "length (connected fi) = n" "length (crashed fi) = n"
  shows "\<exists>st'. annotateFault t st = Some st' \<and> shows_status n (connected fi, crashed fi) st'"
proof -
  obtain msg where "faultText fi = Some msg" using faultText_total [of fi] assms by auto
  then show ?thesis
    using assms
    by (auto simp: annotateFault_def shows_status_def annotateContinuousEnd_def annotateContinuousColor_def Let_def
        split: option.split)
qed

lemma setCrashed_spec:
  "list_all (\<lambda>i. i < length xs) is \<Longrightarrow>
   \<exists>changed. setCrashed b is xs = Some (changed, map (\<lambda>i. if i \<in> set is then b else xs ! i) [0..<length xs]) \<and>
     (\<not> changed \<longrightarrow> map (\<lambda>i. if i \<in> set is then b else xs ! i) [0..<length xs] = xs)"
proof (induction "is" arbitrary: xs)
  case Nil
  then show ?case by (auto simp: map_nth)
next
  case (Cons j js)
  let ?f = "\<lambda>js (xs :: bool list). map (\<lambda>i. if i \<in> set js then b else xs ! i) [0..<length xs]"
  have eq: "?f js (xs[j := b]) = ?f (j # js) xs" by (auto simp: nth_list_update)
  from Cons.IH [of "xs[j := b]"] Cons.prems obtain changed where
    "setCrashed b js (xs[j := b]) = Some (changed, ?f (j # js) xs)"
    "\<not> changed \<longrightarrow> ?f (j # js) xs = xs[j := b]"
    unfolding eq by auto
  moreover have "xs ! j = b \<Longrightarrow> xs[j := b] = xs" using list_update_id [of xs j] by simp
  ultimately show ?case using Cons.prems by auto
qed

lemma annotateCrash_shows:
  assumes st: "shows_status n (cs, xs) st" and ok: "list_all (\<lambda>i. i < n) is"
  shows "\<exists>st'. annotateCrash b t is st = Some st' \<and>
     shows_status n (cs, map (\<lambda>i. if i \<in> set is then b else xs ! i) [0..<n]) st'"
proof -
  let ?ys = "map (\<lambda>i. if i \<in> set is then b else xs ! i) [0..<n]"
  from st obtain fi where fi: "finfo st = Some fi" "nservers fi = n" "connected fi = cs" "crashed fi = xs"
    and len: "length cs = n" "length xs = n"
    by (auto simp: shows_status_def)
  obtain changed where set: "setCrashed b is xs = Some (changed, ?ys)" and same: "\<not> changed \<Longrightarrow> ?ys = xs"
    using setCrashed_spec [of xs "is" b] ok len by auto
  show ?thesis
  proof (cases changed)
    case True
    then show ?thesis
      using annotateFault_shows [of "st\<lparr>finfo := Some (fi\<lparr>crashed := ?ys\<rparr>)\<rparr>" "fi\<lparr>crashed := ?ys\<rparr>" n t] fi len set
      by (simp add: annotateCrash_def)
  next
    case False
    then have ys: "?ys = xs" using same by simp
    have "annotateCrash b t is st = Some (st\<lparr>finfo := Some (fi\<lparr>crashed := xs\<rparr>)\<rparr>)"
      using fi set False unfolding ys by (simp add: annotateCrash_def)
    moreover have "fi\<lparr>crashed := xs\<rparr> = fi" using fi(4) by simp
    moreover have "st\<lparr>finfo := Some fi\<rparr> = st" using fi(1) by simp
    ultimately show ?thesis using st unfolding ys by simp
  qed
qed

lemma annotateReport_shows:
  assumes st: "shows_status n s st" and ok: "report_ok n r"
  shows "\<exists>st'. annotateReport (t, r) st = Some st' \<and> shows_status n (status n s r) st'"
proof -
  obtain cs xs where s: "s = (cs, xs)" by fastforce
  from st obtain fi where fi: "finfo st = Some fi" "nservers fi = n" "connected fi = cs" "crashed fi = xs"
    and len: "length cs = n" "length xs = n"
    by (auto simp: shows_status_def s)
  note crash = annotateCrash_shows [OF st [unfolded s]]
  show ?thesis
  proof (cases r)
    case (Connection cs')
    then show ?thesis
      using annotateFault_shows [of "st\<lparr>finfo := Some (fi\<lparr>connected := cs'\<rparr>)\<rparr>" "fi\<lparr>connected := cs'\<rparr>" n t]
        fi len ok st s by (auto simp: AnnotateConnection_def)
  next
    case ClearFailure
    then show ?thesis
      using fi len s
      by (auto simp: AnnotateClearFailure_def shows_status_def annotateContinuousEnd_def Let_def map_replicate_const)
  next
    case (Shutdown "is")
    moreover have "map (\<lambda>i. if i \<in> set is then True else xs ! i) [0..<n] = map (\<lambda>i. i \<in> set is \<or> xs ! i) [0..<n]"
      by auto
    ultimately show ?thesis using crash [of "is" True t] ok s by (simp only: AnnotateShutdown_def) (simp add: AnnotateShutdown_def)
  next
    case (Restart "is")
    moreover have "map (\<lambda>i. if i \<in> set is then False else xs ! i) [0..<n] = map (\<lambda>i. i \<notin> set is \<and> xs ! i) [0..<n]"
      by auto
    ultimately show ?thesis using crash [of "is" False t] ok s by (simp only: AnnotateRestart_def) (simp add: AnnotateRestart_def)
  next
    case ShutdownAll
    have "map (\<lambda>i. if i \<in> set [0..<n] then True else xs ! i) [0..<n] = replicate n True"
      by (rule nth_equalityI) simp_all
    then show ?thesis
      using crash [of "[0..<n]" True t] fi s ShutdownAll
      by (simp add: AnnotateShutdownAll_def AnnotateShutdown_def list_all_iff)
  next
    case RestartAll
    have "map (\<lambda>i. if i \<in> set [0..<n] then False else xs ! i) [0..<n] = replicate n False"
      by (rule nth_equalityI) simp_all
    then show ?thesis
      using crash [of "[0..<n]" False t] fi s RestartAll
      by (simp add: AnnotateRestartAll_def AnnotateRestart_def list_all_iff)
  qed
qed

lemma annotateReports_shows:
  "shows_status n s st \<Longrightarrow> list_all (\<lambda>(t, r). report_ok n r) rs \<Longrightarrow>
   \<exists>st'. annotateReports rs st = Some st' \<and> shows_status n (foldl (status n) s (map snd rs)) st'"
proof (induction rs arbitrary: s st)
  case Nil
  then show ?case by simp
next
  case (Cons r rs)
  obtain t p where r: "r = (t, p)" by fastforce
  from annotateReport_shows [OF Cons.prems(1), of p t] Cons.prems(2) obtain st' where
    "annotateReport (t, p) st = Some st'" "shows_status n (status n s p) st'" by (auto simp: r)
  then show ?case using Cons.IH Cons.prems(2) by (simp add: r)
qed

lemma AnnotateTest_shows: "shows_status n (replicate n True, replicate n False) (AnnotateTest t desp n st)"
  by (simp add: shows_status_def AnnotateTest_def Let_def mkFrameworkInfo_def AnnotateInfo_def annotatePointColor_def
      clear_def)

text \<open>In a test of \<open>n\<close> servers, after any reports about these servers (which never panic), the
  annotation under way is the current status: while all servers are up and connected there is
  none, otherwise there is one, and it says which servers are connected, which are alone and
  which have crashed.\<close>

lemma fault_annotation_current:
  assumes "list_all (\<lambda>(t, r). report_ok n r) rs"
  shows "\<exists>st'. annotateReports rs (AnnotateTest t desp n st) = Some st' \<and>
     shows_status n (foldl (status n) (replicate n True, replicate n False) (map snd rs)) st'"
  by (rule annotateReports_shows [OF AnnotateTest_shows assms])

text \<open>The end of a continuous annotation that was never begun is not ignored: clearing the
  failures of a test without failures draws an empty interval from time 0.\<close>

lemma clear_without_failure_draws:
  "map_option (\<lambda>st. drop 1 (annotations (annotation st))) (AnnotateClearFailure t' (AnnotateTest t desp n st)) =
     Some [\<lparr>aTag = TAG_PARTITION, aStart = 0, aEnd = t', aDescription = '''', aDetails = '''', aBackgroundColor = ''''\<rparr>]"
  by (simp add: AnnotateClearFailure_def AnnotateTest_def Let_def clear_def AnnotateInfo_def annotatePointColor_def
      annotateContinuousEnd_def concretize_def zeroContinuous_def)

text \<open>The time at which a check began is never reset, so that a later result without a
  begin of its own is drawn as an interval from the begin of the finished check, with its
  details.\<close>

lemma checker_begin_kept:
  assumes "finfo st = Some fi" and "t1 \<noteq> 0"
  shows "\<exists>st'. do { st1 \<leftarrow> AnnotateCheckerBegin t1 a st; st2 \<leftarrow> AnnotateCheckerSuccess t2 d2 b st1;
                   AnnotateCheckerSuccess t3 d3 c st2 } = Some st' \<and>
     annotations (annotation st') = annotations (annotation st) @
       [\<lparr>aTag = TAG_CHECKER, aStart = t1, aEnd = t2, aDescription = d2, aDetails = a @ '': '' @ b,
         aBackgroundColor = COLOR_SUCCESS\<rparr>,
        \<lparr>aTag = TAG_CHECKER, aStart = t1, aEnd = t3, aDescription = d3, aDetails = a @ '': '' @ c,
         aBackgroundColor = COLOR_SUCCESS\<rparr>]"
  using assms
  by (simp add: AnnotateCheckerBegin_def AnnotateCheckerSuccess_def AnnotateCheckerEnd_def Let_def
      annotateIntervalColor_def)

end
