(* ===== verification/Kv_Oplog.thy ===== *)
theory Kv_Oplog
  imports Kv_Model Test_Annotation
begin

text \<open>
  What the tests of the key/value services record and check, whatever store they run on
  (\<^verbatim>\<open>src/kvtest1/porcupine.go\<close>): the log of operations with the times of their calls and
  returns, what it means that it is linearizable, and the last check of a test.
\<close>

record OpInfo =
  opOutput :: KvOutput
  opCall :: int
  opReturn :: int
  opClientId :: int

type_synonym Operation = "KvInput \<times> OpInfo"

text \<open>\<^verbatim>\<open>OpLog\<close>: its mutex makes each of its methods one step.\<close>

type_synonym OpLog = "Operation list"

definition OpLogLen :: "OpLog \<Rightarrow> nat" where
  "OpLogLen log = length log"

definition OpLogAppend :: "Operation \<Rightarrow> OpLog \<Rightarrow> OpLog" where
  "OpLogAppend op log = log @ [op]"

definition OpLogRead :: "OpLog \<Rightarrow> Operation list" where
  "OpLogRead log = log"

text \<open>What \<^verbatim>\<open>Get\<close> and \<^verbatim>\<open>Put\<close> of the test library log.\<close>

definition getOp :: "int \<Rightarrow> string \<Rightarrow> int \<Rightarrow> int \<Rightarrow> GetReply \<Rightarrow> Operation" where
  "getOp cli key start stop r =
     (\<lparr>inOp = 0, inKey = key, inValue = '''', inVersion = 0\<rparr>,
      \<lparr>opOutput = \<lparr>outValue = grValue r, outVersion = grVersion r, outErr = grErr r\<rparr>,
       opCall = start, opReturn = stop, opClientId = cli\<rparr>)"

definition putOp :: "int \<Rightarrow> string \<Rightarrow> string \<Rightarrow> Tversion \<Rightarrow> int \<Rightarrow> int \<Rightarrow> Err \<Rightarrow> Operation" where
  "putOp cli key val version start stop err =
     (\<lparr>inOp = 1, inKey = key, inValue = val, inVersion = version\<rparr>,
      \<lparr>opOutput = \<lparr>outValue = '''', outVersion = 0, outErr = err\<rparr>,
       opCall = start, opReturn = stop, opClientId = cli\<rparr>)"

section \<open>Linearizability\<close>

text \<open>What porcupine documents: the operations of one part of a history are linearizable when
  they can be put into an order that the model accepts and in which no operation comes before
  one that had returned before it was called.\<close>

fun modelRun :: "KvState \<Rightarrow> Operation list \<Rightarrow> KvState option" where
  "modelRun st [] = Some st"
| "modelRun st ((inp, r) # ops) =
     (case modelStep st inp (opOutput r) of
        (True, Some st') \<Rightarrow> modelRun st' ops
      | _ \<Rightarrow> None)"

definition realTime :: "Operation \<Rightarrow> Operation \<Rightarrow> bool" where
  "realTime a b \<longleftrightarrow> \<not> opReturn (snd b) < opCall (snd a)"

definition linearizable :: "Operation list \<Rightarrow> bool" where
  "linearizable ops \<longleftrightarrow>
     (\<exists>xs. mset xs = mset ops \<and> sorted_wrt realTime xs \<and> modelRun modelInit xs \<noteq> None)"

lemma modelRun_append: "modelRun st (xs @ ys) = (case modelRun st xs of None \<Rightarrow> None | Some st' \<Rightarrow> modelRun st' ys)"
  by (induction st xs rule: modelRun.induct) (auto split: prod.split bool.split option.split)

lemma opsOf_append [simp]: "opsOf k (xs @ ys) = opsOf k xs @ opsOf k ys"
  by (simp add: opsOf_def)

lemma opsOf_getOp [simp]: "opsOf k [getOp c key a b r] = (if key = k then [getOp c key a b r] else [])"
  by (simp add: opsOf_def getOp_def)

lemma opsOf_putOp [simp]: "opsOf k [putOp c key v n a b e] = (if key = k then [putOp c key v n a b e] else [])"
  by (simp add: opsOf_def putOp_def)

definition noErrNoKey :: "Operation list \<Rightarrow> bool" where
  "noErrNoKey ops \<longleftrightarrow> list_all (\<lambda>(inp, r). inOp inp = 0 \<or> outErr (opOutput r) \<noteq> ErrNoKey) ops"

lemma noErrNoKey_append [simp]: "noErrNoKey (xs @ ys) \<longleftrightarrow> noErrNoKey xs \<and> noErrNoKey ys"
  by (simp add: noErrNoKey_def)

section \<open>The check at the end of a test\<close>

text \<open>The checker is a library: \<open>check\<close> is what it finds for the operations with the model of
  \<^verbatim>\<open>models1\<close>. The rest of \<^verbatim>\<open>checkPorcupine\<close> decides whether the test fails and which
  annotations are written with the history; \<open>opened\<close> says whether the file could be opened.\<close>

datatype CheckResult = CheckOk | CheckIllegal | CheckUnknown

definition checkPorcupine :: "(Operation list \<Rightarrow> CheckResult) \<Rightarrow> string \<Rightarrow> bool \<Rightarrow> string list \<Rightarrow> int \<Rightarrow> OpLog \<Rightarrow>
    Annotation \<Rightarrow> bool \<times> Annotation \<times> PAnnotation list option" where
  "checkPorcupine check enabled opened order t log an =
     (let res = check (OpLogRead log) in
      if res = CheckIllegal
      then (False,
            if opened \<and> enabled \<noteq> ''never''
            then (case FinalizeAnnotations order t t ''test failed'' an of (xs, an') \<Rightarrow> (an', Some xs))
            else (an, None))
      else (True,
            if enabled = ''always'' \<and> isFinalized an \<and> opened
            then (case FinalizeAnnotations order t t ''test passed'' an of (xs, an') \<Rightarrow> (an', Some xs))
            else (an, None)))"

text \<open>What the library documents: it calls a history illegal only when some part of it is not
  linearizable.\<close>

definition sound_checker :: "(Operation list \<Rightarrow> CheckResult) \<Rightarrow> bool" where
  "sound_checker check \<longleftrightarrow> (\<forall>ops. check ops = CheckIllegal \<longrightarrow> \<not> list_all linearizable (modelPartition ops))"

lemma checkPorcupine_passes:
  "sound_checker check \<Longrightarrow> list_all linearizable (modelPartition (OpLogRead log)) \<Longrightarrow>
     fst (checkPorcupine check enabled opened order t log an)"
  by (auto simp: checkPorcupine_def sound_checker_def Let_def)

end
