(* ===== verification/Raft_Validity.thy ===== *)
theory Raft_Validity
  imports Raft_System
begin

text \<open>
  Validity of the cluster (\<^verbatim>\<open>src/raft1/raft.go\<close>): nothing is made up. Every command that a peer has
  in its log, sends to another peer or hands to its service was given to \<^verbatim>\<open>Start\<close> of some peer
  by a client. This holds in all runs, with snapshots and with crashes.
\<close>

section \<open>Commands of a cluster\<close>

text \<open>The first entry of a log, at index 0 or at the snapshot boundary, is not one of a client.\<close>

definition lawful :: "('c \<Rightarrow> bool) \<Rightarrow> 'c LogEntry \<Rightarrow> bool" where
  "lawful P e = (case leCommand e of Some c \<Rightarrow> P c | None \<Rightarrow> False)"

definition valid :: "('c \<Rightarrow> bool) \<Rightarrow> ('c, 's) Cluster \<Rightarrow> bool" where
  "valid P s \<longleftrightarrow> (\<forall>i < size s. list_all (lawful P) (tl (Log (nodes s i)))) \<and>
     (\<forall>c \<in> set (appends s). list_all (lawful P) (aeEntries (acArgs c)))"

text \<open>The commands that an event brings in.\<close>

definition proposes :: "('c \<Rightarrow> bool) \<Rightarrow> ('c, 's) event \<Rightarrow> bool" where
  "proposes P ev = (case ev of ClientStart i c \<Rightarrow> P c | _ \<Rightarrow> True)"

lemma validD: "valid P s \<Longrightarrow> i < size s \<Longrightarrow> list_all (lawful P) (tl (Log (nodes s i)))"
  by (simp add: valid_def)

text \<open>A step of one peer that sends nothing new.\<close>

lemma valid_node:
  assumes "valid P s" "nodes s' = (nodes s)(i := rf)" "size s' = size s" "list_all (lawful P) (tl (Log rf))"
    and "\<And>c'. c' \<in> set (appends s') \<Longrightarrow> \<exists>c \<in> set (appends s). acArgs c' = acArgs c"
  shows "valid P s'"
  using assms(1-4) assms(5) unfolding valid_def by (auto split: if_splits) metis

lemma valid_sameLog:
  assumes "valid P s" "nodes s' = (nodes s)(i := rf)" "size s' = size s" "i < size s" "sameLog (nodes s i) rf"
    and "\<And>c'. c' \<in> set (appends s') \<Longrightarrow> \<exists>c \<in> set (appends s). acArgs c' = acArgs c"
  shows "valid P s'"
  using assms validD [OF assms(1,4)] by (intro valid_node [OF assms(1-3)]) (auto simp: sameLog_def)

lemma set_drop_tl: "0 < k \<Longrightarrow> set (drop k xs) \<subseteq> set (tl xs)"
  by (cases k) (auto simp: drop_Suc dest: in_set_dropD)

lemma update_args:
  assumes "k < length xs" "c' \<in> set (xs[k := (xs ! k)\<lparr>acState := a\<rparr>])"
  shows "\<exists>c \<in> set xs. acArgs c' = acArgs c"
proof -
  have "c' \<in> insert ((xs ! k)\<lparr>acState := a\<rparr>) (set xs)" using assms(2) set_update_subset_insert by fast
  then show ?thesis using assms(1) by auto
qed

section \<open>Every step keeps it\<close>

lemma tl_mergedLog:
  assumes wf: "wf_raft rf" and c: "consistent args rf"
  shows "set (tl (mergedLog args rf)) \<subseteq> set (tl (Log rf)) \<union> set (aeEntries args)"
proof -
  have "0 < appendAt args rf" using c by (auto simp: appendAt_def consistent_def)
  then have "tl (mergedLog args rf) = tl (take (appendAt args rf) (Log rf)) @ mergeLog (drop (appendAt args rf) (Log rf)) (aeEntries args)"
    using wf_raftD(1) [OF wf] by (simp add: mergedLog_def)
  then show ?thesis
    using set_mergeLog [of "drop (appendAt args rf) (Log rf)" "aeEntries args"] set_drop_tl [OF \<open>0 < appendAt args rf\<close>, of "Log rf"]
    by (auto simp: tl_take dest: in_set_takeD)
qed

lemma deliver_append_valid:
  assumes ok: "cluster_ok s" and vl: "valid P s" and k: "k < length (appends s)" and st: "stepDeliverAppend k clk s = Some s'"
  shows "valid P s'"
proof -
  let ?c = "appends s ! k" let ?j = "acTo ?c"
  obtain rf r where a: "AppendEntries clk (acArgs ?c) (nodes s ?j) = Some (rf, r)"
    and s': "s' = (setNode ?j rf s)\<lparr>appends := (appends s)[k := ?c\<lparr>acState := deliver r (acState ?c)\<rparr>]\<rparr>"
    using st by (auto simp: stepDeliverAppend_def bind_Some_iff Let_def)
  from cluster_okD(4) [OF ok, of ?c] k have j: "?j < size s" and v: "valid_append (acArgs ?c)"
    by (auto simp: append_ok_def)
  have wf: "wf_raft (nodes s ?j)" using cluster_okD(1) [OF ok j] by (simp add: node_ok_def)
  have es: "list_all (lawful P) (aeEntries (acArgs ?c))" using vl k by (simp add: valid_def)
  have "set (tl (Log rf)) \<subseteq> set (tl (Log (nodes s ?j))) \<union> set (aeEntries (acArgs ?c))"
    using wf v a tl_mergedLog [OF wf, of "acArgs ?c"]
    by (cases rule: AppendEntries_cases [where clk = clk]) (auto split: if_splits)
  then have "list_all (lawful P) (tl (Log rf))" using es validD [OF vl j] by (auto simp: list_all_iff)
  then show ?thesis using update_args [OF k] by (intro valid_node [OF vl, of _ ?j rf]) (auto simp: s')
qed

lemma send_valid:
  assumes ok: "cluster_ok s" and vl: "valid P s" and i: "i < size s" and st: "stepSendTo i j s = Some s'"
  shows "valid P s'"
proof -
  have wf: "wf_raft (nodes s i)" using cluster_okD(1) [OF ok i] by (simp add: node_ok_def)
  obtain out where p: "PrepareEntries j (nodes s i) = Some out"
    using st by (auto simp: stepSendTo_def bind_Some_iff)
  have "list_all (lawful P) (drop k (Log (nodes s i)))" if "0 < k" for k
    using validD [OF vl i] set_drop_tl [OF that, of "Log (nodes s i)"] by (auto simp: list_all_iff)
  with wf p show ?thesis
    by (cases rule: PrepareEntries_cases) (use st p vl in \<open>auto simp: stepSendTo_def valid_def\<close>)
qed

lemma start_valid:
  assumes ok: "cluster_ok s" and vl: "valid P s" and i: "i < size s" and st: "Start c (nodes s i) = Some (rf, r)" and c: "P c"
  shows "valid P (setNode i rf s)"
proof -
  have wf: "wf_raft (nodes s i)" using cluster_okD(1) [OF ok i] by (simp add: node_ok_def)
  have "list_all (lawful P) (tl (Log rf))"
  proof (cases "State (nodes s i) = Leader")
    case True
    then show ?thesis using st c validD [OF vl i] by (auto simp: Start_leader_eq [OF wf] lawful_def wf_raftD(1) [OF wf])
  next
    case False
    then show ?thesis using st validD [OF vl i] by (auto simp: Start_def GetLastLog_Some wf_raftD(1) wf)
  qed
  then show ?thesis by (intro valid_node [OF vl]) auto
qed

lemma install_valid:
  assumes vl: "valid P s" and i: "i < size s" and st: "InstallSnapShot clk args (nodes s i) = (rf, r)"
  shows "list_all (lawful P) (tl (Log rf))"
  using st by (cases rule: InstallSnapShot_cases) (use validD [OF vl i] in \<open>auto simp: lawful_def zeroEntry_def\<close>)

lemma step_valid:
  assumes ok: "cluster_ok s" and vl: "valid P s" and st: "step ev s = Some s'" and p: "proposes P ev"
  shows "valid P s'"
proof -
  have wf: "wf_raft (nodes s i)" "peers (nodes s i) = size s" if "i < size s" for i
    using cluster_okD(1) [OF ok that] by (simp_all add: node_ok_def)
  note same = valid_sameLog [OF vl]
  show ?thesis
  proof (cases ev)
    case (Elect i clk)
    then show ?thesis
      using st vl by (auto simp: step_def stepElect_def active_def bind_Some_iff sameLog_def dest: AttemptElection_Some(2)
          intro!: same [of _ i] split: if_splits)
  next
    case (DeliverVote k j clk)
    then show ?thesis
      using st vl by (auto simp: step_def stepDeliverVote_def active_def bind_Some_iff Let_def
          dest: RequestVote_sameLog intro!: same [of _ j] split: if_splits)
  next
    case (HandleVote k j okay)
    then show ?thesis
      using st vl by (auto simp: step_def stepHandleVote_def active_def bind_Some_iff Let_def
          dest: HandleVoteReply_sameLog intro!: same [of _ "elCand (elections s ! k)"] split: if_splits call_state.splits)
  next
    case (SendTo i j)
    then show ?thesis using st vl send_valid [OF ok vl, of i j] by (auto simp: step_def active_def split: if_splits)
  next
    case (DeliverAppend k clk)
    then show ?thesis using st vl deliver_append_valid [OF ok vl, of k clk] by (auto simp: step_def split: if_splits)
  next
    case (HandleAppend k okay)
    show ?thesis
    proof (cases "s' = s")
      case False
      then obtain rep rf a where a: "HandleAppendReply (acTo (appends s ! k)) (acArgs (appends s ! k)) rep (nodes s (acFrom (appends s ! k))) = Some rf"
          "s' = (setNode (acFrom (appends s ! k)) rf s)\<lparr>appends := (appends s)[k := (appends s ! k)\<lparr>acState := a\<rparr>]\<rparr>"
          "acFrom (appends s ! k) < size s" "k < length (appends s)"
        using st HandleAppend by (auto simp: step_def stepHandleAppend_def active_def bind_Some_iff Let_def split: if_splits call_state.splits)
      moreover have "acTo (appends s ! k) < size s" using cluster_okD(4) [OF ok, of "appends s ! k"] a(4) by (auto simp: append_ok_def)
      ultimately have "sameLog (nodes s (acFrom (appends s ! k))) rf"
        using HandleAppendReply_sameLog [OF wf(1) [OF a(3)] _ a(1)] wf(2) [OF a(3)] by simp
      then show ?thesis using a update_args by (intro same [of _ "acFrom (appends s ! k)" rf]) auto
    qed (use vl in simp)
  next
    case (FireSnap k)
    then show ?thesis
      using st vl by (auto simp: step_def stepFireSnap_def sendSnapShot_def active_def Let_def sameLog_def
          intro!: same [of _ "scFrom (snaps s ! k)"] split: if_splits)
  next
    case (DeliverSnap k clk)
    then show ?thesis
      using st vl by (auto simp: step_def stepDeliverSnap_def active_def Let_def dest: install_valid [OF vl]
          intro!: valid_node [OF vl, of _ "scTo (snaps s ! k)"] split: if_splits prod.splits)
  next
    case (HandleSnap k okay)
    show ?thesis
    proof (cases "s' = s")
      case False
      then obtain rep rf b where a: "HandleSnapReply (scTo (snaps s ! k)) (scArgs (snaps s ! k)) rep (nodes s (scFrom (snaps s ! k))) = Some rf"
          "s' = (setNode (scFrom (snaps s ! k)) rf s)\<lparr>snaps := b\<rparr>" "scFrom (snaps s ! k) < size s" "k < length (snaps s)"
        using st HandleSnap by (auto simp: step_def stepHandleSnap_def active_def bind_Some_iff Let_def split: if_splits call_state.splits)
      moreover have "scTo (snaps s ! k) < size s" using cluster_okD(5) [OF ok, of "snaps s ! k"] a(4) by (auto simp: snap_ok_def)
      ultimately have "sameLog (nodes s (scFrom (snaps s ! k))) rf"
        using HandleSnapReply_sameLog [OF wf(1) [OF a(3)] _ a(1)] wf(2) [OF a(3)] by simp
      then show ?thesis using a by (intro same [of _ "scFrom (snaps s ! k)" rf]) auto
    qed (use vl in simp)
  next
    case (ClientStart i c)
    then show ?thesis using st vl p start_valid [OF ok vl, of i c] by (auto simp: step_def active_def proposes_def split: if_splits)
  next
    case (ServiceSnapshot i ix d)
    show ?thesis
    proof (cases "active i s")
      case True
      then obtain rf where r: "Snapshot ix d (nodes s i) = Some rf" "s' = setNode i rf s"
        using st ServiceSnapshot by (auto simp: step_def)
      have "set (tl (Log rf)) \<subseteq> set (tl (Log (nodes s i)))"
        using r(1) set_drop_tl [of "Suc _"] by (auto simp: Snapshot_eq Let_def tl_drop drop_Suc split: if_splits dest: in_set_dropD)
      then show ?thesis
        using validD [OF vl, of i] True r(2) by (intro valid_node [OF vl, of _ i rf]) (auto simp: list_all_iff active_def)
    qed (use st ServiceSnapshot vl in \<open>auto simp: step_def\<close>)
  next
    case (Crash i clk)
    show ?thesis
    proof (cases "i < size s")
      case True
      obtain rf where "Make (size s) i (Copy (persister (nodes s i))) clk = Some rf" "Log rf = Log (nodes s i)"
        by (rule restart_keeps [OF cluster_okD(1) [OF ok True]])
      then show ?thesis
        using st Crash True validD [OF vl True] by (intro valid_node [OF vl, of _ i rf]) (auto simp: step_def stepCrash_def)
    qed (use st Crash vl in \<open>auto simp: step_def\<close>)
  qed
qed

lemma steps_valid:
  "cluster_ok s \<Longrightarrow> valid P s \<Longrightarrow> steps evs s = Some s' \<Longrightarrow> list_all (proposes P) evs \<Longrightarrow> valid P s'"
proof (induction evs arbitrary: s)
  case (Cons ev evs)
  then obtain s1 where "step ev s = Some s1" "steps evs s1 = Some s'" by (auto simp: bind_Some_iff)
  moreover have "cluster_ok s1" "valid P s1"
    using Cons.prems step_ok [OF Cons.prems(1)] step_valid [OF Cons.prems(1,2)] calculation(1) by auto
  ultimately show ?case using Cons.IH Cons.prems(4) by simp
qed simp

lemma init_valid: "valid P (initCluster n)"
  by (simp add: valid_def initCluster_def freshPeer_def Make_fresh lawful_def zeroEntry_def)

section \<open>What the services get\<close>

text \<open>A chosen command is in the log of some peer.\<close>

lemma chosen_held:
  assumes sd: "sound H s" and ch: "chosen H s k v"
  shows "\<exists>p < size s. \<exists>e \<in> set (tl (Log (nodes s p))). leCommand e = v"
proof -
  have ok: "cluster_ok s" and mt: "matching H s" and cp: "complete H s" using sd by (simp_all add: sound_def)
  obtain t n L where a: "0 < t" "committed H s t n" "H t = Some L" "nat k \<le> n" "leCommand (L ! nat k) = v" "0 < k"
    using ch by (auto simp: chosen_def)
  then have o: "own H t n" "holds t n L" by (auto simp: committed_def own_def)
  obtain Q where Q: "majority (size s) Q" "\<And>p. p \<in> Q \<Longrightarrow> acked H s p t n" using a(2) by (auto simp: committed_def)
  obtain p where p: "p \<in> Q" "p < size s" using maj.intersect [OF Q(1,1)] Q(1) by (auto simp: majority_def)
  have "\<not> lost H t n T" for T using leader_completeness [OF cp a(2) _ _ a(1)] by (auto simp: lost_def)
  then have h: "holds t n (Log (nodes s p))" using completeD(3) [OF cp p(2)] o(1) Q(2) [OF p(1)] by (auto simp: kept_def)
  obtain F where F: "legit H F" "tail_of 0 (Log (nodes s p)) F" using mt cp p(2) by (rule log_full)
  have len: "n < length (Log (nodes s p))" "n < length F" using h tail_of_length [OF F(2)] by (auto simp: holds_def)
  have "leTerm (F ! n) = leTerm (L ! n)" using tail_of_nth(1) [OF F(2) len(1)] h o(2) by (simp add: holds_def)
  then have "take (Suc n) F = take (Suc n) L"
    using legit_match [OF F(1) ledger_legit [OF matchingD(1) [OF mt] a(3)] len(2)] o(2) by (simp add: holds_def)
  then have "F ! nat k = L ! nat k" using a(4) by (metis le_imp_less_Suc nth_take)
  moreover have "Log (nodes s p) ! nat k = F ! nat k" using tail_of_nth(2) [OF F(2), of "nat k"] a(4,6) len(1) by simp
  moreover have "Log (nodes s p) ! nat k \<in> set (tl (Log (nodes s p)))"
    using a(4,6) len(1) nth_mem [of "nat k - 1" "tl (Log (nodes s p))"] by (simp add: nth_tl)
  ultimately show ?thesis using a(5) p(2) by auto
qed

lemma chosen_valid: "sound H s \<Longrightarrow> valid P s \<Longrightarrow> chosen H s k v \<Longrightarrow> \<exists>c. v = Some c \<and> P c"
  using chosen_held [of H s k v] by (fastforce simp: valid_def list_all_iff lawful_def split: option.splits)

definition proposals :: "('c \<Rightarrow> bool) \<Rightarrow> ('c, 's, 'u) sysEvent \<Rightarrow> bool" where
  "proposals P ev = (case ev of Net e \<Rightarrow> proposes P e | _ \<Rightarrow> True)"

context apply_service
begin

lemma sysStep_valid:
  assumes so: "service_ok H y" and vl: "valid P (cluster y)" and st: "sysStep consume work restart ev y = Some (Inr y')"
    and p: "proposals P ev"
  shows "valid P (cluster y')"
proof -
  have sd: "sound H (cluster y)" and ap: "\<And>i. i < size (cluster y) \<Longrightarrow>
      applier_ok (chosen H (cluster y)) (pcs y i) (nodes (cluster y) i) (chan y i)"
    using so by (auto simp: service_ok_def sys_ok_def split: if_splits)
  have ok: "cluster_ok (cluster y)" using sd by (simp add: sound_def)
  show ?thesis
  proof (cases ev)
    case (Net e)
    then have "netStep restart e y = Some y'" using st by (auto simp: sysStep_def)
    then obtain s where "step e (cluster y) = Some s" "cluster y' = s"
      by (cases e) (auto simp: netStep_def bind_Some_iff Let_def split: if_splits)
    then show ?thesis using step_valid [OF ok vl] p Net by (auto simp: proposals_def)
  next
    case (ApplierStep i)
    show ?thesis
    proof (cases "active i (cluster y) \<and> chan y i = []")
      case True
      then have i: "i < size (cluster y)" by (simp add: active_def)
      obtain pc rf msgs where a: "Applier (pcs y i) (nodes (cluster y) i) = Some (pc, rf, msgs)"
          "cluster y' = setNode i rf (cluster y)"
        using st ApplierStep True by (auto simp: sysStep_def applierStep_def bind_Some_iff)
      have "applied_only (nodes (cluster y) i) rf" using Applier_ok [OF sd i refl _ a(1)] ap [OF i] True by auto
      then have "Log rf = Log (nodes (cluster y) i)" by (auto simp: applied_only_def)
      then show ?thesis using validD [OF vl i] by (intro valid_node [OF vl, of _ i rf]) (auto simp: a(2))
    qed (use st ApplierStep vl in \<open>auto simp: sysStep_def applierStep_def\<close>)
  next
    case (Receive i)
    then show ?thesis using st vl by (auto simp: sysStep_def split: list.splits sum.splits)
  next
    case (Local i u)
    then show ?thesis using st vl by (auto simp: sysStep_def split: if_splits)
  qed
qed

lemma sysRun_valid:
  "service_ok H y \<Longrightarrow> valid P (cluster y) \<Longrightarrow> sysRun consume work restart evs y = Some (Inr y') \<Longrightarrow>
     list_all noSnapshots evs \<Longrightarrow> list_all (proposals P) evs \<Longrightarrow> valid P (cluster y')"
proof (induction evs arbitrary: y H)
  case (Cons ev evs)
  obtain z where z: "sysStep consume work restart ev y = Some z"
      "(case z of Inl e \<Rightarrow> Some (Inl e) | Inr y1 \<Rightarrow> sysRun consume work restart evs y1) = Some (Inr y')"
    using Cons.prems(3) by (auto simp: bind_Some_iff)
  obtain y1 where y1: "z = Inr y1" "progress H y y1" using sysStep_ok [OF Cons.prems(1) z(1)] Cons.prems(4) by auto
  then obtain H1 where "service_ok H1 y1" by (auto simp: progress_def)
  moreover have "valid P (cluster y1)" using sysStep_valid [OF Cons.prems(1,2)] z(1) y1(1) Cons.prems(5) by simp
  ultimately show ?case using Cons.IH z(2) y1(1) Cons.prems(4,5) by simp
qed simp

end

section \<open>Validity\<close>

text \<open>C8: validity. In every run, with snapshots, losses, duplications and crashes: each entry in the
  log of a peer, after the first one, has a command that was handed to \<^verbatim>\<open>Start\<close> of some peer.\<close>

theorem commands_were_submitted:
  assumes "steps evs (initCluster n :: ('c, 's) Cluster) = Some s" and "i < n"
    and "e \<in> set (tl (Log (nodes s i)))"
  shows "\<exists>j c. leCommand e = Some c \<and> ClientStart j c \<in> set evs"
proof -
  let ?P = "\<lambda>c. \<exists>j. ClientStart j c \<in> set evs"
  have "size s = n" using steps_history [OF assms(1)] by (simp add: history_extends_def initCluster_def)
  moreover have "list_all (proposes ?P) evs" by (auto simp: list_all_iff proposes_def split: event.split)
  then have "valid ?P s" using steps_valid [OF init_ok init_valid assms(1)] by blast
  ultimately have "lawful ?P e" using assms(2,3) by (auto simp: valid_def list_all_iff)
  then show ?thesis by (auto simp: lawful_def split: option.splits)
qed

theorem commands_were_submitted_witness:
  "\<exists>s e. steps commitEvents (initCluster 3) = Some s \<and> e \<in> set (tl (Log (nodes s 1))) \<and> leCommand e = Some 7 \<and>
     (\<exists>j. ClientStart j 7 \<in> set commitEvents)"
proof -
  have "case steps commitEvents (initCluster 3) of
      Some s \<Rightarrow> map leCommand (tl (Log (nodes s 1))) = [Some 7] | None \<Rightarrow> False"
    by code_simp
  then obtain s e where s: "steps commitEvents (initCluster 3) = Some s" "e \<in> set (tl (Log (nodes s 1)))" "leCommand e = Some 7"
    by (auto split: option.splits)
  then show ?thesis using commands_were_submitted [OF s(1) _ s(2)] by auto
qed

end
