(* ===== verification/Rsm.thy ===== *)
theory Rsm
  imports Raft_Apply Kv_Store
begin

unbundle bit_operations_syntax

text \<open>
  The replicated state machine layer (\<^verbatim>\<open>src/kvraft1/rsm/rsm.go\<close>) between a service and
  Raft: \<^verbatim>\<open>Submit\<close> with its registration, waiting loop and operation ids, and the \<^verbatim>\<open>Reader\<close>
  that applies what Raft delivers. The service is the Go interface \<^verbatim>\<open>StateMachine\<close>: its three
  operations are parameters here and the locale \<open>state_machine\<close> is their contract.

  \<^item> \<^verbatim>\<open>notifyCh\<close> is the set of registered ids; the buffered channel that \<^verbatim>\<open>Submit\<close> made for an
    id and still holds after the id was removed from the map is the cell \<open>inbox\<close> of the id.
  \<^item> A request is an interface value; \<open>None\<close> is nil.
  \<^item> \<open>None\<close> as the outcome of a step is a \<^verbatim>\<open>log.Fatal\<close> of the service.
\<close>

record 'q Op =
  opId :: "64 word"
  opMe :: int
  opReq :: "'q option"

record 'r OpResult =
  orValue :: 'r
  orTerm :: int
  orOpId :: "64 word"

record ('r, 'm) RSM =
  rsmMe :: int
  maxraftstate :: int
  sm :: 'm
  notifyCh :: "64 word set"
  inbox :: "64 word \<rightharpoonup> 'r OpResult"
  rsmDead :: "32 word"
  seqid :: "64 word"

text \<open>\<^verbatim>\<open>MakeRSM\<close> makes the Raft peer (nothing sets \<^verbatim>\<open>useRaftStateMachine\<close>) and restores the service
  from a stored snapshot, if there is one.\<close>

definition MakeRSM :: "('s list \<Rightarrow> 'm \<Rightarrow> 'm option) \<Rightarrow> nat \<Rightarrow> nat \<Rightarrow> ('q Op gobval, 's) Persister \<Rightarrow> clock \<Rightarrow>
    int \<Rightarrow> 'm \<Rightarrow> (('q Op, 's) Raft \<times> ('r, 'm) RSM) option" where
  "MakeRSM restore n m ps clk maxstate sm0 = do {
     rf \<leftarrow> Make n m ps clk;
     let snapshot = ReadSnapshot ps;
     sm1 \<leftarrow> (if length snapshot > 0 then restore snapshot sm0 else Some sm0);
     Some (rf, \<lparr>rsmMe = int m, maxraftstate = maxstate, sm = sm1, notifyCh = {}, inbox = Map.empty,
                rsmDead = 0, seqid = 0\<rparr>)
   }"

definition RsmKill :: "('c, 's) Raft \<Rightarrow> ('r, 'm) RSM \<Rightarrow> ('c, 's) Raft \<times> ('r, 'm) RSM" where
  "RsmKill rf r = (Kill rf, r\<lparr>rsmDead := rsmDead r + 1\<rparr>)"

definition rsmKilled :: "('r, 'm) RSM \<Rightarrow> bool" where
  "rsmKilled r \<longleftrightarrow> rsmDead r = 1"

text \<open>\<open>now\<close> is the clock in nanoseconds; the shift drops its upper 20 bits.\<close>

definition generateOpId :: "64 word \<Rightarrow> ('r, 'm) RSM \<Rightarrow> 64 word \<times> ('r, 'm) RSM" where
  "generateOpId now r =
     (let seqId = seqid r + 1
      in (push_bit 20 now OR (seqId AND 0xFFFFF), r\<lparr>seqid := seqId\<rparr>))"

section \<open>Submit\<close>

definition unregister :: "64 word \<Rightarrow> ('r, 'm) RSM \<Rightarrow> ('r, 'm) RSM" where
  "unregister i r = r\<lparr>notifyCh := notifyCh r - {i}\<rparr>"

text \<open>Up to the waiting loop: refused, or waiting for an id in the term of the log entry.\<close>

definition SubmitBegin :: "64 word \<Rightarrow> 'q \<Rightarrow> ('q Op, 's) Raft \<Rightarrow> ('r, 'm) RSM \<Rightarrow>
    (('q Op, 's) Raft \<times> ('r, 'm) RSM \<times> (Err + 64 word \<times> int)) option" where
  "SubmitBegin now req rf r =
     (if rsmKilled r then Some (rf, r, Inl ErrWrongLeader)
      else
        let (i, r1) = generateOpId now r;
            newOp = \<lparr>opId = i, opMe = rsmMe r1, opReq = Some req\<rparr>;
            r2 = r1\<lparr>notifyCh := insert i (notifyCh r1), inbox := (inbox r1)(i := None)\<rparr>
        in do {
          (rf1, _, term, isLeader) \<leftarrow> Start newOp rf;
          if \<not> isLeader then Some (rf1, unregister i r2, Inl ErrWrongLeader)
          else Some (rf1, r2, Inr (i, term))
        })"

text \<open>One round of the waiting loop: the case that \<^verbatim>\<open>select\<close> takes, and what it does. \<open>None\<close> as
  the result goes round again.\<close>

datatype wake = ResultReady | TickerC | AfterC

definition SubmitSelect :: "wake \<Rightarrow> 64 word \<Rightarrow> int \<Rightarrow> ('c, 's) Raft \<Rightarrow> ('r, 'm) RSM \<Rightarrow>
    ('r, 'm) RSM \<times> (Err \<times> 'r option) option" where
  "SubmitSelect wk i term rf r =
     (case wk of
        ResultReady \<Rightarrow>
          (case inbox r i of
             None \<Rightarrow> (r, None)
           | Some result \<Rightarrow>
               if orOpId result = i then (unregister i r, Some (OK, Some (orValue result)))
               else (unregister i r, Some (ErrWrongLeader, None)))
      | TickerC \<Rightarrow>
          (let (currentTerm, isLeader) = GetState rf
           in if \<not> isLeader \<or> currentTerm \<noteq> term then (unregister i r, Some (ErrWrongLeader, None))
              else if rsmKilled r then (unregister i r, Some (ErrWrongLeader, None))
              else (r, None))
      | AfterC \<Rightarrow> (unregister i r, Some (ErrTimeOut, None)))"

text \<open>Time in milliseconds. The ticker was started at \<open>t0\<close> and fires every 50 ms; a round that
  starts at \<open>now\<close> makes a new timer of 2 s. \<open>ready\<close> is when the result arrives, if ever. The first of
  the three to be ready wakes the goroutine without delay; of several that are ready at the
  same moment, among which Go chooses at random, the earlier one in the code is taken.\<close>

definition nextTick :: "nat \<Rightarrow> nat \<Rightarrow> nat" where
  "nextTick t0 now = t0 + 50 * ((now - t0) div 50 + 1)"

definition selectWake :: "nat \<Rightarrow> nat \<Rightarrow> nat option \<Rightarrow> wake \<times> nat" where
  "selectWake t0 now ready =
     (let tick = nextTick t0 now; after = now + 2000
      in case ready of
           Some t \<Rightarrow> if t \<le> min tick after then (ResultReady, max now t)
                     else if tick \<le> after then (TickerC, tick) else (AfterC, after)
         | None \<Rightarrow> if tick \<le> after then (TickerC, tick) else (AfterC, after))"

text \<open>The whole loop, against the states of Raft and of the RSM that the rounds see. When the
  list is used up the call is still waiting.\<close>

fun SubmitWait :: "nat \<Rightarrow> nat \<Rightarrow> nat option \<Rightarrow> 64 word \<Rightarrow> int \<Rightarrow> (('c, 's) Raft \<times> ('r, 'm) RSM) list \<Rightarrow>
    (Err \<times> 'r option) option" where
  "SubmitWait t0 now ready i term [] = None"
| "SubmitWait t0 now ready i term ((rf, r) # seen) =
     (case selectWake t0 now ready of (wk, now') \<Rightarrow>
        case SubmitSelect wk i term rf r of
          (_, Some result) \<Rightarrow> Some result
        | (_, None) \<Rightarrow> SubmitWait t0 now' ready i term seen)"

section \<open>Reader\<close>

text \<open>A command that is not an \<^verbatim>\<open>Op\<close> is reported and then treated as the zero \<^verbatim>\<open>Op\<close>.\<close>

definition castOp :: "'q Op option \<Rightarrow> 'q Op" where
  "castOp c = (case c of Some op \<Rightarrow> op | None \<Rightarrow> \<lparr>opId = 0, opMe = 0, opReq = None\<rparr>)"

text \<open>One message. \<open>bytes\<close> is what \<^verbatim>\<open>PersistBytes\<close> returns; the second result is the call of
  Raft's \<^verbatim>\<open>Snapshot\<close>, if it is made.\<close>

definition ReaderStep :: "('q option \<Rightarrow> 'm \<Rightarrow> 'm \<times> 'r) \<Rightarrow> ('m \<Rightarrow> 's list) \<Rightarrow> ('s list \<Rightarrow> 'm \<Rightarrow> 'm option) \<Rightarrow>
    int \<Rightarrow> ('q Op, 's) ApplyMsg \<Rightarrow> ('r, 'm) RSM \<Rightarrow> (('r, 'm) RSM \<times> (int \<times> 's list) option) option" where
  "ReaderStep doOp snap restore bytes msg r =
     (if CommandValid msg
      then
        let op = castOp (Command msg);
            (sm1, val) = doOp (opReq op) (sm r);
            r1 = r\<lparr>sm := sm1\<rparr>;
            call = (if maxraftstate r1 \<noteq> -1 \<and> bytes \<ge> maxraftstate r1
                    then Some (CommandIndex msg, snap (sm r1)) else None);
            r2 = (if opId op \<in> notifyCh r1
                  then r1\<lparr>inbox := (inbox r1)(opId op \<mapsto>
                            \<lparr>orValue = val, orTerm = CommandTerm msg, orOpId = opId op\<rparr>),
                         notifyCh := notifyCh r1 - {opId op}\<rparr>
                  else r1)
        in Some (r2, call)
      else if SnapshotValid msg
      then do { sm1 \<leftarrow> restore (SnapshotData msg) (sm r); Some (r\<lparr>sm := sm1\<rparr>, None) }
      else Some (r, None))"

text \<open>The goroutine on the messages of a channel, each with the size that Raft reports then.\<close>

fun Reader :: "('q option \<Rightarrow> 'm \<Rightarrow> 'm \<times> 'r) \<Rightarrow> ('m \<Rightarrow> 's list) \<Rightarrow> ('s list \<Rightarrow> 'm \<Rightarrow> 'm option) \<Rightarrow>
    (int \<times> ('q Op, 's) ApplyMsg) list \<Rightarrow> ('r, 'm) RSM \<Rightarrow> (('r, 'm) RSM \<times> (int \<times> 's list) list) option" where
  "Reader doOp snap restore [] r = Some (r, [])"
| "Reader doOp snap restore ((bytes, msg) # msgs) r = do {
     (r1, call) \<leftarrow> ReaderStep doOp snap restore bytes msg r;
     (r2, calls) \<leftarrow> Reader doOp snap restore msgs r1;
     Some (r2, (case call of None \<Rightarrow> calls | Some c \<Rightarrow> c # calls))
   }"

text \<open>A message handled together with the peer that delivered it: the size is the one the peer
  reports and a snapshot goes to the peer at once.\<close>

definition ReaderTurn :: "('q option \<Rightarrow> 'm \<Rightarrow> 'm \<times> 'r) \<Rightarrow> ('m \<Rightarrow> 's list) \<Rightarrow> ('s list \<Rightarrow> 'm \<Rightarrow> 'm option) \<Rightarrow>
    ('q Op gobval list \<Rightarrow> int) \<Rightarrow> ('q Op, 's) ApplyMsg \<Rightarrow> ('q Op, 's) Raft \<Rightarrow> ('r, 'm) RSM \<Rightarrow>
    (('q Op, 's) Raft \<times> ('r, 'm) RSM) option" where
  "ReaderTurn doOp snap restore bytes msg rf r = do {
     (r1, call) \<leftarrow> ReaderStep doOp snap restore (PersistBytes bytes rf) msg r;
     rf1 \<leftarrow> (case call of None \<Rightarrow> Some rf | Some (ix, d) \<Rightarrow> Snapshot ix d rf);
     Some (rf1, r1)
   }"

text \<open>The channel was closed: the loop ends.\<close>

definition ReaderExit :: "('c, 's) Raft \<Rightarrow> ('r, 'm) RSM \<Rightarrow> ('c, 's) Raft \<times> ('r, 'm) RSM" where
  "ReaderExit rf r = RsmKill rf r"

section \<open>The contract of a service\<close>

text \<open>The reference: the requests of a committed sequence of operations, executed one after the
  other.\<close>

fun replay :: "('q option \<Rightarrow> 'm \<Rightarrow> 'm \<times> 'r) \<Rightarrow> 'q Op list \<Rightarrow> 'm \<Rightarrow> 'm" where
  "replay doOp [] m = m"
| "replay doOp (op # ops) m = replay doOp ops (fst (doOp (opReq op) m))"

lemma replay_append: "replay doOp (xs @ ys) m = replay doOp ys (replay doOp xs m)"
  by (induction xs arbitrary: m) simp_all

lemma replay_Suc:
  "k < length C \<Longrightarrow> replay doOp (take (Suc k) C) m = fst (doOp (opReq (C ! k)) (replay doOp (take k C) m))"
  by (simp add: take_Suc_conv_app_nth replay_append)

text \<open>Messages that say the truth about a committed sequence: commands are its elements, and
  snapshots are taken of the state that its prefix leads to.\<close>

definition faithful :: "('q option \<Rightarrow> 'm \<Rightarrow> 'm \<times> 'r) \<Rightarrow> ('m \<Rightarrow> 's list) \<Rightarrow> 'm \<Rightarrow> 'q Op list \<Rightarrow>
    ('q Op, 's) ApplyMsg \<Rightarrow> bool" where
  "faithful doOp snap m0 C msg \<longleftrightarrow>
     (if CommandValid msg
      then 1 \<le> CommandIndex msg \<and> CommandIndex msg \<le> int (length C) \<and>
           Command msg = Some (C ! (nat (CommandIndex msg) - 1))
      else 0 \<le> SnapshotIndex msg \<and> SnapshotIndex msg \<le> int (length C) \<and>
           SnapshotData msg = snap (replay doOp (take (nat (SnapshotIndex msg)) C) m0))"

text \<open>Every result that is kept for an id is the result of an operation with this id at its place in
  the sequence. Where the ids of the operations are distinct, it is the operation with this id.\<close>

definition inbox_ok :: "('q option \<Rightarrow> 'm \<Rightarrow> 'm \<times> 'r) \<Rightarrow> 'm \<Rightarrow> 'q Op list \<Rightarrow> ('r, 'm) RSM \<Rightarrow> bool" where
  "inbox_ok doOp m0 C r \<longleftrightarrow> (\<forall>i res. inbox r i = Some res \<longrightarrow> orOpId res = i \<and>
     (\<exists>k < length C. opId (C ! k) = i \<and> orValue res = snd (doOp (opReq (C ! k)) (replay doOp (take k C) m0))))"

lemma inbox_ok_own:
  assumes "inbox_ok doOp m0 C r" "inbox r (opId op) = Some res" and "\<And>x. x \<in> set C \<Longrightarrow> opId x = opId op \<Longrightarrow> x = op"
  shows "\<exists>k < length C. C ! k = op \<and> orValue res = snd (doOp (opReq op) (replay doOp (take k C) m0))"
  using assms unfolding inbox_ok_def by (metis nth_mem)

lemma inbox_ok_at:
  assumes "inbox_ok doOp m0 C r" "distinct (map opId C)" "k < length C" "inbox r (opId (C ! k)) = Some res"
  shows "orValue res = snd (doOp (opReq (C ! k)) (replay doOp (take k C) m0))"
proof -
  obtain j where "j < length C" "opId (C ! j) = opId (C ! k)" "orValue res = snd (doOp (opReq (C ! j)) (replay doOp (take j C) m0))"
    using assms(1,4) unfolding inbox_ok_def by blast
  moreover from this(1,2) assms(2,3) have "j = k" by (auto simp: distinct_conv_nth)
  ultimately show ?thesis by simp
qed

locale state_machine =
  fixes doOp :: "'q option \<Rightarrow> 'm \<Rightarrow> 'm \<times> 'r"
    and snap :: "'m \<Rightarrow> 's list"
    and restore :: "'s list \<Rightarrow> 'm \<Rightarrow> 'm option"
    and inv :: "'m \<Rightarrow> bool"
  assumes restore_snap: "inv m \<Longrightarrow> inv m' \<Longrightarrow> restore (snap m) m' = Some m"
    and snap_nonempty: "snap m \<noteq> []"
    and doOp_inv: "inv m \<Longrightarrow> inv (fst (doOp q m))"
begin

lemma replay_inv: "inv m \<Longrightarrow> inv (replay doOp ops m)"
  by (induction ops arbitrary: m) (simp_all add: doOp_inv)

text \<open>A replica at position \<open>p\<close> of the sequence that reads one more message in order.\<close>

lemma ReaderStep_state:
  assumes "inv m0" "inbox_ok doOp m0 C r" "sm r = replay doOp (take (nat p) C) m0" "0 \<le> p" "in_order p [msg]"
    and f: "faithful doOp snap m0 C msg"
  shows "\<exists>r' call. ReaderStep doOp snap restore bytes msg r = Some (r', call) \<and> inbox_ok doOp m0 C r' \<and>
     sm r' = replay doOp (take (nat (msgIndex msg)) C) m0 \<and> 0 \<le> msgIndex msg \<and>
     (\<forall>ix d. call = Some (ix, d) \<longrightarrow> d = snap (replay doOp (take (nat ix) C) m0))"
proof (cases "CommandValid msg")
  case True
  let ?k = "nat p" and ?op = "C ! nat p"
  from True f assms(4,5) have ix: "CommandIndex msg = p + 1" "nat (CommandIndex msg) = Suc ?k"
    and k: "?k < length C" and c: "Command msg = Some ?op"
    by (auto simp: faithful_def nat_add_distrib)
  obtain m1 v where d: "doOp (opReq ?op) (sm r) = (m1, v)" by fastforce
  have m1: "m1 = replay doOp (take (Suc ?k) C) m0" "v = snd (doOp (opReq ?op) (replay doOp (take ?k C) m0))"
    using d k by (simp_all add: replay_Suc assms(3))
  show ?thesis
    using True ix k assms(2,4) m1(1)
    by (auto simp: ReaderStep_def castOp_def c d Let_def msgIndex_def inbox_ok_def m1(2))
next
  case False
  let ?m = "replay doOp (take (nat (SnapshotIndex msg)) C) m0"
  have "restore (SnapshotData msg) (sm r) = Some ?m"
    using f False assms(1,3) by (simp add: faithful_def restore_snap replay_inv)
  then show ?thesis
    using False assms(2,4,5) by (auto simp: ReaderStep_def msgIndex_def inbox_ok_def)
qed

lemma Reader_state:
  assumes "inv m0" "inbox_ok doOp m0 C r" "sm r = replay doOp (take (nat p) C) m0" "0 \<le> p"
    and "in_order p (map snd msgs)" "\<forall>m \<in> set msgs. faithful doOp snap m0 C (snd m)"
  shows "\<exists>r' calls. Reader doOp snap restore msgs r = Some (r', calls) \<and> inbox_ok doOp m0 C r' \<and>
     sm r' = replay doOp (take (nat (if msgs = [] then p else msgIndex (snd (last msgs)))) C) m0 \<and>
     (\<forall>(ix, d) \<in> set calls. d = snap (replay doOp (take (nat ix) C) m0))"
  using assms(2-)
proof (induction msgs arbitrary: r p)
  case Nil
  then show ?case by simp
next
  case (Cons bm msgs)
  obtain b m where bm: "bm = (b, m)" by fastforce
  have m: "in_order p [m]" "faithful doOp snap m0 C m" "in_order (msgIndex m) (map snd msgs)"
    using Cons.prems(4,5) by (auto simp: bm)
  obtain r1 call where 1: "ReaderStep doOp snap restore b m r = Some (r1, call)" "inbox_ok doOp m0 C r1"
      "sm r1 = replay doOp (take (nat (msgIndex m)) C) m0" "0 \<le> msgIndex m"
      "\<And>ix d. call = Some (ix, d) \<Longrightarrow> d = snap (replay doOp (take (nat ix) C) m0)"
    using ReaderStep_state [OF assms(1) Cons.prems(1,2,3) m(1,2), of b] by blast
  obtain r2 calls where 2: "Reader doOp snap restore msgs r1 = Some (r2, calls)" "inbox_ok doOp m0 C r2"
      "sm r2 = replay doOp (take (nat (if msgs = [] then msgIndex m else msgIndex (snd (last msgs)))) C) m0"
      "\<forall>(ix, d) \<in> set calls. d = snap (replay doOp (take (nat ix) C) m0)"
    using Cons.IH [OF 1(2,3,4) m(3)] Cons.prems(5) by auto
  show ?case
    using 1(1,5) 2 by (auto simp: bm split: option.split)
qed

end

section \<open>Operation ids\<close>

lemma opId_bits:
  fixes now seq :: "64 word"
  shows "bit (push_bit 20 now OR (seq AND 0xFFFFF)) n \<longleftrightarrow>
     (if n < 20 then bit seq n else n < 64 \<and> bit now (n - 20))"
proof -
  have m: "(0xFFFFF :: 64 word) = mask 20" by (simp add: mask_eq_decr_exp)
  have "bit (0xFFFFF :: 64 word) n \<longleftrightarrow> n < 20" unfolding m by (auto simp: bit_mask_iff)
  then show ?thesis by (auto simp: bit_or_iff bit_and_iff bit_push_bit_iff dest: bit_imp_le_length)
qed

lemma take_bit_eq_bits:
  fixes a b :: "64 word"
  shows "take_bit k a = take_bit k b \<longleftrightarrow> (\<forall>n < k. bit a n = bit b n)"
proof
  assume eq: "take_bit k a = take_bit k b"
  have "bit (take_bit k a) n = bit (take_bit k b) n" for n by (simp only: eq)
  then show "\<forall>n < k. bit a n = bit b n" by (auto simp: bit_take_bit_iff)
qed (auto intro!: bit_word_eqI simp: bit_take_bit_iff)

lemma opId_eq_iff:
  fixes now now' seq seq' :: "64 word"
  shows "push_bit 20 now OR (seq AND 0xFFFFF) = push_bit 20 now' OR (seq' AND 0xFFFFF) \<longleftrightarrow>
     take_bit 44 now = take_bit 44 now' \<and> take_bit 20 seq = take_bit 20 seq'" (is "?l = ?r \<longleftrightarrow> _")
proof -
  have "?l = ?r \<longleftrightarrow> (\<forall>n < 20. bit seq n = bit seq' n) \<and> (\<forall>n < 44. bit now n = bit now' n)"
  proof
    assume eq: "?l = ?r"
    have "bit seq n = bit seq' n" if "n < 20" for n
      using arg_cong [OF eq, of "\<lambda>w. bit w n"] that by (simp only: opId_bits if_True)
    moreover have "bit now n = bit now' n" if "n < 44" for n
      using arg_cong [OF eq, of "\<lambda>w. bit w (n + 20)"] that unfolding opId_bits by simp
    ultimately show "(\<forall>n < 20. bit seq n = bit seq' n) \<and> (\<forall>n < 44. bit now n = bit now' n)" by blast
  next
    assume "(\<forall>n < 20. bit seq n = bit seq' n) \<and> (\<forall>n < 44. bit now n = bit now' n)"
    then show "?l = ?r" by (intro bit_word_eqI) (simp add: opId_bits)
  qed
  also have "\<dots> \<longleftrightarrow> take_bit 44 now = take_bit 44 now' \<and> take_bit 20 seq = take_bit 20 seq'"
    by (simp add: take_bit_eq_bits conj_commute)
  finally show ?thesis .
qed

fun opIds :: "64 word list \<Rightarrow> ('r, 'm) RSM \<Rightarrow> 64 word list" where
  "opIds [] r = []"
| "opIds (now # nows) r = (case generateOpId now r of (i, r1) \<Rightarrow> i # opIds nows r1)"

lemma opIds_nth:
  "k < length nows \<Longrightarrow> opIds nows r ! k = push_bit 20 (nows ! k) OR ((seqid r + of_nat (Suc k)) AND 0xFFFFF)"
proof (induction nows arbitrary: r k)
  case (Cons now nows)
  then show ?case by (cases k) (auto simp: generateOpId_def Let_def algebra_simps)
qed simp

lemma length_opIds [simp]: "length (opIds nows r) = length nows"
  by (induction nows arbitrary: r) (auto simp: generateOpId_def Let_def)

lemma take_bit_shift_distinct:
  fixes a :: "64 word"
  assumes "i < j" "j < i + 2 ^ 20"
  shows "take_bit 20 (a + of_nat i) \<noteq> take_bit 20 (a + of_nat j)"
proof
  assume eq: "take_bit 20 (a + of_nat i) = take_bit 20 (a + of_nat j)"
  have m: "x mod 2 ^ 64 mod 2 ^ 20 = x mod (2 ^ 20 :: nat)" for x by (rule mod_mod_cancel) (simp add: le_imp_power_dvd)
  have "unat (take_bit 20 (a + of_nat k)) = (unat a + k) mod 2 ^ 20" for k
    by (simp add: unsigned_take_bit_eq take_bit_eq_mod unat_word_ariths unat_of_nat mod_add_right_eq m [simplified])
  with eq have "(unat a + i) mod 2 ^ 20 = (unat a + j) mod 2 ^ 20" by metis
  then have "2 ^ 20 dvd (unat a + j) - (unat a + i)" using assms(1) by (metis mod_eq_dvd_iff_nat nat_add_left_cancel_le less_imp_le_nat)
  then show False using assms by (auto dest: dvd_imp_le)
qed

section \<open>Properties\<close>

text \<open>Operation ids. Whatever the clock shows, also when it stands still or jumps back, up to
  \<open>2^20\<close> consecutive calls of \<^verbatim>\<open>generateOpId\<close> on one server return different ids.\<close>

lemma opIds_unique:
  assumes "length nows \<le> 2 ^ 20"
  shows "distinct (opIds nows r)"
  unfolding distinct_conv_nth
proof (intro allI impI)
  have ne: "opIds nows r ! i \<noteq> opIds nows r ! j" if "i < j" "j < length nows" for i j
    using that take_bit_shift_distinct [of "Suc i" "Suc j" "seqid r"] assms
    by (auto simp del: of_nat_Suc simp: opIds_nth opId_eq_iff)
  fix i j
  assume "i < length (opIds nows r)" "j < length (opIds nows r)" "i \<noteq> j"
  then show "opIds nows r ! i \<noteq> opIds nows r ! j"
    using ne [of i j] ne [of j i] by (cases "i < j") auto
qed

definition exampleRSM :: "(nat, nat) RSM" where
  "exampleRSM = \<lparr>rsmMe = 0, maxraftstate = -1, sm = 0, notifyCh = {}, inbox = Map.empty, rsmDead = 0, seqid = 0\<rparr>"

text \<open>C38: the 2 second timer of \<^verbatim>\<open>Submit\<close> never expires. It is made anew in every round of the
  loop, and the ticker ends every round within 50 ms; so \<^verbatim>\<open>Submit\<close> never returns
  \<^verbatim>\<open>ErrTimeOut\<close>, however long it waits.\<close>

theorem submit_never_times_out:
  assumes "t0 \<le> now"
  shows "SubmitWait t0 now ready i term seen \<noteq> Some (ErrTimeOut, v)"
  using assms
proof (induction t0 now ready i "term" seen rule: SubmitWait.induct)
  case (2 t0 now ready i "term" rf r seen)
  have "(now - t0) mod 50 < 50" by simp
  then have tick: "nextTick t0 now \<le> now + 2000" "now \<le> nextTick t0 now"
    using 2(2) div_mult_mod_eq [of "now - t0" 50] by (simp_all add: nextTick_def)
  obtain wk now' where w: "selectWake t0 now ready = (wk, now')" by fastforce
  then have "wk \<noteq> AfterC" "t0 \<le> now'"
    using tick 2(2) by (auto simp: selectWake_def Let_def split: option.splits if_splits)
  then show ?case
    using 2(1) [OF w [symmetric] _ refl]
    by (cases wk) (auto simp: w SubmitSelect_def GetState_def split: option.splits if_splits prod.splits)
qed simp

text \<open>\<^verbatim>\<open>Kill\<close> counts and \<^verbatim>\<open>killed\<close> tests for exactly one: a second \<^verbatim>\<open>Kill\<close> would revive the layer,
  while the Raft peer below stays dead.\<close>

lemma second_kill_revives:
  assumes "rsmDead r = 0" and "RsmKill rf r = (rf1, r1)" and "RsmKill rf1 r1 = (rf2, r2)"
  shows "rsmKilled r1 \<and> \<not> rsmKilled r2 \<and> killed rf1 \<and> killed rf2"
  using assms by (auto simp: RsmKill_def rsmKilled_def Kill_def killed_def)

theorem submit_never_times_out_witness:
  "SubmitWait 0 30 None 7 2 [(examplePeer, exampleRSM), (examplePeer\<lparr>State := Follower\<rparr>, exampleRSM)] =
     Some (ErrWrongLeader, None) \<and>
   SubmitWait 0 30 None 7 2 [(examplePeer, exampleRSM), (examplePeer\<lparr>State := Follower\<rparr>, exampleRSM)] \<noteq>
     Some (ErrTimeOut, None)"
  using submit_never_times_out [of 0 30 None 7 2
      "[(examplePeer, exampleRSM), (examplePeer\<lparr>State := Follower\<rparr>, exampleRSM)]" None]
  by (auto simp: examplePeer_def exampleRSM_def selectWake_def nextTick_def SubmitSelect_def GetState_def
      rsmKilled_def Let_def)

end
