(* ===== verification/Rsm_System.thy ===== *)
theory Rsm_System
  imports Raft_Validity Rsm
begin

text \<open>
  The replicated state machine layer (\<^verbatim>\<open>src/kvraft1/rsm/rsm.go\<close>) on all servers of a Raft cluster,
  without snapshots (\<^verbatim>\<open>maxraftstate\<close> is -1). The reader of every server takes what the applier
  of its peer sends; calls of \<^verbatim>\<open>Submit\<close> register and unregister their ids at any moment, and the
  command they hand to \<^verbatim>\<open>Start\<close> is an event of the network. The layer is an instance of the
  locale \<open>apply_service\<close>, for every service.
\<close>

section \<open>The layer on every server\<close>

text \<open>What \<^verbatim>\<open>MakeRSM\<close> makes when there is no snapshot.\<close>

definition freshRSM :: "(nat \<Rightarrow> 'm) \<Rightarrow> nat \<Rightarrow> ('r, 'm) RSM" where
  "freshRSM m0 i = \<lparr>rsmMe = int i, maxraftstate = -1, sm = m0 i, notifyCh = {}, inbox = Map.empty,
                    rsmDead = 0, seqid = 0\<rparr>"

lemma MakeRSM_fresh:
  assumes "MakeRSM restore n i ps clk (-1) (m0 i) = Some (rf, r)" "ReadSnapshot ps = []"
  shows "r = freshRSM m0 i"
  using assms by (auto simp: MakeRSM_def freshRSM_def bind_Some_iff Let_def)

text \<open>The steps of a call of \<^verbatim>\<open>Submit\<close> that concern only the layer.\<close>

datatype rsmCall = Register "64 word" | Unregister "64 word"

definition register :: "64 word \<Rightarrow> ('r, 'm) RSM \<Rightarrow> ('r, 'm) RSM" where
  "register now r =
     (let (i, r1) = generateOpId now r
      in r1\<lparr>notifyCh := insert i (notifyCh r1), inbox := (inbox r1)(i := None)\<rparr>)"

definition rsmWork :: "nat \<Rightarrow> rsmCall \<Rightarrow> (nat \<Rightarrow> ('r, 'm) RSM) \<Rightarrow> nat \<Rightarrow> ('r, 'm) RSM" where
  "rsmWork i u rs = rs(i := (case u of Register now \<Rightarrow> register now (rs i) | Unregister j \<Rightarrow> unregister j (rs i)))"

text \<open>\<open>Inl\<close> is a \<^verbatim>\<open>log.Fatal\<close> of the service while it decodes a snapshot; \<^verbatim>\<open>PersistBytes\<close> is not called.\<close>

definition rsmConsume :: "('q option \<Rightarrow> 'm \<Rightarrow> 'm \<times> 'r) \<Rightarrow> ('m \<Rightarrow> 's list) \<Rightarrow> ('s list \<Rightarrow> 'm \<Rightarrow> 'm option) \<Rightarrow>
    nat \<Rightarrow> ('q Op, 's) ApplyMsg \<Rightarrow> (nat \<Rightarrow> ('r, 'm) RSM) \<Rightarrow> unit + (nat \<Rightarrow> ('r, 'm) RSM)" where
  "rsmConsume doOp snap restore i msg rs =
     (case ReaderStep doOp snap restore 0 msg (rs i) of
        None \<Rightarrow> Inl ()
      | Some (r, _) \<Rightarrow> Inr (rs(i := r)))"

definition rsmRestart :: "(nat \<Rightarrow> 'm) \<Rightarrow> nat \<Rightarrow> (nat \<Rightarrow> ('r, 'm) RSM) \<Rightarrow> nat \<Rightarrow> ('r, 'm) RSM" where
  "rsmRestart m0 i rs = rs(i := freshRSM m0 i)"

text \<open>The system: the layer on the servers of a cluster.\<close>

definition rsmRun :: "('q option \<Rightarrow> 'm \<Rightarrow> 'm \<times> 'r) \<Rightarrow> ('m \<Rightarrow> 's list) \<Rightarrow> ('s list \<Rightarrow> 'm \<Rightarrow> 'm option) \<Rightarrow> (nat \<Rightarrow> 'm) \<Rightarrow>
    ('q Op, 's, rsmCall) sysEvent list \<Rightarrow> ('q Op, 's, nat \<Rightarrow> ('r, 'm) RSM) Sys \<Rightarrow>
    (unit + ('q Op, 's, nat \<Rightarrow> ('r, 'm) RSM) Sys) option" where
  "rsmRun doOp snap restore m0 = sysRun (rsmConsume doOp snap restore) rsmWork (rsmRestart m0)"

definition rsmInit :: "(nat \<Rightarrow> 'm) \<Rightarrow> nat \<Rightarrow> ('q Op, 's, nat \<Rightarrow> ('r, 'm) RSM) Sys" where
  "rsmInit m0 n = initSys n (freshRSM m0)"

lemma case_run: "(case x of Some (Inr y) \<Rightarrow> Q y | _ \<Rightarrow> False) \<longleftrightarrow> (\<exists>y. x = Some (Inr y) \<and> Q y)"
  by (auto split: option.splits sum.splits)

text \<open>\<^verbatim>\<open>Submit\<close> is made of these steps: it registers, starts the command, and unregisters when the
  peer does not lead; its waiting loop only unregisters.\<close>

lemma SubmitBegin_steps:
  assumes "SubmitBegin now req rf r = Some (rf', r', res)" "\<not> rsmKilled r"
  shows "\<exists>ix term isLeader. Start \<lparr>opId = fst (generateOpId now r), opMe = rsmMe r, opReq = Some req\<rparr> rf =
       Some (rf', ix, term, isLeader) \<and>
     r' = (if isLeader then register now r else unregister (fst (generateOpId now r)) (register now r)) \<and>
     (isLeader \<longleftrightarrow> res = Inr (fst (generateOpId now r), term))"
  using assms by (auto simp: SubmitBegin_def register_def generateOpId_def Let_def bind_Some_iff split: if_splits)

lemma SubmitSelect_steps: "fst (SubmitSelect wk i term rf r) = r \<or> fst (SubmitSelect wk i term rf r) = unregister i r"
  by (auto simp: SubmitSelect_def GetState_def split: wake.split option.split)

section \<open>Replicas\<close>

text \<open>A replica that has executed \<open>C\<close>: its service is in the state that \<open>C\<close> leads to and the results
  it holds for waiting calls are those of operations with their ids.\<close>

definition replica :: "('q option \<Rightarrow> 'm \<Rightarrow> 'm \<times> 'r) \<Rightarrow> 'm \<Rightarrow> 'q Op list \<Rightarrow> ('r, 'm) RSM \<Rightarrow> bool" where
  "replica doOp m0 C r \<longleftrightarrow> sm r = replay doOp C m0 \<and> inbox_ok doOp m0 C r"

lemma inbox_ok_append: "inbox_ok doOp m0 C r \<Longrightarrow> inbox_ok doOp m0 (C @ D) r"
  unfolding inbox_ok_def by (force simp: nth_append)

lemma inbox_ok_insert:
  assumes "inbox_ok doOp m0 C r" "k < length C" "opId (C ! k) = orOpId res"
    "orValue res = snd (doOp (opReq (C ! k)) (replay doOp (take k C) m0))" "inbox r' = (inbox r)(orOpId res \<mapsto> res)"
  shows "inbox_ok doOp m0 C r'"
  unfolding inbox_ok_def
proof (intro allI impI)
  fix i x
  assume x: "inbox r' i = Some x"
  show "orOpId x = i \<and> (\<exists>k < length C. opId (C ! k) = i \<and> orValue x = snd (doOp (opReq (C ! k)) (replay doOp (take k C) m0)))"
  proof (cases "i = orOpId res")
    case True
    then have "x = res" using x assms(5) by simp
    then show ?thesis using True assms(2-4) by blast
  next
    case False
    then have "inbox r i = Some x" using x assms(5) by simp
    then show ?thesis using assms(1) by (simp only: inbox_ok_def)
  qed
qed

lemma replica_step:
  assumes rp: "replica doOp m0 C r" and "maxraftstate r = -1" "CommandValid msg"
  shows "\<exists>r'. ReaderStep doOp snap restore b msg r = Some (r', None) \<and> replica doOp m0 (C @ [castOp (Command msg)]) r' \<and>
     maxraftstate r' = -1"
proof -
  let ?op = "castOp (Command msg)" and ?C = "C @ [castOp (Command msg)]"
  obtain m v where d: "doOp (opReq ?op) (sm r) = (m, v)" by fastforce
  have m: "replay doOp ?C m0 = m" using d rp by (simp add: replica_def replay_append)
  have v: "snd (doOp (opReq (?C ! length C)) (replay doOp (take (length C) ?C) m0)) = v" "opId (?C ! length C) = opId ?op"
    using d rp by (simp_all add: replica_def)
  have old: "inbox_ok doOp m0 ?C r" using rp by (simp add: replica_def inbox_ok_append)
  have new: "inbox_ok doOp m0 ?C (r\<lparr>sm := m, inbox := (inbox r)(opId ?op \<mapsto> \<lparr>orValue = v, orTerm = t, orOpId = opId ?op\<rparr>),
      notifyCh := N\<rparr>)" for t N
    using v by (intro inbox_ok_insert [OF old, of "length C" "\<lparr>orValue = v, orTerm = t, orOpId = opId ?op\<rparr>"]) simp_all
  have same: "inbox_ok doOp m0 ?C (r\<lparr>sm := m\<rparr>)" using old by (simp add: inbox_ok_def)
  show ?thesis
    using assms(2,3) d m new same by (auto simp: ReaderStep_def Let_def replica_def)
qed

lemma replica_register:
  assumes "replica doOp m0 C r"
  shows "replica doOp m0 C (register now r)" "replica doOp m0 C (unregister i r)"
  using assms by (auto simp: replica_def inbox_ok_def register_def unregister_def generateOpId_def Let_def split: if_splits)

section \<open>An instance of the apply service\<close>

definition chosenList :: "(int \<Rightarrow> 'v \<Rightarrow> bool) \<Rightarrow> 'v list \<Rightarrow> bool" where
  "chosenList ch vs \<longleftrightarrow> (\<forall>k < length vs. ch (int k + 1) (vs ! k))"

definition rsm_ok :: "('q option \<Rightarrow> 'm \<Rightarrow> 'm \<times> 'r) \<Rightarrow> (nat \<Rightarrow> 'm) \<Rightarrow> nat \<Rightarrow> (nat \<Rightarrow> int) \<Rightarrow> (int \<Rightarrow> 'q Op option \<Rightarrow> bool) \<Rightarrow>
    (nat \<Rightarrow> ('r, 'm) RSM) \<Rightarrow> bool" where
  "rsm_ok doOp m0 n cnt ch rs \<longleftrightarrow> (\<forall>i < n. maxraftstate (rs i) = -1 \<and>
     (\<exists>vs. int (length vs) = cnt i \<and> chosenList ch vs \<and> replica doOp (m0 i) (map castOp vs) (rs i)))"

lemma rsm_okE:
  assumes "rsm_ok doOp m0 n cnt ch rs" "i < n"
  obtains vs where "maxraftstate (rs i) = -1" "int (length vs) = cnt i" "chosenList ch vs"
    "replica doOp (m0 i) (map castOp vs) (rs i)"
  using assms by (auto simp: rsm_ok_def)

lemma chosenList_snoc: "chosenList ch vs \<Longrightarrow> ch (int (length vs) + 1) v \<Longrightarrow> chosenList ch (vs @ [v])"
  by (auto simp: chosenList_def nth_append less_Suc_eq)

lemma rsm_ok_update:
  assumes "rsm_ok doOp m0 n cnt ch rs" "maxraftstate r = -1" "int (length vs) = c" "chosenList ch vs"
    "replica doOp (m0 i) (map castOp vs) r"
  shows "rsm_ok doOp m0 n (cnt(i := c)) ch (rs(i := r))"
  using assms unfolding rsm_ok_def by auto

lemma rsm_consumes:
  assumes ok: "rsm_ok doOp m0 n cnt ch rs" and i: "i < n"
    and m: "CommandValid m" "ch (cnt i + 1) (Command m)"
  shows "\<exists>rs'. rsmConsume doOp snap restore i m rs = Inr rs' \<and> rsm_ok doOp m0 n (cnt(i := cnt i + 1)) ch rs'"
proof -
  obtain vs where vs: "maxraftstate (rs i) = -1" "int (length vs) = cnt i" "chosenList ch vs"
      "replica doOp (m0 i) (map castOp vs) (rs i)" using ok i by (rule rsm_okE)
  obtain r where r: "ReaderStep doOp snap restore 0 m (rs i) = Some (r, None)" "maxraftstate r = -1"
      "replica doOp (m0 i) (map castOp (vs @ [Command m])) r"
    using replica_step [OF vs(4,1) m(1)] by (metis list.simps(8,9) map_append)
  have "chosenList ch (vs @ [Command m])" using vs(2,3) m(2) by (intro chosenList_snoc) simp_all
  then show ?thesis using rsm_ok_update [OF ok r(2) _ _ r(3)] r(1) vs(2) by (simp add: rsmConsume_def add.commute)
qed

lemma rsm_works:
  assumes ok: "rsm_ok doOp m0 n cnt ch rs" and i: "i < n"
  shows "rsm_ok doOp m0 n cnt ch (rsmWork i u rs)"
proof -
  obtain vs where vs: "maxraftstate (rs i) = -1" "int (length vs) = cnt i" "chosenList ch vs"
      "replica doOp (m0 i) (map castOp vs) (rs i)" using ok i by (rule rsm_okE)
  let ?r = "case u of Register now \<Rightarrow> register now (rs i) | Unregister j \<Rightarrow> unregister j (rs i)"
  have "maxraftstate ?r = -1" "replica doOp (m0 i) (map castOp vs) ?r"
    using vs(1) replica_register [OF vs(4)] by (auto simp: register_def unregister_def generateOpId_def Let_def split: rsmCall.split)
  then have "rsm_ok doOp m0 n (cnt(i := cnt i)) ch (rs(i := ?r))" by (intro rsm_ok_update [OF ok _ vs(2,3)])
  then show ?thesis by (simp add: rsmWork_def)
qed

lemma freshRSM_replica: "replica doOp (m0 i) [] (freshRSM m0 i)"
  by (simp add: replica_def freshRSM_def inbox_ok_def)

interpretation rsm_service: apply_service n "rsmConsume doOp snap restore" rsmWork "rsmRestart m0" "rsm_ok doOp m0 n"
  for n doOp snap restore m0
proof (unfold_locales, goal_cases)
  case (1 cnt ch rs ch')
  then have "chosenList ch vs \<Longrightarrow> chosenList ch' vs" for vs by (simp add: chosenList_def)
  then show ?case using 1(1) unfolding rsm_ok_def by blast
next
  case (2 cnt ch rs i m)
  then show ?case by (intro rsm_consumes)
next
  case (3 cnt ch rs i u)
  then show ?case by (rule rsm_works)
next
  case (4 cnt ch rs i)
  then show ?case
    using rsm_ok_update [OF 4(1), of "freshRSM m0 i" "[]" 0 i] freshRSM_replica [of doOp m0 i]
    by (simp add: rsmRestart_def freshRSM_def chosenList_def)
qed

section \<open>One sequence for all replicas\<close>

text \<open>Every server of \<open>y\<close> has executed a prefix of \<open>C\<close>: as long as the number of commands that it has
  received since it was started.\<close>

definition follow :: "('q option \<Rightarrow> 'm \<Rightarrow> 'm \<times> 'r) \<Rightarrow> (nat \<Rightarrow> 'm) \<Rightarrow> nat \<Rightarrow> 'q Op list \<Rightarrow>
    ('q Op, 's, nat \<Rightarrow> ('r, 'm) RSM) Sys \<Rightarrow> bool" where
  "follow doOp m0 n C y \<longleftrightarrow> (\<forall>i < n. 0 \<le> receivedBy y i \<and> receivedBy y i \<le> int (length C) \<and>
     replica doOp (m0 i) (take (nat (receivedBy y i)) C) (svc y i))"

text \<open>Under distinct ids, what a server keeps for the caller of an operation is the result of this
  operation.\<close>

lemma follow_own:
  assumes "follow doOp m0 n C x" "i < n" "inbox (svc x i) (opId op) = Some res"
    and "\<And>c. c \<in> set C \<Longrightarrow> opId c = opId op \<Longrightarrow> c = op"
  shows "\<exists>k < nat (receivedBy x i). C ! k = op \<and> orValue res = snd (doOp (opReq op) (replay doOp (take k C) (m0 i)))"
proof -
  let ?D = "take (nat (receivedBy x i)) C"
  have "inbox_ok doOp (m0 i) ?D (svc x i)" using assms(1,2) by (simp add: follow_def replica_def)
  then obtain k where "k < length ?D" "?D ! k = op" "orValue res = snd (doOp (opReq op) (replay doOp (take k ?D) (m0 i)))"
    using inbox_ok_own [of doOp "m0 i" ?D "svc x i" op res] assms(3,4) in_set_takeD by metis
  then show ?thesis by (intro exI [of _ k]) (auto simp: min.absorb1)
qed

lemma chosenList_agree:
  assumes "agreed ch" "chosenList ch vs" "chosenList ch ws" "length vs \<le> length ws"
  shows "vs = take (length vs) ws"
  using assms by (intro nth_equalityI) (auto simp: agreed_def chosenList_def)

text \<open>The longest of finitely many chosen lists.\<close>

lemma longest_chosen:
  assumes "agreed ch" and "\<And>i. i < n \<Longrightarrow> chosenList ch (L i)"
  shows "\<exists>W. chosenList ch W \<and> (\<forall>i < (n::nat). L i = take (length (L i)) W \<and> length (L i) \<le> length W)"
  using assms(2)
proof (induction n)
  case 0
  then show ?case by (intro exI [of _ "[]"]) (simp add: chosenList_def)
next
  case (Suc n)
  then obtain W where W: "chosenList ch W" "\<forall>i < n. L i = take (length (L i)) W \<and> length (L i) \<le> length W" by auto
  let ?V = "if length (L n) \<le> length W then W else L n"
  have "chosenList ch ?V" using W(1) Suc.prems by simp
  moreover have "length (L i) \<le> length ?V" if "i < Suc n" for i using W(2) that by (fastforce simp: less_Suc_eq)
  ultimately show ?case
    using chosenList_agree [OF assms(1) Suc.prems] by (intro exI [of _ ?V]) blast
qed

lemma rsm_ok_follow:
  assumes "rsm_ok doOp m0 n (receivedBy y) ch (svc y)" "rsm_ok doOp m0 n (receivedBy y') ch (svc y')" "agreed ch"
  shows "\<exists>W. chosenList ch W \<and> follow doOp m0 n (map castOp W) y \<and> follow doOp m0 n (map castOp W) y'"
proof -
  obtain L where L: "\<And>i. i < n \<Longrightarrow> int (length (L i)) = receivedBy y i \<and> chosenList ch (L i) \<and>
      replica doOp (m0 i) (map castOp (L i)) (svc y i)"
    using assms(1) unfolding rsm_ok_def by metis
  obtain L' where L': "\<And>i. i < n \<Longrightarrow> int (length (L' i)) = receivedBy y' i \<and> chosenList ch (L' i) \<and>
      replica doOp (m0 i) (map castOp (L' i)) (svc y' i)"
    using assms(2) unfolding rsm_ok_def by metis
  let ?L = "\<lambda>i. if i < n then L i else L' (i - n)"
  have "chosenList ch (?L i)" if "i < n + n" for i using L L' that by auto
  then obtain W where ch: "chosenList ch W" and W: "\<forall>i < n + n. ?L i = take (length (?L i)) W \<and> length (?L i) \<le> length W"
    using longest_chosen [OF assms(3), of "n + n" ?L] by blast
  have "L i = take (length (L i)) W \<and> length (L i) \<le> length W" if "i < n" for i using W that by (auto dest: spec [of _ i])
  moreover have "L' i = take (length (L' i)) W \<and> length (L' i) \<le> length W" if "i < n" for i
    using W [rule_format, of "n + i"] that by simp
  ultimately have "follow doOp m0 n (map castOp W) y" "follow doOp m0 n (map castOp W) y'"
    using L L' unfolding follow_def take_map
    by (metis length_map nat_int of_nat_0_le_iff of_nat_le_iff)+
  then show ?thesis using ch by blast
qed

text \<open>A run, and any continuation of it: no failure, and one sequence of operations, all of them
  submitted by clients, of which every server has executed a prefix, at both moments. What was
  executed at the first moment had been submitted before it.\<close>

lemma rsmRun_follow:
  assumes run: "rsmRun doOp snap restore m0 evs (rsmInit m0 n) = Some (Inr y)" "rsmRun doOp snap restore m0 evs' y = Some z"
    and ev: "list_all noSnapshots (evs @ evs')" "list_all (proposals P) (evs @ evs')"
    and before: "list_all (proposals Q) evs"
  shows "\<exists>y' C. z = Inr y' \<and> list_all P C \<and> follow doOp m0 n C y \<and> follow doOp m0 n C y' \<and>
     (\<forall>i < n. list_all Q (take (nat (receivedBy y i)) C))"
proof -
  have "rsm_ok doOp m0 n (\<lambda>_. 0) (\<lambda>_ _. False) (freshRSM m0)"
    using freshRSM_replica unfolding rsm_ok_def
    by (intro allI impI conjI exI [of _ "[]"]) (simp_all add: freshRSM_def chosenList_def)
  note init = rsm_service.init_service [OF this]
  note r1 = run(1) [unfolded rsmRun_def rsmInit_def] and r2 = run(2) [unfolded rsmRun_def]
  obtain H where H: "rsm_service.service_ok n doOp m0 H y"
    using rsm_service.sysRun_ok [OF init r1] ev(1) by (auto simp: rsm_service.progress_def)
  obtain y' H' where y': "z = Inr y'" "rsm_service.service_ok n doOp m0 H' y'" "reaches H (cluster y) H' (cluster y')"
    using rsm_service.sysRun_ok [OF H r2] ev(1) by (auto simp: rsm_service.progress_def)
  have "valid P (cluster y)"
    using rsm_service.sysRun_valid [OF init _ r1, of P] ev by (simp add: initSys_def init_valid)
  then have v: "valid P (cluster y')" using rsm_service.sysRun_valid [OF H _ r2 [unfolded y'(1)]] ev by simp
  have sd: "sound H' (cluster y')" using y'(2) by (simp add: rsm_service.service_ok_def sys_ok_def)
  have agreed: "agreed (chosen H' (cluster y'))" using chosen_unique [OF sd] unfolding agreed_def by blast
  moreover have "rsm_ok doOp m0 n (receivedBy y) (chosen H' (cluster y')) (svc y)"
    using H rsm_service.more_chosen chosen_reaches [OF y'(3)] unfolding rsm_service.service_ok_def by blast
  ultimately obtain W where W: "chosenList (chosen H' (cluster y')) W"
      "follow doOp m0 n (map castOp W) y" "follow doOp m0 n (map castOp W) y'"
    using rsm_ok_follow y'(2) unfolding rsm_service.service_ok_def by blast
  have "P (castOp (W ! k))" if "k < length W" for k
    using chosen_valid [OF sd v] W(1) that by (fastforce simp: chosenList_def castOp_def)
  then have "list_all P (map castOp W)" by (simp add: list_all_length)
  moreover have "list_all Q (take (nat (receivedBy y i)) (map castOp W))" if i: "i < n" for i
  proof -
    have sd1: "sound H (cluster y)" and ok: "rsm_ok doOp m0 n (receivedBy y) (chosen H (cluster y)) (svc y)"
      using H by (simp_all add: rsm_service.service_ok_def sys_ok_def)
    have v1: "valid Q (cluster y)"
      using rsm_service.sysRun_valid [OF init _ r1, of Q] ev(1) before by (simp add: initSys_def init_valid)
    from ok i obtain vs where vs: "int (length vs) = receivedBy y i" "chosenList (chosen H (cluster y)) vs"
      by (rule rsm_okE)
    have "chosenList (chosen H' (cluster y')) vs" using vs(2) chosen_reaches [OF y'(3)] by (simp add: chosenList_def)
    moreover have "int (length vs) \<le> int (length W)" unfolding vs(1) using W(2) i by (simp add: follow_def)
    then have "length vs \<le> length W" by simp
    ultimately have "vs = take (length vs) W" using chosenList_agree agreed W(1) by blast
    moreover have "list_all Q (map castOp vs)"
      using chosen_valid [OF sd1 v1] vs(2) unfolding list_all_length by (fastforce simp: chosenList_def castOp_def)
    ultimately show ?thesis using vs(1) by (metis nat_int take_map)
  qed
  ultimately show ?thesis using y'(1) W(2,3) by blast
qed

end
