(* ===== verification/Kv_Raft.thy ===== *)
theory Kv_Raft
  imports Rsm
begin

text \<open>
  The replicated key/value service: the state machine, the RPC handlers and the snapshots of
  \<^verbatim>\<open>src/kvraft1/server.go\<close>, and the clerk of \<^verbatim>\<open>src/kvraft1/client.go\<close>. Requests and replies are
  interface values: a datatype with one constructor per concrete type; \<open>None\<close>, respectively
  \<open>NilRep\<close>, is nil.
\<close>

datatype kvreq = GetReq GetArgs | PutReq PutArgs | OtherReq
datatype kvrep = GetRep GetReply | PutRep PutReply | NilRep

record KVServer =
  kvMe :: int
  kvDead :: int
  KeyVersion :: "string \<rightharpoonup> Tversion"
  KeyValue :: "string \<rightharpoonup> string"
  lastRequest :: "int \<rightharpoonup> int"
  lastReply :: "int \<rightharpoonup> kvrep"

text \<open>The empty service that \<^verbatim>\<open>StartKVServer\<close> hands to \<^verbatim>\<open>MakeRSM\<close>.\<close>

definition newKVServer :: "int \<Rightarrow> KVServer" where
  "newKVServer m = \<lparr>kvMe = m, kvDead = 0, KeyVersion = Map.empty, KeyValue = Map.empty,
                    lastRequest = Map.empty, lastReply = Map.empty\<rparr>"

definition KvKill :: "KVServer \<Rightarrow> KVServer" where
  "KvKill kv = kv\<lparr>kvDead := 1\<rparr>"

definition kvKilled :: "KVServer \<Rightarrow> bool" where
  "kvKilled kv \<longleftrightarrow> kvDead kv = 1"

text \<open>Reading a Go map: the zero value for a missing key.\<close>

definition versionAt :: "KVServer \<Rightarrow> string \<Rightarrow> Tversion" where
  "versionAt kv k = (case KeyVersion kv k of Some v \<Rightarrow> v | None \<Rightarrow> 0)"

definition replyAt :: "KVServer \<Rightarrow> int \<Rightarrow> kvrep" where
  "replyAt kv c = (case lastReply kv c of Some r \<Rightarrow> r | None \<Rightarrow> NilRep)"

definition doGet :: "GetArgs \<Rightarrow> KVServer \<Rightarrow> KVServer \<times> kvrep" where
  "doGet request kv =
     (let version = versionAt kv (getKey request)
      in case KeyValue kv (getKey request) of
           None \<Rightarrow> (kv, GetRep (zeroGetReply\<lparr>grErr := ErrNoKey\<rparr>))
         | Some val \<Rightarrow> (kv, GetRep \<lparr>grValue = val, grVersion = version, grErr = OK\<rparr>))"

definition isDuplicate :: "PutArgs \<Rightarrow> KVServer \<Rightarrow> bool" where
  "isDuplicate request kv =
     (case lastRequest kv (putClientId request) of
        Some lastSeq \<Rightarrow> putRequestId request \<le> lastSeq
      | None \<Rightarrow> False)"

definition doPut :: "PutArgs \<Rightarrow> KVServer \<Rightarrow> KVServer \<times> kvrep" where
  "doPut request kv =
     (if isDuplicate request kv then (kv, replyAt kv (putClientId request))
      else
        let key = putKey request;
            kv1 = kv\<lparr>lastRequest := (lastRequest kv)(putClientId request \<mapsto> putRequestId request)\<rparr>;
            (kv2, err) =
              (case KeyValue kv key of
                 None \<Rightarrow>
                   if putVersion request = 0
                   then (kv1\<lparr>KeyVersion := (KeyVersion kv1)(key \<mapsto> 1),
                            KeyValue := (KeyValue kv1)(key \<mapsto> putValue request)\<rparr>, OK)
                   else (kv1, ErrNoKey)
               | Some _ \<Rightarrow>
                   let version = versionAt kv1 key
                   in if version = putVersion request
                      then (kv1\<lparr>KeyVersion := (KeyVersion kv1)(key \<mapsto> version + 1),
                               KeyValue := (KeyValue kv1)(key \<mapsto> putValue request)\<rparr>, OK)
                      else (kv1, ErrVersion));
            reply = PutRep \<lparr>prErr = err\<rparr>
        in (kv2\<lparr>lastRequest := (lastRequest kv2)(putClientId request \<mapsto> putRequestId request),
                lastReply := (lastReply kv2)(putClientId request \<mapsto> reply)\<rparr>, reply))"

definition DoOp :: "kvreq option \<Rightarrow> KVServer \<Rightarrow> KVServer \<times> kvrep" where
  "DoOp req kv =
     (case req of
        Some (GetReq request) \<Rightarrow> doGet request kv
      | Some (PutReq request) \<Rightarrow> doPut request kv
      | _ \<Rightarrow> (kv, NilRep))"

text \<open>The values that \<^verbatim>\<open>Snapshot\<close> encodes, one per map.\<close>

datatype kvgob =
    GVersions "string \<rightharpoonup> Tversion" | GValues "string \<rightharpoonup> string"
  | GRequests "int \<rightharpoonup> int" | GReplies "int \<rightharpoonup> kvrep"

definition Snapshot :: "KVServer \<Rightarrow> kvgob list" where
  "Snapshot kv = [GVersions (KeyVersion kv), GValues (KeyValue kv), GRequests (lastRequest kv), GReplies (lastReply kv)]"

text \<open>\<^verbatim>\<open>log.Fatal\<close> when a value is missing or of another type.\<close>

fun Restore :: "kvgob list \<Rightarrow> KVServer \<Rightarrow> KVServer option" where
  "Restore (GVersions kver # GValues kval # GRequests lreq # GReplies lrep # _) kv =
     Some (kv\<lparr>KeyVersion := kver, KeyValue := kval, lastRequest := lreq, lastReply := lrep\<rparr>)"
| "Restore _ kv = None"

definition StartKVServer :: "nat \<Rightarrow> nat \<Rightarrow> (kvreq Op gobval, kvgob) Persister \<Rightarrow> clock \<Rightarrow> int \<Rightarrow>
    ((kvreq Op, kvgob) Raft \<times> (kvrep, KVServer) RSM) option" where
  "StartKVServer n m ps clk maxstate = MakeRSM Restore n m ps clk maxstate (newKVServer (int m))"

text \<open>The RPC handlers, given what \<^verbatim>\<open>Submit\<close> returned.\<close>

definition KVGet :: "Err \<times> kvrep option \<Rightarrow> GetReply" where
  "KVGet submitted =
     (case submitted of (rsmErr, res) \<Rightarrow>
        if rsmErr \<noteq> OK then zeroGetReply\<lparr>grErr := rsmErr\<rparr>
        else case res of Some (GetRep opReply) \<Rightarrow> opReply | _ \<Rightarrow> zeroGetReply\<lparr>grErr := ErrMaybe\<rparr>)"

definition KVPut :: "Err \<times> kvrep option \<Rightarrow> PutReply" where
  "KVPut submitted =
     (case submitted of (rsmErr, res) \<Rightarrow>
        if rsmErr \<noteq> OK then \<lparr>prErr = rsmErr\<rparr>
        else case res of Some (PutRep opReply) \<Rightarrow> opReply | _ \<Rightarrow> \<lparr>prErr = ErrMaybe\<rparr>)"

section \<open>The clerk\<close>

record Clerk =
  servers :: nat
  leaderId :: nat
  clientId :: int
  requestId :: int

definition MakeClerk :: "nat \<Rightarrow> int \<Rightarrow> Clerk" where
  "MakeClerk n nrand = \<lparr>servers = n, leaderId = 0, clientId = nrand, requestId = 0\<rparr>"

text \<open>The retry loops. \<open>answer k s\<close> is the outcome of the \<open>k\<close>-th attempt, made at server \<open>s\<close>:
  \<open>None\<close> for a failed call. The first argument bounds the number of attempts; \<open>None\<close> as the
  result: still trying.\<close>

fun getLoop :: "nat \<Rightarrow> (nat \<Rightarrow> nat \<Rightarrow> GetReply option) \<Rightarrow> nat \<Rightarrow> nat \<Rightarrow> nat \<Rightarrow> (nat \<times> GetReply) option" where
  "getLoop 0 answer k n serverId = None"
| "getLoop (Suc fuel) answer k n serverId =
     (case answer k serverId of
        None \<Rightarrow> getLoop fuel answer (Suc k) n ((serverId + 1) mod n)
      | Some reply \<Rightarrow>
          if grErr reply = ErrTimeOut \<or> grErr reply = ErrWrongLeader
          then getLoop fuel answer (Suc k) n ((serverId + 1) mod n)
          else Some (serverId, reply))"

fun putLoop :: "nat \<Rightarrow> (nat \<Rightarrow> nat \<Rightarrow> PutReply option) \<Rightarrow> nat \<Rightarrow> nat \<Rightarrow> nat \<Rightarrow> (nat \<times> PutReply) option" where
  "putLoop 0 answer k n serverId = None"
| "putLoop (Suc fuel) answer k n serverId =
     (case answer k serverId of
        Some reply \<Rightarrow>
          if prErr reply = ErrWrongLeader \<or> prErr reply = ErrTimeOut
          then putLoop fuel answer (Suc k) n ((serverId + 1) mod n)
          else Some (serverId, reply)
      | None \<Rightarrow> putLoop fuel answer (Suc k) n ((serverId + 1) mod n))"

definition ClerkGet :: "nat \<Rightarrow> string \<Rightarrow> (GetArgs \<Rightarrow> nat \<Rightarrow> nat \<Rightarrow> GetReply option) \<Rightarrow> Clerk \<Rightarrow>
    (Clerk \<times> string \<times> Tversion \<times> Err) option" where
  "ClerkGet fuel key answer ck =
     (let args = \<lparr>getKey = key, getClientId = clientId ck, getRequestId = requestId ck\<rparr>;
          ck1 = ck\<lparr>requestId := requestId ck + 1\<rparr>
      in case getLoop fuel (answer args) 0 (servers ck1) (leaderId ck1) of
           None \<Rightarrow> None
         | Some (serverId, reply) \<Rightarrow>
             Some (ck1\<lparr>leaderId := serverId\<rparr>, grValue reply, grVersion reply, grErr reply))"

definition ClerkPut :: "nat \<Rightarrow> string \<Rightarrow> string \<Rightarrow> Tversion \<Rightarrow> (PutArgs \<Rightarrow> nat \<Rightarrow> nat \<Rightarrow> PutReply option) \<Rightarrow> Clerk \<Rightarrow>
    (Clerk \<times> Err) option" where
  "ClerkPut fuel key val version answer ck =
     (let args = \<lparr>putKey = key, putValue = val, putVersion = version, putClientId = clientId ck,
                  putRequestId = requestId ck\<rparr>;
          ck1 = ck\<lparr>requestId := requestId ck + 1\<rparr>
      in case putLoop fuel (answer args) 0 (servers ck1) (leaderId ck1) of
           None \<Rightarrow> None
         | Some (serverId, reply) \<Rightarrow> Some (ck1\<lparr>leaderId := serverId\<rparr>, prErr reply))"

section \<open>The service is a versioned store\<close>

definition kvr_wf :: "KVServer \<Rightarrow> bool" where
  "kvr_wf kv \<longleftrightarrow> dom (KeyVersion kv) = dom (KeyValue kv) \<and> dom (lastReply kv) = dom (lastRequest kv)"

definition kvr_content :: "KVServer \<Rightarrow> vmap" where
  "kvr_content kv k = map_option (\<lambda>v. (v, versionAt kv k)) (KeyValue kv k)"

lemma kvr_versionAt: "kvr_wf kv \<Longrightarrow> KeyValue kv k = Some v \<Longrightarrow> KeyVersion kv k = Some (versionAt kv k)"
  unfolding kvr_wf_def versionAt_def by (metis domIff option.case_eq_if option.collapse option.distinct(1))

lemma doGet_spec: "doGet a kv = (kv, GetRep (spec_get (getKey a) (kvr_content kv)))"
  by (simp add: doGet_def spec_get_def kvr_content_def Let_def split: option.split)

lemma doPut_fresh:
  assumes "\<not> isDuplicate a kv"
  shows "kvr_content (fst (doPut a kv)) = fst (spec_put (putKey a) (putValue a) (putVersion a) (kvr_content kv))"
    and "snd (doPut a kv) = PutRep \<lparr>prErr = snd (spec_put (putKey a) (putValue a) (putVersion a) (kvr_content kv))\<rparr>"
    and "lastRequest (fst (doPut a kv)) = (lastRequest kv)(putClientId a \<mapsto> putRequestId a)"
    and "lastReply (fst (doPut a kv)) = (lastReply kv)(putClientId a \<mapsto> snd (doPut a kv))"
    and "kvr_wf kv \<Longrightarrow> kvr_wf (fst (doPut a kv))"
  using assms
  by (auto simp: doPut_def spec_put_def kvr_content_def kvr_wf_def versionAt_def Let_def fun_eq_iff split: option.splits if_splits)

lemma doPut_duplicate: "isDuplicate a kv \<Longrightarrow> doPut a kv = (kv, replyAt kv (putClientId a))"
  by (simp add: doPut_def)

lemma DoOp_wf: "kvr_wf kv \<Longrightarrow> kvr_wf (fst (DoOp q kv))"
  by (cases "case q of Some (PutReq a) \<Rightarrow> isDuplicate a kv | _ \<Rightarrow> False")
    (auto simp: DoOp_def doGet_spec doPut_duplicate doPut_fresh(5) split: option.splits kvreq.splits)

text \<open>A put under the next request id of a client.\<close>

definition nextId :: "int \<Rightarrow> KVServer \<Rightarrow> int" where
  "nextId c kv = (case lastRequest kv c of None \<Rightarrow> 0 | Some n \<Rightarrow> n + 1)"

definition get_req :: "string \<Rightarrow> KVServer \<Rightarrow> GetReply" where
  "get_req k kv =
     (case DoOp (Some (GetReq \<lparr>getKey = k, getClientId = 0, getRequestId = 0\<rparr>)) kv of (_, rep) \<Rightarrow> KVGet (OK, Some rep))"

definition put_req :: "string \<Rightarrow> string \<Rightarrow> Tversion \<Rightarrow> KVServer \<Rightarrow> KVServer \<times> Err" where
  "put_req k v n kv =
     (case DoOp (Some (PutReq \<lparr>putKey = k, putValue = v, putVersion = n, putClientId = 0,
                               putRequestId = nextId 0 kv\<rparr>)) kv of
        (kv', rep) \<Rightarrow> (kv', prErr (KVPut (OK, Some rep))))"

lemma nextId_fresh: "\<not> isDuplicate \<lparr>putKey = k, putValue = v, putVersion = n, putClientId = c, putRequestId = nextId c kv\<rparr> kv"
  by (simp add: isDuplicate_def nextId_def split: option.split)

interpretation kvraft: versioned_store get_req put_req kvr_content kvr_wf
  using doPut_fresh [OF nextId_fresh]
  by unfold_locales (simp_all add: get_req_def put_req_def DoOp_def doGet_spec KVGet_def KVPut_def case_prod_beta)

lemma DoOp_identity: "kvMe (fst (DoOp q kv)) = kvMe kv" "kvDead (fst (DoOp q kv)) = kvDead kv"
  by (auto simp: DoOp_def doGet_spec doPut_def Let_def split: option.split kvreq.split)

text \<open>Snapshots hold the tables and not the identity of the server they were taken on: the
  contract of the state machine layer is met for the live service of each server.\<close>

interpretation kvsm: state_machine DoOp Snapshot Restore "\<lambda>kv. kvMe kv = m \<and> kvDead kv = 0" for m
  by unfold_locales (simp_all add: Snapshot_def DoOp_identity)

section \<open>Every request takes effect at most once\<close>

fun runOps :: "kvreq list \<Rightarrow> KVServer \<Rightarrow> KVServer" where
  "runOps [] kv = kv"
| "runOps (q # qs) kv = runOps qs (fst (DoOp (Some q) kv))"

text \<open>The puts of a log that are not duplicates, given the requests seen before.\<close>

fun freshPuts :: "(int \<rightharpoonup> int) \<Rightarrow> kvreq list \<Rightarrow> PutArgs list" where
  "freshPuts seen [] = []"
| "freshPuts seen (PutReq a # qs) =
     (if (case seen (putClientId a) of Some n \<Rightarrow> putRequestId a \<le> n | None \<Rightarrow> False) then freshPuts seen qs
      else a # freshPuts (seen(putClientId a \<mapsto> putRequestId a)) qs)"
| "freshPuts seen (_ # qs) = freshPuts seen qs"

definition applyPut :: "vmap \<Rightarrow> PutArgs \<Rightarrow> vmap" where
  "applyPut m a = fst (spec_put (putKey a) (putValue a) (putVersion a) m)"

lemma runOps_content: "kvr_content (runOps qs kv) = foldl applyPut (kvr_content kv) (freshPuts (lastRequest kv) qs)"
proof (induction qs arbitrary: kv)
  case (Cons q qs)
  show ?case
  proof (cases q)
    case (PutReq a)
    show ?thesis
    proof (cases "isDuplicate a kv")
      case True
      then show ?thesis using Cons [of kv] PutReq by (simp add: DoOp_def doPut_duplicate) (simp add: isDuplicate_def)
    next
      case False
      have "kvr_content (fst (doPut a kv)) = applyPut (kvr_content kv) a"
        by (simp add: doPut_fresh(1) [OF False] applyPut_def)
      moreover have "\<not> (case lastRequest kv (putClientId a) of Some n \<Rightarrow> putRequestId a \<le> n | None \<Rightarrow> False)"
        using False by (simp add: isDuplicate_def)
      ultimately show ?thesis by (simp add: PutReq DoOp_def Cons doPut_fresh(3) [OF False] del: fun_upd_apply)
    qed
  qed (use Cons in \<open>simp_all add: DoOp_def doGet_spec\<close>)
qed simp

lemma freshPuts_later:
  "b \<in> set (freshPuts seen qs) \<Longrightarrow> seen (putClientId b) = Some n \<Longrightarrow> n < putRequestId b"
proof (induction seen qs arbitrary: n rule: freshPuts.induct)
  case (2 seen a qs)
  then show ?case
    by (cases "putClientId a = putClientId b") (fastforce split: if_splits option.splits)+
qed auto

lemma freshPuts_distinct: "distinct (map (\<lambda>a. (putClientId a, putRequestId a)) (freshPuts seen qs))"
proof (induction seen qs rule: freshPuts.induct)
  case (2 seen a qs)
  have "(putClientId b, putRequestId b) \<noteq> (putClientId a, putRequestId a)"
    if "b \<in> set (freshPuts (seen(putClientId a \<mapsto> putRequestId a)) qs)" for b
    using freshPuts_later [OF that, of "putRequestId a"] by auto
  then have "(putClientId a, putRequestId a) \<notin>
      (\<lambda>a. (putClientId a, putRequestId a)) ` set (freshPuts (seen(putClientId a \<mapsto> putRequestId a)) qs)"
    by fastforce
  then show ?case using 2 by (simp del: fun_upd_apply)
qed auto

text \<open>A client that waits for its request: until it issues a newer one, its entry in the
  duplicate table stays.\<close>

definition waits :: "PutArgs \<Rightarrow> kvreq \<Rightarrow> bool" where
  "waits a q = (case q of PutReq b \<Rightarrow> putClientId b = putClientId a \<longrightarrow> putRequestId b \<le> putRequestId a | _ \<Rightarrow> True)"

lemma runOps_table:
  assumes "isDuplicate a kv" "list_all (waits a) qs"
  shows "isDuplicate a (runOps qs kv) \<and> replyAt (runOps qs kv) (putClientId a) = replyAt kv (putClientId a)"
  using assms
proof (induction qs arbitrary: kv)
  case (Cons q qs)
  let ?kv = "fst (DoOp (Some q) kv)"
  have "isDuplicate a ?kv \<and> replyAt ?kv (putClientId a) = replyAt kv (putClientId a)"
  proof (cases q)
    case (PutReq b)
    show ?thesis
    proof (cases "isDuplicate b kv")
      case True
      then show ?thesis using Cons.prems(1) PutReq by (simp add: DoOp_def doPut_duplicate)
    next
      case False
      then have "putClientId b \<noteq> putClientId a"
        using Cons.prems PutReq by (auto simp: isDuplicate_def waits_def split: option.splits)
      then show ?thesis
        using Cons.prems(1) doPut_fresh(3,4) [OF False] PutReq by (simp add: DoOp_def isDuplicate_def replyAt_def)
    qed
  qed (use Cons.prems(1) in \<open>simp_all add: DoOp_def doGet_spec\<close>)
  then show ?case using Cons.IH [of ?kv] Cons.prems(2) by simp
qed simp

lemma doPut_recorded:
  "isDuplicate a (fst (doPut a kv)) \<and> replyAt (fst (doPut a kv)) (putClientId a) = snd (doPut a kv)"
proof (cases "isDuplicate a kv")
  case True
  then show ?thesis by (simp add: doPut_duplicate)
next
  case False
  then show ?thesis using doPut_fresh(3,4) [OF False] by (simp add: isDuplicate_def replyAt_def)
qed

section \<open>Properties\<close>

text \<open>Retries are harmless. When a put has been executed, executing it again later, after any
  requests of other clients and any older requests of the same client, changes nothing and
  returns the reply of the first execution.\<close>

lemma retried_put_same_reply:
  assumes "list_all (waits a) qs"
  shows "case DoOp (Some (PutReq a)) kv of (kv1, reply) \<Rightarrow>
     DoOp (Some (PutReq a)) (runOps qs kv1) = (runOps qs kv1, reply)"
  using runOps_table [OF doPut_recorded [THEN conjunct1] assms, of kv] doPut_recorded [of a kv]
  by (simp add: DoOp_def case_prod_beta doPut_duplicate)

definition examplePut :: PutArgs where
  "examplePut = \<lparr>putKey = ''k'', putValue = ''v'', putVersion = 0, putClientId = 5, putRequestId = 1\<rparr>"

text \<open>C11: exactly-once execution. The content of the store after any log of requests, with any
  number of retries at any positions, is what the puts that are not retries produce one after
  the other on the abstract map, and no request of a client is among them twice.\<close>

theorem requests_take_effect_once:
  "kvr_content (runOps qs kv) = foldl applyPut (kvr_content kv) (freshPuts (lastRequest kv) qs) \<and>
   distinct (map (\<lambda>a. (putClientId a, putRequestId a)) (freshPuts (lastRequest kv) qs))"
  using runOps_content freshPuts_distinct by blast

text \<open>C12: replicas agree. A replica that reads messages in order which say the truth about one
  committed sequence of operations, some of it as snapshots, is in the state that executing
  the sequence up to its position leads to, and every snapshot it hands to Raft is one of the
  sequence. If the ids in the sequence are distinct, what a \<^verbatim>\<open>Submit\<close> call receives is the reply of
  the operation with its id at the place of this operation in the sequence. The messages may
  begin after a snapshot from which the service was restored.\<close>

theorem kv_replica_state:
  assumes "sm r = replay DoOp (take p C) (newKVServer m)" and "inbox r = Map.empty"
    and "in_order (int p) (map snd msgs)" and "list_all (\<lambda>b. faithful DoOp Snapshot (newKVServer m) C (snd b)) msgs"
  shows "\<exists>r' calls. Reader DoOp Snapshot Restore msgs r = Some (r', calls) \<and>
     sm r' = replay DoOp (take (nat (if msgs = [] then int p else msgIndex (snd (last msgs)))) C) (newKVServer m) \<and>
     (distinct (map opId C) \<longrightarrow> (\<forall>k < length C. \<forall>res. inbox r' (opId (C ! k)) = Some res \<longrightarrow>
        orValue res = snd (DoOp (opReq (C ! k)) (replay DoOp (take k C) (newKVServer m))))) \<and>
     (\<forall>(ix, d) \<in> set calls. d = Snapshot (replay DoOp (take (nat ix) C) (newKVServer m)))"
proof -
  have "inbox_ok DoOp (newKVServer m) C r" using assms(2) by (simp add: inbox_ok_def)
  then obtain r' calls where "Reader DoOp Snapshot Restore msgs r = Some (r', calls)" and ok: "inbox_ok DoOp (newKVServer m) C r'"
      and "sm r' = replay DoOp (take (nat (if msgs = [] then int p else msgIndex (snd (last msgs)))) C) (newKVServer m)"
      "\<forall>(ix, d) \<in> set calls. d = Snapshot (replay DoOp (take (nat ix) C) (newKVServer m))"
    using kvsm.Reader_state [of "newKVServer m" m C r "int p" msgs] assms by (auto simp: list_all_iff newKVServer_def)
  then show ?thesis using inbox_ok_at [OF ok] by blast
qed

definition exampleOp :: "kvreq Op" where
  "exampleOp = \<lparr>opId = 9, opMe = 0, opReq = Some (PutReq examplePut)\<rparr>"

theorem kv_replica_state_witness:
  "\<exists>r' calls. Reader DoOp Snapshot Restore
       [(0, zeroApplyMsg\<lparr>CommandValid := True, Command := Some exampleOp, CommandIndex := 1\<rparr>)]
       \<lparr>rsmMe = 0, maxraftstate = -1, sm = newKVServer 0, notifyCh = {9}, inbox = Map.empty, rsmDead = 0, seqid = 0\<rparr>
         = Some (r', calls) \<and>
     sm r' = replay DoOp [exampleOp] (newKVServer 0) \<and>
     (\<forall>res. inbox r' 9 = Some res \<longrightarrow> orValue res = snd (DoOp (Some (PutReq examplePut)) (newKVServer 0)))"
  using kv_replica_state [of "\<lparr>rsmMe = 0, maxraftstate = -1, sm = newKVServer 0, notifyCh = {9}, inbox = Map.empty,
        rsmDead = 0, seqid = 0\<rparr>" 0 "[exampleOp]" 0
      "[(0, zeroApplyMsg\<lparr>CommandValid := True, Command := Some exampleOp, CommandIndex := 1\<rparr>)]"]
  by (auto simp: zeroApplyMsg_def faithful_def msgIndex_def exampleOp_def)

text \<open>A server that starts is where its stored snapshot was taken.\<close>

lemma StartKVServer_restores:
  assumes "StartKVServer n i ps clk maxstate = Some (rf, r)"
    and "ReadSnapshot ps = (if p = 0 then [] else Snapshot (replay DoOp (take p C) (newKVServer m)))"
  shows "sm r = (replay DoOp (take p C) (newKVServer m))\<lparr>kvMe := int i, kvDead := 0\<rparr> \<and> inbox r = Map.empty"
proof (cases "p = 0")
  case True
  then show ?thesis using assms by (auto simp: StartKVServer_def MakeRSM_def newKVServer_def split: bind_splits)
next
  case False
  then have "ReadSnapshot ps \<noteq> []" using assms(2) kvsm.snap_nonempty by simp
  then show ?thesis
    using False assms by (auto simp: StartKVServer_def MakeRSM_def newKVServer_def Snapshot_def split: bind_splits)
qed

text \<open>Snapshots lose nothing: restoring a snapshot gives back all four tables, the duplicate
  table included, whatever the restored server held before; a buffer that does not hold the
  four maps in order is refused.\<close>

lemma kv_snapshot_roundtrip:
  "Restore (Snapshot kv) kv' = Some (kv\<lparr>kvMe := kvMe kv', kvDead := kvDead kv'\<rparr>) \<and>
   (Restore data kv' = None \<or> (\<exists>a b c d rest. data = GVersions a # GValues b # GRequests c # GReplies d # rest))"
  by (cases "(data, kv')" rule: Restore.cases) (auto simp: Snapshot_def)

text \<open>How many servers after \<open>s\<close> the clerk comes to \<open>L\<close>.\<close>

definition distance :: "nat \<Rightarrow> nat \<Rightarrow> nat \<Rightarrow> nat" where
  "distance n L s = (if s \<le> L then L - s else L + n - s)"

lemma distance_next: "s < n \<Longrightarrow> L < n \<Longrightarrow> s \<noteq> L \<Longrightarrow> distance n L s = Suc (distance n L ((s + 1) mod n)) \<and> (s + 1) mod n < n"
  by (cases "s + 1 = n") (auto simp: distance_def)

definition retryable :: "Err \<Rightarrow> bool" where
  "retryable e \<longleftrightarrow> e = ErrTimeOut \<or> e = ErrWrongLeader"

lemma putLoop_finds:
  assumes "s < n" "L < n" "distance n L s < fuel"
    and "\<And>k s'. s' \<noteq> L \<Longrightarrow> case answer k s' of None \<Rightarrow> True | Some r \<Rightarrow> retryable (prErr r)"
    and "answer (k + distance n L s) L = Some reply" "\<not> retryable (prErr reply)"
  shows "putLoop fuel answer k n s = Some (L, reply)"
  using assms(1,3,5)
proof (induction fuel arbitrary: k s)
  case (Suc fuel)
  show ?case
  proof (cases "s = L")
    case True
    then show ?thesis using Suc.prems(3) assms(6) by (auto simp: distance_def retryable_def)
  next
    case False
    note next_s = distance_next [OF Suc.prems(1) assms(2) False]
    have "putLoop fuel answer (Suc k) n ((s + 1) mod n) = Some (L, reply)"
      using Suc.IH [of "(s + 1) mod n" "Suc k"] next_s Suc.prems by simp
    moreover have "case answer k s of None \<Rightarrow> True | Some r \<Rightarrow> retryable (prErr r)" using assms(4) [OF False] .
    ultimately show ?thesis by (auto simp: retryable_def split: option.splits)
  qed
qed simp

text \<open>The clerk finds the leader. If one server gives a definite answer and the others fail,
  time out or are not the leader, a put needs at most as many attempts as there are servers,
  returns the leader's answer, remembers the leader and never uses its request id again.\<close>

lemma clerk_finds_leader:
  assumes "leaderId ck < servers ck" and "L < servers ck"
    and "\<And>args k s. s \<noteq> L \<Longrightarrow> case answer args k s of None \<Rightarrow> True | Some r \<Rightarrow> retryable (prErr r)"
    and "\<And>args k. answer args k L = Some \<lparr>prErr = e\<rparr>" and "\<not> retryable e"
  shows "ClerkPut (servers ck) key val version answer ck =
     Some (ck\<lparr>requestId := requestId ck + 1, leaderId := L\<rparr>, e)"
proof -
  have "distance (servers ck) L (leaderId ck) < servers ck" using assms(1,2) by (auto simp: distance_def)
  from putLoop_finds [OF assms(1,2) this, of "answer _" 0 "\<lparr>prErr = e\<rparr>"] assms(3-5)
  show ?thesis by (simp add: ClerkPut_def Let_def)
qed

end
