(* ===== verification/Kv_System.thy ===== *)
theory Kv_System
  imports Rsm_System Kv_Raft
begin

text \<open>
  The replicated key/value store as a whole: \<^verbatim>\<open>src/kvraft1/server.go\<close> on the state machine layer
  \<^verbatim>\<open>src/kvraft1/rsm/rsm.go\<close> on the Raft peers of \<^verbatim>\<open>src/raft1/raft.go\<close>, over a network that loses,
  delays, reorders and duplicates messages, with crashes and restarts, and without snapshots.
  It refines the versioned map \<open>Kv_Store\<close>.
\<close>

text \<open>The service of each server before its first operation.\<close>

definition kvStart :: "nat \<Rightarrow> KVServer" where
  "kvStart i = newKVServer (int i)"

lemma StartKVServer_fresh:
  assumes "StartKVServer n i ps clk (-1) = Some (rf, r)" "ReadSnapshot ps = []"
  shows "r = freshRSM kvStart i"
  using MakeRSM_fresh [of Restore n i ps clk kvStart rf r] assms by (simp add: StartKVServer_def kvStart_def)

definition requests :: "kvreq Op list \<Rightarrow> kvreq list" where
  "requests C = List.map_filter opReq C"

lemma replay_runOps: "replay DoOp C kv = runOps (requests C) kv"
  by (induction C arbitrary: kv) (auto simp: requests_def List.map_filter_def DoOp_def split: option.split)

text \<open>The effect of a sequence of operations on the empty versioned map: its puts, each request of
  a client once.\<close>

definition storeAfter :: "kvreq Op list \<Rightarrow> vmap" where
  "storeAfter C = foldl applyPut Map.empty (freshPuts Map.empty (requests C))"

lemma kvStart_empty: "kvr_content (kvStart i) = Map.empty" "lastRequest (kvStart i) = Map.empty"
  by (simp_all add: kvStart_def newKVServer_def kvr_content_def fun_eq_iff)

lemma replica_content: "replica DoOp (kvStart i) C r \<Longrightarrow> kvr_content (sm r) = storeAfter C"
  by (simp add: replica_def replay_runOps runOps_content storeAfter_def kvStart_empty)

text \<open>C5: the replicated store refines the versioned map. Take any run without snapshots, with any
  losses, delays, duplications, crashes and restarts, and any continuation of it. No reader
  fails, and there is one sequence \<open>C\<close> of operations, each of which was given to \<^verbatim>\<open>Start\<close>, such
  that at both moments every server has executed a prefix of \<open>C\<close>: its content is the versioned
  map after the puts of that prefix, each request once. If no two of the operations given to
  \<^verbatim>\<open>Start\<close> have the same id, every result that waits for the caller of an operation is the result
  of this very operation at a place of it in \<open>C\<close>. The order of \<open>C\<close> respects real time: what a server has executed at the first moment had been given to \<^verbatim>\<open>Start\<close>
  before it, so an operation that is submitted later has its place after everything that has
  been executed, and answered, by then.\<close>

theorem kv_cluster_refines_store:
  assumes "rsmRun DoOp Snapshot Restore kvStart evs (rsmInit kvStart n) = Some (Inr y)"
    and "rsmRun DoOp Snapshot Restore kvStart evs' y = Some z"
    and "list_all noSnapshots (evs @ evs')"
  shows "\<exists>y' C. z = Inr y' \<and> (\<forall>op \<in> set C. \<exists>j. Net (ClientStart j op) \<in> set (evs @ evs')) \<and>
     (\<forall>i < n. \<forall>op \<in> set (take (nat (receivedBy y i)) C). \<exists>j. Net (ClientStart j op) \<in> set evs) \<and>
     (\<forall>x \<in> {y, y'}. \<forall>i < n. 0 \<le> receivedBy x i \<and> receivedBy x i \<le> int (length C) \<and>
        kvr_content (sm (svc x i)) = storeAfter (take (nat (receivedBy x i)) C) \<and>
        (inj_on opId {op. \<exists>j. Net (ClientStart j op) \<in> set (evs @ evs')} \<longrightarrow>
           (\<forall>j op res. Net (ClientStart j op) \<in> set (evs @ evs') \<and> inbox (svc x i) (opId op) = Some res \<longrightarrow>
              (\<exists>k < nat (receivedBy x i). C ! k = op \<and>
                 orValue res = snd (DoOp (opReq op) (replay DoOp (take k C) (kvStart i)))))))"
proof -
  let ?P = "\<lambda>op. \<exists>j. Net (ClientStart j op) \<in> set (evs @ evs')"
  let ?Q = "\<lambda>op. \<exists>j. Net (ClientStart j op) \<in> set evs"
  have "list_all (proposals ?P) (evs @ evs')" "list_all (proposals ?Q) evs"
    unfolding list_all_iff by (auto simp: proposals_def proposes_def split: sysEvent.split event.split)
  then obtain y' C where C: "z = Inr y'" "list_all ?P C" "follow DoOp kvStart n C y" "follow DoOp kvStart n C y'"
    "\<forall>i < n. list_all ?Q (take (nat (receivedBy y i)) C)"
    using rsmRun_follow [OF assms, of ?P ?Q] by blast
  have "0 \<le> receivedBy x i \<and> receivedBy x i \<le> int (length C) \<and>
        kvr_content (sm (svc x i)) = storeAfter (take (nat (receivedBy x i)) C)" if "follow DoOp kvStart n C x" "i < n" for x i
    using that replica_content by (auto simp: follow_def replica_def)
  moreover have "\<exists>k < nat (receivedBy x i). C ! k = op \<and> orValue res = snd (DoOp (opReq op) (replay DoOp (take k C) (kvStart i)))"
    if "follow DoOp kvStart n C x" "i < n" "inj_on opId {op. ?P op}" "?P op" "inbox (svc x i) (opId op) = Some res" for x i op res
    using follow_own [OF that(1,2,5)] C(2) that(3,4) by (auto simp: list_all_iff inj_on_def)
  ultimately have "0 \<le> receivedBy x i \<and> receivedBy x i \<le> int (length C) \<and>
        kvr_content (sm (svc x i)) = storeAfter (take (nat (receivedBy x i)) C) \<and>
        (inj_on opId {op. ?P op} \<longrightarrow>
           (\<forall>j op res. Net (ClientStart j op) \<in> set (evs @ evs') \<and> inbox (svc x i) (opId op) = Some res \<longrightarrow>
              (\<exists>k < nat (receivedBy x i). C ! k = op \<and>
                 orValue res = snd (DoOp (opReq op) (replay DoOp (take k C) (kvStart i))))))"
    if "follow DoOp kvStart n C x" "i < n" for x i
    using that by blast
  then show ?thesis using C by (intro exI [of _ y'] exI [of _ C]) (simp only: list_all_iff, blast)
qed

definition exampleOp :: "kvreq Op" where
  "exampleOp = \<lparr>opId = 7, opMe = 0, opReq = Some (PutReq \<lparr>putKey = ''k'', putValue = ''v'', putVersion = 0,
                                                          putClientId = 1, putRequestId = 0\<rparr>)\<rparr>"

definition kvEvents :: "(kvreq Op, kvgob, rsmCall) sysEvent list" where
  "kvEvents =
     map Net [Elect 0 (1, 1), DeliverVote 0 1 (1, 1), HandleVote 0 1 True, ClientStart 0 exampleOp,
              SendTo 0 1, DeliverAppend 0 (2, 2), HandleAppend 0 True] @ [ApplierStep 0, Receive 0]"

definition kvMore :: "(kvreq Op, kvgob, rsmCall) sysEvent list" where
  "kvMore = [Net (Crash 0 (5, 5)), Local 0 (Register 3)]"

lemma kvEvents_run:
  "case rsmRun DoOp Snapshot Restore kvStart kvEvents (rsmInit kvStart 3) of
     Some (Inr y) \<Rightarrow> receivedBy y 0 = 1 \<and>
       (case rsmRun DoOp Snapshot Restore kvStart kvMore y of Some (Inr y') \<Rightarrow> receivedBy y' 0 = 0 | _ \<Rightarrow> False)
   | _ \<Rightarrow> False"
  by code_simp

theorem kv_cluster_refines_store_witness:
  "\<exists>y y' op. rsmRun DoOp Snapshot Restore kvStart kvEvents (rsmInit kvStart 3) = Some (Inr y) \<and>
     rsmRun DoOp Snapshot Restore kvStart kvMore y = Some (Inr y') \<and>
     kvr_content (sm (svc y 0)) = storeAfter [op] \<and> kvr_content (sm (svc y' 0)) = storeAfter []"
proof -
  obtain y y' where y: "rsmRun DoOp Snapshot Restore kvStart kvEvents (rsmInit kvStart 3) = Some (Inr y)" "receivedBy y 0 = 1"
      "rsmRun DoOp Snapshot Restore kvStart kvMore y = Some (Inr y')" "receivedBy y' 0 = 0"
    using kvEvents_run unfolding case_run by blast
  have "list_all noSnapshots (kvEvents @ kvMore)" by code_simp
  from kv_cluster_refines_store [OF y(1,3) this] obtain C where
    "\<forall>x \<in> {y, y'}. \<forall>i < 3. 0 \<le> receivedBy x i \<and> receivedBy x i \<le> int (length C) \<and>
        kvr_content (sm (svc x i)) = storeAfter (take (nat (receivedBy x i)) C)" by blast
  then have "1 \<le> length C" "kvr_content (sm (svc y 0)) = storeAfter (take 1 C)" "kvr_content (sm (svc y' 0)) = storeAfter []"
    using y(2,4) by force+
  moreover from this(1) have "take 1 C = [hd C]" by (cases C) simp_all
  ultimately show ?thesis using y(1,3) by metis
qed

end
