(* ===== verification/Kv_Clients.thy ===== *)
theory Kv_Clients
  imports Kv_Oplog Kv_System
begin

text \<open>
  Clients of the replicated key/value store on a whole cluster: \<^verbatim>\<open>Get\<close> and \<^verbatim>\<open>Put\<close> of the test
  library (\<^verbatim>\<open>src/kvtest1/porcupine.go\<close>) call the clerk of \<^verbatim>\<open>src/kvraft1/client.go\<close>, whose RPCs run
  the handlers of \<^verbatim>\<open>src/kvraft1/server.go\<close>; these submit to the state machine layer of their server
  (\<open>Kv_System\<close>). Every function that waits is cut where it waits: a handler registers and
  starts its command, wakes up in its \<^verbatim>\<open>select\<close>, and answers; a clerk issues a call and goes on
  when the call has returned. Requests may be handled late or never, also after the clerk has
  given up on them, and replies may be lost.
\<close>

section \<open>Remote calls\<close>

type_synonym kvSys = "(kvreq Op, kvgob, nat \<Rightarrow> (kvrep, KVServer) RSM) Sys"

text \<open>A call is on its way, its handler waits in \<^verbatim>\<open>Submit\<close> for an operation of a term, it has an
  answer, or its handler has ended with its server.\<close>

datatype rpcState = OnWay | InSubmit "64 word" int | Answered kvrep | Ended

text \<open>\<open>rpcOp\<close> is the operation that \<^verbatim>\<open>Submit\<close> has made for the request.\<close>

record KvRpc =
  rpcTo :: nat
  rpcReq :: kvreq
  rpcSt :: rpcState
  rpcOp :: "kvreq Op option"

text \<open>A call of a clerk: its request, the server it tries, the remote call it waits for, and when
  the test library started its clock.\<close>

record ClerkCall =
  ccReq :: kvreq
  ccServer :: nat
  ccRpc :: "nat option"
  ccStart :: int

record KvTest =
  kSys :: kvSys
  kRpcs :: "KvRpc list"
  kClerks :: "int \<Rightarrow> Clerk"
  kCalls :: "int \<rightharpoonup> ClerkCall"
  kClock :: int
  kOps :: int
  kLog :: OpLog

text \<open>Clerk \<open>c\<close> gets the random client id \<open>ids c\<close>.\<close>

definition kvTestInit :: "nat \<Rightarrow> (int \<Rightarrow> int) \<Rightarrow> KvTest" where
  "kvTestInit n ids = \<lparr>kSys = rsmInit kvStart n, kRpcs = [], kClerks = (\<lambda>c. MakeClerk n (ids c)),
                       kCalls = Map.empty, kClock = 0, kOps = 0, kLog = []\<rparr>"

section \<open>The handlers\<close>

definition handlerReply :: "kvreq \<Rightarrow> Err \<times> kvrep option \<Rightarrow> kvrep" where
  "handlerReply req submitted =
     (case req of GetReq _ \<Rightarrow> GetRep (KVGet submitted) | PutReq _ \<Rightarrow> PutRep (KVPut submitted) | OtherReq \<Rightarrow> NilRep)"

text \<open>The operation that \<^verbatim>\<open>Submit\<close> makes.\<close>

definition submitOp :: "64 word \<Rightarrow> kvreq \<Rightarrow> (kvrep, KVServer) RSM \<Rightarrow> kvreq Op" where
  "submitOp now req r = \<lparr>opId = fst (generateOpId now r), opMe = rsmMe r, opReq = Some req\<rparr>"

text \<open>A server takes up a request: \<^verbatim>\<open>Submit\<close> up to its waiting loop. While the mutex of the peer is
  locked for good, it does not get there.\<close>

definition handleRpc :: "nat \<Rightarrow> 64 word \<Rightarrow> KvTest \<Rightarrow> KvTest option" where
  "handleRpc k now s =
     (let c = kRpcs s ! k; i = rpcTo c; y = kSys s; r = svc y i
      in if k < length (kRpcs s) \<and> rpcSt c = OnWay \<and> active i (cluster y)
         then do {
           (rf, r1, res) \<leftarrow> SubmitBegin now (rpcReq c) (nodes (cluster y) i) r;
           let st = (case res of Inl err \<Rightarrow> Answered (handlerReply (rpcReq c) (err, None)) | Inr (ix, term) \<Rightarrow> InSubmit ix term);
           Some (s\<lparr>kSys := y\<lparr>cluster := setNode i rf (cluster y), svc := (svc y)(i := r1)\<rparr>,
                   kRpcs := (kRpcs s)[k := c\<lparr>rpcSt := st, rpcOp := (if rsmKilled r then None else Some (submitOp now (rpcReq c) r))\<rparr>]\<rparr>)
         }
         else Some s)"

text \<open>One round of the waiting loop of \<^verbatim>\<open>Submit\<close>; when it returns, so does the handler.\<close>

definition wakeRpc :: "nat \<Rightarrow> wake \<Rightarrow> KvTest \<Rightarrow> KvTest" where
  "wakeRpc k wk s =
     (let c = kRpcs s ! k; i = rpcTo c; y = kSys s
      in case rpcSt c of
           InSubmit ix term \<Rightarrow>
             if k < length (kRpcs s)
             then let (r, res) = SubmitSelect wk ix term (nodes (cluster y) i) (svc y i);
                      st = (case res of None \<Rightarrow> rpcSt c | Some submitted \<Rightarrow> Answered (handlerReply (rpcReq c) submitted))
                  in s\<lparr>kSys := y\<lparr>svc := (svc y)(i := r)\<rparr>, kRpcs := (kRpcs s)[k := c\<lparr>rpcSt := st\<rparr>]\<rparr>
             else s
         | _ \<Rightarrow> s)"

section \<open>The clerk\<close>

text \<open>What the loops of the clerk do with the outcome of a call: try the next server, or return.\<close>

definition afterCall :: "nat \<Rightarrow> nat \<Rightarrow> kvrep option \<Rightarrow> nat + kvrep" where
  "afterCall n serverId answer =
     (case answer of
        Some (GetRep reply) \<Rightarrow>
          if grErr reply = ErrTimeOut \<or> grErr reply = ErrWrongLeader then Inl ((serverId + 1) mod n)
          else Inr (GetRep reply)
      | Some (PutRep reply) \<Rightarrow>
          if prErr reply = ErrWrongLeader \<or> prErr reply = ErrTimeOut then Inl ((serverId + 1) mod n)
          else Inr (PutRep reply)
      | _ \<Rightarrow> Inl ((serverId + 1) mod n))"

lemma getLoop_afterCall:
  "getLoop (Suc fuel) answer k n s =
     (case afterCall n s (map_option GetRep (answer k s)) of
        Inl s' \<Rightarrow> getLoop fuel answer (Suc k) n s'
      | Inr rep \<Rightarrow> Some (s, case rep of GetRep reply \<Rightarrow> reply))"
  by (simp add: afterCall_def split: option.split)

lemma putLoop_afterCall:
  "putLoop (Suc fuel) answer k n s =
     (case afterCall n s (map_option PutRep (answer k s)) of
        Inl s' \<Rightarrow> putLoop fuel answer (Suc k) n s'
      | Inr rep \<Rightarrow> Some (s, case rep of PutRep reply \<Rightarrow> reply))"
  by (simp add: afterCall_def split: option.split)

text \<open>The test library and the clerk up to the loop.\<close>

definition beginCall :: "int \<Rightarrow> kvreq \<Rightarrow> KvTest \<Rightarrow> KvTest" where
  "beginCall c req s =
     s\<lparr>kClerks := (kClerks s)(c := (kClerks s c)\<lparr>requestId := requestId (kClerks s c) + 1\<rparr>),
       kCalls := (kCalls s)(c \<mapsto> \<lparr>ccReq = req, ccServer = leaderId (kClerks s c), ccRpc = None, ccStart = kClock s\<rparr>)\<rparr>"

definition beginGetK :: "int \<Rightarrow> string \<Rightarrow> KvTest \<Rightarrow> KvTest" where
  "beginGetK c key s =
     (let ck = kClerks s c
      in beginCall c (GetReq \<lparr>getKey = key, getClientId = clientId ck, getRequestId = requestId ck\<rparr>) s)"

definition beginPutK :: "int \<Rightarrow> string \<Rightarrow> string \<Rightarrow> Tversion \<Rightarrow> KvTest \<Rightarrow> KvTest" where
  "beginPutK c key val version s =
     (let ck = kClerks s c
      in beginCall c (PutReq \<lparr>putKey = key, putValue = val, putVersion = version, putClientId = clientId ck,
                              putRequestId = requestId ck\<rparr>) s)"

text \<open>The loop calls the server that it tries.\<close>

definition sendRpc :: "int \<Rightarrow> KvTest \<Rightarrow> KvTest" where
  "sendRpc c s =
     (case kCalls s c of
        Some call \<Rightarrow>
          if ccRpc call = None
          then s\<lparr>kRpcs := kRpcs s @ [\<lparr>rpcTo = ccServer call, rpcReq = ccReq call, rpcSt = OnWay, rpcOp = None\<rparr>],
                 kCalls := (kCalls s)(c \<mapsto> call\<lparr>ccRpc := Some (length (kRpcs s))\<rparr>)\<rparr>
          else s
      | None \<Rightarrow> s)"

text \<open>The clerk has returned: the test library logs the operation.\<close>

definition logEntry :: "int \<Rightarrow> kvreq \<Rightarrow> int \<Rightarrow> int \<Rightarrow> kvrep \<Rightarrow> Operation list" where
  "logEntry c req start stop rep =
     (case (req, rep) of
        (GetReq a, GetRep r) \<Rightarrow> [getOp c (getKey a) start stop r]
      | (PutReq a, PutRep r) \<Rightarrow> [putOp c (putKey a) (putValue a) (putVersion a) start stop (prErr r)]
      | _ \<Rightarrow> [])"

definition finishCall :: "int \<Rightarrow> ClerkCall \<Rightarrow> kvrep \<Rightarrow> KvTest \<Rightarrow> KvTest" where
  "finishCall c call rep s =
     s\<lparr>kClerks := (kClerks s)(c := (kClerks s c)\<lparr>leaderId := ccServer call\<rparr>), kCalls := (kCalls s)(c := None),
       kOps := kOps s + 1, kLog := kLog s @ logEntry c (ccReq call) (ccStart call) (kClock s) rep\<rparr>"

text \<open>The remote call returns to the clerk: true and with the answer, if there is one, or false.\<close>

definition returnRpc :: "int \<Rightarrow> bool \<Rightarrow> KvTest \<Rightarrow> KvTest" where
  "returnRpc c okay s =
     (case kCalls s c of
        Some call \<Rightarrow>
          (case ccRpc call of
             Some k \<Rightarrow>
               let answer = (case rpcSt (kRpcs s ! k) of Answered rep \<Rightarrow> if okay then Some rep else None | _ \<Rightarrow> None)
               in (case afterCall (servers (kClerks s c)) (ccServer call) answer of
                     Inl next_s \<Rightarrow> s\<lparr>kCalls := (kCalls s)(c \<mapsto> call\<lparr>ccServer := next_s, ccRpc := None\<rparr>)\<rparr>
                   | Inr rep \<Rightarrow> finishCall c call rep s)
           | None \<Rightarrow> s)
      | None \<Rightarrow> s)"

section \<open>Runs\<close>

datatype kvEvent =
    Cluster "(kvreq Op, kvgob, rsmCall) sysEvent"
  | BeginGet int string
  | BeginPut int string string Tversion
  | SendRpc int
  | HandleRpc nat "64 word"
  | WakeRpc nat wake
  | ReturnRpc int bool
  | Tick nat

text \<open>What the cluster does by itself: commands are started, and ids registered, by handlers only.\<close>

definition ownEvent :: "(kvreq Op, kvgob, rsmCall) sysEvent \<Rightarrow> bool" where
  "ownEvent ev = (case ev of Net (ClientStart _ _) \<Rightarrow> False | Local _ _ \<Rightarrow> False | _ \<Rightarrow> True)"

text \<open>The handlers on a server end with it.\<close>

definition endHandlers :: "(kvreq Op, kvgob, rsmCall) sysEvent \<Rightarrow> KvRpc list \<Rightarrow> KvRpc list" where
  "endHandlers ev rpcs =
     (case ev of
        Net (Crash i _) \<Rightarrow>
          map (\<lambda>c. case rpcSt c of InSubmit _ _ \<Rightarrow> if rpcTo c = i then c\<lparr>rpcSt := Ended\<rparr> else c | _ \<Rightarrow> c) rpcs
      | _ \<Rightarrow> rpcs)"

definition clusterStep :: "(kvreq Op, kvgob, rsmCall) sysEvent \<Rightarrow> KvTest \<Rightarrow> KvTest option" where
  "clusterStep ev s =
     (if ownEvent ev
      then (case sysStep (rsmConsume DoOp Snapshot Restore) rsmWork (rsmRestart kvStart) ev (kSys s) of
              Some (Inr y) \<Rightarrow> Some (s\<lparr>kSys := y, kRpcs := endHandlers ev (kRpcs s)\<rparr>)
            | _ \<Rightarrow> None)
      else Some s)"

definition kvTestStep :: "kvEvent \<Rightarrow> KvTest \<Rightarrow> KvTest option" where
  "kvTestStep ev s =
     (case ev of
        Cluster e \<Rightarrow> clusterStep e s
      | BeginGet c key \<Rightarrow> Some (if kCalls s c = None then beginGetK c key s else s)
      | BeginPut c key val version \<Rightarrow> Some (if kCalls s c = None then beginPutK c key val version s else s)
      | SendRpc c \<Rightarrow> Some (sendRpc c s)
      | HandleRpc k now \<Rightarrow> handleRpc k now s
      | WakeRpc k wk \<Rightarrow> Some (wakeRpc k wk s)
      | ReturnRpc c okay \<Rightarrow> Some (returnRpc c okay s)
      | Tick d \<Rightarrow> Some (s\<lparr>kClock := kClock s + int d\<rparr>))"

fun kvTestRun :: "kvEvent list \<Rightarrow> KvTest \<Rightarrow> KvTest option" where
  "kvTestRun [] s = Some s"
| "kvTestRun (ev # evs) s = do { s1 \<leftarrow> kvTestStep ev s; kvTestRun evs s1 }"

definition withoutSnapshots :: "kvEvent \<Rightarrow> bool" where
  "withoutSnapshots ev = (case ev of Cluster e \<Rightarrow> noSnapshots e | _ \<Rightarrow> True)"

text \<open>The operations that were submitted, in the order of their calls.\<close>

definition submitted :: "KvRpc list \<Rightarrow> kvreq Op list" where
  "submitted rpcs = List.map_filter rpcOp rpcs"

end
