(* ===== verification/Kv_Order.thy ===== *)
theory Kv_Order
  imports Kv_Clients
begin

text \<open>
  One sequence of operations of the replicated store and a history that it explains: where in
  the sequence each operation of the history takes effect, and that this order is a
  linearization. The next theory shows that every run has such a sequence.
\<close>

section \<open>Executing a sequence\<close>

text \<open>The state after the first \<open>m\<close> operations; replies and contents do not depend on the server.\<close>

definition stateAt :: "kvreq Op list \<Rightarrow> nat \<Rightarrow> KVServer" where
  "stateAt C m = replay DoOp (take m C) (newKVServer 0)"

lemma DoOp_anywhere: "DoOp q (kv\<lparr>kvMe := i\<rparr>) = ((fst (DoOp q kv))\<lparr>kvMe := i\<rparr>, snd (DoOp q kv))"
  by (auto simp: DoOp_def doGet_def doPut_def isDuplicate_def versionAt_def replyAt_def Let_def
      split: option.split kvreq.split)

lemma replay_anywhere: "replay DoOp C (kv\<lparr>kvMe := i\<rparr>) = (replay DoOp C kv)\<lparr>kvMe := i\<rparr>"
  by (induction C arbitrary: kv) (simp_all add: DoOp_anywhere)

lemma replay_kvStart: "replay DoOp C (kvStart i) = (replay DoOp C (newKVServer 0))\<lparr>kvMe := int i\<rparr>"
  using replay_anywhere [where kv = "newKVServer 0" and i = "int i"] by (simp add: kvStart_def newKVServer_def)

lemma stateAt_0: "stateAt C 0 = newKVServer 0"
  by (simp add: stateAt_def)

lemma stateAt_Suc: "m < length C \<Longrightarrow> stateAt C (Suc m) = fst (DoOp (opReq (C ! m)) (stateAt C m))"
  by (simp add: stateAt_def replay_Suc)

lemma stateAt_between:
  assumes "a \<le> b" "b \<le> length C"
  shows "stateAt C b = replay DoOp (take (b - a) (drop a C)) (stateAt C a)"
proof -
  have "take b C = take a C @ take (b - a) (drop a C)" using assms by (simp add: take_add [symmetric])
  then show ?thesis by (simp add: stateAt_def replay_append)
qed

text \<open>The table of duplicates after a prefix: what it holds was executed, and what was executed
  it knows.\<close>

lemma lastRequest_executed:
  assumes "lastRequest (stateAt C m) c = Some q" "m \<le> length C"
  shows "\<exists>p < m. \<exists>b. opReq (C ! p) = Some (PutReq b) \<and> putClientId b = c \<and> putRequestId b = q"
  using assms
proof (induction m)
  case 0
  then show ?case by (simp add: stateAt_0 newKVServer_def)
next
  case (Suc m)
  show ?case
  proof (cases "lastRequest (stateAt C m) c = Some q")
    case True
    then show ?thesis using Suc by (meson Suc_leD less_Suc_eq)
  next
    case False
    then have "\<exists>b. opReq (C ! m) = Some (PutReq b) \<and> \<not> isDuplicate b (stateAt C m)"
      using Suc.prems by (cases "opReq (C ! m)") (auto simp: stateAt_Suc DoOp_def doGet_spec doPut_duplicate split: kvreq.splits)
    then obtain b where b: "opReq (C ! m) = Some (PutReq b)" "\<not> isDuplicate b (stateAt C m)" by blast
    then show ?thesis
      using Suc.prems False doPut_fresh(3) [OF b(2)] by (auto simp: stateAt_Suc DoOp_def split: if_splits)
  qed
qed

lemma isDuplicate_step: "isDuplicate a kv \<Longrightarrow> isDuplicate a (fst (DoOp q kv))"
proof (cases "\<exists>b. q = Some (PutReq b) \<and> \<not> isDuplicate b kv")
  case True
  then obtain b where b: "q = Some (PutReq b)" "\<not> isDuplicate b kv" by blast
  assume "isDuplicate a kv"
  then show ?thesis
    using b(2) doPut_fresh(3) [OF b(2)] by (auto simp: b(1) DoOp_def isDuplicate_def split: option.splits)
qed (auto simp: DoOp_def doGet_spec doPut_duplicate split: option.split kvreq.split)

lemma executed_isDuplicate:
  assumes "p < m" "m \<le> length C" "opReq (C ! p) = Some (PutReq a)"
  shows "isDuplicate a (stateAt C m)"
  using assms(1,2)
proof (induction m)
  case (Suc m)
  show ?case
  proof (cases "p = m")
    case True
    then show ?thesis using Suc.prems assms(3) doPut_recorded [of a] by (simp add: stateAt_Suc DoOp_def)
  next
    case False
    then show ?thesis using Suc isDuplicate_step by (simp add: stateAt_Suc)
  qed
qed simp

text \<open>A put that is executed again gets the reply of its first execution, as long as its client has
  not moved on.\<close>

lemma repeated_put_reply:
  assumes "f \<le> p" "p < length C" "opReq (C ! f) = Some (PutReq a)" "opReq (C ! p) = Some (PutReq a)"
    and "\<And>q b. q \<le> p \<Longrightarrow> opReq (C ! q) = Some (PutReq b) \<Longrightarrow> waits a (PutReq b)"
  shows "snd (DoOp (Some (PutReq a)) (stateAt C p)) = snd (DoOp (Some (PutReq a)) (stateAt C f))"
proof (cases "f = p")
  case False
  let ?D = "take (p - Suc f) (drop (Suc f) C)" let ?kv = "fst (DoOp (Some (PutReq a)) (stateAt C f))"
  have "list_all (waits a) (requests ?D)"
  proof -
    have "waits a q" if op: "op \<in> set ?D" and q: "opReq op = Some q" for op q
    proof -
      obtain j where j: "j < length ?D" "?D ! j = op" using op by (auto simp: in_set_conv_nth)
      then have "C ! (Suc f + j) = op" "Suc f + j \<le> p" by auto
      then show ?thesis using assms(5) [of "Suc f + j"] q by (cases q) (auto simp: waits_def)
    qed
    then show ?thesis by (auto simp: requests_def list_all_iff List.map_filter_def)
  qed
  from retried_put_same_reply [OF this, of "stateAt C f"]
  have "snd (DoOp (Some (PutReq a)) (runOps (requests ?D) ?kv)) = snd (DoOp (Some (PutReq a)) (stateAt C f))"
    by (simp add: case_prod_beta)
  moreover have "stateAt C p = runOps (requests ?D) ?kv"
    using stateAt_between [of "Suc f" p C] False assms(1-3) by (simp add: replay_runOps stateAt_Suc)
  ultimately show ?thesis by simp
qed simp

section \<open>Histories\<close>

text \<open>How an operation of the log came about: its request, the operations executed before the one
  that was answered, that one, and how many remote calls had been made when it returned.\<close>

record Done =
  dReq :: kvreq
  dBefore :: "kvreq Op list"
  dOp :: "kvreq Op"
  dCalls :: nat

definition reqKey :: "kvreq \<Rightarrow> int \<times> int" where
  "reqKey req = (case req of GetReq a \<Rightarrow> (getClientId a, getRequestId a) | PutReq a \<Rightarrow> (putClientId a, putRequestId a)
                 | OtherReq \<Rightarrow> (0, 0))"

definition resultOf :: "kvreq \<Rightarrow> kvreq Op list \<Rightarrow> kvrep" where
  "resultOf req before = handlerReply req (OK, Some (snd (DoOp (Some req) (replay DoOp before (newKVServer 0)))))"

definition called :: "KvRpc list \<Rightarrow> Done \<Rightarrow> kvreq set" where
  "called rpcs d = rpcReq ` set (take (dCalls d) rpcs)"

definition explained :: "KvRpc list \<Rightarrow> Operation \<Rightarrow> Done \<Rightarrow> bool" where
  "explained rpcs opn d \<longleftrightarrow> (\<exists>c start stop. logEntry c (dReq d) start stop (resultOf (dReq d) (dBefore d)) = [opn]) \<and>
     opReq (dOp d) = Some (dReq d) \<and> set (dBefore d @ [dOp d]) \<subseteq> set (submitted (take (dCalls d) rpcs))"

text \<open>Real time, and the order of the requests of one client.\<close>

definition precedes :: "Operation \<times> Done \<Rightarrow> int \<times> kvreq \<Rightarrow> bool" where
  "precedes a b \<longleftrightarrow> opReturn (snd (fst a)) < fst b \<or>
     fst (reqKey (dReq (snd a))) = fst (reqKey (snd b)) \<and> snd (reqKey (dReq (snd a))) < snd (reqKey (snd b))"

definition history :: "KvRpc list \<Rightarrow> (Operation \<times> Done) list \<Rightarrow> bool" where
  "history rpcs LD \<longleftrightarrow> (\<forall>(opn, d) \<in> set LD. explained rpcs opn d) \<and> distinct (map (\<lambda>x. reqKey (dReq (snd x))) LD) \<and>
     (\<forall>c \<in> set rpcs. \<forall>op. rpcOp c = Some op \<longrightarrow> opReq op = Some (rpcReq c)) \<and>
     (\<forall>a \<in> set LD. \<forall>b \<in> set LD. precedes a (opCall (snd (fst b)), dReq (snd b)) \<longrightarrow> dReq (snd b) \<notin> called rpcs (snd a))"

text \<open>The sequence has all of it.\<close>

definition covers :: "kvreq Op list \<Rightarrow> (Operation \<times> Done) list \<Rightarrow> bool" where
  "covers C LD \<longleftrightarrow> (\<forall>(opn, d) \<in> set LD. dBefore d @ [dOp d] = take (Suc (length (dBefore d))) C \<and> length (dBefore d) < length C) \<and>
     (\<forall>op \<in> set C. opReq op \<in> (\<lambda>x. Some (dReq (snd x))) ` set LD)"

text \<open>Where an operation takes effect: a get where it was answered, a put where it was executed
  first.\<close>

definition point :: "kvreq Op list \<Rightarrow> Done \<Rightarrow> nat" where
  "point C d = (case dReq d of PutReq a \<Rightarrow> (LEAST k. opReq (C ! k) = Some (PutReq a)) | _ \<Rightarrow> length (dBefore d))"

lemma coversD:
  assumes "covers C LD" "(opn, d) \<in> set LD"
  shows "dBefore d = take (length (dBefore d)) C" "C ! length (dBefore d) = dOp d" "length (dBefore d) < length C"
proof -
  have e: "dBefore d @ [dOp d] = take (Suc (length (dBefore d))) C" and l: "length (dBefore d) < length C"
    using assms unfolding covers_def by auto
  then have "dBefore d @ [dOp d] = take (length (dBefore d)) C @ [C ! length (dBefore d)]" by (simp add: take_Suc_conv_app_nth)
  then show "dBefore d = take (length (dBefore d)) C" "C ! length (dBefore d) = dOp d" by simp_all
  show "length (dBefore d) < length C" by (rule l)
qed

lemma covers_req:
  assumes "covers C LD" "m < length C" "opReq (C ! m) = Some req"
  obtains opn d where "(opn, d) \<in> set LD" "dReq d = req"
proof -
  have "\<forall>op \<in> set C. opReq op \<in> (\<lambda>x. Some (dReq (snd x))) ` set LD" using assms(1) unfolding covers_def by (rule conjunct2)
  from bspec [OF this nth_mem [OF assms(2)]] show ?thesis using assms(3) that by auto
qed

lemma historyD:
  assumes "history rpcs LD" "(opn, d) \<in> set LD"
  shows "explained rpcs opn d" "opReq (dOp d) = Some (dReq d)"
  using assms by (auto simp: history_def explained_def)

text \<open>The request at a position up to the answer had been called before the return.\<close>

lemma executed_called:
  assumes h: "history rpcs LD" "covers C LD" "(opn, d) \<in> set LD" and m: "m \<le> length (dBefore d)" "opReq (C ! m) = Some req"
  shows "req \<in> called rpcs d"
proof -
  have "dBefore d @ [dOp d] = take (Suc (length (dBefore d))) C" "length (dBefore d) < length C"
    using h(2,3) unfolding covers_def by auto
  then have "C ! m \<in> set (dBefore d @ [dOp d])" using m(1) by (simp only: in_set_conv_nth) (auto intro!: exI [of _ m])
  then have "C ! m \<in> set (submitted (take (dCalls d) rpcs))" using historyD(1) [OF h(1,3)] by (auto simp: explained_def)
  then obtain c where c: "c \<in> set (take (dCalls d) rpcs)" "rpcOp c = Some (C ! m)"
    by (auto simp: submitted_def List.map_filter_def)
  then have "opReq (C ! m) = Some (rpcReq c)" using h(1) by (auto simp: history_def dest: in_set_takeD)
  then show ?thesis using c(1) m(2) by (auto simp: called_def)
qed

lemma point_spec:
  assumes h: "history rpcs LD" "covers C LD" "(opn, d) \<in> set LD"
  shows "point C d \<le> length (dBefore d)" "opReq (C ! point C d) = Some (dReq d)" "point C d < length C"
proof -
  have at: "opReq (C ! length (dBefore d)) = Some (dReq d)" using coversD(2) [OF h(2,3)] historyD(2) [OF h(1,3)] by simp
  show "point C d \<le> length (dBefore d)" using at by (auto simp: point_def intro: Least_le split: kvreq.split)
  then show "point C d < length C" using coversD(3) [OF h(2,3)] by simp
  show "opReq (C ! point C d) = Some (dReq d)"
    using at LeastI [of "\<lambda>k. opReq (C ! k) = Some (dReq d)"] by (auto simp: point_def split: kvreq.split)
qed

lemma request_unique:
  assumes "history rpcs LD" "x \<in> set LD" "y \<in> set LD" "reqKey (dReq (snd x)) = reqKey (dReq (snd y))"
  shows "x = y"
proof -
  have "inj_on (\<lambda>x. reqKey (dReq (snd x))) (set LD)" using assms(1) by (simp add: history_def distinct_map)
  from inj_onD [OF this assms(4,2,3)] show ?thesis .
qed

lemma not_called:
  assumes "history rpcs LD" "(o1, d1) \<in> set LD" "(o2, d2) \<in> set LD" "precedes (o1, d1) (opCall (snd o2), dReq d2)"
  shows "dReq d2 \<notin> called rpcs d1"
proof -
  have "\<forall>a \<in> set LD. \<forall>b \<in> set LD. precedes a (opCall (snd (fst b)), dReq (snd b)) \<longrightarrow> dReq (snd b) \<notin> called rpcs (snd a)"
    using assms(1) by (simp add: history_def)
  from this [rule_format, OF assms(2,3)] show ?thesis using assms(4) by simp
qed

text \<open>What precedes an operation takes effect before it.\<close>

lemma point_order:
  assumes h: "history rpcs LD" "covers C LD" and x: "(o1, d1) \<in> set LD" "(o2, d2) \<in> set LD"
    and p: "precedes (o1, d1) (opCall (snd o2), dReq d2)"
  shows "length (dBefore d1) < point C d2"
proof (rule ccontr)
  assume "\<not> length (dBefore d1) < point C d2"
  then have "dReq d2 \<in> called rpcs d1"
    using executed_called [OF h x(1), of "point C d2"] point_spec(2) [OF h x(2)] by simp
  then show False using not_called [OF h(1) x p] by simp
qed

text \<open>Up to its answer no newer request of the client was executed.\<close>

lemma client_waits:
  assumes h: "history rpcs LD" "covers C LD" "(opn, d) \<in> set LD" and a: "dReq d = PutReq a"
    and m: "m \<le> length (dBefore d)" "opReq (C ! m) = Some (PutReq b)"
  shows "waits a (PutReq b)"
proof (rule ccontr)
  assume w: "\<not> waits a (PutReq b)"
  have "m < length C" using m(1) coversD(3) [OF h(2,3)] by simp
  from h(2) this m(2) obtain o2 d2 where d2: "(o2, d2) \<in> set LD" "dReq d2 = PutReq b" by (rule covers_req)
  have "precedes (opn, d) (opCall (snd o2), dReq d2)" using w by (auto simp: precedes_def a d2(2) waits_def reqKey_def)
  then show False using not_called [OF h(1,3) d2(1)] executed_called [OF h m] d2(2) by simp
qed

text \<open>Where a put takes effect it is new to the table, and its reply is the one of that execution.\<close>

lemma point_new:
  assumes h: "history rpcs LD" "covers C LD" "(opn, d) \<in> set LD" and a: "dReq d = PutReq a"
  shows "\<not> isDuplicate a (stateAt C (point C d))"
proof
  let ?m = "point C d"
  assume "isDuplicate a (stateAt C ?m)"
  then obtain q where q: "lastRequest (stateAt C ?m) (putClientId a) = Some q" "putRequestId a \<le> q"
    by (auto simp: isDuplicate_def split: option.splits)
  from lastRequest_executed [OF q(1)] point_spec(3) [OF h] obtain p b where
    b: "p < ?m" "opReq (C ! p) = Some (PutReq b)" "putClientId b = putClientId a" "putRequestId b = q" by auto
  have p: "p \<le> length (dBefore d)" "p < length C" using b(1) point_spec(1,3) [OF h] by auto
  from h(2) p(2) b(2) obtain o2 d2 where d2: "(o2, d2) \<in> set LD" "dReq d2 = PutReq b" by (rule covers_req)
  have "q = putRequestId a" using client_waits [OF h a p(1) b(2)] b(3,4) q(2) by (simp add: waits_def)
  then have "reqKey (dReq d2) = reqKey (dReq d)" using b(3,4) by (simp add: a d2(2) reqKey_def)
  then have "PutReq b = PutReq a" using request_unique [OF h(1) d2(1) h(3)] a d2(2) by auto
  then have "?m \<le> p" using b(2) a by (auto simp: point_def intro: Least_le)
  then show False using b(1) by simp
qed

lemma effect_at:
  assumes h: "history rpcs LD" "covers C LD" "(opn, d) \<in> set LD"
  shows "\<exists>c start stop. logEntry c (dReq d) start stop
     (handlerReply (dReq d) (OK, Some (snd (DoOp (Some (dReq d)) (stateAt C (point C d)))))) = [opn]"
proof -
  have "resultOf (dReq d) (dBefore d) = handlerReply (dReq d) (OK, Some (snd (DoOp (Some (dReq d)) (stateAt C (length (dBefore d))))))"
    using coversD(1) [OF h(2,3)] by (simp add: resultOf_def stateAt_def)
  moreover have "snd (DoOp (Some (dReq d)) (stateAt C (length (dBefore d)))) = snd (DoOp (Some (dReq d)) (stateAt C (point C d)))"
  proof (cases "dReq d")
    case (PutReq a)
    have "opReq (C ! length (dBefore d)) = Some (PutReq a)" "opReq (C ! point C d) = Some (PutReq a)"
      using coversD(2) [OF h(2,3)] historyD(2) [OF h(1,3)] point_spec(2) [OF h] PutReq by simp_all
    then show ?thesis
      using repeated_put_reply [OF point_spec(1) [OF h] coversD(3) [OF h(2,3)]] client_waits [OF h PutReq] PutReq by simp
  qed (simp_all add: point_def)
  ultimately show ?thesis using historyD(1) [OF h(1,3)] by (simp add: explained_def)
qed

text \<open>A position at which no operation takes effect changes nothing.\<close>

lemma no_effect_at:
  assumes h: "history rpcs LD" "covers C LD" and m: "m < length C" and none: "\<And>opn d. (opn, d) \<in> set LD \<Longrightarrow> point C d \<noteq> m"
  shows "kvr_content (stateAt C (Suc m)) = kvr_content (stateAt C m)"
proof (cases "\<exists>a. opReq (C ! m) = Some (PutReq a)")
  case True
  then obtain a where a: "opReq (C ! m) = Some (PutReq a)" by blast
  from h(2) m a obtain opn d where d: "(opn, d) \<in> set LD" "dReq d = PutReq a" by (rule covers_req)
  have "point C d \<le> m" using a d(2) by (auto simp: point_def intro: Least_le)
  then have "point C d < m" using none [OF d(1)] by simp
  then have "isDuplicate a (stateAt C m)"
    using executed_isDuplicate [of "point C d" m C a] m point_spec(2) [OF h d(1)] d(2) by simp
  then show ?thesis using a m by (simp add: stateAt_Suc DoOp_def doPut_duplicate)
qed (use m in \<open>auto simp: stateAt_Suc DoOp_def doGet_spec split: option.split kvreq.split\<close>)

section \<open>The linearization\<close>

definition lineOrder :: "kvreq Op list \<Rightarrow> (Operation \<times> Done) list \<Rightarrow> (Operation \<times> Done) list" where
  "lineOrder C LD = sort_key (\<lambda>x. point C (snd x)) LD"

lemma point_inj:
  assumes "history rpcs LD" "covers C LD" "x \<in> set LD" "y \<in> set LD" "point C (snd x) = point C (snd y)"
  shows "x = y"
proof -
  have "Some (dReq (snd x)) = Some (dReq (snd y))"
    using point_spec(2) [OF assms(1,2), of "fst x" "snd x"] point_spec(2) [OF assms(1,2), of "fst y" "snd y"] assms(3-5) by simp
  then show ?thesis using request_unique [OF assms(1,3,4)] by simp
qed

lemma lineOrder_realTime:
  assumes h: "history rpcs LD" "covers C LD"
  shows "sorted_wrt realTime (map fst (lineOrder C LD))"
proof -
  let ?f = "\<lambda>x. point C (snd x)"
  have "sorted_wrt (\<lambda>x y. ?f x \<le> ?f y) (lineOrder C LD)"
    using sorted_sort_key [of ?f LD] by (simp add: lineOrder_def sorted_wrt_map)
  then have "sorted_wrt (\<lambda>x y. realTime (fst x) (fst y)) (lineOrder C LD)"
  proof (rule sorted_wrt_mono_rel [rotated])
    fix x y
    assume xy: "x \<in> set (lineOrder C LD)" "y \<in> set (lineOrder C LD)" "?f x \<le> ?f y"
    obtain o1 d1 o2 d2 where e: "x = (o1, d1)" "y = (o2, d2)" by (cases x; cases y)
    have x: "(o1, d1) \<in> set LD" "(o2, d2) \<in> set LD" using xy e by (simp_all add: lineOrder_def)
    show "realTime (fst x) (fst y)"
      using point_order [OF h x(2,1)] point_spec(1) [OF h x(2)] xy(3) e by (force simp: realTime_def precedes_def)
  qed
  then show ?thesis by (simp add: sorted_wrt_map)
qed

lemma filter_less_Suc:
  "sorted (map f xs) \<Longrightarrow> filter (\<lambda>x. f x < Suc m) xs = filter (\<lambda>x. f x < m) xs @ filter (\<lambda>x. f x = m) xs"
proof (induction xs)
  case (Cons x xs)
  show ?case
  proof (cases "f x < m")
    case False
    then have "filter (\<lambda>x. f x < m) xs = []" using Cons.prems by (auto simp: filter_empty_conv)
    then show ?thesis using Cons False by (auto simp: less_Suc_eq)
  qed (use Cons in auto)
qed simp

lemma filter_unique:
  assumes "distinct xs" "x \<in> set xs" "P x" "\<And>y. y \<in> set xs \<Longrightarrow> P y \<Longrightarrow> y = x"
  shows "filter P xs = [x]"
proof -
  have set: "set (filter P xs) = {x}" using assms(2,3) by (auto dest: assms(4))
  have d: "distinct (filter P xs)" using assms(1) by (rule distinct_filter)
  obtain y ys where e: "filter P xs = y # ys" using set by (metis list.exhaust list.set(1) insert_not_empty)
  then have "set (y # ys) = {x}" "distinct (y # ys)" using set d by (simp_all only:)
  then show ?thesis unfolding e by (cases ys) auto
qed

lemma lineOrder_at:
  assumes h: "history rpcs LD" "covers C LD"
  shows "filter (\<lambda>x. point C (snd x) = m) (lineOrder C LD) = [] \<and> (\<forall>(opn, d) \<in> set LD. point C d \<noteq> m) \<or>
     (\<exists>opn d. filter (\<lambda>x. point C (snd x) = m) (lineOrder C LD) = [(opn, d)] \<and> (opn, d) \<in> set LD \<and> point C d = m)"
proof (cases "\<forall>(opn, d) \<in> set LD. point C d \<noteq> m")
  case True
  then show ?thesis by (auto simp: lineOrder_def filter_empty_conv)
next
  case False
  then obtain opn d where d: "(opn, d) \<in> set LD" "point C d = m" by auto
  have "distinct LD" using h(1) by (simp add: history_def distinct_map)
  then have "filter (\<lambda>x. point C (snd x) = m) (lineOrder C LD) = [(opn, d)]"
  proof (intro filter_unique)
    show "y = (opn, d)" if "y \<in> set (lineOrder C LD)" "point C (snd y) = m" for y
      using point_inj [OF h _ d(1), of y] that d(2) by (simp add: lineOrder_def)
  qed (use d in \<open>simp_all add: lineOrder_def\<close>)
  then show ?thesis using d by blast
qed

text \<open>What the model takes a key to be.\<close>

definition keyOf :: "string \<Rightarrow> vmap \<Rightarrow> KvState" where
  "keyOf k c = (case c k of None \<Rightarrow> modelInit | Some (v, n) \<Rightarrow> \<lparr>stValue = v, stVersion = n\<rparr>)"

definition counted :: "string \<Rightarrow> nat \<Rightarrow> vmap \<Rightarrow> bool" where
  "counted k t c \<longleftrightarrow> (\<forall>v n. c k = Some (v, n) \<longrightarrow> n \<noteq> 0 \<and> unat n \<le> t)"

lemma counted_put:
  assumes "counted k t c" "Suc t < 2 ^ 64"
  shows "counted k (Suc t) (fst (spec_put key v n c))"
proof -
  have "n' + 1 \<noteq> 0 \<and> unat (n' + 1) \<le> Suc t" if "unat n' \<le> t" for n' :: "64 word"
  proof -
    have "unat (n' + 1) = Suc (unat n')" using that assms(2) by (simp add: unat_word_ariths)
    then show ?thesis using that by auto
  qed
  then show ?thesis using assms(1) by (fastforce simp: counted_def spec_put_def split: option.split)
qed

text \<open>The model follows at a point.\<close>

lemma model_follows:
  assumes h: "history rpcs LD" "covers C LD" "(opn, d) \<in> set LD" and m: "point C d = m"
    and t: "counted k t (kvr_content (stateAt C m))" "Suc t < 2 ^ 64" and no: "noErrNoKey [opn]"
  shows "modelRun (keyOf k (kvr_content (stateAt C m))) (opsOf k [opn]) = Some (keyOf k (kvr_content (stateAt C (Suc m))))
     \<and> counted k (Suc t) (kvr_content (stateAt C (Suc m)))"
proof -
  let ?c = "kvr_content (stateAt C m)"
  have pt: "opReq (C ! m) = Some (dReq d)" "m < length C" using point_spec [OF h] m by simp_all
  from effect_at [OF h] m obtain cl start stop where
    e: "logEntry cl (dReq d) start stop (handlerReply (dReq d) (OK, Some (snd (DoOp (Some (dReq d)) (stateAt C m))))) = [opn]" by auto
  show ?thesis
  proof (cases "dReq d")
    case (GetReq a)
    have "opn = getOp cl (getKey a) start stop (spec_get (getKey a) ?c)"
      using e by (simp add: GetReq logEntry_def handlerReply_def KVGet_def DoOp_def doGet_spec)
    moreover have "kvr_content (stateAt C (Suc m)) = ?c" using pt by (simp add: stateAt_Suc GetReq DoOp_def doGet_spec)
    ultimately show ?thesis
      using t(1) by (auto simp: modelStep_def opsOf_def getOp_def keyOf_def spec_get_def zeroGetReply_def modelInit_def counted_def
          split: option.split)
  next
    case (PutReq a)
    let ?s = "spec_put (putKey a) (putValue a) (putVersion a) ?c"
    have new: "\<not> isDuplicate a (stateAt C m)" using point_new [OF h PutReq] m by simp
    have o: "opn = putOp cl (putKey a) (putValue a) (putVersion a) start stop (snd ?s)"
      using e doPut_fresh(2) [OF new] by (simp add: PutReq logEntry_def handlerReply_def KVPut_def DoOp_def)
    have c: "kvr_content (stateAt C (Suc m)) = fst ?s" using pt doPut_fresh(1) [OF new] by (simp add: stateAt_Suc PutReq DoOp_def)
    have "snd ?s \<noteq> ErrNoKey" using no by (simp add: o noErrNoKey_def putOp_def)
    then have "modelRun (keyOf k ?c) (opsOf k [opn]) = Some (keyOf k (fst ?s))"
      using t(1) by (auto simp: o modelStep_def opsOf_def putOp_def keyOf_def spec_put_def modelInit_def counted_def
          split: option.splits if_splits)
    then show ?thesis using counted_put [OF t] c by simp
  next
    case OtherReq
    then show ?thesis using e by (simp add: logEntry_def)
  qed
qed

lemma lineOrder_run:
  assumes h: "history rpcs LD" "covers C LD" and no: "noErrNoKey (map fst LD)" and len: "length LD < 2 ^ 64"
  shows "m \<le> length C \<Longrightarrow>
     modelRun modelInit (opsOf k (map fst (filter (\<lambda>x. point C (snd x) < m) (lineOrder C LD)))) = Some (keyOf k (kvr_content (stateAt C m))) \<and>
     counted k (length (filter (\<lambda>x. point C (snd x) < m) (lineOrder C LD))) (kvr_content (stateAt C m))"
proof (induction m)
  case 0
  then show ?case by (simp add: stateAt_0 newKVServer_def kvr_content_def keyOf_def counted_def opsOf_def)
next
  case (Suc m)
  let ?u = "\<lambda>m. filter (\<lambda>x. point C (snd x) < m) (lineOrder C LD)" and ?c = "kvr_content (stateAt C m)"
  let ?x = "filter (\<lambda>x. point C (snd x) = m) (lineOrder C LD)"
  have u: "?u (Suc m) = ?u m @ ?x" by (rule filter_less_Suc) (simp add: lineOrder_def sorted_sort_key)
  have IH: "modelRun modelInit (opsOf k (map fst (?u m))) = Some (keyOf k ?c)" "counted k (length (?u m)) ?c" using Suc by simp_all
  from lineOrder_at [OF h, of m] show ?case
  proof (elim disjE exE conjE)
    assume "?x = []" and none: "\<forall>(opn, d) \<in> set LD. point C d \<noteq> m"
    moreover have "kvr_content (stateAt C (Suc m)) = ?c" using no_effect_at [OF h, of m] none Suc.prems by auto
    ultimately show ?thesis using IH u by simp
  next
    fix opn d
    assume x: "?x = [(opn, d)]" "(opn, d) \<in> set LD" "point C d = m"
    have "length (?u (Suc m)) \<le> length LD" using length_filter_le [of _ "lineOrder C LD"] by (simp add: lineOrder_def)
    then have t: "Suc (length (?u m)) < 2 ^ 64" using len by (simp add: u x(1))
    have "noErrNoKey [opn]" using no x(2) by (force simp: noErrNoKey_def list_all_iff)
    from model_follows [OF h x(2,3) IH(2) t this] show ?thesis using IH(1) by (simp add: u x(1) modelRun_append)
  qed
qed

lemma history_linearizable:
  assumes h: "history rpcs LD" "covers C LD" and no: "noErrNoKey (map fst LD)" and len: "length LD < 2 ^ 64"
  shows "linearizable (opsOf k (map fst LD))"
  unfolding linearizable_def
proof (intro exI conjI)
  let ?xs = "opsOf k (map fst (lineOrder C LD))"
  show "mset ?xs = mset (opsOf k (map fst LD))" by (simp add: opsOf_def lineOrder_def)
  show "sorted_wrt realTime ?xs" using lineOrder_realTime [OF h] by (simp add: opsOf_def sorted_wrt_filter)
  have "point C (snd x) < length C" if "x \<in> set LD" for x using point_spec(3) [OF h, of "fst x" "snd x"] that by simp
  then have "filter (\<lambda>x. point C (snd x) < length C) (lineOrder C LD) = lineOrder C LD"
    by (intro filter_True) (simp add: lineOrder_def)
  then show "modelRun modelInit ?xs \<noteq> None" using lineOrder_run [OF assms, of "length C" k] by simp
qed

end
