(* ===== verification/Kv_Linear.thy ===== *)
theory Kv_Linear
  imports Kv_Order
begin

text \<open>
  Linearizability of the replicated key/value store (\<^verbatim>\<open>src/kvraft1\<close> on \<^verbatim>\<open>src/raft1\<close>): in every run of
  the clients of \<open>Kv_Clients\<close> on a cluster without snapshots, what the tests record has an
  explanation in the sense of \<open>Kv_Order\<close>.
\<close>

section \<open>Remote calls\<close>

text \<open>Replies that a clerk returns.\<close>

definition definite :: "kvrep \<Rightarrow> bool" where
  "definite rep = (case rep of GetRep r \<Rightarrow> \<not> retryable (grErr r) | PutRep r \<Rightarrow> \<not> retryable (prErr r) | NilRep \<Rightarrow> False)"

lemma afterCall_Inr: "afterCall n s answer = Inr rep \<longleftrightarrow> answer = Some rep \<and> definite rep"
  by (auto simp: afterCall_def definite_def retryable_def split: option.split kvrep.split)

definition executed :: "(int \<Rightarrow> kvreq Op option \<Rightarrow> bool) \<Rightarrow> KvRpc list \<Rightarrow> kvreq Op list \<Rightarrow> bool" where
  "executed ch rpcs C \<longleftrightarrow> chosenList ch (map Some C) \<and> set C \<subseteq> set (submitted rpcs)"

definition answered_ok :: "(int \<Rightarrow> kvreq Op option \<Rightarrow> bool) \<Rightarrow> KvRpc list \<Rightarrow> KvRpc \<Rightarrow> kvrep \<Rightarrow> bool" where
  "answered_ok ch rpcs c rep \<longleftrightarrow> definite rep \<longrightarrow>
     (\<exists>op before. rpcOp c = Some op \<and> executed ch rpcs (before @ [op]) \<and> rep = resultOf (rpcReq c) before)"

definition rpc_ok :: "nat \<Rightarrow> (int \<Rightarrow> kvreq Op option \<Rightarrow> bool) \<Rightarrow> KvRpc list \<Rightarrow> KvRpc \<Rightarrow> bool" where
  "rpc_ok n ch rpcs c \<longleftrightarrow> (\<forall>op. rpcOp c = Some op \<longrightarrow> opReq op = Some (rpcReq c)) \<and>
     (case rpcSt c of
        OnWay \<Rightarrow> rpcOp c = None
      | InSubmit ix term \<Rightarrow> rpcTo c < n \<and> (\<exists>op. rpcOp c = Some op \<and> opId op = ix)
      | Answered rep \<Rightarrow> answered_ok ch rpcs c rep
      | Ended \<Rightarrow> True)"

text \<open>The calls of a later moment: more of them, with the same requests and operations.\<close>

definition grows :: "KvRpc list \<Rightarrow> KvRpc list \<Rightarrow> bool" where
  "grows rpcs rpcs' \<longleftrightarrow> length rpcs \<le> length rpcs' \<and> (\<forall>k < length rpcs. rpcReq (rpcs' ! k) = rpcReq (rpcs ! k) \<and>
     (rpcOp (rpcs ! k) = None \<or> rpcOp (rpcs' ! k) = rpcOp (rpcs ! k)))"

lemma in_submitted: "op \<in> set (submitted rpcs) \<longleftrightarrow> (\<exists>k < length rpcs. rpcOp (rpcs ! k) = Some op)"
  by (force simp: submitted_def List.map_filter_def in_set_conv_nth image_iff)

lemma grows_submitted:
  assumes "grows rpcs rpcs'"
  shows "set (submitted (take m rpcs)) \<subseteq> set (submitted (take m rpcs'))"
proof
  fix op
  assume "op \<in> set (submitted (take m rpcs))"
  then obtain k where k: "k < length rpcs" "k < m" "rpcOp (rpcs ! k) = Some op" by (auto simp: in_submitted)
  then have "k < length rpcs'" "rpcOp (rpcs' ! k) = Some op" using assms by (fastforce simp: grows_def)+
  then show "op \<in> set (submitted (take m rpcs'))" using k(2) by (auto simp: in_submitted)
qed

lemma grows_submitted_all: "grows rpcs rpcs' \<Longrightarrow> set (submitted rpcs) \<subseteq> set (submitted rpcs')"
  using grows_submitted [of rpcs rpcs' "length rpcs'"] by (simp add: grows_def)

lemma grows_called:
  assumes "grows rpcs rpcs'" "dCalls d \<le> length rpcs"
  shows "called rpcs' d = called rpcs d"
proof -
  have "map rpcReq (take (dCalls d) rpcs') = map rpcReq (take (dCalls d) rpcs)"
    using assms by (intro nth_equalityI) (auto simp: grows_def)
  then show ?thesis by (metis called_def set_map)
qed

lemma executed_mono:
  "executed ch rpcs C \<Longrightarrow> (\<And>k v. ch k v \<Longrightarrow> ch' k v) \<Longrightarrow> grows rpcs rpcs' \<Longrightarrow> executed ch' rpcs' C"
  using grows_submitted_all by (fastforce simp: executed_def chosenList_def)

lemma rpc_ok_mono:
  assumes "rpc_ok n ch rpcs c" "\<And>k v. ch k v \<Longrightarrow> ch' k v" "grows rpcs rpcs'"
  shows "rpc_ok n ch' rpcs' c"
  using assms(1) executed_mono [OF _ assms(2,3)] by (fastforce simp: rpc_ok_def answered_ok_def split: rpcState.split)

section \<open>The invariant\<close>

definition sys_inv :: "nat \<Rightarrow> kvreq Op ledger \<Rightarrow> KvTest \<Rightarrow> bool" where
  "sys_inv n H s \<longleftrightarrow> rsm_service.service_ok n DoOp kvStart H (kSys s) \<and>
     valid (\<lambda>op. op \<in> set (submitted (kRpcs s))) (cluster (kSys s)) \<and>
     (\<forall>c \<in> set (kRpcs s). rpc_ok n (chosen H (cluster (kSys s))) (kRpcs s) c)"

text \<open>A call of a clerk, given what was logged before.\<close>

definition call_ok :: "(int \<Rightarrow> int) \<Rightarrow> (Operation \<times> Done) list \<Rightarrow> KvTest \<Rightarrow> int \<Rightarrow> ClerkCall \<Rightarrow> bool" where
  "call_ok ids LD s c call \<longleftrightarrow> ccReq call \<noteq> OtherReq \<and> reqKey (ccReq call) = (ids c, requestId (kClerks s c) - 1) \<and>
     ccStart call \<le> kClock s \<and>
     (\<forall>k. ccRpc call = Some k \<longrightarrow> k < length (kRpcs s) \<and> rpcReq (kRpcs s ! k) = ccReq call) \<and>
     (\<forall>x \<in> set LD. reqKey (dReq (snd x)) \<noteq> reqKey (ccReq call) \<and>
        (precedes x (ccStart call, ccReq call) \<longrightarrow> ccReq call \<notin> called (kRpcs s) (snd x)))"

definition done_ok :: "(int \<Rightarrow> int) \<Rightarrow> (int \<Rightarrow> kvreq Op option \<Rightarrow> bool) \<Rightarrow> KvTest \<Rightarrow> Operation \<times> Done \<Rightarrow> bool" where
  "done_ok ids ch s x \<longleftrightarrow> chosenList ch (map Some (dBefore (snd x) @ [dOp (snd x)])) \<and>
     opCall (snd (fst x)) \<le> kClock s \<and> dCalls (snd x) \<le> length (kRpcs s) \<and>
     (\<exists>c. fst (reqKey (dReq (snd x))) = ids c \<and> snd (reqKey (dReq (snd x))) < requestId (kClerks s c))"

definition client_inv :: "(int \<Rightarrow> int) \<Rightarrow> (int \<Rightarrow> kvreq Op option \<Rightarrow> bool) \<Rightarrow> (Operation \<times> Done) list \<Rightarrow> KvTest \<Rightarrow> bool" where
  "client_inv ids ch LD s \<longleftrightarrow> map fst LD = kLog s \<and> history (kRpcs s) LD \<and> (\<forall>x \<in> set LD. done_ok ids ch s x) \<and>
     (\<forall>r \<in> set (kRpcs s). (\<exists>x \<in> set LD. dReq (snd x) = rpcReq r) \<or> (\<exists>c call. kCalls s c = Some call \<and> ccReq call = rpcReq r)) \<and>
     (\<forall>c. clientId (kClerks s c) = ids c) \<and>
     (\<forall>c call. kCalls s c = Some call \<longrightarrow> call_ok ids LD s c call)"

lemma history_grows:
  assumes h: "history rpcs LD" and g: "grows rpcs rpcs'" and d: "\<forall>x \<in> set LD. dCalls (snd x) \<le> length rpcs"
    and r: "\<forall>c \<in> set rpcs'. \<forall>op. rpcOp c = Some op \<longrightarrow> opReq op = Some (rpcReq c)"
  shows "history rpcs' LD"
proof -
  have "explained rpcs' opn d" if "(opn, d) \<in> set LD" for opn d
    using historyD [OF h that] grows_submitted [OF g, of "dCalls d"] unfolding explained_def by blast
  moreover have "called rpcs' (snd a) = called rpcs (snd a)" if "a \<in> set LD" for a using grows_called [OF g] d that by blast
  ultimately show ?thesis using h r unfolding history_def by auto
qed

text \<open>A step of the servers: what the clients have stays as it is.\<close>

lemma client_inv_grows:
  assumes inv: "client_inv ids ch LD s" and ch: "\<And>k v. ch k v \<Longrightarrow> ch' k v" and g: "grows (kRpcs s) (kRpcs s')"
    and len: "length (kRpcs s') = length (kRpcs s)"
    and same: "kClerks s' = kClerks s" "kCalls s' = kCalls s" "kClock s' = kClock s" "kLog s' = kLog s"
    and r: "\<forall>c \<in> set (kRpcs s'). \<forall>op. rpcOp c = Some op \<longrightarrow> opReq op = Some (rpcReq c)"
  shows "client_inv ids ch' LD s'"
proof -
  have d: "\<forall>x \<in> set LD. dCalls (snd x) \<le> length (kRpcs s)" using inv by (auto simp: client_inv_def done_ok_def)
  have "history (kRpcs s') LD" using history_grows [OF _ g d r] inv by (simp add: client_inv_def)
  moreover have "done_ok ids ch' s' x" if "done_ok ids ch s x" for x
    using that ch by (auto simp: done_ok_def same len chosenList_def)
  moreover have "call_ok ids LD s' c call" if "call_ok ids LD s c call" for c call
  proof -
    have "\<forall>k < length (kRpcs s). rpcReq (kRpcs s' ! k) = rpcReq (kRpcs s ! k)" using g by (simp add: grows_def)
    then show ?thesis using that grows_called [OF g] d by (auto simp: call_ok_def same len)
  qed
  moreover have "rpcReq ` set (kRpcs s') = rpcReq ` set (kRpcs s)"
  proof -
    have "map rpcReq (kRpcs s') = map rpcReq (kRpcs s)" using g len by (intro nth_equalityI) (auto simp: grows_def)
    then show ?thesis by (metis set_map)
  qed
  then have "\<exists>r' \<in> set (kRpcs s). rpcReq r' = rpcReq r" if "r \<in> set (kRpcs s')" for r using that by (metis imageE imageI)
  ultimately show ?thesis using inv unfolding client_inv_def same by (auto; metis)
qed

section \<open>Steps of the clients\<close>

lemma client_invD:
  assumes "client_inv ids ch LD s"
  shows "map fst LD = kLog s" "history (kRpcs s) LD" "\<And>x. x \<in> set LD \<Longrightarrow> done_ok ids ch s x"
    "\<And>r. r \<in> set (kRpcs s) \<Longrightarrow> (\<exists>x \<in> set LD. dReq (snd x) = rpcReq r) \<or> (\<exists>c call. kCalls s c = Some call \<and> ccReq call = rpcReq r)"
    "\<And>c. clientId (kClerks s c) = ids c" "\<And>c call. kCalls s c = Some call \<Longrightarrow> call_ok ids LD s c call"
  using assms by (auto simp: client_inv_def)

lemma client_invI:
  assumes "map fst LD = kLog s" "history (kRpcs s) LD" "\<And>x. x \<in> set LD \<Longrightarrow> done_ok ids ch s x"
    "\<And>r. r \<in> set (kRpcs s) \<Longrightarrow> (\<exists>x \<in> set LD. dReq (snd x) = rpcReq r) \<or> (\<exists>c call. kCalls s c = Some call \<and> ccReq call = rpcReq r)"
    "\<And>c. clientId (kClerks s c) = ids c" "\<And>c call. kCalls s c = Some call \<Longrightarrow> call_ok ids LD s c call"
  shows "client_inv ids ch LD s"
  using assms by (simp add: client_inv_def)

text \<open>The id of a request that was made is below the counter of its clerk.\<close>

lemma made_request:
  assumes "client_inv ids ch LD s" "r \<in> set (kRpcs s)"
  shows "\<exists>c. fst (reqKey (rpcReq r)) = ids c \<and> snd (reqKey (rpcReq r)) < requestId (kClerks s c)"
proof -
  from client_invD(4) [OF assms] show ?thesis
  proof
    assume "\<exists>x \<in> set LD. dReq (snd x) = rpcReq r"
    then show ?thesis using client_invD(3) [OF assms(1)] by (metis done_ok_def)
  next
    assume "\<exists>c call. kCalls s c = Some call \<and> ccReq call = rpcReq r"
    then obtain c call where "kCalls s c = Some call" "ccReq call = rpcReq r" by blast
    then show ?thesis using client_invD(6) [OF assms(1), of c call] by (auto simp: call_ok_def intro!: exI [of _ c])
  qed
qed

lemma beginCall_inv:
  assumes inv: "client_inv ids ch LD s" and ids: "inj ids" and c: "kCalls s c = None"
    and req: "req \<noteq> OtherReq" "reqKey req = (ids c, requestId (kClerks s c))"
  shows "client_inv ids ch LD (beginCall c req s)"
proof -
  let ?s = "beginCall c req s"
  have new: "rpcReq r \<noteq> req" if "r \<in> set (kRpcs s)" for r
    using made_request [OF inv that] req(2) inj_eq [OF ids] by auto
  have fresh: "reqKey (dReq (snd x)) \<noteq> reqKey req" if "x \<in> set LD" for x
    using client_invD(3) [OF inv that] req(2) inj_eq [OF ids] by (auto simp: done_ok_def)
  show ?thesis
  proof (rule client_invI)
    show "done_ok ids ch ?s x" if "x \<in> set LD" for x
    proof -
      from client_invD(3) [OF inv that] obtain c' where
        c': "fst (reqKey (dReq (snd x))) = ids c'" "snd (reqKey (dReq (snd x))) < requestId (kClerks s c')"
        by (auto simp: done_ok_def)
      then have "snd (reqKey (dReq (snd x))) < requestId (kClerks ?s c')" by (auto simp: beginCall_def)
      then show ?thesis using client_invD(3) [OF inv that] c'(1) by (auto simp: done_ok_def beginCall_def)
    qed
    show "(\<exists>x \<in> set LD. dReq (snd x) = rpcReq r) \<or> (\<exists>c call. kCalls ?s c = Some call \<and> ccReq call = rpcReq r)"
      if "r \<in> set (kRpcs ?s)" for r
    proof -
      have "kCalls ?s c' = Some call" if "kCalls s c' = Some call" for c' call using that c by (auto simp: beginCall_def)
      then show ?thesis using client_invD(4) [OF inv, of r] that by (fastforce simp: beginCall_def)
    qed
    show "call_ok ids LD ?s c' call" if "kCalls ?s c' = Some call" for c' call
    proof (cases "c' = c")
      case True
      then have "call = \<lparr>ccReq = req, ccServer = leaderId (kClerks s c), ccRpc = None, ccStart = kClock s\<rparr>"
        using that by (simp add: beginCall_def)
      moreover have "req \<notin> called (kRpcs s) d" for d using new by (auto simp: called_def dest: in_set_takeD)
      ultimately show ?thesis using True req fresh by (simp add: call_ok_def beginCall_def)
    next
      case False
      then show ?thesis using client_invD(6) [OF inv, of c' call] that by (auto simp: call_ok_def beginCall_def)
    qed
  qed (use client_invD [OF inv] in \<open>simp_all add: beginCall_def\<close>)
qed

lemma sendRpc_grows: "grows (kRpcs s) (kRpcs (sendRpc c s))"
  by (auto simp: sendRpc_def grows_def nth_append split: option.split)

lemma sendRpc_inv:
  assumes inv: "client_inv ids ch LD s"
  shows "client_inv ids ch LD (sendRpc c s)"
proof (cases "\<exists>call. kCalls s c = Some call \<and> ccRpc call = None")
  case True
  then obtain call where call: "kCalls s c = Some call" "ccRpc call = None" by blast
  let ?r = "\<lparr>rpcTo = ccServer call, rpcReq = ccReq call, rpcSt = OnWay, rpcOp = None\<rparr>"
  let ?call = "call\<lparr>ccRpc := Some (length (kRpcs s))\<rparr>"
  let ?s = "s\<lparr>kRpcs := kRpcs s @ [?r], kCalls := (kCalls s)(c \<mapsto> ?call)\<rparr>"
  have s: "sendRpc c s = ?s" using call by (simp add: sendRpc_def)
  have g: "grows (kRpcs s) (kRpcs ?s)" using sendRpc_grows [of s c] s by simp
  have d: "\<forall>x \<in> set LD. dCalls (snd x) \<le> length (kRpcs s)" using client_invD(3) [OF inv] by (auto simp: done_ok_def)
  have "\<forall>c \<in> set (kRpcs ?s). \<forall>op. rpcOp c = Some op \<longrightarrow> opReq op = Some (rpcReq c)"
    using client_invD(2) [OF inv] by (auto simp: history_def)
  then have h: "history (kRpcs ?s) LD" using history_grows [OF client_invD(2) [OF inv] g d] by blast
  have ok: "call_ok ids LD ?s c' call'" if "call_ok ids LD s c' call'" for c' call'
    using that grows_called [OF g] d by (auto simp: call_ok_def nth_append)
  have "client_inv ids ch LD ?s"
  proof (rule client_invI)
    show "done_ok ids ch ?s x" if "x \<in> set LD" for x using client_invD(3) [OF inv that] by (auto simp: done_ok_def)
    show "(\<exists>x \<in> set LD. dReq (snd x) = rpcReq r) \<or> (\<exists>c call. kCalls ?s c = Some call \<and> ccReq call = rpcReq r)"
      if r: "r \<in> set (kRpcs ?s)" for r
    proof -
      have pending: "\<exists>c call. kCalls ?s c = Some call \<and> ccReq call = rpcReq r"
        if "kCalls s c' = Some call'" "ccReq call' = rpcReq r" for c' call'
        using that call by (intro exI [of _ c'] exI [of _ "if c' = c then ?call else call'"]) auto
      show ?thesis
      proof (cases "r \<in> set (kRpcs s)")
        case True
        then show ?thesis using client_invD(4) [OF inv True] pending by fast
      next
        case False
        then have "ccReq call = rpcReq r" using r by auto
        then show ?thesis using pending [OF call(1)] by blast
      qed
    qed
    show "call_ok ids LD ?s c' call'" if "kCalls ?s c' = Some call'" for c' call'
    proof (cases "c' = c")
      case True
      then have "call' = ?call" using that by simp
      then show ?thesis using ok [OF client_invD(6) [OF inv call(1)]] True unfolding call_ok_def by auto
    next
      case False
      then show ?thesis using ok client_invD(6) [OF inv] that by simp
    qed
  qed (use h client_invD [OF inv] in simp_all)
  then show ?thesis by (simp add: s)
qed (use inv in \<open>auto simp: sendRpc_def split: option.split\<close>)

text \<open>A new operation of the log.\<close>

lemma logged_op:
  assumes "req \<noteq> OtherReq"
  obtains opn where "logEntry c req start stop (resultOf req before) = [opn]" "opCall (snd opn) = start" "opReturn (snd opn) = stop"
  using assms by (cases req) (auto simp: logEntry_def resultOf_def handlerReply_def getOp_def putOp_def)

lemma precedes_new:
  assumes inv: "client_inv ids ch LD s" and ids: "inj ids" and call: "kCalls s c = Some call" and x: "x \<in> set LD"
    and new: "opReturn (snd opn) = kClock s" "dReq d = ccReq call"
  shows "\<not> precedes (opn, d) (opCall (snd (fst x)), dReq (snd x))"
proof -
  have "opCall (snd (fst x)) \<le> kClock s" using client_invD(3) [OF inv x] by (simp add: done_ok_def)
  moreover have "reqKey (ccReq call) = (ids c, requestId (kClerks s c) - 1)" using client_invD(6) [OF inv call] by (simp add: call_ok_def)
  moreover obtain c' where "fst (reqKey (dReq (snd x))) = ids c'" "snd (reqKey (dReq (snd x))) < requestId (kClerks s c')"
    using client_invD(3) [OF inv x] by (auto simp: done_ok_def)
  ultimately show ?thesis using new inj_eq [OF ids] by (auto simp: precedes_def)
qed

lemma history_finish:
  assumes inv: "client_inv ids ch LD s" and ids: "inj ids" and call: "kCalls s c = Some call"
    and d: "d = \<lparr>dReq = ccReq call, dBefore = before, dOp = op, dCalls = length (kRpcs s)\<rparr>"
    and ops: "opReq op = Some (ccReq call)" "set (before @ [op]) \<subseteq> set (submitted (kRpcs s))"
    and opn: "logEntry c (ccReq call) start stop (resultOf (ccReq call) before) = [opn]"
      "opCall (snd opn) = ccStart call" "opReturn (snd opn) = kClock s"
  shows "history (kRpcs s) (LD @ [(opn, d)])"
proof -
  note ok = client_invD(6) [OF inv call, unfolded call_ok_def] and h = client_invD(2) [OF inv]
  have e: "explained (kRpcs s) opn d" using ops opn(1) by (auto simp: explained_def d)
  have k: "distinct (map (\<lambda>x. reqKey (dReq (snd x))) (LD @ [(opn, d)]))" using h ok by (auto simp: history_def d)
  have o: "dReq (snd b) \<notin> called (kRpcs s) (snd a)"
    if a: "a \<in> set (LD @ [(opn, d)])" and b: "b \<in> set (LD @ [(opn, d)])"
      and p: "precedes a (opCall (snd (fst b)), dReq (snd b))" for a b
  proof (cases "a = (opn, d)")
    case True
    have "b \<notin> set LD" using precedes_new [OF inv ids call, of b opn d] p opn(3) True by (auto simp: d)
    then have "b = (opn, d)" using b by simp
    then show ?thesis using True p ok opn(2,3) by (simp add: precedes_def)
  next
    case False
    then have x: "a \<in> set LD" using a by simp
    show ?thesis
    proof (cases "b = (opn, d)")
      case True
      then show ?thesis using ok x p opn(2) by (auto simp: d)
    next
      case False
      then have "b \<in> set LD" using b by simp
      then show ?thesis using not_called [OF h, of "fst a" "snd a" "fst b" "snd b"] x p by simp
    qed
  qed
  have "\<forall>(opn, d) \<in> set (LD @ [(opn, d)]). explained (kRpcs s) opn d" using e h by (auto simp: history_def)
  moreover have "\<forall>c \<in> set (kRpcs s). \<forall>op. rpcOp c = Some op \<longrightarrow> opReq op = Some (rpcReq c)" using h by (simp add: history_def)
  ultimately show ?thesis using k o unfolding history_def by blast
qed

lemma finishCall_inv:
  assumes inv: "client_inv ids ch LD s" and ids: "inj ids" and call: "kCalls s c = Some call"
    and ops: "opReq op = Some (ccReq call)" "executed ch (kRpcs s) (before @ [op])"
  shows "\<exists>LD'. client_inv ids ch LD' (finishCall c call (resultOf (ccReq call) before) s)"
proof -
  let ?s = "finishCall c call (resultOf (ccReq call) before) s"
  note ok = client_invD(6) [OF inv call, unfolded call_ok_def]
  obtain opn where opn: "logEntry c (ccReq call) (ccStart call) (kClock s) (resultOf (ccReq call) before) = [opn]"
      "opCall (snd opn) = ccStart call" "opReturn (snd opn) = kClock s"
    using logged_op [of "ccReq call"] ok by metis
  define d where "d = \<lparr>dReq = ccReq call, dBefore = before, dOp = op, dCalls = length (kRpcs s)\<rparr>"
  have sub: "set (before @ [op]) \<subseteq> set (submitted (kRpcs s))" "chosenList ch (map Some (before @ [op]))"
    using ops(2) by (simp_all add: executed_def)
  have key: "reqKey (dReq d) = (ids c, requestId (kClerks s c) - 1)" using ok by (simp add: d_def)
  have new: "\<not> precedes (opn, d) (ccStart call', ccReq call')" if "kCalls s c' = Some call'" "c' \<noteq> c" for c' call'
    using client_invD(6) [OF inv that(1)] that(2) opn(3) inj_eq [OF ids] key by (auto simp: precedes_def call_ok_def)
  have "client_inv ids ch (LD @ [(opn, d)]) ?s"
  proof (rule client_invI)
    show "map fst (LD @ [(opn, d)]) = kLog ?s" using client_invD(1) [OF inv] opn(1) by (simp add: finishCall_def)
    show "history (kRpcs ?s) (LD @ [(opn, d)])"
      using history_finish [OF inv ids call d_def ops(1) sub(1) opn] by (simp add: finishCall_def)
    show "done_ok ids ch ?s x" if "x \<in> set (LD @ [(opn, d)])" for x
    proof (cases "x = (opn, d)")
      case True
      have "\<exists>c'. ids c = ids c' \<and> requestId (kClerks s c) - 1 < requestId (kClerks ?s c')"
        by (intro exI [of _ c]) (simp add: finishCall_def)
      then show ?thesis using ok sub(2) opn(2) key by (simp add: done_ok_def True) (simp add: d_def finishCall_def)
    next
      case False
      then have "done_ok ids ch s x" using client_invD(3) [OF inv] that by simp
      then show ?thesis by (auto simp: done_ok_def finishCall_def)
    qed
    show "(\<exists>x \<in> set (LD @ [(opn, d)]). dReq (snd x) = rpcReq r) \<or> (\<exists>c call. kCalls ?s c = Some call \<and> ccReq call = rpcReq r)"
      if r: "r \<in> set (kRpcs ?s)" for r
    proof (cases "rpcReq r = ccReq call")
      case False
      have "r \<in> set (kRpcs s)" using r by (simp add: finishCall_def)
      from client_invD(4) [OF inv this] show ?thesis
      proof
        assume "\<exists>c call. kCalls s c = Some call \<and> ccReq call = rpcReq r"
        then obtain c' call' where c': "kCalls s c' = Some call'" "ccReq call' = rpcReq r" by blast
        then have "c' \<noteq> c" using False call by auto
        then have "kCalls ?s c' = Some call'" using c' by (simp add: finishCall_def)
        then show ?thesis using c'(2) by blast
      qed auto
    qed (simp add: d_def)
    show "clientId (kClerks ?s c') = ids c'" for c' using client_invD(5) [OF inv] by (simp add: finishCall_def)
    show "call_ok ids (LD @ [(opn, d)]) ?s c' call'" if "kCalls ?s c' = Some call'" for c' call'
    proof -
      have c': "kCalls s c' = Some call'" "c' \<noteq> c" using that by (auto simp: finishCall_def split: if_splits)
      have "reqKey (dReq d) \<noteq> reqKey (ccReq call')" using client_invD(6) [OF inv c'(1)] c'(2) inj_eq [OF ids] key by (simp add: call_ok_def)
      then show ?thesis using client_invD(6) [OF inv c'(1)] new [OF c'] c'(2) by (auto simp: call_ok_def finishCall_def)
    qed
  qed
  then show ?thesis by blast
qed

lemma returnRpc_inv:
  assumes inv: "client_inv ids ch LD s" and ids: "inj ids" and rpcs: "\<forall>c \<in> set (kRpcs s). rpc_ok n ch (kRpcs s) c"
  shows "\<exists>LD'. client_inv ids ch LD' (returnRpc c okay s)"
proof (cases "\<exists>call k. kCalls s c = Some call \<and> ccRpc call = Some k")
  case True
  then obtain call k where call: "kCalls s c = Some call" "ccRpc call = Some k" by blast
  note ok = client_invD(6) [OF inv call(1)]
  let ?answer = "case rpcSt (kRpcs s ! k) of Answered rep \<Rightarrow> if okay then Some rep else None | _ \<Rightarrow> None"
  show ?thesis
  proof (cases "afterCall (servers (kClerks s c)) (ccServer call) ?answer")
    case (Inl next_s)
    let ?call = "call\<lparr>ccServer := next_s, ccRpc := None\<rparr>"
    have s: "returnRpc c okay s = s\<lparr>kCalls := (kCalls s)(c \<mapsto> ?call)\<rparr>" (is "_ = ?s") using call Inl by (simp add: returnRpc_def Let_def)
    have "client_inv ids ch LD ?s"
    proof (rule client_invI)
      show "done_ok ids ch ?s x" if "x \<in> set LD" for x using client_invD(3) [OF inv that] by (simp add: done_ok_def)
      show "(\<exists>x \<in> set LD. dReq (snd x) = rpcReq r) \<or> (\<exists>c call. kCalls ?s c = Some call \<and> ccReq call = rpcReq r)"
        if "r \<in> set (kRpcs ?s)" for r
      proof -
        have "\<exists>c call. kCalls ?s c = Some call \<and> ccReq call = rpcReq r"
          if "kCalls s c' = Some call'" "ccReq call' = rpcReq r" for c' call'
          using that call by (intro exI [of _ c'] exI [of _ "if c' = c then ?call else call'"]) auto
        then show ?thesis using client_invD(4) [OF inv, of r] that by fastforce
      qed
      show "call_ok ids LD ?s c' call'" if "kCalls ?s c' = Some call'" for c' call'
        using that ok client_invD(6) [OF inv, of c' call'] by (cases "c' = c") (auto simp: call_ok_def)
    qed (use client_invD [OF inv] in simp_all)
    then show ?thesis using s by auto
  next
    case (Inr rep)
    have k: "k < length (kRpcs s)" "rpcReq (kRpcs s ! k) = ccReq call" using ok call(2) by (simp_all add: call_ok_def)
    have "?answer = Some rep" "definite rep" using Inr unfolding afterCall_Inr by blast+
    then have rep: "rpcSt (kRpcs s ! k) = Answered rep" by (auto split: rpcState.splits if_splits)
    have r: "rpc_ok n ch (kRpcs s) (kRpcs s ! k)" using rpcs k(1) by simp
    then obtain op before where "rpcOp (kRpcs s ! k) = Some op" "executed ch (kRpcs s) (before @ [op])" "rep = resultOf (ccReq call) before"
      using rep \<open>definite rep\<close> k(2) by (auto simp: rpc_ok_def answered_ok_def)
    moreover from this(1) have "opReq op = Some (ccReq call)" using r k(2) by (simp add: rpc_ok_def)
    ultimately show ?thesis using finishCall_inv [OF inv ids call(1)] call Inr by (simp add: returnRpc_def Let_def)
  qed
qed (use inv in \<open>auto simp: returnRpc_def split: option.split\<close>)

lemma kvTick_inv:
  assumes "client_inv ids ch LD s"
  shows "client_inv ids ch LD (s\<lparr>kClock := kClock s + int d\<rparr>)"
proof (rule client_invI)
  let ?s = "s\<lparr>kClock := kClock s + int d\<rparr>"
  show "done_ok ids ch ?s x" if "x \<in> set LD" for x using client_invD(3) [OF assms that] by (simp add: done_ok_def)
  show "call_ok ids LD ?s c call" if "kCalls ?s c = Some call" for c call
    using client_invD(6) [OF assms, of c call] that by (auto simp: call_ok_def)
qed (use client_invD [OF assms] in simp_all)

section \<open>Steps of the servers\<close>

lemma valid_mono:
  assumes "valid P s" "\<And>c. P c \<Longrightarrow> Q c"
  shows "valid Q s"
proof -
  have "lawful P e \<Longrightarrow> lawful Q e" for e using assms(2) by (auto simp: lawful_def split: option.splits)
  then show ?thesis using assms(1) by (fastforce simp: valid_def list_all_iff)
qed

lemma sys_progress:
  assumes inv: "sys_inv n H s" and g: "grows (kRpcs s) rpcs'"
    and run: "rsmRun DoOp Snapshot Restore kvStart evs (kSys s) = Some (Inr y)" "list_all noSnapshots evs"
      "list_all (proposals (\<lambda>op. op \<in> set (submitted rpcs'))) evs"
  shows "\<exists>H'. rsm_service.service_ok n DoOp kvStart H' y \<and> valid (\<lambda>op. op \<in> set (submitted rpcs')) (cluster y) \<and>
     (\<forall>k v. chosen H (cluster (kSys s)) k v \<longrightarrow> chosen H' (cluster y) k v)"
proof -
  have so: "rsm_service.service_ok n DoOp kvStart H (kSys s)" and v: "valid (\<lambda>op. op \<in> set (submitted (kRpcs s))) (cluster (kSys s))"
    using inv by (simp_all add: sys_inv_def)
  note r = run(1) [unfolded rsmRun_def]
  obtain H' where H': "rsm_service.service_ok n DoOp kvStart H' y" "reaches H (cluster (kSys s)) H' (cluster y)"
    using rsm_service.sysRun_ok [OF so r run(2)] by (auto simp: rsm_service.progress_def)
  have "valid (\<lambda>op. op \<in> set (submitted rpcs')) (cluster (kSys s))"
    by (rule valid_mono [OF v]) (use grows_submitted_all [OF g] in blast)
  from rsm_service.sysRun_valid [OF so this r run(2,3)] have "valid (\<lambda>op. op \<in> set (submitted rpcs')) (cluster y)" .
  then show ?thesis using H'(1) chosen_reaches [OF H'(2)] by (intro exI [of _ H']) simp
qed

text \<open>What a server has executed.\<close>

lemma server_executed:
  assumes so: "rsm_service.service_ok n DoOp kvStart H y" and v: "valid (\<lambda>op. op \<in> set (submitted rpcs)) (cluster y)" and i: "i < n"
  shows "\<exists>C. executed (chosen H (cluster y)) rpcs C \<and> replica DoOp (kvStart i) C (svc y i)"
proof -
  let ?ch = "chosen H (cluster y)"
  have sd: "sound H (cluster y)" and ok: "rsm_ok DoOp kvStart n (receivedBy y) ?ch (svc y)"
    using so by (simp_all add: rsm_service.service_ok_def sys_ok_def)
  from ok i obtain vs where vs: "chosenList ?ch vs" "replica DoOp (kvStart i) (map castOp vs) (svc y i)" by (rule rsm_okE)
  have e: "\<exists>op. v = Some op \<and> op \<in> set (submitted rpcs)" if "v \<in> set vs" for v
    using that vs(1) chosen_valid [OF sd v] by (fastforce simp: chosenList_def in_set_conv_nth)
  have "map Some (map castOp vs) = vs" using e by (force simp: castOp_def intro: map_idI)
  moreover have "set (map castOp vs) \<subseteq> set (submitted rpcs)" using e by (fastforce simp: castOp_def)
  ultimately have "executed ?ch rpcs (map castOp vs)" using vs(1) by (simp add: executed_def del: map_map)
  then show ?thesis using vs(2) by blast
qed

text \<open>Hence a result that waits in a channel is the one of the operation that the call has made.\<close>

lemma inbox_result:
  assumes so: "rsm_service.service_ok n DoOp kvStart H y" and v: "valid (\<lambda>op. op \<in> set (submitted rpcs)) (cluster y)" and i: "i < n"
    and ids: "inj_on opId (set (submitted rpcs))" and op: "op \<in> set (submitted rpcs)" "opReq op = Some req" "inbox (svc y i) (opId op) = Some res"
  shows "\<exists>before. executed (chosen H (cluster y)) rpcs (before @ [op]) \<and> handlerReply req (OK, Some (orValue res)) = resultOf req before"
proof -
  obtain C where C: "executed (chosen H (cluster y)) rpcs C" "replica DoOp (kvStart i) C (svc y i)" using server_executed [OF so v i] by blast
  then obtain k where k: "k < length C" "opId (C ! k) = opId op" "orValue res = snd (DoOp (opReq (C ! k)) (replay DoOp (take k C) (kvStart i)))"
    using op(3) by (auto simp: replica_def inbox_ok_def)
  have "C ! k = op" using C(1) k(1,2) op(1) inj_onD [OF ids k(2)] by (auto simp: executed_def subset_iff)
  moreover have "executed (chosen H (cluster y)) rpcs (take k C @ [C ! k])"
    using C(1) k(1) by (auto simp: executed_def chosenList_def take_Suc_conv_app_nth [symmetric] simp del: map_append dest: in_set_takeD)
  ultimately show ?thesis
    using k(3) op(2) by (intro exI [of _ "take k C"]) (simp add: resultOf_def replay_kvStart DoOp_anywhere)
qed

lemma server_step:
  assumes inv: "sys_inv n H s" "client_inv ids (chosen H (cluster (kSys s))) LD s"
    and g: "grows (kRpcs s) (kRpcs s')" "length (kRpcs s') = length (kRpcs s)"
    and same: "kClerks s' = kClerks s" "kCalls s' = kCalls s" "kClock s' = kClock s" "kLog s' = kLog s"
    and run: "rsmRun DoOp Snapshot Restore kvStart evs (kSys s) = Some (Inr (kSys s'))" "list_all noSnapshots evs"
      "list_all (proposals (\<lambda>op. op \<in> set (submitted (kRpcs s')))) evs"
    and new: "\<And>ch c. c \<in> set (kRpcs s') \<Longrightarrow> (\<And>k v. chosen H (cluster (kSys s)) k v \<Longrightarrow> ch k v) \<Longrightarrow> rpc_ok n ch (kRpcs s') c"
  shows "\<exists>H' LD'. sys_inv n H' s' \<and> client_inv ids (chosen H' (cluster (kSys s'))) LD' s'"
proof -
  obtain H' where H': "rsm_service.service_ok n DoOp kvStart H' (kSys s')"
      "valid (\<lambda>op. op \<in> set (submitted (kRpcs s'))) (cluster (kSys s'))"
      "\<And>k v. chosen H (cluster (kSys s)) k v \<Longrightarrow> chosen H' (cluster (kSys s')) k v"
    using sys_progress [OF inv(1) g(1) run] by blast
  have r: "rpc_ok n (chosen H' (cluster (kSys s'))) (kRpcs s') c" if "c \<in> set (kRpcs s')" for c using new [OF that] H'(3) by blast
  then have "sys_inv n H' s'" using H'(1,2) by (simp add: sys_inv_def)
  moreover have "\<forall>c \<in> set (kRpcs s'). \<forall>op. rpcOp c = Some op \<longrightarrow> opReq op = Some (rpcReq c)" using r by (simp add: rpc_ok_def)
  then have "client_inv ids (chosen H' (cluster (kSys s'))) LD s'"
    by (intro client_inv_grows [OF inv(2) _ g same]) (rule H'(3))
  ultimately show ?thesis by blast
qed

lemma sys_invD:
  assumes "sys_inv n H s"
  shows "rsm_service.service_ok n DoOp kvStart H (kSys s)" "valid (\<lambda>op. op \<in> set (submitted (kRpcs s))) (cluster (kSys s))"
    "\<And>c. c \<in> set (kRpcs s) \<Longrightarrow> rpc_ok n (chosen H (cluster (kSys s))) (kRpcs s) c" "size (cluster (kSys s)) = n"
  using assms by (simp_all add: sys_inv_def rsm_service.service_ok_def)

lemma calls_grow_refl [simp]: "grows rpcs rpcs"
  by (simp add: grows_def)

lemma grows_update:
  assumes "k < length rpcs" "rpcReq c = rpcReq (rpcs ! k)" "rpcOp (rpcs ! k) = None \<or> rpcOp c = rpcOp (rpcs ! k)"
  shows "grows rpcs (rpcs[k := c])"
  using assms by (auto simp: grows_def nth_list_update)

lemma endHandlers_nth:
  assumes "k < length rpcs"
  shows "endHandlers ev rpcs ! k = rpcs ! k \<or> endHandlers ev rpcs ! k = (rpcs ! k)\<lparr>rpcSt := Ended\<rparr>"
  using assms by (auto simp: endHandlers_def split: sysEvent.split event.split rpcState.split)

lemma length_endHandlers [simp]: "length (endHandlers ev rpcs) = length rpcs"
  by (simp add: endHandlers_def split: sysEvent.split event.split)

lemma clusterStep_inv:
  assumes inv: "sys_inv n H s" "client_inv ids (chosen H (cluster (kSys s))) LD s"
    and st: "clusterStep ev s = Some s'" "noSnapshots ev"
  shows "\<exists>H' LD'. sys_inv n H' s' \<and> client_inv ids (chosen H' (cluster (kSys s'))) LD' s'"
proof (cases "ownEvent ev")
  case True
  then obtain y where y: "sysStep (rsmConsume DoOp Snapshot Restore) rsmWork (rsmRestart kvStart) ev (kSys s) = Some (Inr y)"
      "s' = s\<lparr>kSys := y, kRpcs := endHandlers ev (kRpcs s)\<rparr>"
    using st(1) by (auto simp: clusterStep_def split: option.splits sum.splits)
  have g: "grows (kRpcs s) (kRpcs s')" using endHandlers_nth [of _ "kRpcs s" ev] by (fastforce simp: grows_def y(2))
  show ?thesis
  proof (rule server_step [OF inv g, of "[ev]"])
    show "rsmRun DoOp Snapshot Restore kvStart [ev] (kSys s) = Some (Inr (kSys s'))" using y by (simp add: rsmRun_def)
    show "list_all (proposals (\<lambda>op. op \<in> set (submitted (kRpcs s')))) [ev]"
      using True by (auto simp: ownEvent_def proposals_def proposes_def split: sysEvent.splits event.splits)
    show "rpc_ok n ch (kRpcs s') c"
      if c: "c \<in> set (kRpcs s')" and ch: "\<And>k v. chosen H (cluster (kSys s)) k v \<Longrightarrow> ch k v" for ch c
    proof -
      obtain k where k: "k < length (kRpcs s)" "c = endHandlers ev (kRpcs s) ! k" using c by (auto simp: y(2) in_set_conv_nth)
      have "rpc_ok n ch (kRpcs s') (kRpcs s ! k)" using rpc_ok_mono [OF sys_invD(3) [OF inv(1)] ch g] k(1) by simp
      moreover have "rpc_ok n ch (kRpcs s') (c'\<lparr>rpcSt := Ended\<rparr>)" if "rpc_ok n ch (kRpcs s') c'" for c' using that by (simp add: rpc_ok_def)
      ultimately show ?thesis using endHandlers_nth [OF k(1), of ev] k(2) by metis
    qed
  qed (use st(2) y(2) in simp_all)
qed (use inv st in \<open>auto simp: clusterStep_def\<close>)

text \<open>A refused submission, or one that gave up, does not count.\<close>

lemma indefinite: "err = ErrWrongLeader \<or> err = ErrTimeOut \<Longrightarrow> \<not> definite (handlerReply req (err, v))"
  by (auto simp: definite_def handlerReply_def KVGet_def KVPut_def retryable_def split: kvreq.split)

lemma SubmitBegin_res:
  assumes "SubmitBegin now req rf r = Some (rf', r', res)"
  shows "res = Inl ErrWrongLeader \<or> (\<exists>term. res = Inr (fst (generateOpId now r), term) \<and> \<not> rsmKilled r)"
  using assms by (auto simp: SubmitBegin_def generateOpId_def Let_def bind_Some_iff split: if_splits)

lemma SubmitBegin_run:
  assumes st: "SubmitBegin now req (nodes (cluster y) i) (svc y i) = Some (rf, r, res)" and i: "active i (cluster y)"
  shows "\<exists>evs. rsmRun DoOp Snapshot Restore kvStart evs y = Some (Inr (y\<lparr>cluster := setNode i rf (cluster y), svc := (svc y)(i := r)\<rparr>)) \<and>
     list_all noSnapshots evs \<and>
     list_all (proposals (\<lambda>op. \<not> rsmKilled (svc y i) \<and> op = submitOp now req (svc y i))) evs"
proof (cases "rsmKilled (svc y i)")
  case True
  then have "rf = nodes (cluster y) i" "r = svc y i" using st by (simp_all add: SubmitBegin_def)
  then have "y\<lparr>cluster := setNode i rf (cluster y), svc := (svc y)(i := r)\<rparr> = y" by (simp add: setNode_def)
  then show ?thesis by (intro exI [of _ "[]"]) (simp add: rsmRun_def)
next
  case False
  let ?op = "submitOp now req (svc y i)" and ?id = "fst (generateOpId now (svc y i))"
  obtain ix "term" isLeader where s: "Start ?op (nodes (cluster y) i) = Some (rf, ix, term, isLeader)"
      "r = (if isLeader then register now (svc y i) else unregister ?id (register now (svc y i)))"
    using SubmitBegin_steps [OF st False] by (auto simp: submitOp_def)
  let ?evs = "[Local i (Register now), Net (ClientStart i ?op)] @ (if isLeader then [] else [Local i (Unregister ?id)])"
  have sz: "i < size (cluster y)" using i by (simp add: active_def)
  have "rsmRun DoOp Snapshot Restore kvStart ?evs y = Some (Inr (y\<lparr>cluster := setNode i rf (cluster y), svc := (svc y)(i := r)\<rparr>))"
    using s i sz by (simp add: rsmRun_def sysStep_def netStep_def step_def rsmWork_def setNode_def)
  moreover have "list_all noSnapshots ?evs" by (simp add: noSnapshots_def noSnapshot_def)
  moreover have "list_all (proposals (\<lambda>op. \<not> rsmKilled (svc y i) \<and> op = ?op)) ?evs" using False by (simp add: proposals_def proposes_def)
  ultimately show ?thesis by blast
qed

lemma rpc_ok_update:
  assumes inv: "sys_inv n H s" and ch: "\<And>k v. chosen H (cluster (kSys s)) k v \<Longrightarrow> ch k v" and g: "grows (kRpcs s) ((kRpcs s)[k := c])"
    and new: "rpc_ok n ch ((kRpcs s)[k := c]) c" and r: "r \<in> set ((kRpcs s)[k := c])"
  shows "rpc_ok n ch ((kRpcs s)[k := c]) r"
proof (cases "r = c")
  case False
  then have r': "r \<in> set (kRpcs s)" using r set_update_subset_insert by fastforce
  show ?thesis by (rule rpc_ok_mono [OF sys_invD(3) [OF inv r'] _ g]) (rule ch)
qed (use new in simp)

definition begun :: "(Err + 64 word \<times> int) \<Rightarrow> kvreq \<Rightarrow> rpcState" where
  "begun res req = (case res of Inl err \<Rightarrow> Answered (handlerReply req (err, None)) | Inr (ix, term) \<Rightarrow> InSubmit ix term)"

lemma handleRpc_cases:
  assumes "handleRpc k now s = Some s'"
  obtains "s' = s"
  | c i r rf r1 res where "k < length (kRpcs s)" "c = kRpcs s ! k" "i = rpcTo c" "r = svc (kSys s) i" "rpcSt c = OnWay" "active i (cluster (kSys s))"
    "SubmitBegin now (rpcReq c) (nodes (cluster (kSys s)) i) r = Some (rf, r1, res)"
    "s' = s\<lparr>kSys := (kSys s)\<lparr>cluster := setNode i rf (cluster (kSys s)), svc := (svc (kSys s))(i := r1)\<rparr>,
            kRpcs := (kRpcs s)[k := c\<lparr>rpcSt := begun res (rpcReq c), rpcOp := if rsmKilled r then None else Some (submitOp now (rpcReq c) r)\<rparr>]\<rparr>"
proof (cases "k < length (kRpcs s) \<and> rpcSt (kRpcs s ! k) = OnWay \<and> active (rpcTo (kRpcs s ! k)) (cluster (kSys s))")
  case True
  then obtain rf r res where b: "SubmitBegin now (rpcReq (kRpcs s ! k)) (nodes (cluster (kSys s)) (rpcTo (kRpcs s ! k)))
      (svc (kSys s) (rpcTo (kRpcs s ! k))) = Some (rf, r, res)"
    using assms by (auto simp: handleRpc_def Let_def bind_Some_iff)
  with True assms show ?thesis by (intro that(2) [OF _ refl refl refl _ _ b]) (simp_all add: handleRpc_def Let_def begun_def)
next
  case False
  then show ?thesis using assms by (intro that(1)) (auto simp: handleRpc_def Let_def)
qed

lemma handleRpc_inv:
  assumes inv: "sys_inv n H s" "client_inv ids (chosen H (cluster (kSys s))) LD s" and st: "handleRpc k now s = Some s'"
  shows "\<exists>H' LD'. sys_inv n H' s' \<and> client_inv ids (chosen H' (cluster (kSys s'))) LD' s'"
  using st
proof (cases rule: handleRpc_cases)
  case 1
  then show ?thesis using inv by blast
next
  case (2 c i r rf r1 res)
  let ?op = "submitOp now (rpcReq c) r"
  let ?c' = "c\<lparr>rpcSt := begun res (rpcReq c), rpcOp := if rsmKilled r then None else Some ?op\<rparr>"
  have n: "i < n" using 2(6) sys_invD(4) [OF inv(1)] by (simp add: active_def)
  have "rpcOp c = None" using sys_invD(3) [OF inv(1), of c] 2(1,2,5) by (simp add: rpc_ok_def)
  then have g: "grows (kRpcs s) (kRpcs s')" using grows_update [OF 2(1), of ?c'] 2(2) by (simp add: 2(8))
  obtain evs where evs: "rsmRun DoOp Snapshot Restore kvStart evs (kSys s) = Some (Inr (kSys s'))" "list_all noSnapshots evs"
      "list_all (proposals (\<lambda>op. \<not> rsmKilled r \<and> op = ?op)) evs"
    using SubmitBegin_run [OF 2(7) [unfolded 2(4)] 2(6)] by (auto simp: 2(4,8))
  have "op \<in> set (submitted (kRpcs s'))" if "\<not> rsmKilled r \<and> op = ?op" for op
    using that 2(1) by (auto simp: in_submitted 2(8) intro!: exI [of _ k])
  then have ev: "list_all (proposals (\<lambda>op. op \<in> set (submitted (kRpcs s')))) evs"
    using evs(3) by (auto simp: list_all_iff proposals_def proposes_def split: sysEvent.splits event.splits)
  have "rpc_ok n ch rpcs ?c'" for ch rpcs
    using SubmitBegin_res [OF 2(7)] n 2(3) indefinite by (auto simp: rpc_ok_def submitOp_def answered_ok_def begun_def)
  then have "rpc_ok n ch (kRpcs s') x" if "x \<in> set (kRpcs s')" "\<And>k v. chosen H (cluster (kSys s)) k v \<Longrightarrow> ch k v" for ch x
    using rpc_ok_update [OF inv(1), of ch k ?c' x] that g by (simp add: 2(8))
  then show ?thesis by (intro server_step [OF inv g _ _ _ _ _ evs(1,2) ev]) (simp_all add: 2(8))
qed

lemma SubmitSelect_run:
  assumes "SubmitSelect wk ix term rf (svc y i) = (r, res)" "i < size (cluster y)"
  shows "\<exists>evs. rsmRun DoOp Snapshot Restore kvStart evs y = Some (Inr (y\<lparr>svc := (svc y)(i := r)\<rparr>)) \<and>
     list_all noSnapshots evs \<and> list_all (proposals P) evs"
proof -
  have "r = svc y i \<or> r = unregister ix (svc y i)" using SubmitSelect_steps [of wk ix "term" rf "svc y i"] assms(1) by auto
  then show ?thesis
  proof
    assume "r = svc y i"
    then show ?thesis by (intro exI [of _ "[]"]) (simp add: rsmRun_def)
  next
    assume "r = unregister ix (svc y i)"
    then show ?thesis
      using assms(2) by (intro exI [of _ "[Local i (Unregister ix)]"])
        (simp add: rsmRun_def sysStep_def rsmWork_def noSnapshots_def proposals_def)
  qed
qed

lemma SubmitSelect_res:
  assumes "SubmitSelect wk ix term rf r = (r', Some (err, v))"
  shows "err = ErrWrongLeader \<or> err = ErrTimeOut \<or> (\<exists>res. inbox r ix = Some res \<and> err = OK \<and> v = Some (orValue res))"
  using assms by (auto simp: SubmitSelect_def GetState_def split: wake.splits option.splits if_splits)

lemma wakeRpc_inv:
  assumes inv: "sys_inv n H s" "client_inv ids (chosen H (cluster (kSys s))) LD s" and oi: "inj_on opId (set (submitted (kRpcs s)))"
  shows "\<exists>H' LD'. sys_inv n H' (wakeRpc k wk s) \<and> client_inv ids (chosen H' (cluster (kSys (wakeRpc k wk s)))) LD' (wakeRpc k wk s)"
proof -
  let ?c = "kRpcs s ! k" and ?y = "kSys s" and ?ch = "chosen H (cluster (kSys s))"
  let ?i = "rpcTo ?c"
  show ?thesis
  proof (cases "k < length (kRpcs s) \<and> (\<exists>ix term. rpcSt ?c = InSubmit ix term)")
    case True
    then obtain ix "term" where k: "k < length (kRpcs s)" and st: "rpcSt ?c = InSubmit ix term" by blast
    obtain r res where sel: "SubmitSelect wk ix term (nodes (cluster ?y) ?i) (svc ?y ?i) = (r, res)" by fastforce
    let ?c' = "?c\<lparr>rpcSt := case res of None \<Rightarrow> rpcSt ?c | Some x \<Rightarrow> Answered (handlerReply (rpcReq ?c) x)\<rparr>"
    let ?s = "s\<lparr>kSys := ?y\<lparr>svc := (svc ?y)(?i := r)\<rparr>, kRpcs := (kRpcs s)[k := ?c']\<rparr>"
    have s: "wakeRpc k wk s = ?s" using k st sel by (simp add: wakeRpc_def Let_def)
    have c: "rpc_ok n ?ch (kRpcs s) ?c" using sys_invD(3) [OF inv(1)] k by simp
    then obtain op where op: "?i < n" "rpcOp ?c = Some op" "opId op = ix" "opReq op = Some (rpcReq ?c)"
      using st by (auto simp: rpc_ok_def)
    have g: "grows (kRpcs s) (kRpcs ?s)" using grows_update [OF k, of ?c'] by simp
    obtain evs where evs: "rsmRun DoOp Snapshot Restore kvStart evs ?y = Some (Inr (kSys ?s))" "list_all noSnapshots evs"
        "list_all (proposals (\<lambda>op. op \<in> set (submitted (kRpcs ?s)))) evs"
      using SubmitSelect_run [OF sel, of "\<lambda>op. op \<in> set (submitted (kRpcs ?s))"] op(1) sys_invD(4) [OF inv(1)] by auto
    have ans: "answered_ok ?ch (kRpcs s) ?c (handlerReply (rpcReq ?c) (err, v))" if e: "res = Some (err, v)" for err v
    proof (cases "err = OK")
      case True
      then obtain x where x: "inbox (svc ?y ?i) (opId op) = Some x" "v = Some (orValue x)"
        using SubmitSelect_res [OF sel [unfolded e]] op(3) by auto
      have "op \<in> set (submitted (kRpcs s))" using op(2) k by (auto simp: in_submitted)
      then show ?thesis
        using inbox_result [OF sys_invD(1,2) [OF inv(1)] op(1) oi _ op(4) x(1)] op(2) True x(2) by (simp add: answered_ok_def)
    next
      case False
      then show ?thesis using SubmitSelect_res [OF sel [unfolded e]] indefinite by (auto simp: answered_ok_def)
    qed
    have "rpc_ok n ?ch (kRpcs s) ?c'"
      using c ans op st by (auto simp: rpc_ok_def answered_ok_def split: option.split)
    then have "rpc_ok n ch (kRpcs ?s) c" if "c \<in> set (kRpcs ?s)" "\<And>k v. ?ch k v \<Longrightarrow> ch k v" for ch c
      using rpc_ok_update [OF inv(1), of ch k ?c' c] rpc_ok_mono [OF _ that(2) g] that g by simp
    then show ?thesis unfolding s by (intro server_step [OF inv g _ _ _ _ _ evs]) simp_all
  next
    case False
    then have "wakeRpc k wk s = s" by (auto simp: wakeRpc_def Let_def split: rpcState.split)
    then show ?thesis using inv by auto
  qed
qed

section \<open>Runs\<close>

text \<open>A call on its way has no operation yet; so operations are never replaced.\<close>

definition fresh_calls :: "KvRpc list \<Rightarrow> bool" where
  "fresh_calls rpcs \<longleftrightarrow> (\<forall>c \<in> set rpcs. rpcSt c = OnWay \<longrightarrow> rpcOp c = None)"

lemma grows_trans: "grows a b \<Longrightarrow> grows b c \<Longrightarrow> grows a c"
  unfolding grows_def by (metis dual_order.strict_trans1 dual_order.trans)

lemma fresh_calls_update: "fresh_calls rpcs \<Longrightarrow> rpcSt c \<noteq> OnWay \<Longrightarrow> fresh_calls (rpcs[k := c])"
  unfolding fresh_calls_def using set_update_subset_insert [of rpcs k c] by auto

lemma fresh_calls_endHandlers: "fresh_calls rpcs \<Longrightarrow> fresh_calls (endHandlers ev rpcs)"
  by (auto simp: fresh_calls_def endHandlers_def split: sysEvent.split event.split rpcState.splits)

lemma endHandlers_grows: "grows rpcs (endHandlers ev rpcs)"
  using endHandlers_nth [of _ rpcs ev] by (fastforce simp: grows_def)

lemma wakeRpc_rpcs:
  "kRpcs (wakeRpc k wk s) = kRpcs s \<or> (\<exists>st. k < length (kRpcs s) \<and> st \<noteq> OnWay \<and> kRpcs (wakeRpc k wk s) = (kRpcs s)[k := (kRpcs s ! k)\<lparr>rpcSt := st\<rparr>])"
proof (cases "\<exists>ix term. k < length (kRpcs s) \<and> rpcSt (kRpcs s ! k) = InSubmit ix term")
  case True
  then obtain ix "term" where k: "k < length (kRpcs s)" "rpcSt (kRpcs s ! k) = InSubmit ix term" by blast
  obtain r res where "SubmitSelect wk ix term (nodes (cluster (kSys s)) (rpcTo (kRpcs s ! k))) (svc (kSys s) (rpcTo (kRpcs s ! k))) = (r, res)"
    by fastforce
  then show ?thesis using k by (cases res) (auto simp: wakeRpc_def Let_def)
qed (auto simp: wakeRpc_def Let_def split: rpcState.split)

lemma kvTestStep_grows:
  assumes f: "fresh_calls (kRpcs s)" and st: "kvTestStep ev s = Some s'"
  shows "grows (kRpcs s) (kRpcs s') \<and> fresh_calls (kRpcs s')"
proof (cases ev)
  case (Cluster e)
  then have "kRpcs s' = kRpcs s \<or> kRpcs s' = endHandlers e (kRpcs s)"
    using st by (auto simp: kvTestStep_def clusterStep_def split: if_splits option.splits sum.splits)
  then show ?thesis using f fresh_calls_endHandlers endHandlers_grows by auto
next
  case (SendRpc c)
  then have s': "s' = sendRpc c s" using st by (simp add: kvTestStep_def)
  then show ?thesis using sendRpc_grows [of s c] f by (auto simp: sendRpc_def fresh_calls_def split: option.split)
next
  case (HandleRpc k now)
  then have "handleRpc k now s = Some s'" using st by (simp add: kvTestStep_def)
  then show ?thesis
  proof (cases rule: handleRpc_cases)
    case (2 c i r rf r1 res)
    let ?c = "c\<lparr>rpcSt := begun res (rpcReq c), rpcOp := if rsmKilled r then None else Some (submitOp now (rpcReq c) r)\<rparr>"
    have "rpcSt ?c \<noteq> OnWay" by (simp add: begun_def split: sum.split prod.split)
    moreover have "rpcOp c = None" using f 2(1,2,5) by (simp add: fresh_calls_def)
    ultimately show ?thesis using grows_update [OF 2(1), of ?c] fresh_calls_update [OF f, of ?c k] 2(2) by (simp add: 2(8))
  qed (use f in simp)
next
  case (WakeRpc k wk)
  then have s': "s' = wakeRpc k wk s" using st by (simp add: kvTestStep_def)
  from wakeRpc_rpcs [of k wk s] show ?thesis
  proof (elim disjE exE conjE)
    fix st
    assume "k < length (kRpcs s)" "st \<noteq> OnWay" "kRpcs (wakeRpc k wk s) = (kRpcs s)[k := (kRpcs s ! k)\<lparr>rpcSt := st\<rparr>]"
    then show ?thesis
      using grows_update [of k "kRpcs s" "(kRpcs s ! k)\<lparr>rpcSt := st\<rparr>"] fresh_calls_update [OF f, of "(kRpcs s ! k)\<lparr>rpcSt := st\<rparr>" k]
      by (simp add: s')
  qed (use f s' in simp)
qed (use st f in \<open>auto simp: kvTestStep_def beginGetK_def beginPutK_def beginCall_def returnRpc_def finishCall_def Let_def
      split: if_splits option.splits sum.splits\<close>)

lemma kvTestRun_grows:
  "fresh_calls (kRpcs s) \<Longrightarrow> kvTestRun evs s = Some s' \<Longrightarrow> grows (kRpcs s) (kRpcs s')"
proof (induction evs arbitrary: s)
  case (Cons ev evs)
  then obtain s1 where s1: "kvTestStep ev s = Some s1" "kvTestRun evs s1 = Some s'" by (auto simp: bind_Some_iff)
  then show ?case using kvTestStep_grows [OF Cons.prems(1) s1(1)] Cons.IH [of s1] grows_trans by blast
qed simp

lemma sendRpc_sys:
  assumes "sys_inv n H s"
  shows "sys_inv n H (sendRpc c s)"
proof -
  let ?s = "sendRpc c s"
  note g = sendRpc_grows [of s c]
  have k: "kSys ?s = kSys s" by (simp add: sendRpc_def split: option.split)
  have "valid (\<lambda>op. op \<in> set (submitted (kRpcs ?s))) (cluster (kSys s))"
    by (rule valid_mono [OF sys_invD(2) [OF assms]]) (use grows_submitted_all [OF g] in blast)
  moreover have "rpc_ok n (chosen H (cluster (kSys s))) (kRpcs ?s) r" if "r \<in> set (kRpcs ?s)" for r
  proof (cases "r \<in> set (kRpcs s)")
    case True
    show ?thesis by (rule rpc_ok_mono [OF sys_invD(3) [OF assms True] _ g])
  next
    case False
    then show ?thesis using that by (auto simp: sendRpc_def rpc_ok_def split: option.splits if_splits)
  qed
  ultimately show ?thesis using sys_invD(1) [OF assms] by (simp add: sys_inv_def k)
qed

lemma sys_inv_cong: "sys_inv n H s \<Longrightarrow> kSys s' = kSys s \<Longrightarrow> kRpcs s' = kRpcs s \<Longrightarrow> sys_inv n H s'"
  by (simp add: sys_inv_def)

lemma kvTestStep_inv:
  assumes inv: "sys_inv n H s" "client_inv ids (chosen H (cluster (kSys s))) LD s" and ids: "inj ids"
    and st: "kvTestStep ev s = Some s'" "withoutSnapshots ev" and oi: "inj_on opId (set (submitted (kRpcs s)))"
  shows "\<exists>H' LD'. sys_inv n H' s' \<and> client_inv ids (chosen H' (cluster (kSys s'))) LD' s'"
proof -
  have own: "\<exists>H' LD'. sys_inv n H' s' \<and> client_inv ids (chosen H' (cluster (kSys s'))) LD' s'"
    if "client_inv ids (chosen H (cluster (kSys s))) LD' s'" "kSys s' = kSys s" "kRpcs s' = kRpcs s" for LD'
    using sys_inv_cong [OF inv(1)] that by (intro exI [of _ H] exI [of _ LD']) simp
  note ck = client_invD(5) [OF inv(2)]
  show ?thesis
  proof (cases ev)
    case (Cluster e)
    then show ?thesis using clusterStep_inv [OF inv] st by (simp add: kvTestStep_def withoutSnapshots_def)
  next
    case (BeginGet c key)
    have "client_inv ids (chosen H (cluster (kSys s))) LD (beginGetK c key s)" if "kCalls s c = None"
      unfolding beginGetK_def Let_def by (rule beginCall_inv [OF inv(2) ids that]) (simp_all add: reqKey_def ck)
    then show ?thesis using own [of LD] inv(2) st(1) BeginGet by (auto simp: kvTestStep_def beginGetK_def beginCall_def Let_def)
  next
    case (BeginPut c key val version)
    have "client_inv ids (chosen H (cluster (kSys s))) LD (beginPutK c key val version s)" if "kCalls s c = None"
      unfolding beginPutK_def Let_def by (rule beginCall_inv [OF inv(2) ids that]) (simp_all add: reqKey_def ck)
    then show ?thesis using own [of LD] inv(2) st(1) BeginPut by (auto simp: kvTestStep_def beginPutK_def beginCall_def Let_def)
  next
    case (SendRpc c)
    have "kSys (sendRpc c s) = kSys s" by (simp add: sendRpc_def split: option.split)
    then show ?thesis
      using sendRpc_inv [OF inv(2)] sendRpc_sys [OF inv(1)] st(1) SendRpc
      by (intro exI [of _ H] exI [of _ LD]) (auto simp: kvTestStep_def)
  next
    case (HandleRpc k now)
    then show ?thesis using handleRpc_inv [OF inv] st(1) by (simp add: kvTestStep_def)
  next
    case (WakeRpc k wk)
    then have "s' = wakeRpc k wk s" using st(1) by (simp add: kvTestStep_def)
    then show ?thesis using wakeRpc_inv [OF inv oi] by simp
  next
    case (ReturnRpc c okay)
    have "kSys (returnRpc c okay s) = kSys s" "kRpcs (returnRpc c okay s) = kRpcs s"
      by (simp_all add: returnRpc_def finishCall_def Let_def split: option.split sum.split)
    then show ?thesis
      using returnRpc_inv [OF inv(2) ids] sys_invD(3) [OF inv(1)] own st(1) ReturnRpc by (fastforce simp: kvTestStep_def)
  next
    case (Tick d)
    then have "s' = s\<lparr>kClock := kClock s + int d\<rparr>" using st(1) by (simp add: kvTestStep_def)
    then show ?thesis using own [of LD] kvTick_inv [OF inv(2), of d] by simp
  qed
qed

lemma kvTestRun_inv:
  "sys_inv n H s \<Longrightarrow> client_inv ids (chosen H (cluster (kSys s))) LD s \<Longrightarrow> inj ids \<Longrightarrow> fresh_calls (kRpcs s) \<Longrightarrow>
   kvTestRun evs s = Some s' \<Longrightarrow> list_all withoutSnapshots evs \<Longrightarrow> inj_on opId (set (submitted (kRpcs s'))) \<Longrightarrow>
     \<exists>H' LD'. sys_inv n H' s' \<and> client_inv ids (chosen H' (cluster (kSys s'))) LD' s'"
proof (induction evs arbitrary: s H LD)
  case (Cons ev evs)
  obtain s1 where s1: "kvTestStep ev s = Some s1" "kvTestRun evs s1 = Some s'" using Cons.prems(5) by (auto simp: bind_Some_iff)
  have f: "fresh_calls (kRpcs s1)" using kvTestStep_grows [OF Cons.prems(4) s1(1)] by blast
  have "set (submitted (kRpcs s)) \<subseteq> set (submitted (kRpcs s'))"
    using grows_submitted_all kvTestRun_grows [OF Cons.prems(4,5)] by blast
  then have "inj_on opId (set (submitted (kRpcs s)))" using inj_on_subset Cons.prems(7) by blast
  then obtain H1 LD1 where "sys_inv n H1 s1" "client_inv ids (chosen H1 (cluster (kSys s1))) LD1 s1"
    using kvTestStep_inv [OF Cons.prems(1-3) s1(1)] Cons.prems(6) by auto
  then show ?case using Cons.IH [OF _ _ Cons.prems(3) f s1(2)] Cons.prems(6,7) by simp
qed auto

lemma kvTestInit_inv:
  "sys_inv n [0 \<mapsto> [zeroEntry]] (kvTestInit n ids)" "client_inv ids ch [] (kvTestInit n ids)" "fresh_calls (kRpcs (kvTestInit n ids))"
proof -
  have "rsm_ok DoOp kvStart n (\<lambda>_. 0) (\<lambda>_ _. False) (freshRSM kvStart)"
    using freshRSM_replica unfolding rsm_ok_def
    by (intro allI impI conjI exI [of _ "[]"]) (simp_all add: freshRSM_def chosenList_def)
  then show "sys_inv n [0 \<mapsto> [zeroEntry]] (kvTestInit n ids)"
    using rsm_service.init_service unfolding sys_inv_def kvTestInit_def rsmInit_def by (simp add: init_valid initSys_def)
  show "client_inv ids ch [] (kvTestInit n ids)" "fresh_calls (kRpcs (kvTestInit n ids))"
    by (simp_all add: client_inv_def kvTestInit_def history_def MakeClerk_def fresh_calls_def)
qed

text \<open>When no call is under way, one sequence has all operations of the log.\<close>

lemma quiet_covers:
  assumes inv: "sys_inv n H s" "client_inv ids (chosen H (cluster (kSys s))) LD s" and quiet: "kCalls s = Map.empty"
  shows "\<exists>C. covers C LD"
proof -
  let ?ch = "chosen H (cluster (kSys s))" and ?f = "\<lambda>d. map Some (dBefore d @ [dOp d])"
  have sd: "sound H (cluster (kSys s))" using sys_invD(1) [OF inv(1)] by (simp add: rsm_service.service_ok_def sys_ok_def)
  have ag: "agreed ?ch" using chosen_unique [OF sd] unfolding agreed_def by blast
  have "chosenList ?ch (?f (snd (LD ! i)))" if "i < length LD" for i using client_invD(3) [OF inv(2)] that by (simp add: done_ok_def)
  with longest_chosen [OF ag, of "length LD" "\<lambda>i. ?f (snd (LD ! i))"] obtain W where W: "chosenList ?ch W"
    "\<And>i. i < length LD \<Longrightarrow> ?f (snd (LD ! i)) = take (length (?f (snd (LD ! i)))) W \<and> length (?f (snd (LD ! i))) \<le> length W" by blast
  have op: "\<exists>op. v = Some op \<and> op \<in> set (submitted (kRpcs s))" if "v \<in> set W" for v
    using that W(1) chosen_valid [OF sd sys_invD(2) [OF inv(1)]] by (fastforce simp: chosenList_def in_set_conv_nth)
  have "opReq (the v) \<in> (\<lambda>x. Some (dReq (snd x))) ` set LD" if v: "v \<in> set W" for v
  proof -
    obtain k where k: "k < length (kRpcs s)" "rpcOp (kRpcs s ! k) = v" using op [OF v] by (auto simp: in_submitted)
    obtain x where "x \<in> set LD" "dReq (snd x) = rpcReq (kRpcs s ! k)" using client_invD(4) [OF inv(2), of "kRpcs s ! k"] k(1) quiet by auto
    moreover have "opReq (the v) = Some (rpcReq (kRpcs s ! k))"
      using client_invD(2) [OF inv(2)] k op [OF v] by (auto simp: history_def)
    ultimately show ?thesis by force
  qed
  moreover have "dBefore d @ [dOp d] = take (Suc (length (dBefore d))) (map the W) \<and> length (dBefore d) < length W" if x: "(opn, d) \<in> set LD" for opn d
  proof -
    obtain i where "i < length LD" "snd (LD ! i) = d" using x by (auto simp: in_set_conv_nth)
    with W(2) [of i] have e: "take (Suc (length (dBefore d))) W = ?f d" and l: "length (dBefore d) < length W" by auto
    have "map the (?f d) = dBefore d @ [dOp d]" by (simp add: comp_def)
    then show ?thesis using l by (simp only: take_map e)
  qed
  ultimately show ?thesis unfolding covers_def by (intro exI [of _ "map the W"]) auto
qed

text \<open>C6: linearizability of the replicated store. Any number of clerks call \<^verbatim>\<open>Get\<close> and \<^verbatim>\<open>Put\<close> on a cluster
  that runs without snapshots; requests and replies are lost or late, messages between the
  servers are lost, delayed, reordered and duplicated, leaders change, servers crash and
  restart. When no call is under way any more, the operations that the test library has
  recorded, with the times of their calls and returns, are linearizable for the model of the
  store, key by key, and the last check of the tests does not fail. Client ids are distinct, and
  so are the ids that \<^verbatim>\<open>Submit\<close> gives to different operations; puts that were answered \<^verbatim>\<open>ErrNoKey\<close>
  are unknown to the model.\<close>

theorem kv_cluster_linearizable:
  assumes "kvTestRun evs (kvTestInit n ids) = Some s" and "list_all withoutSnapshots evs"
    and "inj ids" and "inj_on opId (set (submitted (kRpcs s)))"
    and "kCalls s = Map.empty" and "noErrNoKey (kLog s)" and "length (kLog s) < 2 ^ 64" and "sound_checker check"
  shows "list_all linearizable (modelPartition (OpLogRead (kLog s))) \<and>
     fst (checkPorcupine check enabled opened order t (kLog s) an)"
proof -
  obtain H LD where inv: "sys_inv n H s" "client_inv ids (chosen H (cluster (kSys s))) LD s"
    using kvTestRun_inv [OF kvTestInit_inv(1,2) assms(3) kvTestInit_inv(3) assms(1,2,4)] by blast
  note log = client_invD(1) [OF inv(2)]
  obtain C where C: "covers C LD" using quiet_covers [OF inv assms(5)] by blast
  have "length LD < 2 ^ 64" using assms(7) unfolding log [symmetric] by simp
  then have "linearizable (opsOf k (kLog s))" for k
    using history_linearizable [OF client_invD(2) [OF inv(2)] C, of k] assms(6) log by simp
  then have "list_all linearizable (modelPartition (OpLogRead (kLog s)))"
    by (auto simp: list_all_iff modelPartition_eq OpLogRead_def)
  then show ?thesis using checkPorcupine_passes [OF assms(8)] by blast
qed

text \<open>A put whose first reply is lost is tried at every server, reaches the leader again, and is
  answered from its table; a get of another client overlaps with the retries.\<close>

definition linEvents :: "kvEvent list" where
  "linEvents =
     map (\<lambda>e. Cluster (Net e)) [Elect 0 (1, 1), DeliverVote 0 1 (1, 1), HandleVote 0 1 True] @
     [BeginPut 0 ''k'' ''v'' 0, SendRpc 0, HandleRpc 0 1] @
     map (\<lambda>e. Cluster (Net e)) [SendTo 0 1, DeliverAppend 0 (2, 2), HandleAppend 0 True] @
     [Cluster (ApplierStep 0), Cluster (Receive 0), WakeRpc 0 ResultReady, ReturnRpc 0 False, Tick 5, BeginGet 1 ''k'',
      SendRpc 0, HandleRpc 1 2, ReturnRpc 0 True, SendRpc 0, HandleRpc 2 9, ReturnRpc 0 True, SendRpc 0, HandleRpc 3 3,
      SendRpc 1, HandleRpc 4 4] @
     map (\<lambda>e. Cluster (Net e)) [SendTo 0 1, DeliverAppend 1 (2, 2), HandleAppend 1 True] @
     [Cluster (ApplierStep 0), Cluster (ApplierStep 0), Cluster (Receive 0), Cluster (Receive 0),
      WakeRpc 3 ResultReady, ReturnRpc 0 True, Tick 1, WakeRpc 4 ResultReady, ReturnRpc 1 True]"

text \<open>Only the clients of its events have calls in a run.\<close>

definition startsCall :: "int \<Rightarrow> kvEvent \<Rightarrow> bool" where
  "startsCall c ev = (case ev of BeginGet d _ \<Rightarrow> d = c | BeginPut d _ _ _ \<Rightarrow> d = c | _ \<Rightarrow> False)"

lemma kvTestStep_idle:
  assumes "kCalls s c = None" "kvTestStep ev s = Some s'" "\<not> startsCall c ev"
  shows "kCalls s' c = None"
proof (cases ev)
  case (HandleRpc k now)
  then have "handleRpc k now s = Some s'" using assms(2) by (simp add: kvTestStep_def)
  then show ?thesis by (cases rule: handleRpc_cases) (use assms(1) in simp_all)
next
  case (WakeRpc k wk)
  have "kCalls (wakeRpc k wk s) = kCalls s"
    by (auto simp: wakeRpc_def Let_def split: rpcState.split prod.split)
  then show ?thesis using assms WakeRpc by (auto simp: kvTestStep_def)
qed (use assms in \<open>auto simp: kvTestStep_def startsCall_def clusterStep_def beginGetK_def beginPutK_def beginCall_def sendRpc_def
      returnRpc_def finishCall_def Let_def split: if_splits option.splits sum.splits\<close>)

lemma kvTestRun_idle:
  "kCalls s c = None \<Longrightarrow> kvTestRun evs s = Some s' \<Longrightarrow> \<not> list_ex (startsCall c) evs \<Longrightarrow> kCalls s' c = None"
proof (induction evs arbitrary: s)
  case (Cons ev evs)
  then obtain s1 where s1: "kvTestStep ev s = Some s1" "kvTestRun evs s1 = Some s'" by (auto simp: bind_Some_iff)
  have "kCalls s1 c = None" using kvTestStep_idle [OF Cons.prems(1) s1(1)] Cons.prems(3) by simp
  then show ?case using Cons.IH [OF _ s1(2)] Cons.prems(3) by simp
qed simp

lemma linEvents_run:
  "case kvTestRun linEvents (kvTestInit 3 id) of
     Some s \<Rightarrow> kLog s = [putOp 0 ''k'' ''v'' 0 0 5 OK, getOp 1 ''k'' 5 6 \<lparr>grValue = ''v'', grVersion = 1, grErr = OK\<rparr>] \<and>
       distinct (map opId (submitted (kRpcs s))) \<and> kCalls s 0 = None \<and> kCalls s 1 = None
   | None \<Rightarrow> False"
  by code_simp

theorem kv_cluster_linearizable_witness:
  "list_all linearizable (modelPartition
     [putOp 0 ''k'' ''v'' 0 0 5 OK, getOp 1 ''k'' 5 6 \<lparr>grValue = ''v'', grVersion = 1, grErr = OK\<rparr>])"
proof -
  let ?log = "[putOp 0 ''k'' ''v'' 0 0 5 OK, getOp 1 ''k'' 5 6 \<lparr>grValue = ''v'', grVersion = 1, grErr = OK\<rparr>]"
  from linEvents_run obtain s where s: "kvTestRun linEvents (kvTestInit 3 id) = Some s" "kLog s = ?log"
      "distinct (map opId (submitted (kRpcs s)))" "kCalls s 0 = None" "kCalls s 1 = None"
    by (auto split: option.splits)
  have "kCalls s c = None" for c
  proof (cases "c = 0 \<or> c = 1")
    case False
    then have "\<not> list_ex (startsCall c) linEvents" by (simp add: linEvents_def startsCall_def)
    then show ?thesis using kvTestRun_idle [OF _ s(1), of c] by (simp add: kvTestInit_def)
  qed (use s(4,5) in auto)
  moreover have "list_all withoutSnapshots linEvents" by code_simp
  moreover have "inj_on opId (set (submitted (kRpcs s)))" using s(3) by (simp add: distinct_map)
  moreover have "sound_checker (\<lambda>ops. if list_all linearizable (modelPartition ops) then CheckOk else CheckIllegal)"
    by (simp add: sound_checker_def)
  ultimately show ?thesis
    using kv_cluster_linearizable [OF s(1)] s(2) by (simp add: fun_eq_iff noErrNoKey_def putOp_def getOp_def OpLogRead_def)
qed

section \<open>Colliding ids\<close>

text \<open>Two servers that each submit their first operation at the same nanosecond.\<close>

definition collideEvents :: "kvEvent list" where
  "collideEvents =
     map (\<lambda>e. Cluster (Net e)) [Elect 0 (1, 1), DeliverVote 0 1 (1, 1), HandleVote 0 1 True] @
     [BeginPut 0 ''k'' ''a'' 0, SendRpc 0, HandleRpc 0 7] @
     map (\<lambda>e. Cluster (Net e)) [Elect 1 (3, 3), DeliverVote 1 2 (3, 3), HandleVote 1 2 True] @
     [BeginPut 1 ''k'' ''b'' 0, SendRpc 1, ReturnRpc 1 False, SendRpc 1, HandleRpc 2 7] @
     map (\<lambda>e. Cluster (Net e)) [SendTo 1 2, DeliverAppend 0 (4, 4), HandleAppend 0 True, SendTo 1 0, DeliverAppend 1 (4, 4)] @
     [Cluster (ApplierStep 0), Cluster (Receive 0), Cluster (ApplierStep 1), Cluster (Receive 1),
      WakeRpc 0 ResultReady, ReturnRpc 0 True, WakeRpc 2 ResultReady, ReturnRpc 1 True]"

lemma collideEvents_run:
  "case kvTestRun collideEvents (kvTestInit 3 id) of
     Some s \<Rightarrow> kLog s = [putOp 0 ''k'' ''a'' 0 0 0 OK, putOp 1 ''k'' ''b'' 0 0 0 OK] \<and>
       KeyValue (sm (svc (kSys s) 0)) ''k'' = Some ''b'' \<and> KeyValue (sm (svc (kSys s) 1)) ''k'' = Some ''b''
   | None \<Rightarrow> False"
  by code_simp

text \<open>C27: an acknowledged put that never happened. Operation ids are made of the clock and of a counter
  of the server, and the reader hands a result to whoever waits for the id, without looking at
  the server that submitted the operation. In this run a leader that has lost its majority
  waits for a put of client 0 while a newer leader commits a put of client 1 with the same id. The
  old leader applies that one and reports \<^verbatim>\<open>OK\<close> to client 0, whose put has been overwritten. Both
  puts have asked for version 0 of one key and both are answered \<^verbatim>\<open>OK\<close>; the history is not
  linearizable.\<close>

theorem colliding_ids_acknowledge_lost_put:
  "\<exists>s. kvTestRun collideEvents (kvTestInit 3 id) = Some s \<and>
     kLog s = [putOp 0 ''k'' ''a'' 0 0 0 OK, putOp 1 ''k'' ''b'' 0 0 0 OK] \<and>
     KeyValue (sm (svc (kSys s) 0)) ''k'' = Some ''b'' \<and> KeyValue (sm (svc (kSys s) 1)) ''k'' = Some ''b'' \<and>
     \<not> linearizable (opsOf ''k'' (kLog s))"
proof -
  let ?a = "putOp 0 ''k'' ''a'' 0 0 0 OK" and ?b = "putOp 1 ''k'' ''b'' 0 0 0 OK"
  have "modelRun modelInit xs = None" if "mset xs = mset [?a, ?b]" for xs
  proof -
    have "set xs = {?a, ?b}" "length xs = 2" using that by (metis list.simps(15) set_empty set_mset_mset empty_set, metis length_Cons list.size(3) numeral_2_eq_2 size_mset)
    then obtain x y where "xs = [x, y]" "{x, y} = {?a, ?b}" by (auto simp: numeral_2_eq_2 length_Suc_conv)
    then show ?thesis by (auto simp: doubleton_eq_iff modelStep_def putOp_def modelInit_def)
  qed
  then have "\<not> linearizable [?a, ?b]" by (auto simp: linearizable_def)
  moreover have "opsOf ''k'' [?a, ?b] = [?a, ?b]" by (simp add: opsOf_def putOp_def)
  moreover from collideEvents_run obtain s where "kvTestRun collideEvents (kvTestInit 3 id) = Some s" "kLog s = [?a, ?b]"
      "KeyValue (sm (svc (kSys s) 0)) ''k'' = Some ''b''" "KeyValue (sm (svc (kSys s) 1)) ''k'' = Some ''b''"
    by (auto split: option.splits)
  ultimately show ?thesis by auto
qed

end
