(* ===== verification/Rsm_Counter.thy ===== *)
theory Rsm_Counter
  imports Rsm_System
begin

text \<open>
  The service with which the tests exercise the state machine layer, a counter
  (\<^verbatim>\<open>src/kvraft1/rsm/server.go\<close>), and the helpers of these tests (\<^verbatim>\<open>src/kvraft1/rsm/test.go\<close>): a
  second service of the layer, with its own theorem about the cluster.
\<close>

section \<open>The counter\<close>

datatype rsmReq = Inc | Null | Dec
datatype rsmRep = IncRep int | NullRep

record rsmSrv =
  counter :: int

definition makeRsmSrv :: "nat \<Rightarrow> rsmSrv" where
  "makeRsmSrv srv = \<lparr>counter = 0\<rparr>"

text \<open>\<open>None\<close> as the reply: \<^verbatim>\<open>log.Fatalf\<close>, which ends the process.\<close>

definition CounterDoOp :: "rsmReq option \<Rightarrow> rsmSrv \<Rightarrow> rsmSrv \<times> rsmRep option" where
  "CounterDoOp req rs =
     (case req of
        Some Inc \<Rightarrow> let rs1 = rs\<lparr>counter := counter rs + 1\<rparr> in (rs1, Some (IncRep (counter rs1)))
      | Some Null \<Rightarrow> (rs, Some NullRep)
      | _ \<Rightarrow> (rs, None))"

definition CounterSnapshot :: "rsmSrv \<Rightarrow> int list" where
  "CounterSnapshot rs = [counter rs]"

text \<open>\<open>None\<close>: the value cannot be decoded, \<^verbatim>\<open>log.Fatalf\<close>.\<close>

definition CounterRestore :: "int list \<Rightarrow> rsmSrv \<Rightarrow> rsmSrv option" where
  "CounterRestore data rs = (case data of [] \<Rightarrow> None | c # _ \<Rightarrow> Some (rs\<lparr>counter := c\<rparr>))"

interpretation counter_sm: state_machine CounterDoOp CounterSnapshot CounterRestore "\<lambda>_. True"
  by unfold_locales (simp_all add: CounterSnapshot_def CounterRestore_def)

section \<open>The tests\<close>

text \<open>A nil partition is everything.\<close>

definition inPartition :: "nat \<Rightarrow> nat list option \<Rightarrow> bool" where
  "inPartition s p = (case p of None \<Rightarrow> True | Some l \<Rightarrow> list_ex (\<lambda>i. s = i) l)"

text \<open>One round over \<open>n\<close> servers from \<open>index\<close> on. \<open>submit s\<close> is what \<^verbatim>\<open>Submit\<close> of server \<open>s\<close> returns;
  \<open>None\<close>: not connected, or without a state machine layer.\<close>

fun tryServers :: "nat \<Rightarrow> nat \<Rightarrow> nat list option \<Rightarrow> (nat \<Rightarrow> (Err \<times> 'r) option) \<Rightarrow> nat \<Rightarrow> (nat \<times> 'r) option" where
  "tryServers 0 n p submit index = None"
| "tryServers (Suc k) n p submit index =
     (case (if inPartition index p then submit index else None) of
        Some (err, rep) \<Rightarrow> if err = OK then Some (index, rep) else tryServers k n p submit ((index + 1) mod n)
      | None \<Rightarrow> tryServers k n p submit ((index + 1) mod n))"

text \<open>The rounds until the deadline, with the answers of each; the leader is remembered.\<close>

fun onePartition :: "nat \<Rightarrow> nat list option \<Rightarrow> (nat \<Rightarrow> (Err \<times> 'r) option) list \<Rightarrow> nat \<Rightarrow> (nat \<times> 'r) option" where
  "onePartition n p [] leader = None"
| "onePartition n p (submit # rounds) leader =
     (case tryServers n n p submit leader of
        Some r \<Rightarrow> Some r
      | None \<Rightarrow> onePartition n p rounds leader)"

definition countValue :: "int \<Rightarrow> (nat \<Rightarrow> rsmSrv) \<Rightarrow> nat \<Rightarrow> nat" where
  "countValue v srvs n = foldl (\<lambda>i s. if counter (srvs s) = v then i + 1 else i) 0 [0..<n]"

text \<open>\<^verbatim>\<open>checkCounter\<close> on what the polls find, 30 in the code; \<open>Inl\<close> is the failure, with the last count.\<close>

fun checkCounter :: "int \<Rightarrow> nat \<Rightarrow> nat \<Rightarrow> nat \<Rightarrow> (nat \<Rightarrow> rsmSrv) list \<Rightarrow> nat + unit" where
  "checkCounter v nsrv n found [] = Inl found"
| "checkCounter v nsrv n found (srvs # polls) =
     (let k = countValue v srvs n in if k \<ge> nsrv then Inr () else checkCounter v nsrv n k polls)"

text \<open>The first server whose Raft peer leads; \<open>st i\<close> is what its \<^verbatim>\<open>GetState\<close> returns when it is asked.\<close>

definition LeaderOf :: "nat \<Rightarrow> (nat \<Rightarrow> int \<times> bool) \<Rightarrow> bool \<times> nat" where
  "LeaderOf n st = (case find (\<lambda>i. snd (st i)) [0..<n] of Some i \<Rightarrow> (True, i) | None \<Rightarrow> (False, 0))"

lemma countValue_filter: "countValue v srvs n = length (filter (\<lambda>s. counter (srvs s) = v) [0..<n])"
proof -
  have "foldl (\<lambda>i s. if counter (srvs s) = v then i + 1 else i) a xs = a + length (filter (\<lambda>s. counter (srvs s) = v) xs)" for a xs
    by (induction xs arbitrary: a) auto
  then show ?thesis by (simp add: countValue_def)
qed

text \<open>A round tries every server: it succeeds if one of the partition accepts.\<close>

lemma tryServers_tried:
  assumes "tryServers k n p submit index = None" "d < k" "index < n" "inPartition ((index + d) mod n) p"
  shows "submit ((index + d) mod n) \<noteq> Some (OK, rep)"
  using assms
proof (induction k arbitrary: d index)
  case (Suc k)
  show ?case
  proof (cases d)
    case 0
    then show ?thesis using Suc.prems by (auto split: option.splits if_splits)
  next
    case (Suc e)
    have "tryServers k n p submit ((index + 1) mod n) = None"
      using Suc.prems(1) by (auto split: option.splits if_splits prod.splits)
    moreover have "((index + 1) mod n + e) mod n = (index + d) mod n" by (simp add: Suc mod_simps)
    ultimately show ?thesis using Suc.IH [of "(index + 1) mod n" e] Suc.prems Suc by simp
  qed
qed simp

text \<open>Whatever the tests get is the reply of a server of the partition.\<close>

lemma tryServers_reply:
  "tryServers k n p submit index = Some (s, rep) \<Longrightarrow> submit s = Some (OK, rep) \<and> inPartition s p"
  by (induction k arbitrary: index) (auto split: option.splits if_splits prod.splits)

section \<open>The counter on a cluster\<close>

definition incs :: "rsmReq Op list \<Rightarrow> int" where
  "incs C = int (length (filter (\<lambda>op. opReq op = Some Inc) C))"

definition wellTyped :: "rsmReq Op \<Rightarrow> bool" where
  "wellTyped op \<longleftrightarrow> opReq op = Some Inc \<or> opReq op = Some Null"

lemma incs_strict:
  assumes "k < k'" "k' < length C" "opReq (C ! k') = Some Inc"
  shows "incs (take (Suc k) C) < incs (take (Suc k') C)"
proof -
  have "take (Suc k') C = take (Suc k) C @ drop (Suc k) (take (Suc k') C)"
    using assms(1) by (metis Suc_le_mono append_take_drop_id less_imp_le min.absorb1 take_take)
  moreover have "drop (Suc k) (take (Suc k') C) = drop (Suc k) (take k' C) @ [C ! k']"
    using assms(1,2) by (simp add: take_Suc_conv_app_nth)
  ultimately have "take (Suc k') C = take (Suc k) C @ drop (Suc k) (take k' C) @ [C ! k']" by (simp only:)
  then show ?thesis using assms(3) by (simp add: incs_def)
qed

lemma replay_counter: "counter (replay CounterDoOp C rs) = counter rs + incs C"
  by (induction C arbitrary: rs) (auto simp: CounterDoOp_def incs_def Let_def split: option.split rsmReq.split)

text \<open>C37: the counter on a cluster. If the clients submit only \<^verbatim>\<open>Inc\<close> and \<^verbatim>\<open>Null\<close>, then in every run
  without snapshots and every continuation of it, with all losses, crashes and restarts, no
  server runs into the fatal error of \<^verbatim>\<open>DoOp\<close>, and there is one sequence of operations such that
  the counter of every server is the number of increments in the prefix it has executed. If no
  two of the submitted operations have the same id, the number that a waiting \<^verbatim>\<open>Inc\<close> gets is the
  number of increments up to and including itself at a place of it in the sequence, so that
  different calls of \<^verbatim>\<open>Inc\<close>, on whatever servers, get different numbers.\<close>

theorem counter_cluster_counts:
  assumes "rsmRun CounterDoOp CounterSnapshot CounterRestore makeRsmSrv evs (rsmInit makeRsmSrv n) = Some (Inr y)"
    and "rsmRun CounterDoOp CounterSnapshot CounterRestore makeRsmSrv evs' y = Some z"
    and "list_all noSnapshots (evs @ evs')" "list_all (proposals wellTyped) (evs @ evs')"
  shows "\<exists>y' C. z = Inr y' \<and> list_all wellTyped C \<and>
     (\<forall>x \<in> {y, y'}. \<forall>i < n. receivedBy x i \<le> int (length C) \<and>
        counter (sm (svc x i)) = incs (take (nat (receivedBy x i)) C)) \<and>
     (inj_on opId {op. \<exists>j. Net (ClientStart j op) \<in> set (evs @ evs')} \<longrightarrow>
        (\<forall>x \<in> {y, y'}. \<forall>i < n. \<forall>j op res. Net (ClientStart j op) \<in> set (evs @ evs') \<and> inbox (svc x i) (opId op) = Some res \<longrightarrow>
           (\<exists>k < nat (receivedBy x i). C ! k = op \<and>
              orValue res = Some (if opReq op = Some Inc then IncRep (incs (take (Suc k) C)) else NullRep))) \<and>
        (\<forall>x \<in> {y, y'}. \<forall>x' \<in> {y, y'}. \<forall>i < n. \<forall>i' < n. \<forall>j j' op op' res res'.
           Net (ClientStart j op) \<in> set (evs @ evs') \<and> Net (ClientStart j' op') \<in> set (evs @ evs') \<and> op \<noteq> op' \<and>
           opReq op = Some Inc \<and> opReq op' = Some Inc \<and>
           inbox (svc x i) (opId op) = Some res \<and> inbox (svc x' i') (opId op') = Some res' \<longrightarrow> orValue res \<noteq> orValue res'))"
proof -
  let ?P = "\<lambda>op. \<exists>j. Net (ClientStart j op) \<in> set (evs @ evs')"
  let ?Q = "\<lambda>op. wellTyped op \<and> ?P op"
  have any: "list_all (proposals (\<lambda>_. True)) evs"
    unfolding list_all_iff by (auto simp: proposals_def proposes_def split: sysEvent.splits event.splits)
  have "list_all (proposals ?Q) (evs @ evs')"
    using assms(4) unfolding list_all_iff by (auto simp: proposals_def proposes_def split: sysEvent.splits event.splits)
  then obtain y' C where C: "z = Inr y'" "list_all ?Q C" "follow CounterDoOp makeRsmSrv n C y" "follow CounterDoOp makeRsmSrv n C y'"
    using rsmRun_follow [OF assms(1-3), of ?Q "\<lambda>_. True"] any by blast
  let ?rep = "\<lambda>k. Some (if opReq (C ! k) = Some Inc then IncRep (incs (take (Suc k) C)) else NullRep)"
  have step: "snd (CounterDoOp (opReq (C ! k)) (replay CounterDoOp (take k C) (makeRsmSrv i))) = ?rep k" if "k < length C" for k i
    using C(2) that by (auto simp: list_all_length wellTyped_def CounterDoOp_def Let_def replay_counter makeRsmSrv_def
        incs_def take_Suc_conv_app_nth)
  have count: "receivedBy x i \<le> int (length C) \<and> counter (sm (svc x i)) = incs (take (nat (receivedBy x i)) C)"
    if "follow CounterDoOp makeRsmSrv n C x" "i < n" for x i
    using that by (auto simp: follow_def replica_def replay_counter makeRsmSrv_def)
  have own: "\<exists>k < nat (receivedBy x i). k < length C \<and> C ! k = op \<and> orValue res = ?rep k"
    if f: "follow CounterDoOp makeRsmSrv n C x" "i < n" and inj: "inj_on opId {op. ?P op}" "?P op"
      and r: "inbox (svc x i) (opId op) = Some res" for x i op res
  proof -
    obtain k where k: "k < nat (receivedBy x i)" "C ! k = op"
        "orValue res = snd (CounterDoOp (opReq op) (replay CounterDoOp (take k C) (makeRsmSrv i)))"
      using follow_own [OF f r] C(2) inj by (auto simp: list_all_iff inj_on_def)
    moreover have "k < length C" using k(1) count [OF f] by linarith
    ultimately show ?thesis using step [of k i] by auto
  qed
  have differ: "orValue res \<noteq> orValue res'"
    if f: "follow CounterDoOp makeRsmSrv n C x" "i < n" "follow CounterDoOp makeRsmSrv n C x'" "i' < n" and inj: "inj_on opId {op. ?P op}"
      and o: "?P op" "?P op'" "op \<noteq> op'" "opReq op = Some Inc" "opReq op' = Some Inc"
      and r: "inbox (svc x i) (opId op) = Some res" "inbox (svc x' i') (opId op') = Some res'" for x x' i i' op op' res res'
  proof -
    obtain k k' where k: "k < length C" "C ! k = op" "orValue res = ?rep k" "k' < length C" "C ! k' = op'" "orValue res' = ?rep k'"
      using own [OF f(1,2) inj o(1) r(1)] own [OF f(3,4) inj o(2) r(2)] by blast
    then have "k \<noteq> k'" using o(3) by auto
    then have "incs (take (Suc k) C) \<noteq> incs (take (Suc k') C)"
      using incs_strict [of k k' C] incs_strict [of k' k C] k o(4,5) by (cases "k < k'") auto
    then show ?thesis using k o(4,5) by auto
  qed
  have fol: "follow CounterDoOp makeRsmSrv n C x" if "x \<in> {y, y'}" for x using that C(3,4) by auto
  have typed: "list_all wellTyped C" using C(2) by (simp add: list_all_iff)
  show ?thesis
  proof (rule exI [of _ y'], rule exI [of _ C], intro conjI impI ballI allI)
    fix x i
    assume x: "x \<in> {y, y'}" and i: "i < n"
    show "receivedBy x i \<le> int (length C)" "counter (sm (svc x i)) = incs (take (nat (receivedBy x i)) C)"
      using count [OF fol [OF x] i] by blast+
  next
    fix x i j op res
    assume inj: "inj_on opId {op. ?P op}" and x: "x \<in> {y, y'}" and i: "i < n"
      and r: "Net (ClientStart j op) \<in> set (evs @ evs') \<and> inbox (svc x i) (opId op) = Some res"
    then have "?P op" "inbox (svc x i) (opId op) = Some res" by blast+
    from own [OF fol [OF x] i inj this] show "\<exists>k < nat (receivedBy x i). C ! k = op \<and>
        orValue res = Some (if opReq op = Some Inc then IncRep (incs (take (Suc k) C)) else NullRep)" by blast
  next
    fix x x' i i' j j' op op' res res'
    assume inj: "inj_on opId {op. ?P op}" and x: "x \<in> {y, y'}" "x' \<in> {y, y'}" and i: "i < n" "i' < n"
      and r: "Net (ClientStart j op) \<in> set (evs @ evs') \<and> Net (ClientStart j' op') \<in> set (evs @ evs') \<and> op \<noteq> op' \<and>
           opReq op = Some Inc \<and> opReq op' = Some Inc \<and>
           inbox (svc x i) (opId op) = Some res \<and> inbox (svc x' i') (opId op') = Some res'"
    then have "?P op" "?P op'" by blast+
    then show "orValue res \<noteq> orValue res'" using differ [OF fol [OF x(1)] i(1) fol [OF x(2)] i(2) inj] r by blast
  qed (use C(1) typed in simp_all)
qed

definition counterEvents :: "(rsmReq Op, int, rsmCall) sysEvent list" where
  "counterEvents =
     Local 0 (Register 0) #
     map Net [Elect 0 (1, 1), DeliverVote 0 1 (1, 1), HandleVote 0 1 True,
              ClientStart 0 \<lparr>opId = 1, opMe = 0, opReq = Some Inc\<rparr>,
              SendTo 0 1, DeliverAppend 0 (2, 2), HandleAppend 0 True] @ [ApplierStep 0, Receive 0]"

lemma counterEvents_run:
  "case rsmRun CounterDoOp CounterSnapshot CounterRestore makeRsmSrv counterEvents (rsmInit makeRsmSrv 3) of
     Some (Inr y) \<Rightarrow> receivedBy y 0 = 1 \<and> map_option orValue (inbox (svc y 0) 1) = Some (Some (IncRep 1)) | _ \<Rightarrow> False"
  by code_simp

theorem counter_cluster_counts_witness:
  "\<exists>y res. rsmRun CounterDoOp CounterSnapshot CounterRestore makeRsmSrv counterEvents (rsmInit makeRsmSrv 3) = Some (Inr y) \<and>
     inbox (svc y 0) 1 = Some res \<and> orValue res = Some (IncRep 1) \<and> counter (sm (svc y 0)) = 1"
proof -
  let ?op = "\<lparr>opId = 1, opMe = 0, opReq = Some Inc\<rparr> :: rsmReq Op"
  obtain y where y: "rsmRun CounterDoOp CounterSnapshot CounterRestore makeRsmSrv counterEvents (rsmInit makeRsmSrv 3) = Some (Inr y)"
      "receivedBy y 0 = 1" "inbox (svc y 0) 1 \<noteq> None"
    using counterEvents_run unfolding case_run by force
  then obtain res where res: "inbox (svc y 0) (opId ?op) = Some res" by auto
  have e: "rsmRun CounterDoOp CounterSnapshot CounterRestore makeRsmSrv [] y = Some (Inr y)" by (simp add: rsmRun_def)
  have l: "list_all noSnapshots (counterEvents @ [])" "list_all (proposals wellTyped) (counterEvents @ [])" by code_simp+
  have st: "Net (ClientStart j op) \<in> set (counterEvents @ []) \<longleftrightarrow> j = 0 \<and> op = ?op" for j op
    by (auto simp: counterEvents_def)
  then have inj: "inj_on opId {op. \<exists>j. Net (ClientStart j op) \<in> set (counterEvents @ [])}" by (simp add: inj_on_def)
  from counter_cluster_counts [OF y(1) e l] inj st res obtain C where
      "counter (sm (svc y 0)) = incs (take 1 C)" "\<exists>k < 1. C ! k = ?op \<and> orValue res = Some (IncRep (incs (take (Suc k) C)))"
      "1 \<le> length C"
    using y(2) by fastforce
  moreover from this have "take 1 C = [?op]" by (cases C) auto
  ultimately show ?thesis using y(1) res by (auto simp: incs_def)
qed

end
