(* ===== verification/Kv_Clerk.thy ===== *)
theory Kv_Clerk
  imports Kv_Server
begin

text \<open>
  The clerk of the unreplicated server (\<^verbatim>\<open>src/kvsrv1/client.go\<close>) over an unreliable
  network. An attempt of \<^verbatim>\<open>clnt.Call\<close> loses the request, loses the reply after the
  server performed it, or delivers it; before each attempt any other clients' puts may
  reach the server. A clerk runs on a finite schedule of attempts: a schedule that is used
  up gives \<^const>\<open>None\<close>, the clerk is still retrying.
\<close>

datatype fate = LostRequest | LostReply | Delivered

text \<open>The server with the log of the puts it has performed: who asked (the clerk under
  study or somebody else), what, and the answer.\<close>

record World =
  server :: KVServer
  history :: "(bool \<times> PutArgs \<times> Err) list"

definition execPut :: "bool \<Rightarrow> PutArgs \<Rightarrow> World \<Rightarrow> World \<times> PutReply" where
  "execPut mine args w =
     (case Put args (server w) of (kv, reply) \<Rightarrow>
        (\<lparr>server = kv, history = history w @ [(mine, args, prErr reply)]\<rparr>, reply))"

definition otherPuts :: "PutArgs list \<Rightarrow> World \<Rightarrow> World" where
  "otherPuts ops w = foldl (\<lambda>w args. fst (execPut False args w)) w ops"

definition CallPut :: "fate \<Rightarrow> PutArgs \<Rightarrow> World \<Rightarrow> World \<times> PutReply option" where
  "CallPut f args w =
     (case f of
        LostRequest \<Rightarrow> (w, None)
      | LostReply \<Rightarrow> (fst (execPut True args w), None)
      | Delivered \<Rightarrow> (case execPut True args w of (w', reply) \<Rightarrow> (w', Some reply)))"

definition CallGet :: "fate \<Rightarrow> GetArgs \<Rightarrow> World \<Rightarrow> GetReply option" where
  "CallGet f args w = (if f = Delivered then Some (Get args (server w)) else None)"

type_synonym schedule = "(PutArgs list \<times> fate) list"

text \<open>What the body of \<^verbatim>\<open>Put\<close> returns for a reply; \<^verbatim>\<open>first\<close> says that no earlier attempt
  was made.\<close>

definition putResult :: "bool \<Rightarrow> PutReply \<Rightarrow> Err" where
  "putResult first reply =
     (if prErr reply = ErrVersion \<and> first then ErrVersion
      else if prErr reply = ErrVersion \<and> \<not> first then ErrMaybe
      else prErr reply)"

fun PutLoop :: "PutArgs \<Rightarrow> bool \<Rightarrow> schedule \<Rightarrow> World \<Rightarrow> (World \<times> Err) option" where
  "PutLoop args first [] w = None"
| "PutLoop args first ((ops, f) # sched) w =
     (case CallPut f args (otherPuts ops w) of
        (w', Some reply) \<Rightarrow> Some (w', putResult first reply)
      | (w', None) \<Rightarrow> PutLoop args False sched w')"

definition clerkPut :: "string \<Rightarrow> string \<Rightarrow> Tversion \<Rightarrow> schedule \<Rightarrow> World \<Rightarrow> (World \<times> Err) option" where
  "clerkPut key val version sched w =
     PutLoop \<lparr>putKey = key, putValue = val, putVersion = version, putClientId = 0, putRequestId = 0\<rparr>
       True sched w"

fun GetLoop :: "GetArgs \<Rightarrow> schedule \<Rightarrow> World \<Rightarrow> (World \<times> GetReply) option" where
  "GetLoop args [] w = None"
| "GetLoop args ((ops, f) # sched) w =
     (let w' = otherPuts ops w in
      case CallGet f args w' of
        Some reply \<Rightarrow> if grErr reply = ErrNoKey \<or> grErr reply = OK then Some (w', reply)
                      else GetLoop args sched w'
      | None \<Rightarrow> GetLoop args sched w')"

definition clerkGet :: "string \<Rightarrow> schedule \<Rightarrow> World \<Rightarrow> (World \<times> string \<times> Tversion \<times> Err) option" where
  "clerkGet key sched w =
     (case GetLoop \<lparr>getKey = key, getClientId = 0, getRequestId = 0\<rparr> sched w of
        None \<Rightarrow> None
      | Some (w', reply) \<Rightarrow> Some (w', grValue reply, grVersion reply, grErr reply))"

section \<open>The log of the server\<close>

text \<open>The number of successful puts to a key in a log, and the law that relates the log to
  the store: a put succeeds exactly when it names the version that the successful puts
  before it have led to.\<close>

definition okPuts :: "string \<Rightarrow> (bool \<times> PutArgs \<times> Err) list \<Rightarrow> nat" where
  "okPuts k h = length (filter (\<lambda>(m, a, e). putKey a = k \<and> e = OK) h)"

definition logged :: "string \<Rightarrow> Tversion \<Rightarrow> World \<Rightarrow> bool" where
  "logged k v0 w \<longleftrightarrow> kv_wf (server w) \<and>
     version_of k (kv_content (server w)) = v0 + of_nat (okPuts k (history w)) \<and>
     (\<forall>i < length (history w). \<forall>m a. history w ! i = (m, a, OK) \<and> putKey a = k \<longrightarrow>
         putVersion a = v0 + of_nat (okPuts k (take i (history w))))"

text \<open>Once the key is there it stays, and then no put is answered \<^const>\<open>ErrNoKey\<close>.\<close>

definition present :: "string \<Rightarrow> World \<Rightarrow> bool" where
  "present k w \<longleftrightarrow> kv_content (server w) k \<noteq> None"

lemma okPuts_snoc [simp]:
  "okPuts k (h @ [(m, a, e)]) = okPuts k h + (if putKey a = k \<and> e = OK then 1 else 0)"
  by (simp add: okPuts_def)

lemma okPuts_le: "okPuts k h \<le> length h"
  by (simp add: okPuts_def)

lemma okPuts_less:
  assumes "i < j" "j < length h" "h ! i = (m, a, OK)" "putKey a = k"
  shows "okPuts k (take i h) < okPuts k (take j h)"
proof -
  have "take j h = take i h @ h ! i # drop (Suc i) (take j h)"
    using assms(1,2) by (metis Cons_nth_drop_Suc append_take_drop_id length_take less_imp_le_nat min.absorb4
        min.absorb_iff1 nth_take take_take)
  then have "okPuts k (take j h) = okPuts k (take i h) + okPuts k (h ! i # drop (Suc i) (take j h))"
    by (metis (no_types) filter_append length_append okPuts_def)
  then show ?thesis using assms(3,4) by (simp add: okPuts_def)
qed

lemma execPut_logged:
  assumes "logged k v0 w"
  shows "logged k v0 (fst (execPut m a w))"
proof -
  let ?r = "Put a (server w)"
  from assms have wf: "kv_wf (server w)" by (simp add: logged_def)
  note r = kvsrv_refines [OF wf]
  have ver: "version_of k (kv_content (fst ?r)) = v0 + of_nat (okPuts k (history w @ [(m, a, prErr (snd ?r))]))"
    using r(2) [of a] assms
    by (auto simp: logged_def version_of_def spec_put_def split: option.splits if_splits
        dest!: fun_cong [where f = "kv_content _" and x = k] arg_cong [where f = "\<lambda>m. m k"])
  have "prErr (snd ?r) = OK \<Longrightarrow> putKey a = k \<Longrightarrow> putVersion a = v0 + of_nat (okPuts k (history w))"
    using r(2) [of a] assms
    by (auto simp: logged_def version_of_def spec_put_def split: option.splits if_splits)
  then show ?thesis
    using assms ver r(3) [of a]
    by (auto simp: logged_def execPut_def case_prod_beta nth_append less_Suc_eq)
qed

text \<open>What the clerk's own put has done: the own entries of the log, and how many of them
  took effect.\<close>

definition performed :: "World \<Rightarrow> nat" where
  "performed w = length (filter (\<lambda>(m, a, e). m \<and> e = OK) (history w))"

definition clerk_inv :: "PutArgs \<Rightarrow> Tversion \<Rightarrow> bool \<Rightarrow> World \<Rightarrow> bool" where
  "clerk_inv args v0 first w \<longleftrightarrow> logged (putKey args) v0 w \<and>
     (\<forall>(m, a, e) \<in> set (history w). m \<longrightarrow> a = args \<and> \<not> first) \<and>
     (performed w > 0 \<longrightarrow> present (putKey args) w)"

lemma execPut_present: "kv_wf (server w) \<Longrightarrow> present k w \<Longrightarrow> present k (fst (execPut m a w))"
  by (auto simp: present_def execPut_def case_prod_beta Put_rewrites spec_put_def split: option.splits)

lemma execPut_outcome:
  assumes "kv_wf (server w)"
  shows "prErr (snd (execPut m a w)) \<in> {OK, ErrVersion, ErrNoKey}"
    and "prErr (snd (execPut m a w)) = OK \<Longrightarrow> present (putKey a) (fst (execPut m a w))"
    and "prErr (snd (execPut m a w)) = ErrNoKey \<Longrightarrow> \<not> present (putKey a) w"
  using assms
  by (auto simp: present_def execPut_def case_prod_beta Put_rewrites spec_put_def split: option.splits if_splits)

lemma performed_exec [simp]:
  "performed (fst (execPut m a w)) = performed w + (if m \<and> prErr (snd (execPut m a w)) = OK then 1 else 0)"
  by (simp add: performed_def execPut_def case_prod_beta)

lemma clerk_inv_wf: "clerk_inv args v0 first w \<Longrightarrow> kv_wf (server w)"
  by (simp add: clerk_inv_def logged_def)

lemma clerk_inv_other: "clerk_inv args v0 first w \<Longrightarrow> clerk_inv args v0 first (fst (execPut False a w))"
  using execPut_logged [of "putKey args" v0 w False a] execPut_present [of w "putKey args" False a]
    clerk_inv_wf [of args v0 first w]
  by (auto simp: clerk_inv_def) (auto simp: execPut_def case_prod_beta)

lemma otherPuts_inv: "clerk_inv args v0 first w \<Longrightarrow> clerk_inv args v0 first (otherPuts ops w)"
  unfolding otherPuts_def by (induction ops arbitrary: w) (auto intro: clerk_inv_other)

lemma clerk_inv_mine:
  assumes inv: "clerk_inv args v0 first w"
  shows "clerk_inv args v0 False (fst (execPut True args w))"
proof -
  note wf = clerk_inv_wf [OF inv]
  have "performed (fst (execPut True args w)) > 0 \<Longrightarrow> present (putKey args) (fst (execPut True args w))"
    using inv execPut_outcome(2) [OF wf, of True args] execPut_present [OF wf, of "putKey args" True args]
    by (auto simp: clerk_inv_def split: if_splits)
  moreover have "set (history (fst (execPut True args w))) =
      insert (True, args, prErr (snd (execPut True args w))) (set (history w))"
    by (simp add: execPut_def case_prod_beta)
  ultimately show ?thesis
    using inv execPut_logged [of "putKey args" v0 w True args] unfolding clerk_inv_def by auto
qed

lemma clerk_inv_not_first: "clerk_inv args v0 first w \<Longrightarrow> clerk_inv args v0 False w"
  by (auto simp: clerk_inv_def)

text \<open>Successful puts to one key name different versions, as long as the version counter has
  not wrapped around.\<close>

lemma logged_versions_differ:
  assumes "logged k v0 w" "length (history w) \<le> 2 ^ 64" "i < j" "j < length (history w)"
    and "history w ! i = (m, a, OK)" "putKey a = k" "history w ! j = (m', a', OK)" "putKey a' = k"
  shows "putVersion a \<noteq> putVersion a'"
proof
  assume eq: "putVersion a = putVersion a'"
  let ?c = "\<lambda>i. okPuts k (take i (history w))"
  have less: "?c i < ?c j" using okPuts_less [OF assms(3,4,5,6)] .
  have "?c j < 2 ^ 64" using okPuts_le [of k "take j (history w)"] assms(2,4) by simp
  moreover have "(of_nat (?c i) :: 64 word) = of_nat (?c j)"
    using assms eq unfolding logged_def by (metis (no_types, lifting) add_left_cancel order.strict_trans)
  ultimately show False
    using less by (simp add: of_nat_eq_iff word_of_nat_eq_iff take_bit_nat_eq_self)
qed

lemma filter_two:
  assumes "1 < length (filter P xs)"
  obtains i j where "i < j" "j < length xs" "P (xs ! i)" "P (xs ! j)"
proof -
  let ?A = "{i. i < length xs \<and> P (xs ! i)}"
  have "\<not> card ?A \<le> Suc 0" using assms by (simp add: length_filter_conv_card)
  then obtain i j where "i \<in> ?A" "j \<in> ?A" "i \<noteq> j"
    using card_le_Suc0_iff_eq [of ?A] by auto
  then show ?thesis using that [of i j] that [of j i] by (cases "i < j") auto
qed

lemma performed_at_most_once:
  assumes inv: "clerk_inv args v0 first w" and len: "length (history w) \<le> 2 ^ 64"
  shows "performed w \<le> 1"
proof (rule ccontr)
  assume "\<not> performed w \<le> 1"
  then obtain i j where ij: "i < j" "j < length (history w)"
    and P: "(\<lambda>(m, a, e). m \<and> e = OK) (history w ! i)" "(\<lambda>(m, a, e). m \<and> e = OK) (history w ! j)"
    unfolding performed_def using filter_two by (metis (no_types, lifting) linorder_not_less)
  have "history w ! i \<in> set (history w)" "history w ! j \<in> set (history w)" using ij by simp_all
  then have "history w ! i = (True, args, OK)" "history w ! j = (True, args, OK)"
    using inv P unfolding clerk_inv_def by fastforce+
  then show False
    using inv len ij logged_versions_differ [of "putKey args" v0 w i j True args True args]
    by (simp add: clerk_inv_def)
qed

section \<open>What the clerk promises\<close>

definition put_contract :: "Err \<Rightarrow> World \<Rightarrow> bool" where
  "put_contract e w \<longleftrightarrow> e \<in> {OK, ErrVersion, ErrNoKey, ErrMaybe} \<and>
     (e = OK \<longrightarrow> performed w > 0) \<and>
     (e = ErrVersion \<or> e = ErrNoKey \<longrightarrow> performed w = 0) \<and>
     (length (history w) \<le> 2 ^ 64 \<longrightarrow> performed w \<le> 1)"

lemma deliver_contract:
  assumes inv: "clerk_inv args v0 first w" and e: "execPut True args w = (w', reply)"
  shows "put_contract (putResult first reply) w'"
proof -
  note out = execPut_outcome [OF clerk_inv_wf [OF inv], of True args, unfolded e fst_conv snd_conv]
  have p: "performed w' = performed w + (if prErr reply = OK then 1 else 0)"
    using performed_exec [of True args w] by (simp add: e)
  have "first \<Longrightarrow> performed w = 0"
    using inv by (auto simp: clerk_inv_def performed_def filter_empty_conv)
  moreover have "prErr reply = ErrNoKey \<Longrightarrow> performed w = 0"
    using inv out(3) by (auto simp: clerk_inv_def)
  moreover have "length (history w') \<le> 2 ^ 64 \<Longrightarrow> performed w' \<le> 1"
    using performed_at_most_once [OF clerk_inv_mine [OF inv], unfolded e fst_conv] .
  ultimately show ?thesis
    using out(1) p by (auto simp: put_contract_def putResult_def split: if_splits)
qed

lemma PutLoop_contract:
  "clerk_inv args v0 first w \<Longrightarrow> PutLoop args first sched w = Some (w', e) \<Longrightarrow> put_contract e w'"
proof (induction args first sched w rule: PutLoop.induct)
  case (2 args first ops f sched w)
  from 2(2) have inv: "clerk_inv args v0 first (otherPuts ops w)" by (rule otherPuts_inv)
  show ?case
  proof (cases f)
    case LostRequest
    with 2(1) [OF _ _ clerk_inv_not_first [OF inv]] 2(3) show ?thesis by (simp add: CallPut_def)
  next
    case LostReply
    with 2(1) [OF _ _ clerk_inv_mine [OF inv]] 2(3) show ?thesis by (simp add: CallPut_def)
  next
    case Delivered
    with 2(3) deliver_contract [OF inv] show ?thesis by (auto simp: CallPut_def split: prod.splits)
  qed
qed simp

lemma PutLoop_returns: "Delivered \<in> snd ` set sched \<Longrightarrow> \<exists>w' e. PutLoop args first sched w = Some (w', e)"
  by (induction args first sched w rule: PutLoop.induct)
    (auto simp: CallPut_def case_prod_beta split: fate.splits)

lemma fresh_inv: "kv_wf kv \<Longrightarrow>
    clerk_inv args (version_of (putKey args) (kv_content kv)) True \<lparr>server = kv, history = []\<rparr>"
  by (simp add: clerk_inv_def logged_def performed_def okPuts_def)

text \<open>C20: the error contract of \<^verbatim>\<open>Clerk.Put\<close>, on any network that loses requests and
  replies and under any puts of other clients: as soon as one attempt is delivered the
  clerk returns; OK means that the put was performed; \<^verbatim>\<open>ErrVersion\<close> and \<^verbatim>\<open>ErrNoKey\<close>
  mean that it was definitely not performed by any of the attempts; every other answer is
  \<^verbatim>\<open>ErrMaybe\<close>; and although the clerk resends, the put takes effect at most once while the
  server performs no more than \<open>2^64\<close> puts.\<close>

theorem clerk_put_contract:
  assumes "kv_wf kv" and "Delivered \<in> snd ` set sched"
  shows "\<exists>w e. clerkPut key val version sched \<lparr>server = kv, history = []\<rparr> = Some (w, e) \<and> put_contract e w"
proof -
  let ?args = "\<lparr>putKey = key, putValue = val, putVersion = version, putClientId = 0, putRequestId = 0\<rparr>"
  obtain w e where run: "PutLoop ?args True sched \<lparr>server = kv, history = []\<rparr> = Some (w, e)"
    using PutLoop_returns [OF assms(2)] by blast
  with PutLoop_contract [OF fresh_inv [OF assms(1)] run] show ?thesis by (auto simp: clerkPut_def)
qed

theorem clerk_put_contract_witness:
  "\<exists>w e. clerkPut ''k'' ''v'' 0 [([], LostReply), ([], LostRequest), ([], Delivered)]
       \<lparr>server = MakeKVServer, history = []\<rparr> = Some (w, e) \<and> put_contract e w"
  by (rule clerk_put_contract) (simp_all add: kv_wf_def MakeKVServer_def)

text \<open>The puts of other clients that reach the server up to the first delivered attempt.\<close>

fun putsBeforeAnswer :: "schedule \<Rightarrow> PutArgs list" where
  "putsBeforeAnswer [] = []"
| "putsBeforeAnswer ((ops, f) # sched) = ops @ (if f = Delivered then [] else putsBeforeAnswer sched)"

lemma otherPuts_append: "otherPuts (xs @ ys) w = otherPuts ys (otherPuts xs w)"
  by (simp add: otherPuts_def)

lemma otherPuts_wf: "kv_wf (server w) \<Longrightarrow> kv_wf (server (otherPuts ops w))"
  unfolding otherPuts_def
  by (induction ops arbitrary: w) (simp_all add: execPut_def case_prod_beta Put_rewrites(3))

lemma GetLoop_reads:
  "kv_wf (server w) \<Longrightarrow> Delivered \<in> snd ` set sched \<Longrightarrow>
   GetLoop args sched w =
     Some (otherPuts (putsBeforeAnswer sched) w,
           spec_get (getKey args) (kv_content (server (otherPuts (putsBeforeAnswer sched) w))))"
proof (induction args sched w rule: GetLoop.induct)
  case (2 args ops f sched w)
  from 2(3) have wf: "kv_wf (server (otherPuts ops w))" by (rule otherPuts_wf)
  show ?case
  proof (cases "f = Delivered")
    case True
    then show ?thesis
      by (auto simp: kvsrv_refines(1) [OF wf] CallGet_def spec_get_def zeroGetReply_def Let_def split: option.split)
  next
    case False
    with 2(1) [OF refl _ wf] 2(4) show ?thesis by (auto simp: CallGet_def otherPuts_append)
  qed
qed simp

text \<open>\<^verbatim>\<open>Clerk.Get\<close> returns as soon as an attempt is delivered, and its answer is what the
  server's abstract map holds at the moment of the first delivered attempt: never a stale or
  partial reply of an earlier attempt.\<close>

lemma clerk_get_current:
  assumes "kv_wf (server w)" and "Delivered \<in> snd ` set sched"
  shows "let w' = otherPuts (putsBeforeAnswer sched) w; reply = spec_get key (kv_content (server w'))
         in clerkGet key sched w = Some (w', grValue reply, grVersion reply, grErr reply)"
  using GetLoop_reads [OF assms] by (simp add: clerkGet_def)

end
