(* ===== verification/Kv_Attempt.thy ===== *)
theory Kv_Attempt
  imports Kv_Clerk
begin

text \<open>
  One attempt of an RPC of the clerk on a lossy network, as a step in which many clients of the
  unreplicated server interleave, and what an attempt does to one key of the store.
\<close>

definition tryGet :: "string \<Rightarrow> fate \<Rightarrow> World \<Rightarrow> GetReply option" where
  "tryGet key f w =
     (case CallGet f \<lparr>getKey = key, getClientId = 0, getRequestId = 0\<rparr> w of
        None \<Rightarrow> None
      | Some reply \<Rightarrow> if grErr reply = ErrNoKey \<or> grErr reply = OK then Some reply else None)"

definition tryPut :: "string \<Rightarrow> string \<Rightarrow> Tversion \<Rightarrow> fate \<Rightarrow> World \<Rightarrow> World \<times> PutReply option" where
  "tryPut key val version f w =
     CallPut f \<lparr>putKey = key, putValue = val, putVersion = version, putClientId = 0, putRequestId = 0\<rparr> w"

section \<open>One key of the store\<close>

definition curValue :: "string \<Rightarrow> World \<Rightarrow> string" where
  "curValue l w = (case kv_content (server w) l of None \<Rightarrow> '''' | Some (v, n) \<Rightarrow> v)"

definition curVersion :: "string \<Rightarrow> World \<Rightarrow> Tversion" where
  "curVersion l w = version_of l (kv_content (server w))"

text \<open>A stored version is never 0: \<open>t\<close> bounds the number of steps, hence of puts, so far.\<close>

definition key_inv :: "string \<Rightarrow> nat \<Rightarrow> World \<Rightarrow> bool" where
  "key_inv l t w \<longleftrightarrow> kv_wf (server w) \<and> unat (curVersion l w) \<le> t \<and>
     (kv_content (server w) l \<noteq> None \<longrightarrow> curVersion l w \<noteq> 0)"

lemma tryGet_Some:
  assumes "key_inv l t w" "tryGet l f w = Some reply"
  shows "grErr reply = ErrNoKey \<and> curVersion l w = 0 \<and> curValue l w = '''' \<and> grValue reply = '''' \<or>
         grErr reply = OK \<and> grVersion reply = curVersion l w \<and> grValue reply = curValue l w"
  using assms
  by (auto simp: key_inv_def tryGet_def CallGet_def kvsrv_refines(1) spec_get_def zeroGetReply_def
      curVersion_def curValue_def version_of_def split: if_splits option.splits)

text \<open>A put takes effect exactly when it names the current version.\<close>

lemma tryPut_cases:
  assumes inv: "key_inv l t w" and t: "Suc t < 2 ^ 64" and put: "tryPut l v n f w = (w', res)"
  obtains (same) "key_inv l t w'" "curVersion l w' = curVersion l w" "curValue l w' = curValue l w"
      "\<forall>r. res = Some r \<longrightarrow> prErr r \<noteq> OK"
      "\<forall>r. res = Some r \<longrightarrow> n \<noteq> curVersion l w \<and> prErr r = (if curVersion l w = 0 then ErrNoKey else ErrVersion)"
  | (effect) "n = curVersion l w" "key_inv l (Suc t) w'" "unat (curVersion l w') = Suc (unat (curVersion l w))"
      "curValue l w' = v" "\<forall>r. res = Some r \<longrightarrow> prErr r = OK"
proof -
  let ?a = "\<lparr>putKey = l, putValue = v, putVersion = n, putClientId = 0, putRequestId = 0\<rparr>"
  let ?w = "fst (execPut True ?a w)" and ?r = "snd (execPut True ?a w)"
  from inv have wf: "kv_wf (server w)" by (simp add: key_inv_def)
  have wf': "kv_wf (server ?w)" using wf by (simp add: execPut_def case_prod_beta Put_rewrites)
  have up: "unat (curVersion l w + 1) = Suc (unat (curVersion l w))"
    using inv t by (simp add: key_inv_def unat_word_ariths)
  have eff: "n = curVersion l w \<and> curVersion l ?w = n + 1 \<and> curValue l ?w = v \<and> prErr ?r = OK \<or>
      kv_content (server ?w) = kv_content (server w) \<and> prErr ?r \<noteq> OK \<and> n \<noteq> curVersion l w \<and>
        prErr ?r = (if curVersion l w = 0 then ErrNoKey else ErrVersion)"
    using wf inv
    by (auto simp: execPut_def case_prod_beta Put_rewrites spec_put_def curVersion_def curValue_def
        version_of_def key_inv_def split: option.splits)
  show thesis
  proof (cases "f = LostRequest")
    case True
    then show thesis using same put inv by (simp add: tryPut_def CallPut_def)
  next
    case False
    with put have w': "w' = ?w" and res: "\<forall>r. res = Some r \<longrightarrow> r = ?r"
      by (auto simp: tryPut_def CallPut_def case_prod_beta split: fate.splits)
    from eff show thesis
    proof
      assume e: "n = curVersion l w \<and> curVersion l ?w = n + 1 \<and> curValue l ?w = v \<and> prErr ?r = OK"
      with up have "unat (curVersion l ?w) = Suc (unat (curVersion l w))" by metis
      with e show thesis
        using inv wf' res unfolding w' key_inv_def by (intro effect) (auto simp: w' key_inv_def)
    next
      assume "kv_content (server ?w) = kv_content (server w) \<and> prErr ?r \<noteq> OK \<and> n \<noteq> curVersion l w \<and>
        prErr ?r = (if curVersion l w = 0 then ErrNoKey else ErrVersion)"
      then show thesis
        using inv wf' res by (intro same) (auto simp: w' key_inv_def curVersion_def curValue_def)
    qed
  qed
qed

lemma key_inv_mono: "key_inv l t w \<Longrightarrow> t \<le> t' \<Longrightarrow> key_inv l t' w"
  by (auto simp: key_inv_def)

lemma tryPut_hit:
  assumes "key_inv l t w"
  shows "\<exists>w'. tryPut l v (curVersion l w) Delivered w = (w', Some \<lparr>prErr = OK\<rparr>)"
proof -
  have "prErr (snd (execPut True \<lparr>putKey = l, putValue = v, putVersion = curVersion l w,
      putClientId = 0, putRequestId = 0\<rparr> w)) = OK"
    using assms by (auto simp: key_inv_def execPut_def case_prod_beta Put_rewrites spec_put_def
        curVersion_def version_of_def split: option.splits)
  then show ?thesis
    by (auto simp: tryPut_def CallPut_def intro: PutReply.equality split: prod.splits)
qed

text \<open>An attempt on another key leaves a key alone.\<close>

lemma tryPut_other:
  assumes "key_inv l t w" "tryPut k v n f w = (w', res)" "k \<noteq> l"
  shows "key_inv l t w' \<and> kv_content (server w') l = kv_content (server w) l"
proof -
  let ?a = "\<lparr>putKey = k, putValue = v, putVersion = n, putClientId = 0, putRequestId = 0\<rparr>"
  let ?w = "fst (execPut True ?a w)"
  from assms(1) have wf: "kv_wf (server w)" by (simp add: key_inv_def)
  have "kv_content (server ?w) l = kv_content (server w) l" "kv_wf (server ?w)"
    using wf assms(3) by (auto simp: execPut_def case_prod_beta Put_rewrites spec_put_def split: option.splits)
  moreover have "w' \<in> {w, ?w}"
    using assms(2) by (auto simp: tryPut_def CallPut_def case_prod_beta split: fate.splits)
  ultimately have "kv_content (server w') l = kv_content (server w) l" "kv_wf (server w')" using wf by auto
  then show ?thesis using assms(1) by (simp add: key_inv_def curVersion_def version_of_def)
qed

end
