(* ===== verification/Kv_Lock.thy ===== *)
theory Kv_Lock
  imports Kv_Attempt
begin

text \<open>
  The lock built on a key/value clerk (\<^verbatim>\<open>src/kvsrv1/lock/lock.go\<close>), as a system of any
  number of clients that interleave their calls of \<^verbatim>\<open>Acquire\<close> and \<^verbatim>\<open>Release\<close>. A step of a
  client is one attempt of one RPC of its clerk, so that lost requests and replies, resends
  and the puts of other clients may fall anywhere inside \<^verbatim>\<open>Acquire\<close> and \<^verbatim>\<open>Release\<close>. A client is named
  by the random \<^verbatim>\<open>clientID\<close> of its lock, taken to be unique and not empty.
\<close>

text \<open>Where a client is: outside, at the \<^verbatim>\<open>Get\<close>, \<^verbatim>\<open>Put\<close> or second \<^verbatim>\<open>Get\<close> of a call, or
  holding the lock. \<^verbatim>\<open>Put\<close> keeps the branch it is in (whether the key was missing), its
  version and whether an attempt of it was made already.\<close>

datatype lock_pc =
  Outside | AcqGet | AcqPut bool Tversion bool | AcqCheck | Holding
| RelGet | RelPut Tversion bool | RelCheck

definition AcquireStep :: "string \<Rightarrow> string \<Rightarrow> fate \<Rightarrow> lock_pc \<Rightarrow> World \<Rightarrow> lock_pc \<times> World" where
  "AcquireStep lockID clientID f pc w =
     (case pc of
        AcqGet \<Rightarrow>
          (case tryGet lockID f w of
             None \<Rightarrow> (AcqGet, w)
           | Some reply \<Rightarrow>
               if grErr reply = ErrNoKey then (AcqPut True 0 True, w)
               else if grErr reply = OK
               then (if grValue reply = '''' then (AcqPut False (grVersion reply) True, w) else (AcqGet, w))
               else (AcqGet, w))
      | AcqPut noKey version first \<Rightarrow>
          (case tryPut lockID clientID version f w of
             (w', None) \<Rightarrow> (AcqPut noKey version False, w')
           | (w', Some reply) \<Rightarrow>
               let err = putResult first reply in
               if err = OK then (Holding, w')
               else if \<not> noKey \<and> err = ErrMaybe then (AcqCheck, w')
               else (AcqGet, w'))
      | AcqCheck \<Rightarrow>
          (case tryGet lockID f w of
             None \<Rightarrow> (AcqCheck, w)
           | Some reply \<Rightarrow> if grValue reply = clientID then (Holding, w) else (AcqGet, w))
      | _ \<Rightarrow> (pc, w))"

definition ReleaseStep :: "string \<Rightarrow> string \<Rightarrow> fate \<Rightarrow> lock_pc \<Rightarrow> World \<Rightarrow> lock_pc \<times> World" where
  "ReleaseStep lockID clientID f pc w =
     (case pc of
        RelGet \<Rightarrow>
          (case tryGet lockID f w of
             None \<Rightarrow> (RelGet, w)
           | Some reply \<Rightarrow>
               if grErr reply \<noteq> OK then (RelGet, w)
               else if grValue reply \<noteq> '''' \<and> grValue reply \<noteq> clientID then (RelGet, w)
               else (RelPut (grVersion reply) True, w))
      | RelPut version first \<Rightarrow>
          (case tryPut lockID '''' version f w of
             (w', None) \<Rightarrow> (RelPut version False, w')
           | (w', Some reply) \<Rightarrow>
               let err = putResult first reply in
               if err = OK then (Outside, w')
               else if err = ErrMaybe then (RelCheck, w')
               else (RelGet, w'))
      | RelCheck \<Rightarrow>
          (case tryGet lockID f w of
             None \<Rightarrow> (RelCheck, w)
           | Some reply \<Rightarrow> if grValue reply = '''' then (Outside, w) else (RelGet, w))
      | _ \<Rightarrow> (pc, w))"

text \<open>A client that is outside may call \<^verbatim>\<open>Acquire\<close>, one that holds the lock may call
  \<^verbatim>\<open>Release\<close>; every other step is one of the call under way.\<close>

definition clientStep :: "string \<Rightarrow> string \<Rightarrow> fate \<Rightarrow> lock_pc \<Rightarrow> World \<Rightarrow> lock_pc \<times> World" where
  "clientStep lockID clientID f pc w =
     (case pc of
        Outside \<Rightarrow> (AcqGet, w)
      | Holding \<Rightarrow> (RelGet, w)
      | AcqGet \<Rightarrow> AcquireStep lockID clientID f pc w
      | AcqPut _ _ _ \<Rightarrow> AcquireStep lockID clientID f pc w
      | AcqCheck \<Rightarrow> AcquireStep lockID clientID f pc w
      | _ \<Rightarrow> ReleaseStep lockID clientID f pc w)"

record LockSys =
  world :: World
  pcs :: "string \<Rightarrow> lock_pc"

definition sysStep :: "string \<Rightarrow> string \<times> fate \<Rightarrow> LockSys \<Rightarrow> LockSys" where
  "sysStep lockID ev s =
     (case ev of (c, f) \<Rightarrow>
        case clientStep lockID c f (pcs s c) (world s) of (pc, w) \<Rightarrow>
          \<lparr>world = w, pcs = (pcs s)(c := pc)\<rparr>)"

definition sysRun :: "string \<Rightarrow> (string \<times> fate) list \<Rightarrow> LockSys \<Rightarrow> LockSys" where
  "sysRun lockID evs s = foldl (\<lambda>s ev. sysStep lockID ev s) s evs"

section \<open>Mutual exclusion\<close>

text \<open>What a client's place says about the key. A pending put of \<^verbatim>\<open>Acquire\<close> names a version
  at which the lock was free, a pending put of \<^verbatim>\<open>Release\<close> one at which the lock was free or
  the client's own; a client that holds the lock has its name stored there.\<close>

definition pc_inv :: "string \<Rightarrow> string \<Rightarrow> Tversion \<Rightarrow> lock_pc \<Rightarrow> bool" where
  "pc_inv c v n pc \<longleftrightarrow>
     (case pc of
        AcqPut _ m _ \<Rightarrow> unat m \<le> unat n \<and> (m = n \<longrightarrow> v = '''')
      | RelPut m _ \<Rightarrow> unat m \<le> unat n \<and> (m = n \<longrightarrow> v = '''' \<or> v = c)
      | Holding \<Rightarrow> v = c
      | _ \<Rightarrow> True)"

definition lock_inv :: "string \<Rightarrow> nat \<Rightarrow> LockSys \<Rightarrow> bool" where
  "lock_inv l t s \<longleftrightarrow> key_inv l t (world s) \<and>
     (\<forall>c. c \<noteq> '''' \<longrightarrow> pc_inv c (curValue l (world s)) (curVersion l (world s)) (pcs s c))"

text \<open>The step of one client: it leaves the key alone, or its put takes effect on a lock that
  was free or its own.\<close>

definition step_ok :: "string \<Rightarrow> nat \<Rightarrow> string \<Rightarrow> World \<Rightarrow> World \<Rightarrow> lock_pc \<Rightarrow> bool" where
  "step_ok l t c w w' pc \<longleftrightarrow> key_inv l (Suc t) w' \<and> pc_inv c (curValue l w') (curVersion l w') pc \<and>
     (curValue l w' = curValue l w \<and> curVersion l w' = curVersion l w \<or>
      curValue l w \<in> {'''', c} \<and> curValue l w' \<in> {'''', c} \<and>
      unat (curVersion l w') = Suc (unat (curVersion l w)))"

lemma read_step_ok:
  "key_inv l t w \<Longrightarrow> pc_inv c (curValue l w) (curVersion l w) pc \<Longrightarrow> step_ok l t c w w pc"
  using key_inv_mono [of l t w "Suc t"] by (simp add: step_ok_def)

text \<open>A put attempt with a sound version is a sound step, whatever the client does with the
  answer, if it does not take a put without effect for a success.\<close>

lemma put_step_ok:
  assumes inv: "key_inv l t w" "Suc t < 2 ^ 64" and put: "tryPut l v n f w = (w', res)"
    and n: "unat n \<le> unat (curVersion l w)" "n = curVersion l w \<Longrightarrow> curValue l w \<in> {'''', c}" "v \<in> {'''', c}"
    and idle: "(\<forall>r. res = Some r \<longrightarrow> prErr r \<noteq> OK) \<Longrightarrow> pc_inv c (curValue l w) (curVersion l w) pc"
    and hit: "\<And>m. (\<forall>r. res = Some r \<longrightarrow> prErr r = OK) \<Longrightarrow> unat n < unat m \<Longrightarrow> pc_inv c v m pc"
  shows "step_ok l t c w w' pc"
  using inv put
proof (cases rule: tryPut_cases)
  case same
  then show ?thesis using idle key_inv_mono [of l t w' "Suc t"] by (simp add: step_ok_def)
next
  case effect
  then show ?thesis using hit [of "curVersion l w'"] n by (simp add: step_ok_def)
qed

lemma AcquireStep_ok:
  assumes inv: "key_inv l t w" "pc_inv c (curValue l w) (curVersion l w) pc" "Suc t < 2 ^ 64"
    and step: "AcquireStep l c f pc w = (pc', w')"
  shows "step_ok l t c w w' pc'"
proof (cases pc)
  case AcqGet
  then have "w' = w" "pc_inv c (curValue l w) (curVersion l w) pc'"
    using step tryGet_Some [OF inv(1), of f]
    by (fastforce simp: AcquireStep_def pc_inv_def split: option.splits if_splits)+
  then show ?thesis using read_step_ok inv(1) by blast
next
  case AcqCheck
  then have "w' = w" "pc_inv c (curValue l w) (curVersion l w) pc'"
    using step tryGet_Some [OF inv(1), of f]
    by (fastforce simp: AcquireStep_def pc_inv_def split: option.splits if_splits)+
  then show ?thesis using read_step_ok inv(1) by blast
next
  case (AcqPut noKey n first)
  obtain w1 res where put: "tryPut l c n f w = (w1, res)" by fastforce
  from step AcqPut put have [simp]: "w1 = w'"
    by (auto simp: AcquireStep_def Let_def split: option.splits if_splits)
  show ?thesis
    using inv(2) step
    by (intro put_step_ok [OF inv(1,3) put [simplified]])
      (auto simp: AcqPut put AcquireStep_def pc_inv_def putResult_def Let_def split: option.splits if_splits)
qed (use inv step read_step_ok in \<open>auto simp: AcquireStep_def\<close>)

lemma ReleaseStep_ok:
  assumes inv: "key_inv l t w" "pc_inv c (curValue l w) (curVersion l w) pc" "Suc t < 2 ^ 64"
    and step: "ReleaseStep l c f pc w = (pc', w')"
  shows "step_ok l t c w w' pc'"
proof (cases pc)
  case RelGet
  then have "w' = w" "pc_inv c (curValue l w) (curVersion l w) pc'"
    using step tryGet_Some [OF inv(1), of f]
    by (fastforce simp: ReleaseStep_def pc_inv_def split: option.splits if_splits)+
  then show ?thesis using read_step_ok inv(1) by blast
next
  case RelCheck
  then have "w' = w" "pc_inv c (curValue l w) (curVersion l w) pc'"
    using step tryGet_Some [OF inv(1), of f]
    by (fastforce simp: ReleaseStep_def pc_inv_def split: option.splits if_splits)+
  then show ?thesis using read_step_ok inv(1) by blast
next
  case (RelPut n first)
  obtain w1 res where put: "tryPut l '''' n f w = (w1, res)" by fastforce
  from step RelPut put have [simp]: "w1 = w'"
    by (auto simp: ReleaseStep_def Let_def split: option.splits if_splits)
  show ?thesis
    using inv(2) step
    by (intro put_step_ok [OF inv(1,3) put [simplified]])
      (auto simp: RelPut put ReleaseStep_def pc_inv_def putResult_def Let_def split: option.splits if_splits)
qed (use inv step read_step_ok in \<open>auto simp: ReleaseStep_def\<close>)

lemma clientStep_ok:
  assumes "key_inv l t w" "pc_inv c (curValue l w) (curVersion l w) pc" "Suc t < 2 ^ 64"
    and "clientStep l c f pc w = (pc', w')"
  shows "step_ok l t c w w' pc'"
  using assms AcquireStep_ok [OF assms(1-3)] ReleaseStep_ok [OF assms(1-3)] read_step_ok [of l t w c]
  by (cases pc) (auto simp: clientStep_def pc_inv_def)

lemma pc_inv_frame:
  assumes "pc_inv d v n pc" "d \<noteq> c" "d \<noteq> ''''" "v \<in> {'''', c}" "unat n' = Suc (unat n)"
  shows "pc_inv d v' n' pc"
  using assms by (auto simp: pc_inv_def split: lock_pc.splits)

lemma sysStep_inv:
  assumes inv: "lock_inv l t s" and t: "Suc t < 2 ^ 64" and c: "fst ev \<noteq> ''''"
  shows "lock_inv l (Suc t) (sysStep l ev s)"
proof -
  obtain c f where ev: "ev = (c, f)" by fastforce
  obtain pc w where step: "clientStep l c f (pcs s c) (world s) = (pc, w)" by fastforce
  have "step_ok l t c (world s) w pc"
    using clientStep_ok [OF _ _ t step] inv c by (auto simp: lock_inv_def ev)
  then show ?thesis
    using inv c pc_inv_frame [where c = c and v = "curValue l (world s)" and n = "curVersion l (world s)"]
    by (auto simp: lock_inv_def sysStep_def ev step step_ok_def)
qed

lemma sysRun_inv:
  "lock_inv l t s \<Longrightarrow> t + length evs < 2 ^ 64 \<Longrightarrow> '''' \<notin> fst ` set evs \<Longrightarrow>
     lock_inv l (t + length evs) (sysRun l evs s)"
proof (induction evs arbitrary: s t)
  case Nil
  then show ?case by (simp add: sysRun_def)
next
  case (Cons ev evs)
  then show ?case
    using sysStep_inv [of l t s ev] Cons.IH [of "Suc t" "sysStep l ev s"] by (auto simp: sysRun_def)
qed

definition lockInit :: LockSys where
  "lockInit = \<lparr>world = \<lparr>server = MakeKVServer, history = []\<rparr>, pcs = (\<lambda>_. Outside)\<rparr>"

lemma lockInit_inv: "lock_inv l 0 lockInit"
  by (simp add: lock_inv_def lockInit_def key_inv_def kv_wf_def MakeKVServer_def curVersion_def
      version_of_def kv_content_def pc_inv_def)

lemma sysRun_others: "c \<notin> fst ` set evs \<Longrightarrow> pcs (sysRun l evs s) c = pcs s c"
  unfolding sysRun_def by (induction evs arbitrary: s) (auto simp: sysStep_def case_prod_beta)

text \<open>C16: mutual exclusion. Whatever the interleaving of the clients, whatever the network
  loses and however often clerks resend, whoever holds the lock has its identity stored under
  the lock's key; so two different clients never hold the lock together. The run is bounded
  by the width of the version counter.\<close>

theorem lock_mutual_exclusion:
  assumes "length evs < 2 ^ 64" and "'''' \<notin> fst ` set evs"
  shows "let s = sysRun l evs lockInit in
     (pcs s c = Holding \<longrightarrow> curValue l (world s) = c) \<and>
     (pcs s c = Holding \<and> pcs s d = Holding \<longrightarrow> c = d)"
proof -
  let ?s = "sysRun l evs lockInit"
  have "pcs ?s c = Holding \<Longrightarrow> curValue l (world ?s) = c" for c
    using sysRun_inv [OF lockInit_inv, of evs l] sysRun_others [OF assms(2), of l lockInit] assms
    by (cases "c = ''''") (auto simp: lock_inv_def pc_inv_def lockInit_def)
  then show ?thesis by (auto simp: Let_def)
qed

theorem lock_mutual_exclusion_witness:
  "let s = sysRun ''l'' [(''a'', Delivered), (''b'', Delivered), (''a'', Delivered), (''b'', Delivered),
                        (''a'', Delivered), (''b'', Delivered)] lockInit in
     pcs s ''a'' = Holding \<and> curValue ''l'' (world s) = ''a'' \<and> pcs s ''b'' \<noteq> Holding"
proof -
  let ?evs = "[(''a'', Delivered), (''b'', Delivered), (''a'', Delivered), (''b'', Delivered),
      (''a'', Delivered), (''b'', Delivered)]"
  have "pcs (sysRun ''l'' ?evs lockInit) ''a'' = Holding" by code_simp
  then show ?thesis
    using lock_mutual_exclusion [of ?evs "''l''" "''a''" "''b''"] by (auto simp: Let_def)
qed

section \<open>Progress\<close>

lemma tryGet_free:
  assumes "key_inv l t w" "curValue l w = ''''"
  shows "\<exists>reply. tryGet l Delivered w = Some reply \<and> grValue reply = '''' \<and>
     (grErr reply = ErrNoKey \<and> curVersion l w = 0 \<or> grErr reply = OK \<and> grVersion reply = curVersion l w)"
  using assms
  by (auto simp: key_inv_def tryGet_def CallGet_def kvsrv_refines(1) spec_get_def zeroGetReply_def
      curVersion_def curValue_def version_of_def split: option.splits)

text \<open>A client that asks for a free lock and reaches the server gets it: three delivered
  steps (the call, its \<^verbatim>\<open>Get\<close> and its \<^verbatim>\<open>Put\<close>) with nobody in between end in holding the lock,
  whether or not the key existed before.\<close>

lemma lock_free_acquire:
  assumes "lock_inv l t s" and "pcs s c = Outside" and "curValue l (world s) = ''''"
  shows "pcs (sysRun l [(c, f), (c, Delivered), (c, Delivered)] s) c = Holding"
proof -
  let ?w = "world s"
  from assms(1) have inv: "key_inv l t ?w" by (simp add: lock_inv_def)
  obtain noKey where get: "AcquireStep l c Delivered AcqGet ?w = (AcqPut noKey (curVersion l ?w) True, ?w)"
    using tryGet_free [OF inv assms(3)]
    by (auto simp: AcquireStep_def intro: that [of True] that [of False])
  obtain w' where "AcquireStep l c Delivered (AcqPut noKey (curVersion l ?w) True) ?w = (Holding, w')"
    using tryPut_hit [OF inv, of c] by (auto simp: AcquireStep_def putResult_def)
  with get show ?thesis by (simp add: sysRun_def sysStep_def clientStep_def assms(2))
qed

text \<open>The client that never learns that it has the lock: the stored name is its own, and
  nobody else is further than the \<^verbatim>\<open>Get\<close> of \<^verbatim>\<open>Acquire\<close>.\<close>

definition stuck :: "string \<Rightarrow> string \<Rightarrow> LockSys \<Rightarrow> bool" where
  "stuck l c s \<longleftrightarrow> kv_wf (server (world s)) \<and> curValue l (world s) = c \<and> c \<noteq> '''' \<and>
     (\<forall>d. pcs s d \<in> {Outside, AcqGet})"

lemma sysStep_stuck: "stuck l c s \<Longrightarrow> stuck l c (sysStep l ev s)"
proof -
  assume s: "stuck l c s"
  obtain d f where ev: "ev = (d, f)" by fastforce
  from s have "AcquireStep l d f AcqGet (world s) = (AcqGet, world s)"
    by (auto simp: stuck_def AcquireStep_def tryGet_def CallGet_def kvsrv_refines(1) spec_get_def
        curValue_def split: option.splits if_splits)
  then have "clientStep l d f (pcs s d) (world s) = (AcqGet, world s)"
    using s by (cases "pcs s d = Outside") (auto simp: stuck_def clientStep_def)
  with s show ?thesis by (simp add: stuck_def sysStep_def ev)
qed

lemma sysRun_append: "sysRun l (xs @ ys) s = sysRun l ys (sysRun l xs s)"
  by (simp add: sysRun_def)

lemma stuck_not_holding: "stuck l c s \<Longrightarrow> pcs s d \<noteq> Holding"
  unfolding stuck_def by (cases "pcs s d") (auto dest: spec [of _ d])

lemma sysRun_stuck: "stuck l c s \<Longrightarrow> stuck l c (sysRun l evs s)"
  unfolding sysRun_def by (induction evs arbitrary: s) (auto intro: sysStep_stuck)

text \<open>C25: \<^verbatim>\<open>Acquire\<close> may block everybody for ever. When the first put of the key loses its
  reply and the resend returns \<^verbatim>\<open>ErrMaybe\<close>, the branch for a missing key tries again without
  looking whether the put was its own: the lock is then stored as taken by this client,
  which waits for it to become free, and in no continuation does any client hold it.\<close>

theorem lock_first_put_lost_reply_blocks:
  assumes "c \<noteq> ''''"
  shows "let s = sysRun l ([(c, Delivered), (c, Delivered), (c, LostReply), (c, Delivered)] @ evs) lockInit
     in curValue l (world s) = c \<and> (\<forall>d. pcs s d \<noteq> Holding)"
proof -
  have "stuck l c (sysRun l [(c, Delivered), (c, Delivered), (c, LostReply), (c, Delivered)] lockInit)"
    using assms
    by (simp add: sysRun_def sysStep_def clientStep_def lockInit_def AcquireStep_def tryGet_def CallGet_def
        Get_def MakeKVServer_def zeroGetReply_def tryPut_def CallPut_def execPut_def Put_def putResult_def
        stuck_def kv_wf_def curValue_def kv_content_def)
  from sysRun_stuck [OF this, of evs] show ?thesis
    unfolding Let_def sysRun_append using stuck_not_holding by (blast dest: stuck_def [THEN iffD1])
qed

theorem lock_first_put_lost_reply_blocks_witness:
  "let s = sysRun ''l'' ([(''a'', Delivered), (''a'', Delivered), (''a'', LostReply), (''a'', Delivered)] @
       [(''a'', Delivered), (''b'', Delivered)]) lockInit
     in curValue ''l'' (world s) = ''a'' \<and> (\<forall>d. pcs s d \<noteq> Holding)"
  by (rule lock_first_put_lost_reply_blocks) simp

end
