(* ===== verification/Kv_History.thy ===== *)
theory Kv_History
  imports Kv_Attempt Kv_Oplog
begin

text \<open>
  Histories of the unreplicated store: any number of clients call \<^verbatim>\<open>Get\<close> and \<^verbatim>\<open>Put\<close> of the test
  library, which call the clerk of the unreplicated server and log every operation with the
  times at which it was called and returned. A step of a client is one attempt of an RPC of
  its clerk; the clock advances between steps by any amount, also by none. An attempt whose
  reply arrives is one step: the call returns at the time at which the server executes it, and
  a reply that is under way for some time is not modelled. The theorem is that what the tests
  log is linearizable, so that their last check does not fail.
\<close>

text \<open>A call of the clerk under way; \<^verbatim>\<open>Put\<close> with whether no attempt was made yet.\<close>

datatype call = CGet string | CPut string string Tversion bool

datatype answer = AGet GetReply | APut Err

text \<open>The test: the server, the clock, the counter of operations (\<^verbatim>\<open>cfg.Op\<close>), the log that
  \<^verbatim>\<open>MakeTest\<close> creates, and the calls under way with the time at which they began.\<close>

record Hist =
  hWorld :: World
  hClock :: int
  hOps :: int
  hLog :: OpLog
  hCalls :: "int \<rightharpoonup> call \<times> int"

definition histInit :: "KVServer \<Rightarrow> Hist" where
  "histInit kv = \<lparr>hWorld = \<lparr>server = kv, history = []\<rparr>, hClock = 0, hOps = 0, hLog = [], hCalls = Map.empty\<rparr>"

text \<open>\<^verbatim>\<open>Get\<close> and \<^verbatim>\<open>Put\<close> of the test library: up to the call of the clerk, and after it.\<close>

definition beginGet :: "int \<Rightarrow> string \<Rightarrow> Hist \<Rightarrow> Hist" where
  "beginGet cli key s = s\<lparr>hCalls := (hCalls s)(cli \<mapsto> (CGet key, hClock s))\<rparr>"

definition beginPut :: "int \<Rightarrow> string \<Rightarrow> string \<Rightarrow> Tversion \<Rightarrow> Hist \<Rightarrow> Hist" where
  "beginPut cli key val version s = s\<lparr>hCalls := (hCalls s)(cli \<mapsto> (CPut key val version True, hClock s))\<rparr>"

definition finishGet :: "int \<Rightarrow> string \<Rightarrow> int \<Rightarrow> GetReply \<Rightarrow> Hist \<Rightarrow> Hist" where
  "finishGet cli key start r s =
     s\<lparr>hOps := hOps s + 1, hLog := OpLogAppend (getOp cli key start (hClock s) r) (hLog s),
       hCalls := (hCalls s)(cli := None)\<rparr>"

definition finishPut :: "int \<Rightarrow> string \<Rightarrow> string \<Rightarrow> Tversion \<Rightarrow> int \<Rightarrow> Err \<Rightarrow> Hist \<Rightarrow> Hist" where
  "finishPut cli key val version start err s =
     s\<lparr>hOps := hOps s + 1, hLog := OpLogAppend (putOp cli key val version start (hClock s) err) (hLog s),
       hCalls := (hCalls s)(cli := None)\<rparr>"

text \<open>One attempt of the call that a client has under way. When the reply arrives the call returns in
  the same step, so that its recorded interval ends as early as it possibly can.\<close>

definition stepCall :: "int \<Rightarrow> fate \<Rightarrow> Hist \<Rightarrow> Hist \<times> answer option" where
  "stepCall cli f s =
     (case hCalls s cli of
        None \<Rightarrow> (s, None)
      | Some (CGet key, start) \<Rightarrow>
          (case tryGet key f (hWorld s) of
             None \<Rightarrow> (s, None)
           | Some r \<Rightarrow> (finishGet cli key start r s, Some (AGet r)))
      | Some (CPut key val version first, start) \<Rightarrow>
          (case tryPut key val version f (hWorld s) of
             (w, None) \<Rightarrow>
               (s\<lparr>hWorld := w, hCalls := (hCalls s)(cli \<mapsto> (CPut key val version False, start))\<rparr>, None)
           | (w, Some reply) \<Rightarrow>
               let err = putResult first reply
               in (finishPut cli key val version start err (s\<lparr>hWorld := w\<rparr>), Some (APut err))))"

section \<open>Clients\<close>

text \<open>A call is issued by \<^verbatim>\<open>Get\<close> or \<^verbatim>\<open>Put\<close> of the test library.\<close>

fun issue :: "int \<Rightarrow> call option \<Rightarrow> Hist \<Rightarrow> Hist" where
  "issue me None s = s"
| "issue me (Some (CGet key)) s = beginGet me key s"
| "issue me (Some (CPut key val version _)) s = beginPut me key val version s"

text \<open>The function that a client runs (\<^verbatim>\<open>Fclnt\<close>) alternates between its own computation and calls.
  It is given by what it does when it looks at the channel \<^verbatim>\<open>done\<close> and finds it empty (with a
  random number) or not, and by what it does with an answer; it may issue a call each time.
  Something may be on the channel at any time, but only a client between its operations looks.\<close>

datatype client_event = Done | Go nat fate

definition fclntStep :: "('p \<Rightarrow> nat \<Rightarrow> 'p \<times> call option) \<Rightarrow> ('p \<Rightarrow> 'p) \<Rightarrow> ('p \<Rightarrow> answer \<Rightarrow> 'p \<times> call option) \<Rightarrow>
    int \<Rightarrow> client_event \<Rightarrow> 'p \<Rightarrow> Hist \<Rightarrow> 'p \<times> Hist" where
  "fclntStep go stop react me ev p s =
     (case (hCalls s me, ev) of
        (None, Done) \<Rightarrow> (stop p, s)
      | (None, Go r f) \<Rightarrow> (case go p r of (p', c) \<Rightarrow> (p', issue me c s))
      | (Some _, Done) \<Rightarrow> (p, s)
      | (Some _, Go r f) \<Rightarrow>
          (case stepCall me f s of
             (s', None) \<Rightarrow> (p, s')
           | (s', Some a) \<Rightarrow> (case react p a of (p', c) \<Rightarrow> (p', issue me c s'))))"

text \<open>The clients that \<^verbatim>\<open>SpawnClientsAndWait\<close> spawns, as a system: time passes, or one of the
  \<open>n\<close> clients makes a step.\<close>

record 'p Clients =
  tHist :: Hist
  tProgs :: "int \<Rightarrow> 'p"

datatype test_event = Tick nat | Client int client_event

definition testStep :: "(int \<Rightarrow> 'p \<Rightarrow> nat \<Rightarrow> 'p \<times> call option) \<Rightarrow> ('p \<Rightarrow> 'p) \<Rightarrow>
    (int \<Rightarrow> 'p \<Rightarrow> answer \<Rightarrow> 'p \<times> call option) \<Rightarrow> nat \<Rightarrow> 'p Clients \<Rightarrow> test_event \<Rightarrow> 'p Clients" where
  "testStep go stop react n s ev =
     (case ev of
        Tick d \<Rightarrow> s\<lparr>tHist := (tHist s)\<lparr>hClock := hClock (tHist s) + int d\<rparr>\<rparr>
      | Client c cev \<Rightarrow>
          if 0 \<le> c \<and> c < int n
          then (case fclntStep (go c) stop (react c) c cev (tProgs s c) (tHist s) of
                  (p, h) \<Rightarrow> \<lparr>tHist = h, tProgs = (tProgs s)(c := p)\<rparr>)
          else s)"

definition SpawnClientsAndWait :: "(int \<Rightarrow> 'p \<Rightarrow> nat \<Rightarrow> 'p \<times> call option) \<Rightarrow> ('p \<Rightarrow> 'p) \<Rightarrow>
    (int \<Rightarrow> 'p \<Rightarrow> answer \<Rightarrow> 'p \<times> call option) \<Rightarrow> nat \<Rightarrow> test_event list \<Rightarrow> 'p Clients \<Rightarrow> 'p Clients" where
  "SpawnClientsAndWait go stop react n evs s = foldl (testStep go stop react n) s evs"

text \<open>A call of the test itself, with the fates of its attempts.\<close>

fun awaitCall :: "int \<Rightarrow> fate list \<Rightarrow> Hist \<Rightarrow> (Hist \<times> answer) option" where
  "awaitCall cli [] s = None"
| "awaitCall cli (f # fs) s =
     (case stepCall cli f s of
        (s', Some a) \<Rightarrow> Some (s', a)
      | (s', None) \<Rightarrow> awaitCall cli fs s')"

section \<open>The order of effects\<close>

text \<open>The order in which the operations on one key took effect, as a list of operations. A put
  that has taken effect and whose reply was lost is in the list before it is in the log, marked
  with its client; it can only be answered \<^const>\<open>ErrMaybe\<close>.\<close>

definition open_ok :: "string \<Rightarrow> Hist \<Rightarrow> int option \<times> Operation \<Rightarrow> bool" where
  "open_ok k s x \<longleftrightarrow> (\<forall>c. fst x = Some c \<longrightarrow>
     (\<exists>v n start. hCalls s c = Some (CPut k v n False, start) \<and> snd x = putOp c k v n start 0 ErrMaybe \<and>
        unat n < unat (curVersion k (hWorld s))))"

definition inOrder :: "int option \<times> Operation \<Rightarrow> int option \<times> Operation \<Rightarrow> bool" where
  "inOrder a b \<longleftrightarrow> fst b \<noteq> None \<or> realTime (snd a) (snd b)"

definition explains :: "string \<Rightarrow> Hist \<Rightarrow> (int option \<times> Operation) list \<Rightarrow> bool" where
  "explains k s L \<longleftrightarrow>
     modelRun modelInit (map snd L) = Some (keyState k (server (hWorld s))) \<and>
     mset (map snd (filter (\<lambda>x. fst x = None) L)) = mset (opsOf k (hLog s)) \<and>
     sorted_wrt inOrder L \<and>
     (\<forall>x \<in> set L. opCall (snd (snd x)) \<le> hClock s \<and> open_ok k s x) \<and>
     distinct (filter (\<lambda>x. x \<noteq> None) (map fst L))"

lemma explains_call: "explains k s L \<Longrightarrow> x \<in> set L \<Longrightarrow> opCall (snd (snd x)) \<le> hClock s"
  by (simp add: explains_def)

lemma explains_frame:
  assumes "explains k s L" "keyState k (server (hWorld s')) = keyState k (server (hWorld s))"
    and "opsOf k (hLog s') = opsOf k (hLog s)" "hClock s \<le> hClock s'"
    and "\<And>x. x \<in> set L \<Longrightarrow> open_ok k s x \<Longrightarrow> open_ok k s' x"
  shows "explains k s' L"
  using assms by (fastforce simp: explains_def)

text \<open>An operation takes effect now.\<close>

lemma explains_effect:
  assumes L: "explains k s L" and clock: "hClock s' = hClock s"
    and step: "modelStep (keyState k (server (hWorld s))) (fst op) (opOutput (snd op)) =
        (True, Some (keyState k (server (hWorld s'))))"
    and open_x: "\<And>x. x \<in> set L \<Longrightarrow> open_ok k s x \<Longrightarrow> open_ok k s' x" and new: "open_ok k s' (tag, op)"
    and op: "opCall (snd op) \<le> hClock s"
      "tag = None \<Longrightarrow> opReturn (snd op) = hClock s \<and> opsOf k (hLog s') = opsOf k (hLog s) @ [op]"
      "tag \<noteq> None \<Longrightarrow> tag \<notin> fst ` set L \<and> opsOf k (hLog s') = opsOf k (hLog s)"
  shows "explains k s' (L @ [(tag, op)])"
proof -
  have "modelRun modelInit (map snd L @ [op]) = Some (keyState k (server (hWorld s')))"
    using L step by (cases op) (simp add: explains_def modelRun_append)
  moreover have "\<forall>x \<in> set L. inOrder x (tag, op)"
    using L op(2) by (cases tag) (auto simp: explains_def inOrder_def realTime_def)
  moreover have "mset (map snd (filter (\<lambda>x. fst x = None) (L @ [(tag, op)]))) = mset (opsOf k (hLog s'))"
    using L op(2,3) by (cases tag) (auto simp: explains_def)
  ultimately show ?thesis
    using L clock open_x new op by (cases tag) (auto simp: explains_def sorted_wrt_append)
qed

text \<open>An operation that had taken effect returns now.\<close>

lemma sorted_wrt_replace:
  assumes "sorted_wrt P (xs @ x # ys)" "\<And>a. a \<in> set xs \<Longrightarrow> P a x'" "\<And>b. P x b \<Longrightarrow> P x' b"
  shows "sorted_wrt P (xs @ x' # ys)"
  using assms by (auto simp: sorted_wrt_append)

lemma explains_close:
  assumes L: "explains k s (A @ (Some c, op) # B)" and clock: "hClock s' = hClock s"
    and same: "keyState k (server (hWorld s')) = keyState k (server (hWorld s))"
    and open_x: "\<And>x. x \<in> set (A @ B) \<Longrightarrow> fst x \<noteq> Some c \<Longrightarrow> open_ok k s x \<Longrightarrow> open_ok k s' x"
    and op: "fst op' = fst op" "opOutput (snd op') = opOutput (snd op)" "opCall (snd op') = opCall (snd op)"
      "opReturn (snd op') = hClock s" "opsOf k (hLog s') = opsOf k (hLog s) @ [op']"
  shows "explains k s' (A @ (None, op') # B)"
proof -
  have "distinct (filter (\<lambda>x. x \<noteq> None) (map fst (A @ (Some c, op) # B)))" using L by (simp only: explains_def)
  then have c: "Some c \<notin> fst ` set (A @ B)" by auto
  have run: "modelRun st (op' # ys) = modelRun st (op # ys)" for st ys
    using op(1,2) by (cases op; cases op') simp
  have "modelRun modelInit (map snd (A @ (None, op') # B)) = Some (keyState k (server (hWorld s')))"
    using L same unfolding explains_def map_append list.map snd_conv modelRun_append run by simp
  moreover have "sorted_wrt inOrder (A @ (None, op') # B)"
  proof (rule sorted_wrt_replace)
    show "sorted_wrt inOrder (A @ (Some c, op) # B)" using L by (simp add: explains_def)
    show "inOrder a (None, op')" if "a \<in> set A" for a
      using explains_call [OF L, of a] op(4) that by (simp add: inOrder_def realTime_def)
    show "inOrder (None, op') b" if "inOrder (Some c, op) b" for b
      using that op(3) by (simp add: inOrder_def realTime_def)
  qed
  moreover have "\<forall>x \<in> set (A @ B). opCall (snd (snd x)) \<le> hClock s' \<and> open_ok k s' x"
  proof
    fix x
    assume x: "x \<in> set (A @ B)"
    with c have "fst x \<noteq> Some c" by (metis imageI)
    moreover from x L have "opCall (snd (snd x)) \<le> hClock s" "open_ok k s x" by (auto simp: explains_def)
    ultimately show "opCall (snd (snd x)) \<le> hClock s' \<and> open_ok k s' x" using open_x x clock by simp
  qed
  moreover have "opCall (snd op') \<le> hClock s'" "open_ok k s' (None, op')"
    using L clock op(3) by (simp_all add: explains_def open_ok_def)
  ultimately show ?thesis using L op(5) by (auto simp: explains_def)
qed

section \<open>Every step keeps an explanation\<close>

text \<open>What a step of client \<open>c\<close> may change: its own call, and versions only grow.\<close>

lemma open_ok_frame:
  assumes "open_ok k s x" "fst x \<noteq> Some c" "\<And>d. d \<noteq> c \<Longrightarrow> hCalls s' d = hCalls s d"
    and "unat (curVersion k (hWorld s)) \<le> unat (curVersion k (hWorld s'))"
  shows "open_ok k s' x"
proof (cases "fst x")
  case None
  then show ?thesis by (simp add: open_ok_def)
next
  case (Some d)
  with assms(1) obtain v n start where "hCalls s d = Some (CPut k v n False, start)"
    "snd x = putOp d k v n start 0 ErrMaybe" "unat n < unat (curVersion k (hWorld s))"
    unfolding open_ok_def by blast
  with Some assms(2-4) show ?thesis by (auto simp: open_ok_def)
qed

lemma keyState_eq: "keyState k (server w) = \<lparr>stValue = curValue k w, stVersion = curVersion k w\<rparr>"
  by (auto simp: keyState_def curValue_def curVersion_def version_of_def modelInit_def split: option.split)

lemmas finish_simps = finishGet_def finishPut_def OpLogAppend_def

text \<open>What holds of one key at every moment; \<open>t\<close> bounds the number of steps so far.\<close>

definition lin_inv :: "string \<Rightarrow> nat \<Rightarrow> Hist \<Rightarrow> bool" where
  "lin_inv k t s \<longleftrightarrow> key_inv k t (hWorld s) \<and>
     (\<forall>c call start. hCalls s c = Some (call, start) \<longrightarrow> start \<le> hClock s) \<and>
     (noErrNoKey (opsOf k (hLog s)) \<longrightarrow> (\<exists>L. explains k s L))"

lemma get_explained:
  assumes inv: "key_inv k t (hWorld s)" and L: "explains k s L"
    and get: "tryGet k f (hWorld s) = Some r" "hCalls s c = Some (CGet k, start)" "start \<le> hClock s"
  shows "explains k (finishGet c k start r s) (L @ [(None, getOp c k start (hClock s) r)])"
proof (rule explains_effect [OF L])
  let ?s = "finishGet c k start r s"
  show "hClock ?s = hClock s" by (simp add: finish_simps)
  show "modelStep (keyState k (server (hWorld s))) (fst (getOp c k start (hClock s) r))
      (opOutput (snd (getOp c k start (hClock s) r))) = (True, Some (keyState k (server (hWorld ?s))))"
    using tryGet_Some [OF inv get(1)] by (auto simp: getOp_def modelStep_def keyState_eq finish_simps)
  show "open_ok k ?s x" if "open_ok k s x" for x
  proof (rule open_ok_frame [OF that, of c])
    show "fst x \<noteq> Some c" using that get(2) by (auto simp: open_ok_def)
  qed (simp_all add: finish_simps)
  show "open_ok k ?s (None, getOp c k start (hClock s) r)" by (simp add: open_ok_def)
qed (use get(3) in \<open>simp_all add: getOp_def finish_simps opsOf_def\<close>)

text \<open>A put that takes effect, with its reply lost or delivered.\<close>

lemma put_effect_explained:
  assumes L: "explains k s L" and c: "hCalls s c = Some (CPut k v n first, start)" "start \<le> hClock s"
    and eff: "n = curVersion k (hWorld s)" "unat (curVersion k w) = Suc (unat (curVersion k (hWorld s)))" "curValue k w = v"
  shows "explains k (s\<lparr>hWorld := w, hCalls := (hCalls s)(c \<mapsto> (CPut k v n False, start))\<rparr>)
           (L @ [(Some c, putOp c k v n start 0 ErrMaybe)])" (is "explains k ?s1 _")
    and "explains k (finishPut c k v n start OK (s\<lparr>hWorld := w\<rparr>))
           (L @ [(None, putOp c k v n start (hClock s) OK)])" (is "explains k ?s2 _")
proof -
  have "curVersion k w = curVersion k (hWorld s) + 1"
    using eff(2) by (metis Suc_eq_plus1 of_nat_1 of_nat_add of_nat_unat ucast_id)
  then have step: "modelStep (keyState k (server (hWorld s))) (fst (putOp c k v n start b e))
      (opOutput (snd (putOp c k v n start b e))) = (True, Some (keyState k (server w)))" if "e \<in> {OK, ErrMaybe}" for b e
    using that eff(1,3) by (auto simp: putOp_def modelStep_def keyState_eq)
  have closed: "fst x \<noteq> Some c" if "x \<in> set L" for x
    using that L c eff(1) by (auto simp: explains_def open_ok_def)
  have frame: "open_ok k s' x" if "x \<in> set L" "open_ok k s x" "hWorld s' = w"
    "\<And>d. d \<noteq> c \<Longrightarrow> hCalls s' d = hCalls s d" for s' x
    using open_ok_frame [OF that(2) closed [OF that(1)] that(4)] that(3) eff(2) by simp
  show "explains k ?s1 (L @ [(Some c, putOp c k v n start 0 ErrMaybe)])"
  proof (rule explains_effect [OF L])
    show "open_ok k ?s1 (Some c, putOp c k v n start 0 ErrMaybe)" using eff by (simp add: open_ok_def)
    show "open_ok k ?s1 x" if "x \<in> set L" "open_ok k s x" for x using frame that by simp
    show "Some c \<notin> fst ` set L \<and> opsOf k (hLog ?s1) = opsOf k (hLog s)" using closed by force
  qed (use step c(2) in \<open>auto simp: putOp_def\<close>)
  show "explains k ?s2 (L @ [(None, putOp c k v n start (hClock s) OK)])"
  proof (rule explains_effect [OF L])
    show "open_ok k ?s2 (None, putOp c k v n start (hClock s) OK)" by (simp add: open_ok_def)
    show "open_ok k ?s2 x" if "x \<in> set L" "open_ok k s x" for x using frame that by (simp add: finish_simps)
  qed (use step c(2) in \<open>auto simp: finish_simps\<close>, auto simp: putOp_def)
qed

text \<open>A put that is refused, or whose request is lost.\<close>

lemma put_lost_explained:
  assumes L: "explains k s L" and c: "hCalls s c = Some (CPut k v n first, start)"
    and same: "curVersion k w = curVersion k (hWorld s)" "curValue k w = curValue k (hWorld s)"
  shows "explains k (s\<lparr>hWorld := w, hCalls := (hCalls s)(c \<mapsto> (CPut k v n False, start))\<rparr>) L"
proof (rule explains_frame [OF L])
  show "open_ok k (s\<lparr>hWorld := w, hCalls := (hCalls s)(c \<mapsto> (CPut k v n False, start))\<rparr>) x"
    if "open_ok k s x" for x
    using that c same by (auto simp: open_ok_def)
qed (simp_all add: keyState_eq same)

lemma put_refused_explained:
  assumes L: "explains k s L" and c: "hCalls s c = Some (CPut k v n first, start)" "start \<le> hClock s"
    and same: "curVersion k w = curVersion k (hWorld s)" "curValue k w = curValue k (hWorld s)"
    and n: "n \<noteq> curVersion k (hWorld s)"
  shows "\<exists>L'. explains k (finishPut c k v n start (if first then ErrVersion else ErrMaybe) (s\<lparr>hWorld := w\<rparr>)) L'"
    (is "\<exists>L'. explains k ?s L'")
proof (cases "Some c \<in> fst ` set L")
  case True
  then obtain A op B where split: "L = A @ (Some c, op) # B" by (auto dest!: split_list)
  from L c have first: "\<not> first" and op: "op = putOp c k v n start 0 ErrMaybe"
    by (auto simp: split explains_def open_ok_def)
  have "explains k ?s (A @ (None, putOp c k v n start (hClock s) ErrMaybe) # B)"
  proof (rule explains_close [OF L [unfolded split]])
    show "open_ok k ?s x" if "fst x \<noteq> Some c" "open_ok k s x" for x
      by (rule open_ok_frame [OF that(2,1)]) (simp_all add: finish_simps same)
  qed (simp_all add: op first finish_simps keyState_eq same, simp_all add: putOp_def)
  then show ?thesis ..
next
  case False
  have "explains k ?s (L @ [(None, putOp c k v n start (hClock s) (if first then ErrVersion else ErrMaybe))])"
  proof (rule explains_effect [OF L])
    show "open_ok k ?s x" if "x \<in> set L" "open_ok k s x" for x
    proof (rule open_ok_frame [OF that(2), of c])
      show "fst x \<noteq> Some c" using False that(1) by (metis imageI)
    qed (simp_all add: finish_simps same)
  qed (use c(2) n in \<open>auto simp: finish_simps keyState_eq same open_ok_def\<close>,
      auto simp: putOp_def modelStep_def)
  then show ?thesis ..
qed

text \<open>A call of another client, or on another key, leaves a key's explanation alone.\<close>

lemma other_key_explained:
  assumes L: "explains k s L" and c: "\<forall>v n first start. hCalls s c \<noteq> Some (CPut k v n first, start)"
    and s': "\<forall>d. d \<noteq> c \<longrightarrow> hCalls s' d = hCalls s d" "hClock s' = hClock s" "opsOf k (hLog s') = opsOf k (hLog s)"
      "kv_content (server (hWorld s')) k = kv_content (server (hWorld s)) k"
  shows "explains k s' L"
proof (rule explains_frame [OF L])
  show "open_ok k s' x" if "open_ok k s x" for x
  proof (rule open_ok_frame [OF that, of c])
    show "fst x \<noteq> Some c" using that c by (auto simp: open_ok_def)
  qed (use s' in \<open>simp_all add: curVersion_def version_of_def\<close>)
qed (use s' in \<open>simp_all add: keyState_def\<close>)

lemma key_inv_content:
  "key_inv k t w \<Longrightarrow> t \<le> t' \<Longrightarrow> kv_wf (server w') \<Longrightarrow> kv_content (server w') k = kv_content (server w) k \<Longrightarrow> key_inv k t' w'"
  by (auto simp: key_inv_def curVersion_def version_of_def)

lemma stepCall_starts:
  assumes "\<And>d call start. hCalls s d = Some (call, start) \<Longrightarrow> start \<le> hClock s"
    and "hCalls (fst (stepCall c f s)) d = Some (call, start)"
  shows "start \<le> hClock (fst (stepCall c f s))"
  using assms(1) [of d] assms(1) [of c] assms(2)
  by (auto simp: stepCall_def finish_simps Let_def split: call.splits option.splits prod.splits if_splits)

lemma get_step_explained:
  assumes key: "key_inv k t (hWorld s)" and L: "explains k s L"
    and call: "hCalls s c = Some (CGet key', start)" "start \<le> hClock s"
  shows "\<exists>L'. explains k (fst (stepCall c f s)) L'"
proof (cases "tryGet key' f (hWorld s)")
  case None
  then show ?thesis using L by (auto simp: stepCall_def call(1))
next
  case (Some r)
  then have s: "fst (stepCall c f s) = finishGet c key' start r s" by (simp add: stepCall_def call(1))
  show ?thesis
  proof (cases "key' = k")
    case True
    then show ?thesis unfolding s using get_explained [OF key L, of f r c start] Some call by blast
  next
    case False
    then have "explains k (finishGet c key' start r s) L"
      using call(1) by (intro other_key_explained [OF L, of c]) (simp_all add: finish_simps)
    then show ?thesis unfolding s by blast
  qed
qed

lemma put_step_explained:
  assumes key: "key_inv k t (hWorld s)" and t: "Suc t < 2 ^ 64" and L: "explains k s L"
    and call: "hCalls s c = Some (CPut k v n first, start)" "start \<le> hClock s"
    and no: "noErrNoKey (opsOf k (hLog (fst (stepCall c f s))))"
  shows "\<exists>L'. explains k (fst (stepCall c f s)) L'"
proof -
  obtain w res where put: "tryPut k v n f (hWorld s) = (w, res)" by fastforce
  show ?thesis
    using key t put
  proof (cases rule: tryPut_cases)
    case same
    show ?thesis
    proof (cases res)
      case None
      then show ?thesis using put_lost_explained [OF L call(1) same(2,3)] put by (auto simp: stepCall_def call(1))
    next
      case (Some reply)
      then have s: "fst (stepCall c f s) = finishPut c k v n start (putResult first reply) (s\<lparr>hWorld := w\<rparr>)"
        by (simp add: stepCall_def call(1) put Let_def)
      have "prErr reply \<noteq> ErrNoKey"
        using no by (auto simp: s finish_simps putOp_def noErrNoKey_def opsOf_def putResult_def)
      then have "putResult first reply = (if first then ErrVersion else ErrMaybe)"
        using same(5) Some by (auto simp: putResult_def split: if_splits)
      then show ?thesis
        unfolding s using put_refused_explained [OF L call same(2,3)] same(5) Some by simp
    qed
  next
    case effect
    note explained = put_effect_explained [OF L call effect(1,3,4)]
    then show ?thesis
      using put effect(5) by (cases res) (auto simp: stepCall_def call(1) putResult_def Let_def)
  qed
qed

lemma stepCall_key_inv:
  assumes key: "key_inv k t (hWorld s)" and t: "Suc t < 2 ^ 64"
  shows "key_inv k (Suc t) (hWorld (fst (stepCall c f s)))"
proof (cases "\<exists>key' v n first start. hCalls s c = Some (CPut key' v n first, start)")
  case True
  then obtain key' v n first start where call: "hCalls s c = Some (CPut key' v n first, start)" by blast
  obtain w res where put: "tryPut key' v n f (hWorld s) = (w, res)" by fastforce
  have "key_inv k (Suc t) w"
  proof (cases "key' = k")
    case True
    from key t put [unfolded True] show ?thesis
      by (cases rule: tryPut_cases) (auto intro: key_inv_mono)
  next
    case False
    then show ?thesis using tryPut_other [OF key put] by (auto intro: key_inv_mono)
  qed
  then show ?thesis by (cases res) (simp_all add: stepCall_def call put finish_simps Let_def)
next
  case False
  then have "hWorld (fst (stepCall c f s)) = hWorld s"
    by (auto simp: stepCall_def finish_simps split: option.split call.split)
  then show ?thesis using key by (auto intro: key_inv_mono)
qed

lemma stepCall_log: "\<exists>ops. hLog (fst (stepCall c f s)) = hLog s @ ops"
  by (auto simp: stepCall_def finish_simps Let_def split: option.split call.split prod.split)

lemma stepCall_inv:
  assumes inv: "lin_inv k t s" and t: "Suc t < 2 ^ 64"
  shows "lin_inv k (Suc t) (fst (stepCall c f s))" (is "lin_inv k _ ?s")
proof -
  from inv have key: "key_inv k t (hWorld s)"
    and starts: "\<And>c call start. hCalls s c = Some (call, start) \<Longrightarrow> start \<le> hClock s"
    and ex: "noErrNoKey (opsOf k (hLog s)) \<Longrightarrow> \<exists>L. explains k s L"
    by (auto simp: lin_inv_def)
  have "\<exists>L. explains k ?s L" if no: "noErrNoKey (opsOf k (hLog ?s))"
  proof -
    from no stepCall_log [of c f s] obtain L where L: "explains k s L" using ex by auto
    consider "hCalls s c = None" | key' start where "hCalls s c = Some (CGet key', start)"
      | v n first start where "hCalls s c = Some (CPut k v n first, start)"
      | key' v n first start where "hCalls s c = Some (CPut key' v n first, start)" "key' \<noteq> k"
      by (metis call.exhaust old.prod.exhaust option.exhaust)
    then show ?thesis
    proof cases
      case 1
      then show ?thesis using L by (auto simp: stepCall_def)
    next
      case 2
      then show ?thesis using get_step_explained [OF key L] starts by blast
    next
      case 3
      then show ?thesis using put_step_explained [OF key t L _ _ no] starts by blast
    next
      case (4 key' v n first start)
      obtain w res where put: "tryPut key' v n f (hWorld s) = (w, res)" by fastforce
      have "explains k ?s L"
      proof (rule other_key_explained [OF L, of c])
        show "kv_content (server (hWorld ?s)) k = kv_content (server (hWorld s)) k"
          using tryPut_other [OF key put 4(2)]
          by (cases res) (auto simp: stepCall_def 4(1) put finish_simps Let_def)
      qed (use 4 in \<open>cases res; simp add: stepCall_def put finish_simps Let_def\<close>)+
      then show ?thesis ..
    qed
  qed
  then show ?thesis
    using stepCall_key_inv [OF key t] stepCall_starts [OF starts] by (auto simp: lin_inv_def)
qed

lemma invoke_inv:
  assumes inv: "lin_inv k t s" and c: "hCalls s c = None"
  shows "lin_inv k t (s\<lparr>hCalls := (hCalls s)(c \<mapsto> (cl, hClock s))\<rparr>)"
proof -
  have "\<exists>L. explains k (s\<lparr>hCalls := (hCalls s)(c \<mapsto> (cl, hClock s))\<rparr>) L" if "explains k s L" for L
    using other_key_explained [OF that, of c "s\<lparr>hCalls := (hCalls s)(c \<mapsto> (cl, hClock s))\<rparr>"] c by auto
  then show ?thesis using inv by (auto simp: lin_inv_def)
qed

lemma tick_inv:
  assumes "lin_inv k t s"
  shows "lin_inv k t (s\<lparr>hClock := hClock s + int d\<rparr>)"
proof -
  have "explains k (s\<lparr>hClock := hClock s + int d\<rparr>) L" if "explains k s L" for L
    by (rule explains_frame [OF that]) (auto simp: open_ok_def)
  then show ?thesis using assms unfolding lin_inv_def by fastforce
qed

lemma lin_inv_mono: "lin_inv k t s \<Longrightarrow> t \<le> t' \<Longrightarrow> lin_inv k t' s"
  by (auto simp: lin_inv_def intro: key_inv_mono)

lemma issue_inv:
  assumes "lin_inv k t s" "hCalls s c = None"
  shows "lin_inv k t (issue c cl s)"
  using assms invoke_inv [OF assms] by (cases "(c, cl, s)" rule: issue.cases) (simp_all add: beginGet_def beginPut_def)

lemma stepCall_answered: "stepCall c f s = (s', Some a) \<Longrightarrow> hCalls s' c = None"
  by (auto simp: stepCall_def finish_simps Let_def split: option.splits call.splits prod.splits)

lemma fclntStep_inv:
  assumes inv: "lin_inv k t s" and t: "Suc t < 2 ^ 64"
  shows "lin_inv k (Suc t) (snd (fclntStep go stop react c ev p s))"
proof (cases "\<exists>r f. hCalls s c \<noteq> None \<and> ev = Go r f")
  case True
  then obtain r f where ev: "ev = Go r f" and call: "hCalls s c \<noteq> None" by blast
  obtain s' a where step: "stepCall c f s = (s', a)" by fastforce
  have inv': "lin_inv k (Suc t) s'" using stepCall_inv [OF inv t, of c f] step by simp
  then have "a = Some b \<Longrightarrow> lin_inv k (Suc t) (issue c cl s')" for b cl
    using issue_inv stepCall_answered step by blast
  then show ?thesis using inv' call by (auto simp: fclntStep_def ev step split: option.split prod.split)
next
  case False
  then show ?thesis
    using issue_inv [OF lin_inv_mono [OF inv, of "Suc t"], of c] lin_inv_mono [OF inv, of "Suc t"]
    by (auto simp: fclntStep_def split: option.split client_event.split prod.split)
qed

lemma testStep_inv:
  assumes "lin_inv k t (tHist s)" "Suc t < 2 ^ 64"
  shows "lin_inv k (Suc t) (tHist (testStep go stop react n s ev))"
proof (cases ev)
  case (Tick d)
  then show ?thesis using tick_inv [OF lin_inv_mono [OF assms(1)], of "Suc t" d] by (simp add: testStep_def)
next
  case (Client c cev)
  then show ?thesis
    using fclntStep_inv [OF assms, of "go c" stop "react c" c cev "tProgs s c"] lin_inv_mono [OF assms(1), of "Suc t"]
    by (auto simp: testStep_def split: prod.split)
qed

lemma run_inv:
  "lin_inv k t (tHist s) \<Longrightarrow> t + length evs < 2 ^ 64 \<Longrightarrow>
   lin_inv k (t + length evs) (tHist (SpawnClientsAndWait go stop react n evs s))"
proof (induction evs arbitrary: s t)
  case Nil
  then show ?case by (simp add: SpawnClientsAndWait_def)
next
  case (Cons ev evs)
  then show ?case
    using Cons.IH [OF testStep_inv, of t s go stop react n ev] by (simp add: SpawnClientsAndWait_def)
qed

lemma awaitCall_inv:
  "lin_inv k t s \<Longrightarrow> t + length fs < 2 ^ 64 \<Longrightarrow> awaitCall c fs s = Some (s', a) \<Longrightarrow> lin_inv k (t + length fs) s'"
proof (induction fs arbitrary: s t)
  case Nil
  then show ?case by simp
next
  case (Cons f fs)
  obtain s1 r where step: "stepCall c f s = (s1, r)" by fastforce
  with Cons.prems stepCall_inv [of k t s c f] have "lin_inv k (Suc t) s1" by simp
  then show ?case
    using Cons.IH [of "Suc t" s1] Cons.prems step lin_inv_mono [of k "Suc t" s1 "t + length (f # fs)"]
    by (cases r) auto
qed

lemma histInit_inv: "lin_inv k 0 (histInit MakeKVServer)"
proof -
  have "explains k (histInit MakeKVServer) []"
    by (simp add: explains_def histInit_def MakeKVServer_def keyState_def kv_content_def opsOf_def)
  then show ?thesis
    by (auto simp: lin_inv_def histInit_def key_inv_def kv_wf_def MakeKVServer_def curVersion_def
        version_of_def kv_content_def)
qed

text \<open>When no call is under way, the explanation is a linearization.\<close>

lemma quiet_linearizable:
  assumes L: "explains k s L" and quiet: "\<And>c. hCalls s c = None"
  shows "linearizable (opsOf k (hLog s))"
proof -
  have done_x: "fst x = None" if "x \<in> set L" for x
    using L quiet that by (cases "fst x") (auto simp: explains_def open_ok_def)
  have "filter (\<lambda>x. fst x = None) L = L" using done_x by (simp add: filter_id_conv)
  then have "mset (map snd L) = mset (opsOf k (hLog s))" using L by (simp add: explains_def)
  moreover have "sorted_wrt realTime (map snd L)"
    using L done_x by (auto simp: explains_def sorted_wrt_map inOrder_def elim!: sorted_wrt_mono_rel [rotated])
  moreover have "modelRun modelInit (map snd L) \<noteq> None" using L by (simp add: explains_def)
  ultimately show ?thesis unfolding linearizable_def by blast
qed

lemma run_linearizable:
  assumes inv: "\<And>k. lin_inv k t s" and quiet: "hCalls s = Map.empty" and no: "noErrNoKey (hLog s)"
  shows "list_all linearizable (modelPartition (OpLogRead (hLog s)))"
proof -
  have "linearizable (opsOf k (hLog s))" for k
  proof -
    have "noErrNoKey (opsOf k (hLog s))" using no by (auto simp: noErrNoKey_def opsOf_def list_all_iff)
    with inv [of k] obtain L where "explains k s L" by (auto simp: lin_inv_def)
    then show ?thesis using quiet_linearizable quiet by simp
  qed
  then show ?thesis by (auto simp: list_all_iff modelPartition_eq OpLogRead_def)
qed

text \<open>C17: linearizability. Whatever programs the clients run on the unreplicated store, however
  their calls interleave and whatever requests and replies the network loses (a reply that is
  not lost arrives in the step that executes the request): when the clients
  have finished, the operations that the test library has recorded, with the times of their
  calls and returns, are linearizable for the model of the store, key by key, so that the last
  check of the tests does not fail. The exception is a put that was answered \<^verbatim>\<open>ErrNoKey\<close>, which
  the model does not know.\<close>

theorem recorded_history_linearizable:
  assumes "s = SpawnClientsAndWait go stop react n evs \<lparr>tHist = histInit MakeKVServer, tProgs = progs\<rparr>"
    and "length evs < 2 ^ 64" and "hCalls (tHist s) = Map.empty" and "noErrNoKey (hLog (tHist s))"
    and "sound_checker check"
  shows "list_all linearizable (modelPartition (OpLogRead (hLog (tHist s)))) \<and>
     fst (checkPorcupine check enabled opened order t (hLog (tHist s)) an)"
proof -
  have "lin_inv k (length evs) (tHist s)" for k
    using run_inv [of k 0 "\<lparr>tHist = histInit MakeKVServer, tProgs = progs\<rparr>" evs] histInit_inv assms(1,2) by simp
  from run_linearizable [OF this assms(3,4)] show ?thesis using checkPorcupine_passes [OF assms(5)] by blast
qed

text \<open>Two clients that each put once; the reply of the first put is lost, the second put is
  refused, and the first is answered \<^verbatim>\<open>ErrMaybe\<close> after that.\<close>

definition onceGo :: "int \<Rightarrow> bool \<Rightarrow> nat \<Rightarrow> bool \<times> call option" where
  "onceGo me p r = (if p then (p, None) else (True, Some (CPut ''k'' (if me = 0 then ''a'' else ''b'') 0 True)))"

definition onceReact :: "int \<Rightarrow> bool \<Rightarrow> answer \<Rightarrow> bool \<times> call option" where
  "onceReact me p a = (p, None)"

lemmas run_simps = SpawnClientsAndWait_def testStep_def fclntStep_def stepCall_def tryPut_def tryGet_def CallPut_def
  CallGet_def execPut_def Put_def Get_def MakeKVServer_def histInit_def beginPut_def beginGet_def finish_simps putResult_def
  putOp_def getOp_def

theorem recorded_history_linearizable_witness:
  "list_all linearizable (modelPartition
     [(\<lparr>inOp = 1, inKey = ''k'', inValue = ''b'', inVersion = 0\<rparr>,
       \<lparr>opOutput = \<lparr>outValue = '''', outVersion = 0, outErr = ErrVersion\<rparr>, opCall = 3, opReturn = 3, opClientId = 1\<rparr>),
      (\<lparr>inOp = 1, inKey = ''k'', inValue = ''a'', inVersion = 0\<rparr>,
       \<lparr>opOutput = \<lparr>outValue = '''', outVersion = 0, outErr = ErrMaybe\<rparr>, opCall = 0, opReturn = 3, opClientId = 0\<rparr>)])"
proof -
  let ?evs = "[Client 0 (Go 0 Delivered), Client 0 (Go 0 LostReply), Tick 3, Client 1 (Go 0 Delivered),
      Client 1 (Go 0 Delivered), Client 0 (Go 0 Delivered)]"
  let ?s = "SpawnClientsAndWait onceGo id onceReact 2 ?evs \<lparr>tHist = histInit MakeKVServer, tProgs = (\<lambda>_. False)\<rparr>"
  have calls: "hCalls (tHist ?s) = Map.empty" by (auto simp: run_simps onceGo_def onceReact_def)
  have log: "hLog (tHist ?s) =
     [(\<lparr>inOp = 1, inKey = ''k'', inValue = ''b'', inVersion = 0\<rparr>,
       \<lparr>opOutput = \<lparr>outValue = '''', outVersion = 0, outErr = ErrVersion\<rparr>, opCall = 3, opReturn = 3, opClientId = 1\<rparr>),
      (\<lparr>inOp = 1, inKey = ''k'', inValue = ''a'', inVersion = 0\<rparr>,
       \<lparr>opOutput = \<lparr>outValue = '''', outVersion = 0, outErr = ErrMaybe\<rparr>, opCall = 0, opReturn = 3, opClientId = 0\<rparr>)]"
    by (simp add: run_simps onceGo_def onceReact_def)
  have "noErrNoKey (hLog (tHist ?s))" by (simp add: log noErrNoKey_def)
  moreover have "sound_checker (\<lambda>ops. if list_all linearizable (modelPartition ops) then CheckOk else CheckIllegal)"
    by (simp add: sound_checker_def)
  ultimately show ?thesis
    using recorded_history_linearizable [OF refl, of ?evs onceGo id onceReact 2 "\<lambda>_. False"] calls log
    by (simp add: OpLogRead_def)
qed

end
