(* ===== verification/Kv_Tests.thy ===== *)
theory Kv_Tests
  imports Kv_History "HOL-Library.Countable"
begin

text \<open>
  The clients and the checks of the key/value tests (\<^verbatim>\<open>src/kvtest1/kvtest.go\<close>), run on the
  unreplicated store. \<^verbatim>\<open>OneClientPut\<close> and \<^verbatim>\<open>OneClientAppend\<close> are programs of the clients that
  \<^verbatim>\<open>SpawnClientsAndWait\<close> runs; \<^verbatim>\<open>CheckPutConcurrent\<close> and \<^verbatim>\<open>CheckAppends\<close> are what the tests check
  afterwards. \<^verbatim>\<open>Fatalf\<close> is a failed state of a program or an error of a check. The JSON
  library is a parameter: \<open>enc\<close> is \<^verbatim>\<open>Marshal\<close>, \<open>dec\<close> is \<^verbatim>\<open>Unmarshal\<close>, which is \<^const>\<open>None\<close> for an error.
\<close>

record ClntRes =
  Nok :: int
  Nmaybe :: int

record EntryV =
  evId :: int
  evV :: Tversion

text \<open>\<^verbatim>\<open>GetJson\<close> and \<^verbatim>\<open>PutJson\<close>, after and before their call.\<close>

definition GetJson :: "(string \<Rightarrow> 'v option) \<Rightarrow> GetReply \<Rightarrow> ('v \<times> Tversion) option" where
  "GetJson dec reply =
     (if grErr reply = OK
      then (case dec (grValue reply) of None \<Rightarrow> None | Some v \<Rightarrow> Some (v, grVersion reply))
      else None)"

definition PutJson :: "('v \<Rightarrow> string) \<Rightarrow> string \<Rightarrow> 'v \<Rightarrow> Tversion \<Rightarrow> call" where
  "PutJson enc key v ver = CPut key (enc v) ver True"

section \<open>Clients that put\<close>

text \<open>Where \<^verbatim>\<open>OneClientPut\<close> is: between two calls of \<^verbatim>\<open>OnePut\<close>, in \<^verbatim>\<open>OnePut\<close> at its \<^verbatim>\<open>PutJson\<close> or at its
  \<^verbatim>\<open>GetJson\<close> (with the version and the error so far), returned, or in \<^verbatim>\<open>Fatalf\<close>.\<close>

datatype put_pc = PutIdle | InPut string Tversion | InGet string Tversion Err | PutStopped | PutFailed

record PutClient =
  putPc :: put_pc
  verm :: "string \<Rightarrow> Tversion"
  putRes :: ClntRes

definition putClientInit :: PutClient where
  "putClientInit = \<lparr>putPc = PutIdle, verm = (\<lambda>_. 0), putRes = \<lparr>Nok = 0, Nmaybe = 0\<rparr>\<rparr>"

definition putGo :: "(EntryV \<Rightarrow> string) \<Rightarrow> bool \<Rightarrow> string list \<Rightarrow> int \<Rightarrow> PutClient \<Rightarrow> nat \<Rightarrow> PutClient \<times> call option" where
  "putGo enc randomkeys ka me p r =
     (if putPc p = PutIdle
      then if ka = [] then (p\<lparr>putPc := PutFailed\<rparr>, None)
           else let k = (if randomkeys then ka ! (r mod length ka) else ka ! 0); ver = verm p k
                in (p\<lparr>putPc := InPut k ver\<rparr>, Some (PutJson enc k \<lparr>evId = me, evV = ver\<rparr> ver))
      else (p, None))"

definition putStop :: "PutClient \<Rightarrow> PutClient" where
  "putStop p = (if putPc p = PutIdle then p\<lparr>putPc := PutStopped\<rparr> else p)"

definition OnePut :: "(EntryV \<Rightarrow> string) \<Rightarrow> (string \<Rightarrow> EntryV option) \<Rightarrow> int \<Rightarrow> PutClient \<Rightarrow> answer \<Rightarrow>
    PutClient \<times> call option" where
  "OnePut enc dec me p a =
     (case (putPc p, a) of
        (InPut k ver, APut err) \<Rightarrow>
          if \<not> (err = OK \<or> err = ErrVersion \<or> err = ErrMaybe) then (p\<lparr>putPc := PutFailed\<rparr>, None)
          else (p\<lparr>putPc := InGet k ver err\<rparr>, Some (CGet k))
      | (InGet k ver err, AGet reply) \<Rightarrow>
          (case GetJson dec reply of
             None \<Rightarrow> (p\<lparr>putPc := PutFailed\<rparr>, None)
           | Some (e, ver0) \<Rightarrow>
               if err = OK \<and> ver0 = ver + 1 \<and> evId e \<noteq> me \<and> evV e \<noteq> ver then (p\<lparr>putPc := PutFailed\<rparr>, None)
               else if err = OK \<or> err = ErrMaybe
               then (p\<lparr>putPc := PutIdle, verm := (verm p)(k := ver0),
                       putRes := (if err = OK then (putRes p)\<lparr>Nok := Nok (putRes p) + 1\<rparr>
                                  else (putRes p)\<lparr>Nmaybe := Nmaybe (putRes p) + 1\<rparr>)\<rparr>, None)
               else (p\<lparr>putPc := InPut k ver0\<rparr>, Some (PutJson enc k \<lparr>evId = me, evV = ver0\<rparr> ver0)))
      | _ \<Rightarrow> (p, None))"

definition OneClientPut :: "(EntryV \<Rightarrow> string) \<Rightarrow> (string \<Rightarrow> EntryV option) \<Rightarrow> bool \<Rightarrow> string list \<Rightarrow> nat \<Rightarrow>
    test_event list \<Rightarrow> PutClient Clients \<Rightarrow> PutClient Clients" where
  "OneClientPut enc dec randomkeys ka n evs s =
     SpawnClientsAndWait (putGo enc randomkeys ka) putStop (OnePut enc dec) n evs s"

text \<open>\<^verbatim>\<open>CheckPutConcurrent\<close> reads the key itself, as client -1; \<open>fs\<close> are the fates of its attempts.
  The result is the new state of the test and whether the check passed.\<close>

definition sumRes :: "ClntRes list \<Rightarrow> ClntRes \<Rightarrow> ClntRes" where
  "sumRes rs res = foldl (\<lambda>res r. \<lparr>Nok = Nok res + Nok r, Nmaybe = Nmaybe res + Nmaybe r\<rparr>) res rs"

definition CheckPutConcurrent :: "(string \<Rightarrow> EntryV option) \<Rightarrow> string \<Rightarrow> ClntRes list \<Rightarrow> ClntRes \<Rightarrow> bool \<Rightarrow> fate list \<Rightarrow>
    Hist \<Rightarrow> (Hist \<times> bool) option" where
  "CheckPutConcurrent dec key rs res reliable fs h =
     (case awaitCall (-1) fs (beginGet (-1) key h) of
        Some (h', AGet reply) \<Rightarrow>
          Some (h',
            case GetJson dec reply of
              None \<Rightarrow> False
            | Some (e, ver0) \<Rightarrow>
                let tot = sumRes rs res in
                if reliable then ver0 = of_int (Nok tot)
                else \<not> ver0 > of_int (Nok tot + Nmaybe tot))
      | _ \<Rightarrow> None)"

section \<open>Steps on one key\<close>

lemma stepCall_get_cases:
  assumes inv: "key_inv k t (hWorld h)" and call: "hCalls h c = Some (CGet k, start)" and step: "stepCall c f h = (h', a)"
  obtains (lost) "h' = h" "a = None" "f \<noteq> Delivered"
  | (answered) r where "a = Some (AGet r)" "hWorld h' = hWorld h" "hCalls h' = (hCalls h)(c := None)"
      "if curVersion k (hWorld h) = 0 then grErr r = ErrNoKey
       else grErr r = OK \<and> grVersion r = curVersion k (hWorld h) \<and> grValue r = curValue k (hWorld h)"
proof (cases "tryGet k f (hWorld h)")
  case None
  moreover have "f \<noteq> Delivered"
    using None inv
    by (auto simp: key_inv_def tryGet_def CallGet_def kvsrv_refines(1) spec_get_def zeroGetReply_def split: option.splits)
  ultimately show ?thesis using lost step by (simp add: stepCall_def call)
next
  case (Some r)
  have "if curVersion k (hWorld h) = 0 then grErr r = ErrNoKey
     else grErr r = OK \<and> grVersion r = curVersion k (hWorld h) \<and> grValue r = curValue k (hWorld h)"
    using Some inv
    by (auto simp: key_inv_def tryGet_def CallGet_def kvsrv_refines(1) spec_get_def zeroGetReply_def curVersion_def
        curValue_def version_of_def split: option.splits if_splits)
  then show ?thesis using answered [of r] step Some by (auto simp: stepCall_def call finish_simps)
qed

lemma stepCall_put_cases:
  assumes inv: "key_inv k t (hWorld h)" and t: "Suc t < 2 ^ 64"
    and call: "hCalls h c = Some (CPut k v n first, start)" and step: "stepCall c f h = (h', a)"
  obtains (lost) "a = None" "f \<noteq> Delivered" "hCalls h' = (hCalls h)(c \<mapsto> (CPut k v n False, start))"
      "curVersion k (hWorld h') = curVersion k (hWorld h)" "curValue k (hWorld h') = curValue k (hWorld h)"
  | (lost_effect) "a = None" "f \<noteq> Delivered" "hCalls h' = (hCalls h)(c \<mapsto> (CPut k v n False, start))"
      "n = curVersion k (hWorld h)" "unat (curVersion k (hWorld h')) = Suc (unat (curVersion k (hWorld h)))"
      "curValue k (hWorld h') = v"
  | (refused) "a = Some (APut (if curVersion k (hWorld h) = 0 then ErrNoKey else if first then ErrVersion else ErrMaybe))"
      "hCalls h' = (hCalls h)(c := None)" "n \<noteq> curVersion k (hWorld h)"
      "curVersion k (hWorld h') = curVersion k (hWorld h)" "curValue k (hWorld h') = curValue k (hWorld h)"
  | (performed) "a = Some (APut OK)" "hCalls h' = (hCalls h)(c := None)" "n = curVersion k (hWorld h)"
      "unat (curVersion k (hWorld h')) = Suc (unat (curVersion k (hWorld h)))" "curValue k (hWorld h') = v"
proof -
  obtain w res where put: "tryPut k v n f (hWorld h) = (w, res)" by fastforce
  have f: "f \<noteq> Delivered" if "res = None" using put that by (auto simp: tryPut_def CallPut_def split: prod.splits)
  have h': "hWorld h' = w" "hCalls h' = (hCalls h)(c := if res = None then Some (CPut k v n False, start) else None)"
    "a = map_option (\<lambda>r. APut (putResult first r)) res"
    using step put by (cases res; auto simp: stepCall_def call finish_simps Let_def)+
  from inv t put show thesis
  proof (cases rule: tryPut_cases)
    case same
    show thesis
    proof (cases res)
      case None
      then show thesis using lost h' same f by simp
    next
      case (Some r)
      then show thesis using refused h' same by (auto simp: putResult_def split: if_splits)
    qed
  next
    case effect
    show thesis
    proof (cases res)
      case None
      then show thesis using lost_effect h' effect f by simp
    next
      case (Some r)
      then show thesis using performed h' effect by (simp add: putResult_def)
    qed
  qed
qed

section \<open>What putting clients keep\<close>

text \<open>One client against the version \<open>V\<close> and the value \<open>val\<close> of the key, and its call under way.\<close>

definition put_ok :: "(EntryV \<Rightarrow> string) \<Rightarrow> (string \<Rightarrow> EntryV option) \<Rightarrow> string \<Rightarrow> int \<Rightarrow> Tversion \<Rightarrow> string \<Rightarrow>
    (call \<times> int) option \<Rightarrow> PutClient \<Rightarrow> bool" where
  "put_ok enc dec k c V val co p \<longleftrightarrow>
     0 \<le> Nok (putRes p) \<and> 0 \<le> Nmaybe (putRes p) \<and> (0 < Nok (putRes p) + Nmaybe (putRes p) \<longrightarrow> V \<noteq> 0) \<and>
     unat (verm p k) \<le> unat V \<and>
     (case putPc p of
        PutIdle \<Rightarrow> co = None
      | PutStopped \<Rightarrow> co = None
      | InPut k' ver \<Rightarrow> k' = k \<and> unat ver \<le> unat V \<and>
          (\<exists>first start. co = Some (CPut k (enc \<lparr>evId = c, evV = ver\<rparr>) ver first, start))
      | InGet k' ver err \<Rightarrow> k' = k \<and> V \<noteq> 0 \<and> err \<in> {OK, ErrVersion, ErrMaybe} \<and> (\<exists>start. co = Some (CGet k, start)) \<and>
          (err = OK \<longrightarrow> unat ver < unat V \<and> (V = ver + 1 \<longrightarrow> dec val = Some \<lparr>evId = c, evV = ver\<rparr>))
      | PutFailed \<Rightarrow> False)"

text \<open>How many puts of the client the server has performed at least and at most, and that no put
  is in doubt.\<close>

definition resending :: "(call \<times> int) option \<Rightarrow> bool" where
  "resending co \<longleftrightarrow> (case co of Some (CPut _ _ _ False, _) \<Rightarrow> True | _ \<Rightarrow> False)"

definition inDoubt :: "Tversion \<Rightarrow> (call \<times> int) option \<Rightarrow> bool" where
  "inDoubt V co \<longleftrightarrow> (case co of Some (CPut _ _ n False, _) \<Rightarrow> unat n < unat V | _ \<Rightarrow> False)"

definition pendingErr :: "PutClient \<Rightarrow> Err" where
  "pendingErr p = (case putPc p of InGet _ _ err \<Rightarrow> err | _ \<Rightarrow> ErrEmpty)"

definition putsLo :: "PutClient \<Rightarrow> int" where
  "putsLo p = Nok (putRes p) + (if pendingErr p = OK then 1 else 0)"

definition putsHi :: "Tversion \<Rightarrow> (call \<times> int) option \<Rightarrow> PutClient \<Rightarrow> int" where
  "putsHi V co p = Nok (putRes p) + Nmaybe (putRes p) +
     (if pendingErr p = OK \<or> pendingErr p = ErrMaybe \<or> inDoubt V co then 1 else 0)"

definition putsDone :: "PutClient \<Rightarrow> int" where
  "putsDone p = Nok (putRes p) + Nmaybe (putRes p)"

definition certain :: "(call \<times> int) option \<Rightarrow> PutClient \<Rightarrow> bool" where
  "certain co p \<longleftrightarrow> Nmaybe (putRes p) = 0 \<and> pendingErr p \<noteq> ErrMaybe \<and> \<not> resending co"

lemmas put_counts = putsLo_def putsHi_def putsDone_def certain_def pendingErr_def

lemma doubt_simps [simp]:
  "resending None = False" "resending (Some (CGet k, start)) = False"
  "resending (Some (CPut k v n first, start)) = (\<not> first)"
  "inDoubt V None = False" "inDoubt V (Some (CGet k, start)) = False"
  "inDoubt V (Some (CPut k v n first, start)) = (\<not> first \<and> unat n < unat V)"
  by (cases first; simp add: resending_def inDoubt_def)+

text \<open>A step of the client, from (\<open>V\<close>, \<open>val\<close>, \<open>co\<close>, \<open>p\<close>) to the primed ones.\<close>

definition put_step :: "(EntryV \<Rightarrow> string) \<Rightarrow> (string \<Rightarrow> EntryV option) \<Rightarrow> string \<Rightarrow> int \<Rightarrow> bool \<Rightarrow> Tversion \<Rightarrow> string \<Rightarrow>
    (call \<times> int) option \<Rightarrow> PutClient \<Rightarrow> Tversion \<Rightarrow> string \<Rightarrow> (call \<times> int) option \<Rightarrow> PutClient \<Rightarrow> bool" where
  "put_step enc dec k c delivered V val co p V' val' co' p' \<longleftrightarrow>
     put_ok enc dec k c V' val' co' p' \<and>
     (V' = V \<and> val' = val \<or> unat V' = Suc (unat V) \<and> (\<exists>e. val' = enc e)) \<and>
     putsLo p' - putsLo p \<le> int (unat V') - int (unat V) \<and>
     int (unat V') - int (unat V) \<le> putsHi V' co' p' - putsHi V co p \<and>
     putsDone p' \<le> putsDone p + 1 \<and>
     (delivered \<and> certain co p \<longrightarrow> certain co' p')"

lemma put_step_refl: "put_ok enc dec k c V val co p \<Longrightarrow> put_step enc dec k c b V val co p V val co p"
  by (simp add: put_step_def)

lemma put_start_step:
  assumes ok: "put_ok enc dec k c V val None p" and ka: "ka \<noteq> []" "\<forall>x \<in> set ka. x = k"
    and go: "putGo enc rk ka c p r = (p', cl)"
  shows "cl = None \<and> p' = p \<or> (\<exists>n v. cl = Some (CPut k v n True) \<and>
     put_step enc dec k c b V val None p V val (Some (CPut k v n True, start)) p')"
proof -
  have "(if rk then ka ! (r mod length ka) else ka ! 0) = k" using ka by simp
  then show ?thesis
    using ok go ka(1)
    by (auto simp: putGo_def Let_def put_ok_def put_step_def put_counts PutJson_def split: if_splits put_pc.splits)
qed

lemma put_stop_ok: "put_ok enc dec k c V val None p \<Longrightarrow> put_step enc dec k c b V val None p V val None (putStop p)"
  by (auto simp: putStop_def put_ok_def put_step_def put_counts split: put_pc.splits)

lemma put_answer_step:
  assumes ok: "put_ok enc dec k c V val (Some (CPut k v n first, start)) p" and dec: "\<forall>e. dec (enc e) = Some e"
    and react: "OnePut enc dec c p (APut err) = (p', cl)"
    and answer: "n \<noteq> V \<and> V' = V \<and> val' = val \<and> err = (if V = 0 then ErrNoKey else if first then ErrVersion else ErrMaybe) \<or>
       n = V \<and> unat V' = Suc (unat V) \<and> val' = v \<and> err = OK"
  shows "cl = Some (CGet k) \<and> (\<forall>start'. put_step enc dec k c b V val (Some (CPut k v n first, start)) p V' val'
     (Some (CGet k, start')) p')"
proof -
  from ok obtain ver where pc: "putPc p = InPut k ver" and n: "n = ver" "v = enc \<lparr>evId = c, evV = ver\<rparr>" "unat ver \<le> unat V"
    by (auto simp: put_ok_def split: put_pc.splits)
  from answer show ?thesis
  proof
    assume a: "n \<noteq> V \<and> V' = V \<and> val' = val \<and> err = (if V = 0 then ErrNoKey else if first then ErrVersion else ErrMaybe)"
    then have "V \<noteq> 0" using n by (auto simp: unat_eq_zero)
    then show ?thesis
      using a ok react pc n by (auto simp: OnePut_def put_ok_def put_step_def put_counts split: if_splits)
  next
    assume a: "n = V \<and> unat V' = Suc (unat V) \<and> val' = v \<and> err = OK"
    then have "V' \<noteq> 0" "unat (verm p k) \<le> unat V'" using ok by (auto simp: put_ok_def)
    then show ?thesis
      using a ok react pc n dec by (auto simp: OnePut_def put_ok_def put_step_def put_counts split: if_splits)
  qed
qed

lemma put_read_step:
  assumes ok: "put_ok enc dec k c V val (Some (CGet k, start)) p" and val: "dec val = Some e"
    and react: "OnePut enc dec c p (AGet r) = (p', cl)"
    and r: "grErr r = OK" "grVersion r = V" "grValue r = val"
  shows "cl = None \<and> put_step enc dec k c b V val (Some (CGet k, start)) p V val None p' \<or>
     (\<exists>v n. cl = Some (CPut k v n True) \<and> (\<forall>start'. put_step enc dec k c b V val (Some (CGet k, start)) p V val
        (Some (CPut k v n True, start')) p'))"
proof -
  from ok obtain ver err where pc: "putPc p = InGet k ver err" and V: "V \<noteq> 0" "err \<in> {OK, ErrVersion, ErrMaybe}"
    "err = OK \<longrightarrow> unat ver < unat V \<and> (V = ver + 1 \<longrightarrow> dec val = Some \<lparr>evId = c, evV = ver\<rparr>)"
    by (auto simp: put_ok_def split: put_pc.splits)
  have get: "GetJson dec r = Some (e, V)" using r val by (simp add: GetJson_def)
  have "\<not> (err = OK \<and> V = ver + 1 \<and> evId e \<noteq> c \<and> evV e \<noteq> ver)" using V(3) val by auto
  then show ?thesis
    using ok react V pc by (auto simp: OnePut_def get put_ok_def put_step_def put_counts PutJson_def split: if_splits)
qed

lemma issue_simps [simp]:
  "hWorld (issue c cl h) = hWorld h" "d \<noteq> c \<Longrightarrow> hCalls (issue c cl h) d = hCalls h d"
  "hCalls (issue c None h) = hCalls h"
  "hCalls (issue c (Some (CGet k)) h) c = Some (CGet k, hClock h)"
  "hCalls (issue c (Some (CPut k v n first)) h) c = Some (CPut k v n True, hClock h)"
  by (cases "(c, cl, h)" rule: issue.cases; simp add: beginGet_def beginPut_def)+

lemma put_lost_step:
  assumes ok: "put_ok enc dec k c V val (Some (CPut k v n first, start)) p"
    and V': "V' = V \<and> val' = val \<or> n = V \<and> unat V' = Suc (unat V) \<and> val' = v"
  shows "put_step enc dec k c False V val (Some (CPut k v n first, start)) p V' val' (Some (CPut k v n False, start)) p"
proof -
  from ok obtain ver where pc: "putPc p = InPut k ver" and n: "n = ver" "v = enc \<lparr>evId = c, evV = ver\<rparr>"
    by (auto simp: put_ok_def split: put_pc.splits)
  from V' show ?thesis
  proof
    assume "V' = V \<and> val' = val"
    then show ?thesis using ok pc n by (cases first) (auto simp: put_ok_def put_step_def put_counts)
  next
    assume a: "n = V \<and> unat V' = Suc (unat V) \<and> val' = v"
    then have "V' \<noteq> 0" by auto
    then show ?thesis using a ok pc n by (cases first) (auto simp: put_ok_def put_step_def put_counts)
  qed
qed

lemma issue_log [simp]: "hLog (issue c cl h) = hLog h"
  by (cases "(c, cl, h)" rule: issue.cases) (simp_all add: beginGet_def beginPut_def)

declare issue.simps(2,3) [simp del]

lemma stepCall_log_err:
  assumes "stepCall c f h = (h', a)" "a \<noteq> Some (APut ErrNoKey)" "noErrNoKey (hLog h)"
  shows "noErrNoKey (hLog h')"
  using assms
  by (auto simp: stepCall_def finish_simps Let_def noErrNoKey_def getOp_def putOp_def
      split: option.splits call.splits prod.splits)

lemma stepCall_frame:
  "stepCall c f h = (h', a) \<Longrightarrow> d \<noteq> c \<Longrightarrow> hCalls h' d = hCalls h d"
  by (auto simp: stepCall_def finish_simps Let_def split: option.splits call.splits prod.splits)

lemma fclntStep_frame:
  "fclntStep go stop react c ev p h = (p', h') \<Longrightarrow> d \<noteq> c \<Longrightarrow> hCalls h' d = hCalls h d"
  by (auto simp: fclntStep_def split: option.splits client_event.splits prod.splits dest: stepCall_frame)

lemma fclntStep_key_inv:
  assumes "key_inv k t (hWorld h)" "Suc t < 2 ^ 64" "fclntStep go stop react c ev p h = (p', h')"
  shows "key_inv k (Suc t) (hWorld h')"
  using assms(3) stepCall_key_inv [OF assms(1,2), of c] key_inv_mono [OF assms(1), of "Suc t"]
  by (auto simp: fclntStep_def split: option.splits client_event.splits prod.splits; metis fst_conv)

text \<open>Every step of a putting client.\<close>

definition allDelivered :: "client_event \<Rightarrow> bool" where
  "allDelivered ev \<longleftrightarrow> (case ev of Done \<Rightarrow> True | Go r f \<Rightarrow> f = Delivered)"

text \<open>The state of the key in a test.\<close>

abbreviation ver_of :: "string \<Rightarrow> Hist \<Rightarrow> Tversion" where "ver_of k h \<equiv> curVersion k (hWorld h)"
abbreviation val_of :: "string \<Rightarrow> Hist \<Rightarrow> string" where "val_of k h \<equiv> curValue k (hWorld h)"

definition client_progress :: "(EntryV \<Rightarrow> string) \<Rightarrow> (string \<Rightarrow> EntryV option) \<Rightarrow> string \<Rightarrow> int \<Rightarrow> bool \<Rightarrow> Hist \<Rightarrow> PutClient \<Rightarrow>
    Hist \<Rightarrow> PutClient \<Rightarrow> bool" where
  "client_progress enc dec k c b h p h' p' \<longleftrightarrow>
     put_step enc dec k c b (ver_of k h) (val_of k h) (hCalls h c) p (ver_of k h') (val_of k h') (hCalls h' c) p' \<and>
     (noErrNoKey (hLog h) \<longrightarrow> noErrNoKey (hLog h'))"

lemma put_call_progress:
  assumes dec: "\<forall>e. dec (enc e) = Some e" and inv: "key_inv k t (hWorld h)" "Suc t < 2 ^ 64"
    and ok: "put_ok enc dec k c (ver_of k h) (val_of k h) (hCalls h c) p"
    and call: "hCalls h c = Some (CPut k v n first, start)"
    and step: "fclntStep (putGo enc rk ka c) putStop (OnePut enc dec c) c (Go r f) p h = (p', h')"
  shows "client_progress enc dec k c (f = Delivered) h p h' p'"
proof -
  obtain h1 a where sc: "stepCall c f h = (h1, a)" by fastforce
  note ok' = ok [unfolded call] and noErr = stepCall_log_err [OF sc]
  have lost: "p' = p \<and> h' = h1" if "a = None" using step that by (auto simp: fclntStep_def call sc)
  have react: "\<exists>cl. OnePut enc dec c p b = (p', cl) \<and> h' = issue c cl h1" if "a = Some b" for b
    using step that by (auto simp: fclntStep_def call sc split: prod.splits)
  note lost_step = put_lost_step [OF ok', of "ver_of k h1" "val_of k h1"]
  from inv call sc show ?thesis
  proof (cases rule: stepCall_put_cases)
    case lost
    then show ?thesis using \<open>a = None \<Longrightarrow> p' = p \<and> h' = h1\<close> lost_step noErr by (simp add: client_progress_def call)
  next
    case lost_effect
    then show ?thesis using lost lost_step noErr by (simp add: client_progress_def call)
  next
    case refused
    let ?err = "if ver_of k h = 0 then ErrNoKey else if first then ErrVersion else ErrMaybe"
    from react [OF refused(1)] obtain cl where cl: "OnePut enc dec c p (APut ?err) = (p', cl)" "h' = issue c cl h1" by blast
    have "ver_of k h \<noteq> 0" using refused(3) ok' by (auto simp: put_ok_def unat_eq_zero split: put_pc.splits)
    then show ?thesis
      using put_answer_step [OF ok' dec cl(1), of "ver_of k h1" "val_of k h1"] refused noErr
      by (auto simp: client_progress_def cl(2) call split: if_splits)
  next
    case performed
    from react [OF performed(1)] obtain cl where cl: "OnePut enc dec c p (APut OK) = (p', cl)" "h' = issue c cl h1" by blast
    then show ?thesis
      using put_answer_step [OF ok' dec cl(1), of "ver_of k h1" "val_of k h1"] performed noErr
      by (simp add: client_progress_def call)
  qed
qed

lemma get_call_progress:
  assumes inv: "key_inv k t (hWorld h)" and val: "dec (val_of k h) = Some e" and V: "ver_of k h \<noteq> 0"
    and ok: "put_ok enc dec k c (ver_of k h) (val_of k h) (hCalls h c) p"
    and call: "hCalls h c = Some (CGet k, start)"
    and step: "fclntStep (putGo enc rk ka c) putStop (OnePut enc dec c) c (Go r f) p h = (p', h')"
  shows "client_progress enc dec k c b h p h' p'"
proof -
  obtain h1 a where sc: "stepCall c f h = (h1, a)" by fastforce
  from inv call sc show ?thesis
  proof (cases rule: stepCall_get_cases)
    case lost
    then have "p' = p" "h' = h" using step by (auto simp: fclntStep_def call sc)
    then show ?thesis using put_step_refl [OF ok] by (simp add: client_progress_def)
  next
    case (answered rep)
    then obtain cl where react: "OnePut enc dec c p (AGet rep) = (p', cl)" and h': "h' = issue c cl h1"
      using step by (auto simp: fclntStep_def call sc split: prod.splits)
    show ?thesis
      using put_read_step [OF ok [unfolded call] val react, of b] answered V stepCall_log_err [OF sc]
      by (auto simp: client_progress_def h' call)
  qed
qed

lemma put_client_progress:
  assumes dec: "\<forall>e. dec (enc e) = Some e" and ka: "ka \<noteq> []" "\<forall>x \<in> set ka. x = k"
    and inv: "key_inv k t (hWorld h)" "Suc t < 2 ^ 64" and val: "ver_of k h \<noteq> 0 \<Longrightarrow> \<exists>e. val_of k h = enc e"
    and ok: "put_ok enc dec k c (ver_of k h) (val_of k h) (hCalls h c) p"
    and step: "fclntStep (putGo enc rk ka c) putStop (OnePut enc dec c) c ev p h = (p', h')"
  shows "client_progress enc dec k c (allDelivered ev) h p h' p'"
proof (cases ev)
  case Done
  then have "h' = h \<and> (p' = p \<or> hCalls h c = None \<and> p' = putStop p)"
    using step by (auto simp: fclntStep_def split: option.splits)
  then show ?thesis using put_step_refl [OF ok] put_stop_ok ok by (auto simp: client_progress_def)
next
  case (Go r f)
  have b: "allDelivered ev \<longleftrightarrow> f = Delivered" by (simp add: Go allDelivered_def)
  note step = step [unfolded Go]
  from ok consider "hCalls h c = None" | v n first start where "hCalls h c = Some (CPut k v n first, start)"
    | start where "hCalls h c = Some (CGet k, start)" "ver_of k h \<noteq> 0"
    by (auto simp: put_ok_def split: put_pc.splits)
  then show ?thesis
  proof cases
    case 1
    then obtain cl where go: "putGo enc rk ka c p r = (p', cl)" and h': "h' = issue c cl h"
      using step by (auto simp: fclntStep_def split: prod.splits)
    show ?thesis
      using put_start_step [OF ok [unfolded 1] ka go, of "allDelivered ev" "hClock h"] put_step_refl [OF ok]
      by (auto simp: client_progress_def h' 1)
  next
    case 2
    then show ?thesis unfolding b by (rule put_call_progress [OF dec inv ok _ step])
  next
    case 3
    with val dec obtain e where "dec (val_of k h) = Some e" by metis
    from get_call_progress [OF inv(1) this 3(2) ok 3(1) step] show ?thesis .
  qed
qed

section \<open>The test of concurrent puts\<close>

lemma sum_step_le:
  fixes f g :: "'a \<Rightarrow> int"
  assumes "finite A" "c \<in> A" "\<And>d. d \<in> A \<Longrightarrow> d \<noteq> c \<Longrightarrow> f d \<le> g d"
  shows "sum f A + (g c - f c) \<le> sum g A"
proof -
  have "sum f (A - {c}) \<le> sum g (A - {c})" using assms(3) by (intro sum_mono) auto
  then show ?thesis using assms(1,2) by (simp add: sum.remove [of A c])
qed

lemma put_ok_frame:
  assumes ok: "put_ok enc dec k d V val co p" and V': "unat V' = Suc (unat V)"
  shows "put_ok enc dec k d V' val' co p"
proof -
  have "V' \<noteq> 0" using V' by auto
  moreover have "V' \<noteq> ver + 1" if "unat ver < unat V" for ver
  proof
    assume "V' = ver + 1"
    then have "unat V' \<le> Suc (unat ver)" by (simp add: unat_word_ariths)
    then show False using that V' by simp
  qed
  ultimately show ?thesis using ok V' by (auto simp: put_ok_def split: put_pc.splits)
qed

lemma putsHi_mono: "unat V \<le> unat V' \<Longrightarrow> putsHi V co p \<le> putsHi V' co p"
  by (auto simp: putsHi_def inDoubt_def split: option.splits call.splits bool.splits)

definition puts_inv :: "(EntryV \<Rightarrow> string) \<Rightarrow> (string \<Rightarrow> EntryV option) \<Rightarrow> string \<Rightarrow> nat \<Rightarrow> bool \<Rightarrow> nat \<Rightarrow> PutClient Clients \<Rightarrow> bool" where
  "puts_inv enc dec k n reliable t s \<longleftrightarrow>
     (let h = tHist s; V = ver_of k h; A = {0..<int n} in
      key_inv k t (hWorld h) \<and> (V \<noteq> 0 \<longrightarrow> (\<exists>e. val_of k h = enc e)) \<and> noErrNoKey (hLog h) \<and>
      (\<forall>c \<in> A. put_ok enc dec k c V (val_of k h) (hCalls h c) (tProgs s c)) \<and>
      (\<forall>c. c \<notin> A \<longrightarrow> hCalls h c = None) \<and>
      (\<Sum>c\<in>A. putsLo (tProgs s c)) \<le> int (unat V) \<and>
      int (unat V) \<le> (\<Sum>c\<in>A. putsHi V (hCalls h c) (tProgs s c)) \<and>
      (\<Sum>c\<in>A. putsDone (tProgs s c)) \<le> int t \<and>
      (reliable \<longrightarrow> (\<forall>c \<in> A. certain (hCalls h c) (tProgs s c))))"

lemma puts_client_inv:
  assumes dec: "\<forall>e. dec (enc e) = Some e" and ka: "ka \<noteq> []" "\<forall>x \<in> set ka. x = k"
    and inv: "puts_inv enc dec k n reliable t s" and t: "Suc t < 2 ^ 64" and c: "c \<in> {0..<int n}"
    and rel: "reliable \<longrightarrow> allDelivered ev"
    and step: "fclntStep (putGo enc rk ka c) putStop (OnePut enc dec c) c ev (tProgs s c) (tHist s) = (p, h)"
  shows "puts_inv enc dec k n reliable (Suc t) \<lparr>tHist = h, tProgs = (tProgs s)(c := p)\<rparr>"
proof -
  let ?h = "tHist s" and ?A = "{0..<int n}" and ?P = "(tProgs s)(c := p)"
  let ?V = "ver_of k ?h" and ?V' = "ver_of k h"
  have key: "key_inv k t (hWorld ?h)" and val: "?V \<noteq> 0 \<Longrightarrow> \<exists>e. val_of k ?h = enc e" and noErr: "noErrNoKey (hLog ?h)"
    and ok: "\<And>d. d \<in> ?A \<Longrightarrow> put_ok enc dec k d ?V (val_of k ?h) (hCalls ?h d) (tProgs s d)"
    and out: "\<And>d. d \<notin> ?A \<Longrightarrow> hCalls ?h d = None"
    and lo: "(\<Sum>c\<in>?A. putsLo (tProgs s c)) \<le> int (unat ?V)"
    and hi: "int (unat ?V) \<le> (\<Sum>c\<in>?A. putsHi ?V (hCalls ?h c) (tProgs s c))"
    and cnt: "(\<Sum>c\<in>?A. putsDone (tProgs s c)) \<le> int t"
    and cert: "\<And>d. reliable \<Longrightarrow> d \<in> ?A \<Longrightarrow> certain (hCalls ?h d) (tProgs s d)"
    using inv unfolding puts_inv_def Let_def by auto
  have pr: "put_step enc dec k c (allDelivered ev) ?V (val_of k ?h) (hCalls ?h c) (tProgs s c) ?V' (val_of k h) (hCalls h c) p"
    and noErr': "noErrNoKey (hLog h)"
    using put_client_progress [OF dec ka key t val ok [OF c] step] noErr by (auto simp: client_progress_def)
  have others: "\<And>d. d \<noteq> c \<Longrightarrow> hCalls h d = hCalls ?h d" using fclntStep_frame [OF step] by blast
  have V': "?V' = ?V \<and> val_of k h = val_of k ?h \<or> unat ?V' = Suc (unat ?V) \<and> (\<exists>e. val_of k h = enc e)"
    using pr by (simp add: put_step_def)
  then have le: "unat ?V \<le> unat ?V'" by auto
  have "put_ok enc dec k d ?V' (val_of k h) (hCalls h d) (?P d)" if "d \<in> ?A" for d
    using pr V' ok [OF that] others [of d] put_ok_frame [of enc dec k d ?V "val_of k ?h" "hCalls ?h d" "tProgs s d" ?V']
    by (cases "d = c") (auto simp: put_step_def)
  moreover have "(\<Sum>d\<in>?A. putsLo (?P d)) \<le> int (unat ?V')"
    using sum_step_le [of ?A c "\<lambda>d. putsLo (?P d)" "\<lambda>d. putsLo (tProgs s d)"] c pr lo by (simp add: put_step_def)
  moreover have "int (unat ?V') \<le> (\<Sum>d\<in>?A. putsHi ?V' (hCalls h d) (?P d))"
    using sum_step_le [of ?A c "\<lambda>d. putsHi ?V (hCalls ?h d) (tProgs s d)" "\<lambda>d. putsHi ?V' (hCalls h d) (?P d)"]
      c pr hi others putsHi_mono [OF le] by (simp add: put_step_def)
  moreover have "(\<Sum>d\<in>?A. putsDone (?P d)) \<le> int (Suc t)"
    using sum_step_le [of ?A c "\<lambda>d. putsDone (?P d)" "\<lambda>d. putsDone (tProgs s d)"] c pr cnt by (simp add: put_step_def)
  moreover have "certain (hCalls h d) (?P d)" if "reliable" "d \<in> ?A" for d
    using cert [OF that(1)] that(2) c rel that(1) pr others [of d] by (auto simp: put_step_def)
  moreover have "\<And>d. d \<notin> ?A \<Longrightarrow> hCalls h d = None" using out others c by metis
  moreover have "?V' \<noteq> 0 \<Longrightarrow> \<exists>e. val_of k h = enc e" using V' val by auto
  ultimately show ?thesis
    using fclntStep_key_inv [OF key t step] noErr' unfolding puts_inv_def Let_def by simp
qed

fun reliableEvent :: "test_event \<Rightarrow> bool" where
  "reliableEvent (Client c ev) = allDelivered ev"
| "reliableEvent (Tick d) = True"

lemma puts_step_inv:
  assumes "\<forall>e. dec (enc e) = Some e" "ka \<noteq> []" "\<forall>x \<in> set ka. x = k"
    and inv: "puts_inv enc dec k n reliable t s" and t: "Suc t < 2 ^ 64" and rel: "reliable \<longrightarrow> reliableEvent ev"
  shows "puts_inv enc dec k n reliable (Suc t) (testStep (putGo enc rk ka) putStop (OnePut enc dec) n s ev)"
proof -
  have mono: "puts_inv enc dec k n reliable (Suc t) s"
    using inv unfolding puts_inv_def Let_def by (auto intro: key_inv_mono)
  show ?thesis
  proof (cases ev)
    case (Tick d)
    then show ?thesis using mono by (simp add: testStep_def puts_inv_def Let_def)
  next
    case (Client c cev)
    obtain p h where "fclntStep (putGo enc rk ka c) putStop (OnePut enc dec c) c cev (tProgs s c) (tHist s) = (p, h)"
      by fastforce
    then show ?thesis
      using puts_client_inv [OF assms(1-3) inv t, of c cev rk p h] rel mono by (simp add: testStep_def Client)
  qed
qed

lemma puts_run_inv:
  assumes "\<forall>e. dec (enc e) = Some e" "ka \<noteq> []" "\<forall>x \<in> set ka. x = k"
  shows "puts_inv enc dec k n reliable t s \<Longrightarrow> t + length evs < 2 ^ 64 \<Longrightarrow> reliable \<longrightarrow> list_all reliableEvent evs \<Longrightarrow>
    puts_inv enc dec k n reliable (t + length evs) (OneClientPut enc dec rk ka n evs s)"
proof (induction evs arbitrary: s t)
  case Nil
  then show ?case by (simp add: OneClientPut_def SpawnClientsAndWait_def)
next
  case (Cons ev evs)
  then show ?case
    using Cons.IH [OF puts_step_inv [OF assms], of t s ev rk]
    by (simp add: OneClientPut_def SpawnClientsAndWait_def)
qed

definition putsInit :: "PutClient Clients" where
  "putsInit = \<lparr>tHist = histInit MakeKVServer, tProgs = (\<lambda>_. putClientInit)\<rparr>"

lemma putsInit_inv: "puts_inv enc dec k n reliable 0 putsInit"
proof -
  have "ver_of k (tHist putsInit) = 0" "key_inv k 0 (hWorld (tHist putsInit))" "hCalls (tHist putsInit) = Map.empty"
    "hLog (tHist putsInit) = []"
    using histInit_inv [of k] by (simp_all add: putsInit_def lin_inv_def)
      (simp_all add: histInit_def MakeKVServer_def curVersion_def version_of_def kv_content_def)
  then show ?thesis
    by (simp add: puts_inv_def Let_def putsInit_def putClientInit_def put_ok_def put_counts noErrNoKey_def)
qed

text \<open>The read of the check.\<close>

lemma awaitGet:
  assumes "key_inv k t (hWorld h)" "hCalls h c = Some (CGet k, start)" "ver_of k h \<noteq> 0" "Delivered \<in> set fs"
  shows "\<exists>h' r. awaitCall c fs h = Some (h', AGet r) \<and> grErr r = OK \<and> grVersion r = ver_of k h \<and> grValue r = val_of k h \<and>
     hWorld h' = hWorld h \<and> hCalls h' = (hCalls h)(c := None) \<and> (noErrNoKey (hLog h) \<longrightarrow> noErrNoKey (hLog h'))"
  using assms(4)
proof (induction fs)
  case Nil
  then show ?case by simp
next
  case (Cons f fs)
  obtain h1 a where sc: "stepCall c f h = (h1, a)" by fastforce
  from assms(1,2) sc show ?case
  proof (cases rule: stepCall_get_cases)
    case lost
    then show ?thesis using Cons sc by auto
  next
    case (answered r)
    then show ?thesis using assms(3) stepCall_log_err [OF sc] by (auto simp: sc)
  qed
qed

lemma sumRes_eq:
  "Nok (sumRes rs res) = Nok res + (\<Sum>r\<leftarrow>rs. Nok r)" "Nmaybe (sumRes rs res) = Nmaybe res + (\<Sum>r\<leftarrow>rs. Nmaybe r)"
  unfolding sumRes_def by (induction rs arbitrary: res) simp_all

lemma sum_clients: "(\<Sum>c\<in>{0..<int n}. f c) = (\<Sum>i\<leftarrow>[0..<n]. f (int i) :: int)"
proof (induction n)
  case (Suc n)
  have "{0..<int (Suc n)} = insert (int n) {0..<int n}" by auto
  then show ?case using Suc by simp
qed simp

definition clientResults :: "nat \<Rightarrow> PutClient Clients \<Rightarrow> ClntRes list" where
  "clientResults n s = map (\<lambda>i. putRes (tProgs s (int i))) [0..<n]"

lemma sumRes_clients:
  "Nok (sumRes (clientResults n s) \<lparr>Nok = 0, Nmaybe = 0\<rparr>) = (\<Sum>c\<in>{0..<int n}. Nok (putRes (tProgs s c)))"
  "Nmaybe (sumRes (clientResults n s) \<lparr>Nok = 0, Nmaybe = 0\<rparr>) = (\<Sum>c\<in>{0..<int n}. Nmaybe (putRes (tProgs s c)))"
  by (simp_all add: sumRes_eq sum_clients clientResults_def comp_def)

lemma of_int_version:
  assumes "0 \<le> i" "i < 2 ^ 64"
  shows "unat (of_int i :: Tversion) = nat i"
proof -
  obtain m where "i = int m" using assms(1) nonneg_int_cases by blast
  then show ?thesis using assms(2) by (simp add: unat_of_nat)
qed

lemma version_between:
  assumes "0 \<le> a" "0 \<le> b" "a + b < 2 ^ 64" "a \<le> int (unat (V :: Tversion))" "int (unat V) \<le> a + b"
  shows "(b = 0 \<longrightarrow> V = of_int a) \<and> \<not> V > of_int (a + b)"
proof -
  have "unat (of_int a :: Tversion) = nat a" "unat (of_int (a + b) :: Tversion) = nat (a + b)"
    using assms(1-3) of_int_version [of a] of_int_version [of "a + b"] by linarith+
  moreover have "b = 0 \<Longrightarrow> unat V = nat a" "unat V \<le> nat (a + b)" using assms(1,2,4,5) by linarith+
  ultimately show ?thesis by (metis word_unat_eq_iff word_less_nat_alt linorder_not_le)
qed

lemma puts_counted:
  assumes inv: "puts_inv enc dec k n reliable t s" and t: "t < 2 ^ 64"
    and stopped: "\<forall>c \<in> {0..<int n}. putPc (tProgs s c) = PutStopped"
  shows "hCalls (tHist s) = Map.empty"
    and "let tot = sumRes (clientResults n s) \<lparr>Nok = 0, Nmaybe = 0\<rparr>; V = ver_of k (tHist s)
         in (reliable \<longrightarrow> V = of_int (Nok tot)) \<and> \<not> V > of_int (Nok tot + Nmaybe tot)"
proof -
  let ?h = "tHist s" and ?A = "{0..<int n}" and ?V = "ver_of k (tHist s)"
  let ?ok = "\<Sum>c\<in>?A. Nok (putRes (tProgs s c))" and ?maybe = "\<Sum>c\<in>?A. Nmaybe (putRes (tProgs s c))"
  have ok: "\<And>c. c \<in> ?A \<Longrightarrow> put_ok enc dec k c ?V (val_of k ?h) (hCalls ?h c) (tProgs s c)"
    using inv by (simp add: puts_inv_def Let_def)
  have none: "hCalls ?h c = None" for c
    using inv ok [of c] stopped by (cases "c \<in> ?A") (auto simp: puts_inv_def Let_def put_ok_def)
  then show "hCalls (tHist s) = Map.empty" by auto
  have lo: "?ok \<le> int (unat ?V)" and hi: "int (unat ?V) \<le> ?ok + ?maybe" and cnt: "?ok + ?maybe \<le> int t"
    using inv stopped by (simp_all add: puts_inv_def Let_def put_counts none sum.distrib)
  have nn: "0 \<le> ?ok" "0 \<le> ?maybe" using ok by (auto simp: put_ok_def intro!: sum_nonneg)
  have rel: "?maybe = 0" if reliable using inv that by (simp add: puts_inv_def Let_def certain_def)
  have "?ok + ?maybe < 2 ^ 64" using cnt t by auto
  from version_between [OF nn this lo hi] show "let tot = sumRes (clientResults n s) \<lparr>Nok = 0, Nmaybe = 0\<rparr>; V = ver_of k (tHist s)
      in (reliable \<longrightarrow> V = of_int (Nok tot)) \<and> \<not> V > of_int (Nok tot + Nmaybe tot)"
    using rel unfolding Let_def sumRes_clients by blast
qed

text \<open>C18: the test of concurrent puts passes. Clients that race to put to one key on the
  unreplicated store never fail a check of their own (their errors are the documented ones, and
  a value that they read back right after their own put is their own), and when all have stopped
  and one has put at all, the version of the key agrees with what the clients have counted:
  exactly the successful puts when the network loses nothing, and at most the successful and
  the doubtful ones otherwise; and the linearizability check does not fail either.\<close>

theorem put_concurrent_test_passes:
  assumes codec: "\<forall>e. dec (enc e) = Some e" and ka: "ka \<noteq> []" "\<forall>x \<in> set ka. x = k"
    and s: "s = OneClientPut enc dec rk ka n evs putsInit" and len: "length evs + length fs < 2 ^ 64"
    and rel: "reliable \<longrightarrow> list_all reliableEvent evs" and fs: "Delivered \<in> set fs" and check: "sound_checker check"
  shows "(\<forall>c \<in> {0..<int n}. putPc (tProgs s c) \<noteq> PutFailed) \<and>
    ((\<forall>c \<in> {0..<int n}. putPc (tProgs s c) = PutStopped) \<and>
     (\<exists>c \<in> {0..<int n}. 0 < Nok (putRes (tProgs s c)) + Nmaybe (putRes (tProgs s c))) \<longrightarrow>
       (\<exists>h. CheckPutConcurrent dec k (clientResults n s) \<lparr>Nok = 0, Nmaybe = 0\<rparr> reliable fs (tHist s) = Some (h, True) \<and>
            fst (checkPorcupine check enabled opened order t (hLog h) an)))"
proof (intro conjI impI)
  let ?A = "{0..<int n}" and ?V = "ver_of k (tHist s)"
  have inv: "puts_inv enc dec k n reliable (length evs) s"
    using puts_run_inv [OF codec ka putsInit_inv, of evs reliable n rk] len rel s by simp
  then show "\<forall>c \<in> ?A. putPc (tProgs s c) \<noteq> PutFailed"
    by (auto simp: puts_inv_def Let_def put_ok_def split: put_pc.splits)
  assume done_x: "(\<forall>c \<in> ?A. putPc (tProgs s c) = PutStopped) \<and>
      (\<exists>c \<in> ?A. 0 < Nok (putRes (tProgs s c)) + Nmaybe (putRes (tProgs s c)))"
  note counted = puts_counted [OF inv _ conjunct1 [OF done_x]]
  have V: "?V \<noteq> 0" using inv done_x by (auto simp: puts_inv_def Let_def put_ok_def)
  then have "\<exists>e. val_of k (tHist s) = enc e" using inv by (simp add: puts_inv_def Let_def)
  then obtain e where val: "dec (val_of k (tHist s)) = Some e" using codec by metis
  let ?h = "beginGet (-1) k (tHist s)"
  obtain h r where get: "awaitCall (-1) fs ?h = Some (h, AGet r)" "grErr r = OK" "grVersion r = ?V"
    "grValue r = val_of k (tHist s)" "hCalls h = (hCalls ?h)(-1 := None)" "noErrNoKey (hLog ?h) \<longrightarrow> noErrNoKey (hLog h)"
    using awaitGet [of k "length evs" ?h "-1" "hClock (tHist s)" fs] fs V inv
    by (auto simp: beginGet_def puts_inv_def Let_def)
  have json: "GetJson dec r = Some (e, ?V)" using get val by (simp add: GetJson_def)
  have passed: "CheckPutConcurrent dec k (clientResults n s) \<lparr>Nok = 0, Nmaybe = 0\<rparr> reliable fs (tHist s) = Some (h, True)"
    using counted(2) len by (auto simp: CheckPutConcurrent_def get(1) json Let_def)
  have calls: "hCalls (tHist s) = Map.empty" using counted(1) len by simp
  have lin: "lin_inv k' (length evs) (tHist s)" for k'
    using run_inv [of k' 0 putsInit evs] histInit_inv len s by (simp add: putsInit_def OneClientPut_def)
  have "lin_inv k' (length evs + length fs) h" for k'
    using awaitCall_inv [OF _ _ get(1), of k' "length evs"] invoke_inv [OF lin, of "-1"] calls len
    by (simp add: beginGet_def)
  then have "list_all linearizable (modelPartition (OpLogRead (hLog h)))"
    using run_linearizable [of "length evs + length fs" h] get(5,6) calls inv
    by (simp add: beginGet_def puts_inv_def Let_def fun_eq_iff)
  with passed checkPorcupine_passes [OF check] show
    "\<exists>h. CheckPutConcurrent dec k (clientResults n s) \<lparr>Nok = 0, Nmaybe = 0\<rparr> reliable fs (tHist s) = Some (h, True) \<and>
       fst (checkPorcupine check enabled opened order t (hLog h) an)" by blast
qed

text \<open>An encoding for which the hypothesis on the JSON library holds.\<close>

definition unaryEnc :: "EntryV \<Rightarrow> string" where
  "unaryEnc e = replicate (prod_encode (int_encode (evId e), unat (evV e))) CHR ''1''"

definition unaryDec :: "string \<Rightarrow> EntryV option" where
  "unaryDec s = (case prod_decode (length s) of (i, n) \<Rightarrow> Some \<lparr>evId = int_decode i, evV = of_nat n\<rparr>)"

lemma unary_codec [simp]: "unaryDec (unaryEnc e) = Some e"
  by (simp add: unaryDec_def unaryEnc_def)

theorem put_concurrent_test_passes_witness:
  "let s = OneClientPut unaryEnc unaryDec False [''k''] 2
       [Client 0 (Go 0 Delivered), Client 1 (Go 0 Delivered), Client 0 (Go 0 LostReply), Client 0 (Go 0 Delivered), Tick 2,
        Client 0 (Go 0 Delivered), Client 1 (Go 0 Delivered), Client 1 (Go 0 Delivered), Client 0 Done, Client 1 (Go 0 Delivered),
        Client 1 (Go 0 Delivered), Client 1 Done] putsInit
   in map (\<lambda>r. (Nok r, Nmaybe r)) (clientResults 2 s) = [(0, 1), (1, 0)] \<and>
      (\<exists>h. CheckPutConcurrent unaryDec ''k'' (clientResults 2 s) \<lparr>Nok = 0, Nmaybe = 0\<rparr> False [LostReply, Delivered] (tHist s)
           = Some (h, True))"
proof -
  let ?evs = "[Client 0 (Go 0 Delivered), Client 1 (Go 0 Delivered), Client 0 (Go 0 LostReply), Client 0 (Go 0 Delivered), Tick 2,
        Client 0 (Go 0 Delivered), Client 1 (Go 0 Delivered), Client 1 (Go 0 Delivered), Client 0 Done, Client 1 (Go 0 Delivered),
        Client 1 (Go 0 Delivered), Client 1 Done]"
  define s where "s = OneClientPut unaryEnc unaryDec False [''k''] 2 ?evs putsInit"
  have pcs: "putPc (tProgs s 0) = PutStopped" "putPc (tProgs s 1) = PutStopped"
    and res: "putRes (tProgs s 0) = \<lparr>Nok = 0, Nmaybe = 1\<rparr>" "putRes (tProgs s 1) = \<lparr>Nok = 1, Nmaybe = 0\<rparr>"
    unfolding s_def by code_simp+
  have two: "{0..<int 2} = {0, 1}" by auto
  have "\<forall>c\<in>{0..<int 2}. putPc (tProgs s c) = PutStopped"
    "\<exists>c\<in>{0..<int 2}. 0 < Nok (putRes (tProgs s c)) + Nmaybe (putRes (tProgs s c))"
    unfolding two by (simp_all add: pcs res)
  then have "\<exists>h. CheckPutConcurrent unaryDec ''k'' (clientResults 2 s) \<lparr>Nok = 0, Nmaybe = 0\<rparr> False [LostReply, Delivered]
      (tHist s) = Some (h, True)"
    using put_concurrent_test_passes [where check = "\<lambda>_. CheckUnknown" and fs = "[LostReply, Delivered]" and reliable = False
        and k = "''k''", OF _ _ _ s_def] by (auto simp: sound_checker_def) blast
  moreover have "map (\<lambda>r. (Nok r, Nmaybe r)) (clientResults 2 s) = [(0, 1), (1, 0)]"
    by (simp add: clientResults_def res upt_rec)
  ultimately show ?thesis by (simp add: Let_def flip: s_def)
qed

end
