(* ===== verification/Kv_Appends.thy ===== *)
theory Kv_Appends
  imports Kv_Tests
begin

text \<open>
  The clients that append to a shared list and the check of what they appended
  (\<^verbatim>\<open>OneClientAppend\<close> and \<^verbatim>\<open>CheckAppends\<close> of \<^verbatim>\<open>src/kvtest1/kvtest.go\<close>), on the unreplicated
  store. The key \<^verbatim>\<open>k\<close> holds the list in JSON.
\<close>

text \<open>\<^verbatim>\<open>entry\<close> and \<^verbatim>\<open>EntryN\<close> have the same fields.\<close>

record EntryN =
  enId :: int
  enN :: int

datatype app_pc = AppIdle | AppGet | AppPut | AppStopped | AppFailed

record AppClient =
  appPc :: app_pc
  appI :: int
  appNok :: int
  appNmay :: int

definition appClientInit :: AppClient where
  "appClientInit = \<lparr>appPc = AppIdle, appI = 0, appNok = 0, appNmay = 0\<rparr>"

definition appGo :: "int \<Rightarrow> AppClient \<Rightarrow> nat \<Rightarrow> AppClient \<times> call option" where
  "appGo me p r = (if appPc p = AppIdle then (p\<lparr>appPc := AppGet\<rparr>, Some (CGet ''k'')) else (p, None))"

definition appStop :: "AppClient \<Rightarrow> AppClient" where
  "appStop p = (if appPc p = AppIdle then p\<lparr>appPc := AppStopped\<rparr> else p)"

definition appReact :: "(EntryN list \<Rightarrow> string) \<Rightarrow> (string \<Rightarrow> EntryN list option) \<Rightarrow> int \<Rightarrow> AppClient \<Rightarrow> answer \<Rightarrow>
    AppClient \<times> call option" where
  "appReact enc dec me p a =
     (case (appPc p, a) of
        (AppGet, AGet reply) \<Rightarrow>
          (case GetJson dec reply of
             None \<Rightarrow> (p\<lparr>appPc := AppFailed\<rparr>, None)
           | Some (es, ver) \<Rightarrow>
               (p\<lparr>appPc := AppPut\<rparr>, Some (PutJson enc ''k'' (es @ [\<lparr>enId = me, enN = appI p\<rparr>]) ver)))
      | (AppPut, APut err) \<Rightarrow>
          if err = OK then (p\<lparr>appPc := AppIdle, appNok := appNok p + 1, appI := appI p + 1\<rparr>, None)
          else if err = ErrMaybe then (p\<lparr>appPc := AppIdle, appNmay := appNmay p + 1, appI := appI p + 1\<rparr>, None)
          else (p\<lparr>appPc := AppGet\<rparr>, Some (CGet ''k''))
      | _ \<Rightarrow> (p, None))"

definition OneClientAppend :: "(EntryN list \<Rightarrow> string) \<Rightarrow> (string \<Rightarrow> EntryN list option) \<Rightarrow> nat \<Rightarrow> test_event list \<Rightarrow>
    AppClient Clients \<Rightarrow> AppClient Clients" where
  "OneClientAppend enc dec n evs s = SpawnClientsAndWait appGo appStop (appReact enc dec) n evs s"

definition appResult :: "AppClient \<Rightarrow> ClntRes" where
  "appResult p = \<lparr>Nok = appNok p, Nmaybe = appNmay p\<rparr>"

text \<open>\<^verbatim>\<open>CheckAppends\<close>. The maps have the clients as keys from the beginning and read as 0 elsewhere. The
  last loop ranges over a Go map: \<open>order\<close> lists its keys as the iteration meets them; an index
  of \<^verbatim>\<open>rs\<close> out of range panics, which fails the test like \<^verbatim>\<open>Fatalf\<close>.\<close>

fun appendsLoop :: "EntryN list \<Rightarrow> (int \<Rightarrow> int) \<Rightarrow> (int \<Rightarrow> int) \<Rightarrow> ((int \<Rightarrow> int) \<times> (int \<Rightarrow> int)) option" where
  "appendsLoop [] ex sk = Some (ex, sk)"
| "appendsLoop (e # es) ex sk =
     (if ex (enId e) > enN e then None
      else if ex (enId e) = enN e then appendsLoop es (ex(enId e := ex (enId e) + 1)) sk
      else appendsLoop es (ex(enId e := enN e + 1)) (sk(enId e := sk (enId e) + (enN e - ex (enId e)))))"

definition CheckAppends :: "EntryN list \<Rightarrow> nat \<Rightarrow> ClntRes list \<Rightarrow> Tversion \<Rightarrow> int list \<Rightarrow> bool" where
  "CheckAppends es nclnt rs ver order =
     (case appendsLoop es (\<lambda>_. 0) (\<lambda>_. 0) of
        None \<Rightarrow> False
      | Some (ex, sk) \<Rightarrow>
          int (length es) + 1 = sint ver \<and>
          list_all (\<lambda>c. 0 \<le> c \<and> c < int (length rs) \<and>
                        \<not> sk c > Nmaybe (rs ! nat c) \<and>
                        \<not> ex c > Nok (rs ! nat c) + Nmaybe (rs ! nat c)) order)"

text \<open>The keys of the map \<^verbatim>\<open>expect\<close> at the end.\<close>

definition expectKeys :: "EntryN list \<Rightarrow> nat \<Rightarrow> int set" where
  "expectKeys es nclnt = {0..<int nclnt} \<union> enId ` set es"

section \<open>What the check accepts\<close>

definition numbersOf :: "int \<Rightarrow> EntryN list \<Rightarrow> int list" where
  "numbersOf c es = map enN (filter (\<lambda>e. enId e = c) es)"

definition nextNumber :: "int \<Rightarrow> EntryN list \<Rightarrow> int" where
  "nextNumber c es = (if numbersOf c es = [] then 0 else last (numbersOf c es) + 1)"

definition increasing :: "int list \<Rightarrow> bool" where
  "increasing xs \<longleftrightarrow> sorted_wrt (<) xs \<and> list_all (\<lambda>x. 0 \<le> x) xs"

lemma numbersOf_append [simp]: "numbersOf c (es @ es') = numbersOf c es @ numbersOf c es'"
  by (simp add: numbersOf_def)

lemma numbersOf_one [simp]: "numbersOf c [e] = (if enId e = c then [enN e] else [])"
  by (simp add: numbersOf_def)

lemma increasing_snoc:
  "increasing (xs @ [x]) \<longleftrightarrow> increasing xs \<and> (if xs = [] then 0 else last xs + 1) \<le> x"
proof (cases xs rule: rev_cases)
  case (snoc ys y)
  then show ?thesis by (auto simp: increasing_def sorted_wrt_append list_all_iff)
qed (simp add: increasing_def)

lemma appendsLoop_append:
  "appendsLoop (es @ es') ex sk = (case appendsLoop es ex sk of None \<Rightarrow> None | Some (ex', sk') \<Rightarrow> appendsLoop es' ex' sk')"
  by (induction es arbitrary: ex sk) simp_all

text \<open>The loop accepts exactly the lists in which the numbers of each client are increasing, and
  computes the next number of each client and how many it has skipped.\<close>

lemma appendsLoop_spec:
  "appendsLoop es (\<lambda>_. 0) (\<lambda>_. 0) =
     (if \<forall>c. increasing (numbersOf c es)
      then Some (\<lambda>c. nextNumber c es, \<lambda>c. nextNumber c es - int (length (numbersOf c es)))
      else None)"
proof (induction es rule: rev_induct)
  case Nil
  then show ?case by (simp add: numbersOf_def nextNumber_def increasing_def)
next
  case (snoc e es)
  let ?c = "enId e"
  have "increasing (numbersOf c (es @ [e])) \<longleftrightarrow> increasing (numbersOf c es) \<and> (c = ?c \<longrightarrow> nextNumber c es \<le> enN e)" for c
    by (auto simp: increasing_snoc nextNumber_def)
  then have inc: "(\<forall>c. increasing (numbersOf c (es @ [e]))) \<longleftrightarrow>
      (\<forall>c. increasing (numbersOf c es)) \<and> nextNumber ?c es \<le> enN e" by blast
  have nx: "nextNumber c (es @ [e]) = (if c = ?c then enN e + 1 else nextNumber c es)"
    "int (length (numbersOf c (es @ [e]))) = int (length (numbersOf c es)) + (if c = ?c then 1 else 0)" for c
    by (auto simp: nextNumber_def)
  show ?case
  proof (cases "\<forall>c. increasing (numbersOf c es)")
    case True
    then show ?thesis unfolding inc nx by (auto simp: appendsLoop_append snoc fun_eq_iff)
  next
    case False
    then show ?thesis unfolding inc by (auto simp: appendsLoop_append snoc)
  qed
qed

text \<open>The check accepts exactly the lists in which every client's numbers increase, with one
  entry per version of the key, and in which no client has more numbers missing than it had
  doubtful appends or a number beyond its appends.\<close>

lemma CheckAppends_iff:
  assumes "set order = expectKeys es nclnt"
  shows "CheckAppends es nclnt rs ver order \<longleftrightarrow>
    (\<forall>c. increasing (numbersOf c es)) \<and> int (length es) + 1 = sint ver \<and>
    (\<forall>c \<in> expectKeys es nclnt. 0 \<le> c \<and> c < int (length rs) \<and>
       nextNumber c es - int (length (numbersOf c es)) \<le> Nmaybe (rs ! nat c) \<and>
       nextNumber c es \<le> Nok (rs ! nat c) + Nmaybe (rs ! nat c))"
  using assms by (auto simp: CheckAppends_def appendsLoop_spec list_all_iff)

section \<open>What appending clients keep\<close>

text \<open>The numbers of a client against its counters: it has gone through as many iterations as it has
  counted, and all numbers that are missing so far are of doubtful appends.\<close>

definition app_count :: "int \<Rightarrow> int \<Rightarrow> int \<Rightarrow> int list \<Rightarrow> bool" where
  "app_count i nok nmay xs \<longleftrightarrow>
     0 \<le> i \<and> i = nok + nmay \<and> increasing xs \<and> i \<le> nmay + int (length (filter (\<lambda>x. x < i) xs))"

lemma app_count_hit:
  assumes "app_count i nok nmay xs" "\<forall>x \<in> set xs. x < i"
  shows "app_count i nok nmay (xs @ [i])" and "app_count (i + 1) (nok + 1) nmay (xs @ [i])"
proof -
  have "xs \<noteq> [] \<Longrightarrow> last xs < i" using assms(2) by simp
  then have "increasing (xs @ [i])" using assms(1) unfolding increasing_snoc app_count_def by auto
  moreover have "filter (\<lambda>x. x < i) xs = xs" "filter (\<lambda>x. x < i + 1) xs = xs"
    using assms(2) by (auto simp: filter_id_conv)
  ultimately show "app_count i nok nmay (xs @ [i])" "app_count (i + 1) (nok + 1) nmay (xs @ [i])"
    using assms(1) by (simp_all add: app_count_def)
qed

lemma app_count_maybe:
  assumes "app_count i nok nmay xs"
  shows "app_count (i + 1) nok (nmay + 1) xs"
proof -
  have "length (filter (\<lambda>x. x < i) xs) \<le> length (filter (\<lambda>x. x < i + 1) xs)"
    by (induction xs) auto
  then show ?thesis using assms unfolding app_count_def by linarith
qed

text \<open>One client against the version \<open>V\<close> of the key, the list \<open>es\<close> stored there, and its call under
  way. A pending put that names the current version writes the current list with one more
  entry; the entry of the present iteration may be in the list already when its reply was lost.\<close>

definition app_ok :: "(EntryN list \<Rightarrow> string) \<Rightarrow> int \<Rightarrow> Tversion \<Rightarrow> EntryN list \<Rightarrow> (call \<times> int) option \<Rightarrow> AppClient \<Rightarrow> bool" where
  "app_ok enc c V es co p \<longleftrightarrow>
     app_count (appI p) (appNok p) (appNmay p) (numbersOf c es) \<and>
     (case appPc p of
        AppIdle \<Rightarrow> co = None \<and> (\<forall>x \<in> set (numbersOf c es). x < appI p)
      | AppStopped \<Rightarrow> co = None \<and> (\<forall>x \<in> set (numbersOf c es). x < appI p)
      | AppGet \<Rightarrow> (\<exists>start. co = Some (CGet ''k'', start)) \<and> (\<forall>x \<in> set (numbersOf c es). x < appI p)
      | AppPut \<Rightarrow> (\<exists>v n first start. co = Some (CPut ''k'' v n first, start) \<and> unat n \<le> unat V \<and>
          (n = V \<longrightarrow> v = enc (es @ [\<lparr>enId = c, enN = appI p\<rparr>])) \<and>
          (\<forall>x \<in> set (numbersOf c es). x < appI p \<or> x = appI p \<and> \<not> first \<and> unat n < unat V))
      | AppFailed \<Rightarrow> False)"

lemma app_ok_not_failed: "app_ok enc c V es co p \<Longrightarrow> appPc p \<noteq> AppFailed"
  by (auto simp: app_ok_def)

lemma app_ok_frame:
  assumes ok: "app_ok enc d V es co p" and d: "d \<noteq> c" and V': "unat V' = Suc (unat V)"
  shows "app_ok enc d V' (es @ [\<lparr>enId = c, enN = i\<rparr>]) co p"
proof (cases "appPc p")
  case AppPut
  with ok obtain v n first start where "co = Some (CPut ''k'' v n first, start)" "unat n \<le> unat V"
    "\<forall>x \<in> set (numbersOf d es). x < appI p \<or> x = appI p \<and> \<not> first \<and> unat n < unat V"
    by (auto simp: app_ok_def)
  moreover have "n \<noteq> V'" if "unat n \<le> unat V" for n using that V' by auto
  ultimately show ?thesis using ok d V' AppPut by (fastforce simp: app_ok_def)
qed (use ok d in \<open>simp_all add: app_ok_def\<close>)

text \<open>A put that takes effect, one that is answered \<^verbatim>\<open>ErrMaybe\<close>, and one that is refused.\<close>

lemma app_put_hit:
  assumes ok: "app_ok enc c V es (Some (CPut ''k'' v n first, start)) p" and V': "n = V" "unat V' = Suc (unat V)"
  shows "v = enc (es @ [\<lparr>enId = c, enN = appI p\<rparr>])"
    and "app_ok enc c V' (es @ [\<lparr>enId = c, enN = appI p\<rparr>]) (Some (CPut ''k'' v n False, start')) p"
    and "app_ok enc c V' (es @ [\<lparr>enId = c, enN = appI p\<rparr>]) None
           (p\<lparr>appPc := AppIdle, appNok := appNok p + 1, appI := appI p + 1\<rparr>)"
proof -
  from ok have pc: "appPc p = AppPut" by (auto simp: app_ok_def split: app_pc.splits)
  with ok V' have count: "app_count (appI p) (appNok p) (appNmay p) (numbersOf c es)"
    and less: "\<forall>x \<in> set (numbersOf c es). x < appI p" and v: "v = enc (es @ [\<lparr>enId = c, enN = appI p\<rparr>])"
    by (auto simp: app_ok_def)
  have "n \<noteq> V'" "unat n < unat V'" using V' by auto
  then show "v = enc (es @ [\<lparr>enId = c, enN = appI p\<rparr>])"
    "app_ok enc c V' (es @ [\<lparr>enId = c, enN = appI p\<rparr>]) (Some (CPut ''k'' v n False, start')) p"
    "app_ok enc c V' (es @ [\<lparr>enId = c, enN = appI p\<rparr>]) None
       (p\<lparr>appPc := AppIdle, appNok := appNok p + 1, appI := appI p + 1\<rparr>)"
    using v less pc app_count_hit [OF count less] by (auto simp: app_ok_def)
qed

lemma app_put_maybe:
  assumes ok: "app_ok enc c V es (Some (CPut ''k'' v n first, start)) p"
  shows "app_ok enc c V es None (p\<lparr>appPc := AppIdle, appNmay := appNmay p + 1, appI := appI p + 1\<rparr>)"
proof -
  from ok have pc: "appPc p = AppPut" by (auto simp: app_ok_def split: app_pc.splits)
  with ok show ?thesis using app_count_maybe by (auto simp: app_ok_def)
qed

lemma app_put_refused:
  assumes ok: "app_ok enc c V es (Some (CPut ''k'' v n True, start)) p"
  shows "app_ok enc c V es (Some (CGet ''k'', start')) (p\<lparr>appPc := AppGet\<rparr>)"
proof -
  from ok have pc: "appPc p = AppPut" by (auto simp: app_ok_def split: app_pc.splits)
  with ok show ?thesis by (auto simp: app_ok_def)
qed

lemma app_put_lost:
  assumes ok: "app_ok enc c V es (Some (CPut ''k'' v n first, start)) p"
  shows "app_ok enc c V es (Some (CPut ''k'' v n False, start)) p"
proof -
  from ok have pc: "appPc p = AppPut" by (auto simp: app_ok_def split: app_pc.splits)
  with ok show ?thesis by (auto simp: app_ok_def)
qed

text \<open>A step of a client: the list stays, or gets an entry of this client.\<close>

definition app_progress :: "(EntryN list \<Rightarrow> string) \<Rightarrow> int \<Rightarrow> Hist \<Rightarrow> EntryN list \<Rightarrow> Hist \<Rightarrow> AppClient \<Rightarrow> bool" where
  "app_progress enc c h es h' p' \<longleftrightarrow>
     (\<exists>es'. app_ok enc c (ver_of ''k'' h') es' (hCalls h' c) p' \<and> val_of ''k'' h' = enc es' \<and>
        (ver_of ''k'' h' = ver_of ''k'' h \<and> es' = es \<or>
         unat (ver_of ''k'' h') = Suc (unat (ver_of ''k'' h)) \<and> (\<exists>i. es' = es @ [\<lparr>enId = c, enN = i\<rparr>])))"

lemma app_stay:
  "ver_of ''k'' h' = ver_of ''k'' h \<Longrightarrow> val_of ''k'' h' = enc es \<Longrightarrow>
   app_ok enc c (ver_of ''k'' h) es (hCalls h' c) p' \<Longrightarrow> app_progress enc c h es h' p'"
  by (auto simp: app_progress_def)

lemma app_grow:
  "unat (ver_of ''k'' h') = Suc (unat (ver_of ''k'' h)) \<Longrightarrow> val_of ''k'' h' = enc (es @ [\<lparr>enId = c, enN = i\<rparr>]) \<Longrightarrow>
   app_ok enc c (ver_of ''k'' h') (es @ [\<lparr>enId = c, enN = i\<rparr>]) (hCalls h' c) p' \<Longrightarrow> app_progress enc c h es h' p'"
  by (auto simp: app_progress_def)

lemma app_put_progress:
  assumes inv: "key_inv ''k'' t (hWorld h)" "Suc t < 2 ^ 64" and V: "ver_of ''k'' h \<noteq> 0" and val: "val_of ''k'' h = enc es"
    and ok: "app_ok enc c (ver_of ''k'' h) es (hCalls h c) p" and call: "hCalls h c = Some (CPut ''k'' v n first, start)"
    and step: "fclntStep (appGo c) appStop (appReact enc dec c) c (Go r f) p h = (p', h')"
  shows "app_progress enc c h es h' p'"
proof -
  obtain h1 a where sc: "stepCall c f h = (h1, a)" by fastforce
  note ok' = ok [unfolded call]
  from ok' have pc: "appPc p = AppPut" by (auto simp: app_ok_def split: app_pc.splits)
  have lost: "p' = p \<and> h' = h1" if "a = None" using step that by (auto simp: fclntStep_def call sc)
  from inv call sc show ?thesis
  proof (cases rule: stepCall_put_cases)
    case lost
    then show ?thesis
      using \<open>a = None \<Longrightarrow> p' = p \<and> h' = h1\<close> app_put_lost [OF ok'] val by (intro app_stay) auto
  next
    case lost_effect
    note hit = app_put_hit(1,2) [OF ok' lost_effect(4,5)]
    show ?thesis using lost lost_effect hit by (intro app_grow [where i = "appI p"]) auto
  next
    case performed
    note hit = app_put_hit(1,3) [OF ok' performed(3,4)]
    have "p' = p\<lparr>appPc := AppIdle, appNok := appNok p + 1, appI := appI p + 1\<rparr>" "h' = h1"
      using step performed(1) pc by (auto simp: fclntStep_def call sc appReact_def)
    then show ?thesis using performed hit by (intro app_grow [where i = "appI p"]) auto
  next
    case refused
    show ?thesis
    proof (cases first)
      case True
      then have "p' = p\<lparr>appPc := AppGet\<rparr>" "h' = issue c (Some (CGet ''k'')) h1"
        using step refused(1) pc V by (auto simp: fclntStep_def call sc appReact_def)
      moreover have "app_ok enc c (ver_of ''k'' h) es (Some (CPut ''k'' v n True, start)) p" using ok' True by simp
      ultimately show ?thesis using refused app_put_refused val by (intro app_stay) auto
    next
      case False
      then have "p' = p\<lparr>appPc := AppIdle, appNmay := appNmay p + 1, appI := appI p + 1\<rparr>" "h' = h1"
        using step refused(1) pc V by (auto simp: fclntStep_def call sc appReact_def)
      then show ?thesis using refused app_put_maybe [OF ok'] val by (intro app_stay) auto
    qed
  qed
qed

lemma app_get_progress:
  assumes inv: "key_inv ''k'' t (hWorld h)" and V: "ver_of ''k'' h \<noteq> 0" and val: "val_of ''k'' h = enc es"
    and dec: "\<forall>es. dec (enc es) = Some es"
    and ok: "app_ok enc c (ver_of ''k'' h) es (hCalls h c) p" and call: "hCalls h c = Some (CGet ''k'', start)"
    and step: "fclntStep (appGo c) appStop (appReact enc dec c) c (Go r f) p h = (p', h')"
  shows "app_progress enc c h es h' p'"
proof -
  obtain h1 a where sc: "stepCall c f h = (h1, a)" by fastforce
  from ok have pc: "appPc p = AppGet" by (auto simp: app_ok_def call split: app_pc.splits)
  from inv call sc show ?thesis
  proof (cases rule: stepCall_get_cases)
    case lost
    then have "p' = p" "h' = h" using step by (auto simp: fclntStep_def call sc)
    then show ?thesis using ok val by (intro app_stay) auto
  next
    case (answered rep)
    let ?es = "es @ [\<lparr>enId = c, enN = appI p\<rparr>]"
    have "GetJson dec rep = Some (es, ver_of ''k'' h)" using answered(4) V val dec by (simp add: GetJson_def)
    then have "p' = p\<lparr>appPc := AppPut\<rparr>" "h' = issue c (Some (CPut ''k'' (enc ?es) (ver_of ''k'' h) True)) h1"
      using step answered(1) pc by (auto simp: fclntStep_def call sc appReact_def PutJson_def)
    then show ?thesis using ok pc answered val by (intro app_stay) (auto simp: app_ok_def)
  qed
qed

lemma app_client_progress:
  assumes dec: "\<forall>es. dec (enc es) = Some es" and inv: "key_inv ''k'' t (hWorld h)" "Suc t < 2 ^ 64"
    and V: "ver_of ''k'' h \<noteq> 0" and val: "val_of ''k'' h = enc es"
    and ok: "app_ok enc c (ver_of ''k'' h) es (hCalls h c) p"
    and step: "fclntStep (appGo c) appStop (appReact enc dec c) c ev p h = (p', h')"
  shows "app_progress enc c h es h' p'"
proof (cases ev)
  case Done
  then have "h' = h \<and> (p' = p \<or> hCalls h c = None \<and> p' = appStop p)"
    using step by (auto simp: fclntStep_def split: option.splits)
  then show ?thesis using ok val by (intro app_stay) (auto simp: app_ok_def appStop_def split: app_pc.splits)
next
  case (Go r f)
  note step = step [unfolded Go]
  from ok consider "hCalls h c = None" | v n first start where "hCalls h c = Some (CPut ''k'' v n first, start)"
    | start where "hCalls h c = Some (CGet ''k'', start)"
    by (auto simp: app_ok_def split: app_pc.splits)
  then show ?thesis
  proof cases
    case 1
    then have "p' = p \<and> h' = h \<or> appPc p = AppIdle \<and> p' = p\<lparr>appPc := AppGet\<rparr> \<and> h' = issue c (Some (CGet ''k'')) h"
      using step by (auto simp: fclntStep_def appGo_def split: if_splits)
    then show ?thesis using ok val by (intro app_stay) (auto simp: app_ok_def)
  next
    case 2
    then show ?thesis by (rule app_put_progress [OF inv V val ok _ step])
  next
    case 3
    then show ?thesis by (rule app_get_progress [OF inv(1) V val dec ok _ step])
  qed
qed

section \<open>The test of concurrent appends\<close>

definition apps_inv :: "(EntryN list \<Rightarrow> string) \<Rightarrow> nat \<Rightarrow> nat \<Rightarrow> AppClient Clients \<Rightarrow> bool" where
  "apps_inv enc n t s \<longleftrightarrow>
     (let h = tHist s; V = ver_of ''k'' h; A = {0..<int n} in
      key_inv ''k'' t (hWorld h) \<and>
      (\<exists>es. val_of ''k'' h = enc es \<and> unat V = Suc (length es) \<and> enId ` set es \<subseteq> A \<and>
        (\<forall>c \<in> A. app_ok enc c V es (hCalls h c) (tProgs s c))))"

lemma apps_client_inv:
  assumes dec: "\<forall>es. dec (enc es) = Some es" and inv: "apps_inv enc n t s" and t: "Suc t < 2 ^ 64" and c: "c \<in> {0..<int n}"
    and step: "fclntStep (appGo c) appStop (appReact enc dec c) c ev (tProgs s c) (tHist s) = (p, h)"
  shows "apps_inv enc n (Suc t) \<lparr>tHist = h, tProgs = (tProgs s)(c := p)\<rparr>"
proof -
  let ?h = "tHist s" and ?A = "{0..<int n}" and ?V' = "ver_of ''k'' h"
  from inv obtain es where key: "key_inv ''k'' t (hWorld ?h)" and val: "val_of ''k'' ?h = enc es"
    and V: "unat (ver_of ''k'' ?h) = Suc (length es)" and ids: "enId ` set es \<subseteq> ?A"
    and ok: "\<And>d. d \<in> ?A \<Longrightarrow> app_ok enc d (ver_of ''k'' ?h) es (hCalls ?h d) (tProgs s d)"
    by (auto simp: apps_inv_def Let_def)
  have "ver_of ''k'' ?h \<noteq> 0" using V by auto
  from app_client_progress [OF dec key t this val ok [OF c] step] obtain es' where
    es': "app_ok enc c ?V' es' (hCalls h c) p" "val_of ''k'' h = enc es'" and grow: "?V' = ver_of ''k'' ?h \<and> es' = es \<or>
      unat ?V' = Suc (unat (ver_of ''k'' ?h)) \<and> (\<exists>i. es' = es @ [\<lparr>enId = c, enN = i\<rparr>])"
    by (auto simp: app_progress_def)
  have others: "\<And>d. d \<noteq> c \<Longrightarrow> hCalls h d = hCalls ?h d" using fclntStep_frame [OF step] by blast
  have "app_ok enc d ?V' es' (hCalls h d) (((tProgs s)(c := p)) d)" if "d \<in> ?A" for d
    using es'(1) grow ok [OF that] others [of d] app_ok_frame [OF ok [OF that], of c ?V'] by (cases "d = c") auto
  moreover have "enId ` set es' \<subseteq> insert c (enId ` set es)" using grow by auto
  then have "enId ` set es' \<subseteq> ?A" using ids c by blast
  moreover have "unat ?V' = Suc (length es')" using grow V by auto
  ultimately show ?thesis
    using fclntStep_key_inv [OF key t step] es'(2) unfolding apps_inv_def Let_def
    by (intro conjI exI [of _ es']) simp_all
qed

lemma apps_step_inv:
  assumes dec: "\<forall>es. dec (enc es) = Some es" and inv: "apps_inv enc n t s" and t: "Suc t < 2 ^ 64"
  shows "apps_inv enc n (Suc t) (testStep appGo appStop (appReact enc dec) n s ev)"
proof -
  have mono: "apps_inv enc n (Suc t) s" using inv unfolding apps_inv_def Let_def by (auto intro: key_inv_mono)
  show ?thesis
  proof (cases ev)
    case (Tick d)
    then show ?thesis using mono by (simp add: testStep_def apps_inv_def Let_def)
  next
    case (Client c cev)
    obtain p h where "fclntStep (appGo c) appStop (appReact enc dec c) c cev (tProgs s c) (tHist s) = (p, h)" by fastforce
    then show ?thesis
      using apps_client_inv [OF dec inv t, of c cev p h] mono by (simp add: testStep_def Client)
  qed
qed

lemma apps_run_inv:
  assumes dec: "\<forall>es. dec (enc es) = Some es"
  shows "apps_inv enc n t s \<Longrightarrow> t + length evs < 2 ^ 64 \<Longrightarrow> apps_inv enc n (t + length evs) (OneClientAppend enc dec n evs s)"
proof (induction evs arbitrary: s t)
  case Nil
  then show ?case by (simp add: OneClientAppend_def SpawnClientsAndWait_def)
next
  case (Cons ev evs)
  then show ?case
    using Cons.IH [OF apps_step_inv [OF dec], of t s ev] by (simp add: OneClientAppend_def SpawnClientsAndWait_def)
qed

text \<open>The scenario: the key holds the empty list, version 1, when the clients start. No test in the
  repository calls \<^verbatim>\<open>OneClientAppend\<close> and \<^verbatim>\<open>CheckAppends\<close>; the functions themselves need such a start,
  since the clients fail when the key is missing.\<close>

definition appsInit :: "(EntryN list \<Rightarrow> string) \<Rightarrow> AppClient Clients" where
  "appsInit enc = \<lparr>tHist = histInit (fst (put_op ''k'' (enc []) 0 MakeKVServer)), tProgs = (\<lambda>_. appClientInit)\<rparr>"

lemma appsInit_inv: "apps_inv enc n 1 (appsInit enc)"
proof -
  let ?kv = "fst (put_op ''k'' (enc []) 0 MakeKVServer)"
  have "kv_content ?kv ''k'' = Some (enc [], 1)" "kv_wf ?kv"
    by (simp_all add: put_op_def Put_def MakeKVServer_def kv_content_def kv_wf_def)
  then show ?thesis
    by (simp add: apps_inv_def Let_def appsInit_def histInit_def key_inv_def curVersion_def curValue_def version_of_def
        appClientInit_def app_ok_def app_count_def numbersOf_def increasing_def exI [of _ "[]"])
qed

lemma stopped_counts:
  assumes ok: "app_ok enc c V es co p" and stopped: "appPc p = AppStopped"
  shows "increasing (numbersOf c es)" and "nextNumber c es \<le> appNok p + appNmay p"
    and "nextNumber c es - int (length (numbersOf c es)) \<le> appNmay p"
proof -
  from ok stopped have less: "\<forall>x \<in> set (numbersOf c es). x < appI p"
    and count: "app_count (appI p) (appNok p) (appNmay p) (numbersOf c es)" by (auto simp: app_ok_def)
  show "increasing (numbersOf c es)" using count by (simp add: app_count_def)
  have all: "filter (\<lambda>x. x < appI p) (numbersOf c es) = numbersOf c es" using less by (simp add: filter_id_conv)
  have "numbersOf c es \<noteq> [] \<Longrightarrow> last (numbersOf c es) < appI p" using less by simp
  then have "nextNumber c es \<le> appI p" using count by (auto simp: nextNumber_def app_count_def)
  then show "nextNumber c es \<le> appNok p + appNmay p" "nextNumber c es - int (length (numbersOf c es)) \<le> appNmay p"
    using count unfolding app_count_def all by linarith+
qed

lemma sint_version: "unat (V :: Tversion) < 2 ^ 63 \<Longrightarrow> sint V = int (unat V)"
proof -
  assume "unat V < 2 ^ 63"
  then have "int (unat V) < int (2 ^ 63)" by (simp only: of_nat_less_iff)
  then have "uint V < 2 ^ 63" "0 \<le> uint V" by simp_all
  then have "signed_take_bit 63 (uint V) = uint V" by (intro signed_take_bit_int_eq_self) linarith+
  then show "sint V = int (unat V)" by (simp add: sint_uint)
qed

text \<open>C19: the test of concurrent appends passes, started on a stored empty list. Clients that append to one list on the
  unreplicated store, on a network that loses requests and replies, never fail; when they
  have all stopped, the list that the test reads back, with its version, passes
  \<^verbatim>\<open>CheckAppends\<close>, in whatever order Go ranges over the map: nobody's entries are lost,
  duplicated or out of order beyond what its own doubtful appends allow.\<close>

theorem append_test_passes:
  assumes codec: "\<forall>es. dec (enc es) = Some es" and s: "s = OneClientAppend enc dec n evs (appsInit enc)"
    and len: "length evs < 2 ^ 62" and fs: "Delivered \<in> set fs"
  shows "(\<forall>c \<in> {0..<int n}. appPc (tProgs s c) \<noteq> AppFailed) \<and>
    ((\<forall>c \<in> {0..<int n}. appPc (tProgs s c) = AppStopped) \<longrightarrow>
      (\<exists>h r es ver. awaitCall (-1) fs (beginGet (-1) ''k'' (tHist s)) = Some (h, AGet r) \<and>
         GetJson dec r = Some (es, ver) \<and>
         (\<forall>order. set order = expectKeys es n \<longrightarrow>
            CheckAppends es n (map (\<lambda>i. appResult (tProgs s (int i))) [0..<n]) ver order)))"
proof (intro conjI impI)
  let ?A = "{0..<int n}" and ?V = "ver_of ''k'' (tHist s)" and ?rs = "map (\<lambda>i. appResult (tProgs s (int i))) [0..<n]"
  have inv: "apps_inv enc n (1 + length evs) s"
    using apps_run_inv [OF codec appsInit_inv, of evs n] len s by simp
  then obtain es where key: "key_inv ''k'' (1 + length evs) (hWorld (tHist s))" and val: "val_of ''k'' (tHist s) = enc es"
    and V: "unat ?V = Suc (length es)" and ids: "enId ` set es \<subseteq> ?A"
    and ok: "\<And>c. c \<in> ?A \<Longrightarrow> app_ok enc c ?V es (hCalls (tHist s) c) (tProgs s c)"
    by (auto simp: apps_inv_def Let_def)
  show "\<forall>c \<in> ?A. appPc (tProgs s c) \<noteq> AppFailed" using ok app_ok_not_failed by blast
  assume "\<forall>c \<in> ?A. appPc (tProgs s c) = AppStopped"
  then have stopped: "\<And>c. c \<in> ?A \<Longrightarrow> appPc (tProgs s c) = AppStopped" by blast
  let ?h = "beginGet (-1) ''k'' (tHist s)"
  have "?V \<noteq> 0" using V by auto
  then obtain h r where get: "awaitCall (-1) fs ?h = Some (h, AGet r)" "grErr r = OK" "grVersion r = ?V"
    "grValue r = val_of ''k'' (tHist s)"
    using awaitGet [of "''k''" "1 + length evs" ?h "-1" "hClock (tHist s)" fs] fs key by (auto simp: beginGet_def)
  have json: "GetJson dec r = Some (es, ?V)" using get val codec by (simp add: GetJson_def)
  have "CheckAppends es n ?rs ?V order" if "set order = expectKeys es n" for order
  proof -
    have keys: "expectKeys es n = ?A" using ids by (auto simp: expectKeys_def)
    have none: "numbersOf c es = []" if "c \<notin> ?A" for c using ids that by (auto simp: numbersOf_def filter_empty_conv)
    have "increasing (numbersOf c es)" for c
      using stopped_counts(1) [OF ok stopped] none by (cases "c \<in> ?A") (auto simp: increasing_def)
    moreover have "int (length es) + 1 = sint ?V" using V key len sint_version [of ?V] by (simp add: key_inv_def)
    moreover have "?rs ! nat c = appResult (tProgs s c)" if "c \<in> ?A" for c using that by (auto simp: nat_less_iff)
    moreover have "\<forall>c \<in> ?A. 0 \<le> c \<and> c < int (length ?rs) \<and>
        nextNumber c es - int (length (numbersOf c es)) \<le> appNmay (tProgs s c) \<and>
        nextNumber c es \<le> appNok (tProgs s c) + appNmay (tProgs s c)"
      using stopped_counts(2,3) [OF ok stopped] by simp
    ultimately show ?thesis unfolding CheckAppends_iff [OF that] keys by (simp add: appResult_def)
  qed
  with get(1) json show "\<exists>h r es ver. awaitCall (-1) fs ?h = Some (h, AGet r) \<and> GetJson dec r = Some (es, ver) \<and>
      (\<forall>order. set order = expectKeys es n \<longrightarrow> CheckAppends es n ?rs ver order)" by blast
qed

text \<open>An encoding for which the hypothesis on the JSON library holds.\<close>

definition listEnc :: "EntryN list \<Rightarrow> string" where
  "listEnc es = replicate (list_encode (map (\<lambda>e. prod_encode (int_encode (enId e), int_encode (enN e))) es)) CHR ''1''"

definition listDec :: "string \<Rightarrow> EntryN list option" where
  "listDec s = Some (map (\<lambda>x. case prod_decode x of (i, j) \<Rightarrow> \<lparr>enId = int_decode i, enN = int_decode j\<rparr>)
     (list_decode (length s)))"

lemma list_codec: "listDec (listEnc es) = Some es"
  by (simp add: listDec_def listEnc_def comp_def map_idI)

theorem append_test_passes_witness:
  "let s = OneClientAppend listEnc listDec 1 [Client 0 (Go 0 Delivered), Client 0 (Go 0 Delivered), Client 0 (Go 0 LostReply),
        Client 0 (Go 0 Delivered), Client 0 Done] (appsInit listEnc)
   in appResult (tProgs s 0) = \<lparr>Nok = 0, Nmaybe = 1\<rparr> \<and>
      (\<exists>h r es ver. awaitCall (-1) [Delivered] (beginGet (-1) ''k'' (tHist s)) = Some (h, AGet r) \<and>
         GetJson listDec r = Some (es, ver) \<and>
         (\<forall>order. set order = expectKeys es 1 \<longrightarrow> CheckAppends es 1 [appResult (tProgs s 0)] ver order))"
proof -
  let ?evs = "[Client 0 (Go 0 Delivered), Client 0 (Go 0 Delivered), Client 0 (Go 0 LostReply), Client 0 (Go 0 Delivered),
      Client 0 Done]"
  define s where "s = OneClientAppend listEnc listDec 1 ?evs (appsInit listEnc)"
  have pc: "appPc (tProgs s 0) = AppStopped" and res: "appResult (tProgs s 0) = \<lparr>Nok = 0, Nmaybe = 1\<rparr>"
    unfolding s_def by code_simp+
  have one: "{0..<int 1} = {0}" by auto
  have stopped: "\<forall>c\<in>{0..<int 1}. appPc (tProgs s c) = AppStopped" unfolding one by (simp add: pc)
  have "\<exists>h r es ver. awaitCall (-1) [Delivered] (beginGet (-1) ''k'' (tHist s)) = Some (h, AGet r) \<and>
      GetJson listDec r = Some (es, ver) \<and>
      (\<forall>order. set order = expectKeys es 1 \<longrightarrow> CheckAppends es 1 (map (\<lambda>i. appResult (tProgs s (int i))) [0..<1]) ver order)"
    using append_test_passes [OF _ s_def, of "[Delivered]"] stopped by (simp add: list_codec)
  then show ?thesis using res unfolding Let_def s_def [symmetric] by simp
qed

end
