(* ===== verification/Kv_Steps.thy ===== *)
theory Kv_Steps
  imports Kv_Tests
begin

text \<open>
  The smaller steps of the key/value tests (\<^verbatim>\<open>src/kvtest1/kvtest.go\<close>): random values, keys,
  \<^verbatim>\<open>PutAtLeastOnce\<close>, \<^verbatim>\<open>CheckGet\<close>, \<^verbatim>\<open>SpreadPutsSize\<close> and the parts of \<^verbatim>\<open>Partitioner\<close>. Each call of the
  clerk has a list of fates for its attempts; a list that is used up means that the
  call is still under way, and the result is \<^const>\<open>None\<close>.
\<close>

definition letterBytes :: string where
  "letterBytes = ''abcdefghijklmnopqrstuvwxyzABCDEFGHIJKLMNOPQRSTUVWXYZ''"

text \<open>\<^verbatim>\<open>RandValue\<close>, with the numbers that the generator returns.\<close>

definition RandValue :: "nat list \<Rightarrow> string" where
  "RandValue rs = map (\<lambda>r. letterBytes ! (r mod length letterBytes)) rs"

definition MakeKeys :: "nat \<Rightarrow> string list" where
  "MakeKeys n = map (\<lambda>i. ''k'' @ itoa i) [0..<n]"

text \<open>\<^verbatim>\<open>\<open>%v\<close>\<close> of a version and of an error.\<close>

definition fmtVersion :: "Tversion \<Rightarrow> string" where
  "fmtVersion ver = itoa (unat ver)"

fun fmtErr :: "Err \<Rightarrow> string" where
  "fmtErr ErrEmpty = ''''"
| "fmtErr OK = ''OK''"
| "fmtErr ErrNoKey = ''ErrNoKey''"
| "fmtErr ErrVersion = ''ErrVersion''"
| "fmtErr ErrTimeOut = ''ErrTimeOut''"
| "fmtErr ErrMaybe = ''ErrMaybe''"
| "fmtErr ErrWrongLeader = ''ErrWrongLeader''"
| "fmtErr ErrWrongGroup = ''ErrWrongGroup''"

text \<open>The loop of \<^verbatim>\<open>PutAtLeastOnce\<close>, with the fates of each put; \<^const>\<open>Inl\<close> is \<^verbatim>\<open>Fatalf\<close>.\<close>

fun putAtLeastOnceLoop :: "int \<Rightarrow> string \<Rightarrow> string \<Rightarrow> Tversion \<Rightarrow> fate list list \<Rightarrow> Hist \<Rightarrow> (Hist + Hist \<times> Tversion) option" where
  "putAtLeastOnceLoop me key val ver [] h = None"
| "putAtLeastOnceLoop me key val ver (fs # fss) h =
     (case awaitCall me fs (beginPut me key val ver h) of
        Some (h', APut err) \<Rightarrow>
          if err = OK then Some (Inr (h', ver + 1))
          else if err = ErrMaybe \<or> err = ErrVersion then putAtLeastOnceLoop me key val (ver + 1) fss h'
          else if ver \<noteq> 0 then Some (Inl h')
          else putAtLeastOnceLoop me key val ver fss h'
      | _ \<Rightarrow> None)"

definition PutAtLeastOnce :: "int \<Rightarrow> int \<Rightarrow> string \<Rightarrow> string \<Rightarrow> Tversion \<Rightarrow> fate list list \<Rightarrow> Hist \<times> Annot \<Rightarrow>
    (Hist \<times> Annot + (Hist \<times> Annot) \<times> Tversion) option" where
  "PutAtLeastOnce t me key val ver fss st =
     (case putAtLeastOnceLoop me key val ver fss (fst st) of
        None \<Rightarrow> None
      | Some (Inl h) \<Rightarrow> Some (Inl (h, snd st))
      | Some (Inr (h, ver')) \<Rightarrow>
          let desp = ''Put('' @ key @ '', '' @ val @ '') completes'';
              details = ''version: '' @ fmtVersion ver @ '' -> '' @ fmtVersion ver'
          in Some (Inr ((h, (snd st)\<lparr>annotation := AnnotateInfo t desp details (annotation (snd st))\<rparr>), ver')))"

text \<open>\<^verbatim>\<open>PutAtLeastOnceJson\<close>: the version in its put is always 0.\<close>

fun PutAtLeastOnceJson :: "('v \<Rightarrow> string) \<Rightarrow> int \<Rightarrow> string \<Rightarrow> 'v \<Rightarrow> Tversion \<Rightarrow> fate list list \<Rightarrow> Hist \<Rightarrow> (Hist \<times> Tversion) option" where
  "PutAtLeastOnceJson enc me key v ver [] h = None"
| "PutAtLeastOnceJson enc me key v ver (fs # fss) h =
     (case awaitCall me fs (issue me (Some (PutJson enc key v 0)) h) of
        Some (h', APut err) \<Rightarrow>
          if err \<noteq> ErrMaybe then Some (h', ver)
          else PutAtLeastOnceJson enc me key v (ver + 1) fss h'
      | _ \<Rightarrow> None)"

text \<open>\<^verbatim>\<open>CheckGet\<close>: the new state and whether the check passed. An annotation before the first test
  dereferences nil.\<close>

definition CheckGet :: "int \<Rightarrow> string \<Rightarrow> string \<Rightarrow> Tversion \<Rightarrow> fate list \<Rightarrow> Hist \<times> Annot \<Rightarrow> ((Hist \<times> Annot) \<times> bool) option" where
  "CheckGet t key val version fs st =
     (case AnnotateCheckerBegin t (''checking Get('' @ key @ '') = ('' @ val @ '', '' @ fmtVersion version @ '')'') (snd st) of
        None \<Rightarrow> None
      | Some an \<Rightarrow>
          (case awaitCall 0 fs (beginGet 0 key (fst st)) of
             Some (h, AGet r) \<Rightarrow>
               if grErr r \<noteq> OK
               then let msg = ''Get('' @ key @ '') returns error = '' @ fmtErr (grErr r)
                    in map_option (\<lambda>an'. ((h, an'), False)) (AnnotateCheckerFailure t msg msg an)
               else if grValue r \<noteq> val \<or> grVersion r \<noteq> version
               then let msg = ''Get('' @ key @ '') returns ('' @ grValue r @ '', '' @ fmtVersion (grVersion r) @ '') != ('' @
                                val @ '', '' @ fmtVersion version @ '')''
                    in map_option (\<lambda>an'. ((h, an'), False)) (AnnotateCheckerFailure t msg msg an)
               else let msg = ''Get('' @ key @ '') returns ('' @ grValue r @ '', '' @ fmtVersion (grVersion r) @ '') as expected''
                    in map_option (\<lambda>an'. ((h, an'), True)) (AnnotateCheckerSuccess t msg ''OK'' an)
           | _ \<Rightarrow> None))"

text \<open>\<^verbatim>\<open>SpreadPutsSize\<close>: its puts bypass the log; \<open>va\<close> are the random values, which \<^verbatim>\<open>Randstring\<close> gives.\<close>

fun spreadPuts :: "(string \<times> string \<times> fate list) list \<Rightarrow> World \<Rightarrow> World option" where
  "spreadPuts [] w = Some w"
| "spreadPuts ((key, val, fs) # ks) w =
     (case clerkPut key val 0 (map (\<lambda>f. ([], f)) fs) w of
        None \<Rightarrow> None
      | Some (w', err) \<Rightarrow> spreadPuts ks w')"

fun spreadChecks :: "int \<Rightarrow> (string \<times> string \<times> fate list) list \<Rightarrow> Hist \<times> Annot \<Rightarrow> ((Hist \<times> Annot) \<times> bool) option" where
  "spreadChecks t [] st = Some (st, True)"
| "spreadChecks t ((key, val, fs) # ks) st =
     (case CheckGet t key val 1 fs st of
        None \<Rightarrow> None
      | Some (st', ok) \<Rightarrow> if ok then spreadChecks t ks st' else Some (st', False))"

definition SpreadPutsSize :: "int \<Rightarrow> nat \<Rightarrow> string list \<Rightarrow> fate list list \<Rightarrow> Hist \<times> Annot \<Rightarrow> ((Hist \<times> Annot) \<times> bool) option" where
  "SpreadPutsSize t n va fss st =
     (let ks = zip (MakeKeys n) (zip va fss) in
      case spreadPuts ks (hWorld (fst st)) of
        None \<Rightarrow> None
      | Some w \<Rightarrow> spreadChecks t ks ((fst st)\<lparr>hWorld := w\<rparr>, snd st))"

text \<open>The two parts that \<^verbatim>\<open>Partitioner\<close> makes of the servers, from one random number per server.\<close>

definition partitionerParts :: "nat list \<Rightarrow> nat list \<times> nat list" where
  "partitionerParts rs =
     (let a = map (\<lambda>r. r mod 2) rs; part = (\<lambda>i. filter (\<lambda>j. a ! j = i) [0..<length rs])
      in (part 0, part 1))"

lemma MakeKeys_distinct: "distinct (MakeKeys n)"
  by (auto simp: MakeKeys_def distinct_map intro: inj_onI dest: itoa_inj)

lemma partitionerParts_partition:
  "set (fst (partitionerParts rs)) \<inter> set (snd (partitionerParts rs)) = {} \<and>
   set (fst (partitionerParts rs)) \<union> set (snd (partitionerParts rs)) = {..<length rs}"
  by (auto simp: partitionerParts_def Let_def)

section \<open>At least once\<close>

text \<open>What a put of the only writer of a key has done when it returns. Once the version has passed
  the one it names, further attempts are refused.\<close>

definition put_outcome :: "bool \<Rightarrow> string \<Rightarrow> string \<Rightarrow> Tversion \<Rightarrow> Hist \<Rightarrow> Hist \<Rightarrow> Err \<Rightarrow> bool" where
  "put_outcome first k v n h h' err \<longleftrightarrow>
     (if n = ver_of k h then unat (ver_of k h') = Suc (unat (ver_of k h)) \<and> val_of k h' = v \<and> (err = OK \<or> err = ErrMaybe)
      else ver_of k h' = ver_of k h \<and> val_of k h' = val_of k h \<and>
           (if ver_of k h = 0 then err = ErrNoKey else err = ErrMaybe \<or> first \<and> err = ErrVersion))"

lemma put_outcome_later:
  assumes "put_outcome False k v n h1 h' err"
  shows "ver_of k h1 = ver_of k h \<and> val_of k h1 = val_of k h \<Longrightarrow> put_outcome first k v n h h' err"
    and "n = ver_of k h \<Longrightarrow> unat (ver_of k h1) = Suc (unat (ver_of k h)) \<Longrightarrow> val_of k h1 = v \<Longrightarrow> put_outcome first k v n h h' err"
proof -
  show "put_outcome first k v n h h' err" if "ver_of k h1 = ver_of k h \<and> val_of k h1 = val_of k h"
    using assms that by (auto simp: put_outcome_def split: if_splits)
  assume n: "n = ver_of k h" and V: "unat (ver_of k h1) = Suc (unat (ver_of k h))" and v: "val_of k h1 = v"
  have "n \<noteq> ver_of k h1" "ver_of k h1 \<noteq> 0" using n V by auto
  then show "put_outcome first k v n h h' err" using assms n V v by (simp add: put_outcome_def)
qed

lemma awaitPut_outcome:
  "key_inv k t (hWorld h) \<Longrightarrow> t + length fs < 2 ^ 64 \<Longrightarrow> hCalls h c = Some (CPut k v n first, start) \<Longrightarrow>
   awaitCall c fs h = Some (h', a) \<Longrightarrow>
   \<exists>err. a = APut err \<and> put_outcome first k v n h h' err \<and> key_inv k (t + length fs) (hWorld h')"
proof (induction fs arbitrary: h first t)
  case Nil
  then show ?case by simp
next
  case (Cons f fs)
  obtain h1 b where sc: "stepCall c f h = (h1, b)" by fastforce
  have t: "Suc t < 2 ^ 64" using Cons.prems(2) by simp
  have key: "key_inv k (Suc t) (hWorld h1)" using stepCall_key_inv [OF Cons.prems(1) t, of c f] sc by simp
  have IH: "\<exists>err. a = APut err \<and> put_outcome False k v n h1 h' err \<and> key_inv k (t + length (f # fs)) (hWorld h')"
    if "b = None" "hCalls h1 c = Some (CPut k v n False, start)"
    using Cons.IH [OF key, of False] Cons.prems sc that by simp
  from Cons.prems(1) t Cons.prems(3) sc show ?case
  proof (cases rule: stepCall_put_cases)
    case lost
    then show ?thesis using IH put_outcome_later(1) by (metis fun_upd_same)
  next
    case lost_effect
    then show ?thesis using IH put_outcome_later(2) by (metis fun_upd_same)
  next
    case refused
    then show ?thesis
      using Cons.prems(4) sc key_inv_mono [OF key, of "t + length (f # fs)"]
      by (cases "ver_of k h = 0"; cases first) (auto simp: put_outcome_def)
  next
    case performed
    then show ?thesis
      using Cons.prems(4) sc key_inv_mono [OF key, of "t + length (f # fs)"] by (auto simp: put_outcome_def)
  qed
qed

lemma beginPut_simps [simp]:
  "hWorld (beginPut c k v n h) = hWorld h" "hCalls (beginPut c k v n h) c = Some (CPut k v n True, hClock h)"
  by (simp_all add: beginPut_def)

lemma unat_suc_le: "unat (n :: Tversion) < unat V \<Longrightarrow> unat (n + 1) \<le> unat V"
  by (simp add: unat_word_ariths)

text \<open>The loop of the only writer, from a version that is not ahead of the key's: it never fails,
  and when it returns, the value is stored under the version that it returns.\<close>

lemma putAtLeastOnceLoop_correct:
  "key_inv k t (hWorld h) \<Longrightarrow> t + length (concat fss) < 2 ^ 64 \<Longrightarrow> unat ver \<le> unat (ver_of k h) \<Longrightarrow>
   putAtLeastOnceLoop me k v ver fss h = Some r \<Longrightarrow>
   \<exists>h'. r = Inr (h', ver_of k h') \<and> val_of k h' = v"
proof (induction fss arbitrary: h ver t)
  case Nil
  then show ?case by simp
next
  case (Cons fs fss)
  let ?h = "beginPut me k v ver h"
  from Cons.prems(4) obtain h1 a where await: "awaitCall me fs ?h = Some (h1, a)"
    by (auto split: option.splits)
  obtain err where a: "a = APut err" and out: "put_outcome True k v ver ?h h1 err"
    and key: "key_inv k (t + length fs) (hWorld h1)"
    using awaitPut_outcome [OF _ _ _ await, of k t v ver True "hClock h"] Cons.prems(1,2) by auto
  have run: "(if err = OK then Some (Inr (h1, ver + 1))
      else if err = ErrMaybe \<or> err = ErrVersion then putAtLeastOnceLoop me k v (ver + 1) fss h1
      else if ver \<noteq> 0 then Some (Inl h1) else putAtLeastOnceLoop me k v ver fss h1) = Some r"
    using Cons.prems(4) by (simp add: await a)
  have next1: "\<exists>h'. r = Inr (h', ver_of k h') \<and> val_of k h' = v" if "err = ErrMaybe \<or> err = ErrVersion" "unat (ver + 1) \<le> unat (ver_of k h1)"
    using Cons.IH [OF key, of "ver + 1"] Cons.prems(2) run that by (auto split: if_splits)
  show ?case
  proof (cases "ver = ver_of k h")
    case True
    then have V: "unat (ver_of k h1) = Suc (unat ver)" "val_of k h1 = v" "err = OK \<or> err = ErrMaybe"
      using out by (auto simp: put_outcome_def)
    then have "ver_of k h1 = ver + 1"
      by (metis Suc_eq_plus1 of_nat_1 of_nat_add of_nat_unat ucast_id)
    then show ?thesis using V run next1 by (cases "err = OK") auto
  next
    case False
    then have less: "unat ver < unat (ver_of k h)" using Cons.prems(3) by (metis le_neq_implies_less word_unat_eq_iff)
    then have "ver_of k h \<noteq> 0" by auto
    then have "ver_of k h1 = ver_of k h" "err = ErrMaybe \<or> err = ErrVersion"
      using out False by (auto simp: put_outcome_def)
    then show ?thesis using next1 unat_suc_le [OF less] by simp
  qed
qed

text \<open>On a network that loses nothing each put that names an older version advances by one, and the
  first that names the current version ends the loop.\<close>

lemma deliveredPut:
  assumes "key_inv k t (hWorld h)" "Suc t < 2 ^ 64"
  shows "\<exists>h' err. awaitCall c (Delivered # fs) (beginPut c k v n h) = Some (h', APut err) \<and>
     put_outcome True k v n h h' err \<and> err \<noteq> ErrMaybe \<and> key_inv k (Suc t) (hWorld h')"
proof -
  let ?h = "beginPut c k v n h"
  obtain h1 b where sc: "stepCall c Delivered ?h = (h1, b)" by fastforce
  have key: "key_inv k (Suc t) (hWorld h1)" using stepCall_key_inv [of k t ?h c Delivered] assms sc by simp
  have "key_inv k t (hWorld ?h)" using assms(1) by simp
  from this assms(2) beginPut_simps(2) sc show ?thesis
  proof (cases rule: stepCall_put_cases)
    case refused
    then show ?thesis using sc key by (cases "ver_of k h = 0") (auto simp: put_outcome_def)
  next
    case performed
    then show ?thesis using sc key by (auto simp: put_outcome_def)
  qed simp_all
qed

text \<open>\<^verbatim>\<open>PutAtLeastOnceJson\<close> does not put once when the key exists: on a network that loses nothing it
  returns, also when it is given the current version, and has stored nothing.\<close>

lemma PutAtLeastOnceJson_stores_nothing:
  assumes "key_inv k t (hWorld h)" "Suc t < 2 ^ 64" "ver_of k h \<noteq> 0"
  shows "\<exists>h'. PutAtLeastOnceJson enc me k v ver ((Delivered # fs) # fss) h = Some (h', ver) \<and>
     ver_of k h' = ver_of k h \<and> val_of k h' = val_of k h"
  using deliveredPut [OF assms(1,2), of me fs "enc v" 0] assms(3)
  by (auto simp: put_outcome_def PutJson_def issue.simps)

lemma putAtLeastOnceLoop_returns:
  "key_inv k t (hWorld h) \<Longrightarrow> t + length fss < 2 ^ 64 \<Longrightarrow> unat ver \<le> unat (ver_of k h) \<Longrightarrow>
   unat (ver_of k h) - unat ver < length fss \<Longrightarrow> list_all (\<lambda>fs. fs \<noteq> [] \<and> hd fs = Delivered) fss \<Longrightarrow>
   \<exists>r. putAtLeastOnceLoop me k v ver fss h = Some r"
proof (induction fss arbitrary: h ver t)
  case Nil
  then show ?case by simp
next
  case (Cons fs fss)
  then obtain fs' where fs: "fs = Delivered # fs'" by (cases fs) auto
  obtain h1 err where await: "awaitCall me fs (beginPut me k v ver h) = Some (h1, APut err)"
    and out: "put_outcome True k v ver h h1 err" "err \<noteq> ErrMaybe" and key: "key_inv k (Suc t) (hWorld h1)"
    using deliveredPut [OF Cons.prems(1), of me fs' v ver] Cons.prems(2) by (auto simp: fs)
  show ?case
  proof (cases "ver = ver_of k h")
    case True
    then show ?thesis using out await by (simp add: put_outcome_def)
  next
    case False
    then have less: "unat ver < unat (ver_of k h)" using Cons.prems(3) by (metis le_neq_implies_less word_unat_eq_iff)
    then have V: "ver_of k h \<noteq> 0" by auto
    have "unat (ver_of k h) < 2 ^ 64" using unsigned_less [of "ver_of k h", where ?'a = nat] by simp
    then have "unat (ver + 1) = Suc (unat ver)" using less by (simp add: unat_word_ariths)
    moreover have "ver_of k h1 = ver_of k h" "err = ErrVersion" using out False V by (auto simp: put_outcome_def)
    ultimately show ?thesis using Cons.IH [OF key, of "ver + 1"] Cons.prems less await by auto
  qed
qed

text \<open>C28: \<^verbatim>\<open>PutAtLeastOnce\<close> of the only writer of a key, started from a version that is not ahead
  of the stored one: it never calls \<^verbatim>\<open>Fatalf\<close>, and when it returns, the value is stored under
  exactly the version that it returns, however many replies were lost; and on a network that
  loses nothing it returns after one put more than the stored version is ahead.\<close>

theorem PutAtLeastOnce_correct:
  assumes "key_inv k n (hWorld h)" and "n + length (concat fss) < 2 ^ 64" and "unat ver \<le> unat (ver_of k h)"
  shows "(\<forall>r. PutAtLeastOnce t me k v ver fss (h, an) = Some r \<longrightarrow>
            (\<exists>h' an'. r = Inr ((h', an'), ver_of k h') \<and> val_of k h' = v)) \<and>
         (list_all (\<lambda>fs. fs \<noteq> [] \<and> hd fs = Delivered) fss \<and> unat (ver_of k h) - unat ver < length fss \<longrightarrow>
            PutAtLeastOnce t me k v ver fss (h, an) \<noteq> None)"
proof (intro conjI allI impI)
  fix r
  assume "PutAtLeastOnce t me k v ver fss (h, an) = Some r"
  then obtain x where "putAtLeastOnceLoop me k v ver fss h = Some x"
    and r: "PutAtLeastOnce t me k v ver fss (h, an) = Some r"
    by (auto simp: PutAtLeastOnce_def split: option.splits)
  moreover from this(1) obtain h' where "x = Inr (h', ver_of k h')" "val_of k h' = v"
    using putAtLeastOnceLoop_correct [OF assms] by blast
  ultimately show "\<exists>h' an'. r = Inr ((h', an'), ver_of k h') \<and> val_of k h' = v"
    by (auto simp: PutAtLeastOnce_def Let_def)
next
  assume fss: "list_all (\<lambda>fs. fs \<noteq> [] \<and> hd fs = Delivered) fss \<and> unat (ver_of k h) - unat ver < length fss"
  have "list_all (\<lambda>fs. fs \<noteq> [] \<and> hd fs = Delivered) fss \<Longrightarrow> length fss \<le> length (concat fss)" for fss
    by (induction fss) (auto simp: neq_Nil_conv)
  then have "length fss \<le> length (concat fss)" using fss by blast
  then obtain x where x: "putAtLeastOnceLoop me k v ver fss h = Some x"
    using putAtLeastOnceLoop_returns [OF assms(1) _ assms(3)] assms(2) fss by fastforce
  with putAtLeastOnceLoop_correct [OF assms x] show "PutAtLeastOnce t me k v ver fss (h, an) \<noteq> None"
    by (auto simp: PutAtLeastOnce_def Let_def)
qed

theorem PutAtLeastOnce_correct_witness:
  "\<exists>h' an'. PutAtLeastOnce 0 (-1) ''k'' ''v'' 0 [[LostReply, Delivered], [Delivered]] (histInit MakeKVServer, annotInit) =
     Some (Inr ((h', an'), 2)) \<and> val_of ''k'' h' = ''v''"
proof -
  let ?r = "PutAtLeastOnce 0 (-1) ''k'' ''v'' 0 [[LostReply, Delivered], [Delivered]] (histInit MakeKVServer, annotInit)"
  have "key_inv ''k'' 0 (hWorld (histInit MakeKVServer))" using histInit_inv by (simp add: lin_inv_def)
  moreover have "map_option (\<lambda>r. case r of Inr (_, ver) \<Rightarrow> ver | Inl _ \<Rightarrow> 0) ?r = Some 2" by code_simp
  ultimately show ?thesis
    using PutAtLeastOnce_correct [of "''k''" 0 "histInit MakeKVServer" "[[LostReply, Delivered], [Delivered]]" 0 0 "-1" "''v''" annotInit]
    by (cases ?r) auto
qed

end
