(* ===== verification/Fnv.thy ===== *)
theory Fnv
  imports Prelude "HOL-Library.Word"
begin

unbundle bit_operations_syntax

text \<open>
  The 32-bit FNV-1a hash of the Go standard library (\<^verbatim>\<open>hash/fnv.New32a\<close>), with which
  \<^verbatim>\<open>src/shardkv1/shardcfg/shardcfg.go\<close> chooses the shard and \<^verbatim>\<open>src/mr/worker.go\<close> the reduce task
  of a key. A string is the list of its bytes.
\<close>

definition fnvPrime :: "32 word" where
  "fnvPrime = 16777619"

definition fnvByte :: "32 word \<Rightarrow> char \<Rightarrow> 32 word" where
  "fnvByte h c = (h XOR word_of_nat (of_char c)) * fnvPrime"

definition fnv32a :: "string \<Rightarrow> 32 word" where
  "fnv32a s = foldl fnvByte 2166136261 s"

text \<open>Writing a key in pieces hashes the same.\<close>

lemma fnv32a_append: "fnv32a (s @ t) = foldl fnvByte (fnv32a s) t"
  by (simp add: fnv32a_def)

text \<open>Published test vectors of the hash.\<close>

lemma fnv32a_vectors:
  "fnv32a '''' = 0x811c9dc5" "fnv32a ''a'' = 0xe40c292c" "fnv32a ''foobar'' = 0xbf9cf968"
  by code_simp+

end
