(* ===== verification/Shard_Config.thy ===== *)
theory Shard_Config
  imports Fnv "HOL-Library.While_Combinator" "HOL-Library.Multiset"
begin

text \<open>
  Shard configurations (\<^verbatim>\<open>src/shardkv1/shardcfg/shardcfg.go\<close>): the shard of a key, joining and
  leaving of groups, and the rebalancing of the shards over the groups.

  \<^item> \<^verbatim>\<open>Groups\<close> is an association list with distinct keys. Go iterates over a map in a random
    order; the order of the list is the order of that iteration.
  \<^item> \<^verbatim>\<open>Shards\<close> is an array of 12 group ids: a list whose length every operation keeps.
  \<^item> \<open>None\<close> is \<^verbatim>\<open>log.Fatalf\<close>, which ends the process.
  \<^item> The last loop of \<^verbatim>\<open>Rebalance\<close> is \<open>while_option\<close>; that it ends is part of the theorems.
\<close>

definition NShards :: nat where "NShards = 12"
definition NumFirst :: int where "NumFirst = 1"
definition Gid1 :: int where "Gid1 = 1"

definition Key2Shard :: "string \<Rightarrow> int" where
  "Key2Shard key = uint (fnv32a key) mod int NShards"

record ShardConfig =
  Num :: int
  Shards :: "int list"
  Groups :: "(int \<times> string list) list"

definition MakeShardConfig :: ShardConfig where
  "MakeShardConfig = \<lparr>Num = 0, Shards = replicate NShards 0, Groups = []\<rparr>"

definition CopyConfig :: "ShardConfig \<Rightarrow> ShardConfig" where
  "CopyConfig cfg =
     (let c = MakeShardConfig\<lparr>Num := Num cfg, Shards := Shards cfg\<rparr>
      in foldl (\<lambda>c (k, srvs). c\<lparr>Groups := Groups c @ [(k, srvs)]\<rparr>) c (Groups cfg))"

section \<open>Rebalancing\<close>

text \<open>The loop of \<^verbatim>\<open>analyze\<close> over the sorted group ids: most loaded group and its load, least
  loaded group and its load.\<close>

definition analyzeStep :: "(int \<Rightarrow> int) \<Rightarrow> int \<times> int \<times> int \<times> int \<Rightarrow> int \<Rightarrow> int \<times> int \<times> int \<times> int" where
  "analyzeStep counts acc g =
     (case acc of (mg, mn, lg, ln) \<Rightarrow>
        let (lg, ln) = (if counts g < ln then (g, counts g) else (lg, ln));
            (mg, mn) = (if counts g > mn then (g, counts g) else (mg, mn))
        in (mg, mn, lg, ln))"

definition counts :: "ShardConfig \<Rightarrow> int \<Rightarrow> int" where
  "counts c g = int (count_list (Shards c) g)"

definition analyze :: "ShardConfig \<Rightarrow> int \<times> int \<times> int \<times> int" where
  "analyze c = foldl (analyzeStep (counts c)) (-1, -1, -1, 257) (sort (map fst (Groups c)))"

definition least :: "ShardConfig \<Rightarrow> int" where
  "least c = (case analyze c of (_, _, lg, _) \<Rightarrow> lg)"

definition isGroup :: "ShardConfig \<Rightarrow> int \<Rightarrow> bool" where
  "isGroup c g \<longleftrightarrow> map_of (Groups c) g \<noteq> None"

text \<open>The loop over the unassigned shards; the values come from the copy of the array that
  \<^verbatim>\<open>range\<close> makes.\<close>

fun assignLoop :: "nat \<Rightarrow> int list \<Rightarrow> ShardConfig \<Rightarrow> ShardConfig" where
  "assignLoop s [] c = c"
| "assignLoop s (g # gs) c =
     assignLoop (Suc s) gs (if isGroup c g then c else c\<lparr>Shards := (Shards c)[s := least c]\<rparr>)"

fun moveFirst :: "int \<Rightarrow> int \<Rightarrow> int list \<Rightarrow> int list" where
  "moveFirst mg lg [] = []"
| "moveFirst mg lg (g # gs) = (if g = mg then lg # gs else g # moveFirst mg lg gs)"

definition unbalanced :: "ShardConfig \<Rightarrow> bool" where
  "unbalanced c = (case analyze c of (_, mn, _, ln) \<Rightarrow> \<not> mn < ln + 2)"

definition moveOne :: "ShardConfig \<Rightarrow> ShardConfig" where
  "moveOne c = (case analyze c of (mg, _, lg, _) \<Rightarrow> c\<lparr>Shards := moveFirst mg lg (Shards c)\<rparr>)"

definition Rebalance :: "ShardConfig \<Rightarrow> ShardConfig option" where
  "Rebalance c =
     (if length (Groups c) < 1 then Some (c\<lparr>Shards := replicate (length (Shards c)) 0\<rparr>)
      else while_option unbalanced moveOne (assignLoop 0 (Shards c) c))"

section \<open>Joining and leaving\<close>

definition clash :: "string list \<Rightarrow> ShardConfig \<Rightarrow> bool" where
  "clash srvs cfg \<longleftrightarrow> (\<exists>(xgid, xservers) \<in> set (Groups cfg). \<exists>s1 \<in> set xservers. \<exists>s2 \<in> set srvs. s1 = s2)"

text \<open>The loop of \<^verbatim>\<open>Join\<close>: \<open>Inl\<close> is its early return of false.\<close>

fun joinLoop :: "(int \<times> string list) list \<Rightarrow> bool \<Rightarrow> ShardConfig \<Rightarrow> (ShardConfig + bool \<times> ShardConfig) option" where
  "joinLoop [] changed cfg = Some (Inr (changed, cfg))"
| "joinLoop ((gid, srvs) # rest) changed cfg =
     (if isGroup cfg gid then Some (Inl cfg)
      else if clash srvs cfg then None
      else joinLoop rest True (cfg\<lparr>Groups := Groups cfg @ [(gid, srvs)]\<rparr>))"

definition Join :: "(int \<times> string list) list \<Rightarrow> ShardConfig \<Rightarrow> (bool \<times> ShardConfig) option" where
  "Join servers cfg =
     (case joinLoop servers False cfg of
        None \<Rightarrow> None
      | Some (Inl cfg') \<Rightarrow> Some (False, cfg')
      | Some (Inr (changed, cfg')) \<Rightarrow>
          if changed = False then None else Some (True, cfg'\<lparr>Num := Num cfg' + 1\<rparr>))"

fun leaveLoop :: "int list \<Rightarrow> bool \<Rightarrow> ShardConfig \<Rightarrow> ShardConfig + bool \<times> ShardConfig" where
  "leaveLoop [] changed cfg = Inr (changed, cfg)"
| "leaveLoop (gid # rest) changed cfg =
     (if \<not> isGroup cfg gid then Inl cfg
      else leaveLoop rest True (cfg\<lparr>Groups := filter (\<lambda>(g, _). g \<noteq> gid) (Groups cfg)\<rparr>))"

definition Leave :: "int list \<Rightarrow> ShardConfig \<Rightarrow> (bool \<times> ShardConfig) option" where
  "Leave gids cfg =
     (case leaveLoop gids False cfg of
        Inl cfg' \<Rightarrow> Some (False, cfg')
      | Inr (changed, cfg') \<Rightarrow>
          if changed = False then None else Some (True, cfg'\<lparr>Num := Num cfg' + 1\<rparr>))"

definition JoinBalance :: "(int \<times> string list) list \<Rightarrow> ShardConfig \<Rightarrow> (bool \<times> ShardConfig) option" where
  "JoinBalance servers cfg = do {
     (ok, cfg1) \<leftarrow> Join servers cfg;
     if \<not> ok then Some (False, cfg1) else do { cfg2 \<leftarrow> Rebalance cfg1; Some (True, cfg2) }
   }"

definition LeaveBalance :: "int list \<Rightarrow> ShardConfig \<Rightarrow> (bool \<times> ShardConfig) option" where
  "LeaveBalance gids cfg = do {
     (ok, cfg1) \<leftarrow> Leave gids cfg;
     if \<not> ok then Some (False, cfg1) else do { cfg2 \<leftarrow> Rebalance cfg1; Some (True, cfg2) }
   }"

section \<open>Queries and the check of the tests\<close>

text \<open>A shard id out of range panics.\<close>

definition GidServers :: "int \<Rightarrow> ShardConfig \<Rightarrow> (int \<times> string list \<times> bool) option" where
  "GidServers sh cfg =
     (if 0 \<le> sh \<and> sh < int (length (Shards cfg))
      then let gid = Shards cfg ! nat sh
           in case map_of (Groups cfg) gid of
                Some srvs \<Rightarrow> Some (gid, srvs, True)
              | None \<Rightarrow> Some (gid, [], False)
      else None)"

fun memberLoop :: "int \<Rightarrow> int list \<Rightarrow> bool" where
  "memberLoop gid [] = False"
| "memberLoop gid (g # gs) = (if g = gid then True else memberLoop gid gs)"

definition IsMember :: "int \<Rightarrow> ShardConfig \<Rightarrow> bool" where
  "IsMember gid cfg = memberLoop gid (Shards cfg)"

text \<open>The loop over the groups that finds the largest and the smallest load.\<close>

definition spreadStep :: "ShardConfig \<Rightarrow> int \<times> int \<Rightarrow> int \<Rightarrow> int \<times> int" where
  "spreadStep cfg acc g =
     (case acc of (mx, mn) \<Rightarrow>
        (if counts cfg g > mx then counts cfg g else mx, if counts cfg g < mn then counts cfg g else mn))"

text \<open>True: the check passes without a \<^verbatim>\<open>fatalf\<close>.\<close>

definition CheckConfig :: "int list \<Rightarrow> ShardConfig \<Rightarrow> bool" where
  "CheckConfig groups cfg =
     (length (Groups cfg) = length groups \<and>
      list_all (isGroup cfg) groups \<and>
      (length groups > 0 \<longrightarrow> list_all (isGroup cfg) (Shards cfg)) \<and>
      (case foldl (spreadStep cfg) (0, 257) (map fst (Groups cfg)) of (mx, mn) \<Rightarrow> \<not> mx > mn + 1))"

section \<open>What the loops compute\<close>

abbreviation gids :: "ShardConfig \<Rightarrow> int set" where
  "gids c \<equiv> fst ` set (Groups c)"

lemma isGroup_iff: "isGroup c g \<longleftrightarrow> g \<in> gids c"
  by (simp add: isGroup_def map_of_eq_None_iff)

lemma counts_bounds: "0 \<le> counts c g" "counts c g \<le> int (length (Shards c))"
  by (simp_all add: counts_def count_le_length)

lemma analyze_fold:
  "foldl (analyzeStep f) (mg, mn, lg, ln) gs = (mg', mn', lg', ln') \<Longrightarrow>
     mn \<le> mn' \<and> ln' \<le> ln \<and> (\<forall>g \<in> set gs. f g \<le> mn' \<and> ln' \<le> f g) \<and>
     (mg' = mg \<and> mn' = mn \<or> mg' \<in> set gs \<and> mn' = f mg') \<and>
     (lg' = lg \<and> ln' = ln \<or> lg' \<in> set gs \<and> ln' = f lg')"
proof (induction gs arbitrary: mg mn lg ln)
  case (Cons g gs)
  obtain a b c d where s: "analyzeStep f (mg, mn, lg, ln) g = (a, b, c, d)" by (metis prod_cases4)
  have step: "mn \<le> b \<and> d \<le> ln \<and> f g \<le> b \<and> d \<le> f g \<and> (a = mg \<and> b = mn \<or> a = g \<and> b = f g) \<and>
      (c = lg \<and> d = ln \<or> c = g \<and> d = f g)"
    using s by (auto simp: analyzeStep_def split: if_splits)
  have "foldl (analyzeStep f) (a, b, c, d) gs = (mg', mn', lg', ln')" using Cons.prems s by simp
  note IH = Cons.IH [OF this]
  then have "mn \<le> mn'" "ln' \<le> ln" "f g \<le> mn'" "ln' \<le> f g" using step by linarith+
  moreover have "mg' = mg \<and> mn' = mn \<or> mg' \<in> set (g # gs) \<and> mn' = f mg'" using IH step by fastforce
  moreover have "lg' = lg \<and> ln' = ln \<or> lg' \<in> set (g # gs) \<and> ln' = f lg'" using IH step by fastforce
  ultimately show ?case using IH by simp
qed simp

text \<open>With at least one group and fewer than 257 shards, \<^verbatim>\<open>analyze\<close> returns groups with the
  extreme loads.\<close>

lemma analyze_spec:
  assumes "Groups c \<noteq> []" "length (Shards c) < 257" "analyze c = (mg, mn, lg, ln)"
  shows "mg \<in> gids c" "mn = counts c mg" "lg \<in> gids c" "ln = counts c lg"
    "\<And>g. g \<in> gids c \<Longrightarrow> counts c g \<le> mn \<and> ln \<le> counts c g"
proof -
  note r = analyze_fold [OF assms(3) [unfolded analyze_def]]
  obtain g where g: "g \<in> gids c" using assms(1) by (metis image_is_empty last_in_set ex_in_conv set_empty)
  then have "counts c g \<le> mn" "ln \<le> counts c g" using r by auto
  then have "0 \<le> mn" "ln < 257" using counts_bounds [of c g] assms(2) by linarith+
  then show "mg \<in> gids c" "mn = counts c mg" "lg \<in> gids c" "ln = counts c lg"
    "\<And>g. g \<in> gids c \<Longrightarrow> counts c g \<le> mn \<and> ln \<le> counts c g"
    using r by auto
qed

lemma least_group: "Groups c \<noteq> [] \<Longrightarrow> length (Shards c) < 257 \<Longrightarrow> least c \<in> gids c"
  by (cases "analyze c") (simp add: least_def analyze_spec(3))

text \<open>The assignment of the unassigned shards.\<close>

lemma assignLoop_frame [simp]:
  "Groups (assignLoop s gs c) = Groups c" "Num (assignLoop s gs c) = Num c"
  "length (Shards (assignLoop s gs c)) = length (Shards c)"
  by (induction s gs c rule: assignLoop.induct) simp_all

lemma assignLoop_assigns:
  assumes "drop s (Shards c) = gs" "Groups c \<noteq> []" "length (Shards c) < 257" "set (take s (Shards c)) \<subseteq> gids c"
  shows "set (Shards (assignLoop s gs c)) \<subseteq> gids c"
  using assms
proof (induction s gs c rule: assignLoop.induct)
  case (1 s c)
  then show ?case by simp
next
  case (2 s g gs c)
  let ?c = "if isGroup c g then c else c\<lparr>Shards := (Shards c)[s := least c]\<rparr>"
  have s: "s < length (Shards c)" "Shards c ! s = g"
    using 2(2) by (metis drop_eq_Nil list.distinct(1) not_le, metis 2(2) hd_drop_conv_nth drop_eq_Nil list.distinct(1) list.sel(1) not_le)
  have "drop (Suc s) (Shards c) = gs" using 2(2) by (metis drop_Suc list.sel(3) tl_drop)
  then have "drop (Suc s) (Shards ?c) = gs" by simp
  moreover have "set (take (Suc s) (Shards ?c)) \<subseteq> gids ?c"
    using s 2(3,4,5) least_group [of c]
    by (auto simp: take_Suc_conv_app_nth isGroup_iff split: if_splits)
  ultimately show ?case using 2 by (auto split: if_splits)
qed

lemma assignLoop_keeps: "set gs \<subseteq> gids c \<Longrightarrow> assignLoop s gs c = c"
  by (induction s gs c rule: assignLoop.induct) (auto simp: isGroup_iff)

text \<open>Moving a shard.\<close>

lemma moveFirst_length [simp]: "length (moveFirst a b xs) = length xs"
  by (induction xs) simp_all

lemma moveFirst_set: "set (moveFirst a b xs) \<subseteq> insert b (set xs)"
  by (induction xs) auto

lemma moveFirst_count:
  "a \<in> set xs \<Longrightarrow> a \<noteq> b \<Longrightarrow>
     int (count_list (moveFirst a b xs) g) =
       int (count_list xs g) - (if g = a then 1 else 0) + (if g = b then 1 else 0)"
  by (induction xs) auto

lemma moveOne_frame [simp]:
  "Groups (moveOne c) = Groups c" "Num (moveOne c) = Num c" "length (Shards (moveOne c)) = length (Shards c)"
  by (simp_all add: moveOne_def split: prod.split)

definition imbalance :: "ShardConfig \<Rightarrow> nat" where
  "imbalance c = nat (\<Sum>g \<in> gids c. (counts c g)\<^sup>2)"

lemma moveOne_step:
  assumes "unbalanced c" "Groups c \<noteq> []" "length (Shards c) < 257" "set (Shards c) \<subseteq> gids c"
  shows "set (Shards (moveOne c)) \<subseteq> gids c" "imbalance (moveOne c) < imbalance c"
proof -
  obtain mg mn lg ln where a: "analyze c = (mg, mn, lg, ln)" by (metis prod_cases4)
  note spec = analyze_spec [OF assms(2,3) a]
  have gap: "counts c lg + 2 \<le> counts c mg" using assms(1) a spec by (simp add: unbalanced_def)
  then have ne: "mg \<noteq> lg" by auto
  have "counts c mg \<noteq> 0" using gap counts_bounds(1) [of c lg] by linarith
  then have mem: "mg \<in> set (Shards c)" by (simp add: counts_def count_list_0_iff)
  show "set (Shards (moveOne c)) \<subseteq> gids c"
    using moveFirst_set [of mg lg "Shards c"] assms(4) spec(3) by (auto simp: moveOne_def a)
  let ?f = "\<lambda>g. (counts (moveOne c) g)\<^sup>2" and ?h = "\<lambda>g. (counts c g)\<^sup>2" and ?R = "gids c - {mg} - {lg}"
  have cnt: "counts (moveOne c) g = counts c g - (if g = mg then 1 else 0) + (if g = lg then 1 else 0)" for g
    using moveFirst_count [OF mem ne, of g] by (simp add: counts_def moveOne_def a)
  have split: "sum F (gids c) = F mg + (F lg + sum F ?R)" for F :: "int \<Rightarrow> int"
    using spec(1,3) ne by (simp add: sum.remove [of "gids c" mg] sum.remove [of "gids c - {mg}" lg])
  have rest: "sum ?f ?R = sum ?h ?R" by (rule sum.cong) (auto simp: cnt)
  have two: "?f mg + ?f lg < ?h mg + ?h lg" using gap ne by (simp add: cnt power2_eq_square algebra_simps)
  have "sum ?f (gids c) < sum ?h (gids c)" unfolding split [of ?f] split [of ?h] using rest two by linarith
  moreover have "0 \<le> sum ?f (gids c)" by (rule sum_nonneg) simp
  ultimately show "imbalance (moveOne c) < imbalance c" by (simp add: imbalance_def)
qed

section \<open>Rebalance ends in a balanced configuration\<close>

definition cfg_ok :: "ShardConfig \<Rightarrow> bool" where
  "cfg_ok c \<longleftrightarrow> length (Shards c) = NShards \<and> distinct (map fst (Groups c))"

definition balanced :: "ShardConfig \<Rightarrow> bool" where
  "balanced c \<longleftrightarrow> set (Shards c) \<subseteq> gids c \<and> (\<forall>g \<in> gids c. \<forall>h \<in> gids c. counts c g \<le> counts c h + 1)"

lemma balanced_iff:
  assumes "Groups c \<noteq> []" "length (Shards c) < 257" "set (Shards c) \<subseteq> gids c"
  shows "unbalanced c \<longleftrightarrow> \<not> balanced c"
proof -
  obtain mg mn lg ln where a: "analyze c = (mg, mn, lg, ln)" by (metis prod_cases4)
  note spec = analyze_spec [OF assms(1,2) a]
  show ?thesis
  proof
    assume "unbalanced c"
    then show "\<not> balanced c" using spec(1-4) by (force simp: unbalanced_def a balanced_def)
  next
    assume "\<not> balanced c"
    then obtain g h where "g \<in> gids c" "h \<in> gids c" "counts c g > counts c h + 1"
      using assms(3) by (force simp: balanced_def)
    then show "unbalanced c" using spec(5) [of g] spec(5) [of h] by (simp add: unbalanced_def a)
  qed
qed

lemma moveLoop_spec:
  assumes "Groups c \<noteq> []" "length (Shards c) < 257" "set (Shards c) \<subseteq> gids c"
  shows "\<exists>c'. while_option unbalanced moveOne c = Some c' \<and> Groups c' = Groups c \<and> Num c' = Num c \<and>
     length (Shards c') = length (Shards c) \<and> balanced c'"
proof -
  let ?P = "\<lambda>x. Groups x = Groups c \<and> Num x = Num c \<and> length (Shards x) = length (Shards c) \<and> set (Shards x) \<subseteq> gids x"
  have step: "?P (moveOne x) \<and> imbalance (moveOne x) < imbalance x" if "?P x" "unbalanced x" for x
    using that assms(1,2) moveOne_step [of x] by force
  obtain c' where c': "while_option unbalanced moveOne c = Some c'"
    using measure_while_option_Some [of ?P unbalanced moveOne imbalance c] step assms by blast
  have P: "?P c'" by (rule while_option_rule [OF _ c']) (use step assms(3) in auto)
  have "\<not> unbalanced c'" by (rule while_option_stop [OF c'])
  then have "balanced c'" using balanced_iff [of c'] P assms(1,2) by force
  then show ?thesis using c' P by blast
qed

lemma Rebalance_total:
  assumes "length (Shards c) < 257"
  shows "\<exists>c'. Rebalance c = Some c' \<and> Groups c' = Groups c \<and> Num c' = Num c \<and>
     length (Shards c') = length (Shards c) \<and> (Groups c \<noteq> [] \<longrightarrow> balanced c') \<and>
     (Groups c = [] \<longrightarrow> set (Shards c') \<subseteq> {0})"
proof (cases "Groups c = []")
  case True
  then show ?thesis by (auto simp: Rebalance_def)
next
  case False
  then show ?thesis
    using moveLoop_spec [of "assignLoop 0 (Shards c) c"] assignLoop_assigns [of 0 c] assms
    by (fastforce simp: Rebalance_def)
qed

lemma Rebalance_idem:
  assumes "Groups c \<noteq> []" "length (Shards c) < 257" "balanced c"
  shows "Rebalance c = Some c"
proof -
  have s: "set (Shards c) \<subseteq> gids c" using assms(3) by (simp add: balanced_def)
  then have "\<not> unbalanced c" using balanced_iff assms by blast
  then show ?thesis using assms(1) assignLoop_keeps [OF s] by (simp add: Rebalance_def while_option_unfold [of unbalanced])
qed

section \<open>The order of the groups does not matter\<close>

lemma sort_perm: "mset xs = mset ys \<Longrightarrow> sort xs = sort ys" for xs ys :: "int list"
  by (metis mset_sort properties_for_sort sorted_sort)

lemma analyze_order:
  assumes "mset (map fst gs) = mset (map fst (Groups c))"
  shows "analyze (c\<lparr>Groups := gs\<rparr>) = analyze c"
proof -
  have "counts (c\<lparr>Groups := gs\<rparr>) = counts c" by (simp add: counts_def fun_eq_iff)
  then show ?thesis using sort_perm [OF assms] by (simp add: analyze_def)
qed

lemma assignLoop_order:
  assumes "mset (map fst gs) = mset (map fst (Groups c))"
  shows "assignLoop s xs (c\<lparr>Groups := gs\<rparr>) = (assignLoop s xs c)\<lparr>Groups := gs\<rparr>"
  using assms
proof (induction s xs c rule: assignLoop.induct)
  case (2 s g xs c)
  have "isGroup (c\<lparr>Groups := gs\<rparr>) g = isGroup c g"
    using mset_eq_setD [OF 2(2)] by (simp add: isGroup_iff)
  moreover have "least (c\<lparr>Groups := gs\<rparr>) = least c" using analyze_order [OF 2(2)] by (simp add: least_def)
  moreover have "c\<lparr>Groups := gs, Shards := y\<rparr> = c\<lparr>Shards := y, Groups := gs\<rparr>" for y by simp
  ultimately show ?case using 2 by (cases "isGroup c g") (simp_all only: assignLoop.simps if_True if_False not_False_eq_True select_convs update_convs, simp_all)
qed simp

lemma Rebalance_order:
  assumes "mset (map fst gs) = mset (map fst (Groups c))"
  shows "Rebalance (c\<lparr>Groups := gs\<rparr>) = map_option (\<lambda>x. x\<lparr>Groups := gs\<rparr>) (Rebalance c)"
proof -
  let ?f = "\<lambda>x. x\<lparr>Groups := gs\<rparr>" and ?P = "\<lambda>x. Groups x = Groups c"
  have len: "length gs = length (Groups c)" using assms by (metis length_map size_mset)
  have a: "analyze (?f x) = analyze x" if "?P x" for x using analyze_order [of gs x] assms that by simp
  have "map_option ?f (while_option unbalanced moveOne (assignLoop 0 (Shards c) c)) =
      while_option unbalanced moveOne (?f (assignLoop 0 (Shards c) c))"
    by (rule while_option_commute_invariant [where P = ?P])
      (simp_all add: unbalanced_def moveOne_def a split: prod.split)
  then show ?thesis using len by (simp add: Rebalance_def assignLoop_order [OF assms])
qed

section \<open>Joining and leaving\<close>

text \<open>The groups that can join: new ids, and no server of theirs is in another group.\<close>

definition joins :: "(int \<times> string list) list \<Rightarrow> ShardConfig \<Rightarrow> bool" where
  "joins servers c \<longleftrightarrow> distinct (map fst servers) \<and> fst ` set servers \<inter> gids c = {} \<and>
     (\<forall>x \<in> set servers. \<forall>y \<in> set (Groups c). set (snd x) \<inter> set (snd y) = {}) \<and>
     pairwise (\<lambda>x y. set (snd x) \<inter> set (snd y) = {}) (set servers)"

lemma joins_perm: "mset xs = mset ys \<Longrightarrow> joins xs c \<longleftrightarrow> joins ys c"
  using mset_eq_setD [of xs ys] mset_eq_imp_distinct_iff [of "map fst xs" "map fst ys"] by (simp add: joins_def)

lemma joins_Cons:
  "joins ((g, a) # xs) c \<longleftrightarrow>
     \<not> isGroup c g \<and> \<not> clash a c \<and> joins xs (c\<lparr>Groups := Groups c @ [(g, a)]\<rparr>)"
proof -
  define D :: "int \<times> string list \<Rightarrow> int \<times> string list \<Rightarrow> bool" where "D x y \<longleftrightarrow> set (snd x) \<inter> set (snd y) = {}" for x y
  have sym: "D x y \<longleftrightarrow> D y x" for x y by (auto simp: D_def)
  have cl: "clash a c \<longleftrightarrow> (\<exists>y \<in> set (Groups c). \<not> D (g, a) y)"
    unfolding clash_def D_def by (auto simp: case_prod_beta)
  show ?thesis
  proof (cases "g \<in> fst ` set xs")
    case True
    then show ?thesis by (auto simp: joins_def)
  next
    case False
    then have "(g, a) \<notin> set xs" by force
    then have "pairwise D (insert (g, a) (set xs)) \<longleftrightarrow> (\<forall>x \<in> set xs. D x (g, a)) \<and> pairwise D (set xs)"
      using sym unfolding pairwise_insert by blast
    then have "joins ((g, a) # xs) c \<longleftrightarrow> distinct (map fst xs) \<and> g \<notin> gids c \<and> fst ` set xs \<inter> gids c = {} \<and>
        (\<forall>y \<in> set (Groups c). D (g, a) y) \<and> (\<forall>x \<in> set xs. \<forall>y \<in> set (Groups c). D x y) \<and>
        (\<forall>x \<in> set xs. D x (g, a)) \<and> pairwise D (set xs)"
      using False unfolding joins_def D_def [symmetric] by simp
    moreover have "joins xs (c\<lparr>Groups := Groups c @ [(g, a)]\<rparr>) \<longleftrightarrow> distinct (map fst xs) \<and> fst ` set xs \<inter> gids c = {} \<and>
        (\<forall>x \<in> set xs. D x (g, a)) \<and> (\<forall>x \<in> set xs. \<forall>y \<in> set (Groups c). D x y) \<and> pairwise D (set xs)"
      using False unfolding joins_def D_def [symmetric] by auto
    ultimately show ?thesis unfolding isGroup_iff cl by (simp only: ) auto
  qed
qed

lemma joinLoop_spec:
  "joins xs c \<Longrightarrow> joinLoop xs ch c = Some (Inr (ch \<or> xs \<noteq> [], c\<lparr>Groups := Groups c @ xs\<rparr>))"
proof (induction xs ch c rule: joinLoop.induct)
  case (2 gid srvs rest ch c)
  then show ?case by (simp add: joins_Cons)
qed simp

lemma Join_spec:
  "joins xs c \<Longrightarrow> xs \<noteq> [] \<Longrightarrow> Join xs c = Some (True, c\<lparr>Num := Num c + 1, Groups := Groups c @ xs\<rparr>)"
  by (simp add: Join_def joinLoop_spec)

lemma joins_cfg_ok: "cfg_ok c \<Longrightarrow> joins xs c \<Longrightarrow> cfg_ok (c\<lparr>Num := n, Groups := Groups c @ xs\<rparr>)"
  by (auto simp: cfg_ok_def joins_def)

lemma leaveLoop_all:
  assumes "distinct gs" "set gs \<subseteq> gids c"
  shows "leaveLoop (gs @ rest) ch c =
     leaveLoop rest (ch \<or> gs \<noteq> []) (c\<lparr>Groups := filter (\<lambda>(g, _). g \<notin> set gs) (Groups c)\<rparr>)"
  using assms
proof (induction gs arbitrary: ch c)
  case (Cons g gs)
  let ?c = "c\<lparr>Groups := filter (\<lambda>(g', _). g' \<noteq> g) (Groups c)\<rparr>"
  have "set gs \<subseteq> gids ?c" using Cons.prems by force
  moreover have "filter (\<lambda>(g', _). g' \<notin> set gs) (Groups ?c) = filter (\<lambda>(g', _). g' \<notin> set (g # gs)) (Groups c)"
    by (auto intro: filter_cong)
  ultimately show ?case using Cons.IH [of ?c True] Cons.prems by (simp add: isGroup_iff)
qed simp

section \<open>The check of the tests\<close>

lemma spread_fold:
  "foldl (spreadStep c) (a, b) gs = (mx, mn) \<Longrightarrow>
     (mx = a \<or> mx \<in> counts c ` set gs) \<and> (mn = b \<or> mn \<in> counts c ` set gs)"
proof (induction gs arbitrary: a b)
  case (Cons g gs)
  obtain a' b' where s: "spreadStep c (a, b) g = (a', b')" by fastforce
  then have "(a' = a \<or> a' = counts c g) \<and> (b' = b \<or> b' = counts c g)" by (auto simp: spreadStep_def)
  moreover have "foldl (spreadStep c) (a', b') gs = (mx, mn)" using Cons.prems s by simp
  ultimately show ?case using Cons.IH [of a' b'] by (auto simp: image_iff)
qed simp

lemma balanced_passes_check:
  assumes "cfg_ok c" "Groups c \<noteq> [] \<longrightarrow> balanced c" "distinct gs" "set gs = gids c"
  shows "CheckConfig gs c"
proof -
  obtain mx mn where f: "foldl (spreadStep c) (0, 257) (map fst (Groups c)) = (mx, mn)" by fastforce
  note r = spread_fold [OF f]
  have bound: "counts c g \<le> 12" "0 \<le> counts c g" for g
    using counts_bounds [of c g] assms(1) by (simp_all add: cfg_ok_def NShards_def)
  have "\<not> mx > mn + 1"
  proof (cases "Groups c = []")
    case False
    have le: "counts c g \<le> counts c h + 1" if "g \<in> gids c" "h \<in> gids c" for g h
      using that assms(2) False unfolding balanced_def by blast
    have mx: "mx = 0 \<or> (\<exists>g \<in> gids c. mx = counts c g)" and mn: "mn = 257 \<or> (\<exists>h \<in> gids c. mn = counts c h)"
      using r by auto
    have "mx \<le> 12" "0 \<le> mn" using mx mn bound by auto
    then show ?thesis using mx mn le by (smt (verit))
  qed (use f in simp)
  moreover have "length (Groups c) = length gs"
    using assms(1,3,4) by (metis cfg_ok_def distinct_card length_map list.set_map)
  moreover have "list_all (isGroup c) (Shards c)" if "0 < length gs"
  proof -
    have "Groups c \<noteq> []" using that assms(4) by auto
    then show ?thesis using assms(2) by (auto simp: balanced_def isGroup_iff list_all_iff)
  qed
  ultimately show ?thesis using assms(4) f by (simp add: CheckConfig_def isGroup_iff list_all_iff)
qed

section \<open>Properties\<close>

text \<open>C35: joining. When new groups with new servers join a configuration, \<^verbatim>\<open>JoinBalance\<close> ends, adds
  exactly these groups, counts the configuration number up by one and leaves every shard
  assigned to a group with loads that differ by at most one, so that \<^verbatim>\<open>CheckConfig\<close> passes; and
  although Go iterates over the map of new groups in a random order, the assignment of the
  shards is the same for every order.\<close>

theorem JoinBalance_spec:
  assumes "cfg_ok c" and "joins servers c" and "servers \<noteq> []"
  shows "\<exists>c'. JoinBalance servers c = Some (True, c') \<and> cfg_ok c' \<and> Num c' = Num c + 1 \<and>
     Groups c' = Groups c @ servers \<and> balanced c' \<and>
     (\<forall>gs. distinct gs \<and> set gs = gids c \<union> fst ` set servers \<longrightarrow> CheckConfig gs c') \<and>
     (\<forall>servers'. mset servers' = mset servers \<longrightarrow>
        JoinBalance servers' c = Some (True, c'\<lparr>Groups := Groups c @ servers'\<rparr>))"
proof -
  let ?c1 = "c\<lparr>Num := Num c + 1, Groups := Groups c @ servers\<rparr>"
  have ok: "cfg_ok ?c1" and ne: "Groups ?c1 \<noteq> []" using assms by (simp_all add: joins_cfg_ok)
  then obtain c' where c': "Rebalance ?c1 = Some c'" "Groups c' = Groups c @ servers" "Num c' = Num c + 1"
      "length (Shards c') = NShards" "balanced c'"
    using Rebalance_total [of ?c1] by (auto simp: cfg_ok_def NShards_def)
  have ok': "cfg_ok c'" using ok c'(2,4) by (simp add: cfg_ok_def)
  have "JoinBalance servers' c = Some (True, c'\<lparr>Groups := Groups c @ servers'\<rparr>)" if p: "mset servers' = mset servers" for servers'
  proof -
    have j: "joins servers' c" "servers' \<noteq> []" using assms joins_perm [OF p] p by auto
    have "Rebalance (?c1\<lparr>Groups := Groups c @ servers'\<rparr>) = Some (c'\<lparr>Groups := Groups c @ servers'\<rparr>)"
      using Rebalance_order [of "Groups c @ servers'" ?c1] c'(1) p by simp
    then show ?thesis by (simp add: JoinBalance_def Join_spec [OF j])
  qed
  note perm = this
  have "c'\<lparr>Groups := Groups c @ servers\<rparr> = c'" using c'(2) by (cases c') simp
  then have "JoinBalance servers c = Some (True, c')" using perm [of servers] by simp
  moreover have "CheckConfig gs c'" if "distinct gs \<and> set gs = gids c \<union> fst ` set servers" for gs
    using balanced_passes_check [OF ok', of gs] c'(2,5) that by (simp add: image_Un)
  ultimately show ?thesis using perm c'(2,3,5) ok' by blast
qed

text \<open>C36: leaving. When groups of the configuration leave, \<^verbatim>\<open>LeaveBalance\<close> ends, removes exactly
  these groups, counts the configuration number up by one and leaves the shards balanced over
  the remaining groups, or all assigned to group 0 when none remains; \<^verbatim>\<open>CheckConfig\<close> passes.\<close>

theorem LeaveBalance_spec:
  assumes "cfg_ok c" and "distinct gs" and "set gs \<subseteq> gids c" and "gs \<noteq> []"
  shows "\<exists>c'. LeaveBalance gs c = Some (True, c') \<and> cfg_ok c' \<and> Num c' = Num c + 1 \<and>
     Groups c' = filter (\<lambda>(g, _). g \<notin> set gs) (Groups c) \<and>
     (if set gs = gids c then set (Shards c') \<subseteq> {0} else balanced c') \<and>
     (\<forall>hs. distinct hs \<and> set hs = gids c - set gs \<longrightarrow> CheckConfig hs c')"
proof -
  let ?gr = "filter (\<lambda>(g, _). g \<notin> set gs) (Groups c)"
  let ?c1 = "c\<lparr>Num := Num c + 1, Groups := ?gr\<rparr>"
  have L: "Leave gs c = Some (True, ?c1)"
    using leaveLoop_all [OF assms(2,3), of "[]" False] assms(4) by (simp add: Leave_def)
  have ok: "cfg_ok ?c1" using assms(1) by (simp add: cfg_ok_def distinct_map_filter)
  obtain c' where c': "Rebalance ?c1 = Some c'" "Groups c' = ?gr" "Num c' = Num c + 1"
      "length (Shards c') = NShards" "?gr \<noteq> [] \<longrightarrow> balanced c'" "?gr = [] \<longrightarrow> set (Shards c') \<subseteq> {0}"
    using Rebalance_total [of ?c1] ok by (auto simp: cfg_ok_def NShards_def)
  have ok': "cfg_ok c'" using ok c'(2,4) by (simp add: cfg_ok_def)
  have ids: "gids c' = gids c - set gs" using c'(2) by force
  then have "?gr = [] \<longleftrightarrow> set gs = gids c" using assms(3) c'(2) by (metis Diff_eq_empty_iff equalityI image_is_empty order_refl set_empty)
  moreover have "CheckConfig hs c'" if "distinct hs \<and> set hs = gids c - set gs" for hs
    using balanced_passes_check [OF ok', of hs] c'(2,5) that ids by simp
  ultimately show ?thesis using L c' ok' by (auto simp: LeaveBalance_def)
qed

text \<open>A refused \<^verbatim>\<open>Leave\<close> is not atomic. If the list of groups names one that is not in the
  configuration, the groups before it are gone although \<^verbatim>\<open>LeaveBalance\<close> returns false, the
  configuration number stays and no shard is moved away from the removed groups.\<close>

lemma failed_leave_not_atomic:
  assumes "distinct gs" and "set gs \<subseteq> gids c" and "h \<notin> gids c"
  shows "LeaveBalance (gs @ h # rest) c = Some (False, c\<lparr>Groups := filter (\<lambda>(g, _). g \<notin> set gs) (Groups c)\<rparr>)"
proof -
  have "\<not> isGroup (c\<lparr>Groups := filter (\<lambda>(g, _). g \<notin> set gs) (Groups c)\<rparr>) h"
    using assms(3) by (force simp: isGroup_iff)
  then show ?thesis using leaveLoop_all [OF assms(1,2), of "h # rest" False] by (simp add: LeaveBalance_def Leave_def)
qed

text \<open>Further facts: keys have a shard, and a balanced configuration is left alone.\<close>

lemma Key2Shard_range: "0 \<le> Key2Shard key \<and> Key2Shard key < int NShards"
  by (simp add: Key2Shard_def NShards_def)

lemma IsMember_iff: "IsMember g c \<longleftrightarrow> g \<in> set (Shards c)"
proof -
  have "memberLoop g xs \<longleftrightarrow> g \<in> set xs" for xs by (induction xs) auto
  then show ?thesis by (simp add: IsMember_def)
qed

lemma GidServers_balanced:
  assumes "cfg_ok c" "balanced c" "0 \<le> sh" "sh < int NShards"
  shows "\<exists>gid srvs. GidServers sh c = Some (gid, srvs, True) \<and> (gid, srvs) \<in> set (Groups c)"
proof -
  have "Shards c ! nat sh \<in> gids c" using assms by (auto simp: cfg_ok_def balanced_def)
  then obtain srvs where "map_of (Groups c) (Shards c ! nat sh) = Some srvs"
    using isGroup_iff [of c "Shards c ! nat sh"] by (auto simp: isGroup_def)
  then show ?thesis using assms by (auto simp: GidServers_def cfg_ok_def dest: map_of_SomeD)
qed

lemma CopyConfig_id: "CopyConfig c = c"
proof -
  have "foldl (\<lambda>c (k, srvs). c\<lparr>Groups := Groups c @ [(k, srvs)]\<rparr>) c xs = c\<lparr>Groups := Groups c @ xs\<rparr>" for c :: ShardConfig and xs
    by (induction xs arbitrary: c) auto
  then show ?thesis by (simp add: CopyConfig_def MakeShardConfig_def)
qed

section \<open>Witnesses\<close>

definition exampleConfig :: ShardConfig where
  "exampleConfig = \<lparr>Num = 3, Shards = [1, 1, 1, 1, 1, 1, 2, 2, 2, 2, 2, 2], Groups = [(1, [''a'']), (2, [''b''])]\<rparr>"

theorem JoinBalance_spec_witness:
  "\<exists>c'. JoinBalance [(4, [''d'']), (3, [''c''])] exampleConfig = Some (True, c') \<and> Num c' = 4 \<and> balanced c' \<and>
     Shards c' = [3, 3, 3, 1, 1, 1, 4, 4, 4, 2, 2, 2] \<and> CheckConfig [1, 2, 3, 4] c'"
proof -
  have ok: "cfg_ok exampleConfig" "joins [(4, [''d'']), (3, [''c''])] exampleConfig"
    by (simp_all add: cfg_ok_def joins_def exampleConfig_def NShards_def pairwise_insert pairwise_def)
  have "JoinBalance [(4, [''d'']), (3, [''c''])] exampleConfig = Some (True,
      \<lparr>Num = 4, Shards = [3, 3, 3, 1, 1, 1, 4, 4, 4, 2, 2, 2],
       Groups = [(1, [''a'']), (2, [''b'']), (4, [''d'']), (3, [''c''])]\<rparr>)"
    by code_simp
  moreover have "{1, 2, 3, 4} = gids exampleConfig \<union> fst ` set [(4, [''d'']), (3, [''c''])]"
    by (auto simp: exampleConfig_def)
  ultimately obtain c' where "JoinBalance [(4, [''d'']), (3, [''c''])] exampleConfig = Some (True, c')" "balanced c'"
      "Num c' = Num exampleConfig + 1" "CheckConfig [1, 2, 3, 4] c'" "Shards c' = [3, 3, 3, 1, 1, 1, 4, 4, 4, 2, 2, 2]"
    using JoinBalance_spec [OF ok] by (force simp del: Un_insert_right)
  then show ?thesis by (simp add: exampleConfig_def)
qed

theorem LeaveBalance_spec_witness:
  "\<exists>c'. LeaveBalance [2] exampleConfig = Some (True, c') \<and> Num c' = 4 \<and> Groups c' = [(1, [''a''])] \<and> balanced c'"
proof -
  have "cfg_ok exampleConfig" "gids exampleConfig = {1, 2}" by (auto simp: cfg_ok_def exampleConfig_def NShards_def)
  then show ?thesis using LeaveBalance_spec [of exampleConfig "[2]"] by (auto simp: exampleConfig_def)
qed

end
