(* ===== verification/Mr_Coordinator.thy ===== *)
theory Mr_Coordinator
  imports Itoa
begin

text \<open>
  The MapReduce coordinator (\<^verbatim>\<open>src/mr/coordinator.go\<close>, messages of \<^verbatim>\<open>src/mr/rpc.go\<close>): handing out of
  map and reduce tasks, reassignment of tasks that take too long, and completion reports.

  \<^item> Times are milliseconds; a handler gets the time at which it runs.
  \<^item> Task ids and \<^verbatim>\<open>NReduce\<close> are natural numbers.
  \<^item> \<open>None\<close> as the outcome of a handler is a panic: an index out of range.
\<close>

datatype TaskType = MapTask | ReduceTask | WaitTask | ExitTask

record Task =
  Type :: TaskType
  ID :: nat
  Filenames :: "string list"
  NReduce :: nat

definition zeroTask :: Task where
  "zeroTask = \<lparr>Type = MapTask, ID = 0, Filenames = [], NReduce = 0\<rparr>"

record DoneArgs =
  doneType :: TaskType
  doneID :: nat

datatype TaskState = Idle | Inprogress | Completed

record TaskInfo =
  TaskOf :: Task
  Statu :: TaskState
  StartTime :: int

record Coordinator =
  nReduce :: nat
  files :: "string list"
  mapTasks :: "TaskInfo list"
  reduceTasks :: "TaskInfo list"
  mapdone :: bool
  reducedone :: bool

definition timeout :: int where
  "timeout = 10 * 1000"

section \<open>File names\<close>

definition interName :: "nat \<Rightarrow> nat \<Rightarrow> string" where
  "interName i j = ''mr-'' @ itoa i @ ''-'' @ itoa j"

definition outName :: "nat \<Rightarrow> string" where
  "outName i = ''mr-out-'' @ itoa i"

text \<open>The socket name of \<^verbatim>\<open>coordinatorSock\<close>, given the user id.\<close>

definition coordinatorSock :: "nat \<Rightarrow> string" where
  "coordinatorSock uid = ''/var/tmp/5840-mr-'' @ itoa uid"

section \<open>The handlers\<close>

text \<open>The loop of \<^verbatim>\<open>AssignTask\<close> over one of the two task lists: the first task that is idle, or in
  progress for too long, is started.\<close>

definition assignable :: "int \<Rightarrow> TaskInfo \<Rightarrow> bool" where
  "assignable now ti \<longleftrightarrow> Statu ti = Idle \<or> Statu ti = Inprogress \<and> now - StartTime ti > timeout"

fun assignFrom :: "int \<Rightarrow> TaskInfo list \<Rightarrow> (TaskInfo list \<times> Task) option" where
  "assignFrom now [] = None"
| "assignFrom now (ti # tis) =
     (if assignable now ti
      then Some (ti\<lparr>StartTime := now, Statu := Inprogress\<rparr> # tis,
                 \<lparr>Type = Type (TaskOf ti), ID = ID (TaskOf ti), Filenames = Filenames (TaskOf ti),
                  NReduce = NReduce (TaskOf ti)\<rparr>)
      else map_option (\<lambda>(tis', t). (ti # tis', t)) (assignFrom now tis))"

definition AssignTask :: "int \<Rightarrow> Coordinator \<Rightarrow> Coordinator \<times> Task" where
  "AssignTask now c =
     (if \<not> mapdone c
      then case assignFrom now (mapTasks c) of
             Some (tis, t) \<Rightarrow> (c\<lparr>mapTasks := tis\<rparr>, t)
           | None \<Rightarrow> (c, zeroTask\<lparr>Type := WaitTask\<rparr>)
      else if \<not> reducedone c
      then case assignFrom now (reduceTasks c) of
             Some (tis, t) \<Rightarrow> (c\<lparr>reduceTasks := tis\<rparr>, t)
           | None \<Rightarrow> (c, zeroTask\<lparr>Type := WaitTask\<rparr>)
      else (c, zeroTask\<lparr>Type := ExitTask\<rparr>))"

definition Done :: "Coordinator \<Rightarrow> bool" where
  "Done c = reducedone c"

fun allCompleted :: "TaskInfo list \<Rightarrow> bool" where
  "allCompleted [] = True"
| "allCompleted (ti # tis) = (if Statu ti \<noteq> Completed then False else allCompleted tis)"

definition MarkTaskDone :: "DoneArgs \<Rightarrow> Coordinator \<Rightarrow> Coordinator option" where
  "MarkTaskDone task c =
     (if doneType task = MapTask
      then if doneID task < length (mapTasks c)
           then let c1 = c\<lparr>mapTasks := (mapTasks c)[doneID task := (mapTasks c ! doneID task)\<lparr>Statu := Completed\<rparr>]\<rparr>
                in Some (if allCompleted (mapTasks c1) then c1\<lparr>mapdone := True\<rparr> else c1)
           else None
      else if doneType task = ReduceTask
      then if doneID task < length (reduceTasks c)
           then let c1 = c\<lparr>reduceTasks := (reduceTasks c)[doneID task := (reduceTasks c ! doneID task)\<lparr>Statu := Completed\<rparr>]\<rparr>
                in Some (if allCompleted (reduceTasks c1) then c1\<lparr>reducedone := True\<rparr> else c1)
           else None
      else Some c)"

definition mapTaskOf :: "string list \<Rightarrow> nat \<Rightarrow> nat \<Rightarrow> Task" where
  "mapTaskOf fs n i = \<lparr>Type = MapTask, ID = i, Filenames = [fs ! i], NReduce = n\<rparr>"

definition reduceTaskOf :: "string list \<Rightarrow> nat \<Rightarrow> nat \<Rightarrow> Task" where
  "reduceTaskOf fs n i =
     \<lparr>Type = ReduceTask, ID = i, Filenames = map (\<lambda>j. interName j i) [0..<length fs], NReduce = n\<rparr>"

definition MakeCoordinator :: "string list \<Rightarrow> nat \<Rightarrow> Coordinator" where
  "MakeCoordinator fs n =
     \<lparr>nReduce = n, files = fs,
      mapTasks = map (\<lambda>i. \<lparr>TaskOf = mapTaskOf fs n i, Statu = Idle, StartTime = 0\<rparr>) [0..<length fs],
      reduceTasks = map (\<lambda>i. \<lparr>TaskOf = reduceTaskOf fs n i, Statu = Idle, StartTime = 0\<rparr>) [0..<n],
      mapdone = False, reducedone = False\<rparr>"

section \<open>File names are distinct\<close>

lemma interName_inj: "interName i j = interName i' j' \<Longrightarrow> i = i' \<and> j = j'"
proof -
  assume "interName i j = interName i' j'"
  then have "itoa i @ CHR ''-'' # itoa j = itoa i' @ CHR ''-'' # itoa j'" by (simp add: interName_def)
  then have "itoa i = itoa i' \<and> itoa j = itoa j'" by (rule dash_split) (rule itoa_no_dash)+
  then show ?thesis by (simp add: itoa_inj)
qed

lemma outName_inj: "outName i = outName j \<Longrightarrow> i = j"
  by (simp add: outName_def itoa_inj)

section \<open>The invariant of the coordinator\<close>

lemma allCompleted_iff: "allCompleted tis \<longleftrightarrow> (\<forall>i < length tis. Statu (tis ! i) = Completed)"
proof -
  have "allCompleted tis \<longleftrightarrow> (\<forall>ti \<in> set tis. Statu ti = Completed)" by (induction tis) auto
  then show ?thesis by (simp add: all_set_conv_all_nth)
qed

text \<open>A list of tasks with their fixed descriptions; the phase is over when all are completed.\<close>

definition tasks_ok :: "(nat \<Rightarrow> Task) \<Rightarrow> nat \<Rightarrow> bool \<Rightarrow> TaskInfo list \<Rightarrow> bool" where
  "tasks_ok mk n over tis \<longleftrightarrow> length tis = n \<and> (\<forall>i < n. TaskOf (tis ! i) = mk i) \<and>
     (over \<longleftrightarrow> 0 < n \<and> (\<forall>i < n. Statu (tis ! i) = Completed))"

definition coord_ok :: "string list \<Rightarrow> nat \<Rightarrow> Coordinator \<Rightarrow> bool" where
  "coord_ok fs n c \<longleftrightarrow> tasks_ok (mapTaskOf fs n) (length fs) (mapdone c) (mapTasks c) \<and>
     tasks_ok (reduceTaskOf fs n) n (reducedone c) (reduceTasks c)"

lemma MakeCoordinator_ok: "coord_ok fs n (MakeCoordinator fs n)"
  by (auto simp: coord_ok_def tasks_ok_def MakeCoordinator_def)

lemma assignFrom_Some:
  assumes "assignFrom now tis = Some (tis', t)"
  obtains i where "i < length tis" "assignable now (tis ! i)" "\<forall>j < i. \<not> assignable now (tis ! j)"
    "tis' = tis[i := (tis ! i)\<lparr>StartTime := now, Statu := Inprogress\<rparr>]" "t = TaskOf (tis ! i)"
proof -
  have "\<exists>i < length tis. assignable now (tis ! i) \<and> (\<forall>j < i. \<not> assignable now (tis ! j)) \<and>
      tis' = tis[i := (tis ! i)\<lparr>StartTime := now, Statu := Inprogress\<rparr>] \<and> t = TaskOf (tis ! i)"
    using assms
  proof (induction tis arbitrary: tis')
    case (Cons ti tis)
    show ?case
    proof (cases "assignable now ti")
      case True
      then show ?thesis using Cons.prems by (intro exI [of _ 0]) auto
    next
      case False
      then obtain tis1 where "assignFrom now tis = Some (tis1, t)" "tis' = ti # tis1" using Cons.prems by auto
      then obtain i where "i < length tis" "assignable now (tis ! i)" "\<forall>j < i. \<not> assignable now (tis ! j)"
          "tis1 = tis[i := (tis ! i)\<lparr>StartTime := now, Statu := Inprogress\<rparr>]" "t = TaskOf (tis ! i)"
        using Cons.IH by blast
      then show ?thesis using False \<open>tis' = ti # tis1\<close> by (intro exI [of _ "Suc i"]) (auto simp: less_Suc_eq_0_disj)
    qed
  qed simp
  then show ?thesis using that by blast
qed

lemma assignFrom_None: "assignFrom now tis = None \<longleftrightarrow> (\<forall>i < length tis. \<not> assignable now (tis ! i))"
proof -
  have "assignFrom now tis = None \<longleftrightarrow> (\<forall>ti \<in> set tis. \<not> assignable now ti)" by (induction tis) auto
  then show ?thesis by (simp add: all_set_conv_all_nth)
qed

lemma assignable_open: "assignable now ti \<Longrightarrow> Statu ti \<noteq> Completed"
  by (auto simp: assignable_def)

lemma tasks_ok_assign:
  assumes "tasks_ok mk n over tis" "i < n" "Statu (tis ! i) \<noteq> Completed"
  shows "tasks_ok mk n over (tis[i := (tis ! i)\<lparr>StartTime := now, Statu := Inprogress\<rparr>])"
  using assms by (auto simp: tasks_ok_def nth_list_update)

lemma tasks_ok_done:
  assumes "tasks_ok mk n over tis" "i < n" "tis' = tis[i := (tis ! i)\<lparr>Statu := Completed\<rparr>]"
  shows "tasks_ok mk n (over \<or> allCompleted tis') tis'"
  using assms by (auto simp: tasks_ok_def nth_list_update allCompleted_iff)

text \<open>What a request may change and what it gets.\<close>

lemma AssignTask_cases:
  assumes "coord_ok fs n c" "AssignTask now c = (c', t)"
  obtains
    (map_phase) i where "\<not> mapdone c" "i < length fs" "assignable now (mapTasks c ! i)" "t = mapTaskOf fs n i"
      "c' = c\<lparr>mapTasks := (mapTasks c)[i := (mapTasks c ! i)\<lparr>StartTime := now, Statu := Inprogress\<rparr>]\<rparr>"
  | (reduce_phase) i where "mapdone c" "\<not> reducedone c" "i < n" "assignable now (reduceTasks c ! i)" "t = reduceTaskOf fs n i"
      "c' = c\<lparr>reduceTasks := (reduceTasks c)[i := (reduceTasks c ! i)\<lparr>StartTime := now, Statu := Inprogress\<rparr>]\<rparr>"
  | (wait) "c' = c" "Type t = WaitTask"
      "if mapdone c then \<not> reducedone c \<and> (\<forall>i < n. \<not> assignable now (reduceTasks c ! i))
       else \<forall>i < length fs. \<not> assignable now (mapTasks c ! i)"
  | (exit) "c' = c" "Type t = ExitTask" "mapdone c" "reducedone c"
proof -
  have m: "length (mapTasks c) = length fs" "\<And>i. i < length fs \<Longrightarrow> TaskOf (mapTasks c ! i) = mapTaskOf fs n i"
    and r: "length (reduceTasks c) = n" "\<And>i. i < n \<Longrightarrow> TaskOf (reduceTasks c ! i) = reduceTaskOf fs n i"
    using assms(1) by (auto simp: coord_ok_def tasks_ok_def)
  consider "\<not> mapdone c" | "mapdone c" "\<not> reducedone c" | "mapdone c" "reducedone c" by blast
  then show thesis
  proof cases
    case 1
    show thesis
    proof (cases "assignFrom now (mapTasks c)")
      case None
      then show thesis using wait 1 assms(2) m(1) assignFrom_None [of now "mapTasks c"] by (auto simp: AssignTask_def)
    next
      case (Some p)
      then obtain tis where "assignFrom now (mapTasks c) = Some (tis, t)" "c' = c\<lparr>mapTasks := tis\<rparr>"
        using 1 assms(2) by (cases p) (auto simp: AssignTask_def)
      then show thesis using map_phase 1 m by (auto elim!: assignFrom_Some)
    qed
  next
    case 2
    show thesis
    proof (cases "assignFrom now (reduceTasks c)")
      case None
      then show thesis using wait 2 assms(2) r(1) assignFrom_None [of now "reduceTasks c"] by (auto simp: AssignTask_def)
    next
      case (Some p)
      then obtain tis where "assignFrom now (reduceTasks c) = Some (tis, t)" "c' = c\<lparr>reduceTasks := tis\<rparr>"
        using 2 assms(2) by (cases p) (auto simp: AssignTask_def)
      then show thesis using reduce_phase 2 r by (auto elim!: assignFrom_Some)
    qed
  next
    case 3
    then show thesis using exit assms(2) by (auto simp: AssignTask_def)
  qed
qed

lemma AssignTask_ok:
  assumes "coord_ok fs n c" "AssignTask now c = (c', t)"
  shows "coord_ok fs n c'"
  using assms
proof (cases rule: AssignTask_cases)
  case (map_phase i)
  then show ?thesis using assms(1) tasks_ok_assign assignable_open by (fastforce simp: coord_ok_def)
next
  case (reduce_phase i)
  then show ?thesis using assms(1) tasks_ok_assign assignable_open by (fastforce simp: coord_ok_def)
qed (use assms(1) in auto)

lemma MarkTaskDone_map:
  assumes "coord_ok fs n c" "i < length fs"
  obtains c' where "MarkTaskDone \<lparr>doneType = MapTask, doneID = i\<rparr> c = Some c'" "coord_ok fs n c'"
    "mapTasks c' = (mapTasks c)[i := (mapTasks c ! i)\<lparr>Statu := Completed\<rparr>]" "reduceTasks c' = reduceTasks c"
    "reducedone c' = reducedone c" "mapdone c \<Longrightarrow> mapdone c'"
proof -
  let ?m = "(mapTasks c)[i := (mapTasks c ! i)\<lparr>Statu := Completed\<rparr>]"
  have t: "tasks_ok (mapTaskOf fs n) (length fs) (mapdone c \<or> allCompleted ?m) ?m" and l: "i < length (mapTasks c)"
    using assms tasks_ok_done [of "mapTaskOf fs n" "length fs" "mapdone c" "mapTasks c" i] by (auto simp: coord_ok_def tasks_ok_def)
  show thesis
    by (rule that [of "if allCompleted ?m then c\<lparr>mapTasks := ?m, mapdone := True\<rparr> else c\<lparr>mapTasks := ?m\<rparr>"])
      (use t l assms(1) in \<open>auto simp: MarkTaskDone_def Let_def coord_ok_def\<close>)
qed

lemma MarkTaskDone_reduce:
  assumes "coord_ok fs n c" "i < n"
  obtains c' where "MarkTaskDone \<lparr>doneType = ReduceTask, doneID = i\<rparr> c = Some c'" "coord_ok fs n c'"
    "reduceTasks c' = (reduceTasks c)[i := (reduceTasks c ! i)\<lparr>Statu := Completed\<rparr>]" "mapTasks c' = mapTasks c"
    "mapdone c' = mapdone c" "reducedone c \<Longrightarrow> reducedone c'"
proof -
  let ?m = "(reduceTasks c)[i := (reduceTasks c ! i)\<lparr>Statu := Completed\<rparr>]"
  have t: "tasks_ok (reduceTaskOf fs n) n (reducedone c \<or> allCompleted ?m) ?m" and l: "i < length (reduceTasks c)"
    using assms tasks_ok_done [of "reduceTaskOf fs n" n "reducedone c" "reduceTasks c" i] by (auto simp: coord_ok_def tasks_ok_def)
  show thesis
    by (rule that [of "if allCompleted ?m then c\<lparr>reduceTasks := ?m, reducedone := True\<rparr> else c\<lparr>reduceTasks := ?m\<rparr>"])
      (use t l assms(1) in \<open>auto simp: MarkTaskDone_def Let_def coord_ok_def\<close>)
qed

end
