(* ===== verification/Mr_Worker.thy ===== *)
theory Mr_Worker
  imports Mr_Coordinator Fnv "HOL-Library.Multiset" "HOL-Library.List_Lexorder" "HOL-Library.Char_ord"
begin

unbundle bit_operations_syntax

text \<open>
  The computations of a MapReduce worker (\<^verbatim>\<open>src/mr/worker.go\<close>), the sequential implementation
  (\<^verbatim>\<open>src/main/mrsequential.go\<close>) and applications (\<^verbatim>\<open>src/mrapps\<close>).

  \<^item> An output file is the list of its lines, one per \<^verbatim>\<open>Fprintf\<close>.
  \<^item> \<^verbatim>\<open>sort.Sort\<close> is a parameter \<open>srt\<close>: the documentation promises a sorted permutation and no
    stability (\<open>go_sort\<close>).
  \<^item> Go iterates over a map in a random order, so a map function may return its pairs in
    different orders: its first argument is what decides.
\<close>

record KeyValue =
  Key :: string
  Value :: string

definition ihash :: "string \<Rightarrow> int" where
  "ihash key = uint (fnv32a key AND 0x7fffffff)"

definition reduceTaskID :: "nat \<Rightarrow> string \<Rightarrow> nat" where
  "reduceTaskID n key = nat (ihash key mod int n)"

lemma reduceTaskID_less: "0 < n \<Longrightarrow> reduceTaskID n key < n"
  by (simp add: reduceTaskID_def nat_less_iff)

section \<open>Map tasks\<close>

text \<open>The loop that distributes the pairs over the buckets; a modulus of 0 panics.\<close>

fun fillBuckets :: "nat \<Rightarrow> KeyValue list \<Rightarrow> KeyValue list list \<Rightarrow> KeyValue list list option" where
  "fillBuckets n [] buckets = Some buckets"
| "fillBuckets n (kv # kva) buckets =
     (if n = 0 then None
      else let i = reduceTaskID n (Key kv)
           in fillBuckets n kva (buckets[i := buckets ! i @ [kv]]))"

definition mapBuckets :: "nat \<Rightarrow> KeyValue list \<Rightarrow> KeyValue list list option" where
  "mapBuckets n kva = fillBuckets n kva (replicate n [])"

section \<open>Reduce tasks\<close>

text \<open>The end of the run of equal keys that starts at \<open>i\<close>.\<close>

function runEnd :: "KeyValue list \<Rightarrow> nat \<Rightarrow> nat \<Rightarrow> nat" where
  "runEnd kvs i j = (if j < length kvs \<and> Key (kvs ! j) = Key (kvs ! i) then runEnd kvs i (j + 1) else j)"
  by pat_completeness auto
termination by (relation "measure (\<lambda>(kvs, i, j). length kvs - j)") auto

declare runEnd.simps [simp del]

lemma runEnd_ge: "j \<le> runEnd kvs i j"
proof (induction kvs i j rule: runEnd.induct)
  case (1 kvs i j)
  then show ?case by (subst runEnd.simps) auto
qed

definition outLine :: "string \<Rightarrow> string \<Rightarrow> string" where
  "outLine k v = k @ '' '' @ v"

function reduceLoop :: "(string \<Rightarrow> string list \<Rightarrow> string) \<Rightarrow> KeyValue list \<Rightarrow> nat \<Rightarrow> string list" where
  "reduceLoop reducef kvs i =
     (if i < length kvs
      then let j = runEnd kvs i (i + 1);
               values = map (\<lambda>k. Value (kvs ! k)) [i..<j];
               output = reducef (Key (kvs ! i)) values
           in outLine (Key (kvs ! i)) output # reduceLoop reducef kvs j
      else [])"
  by pat_completeness auto
termination
proof (relation "measure (\<lambda>(reducef, kvs, i). length kvs - i)")
  fix reducef :: "string \<Rightarrow> string list \<Rightarrow> string" and kvs :: "KeyValue list" and i j :: nat
  assume "i < length kvs" "j = runEnd kvs i (i + 1)"
  then show "((reducef, kvs, j), reducef, kvs, i) \<in> measure (\<lambda>(reducef, kvs, i). length kvs - i)"
    using runEnd_ge [of "i + 1" kvs i] by auto
qed simp

declare reduceLoop.simps [simp del]

definition reduceOutput :: "(KeyValue list \<Rightarrow> KeyValue list) \<Rightarrow> (string \<Rightarrow> string list \<Rightarrow> string) \<Rightarrow> KeyValue list \<Rightarrow> string list" where
  "reduceOutput srt reducef intermediate = reduceLoop reducef (srt intermediate) 0"

section \<open>The sequential implementation\<close>

text \<open>\<open>read\<close> is the content of a file, if it can be read; \<open>None\<close> is \<^verbatim>\<open>log.Fatalf\<close>. The file of the
  \<open>r\<close>-th call of the map function is decided by \<open>seed r\<close>.\<close>

fun sequentialMap :: "('o \<Rightarrow> string \<Rightarrow> string \<Rightarrow> KeyValue list) \<Rightarrow> (string \<rightharpoonup> string) \<Rightarrow> (nat \<Rightarrow> 'o) \<Rightarrow> nat \<Rightarrow> string list \<Rightarrow>
    KeyValue list \<Rightarrow> KeyValue list option" where
  "sequentialMap mapf read seed r [] intermediate = Some intermediate"
| "sequentialMap mapf read seed r (filename # rest) intermediate =
     (case read filename of
        None \<Rightarrow> None
      | Some content \<Rightarrow>
          sequentialMap mapf read seed (Suc r) rest (intermediate @ mapf (seed r) filename content))"

definition mrsequential :: "(KeyValue list \<Rightarrow> KeyValue list) \<Rightarrow> ('o \<Rightarrow> string \<Rightarrow> string \<Rightarrow> KeyValue list) \<Rightarrow>
    (string \<Rightarrow> string list \<Rightarrow> string) \<Rightarrow> (string \<rightharpoonup> string) \<Rightarrow> (nat \<Rightarrow> 'o) \<Rightarrow> string list \<Rightarrow> string list option" where
  "mrsequential srt mapf reducef read seed args =
     map_option (\<lambda>intermediate. reduceLoop reducef (srt intermediate) 0) (sequentialMap mapf read seed 0 args [])"

section \<open>Applications\<close>

text \<open>\<^verbatim>\<open>strings.FieldsFunc\<close>: the maximal runs of characters that are no separators.\<close>

fun fieldsFrom :: "(char \<Rightarrow> bool) \<Rightarrow> string \<Rightarrow> string \<Rightarrow> string list" where
  "fieldsFrom sep w [] = (if w = [] then [] else [w])"
| "fieldsFrom sep w (c # cs) =
     (if sep c then (if w = [] then fieldsFrom sep [] cs else w # fieldsFrom sep [] cs)
      else fieldsFrom sep (w @ [c]) cs)"

definition FieldsFunc :: "(char \<Rightarrow> bool) \<Rightarrow> string \<Rightarrow> string list" where
  "FieldsFunc sep s = fieldsFrom sep [] s"

fun joinStrings :: "string \<Rightarrow> string list \<Rightarrow> string" where
  "joinStrings sep [] = ''''"
| "joinStrings sep [x] = x"
| "joinStrings sep (x # xs) = x @ sep @ joinStrings sep xs"

text \<open>\<^verbatim>\<open>wc\<close>; \<open>isLetter\<close> is \<^verbatim>\<open>unicode.IsLetter\<close>.\<close>

definition wcMap :: "(char \<Rightarrow> bool) \<Rightarrow> unit \<Rightarrow> string \<Rightarrow> string \<Rightarrow> KeyValue list" where
  "wcMap isLetter u filename contents =
     map (\<lambda>w. \<lparr>Key = w, Value = ''1''\<rparr>) (FieldsFunc (\<lambda>r. \<not> isLetter r) contents)"

definition wcReduce :: "string \<Rightarrow> string list \<Rightarrow> string" where
  "wcReduce key values = itoa (length values)"

text \<open>\<^verbatim>\<open>indexer\<close>; \<open>order\<close> arranges the keys of the map in the order of the iteration.\<close>

definition indexerMap :: "(char \<Rightarrow> bool) \<Rightarrow> (string set \<Rightarrow> string list) \<Rightarrow> string \<Rightarrow> string \<Rightarrow> KeyValue list" where
  "indexerMap isLetter order document val =
     (let words = FieldsFunc (\<lambda>x. \<not> isLetter x) val; m = set words
      in map (\<lambda>w. \<lparr>Key = w, Value = document\<rparr>) (order m))"

definition indexerReduce :: "string \<Rightarrow> string list \<Rightarrow> string" where
  "indexerReduce key values =
     (let values = sort values in itoa (length values) @ '' '' @ joinStrings '','' values)"

text \<open>\<^verbatim>\<open>crash\<close> and \<^verbatim>\<open>nocrash\<close>, in an execution that does not crash, and \<^verbatim>\<open>early_exit\<close>.\<close>

definition crashMap :: "unit \<Rightarrow> string \<Rightarrow> string \<Rightarrow> KeyValue list" where
  "crashMap u filename contents =
     [\<lparr>Key = ''a'', Value = filename\<rparr>, \<lparr>Key = ''b'', Value = itoa (length filename)\<rparr>,
      \<lparr>Key = ''c'', Value = itoa (length contents)\<rparr>, \<lparr>Key = ''d'', Value = ''xyzzy''\<rparr>]"

definition crashReduce :: "string \<Rightarrow> string list \<Rightarrow> string" where
  "crashReduce key values = joinStrings '' '' (sort values)"

definition earlyExitMap :: "unit \<Rightarrow> string \<Rightarrow> string \<Rightarrow> KeyValue list" where
  "earlyExitMap u filename contents = [\<lparr>Key = filename, Value = ''1''\<rparr>]"

definition earlyExitReduce :: "string \<Rightarrow> string list \<Rightarrow> string" where
  "earlyExitReduce key values = itoa (length values)"

section \<open>What sorting promises\<close>

locale go_sort =
  fixes srt :: "KeyValue list \<Rightarrow> KeyValue list"
  assumes srt_mset: "mset (srt kvs) = mset kvs"
    and srt_sorted: "sorted (map Key (srt kvs))"

text \<open>An application whose results do not depend on the orders that Go leaves open.\<close>

locale mr_app =
  fixes mapf :: "'o \<Rightarrow> string \<Rightarrow> string \<Rightarrow> KeyValue list"
    and reducef :: "string \<Rightarrow> string list \<Rightarrow> string"
    and legal :: "'o \<Rightarrow> bool"
  assumes mapf_order: "legal r \<Longrightarrow> legal r' \<Longrightarrow> mset (mapf r f c) = mset (mapf r' f c)"
    and reducef_order: "mset vs = mset vs' \<Longrightarrow> reducef k vs = reducef k vs'"

interpretation library_sort: go_sort "sort_key Key"
  by unfold_locales simp_all

lemma sort_strings_perm: "mset vs = mset vs' \<Longrightarrow> sort vs = sort vs'" for vs vs' :: "string list"
  by (metis mset_sort properties_for_sort sorted_sort)

interpretation wc: mr_app "wcMap isLetter" wcReduce "\<lambda>_. True" for isLetter
  by unfold_locales (auto simp: wcMap_def wcReduce_def dest: mset_eq_length)

interpretation indexer: mr_app "indexerMap isLetter" indexerReduce
    "\<lambda>order. \<forall>m. finite m \<longrightarrow> distinct (order m) \<and> set (order m) = m" for isLetter
proof unfold_locales
  fix r r' :: "string set \<Rightarrow> string list" and f c
  assume "\<forall>m. finite m \<longrightarrow> distinct (r m) \<and> set (r m) = m" "\<forall>m. finite m \<longrightarrow> distinct (r' m) \<and> set (r' m) = m"
  then have "mset (r (set xs)) = mset (r' (set xs))" for xs by (metis List.finite_set mset_set_set)
  then show "mset (indexerMap isLetter r f c) = mset (indexerMap isLetter r' f c)" by (simp add: indexerMap_def Let_def)
next
  fix k :: string and vs vs' :: "string list"
  assume "mset vs = mset vs'"
  then show "indexerReduce k vs = indexerReduce k vs'"
    using sort_strings_perm [of vs vs'] by (simp add: indexerReduce_def Let_def)
qed

interpretation crash: mr_app crashMap crashReduce "\<lambda>_. True"
proof unfold_locales
  fix k :: string and vs vs' :: "string list"
  assume "mset vs = mset vs'"
  then have "sort vs = sort vs'" by (rule sort_strings_perm)
  then show "crashReduce k vs = crashReduce k vs'" by (simp add: crashReduce_def)
qed (simp add: crashMap_def)

interpretation early_exit: mr_app earlyExitMap earlyExitReduce "\<lambda>_. True"
  by unfold_locales (auto simp: earlyExitMap_def earlyExitReduce_def dest: mset_eq_length)

section \<open>What map and reduce tasks compute\<close>

definition bucketOf :: "nat \<Rightarrow> nat \<Rightarrow> KeyValue list \<Rightarrow> KeyValue list" where
  "bucketOf n i kvs = filter (\<lambda>kv. reduceTaskID n (Key kv) = i) kvs"

lemma fillBuckets_spec:
  "0 < n \<Longrightarrow> length bs = n \<Longrightarrow> fillBuckets n kva bs = Some (map (\<lambda>i. bs ! i @ bucketOf n i kva) [0..<n])"
proof (induction n kva bs rule: fillBuckets.induct)
  case (1 n bs)
  then show ?case using map_nth [of bs] by (simp add: bucketOf_def)
next
  case (2 n kv kva bs)
  let ?h = "reduceTaskID n (Key kv)"
  have "fillBuckets n kva (bs[?h := bs ! ?h @ [kv]]) =
      Some (map (\<lambda>i. bs[?h := bs ! ?h @ [kv]] ! i @ bucketOf n i kva) [0..<n])"
    using 2 by simp
  moreover have "bs[?h := bs ! ?h @ [kv]] ! i @ bucketOf n i kva = bs ! i @ bucketOf n i (kv # kva)" if "i < n" for i
    using that 2(3) by (auto simp: bucketOf_def nth_list_update)
  ultimately show ?case using 2(2) by (auto simp: Let_def)
qed

lemma mapBuckets_spec: "0 < n \<Longrightarrow> mapBuckets n kva = Some (map (\<lambda>i. bucketOf n i kva) [0..<n])"
  by (auto simp: mapBuckets_def fillBuckets_spec)

lemma mset_bucketOf: "mset xs = mset ys \<Longrightarrow> mset (bucketOf n i xs) = mset (bucketOf n i ys)"
  by (simp add: bucketOf_def)

text \<open>The reference for a reduce task: one line per key, in order of the keys.\<close>

definition valuesOf :: "string \<Rightarrow> KeyValue list \<Rightarrow> string list" where
  "valuesOf k kvs = map Value (filter (\<lambda>kv. Key kv = k) kvs)"

definition keysOf :: "KeyValue list \<Rightarrow> string list" where
  "keysOf kvs = sorted_list_of_set (Key ` set kvs)"

definition refOutput :: "(string \<Rightarrow> string list \<Rightarrow> string) \<Rightarrow> KeyValue list \<Rightarrow> string list" where
  "refOutput reducef kvs = map (\<lambda>k. outLine k (reducef k (valuesOf k kvs))) (keysOf kvs)"

lemma keysOf_simps [simp]: "set (keysOf kvs) = Key ` set kvs" "sorted (keysOf kvs)" "distinct (keysOf kvs)"
  by (simp_all add: keysOf_def)

lemma runEnd_eq:
  "j \<le> length kvs \<Longrightarrow> runEnd kvs i j = j + length (takeWhile (\<lambda>kv. Key kv = Key (kvs ! i)) (drop j kvs))"
proof (induction kvs i j rule: runEnd.induct)
  case (1 kvs i j)
  show ?case
  proof (cases "j < length kvs")
    case True
    then have d: "drop j kvs = kvs ! j # drop (Suc j) kvs" by (simp add: Cons_nth_drop_Suc)
    show ?thesis using 1 True unfolding runEnd.simps [of kvs i j] d by auto
  next
    case False
    then show ?thesis using 1(2) by (subst runEnd.simps) simp
  qed
qed

function lines :: "(string \<Rightarrow> string list \<Rightarrow> string) \<Rightarrow> KeyValue list \<Rightarrow> string list" where
  "lines reducef [] = []"
| "lines reducef (kv # kvs) =
     outLine (Key kv) (reducef (Key kv) (Value kv # map Value (takeWhile (\<lambda>x. Key x = Key kv) kvs))) #
     lines reducef (dropWhile (\<lambda>x. Key x = Key kv) kvs)"
  by pat_completeness auto
termination by (relation "measure (\<lambda>(reducef, kvs). length kvs)") (auto simp: less_Suc_eq_le length_dropWhile_le)

lemma drop_run: "drop (m + length (takeWhile P (drop m xs))) xs = dropWhile P (drop m xs)"
proof -
  have "drop (m + k) xs = drop k (drop m xs)" for k by (simp add: add.commute)
  then show ?thesis by (rule trans) (rule dropWhile_eq_drop [symmetric])
qed

lemma map_slice: "m + k \<le> length xs \<Longrightarrow> map (\<lambda>i. f (xs ! i)) [m..<m + k] = map f (take k (drop m xs))"
  by (simp add: list_eq_iff_nth_eq)

lemma reduceLoop_lines: "reduceLoop reducef kvs i = lines reducef (drop i kvs)"
proof (induction reducef kvs i rule: reduceLoop.induct)
  case (1 reducef kvs i)
  show ?case
  proof (cases "i < length kvs")
    case True
    let ?P = "\<lambda>x. Key x = Key (kvs ! i)"
    let ?tw = "takeWhile ?P (drop (i + 1) kvs)"
    have j: "runEnd kvs i (i + 1) = i + 1 + length ?tw" using runEnd_eq [of "i + 1" kvs i] True by simp
    have "drop (i + 1 + length ?tw) kvs = dropWhile ?P (drop (i + 1) kvs)" by (rule drop_run)
    moreover have "map (\<lambda>k. Value (kvs ! k)) [i..<i + 1 + length ?tw] = Value (kvs ! i) # map Value ?tw"
    proof -
      have le: "i + 1 + length ?tw \<le> length kvs" using True length_takeWhile_le [of ?P "drop (i + 1) kvs"] by simp
      have "map (\<lambda>k. Value (kvs ! k)) [i + 1..<i + 1 + length ?tw] = map Value (take (length ?tw) (drop (i + 1) kvs))"
        by (rule map_slice [OF le])
      also have "\<dots> = map Value ?tw" by (rule arg_cong [OF takeWhile_eq_take [symmetric]])
      finally have "map (\<lambda>k. Value (kvs ! k)) [i + 1..<i + 1 + length ?tw] = map Value ?tw" .
      moreover have "[i..<i + 1 + length ?tw] = i # [i + 1..<i + 1 + length ?tw]" by (subst upt_conv_Cons) simp_all
      ultimately show ?thesis by (simp only: list.map)
    qed
    moreover have "drop i kvs = kvs ! i # drop (i + 1) kvs" using True by (simp add: Cons_nth_drop_Suc)
    moreover have "reduceLoop reducef kvs (i + 1 + length ?tw) = lines reducef (drop (i + 1 + length ?tw) kvs)"
      using 1 [OF True] j by simp
    ultimately show ?thesis using True j by (subst reduceLoop.simps) (simp add: Let_def)
  qed (subst reduceLoop.simps, simp)
qed

lemma sorted_run:
  assumes "sorted (map Key (kv # kvs))"
  shows "takeWhile (\<lambda>x. Key x = Key kv) kvs = filter (\<lambda>x. Key x = Key kv) kvs"
    and "dropWhile (\<lambda>x. Key x = Key kv) kvs = filter (\<lambda>x. Key x \<noteq> Key kv) kvs"
proof -
  have "takeWhile (\<lambda>x. Key x = Key kv) kvs = filter (\<lambda>x. Key x = Key kv) kvs \<and>
        dropWhile (\<lambda>x. Key x = Key kv) kvs = filter (\<lambda>x. Key x \<noteq> Key kv) kvs"
    using assms
  proof (induction kvs)
    case (Cons x kvs)
    show ?case
    proof (cases "Key x = Key kv")
      case True
      then show ?thesis using Cons by simp
    next
      case False
      then have "\<forall>y \<in> set (x # kvs). Key y \<noteq> Key kv" using Cons.prems by auto
      then show ?thesis by (auto simp: filter_id_conv filter_empty_conv)
    qed
  qed simp
  then show "takeWhile (\<lambda>x. Key x = Key kv) kvs = filter (\<lambda>x. Key x = Key kv) kvs"
    "dropWhile (\<lambda>x. Key x = Key kv) kvs = filter (\<lambda>x. Key x \<noteq> Key kv) kvs" by blast+
qed

lemma keysOf_Cons:
  assumes "sorted (map Key (kv # kvs))"
  shows "keysOf (kv # kvs) = Key kv # keysOf (filter (\<lambda>x. Key x \<noteq> Key kv) kvs)" (is "_ = _ # ?rest")
proof (rule sorted_distinct_set_unique)
  have "\<forall>k \<in> set ?rest. Key kv \<le> k" using assms by auto
  then show "sorted (Key kv # ?rest)" by simp
  show "distinct (Key kv # ?rest)" by auto
  show "set (keysOf (kv # kvs)) = set (Key kv # ?rest)" by auto
qed simp_all

lemma lines_sorted: "sorted (map Key kvs) \<Longrightarrow> lines reducef kvs = refOutput reducef kvs"
proof (induction reducef kvs rule: lines.induct)
  case (1 reducef)
  then show ?case by (simp add: refOutput_def keysOf_def)
next
  case (2 reducef kv kvs)
  note run = sorted_run [OF 2(2)]
  let ?rest = "filter (\<lambda>x. Key x \<noteq> Key kv) kvs"
  have "sorted (map Key ?rest)" using 2(2) by (simp add: sorted_filter)
  then have IH: "lines reducef ?rest = refOutput reducef ?rest" using 2(1) run(2) by simp
  have "valuesOf k ?rest = valuesOf k (kv # kvs)" if "k \<in> set (keysOf ?rest)" for k
  proof -
    have "k \<noteq> Key kv" using that by auto
    then show ?thesis by (auto simp: valuesOf_def intro!: arg_cong [of _ _ "map Value"] filter_cong)
  qed
  then show ?case
    unfolding refOutput_def keysOf_Cons [OF 2(2)] by (simp add: run IH) (simp add: refOutput_def valuesOf_def)
qed

text \<open>The reference does not depend on the order of the pairs, and splitting the pairs into
  buckets by the hash of the key splits the lines.\<close>

lemma keysOf_mset: "mset xs = mset ys \<Longrightarrow> keysOf xs = keysOf ys"
  by (metis keysOf_def mset_eq_setD)

lemma mset_split:
  assumes "\<forall>k \<in> set ks. h k < (n :: nat)"
  shows "mset (concat (map (\<lambda>i. map f (filter (\<lambda>k. h k = i) ks)) [0..<n])) = mset (map f ks)"
  using assms
proof (induction ks)
  case (Cons k ks)
  have "mset (concat (map (\<lambda>i. map f (filter (\<lambda>k. h k = i) (k # ks))) [0..<n])) =
      (\<Sum>i \<in> {0..<n}. mset (map f (filter (\<lambda>k. h k = i) (k # ks))))"
    by (simp add: mset_concat comp_def sum_list_distinct_conv_sum_set)
  also have "\<dots> = (\<Sum>i \<in> {0..<n}. (if i = h k then {#f k#} else {#}) + mset (map f (filter (\<lambda>k. h k = i) ks)))"
    by (rule sum.cong) auto
  also have "\<dots> = {#f k#} + (\<Sum>i \<in> {0..<n}. mset (map f (filter (\<lambda>k. h k = i) ks)))"
    using Cons.prems by (simp add: sum.distrib)
  also have "(\<Sum>i \<in> {0..<n}. mset (map f (filter (\<lambda>k. h k = i) ks))) = mset (map f ks)"
    using Cons by (simp add: mset_concat comp_def sum_list_distinct_conv_sum_set)
  finally show ?case by simp
qed simp

lemma keysOf_bucket: "keysOf (bucketOf n i kvs) = filter (\<lambda>k. reduceTaskID n k = i) (keysOf kvs)"
  by (rule sorted_distinct_set_unique) (auto simp: bucketOf_def intro: sorted_wrt_filter)

lemma refOutput_split:
  assumes "0 < n"
  shows "mset (concat (map (\<lambda>i. refOutput reducef (bucketOf n i kvs)) [0..<n])) = mset (refOutput reducef kvs)"
proof -
  let ?f = "\<lambda>k. outLine k (reducef k (valuesOf k kvs))"
  have "refOutput reducef (bucketOf n i kvs) = map ?f (filter (\<lambda>k. reduceTaskID n k = i) (keysOf kvs))" for i
    unfolding refOutput_def keysOf_bucket
    by (rule map_cong) (auto simp: valuesOf_def bucketOf_def intro!: arg_cong [of _ _ "\<lambda>vs. outLine _ (reducef _ (map Value vs))"] filter_cong)
  then show ?thesis using mset_split [of "keysOf kvs" "reduceTaskID n" n ?f] assms by (simp add: refOutput_def reduceTaskID_less)
qed

context go_sort
begin

lemma reduce_refOutput:
  assumes "\<And>k vs vs'. mset vs = mset vs' \<Longrightarrow> reducef k vs = reducef k vs'" and "mset kvs = mset kvs'"
  shows "reduceOutput srt reducef kvs = refOutput reducef kvs'"
proof -
  have m: "mset (srt kvs) = mset kvs'" by (simp add: srt_mset assms(2))
  have "reducef k (valuesOf k (srt kvs)) = reducef k (valuesOf k kvs')" for k
    by (rule assms(1)) (simp add: valuesOf_def mset_filter m)
  then have "refOutput reducef (srt kvs) = refOutput reducef kvs'"
    by (simp only: refOutput_def keysOf_mset [OF m])
  then show ?thesis by (simp add: reduceOutput_def reduceLoop_lines lines_sorted [OF srt_sorted])
qed

end

end
