(* ===== verification/Mr_Job.thy ===== *)
theory Mr_Job
  imports Mr_Worker
begin

text \<open>
  A MapReduce job: the coordinator, any number of workers and the files they share
  (\<^verbatim>\<open>src/mr/worker.go\<close>, \<^verbatim>\<open>src/mr/coordinator.go\<close>). A run is a list of events. A request hands a task to
  some worker; every execution of a task is an entry of \<open>running\<close> and advances by one file
  operation at a time, interleaved with all others in any way. An execution that is never
  advanced again is a worker that crashed, or whose report got lost.

  \<^item> Input files, intermediate files and output files have different kinds of names, so they
    are three maps.
  \<^item> An intermediate file is the list of the JSON values written into it; the encoder and the
    decoder of the JSON library are parameters \<open>enc\<close> and \<open>dec\<close>, and may fail or change a pair.
  \<^item> A temporary file is private to its worker: what others see is the renaming, which may
    fail; the worker then logs and goes on (the last argument of an event).
\<close>

record 'j Disk =
  inputs :: "string \<rightharpoonup> string"
  inter :: "string \<rightharpoonup> 'j list"
  outs :: "string \<rightharpoonup> string list"

text \<open>The loops over a file with intermediate data. A pair whose encoding fails is logged and left out;
  reading ends at the first value that cannot be decoded.\<close>

definition encodeFile :: "(KeyValue \<Rightarrow> 'j option) \<Rightarrow> KeyValue list \<Rightarrow> 'j list" where
  "encodeFile enc kvs = List.map_filter enc kvs"

fun decodeFile :: "('j \<Rightarrow> KeyValue option) \<Rightarrow> 'j list \<Rightarrow> KeyValue list" where
  "decodeFile dec [] = []"
| "decodeFile dec (j # js) = (case dec j of None \<Rightarrow> [] | Some kv \<Rightarrow> kv # decodeFile dec js)"

text \<open>Where an execution of a task is: received; map task with its buckets, writing file \<open>i\<close>;
  reduce task with the pairs read so far, reading file \<open>i\<close>; output written; over.\<close>

datatype phase = Assigned | Writing "KeyValue list list" nat | Reading "KeyValue list" nat | Written | Gone

record Run =
  runTask :: Task
  runPhase :: phase

definition workerStep :: "(KeyValue list \<Rightarrow> KeyValue list) \<Rightarrow> ('o \<Rightarrow> string \<Rightarrow> string \<Rightarrow> KeyValue list) \<Rightarrow>
    (string \<Rightarrow> string list \<Rightarrow> string) \<Rightarrow> (KeyValue \<Rightarrow> 'j option) \<Rightarrow> ('j \<Rightarrow> KeyValue option) \<Rightarrow>
    'o \<Rightarrow> bool \<Rightarrow> Run \<Rightarrow> 'j Disk \<Rightarrow> Run \<times> 'j Disk \<times> DoneArgs option" where
  "workerStep srt mapf reducef enc dec seed renamed r d =
     (let reply = runTask r in
      case runPhase r of
        Assigned \<Rightarrow>
          (case Type reply of
             MapTask \<Rightarrow>
               (case inputs d (Filenames reply ! 0) of
                  None \<Rightarrow> (r\<lparr>runPhase := Gone\<rparr>, d, None)
                | Some content \<Rightarrow>
                    (case mapBuckets (NReduce reply) (mapf seed (Filenames reply ! 0) content) of
                       None \<Rightarrow> (r\<lparr>runPhase := Gone\<rparr>, d, None)
                     | Some buckets \<Rightarrow> (r\<lparr>runPhase := Writing buckets 0\<rparr>, d, None)))
           | ReduceTask \<Rightarrow> (r\<lparr>runPhase := Reading [] 0\<rparr>, d, None)
           | WaitTask \<Rightarrow> (r\<lparr>runPhase := Gone\<rparr>, d, None)
           | ExitTask \<Rightarrow> (r\<lparr>runPhase := Gone\<rparr>, d, None))
      | Writing buckets i \<Rightarrow>
          if i < NReduce reply
          then (r\<lparr>runPhase := Writing buckets (i + 1)\<rparr>,
                if renamed then d\<lparr>inter := (inter d)(interName (ID reply) i \<mapsto> encodeFile enc (buckets ! i))\<rparr> else d, None)
          else (r\<lparr>runPhase := Gone\<rparr>, d, Some \<lparr>doneType = MapTask, doneID = ID reply\<rparr>)
      | Reading intermediateKV i \<Rightarrow>
          if i < length (Filenames reply)
          then case inter d (Filenames reply ! i) of
                 None \<Rightarrow> (r\<lparr>runPhase := Reading intermediateKV (i + 1)\<rparr>, d, None)
               | Some file \<Rightarrow> (r\<lparr>runPhase := Reading (intermediateKV @ decodeFile dec file) (i + 1)\<rparr>, d, None)
          else (r\<lparr>runPhase := Written\<rparr>,
                if renamed then d\<lparr>outs := (outs d)(outName (ID reply) \<mapsto> reduceOutput srt reducef intermediateKV)\<rparr> else d,
                None)
      | Written \<Rightarrow> (r\<lparr>runPhase := Gone\<rparr>, d, Some \<lparr>doneType = ReduceTask, doneID = ID reply\<rparr>)
      | Gone \<Rightarrow> (r, d, None))"

record 'j Job =
  coord :: Coordinator
  disk :: "'j Disk"
  running :: "Run list"

datatype 'o jobEvent = Request int | Advance nat 'o bool

definition jobStep :: "(KeyValue list \<Rightarrow> KeyValue list) \<Rightarrow> ('o \<Rightarrow> string \<Rightarrow> string \<Rightarrow> KeyValue list) \<Rightarrow>
    (string \<Rightarrow> string list \<Rightarrow> string) \<Rightarrow> (KeyValue \<Rightarrow> 'j option) \<Rightarrow> ('j \<Rightarrow> KeyValue option) \<Rightarrow>
    'o jobEvent \<Rightarrow> 'j Job \<Rightarrow> 'j Job option" where
  "jobStep srt mapf reducef enc dec ev job =
     (case ev of
        Request now \<Rightarrow>
          (case AssignTask now (coord job) of (c, t) \<Rightarrow>
             Some (job\<lparr>coord := c, running := running job @ [\<lparr>runTask = t, runPhase = Assigned\<rparr>]\<rparr>))
      | Advance k seed renamed \<Rightarrow>
          if k < length (running job)
          then case workerStep srt mapf reducef enc dec seed renamed (running job ! k) (disk job) of (r, d, report) \<Rightarrow>
                 let job1 = job\<lparr>disk := d, running := (running job)[k := r]\<rparr>
                 in case report of
                      None \<Rightarrow> Some job1
                    | Some args \<Rightarrow> map_option (\<lambda>c. job1\<lparr>coord := c\<rparr>) (MarkTaskDone args (coord job))
          else Some job)"

fun jobSteps :: "(KeyValue list \<Rightarrow> KeyValue list) \<Rightarrow> ('o \<Rightarrow> string \<Rightarrow> string \<Rightarrow> KeyValue list) \<Rightarrow>
    (string \<Rightarrow> string list \<Rightarrow> string) \<Rightarrow> (KeyValue \<Rightarrow> 'j option) \<Rightarrow> ('j \<Rightarrow> KeyValue option) \<Rightarrow>
    'o jobEvent list \<Rightarrow> 'j Job \<Rightarrow> 'j Job option" where
  "jobSteps srt mapf reducef enc dec [] job = Some job"
| "jobSteps srt mapf reducef enc dec (ev # evs) job =
     do { job1 \<leftarrow> jobStep srt mapf reducef enc dec ev job; jobSteps srt mapf reducef enc dec evs job1 }"

definition startJob :: "string list \<Rightarrow> nat \<Rightarrow> (string \<rightharpoonup> string) \<Rightarrow> 'j Job" where
  "startJob fs n ins =
     \<lparr>coord = MakeCoordinator fs n, disk = \<lparr>inputs = ins, inter = Map.empty, outs = Map.empty\<rparr>, running = []\<rparr>"

section \<open>The invariant of a job\<close>

text \<open>The reference: the pairs of input file \<open>i\<close> that belong to reduce task \<open>j\<close>, and all pairs of a
  reduce task, for one fixed choice \<open>m\<close> of the map results.\<close>

definition refInter :: "(nat \<Rightarrow> KeyValue list) \<Rightarrow> nat \<Rightarrow> nat \<Rightarrow> nat \<Rightarrow> KeyValue list" where
  "refInter m n i j = bucketOf n j (m i)"

definition refPairs :: "(nat \<Rightarrow> KeyValue list) \<Rightarrow> nat \<Rightarrow> nat \<Rightarrow> nat \<Rightarrow> KeyValue list" where
  "refPairs m n k j = concat (map (\<lambda>i. refInter m n i j) [0..<k])"

text \<open>What an execution has done so far.\<close>

definition run_ok :: "(nat \<Rightarrow> KeyValue list) \<Rightarrow> string list \<Rightarrow> nat \<Rightarrow> Coordinator \<Rightarrow> 'j Disk \<Rightarrow> Run \<Rightarrow> bool" where
  "run_ok m fs n c d r \<longleftrightarrow>
     (case runPhase r of
        Assigned \<Rightarrow> (\<exists>i < length fs. runTask r = mapTaskOf fs n i) \<or> (\<exists>i < n. runTask r = reduceTaskOf fs n i \<and> mapdone c) \<or>
                    Type (runTask r) = WaitTask \<or> Type (runTask r) = ExitTask
      | Writing bs j \<Rightarrow> \<exists>i < length fs. runTask r = mapTaskOf fs n i \<and> inputs d (fs ! i) \<noteq> None \<and> j \<le> n \<and>
                    (\<forall>k < n. mset (bs ! k) = mset (refInter m n i k)) \<and> (\<forall>k < j. inter d (interName i k) \<noteq> None)
      | Reading kvs j \<Rightarrow> \<exists>i < n. runTask r = reduceTaskOf fs n i \<and> mapdone c \<and> j \<le> length fs \<and>
                    mset kvs = mset (refPairs m n j i)
      | Written \<Rightarrow> \<exists>i < n. runTask r = reduceTaskOf fs n i \<and> mapdone c \<and> outs d (outName i) \<noteq> None
      | Gone \<Rightarrow> True)"

definition files_ok :: "('j \<Rightarrow> KeyValue option) \<Rightarrow> (string \<Rightarrow> string list \<Rightarrow> string) \<Rightarrow> (nat \<Rightarrow> KeyValue list) \<Rightarrow> string list \<Rightarrow> nat \<Rightarrow> 'j Disk \<Rightarrow> bool" where
  "files_ok dec reducef m fs n d \<longleftrightarrow>
     (\<forall>i < length fs. \<forall>j < n. \<forall>v. inter d (interName i j) = Some v \<longrightarrow> mset (decodeFile dec v) = mset (refInter m n i j)) \<and>
     (\<forall>i < n. \<forall>v. outs d (outName i) = Some v \<longrightarrow> v = refOutput reducef (refPairs m n (length fs) i))"

definition done_ok :: "string list \<Rightarrow> nat \<Rightarrow> Coordinator \<Rightarrow> 'j Disk \<Rightarrow> bool" where
  "done_ok fs n c d \<longleftrightarrow>
     (\<forall>i < length fs. Statu (mapTasks c ! i) = Completed \<longrightarrow>
        inputs d (fs ! i) \<noteq> None \<and> (\<forall>j < n. inter d (interName i j) \<noteq> None)) \<and>
     (\<forall>i < n. Statu (reduceTasks c ! i) = Completed \<longrightarrow> mapdone c \<and> outs d (outName i) \<noteq> None)"

definition job_ok :: "('j \<Rightarrow> KeyValue option) \<Rightarrow> (string \<Rightarrow> string list \<Rightarrow> string) \<Rightarrow> (nat \<Rightarrow> KeyValue list) \<Rightarrow> string list \<Rightarrow> nat \<Rightarrow>
    (string \<rightharpoonup> string) \<Rightarrow> 'j Job \<Rightarrow> bool" where
  "job_ok dec reducef m fs n ins job \<longleftrightarrow> coord_ok fs n (coord job) \<and> inputs (disk job) = ins \<and> files_ok dec reducef m fs n (disk job) \<and>
     done_ok fs n (coord job) (disk job) \<and> (\<forall>r \<in> set (running job). run_ok m fs n (coord job) (disk job) r)"

text \<open>Files do not disappear and phases do not return.\<close>

definition later :: "Coordinator \<Rightarrow> 'j Disk \<Rightarrow> Coordinator \<Rightarrow> 'j Disk \<Rightarrow> bool" where
  "later c d c' d' \<longleftrightarrow> (mapdone c \<longrightarrow> mapdone c') \<and> inputs d' = inputs d \<and>
     (\<forall>f. inter d f \<noteq> None \<longrightarrow> inter d' f \<noteq> None) \<and> (\<forall>f. outs d f \<noteq> None \<longrightarrow> outs d' f \<noteq> None)"

lemma later_refl [simp]: "later c d c d"
  by (simp add: later_def)

lemma run_ok_later: "run_ok m fs n c d r \<Longrightarrow> later c d c' d' \<Longrightarrow> run_ok m fs n c' d' r"
proof (cases "runPhase r")
  case Assigned
  assume "run_ok m fs n c d r" "later c d c' d'"
  then show ?thesis using Assigned unfolding run_ok_def later_def by (simp only: phase.case) blast
next
  case (Writing bs j)
  assume "run_ok m fs n c d r" "later c d c' d'"
  then show ?thesis using Writing unfolding run_ok_def later_def by (simp only: phase.case) metis
next
  case (Reading kvs j)
  assume "run_ok m fs n c d r" "later c d c' d'"
  then show ?thesis using Reading unfolding run_ok_def later_def by (simp only: phase.case) blast
next
  case Written
  assume "run_ok m fs n c d r" "later c d c' d'"
  then show ?thesis using Written unfolding run_ok_def later_def by (simp only: phase.case) blast
qed (simp add: run_ok_def)

lemma run_ok_writing:
  assumes "runPhase r = Writing bs j" "i < length fs" "runTask r = mapTaskOf fs n i" "inputs d (fs ! i) \<noteq> None" "j \<le> n"
    and "\<forall>k < n. mset (bs ! k) = mset (refInter m n i k)" "\<forall>k < j. inter d (interName i k) \<noteq> None"
  shows "run_ok m fs n c d r"
  using assms unfolding run_ok_def by (simp only: phase.case) blast

lemma run_ok_reading:
  assumes "runPhase r = Reading kvs j" "i < n" "runTask r = reduceTaskOf fs n i" "mapdone c" "j \<le> length fs"
    and "mset kvs = mset (refPairs m n j i)"
  shows "run_ok m fs n c d r"
  using assms unfolding run_ok_def by (simp only: phase.case) blast

lemma startJob_ok: "job_ok dec reducef m fs n ins (startJob fs n ins)"
  using MakeCoordinator_ok [of fs n]
  by (auto simp: job_ok_def startJob_def files_ok_def done_ok_def MakeCoordinator_def)

section \<open>Every step keeps the invariant\<close>

lemma refPairs_Suc: "refPairs m n (Suc k) j = refPairs m n k j @ refInter m n k j"
  by (simp add: refPairs_def)

lemmas task_simps = mapTaskOf_def reduceTaskOf_def

text \<open>A pair that is the same after it was encoded and decoded. The JSON library promises this for
  strings in valid UTF-8; it replaces what is not.\<close>

definition survives :: "(KeyValue \<Rightarrow> 'j option) \<Rightarrow> ('j \<Rightarrow> KeyValue option) \<Rightarrow> KeyValue \<Rightarrow> bool" where
  "survives enc dec kv = (case enc kv of Some j \<Rightarrow> dec j = Some kv | None \<Rightarrow> False)"

lemma file_roundtrip: "\<forall>kv \<in> set kvs. survives enc dec kv \<Longrightarrow> decodeFile dec (encodeFile enc kvs) = kvs"
  by (induction kvs) (auto simp: encodeFile_def survives_def List.map_filter_simps split: option.splits)

definition kept :: "(KeyValue \<Rightarrow> 'j option) \<Rightarrow> ('j \<Rightarrow> KeyValue option) \<Rightarrow> (nat \<Rightarrow> KeyValue list) \<Rightarrow> string list \<Rightarrow>
    (string \<rightharpoonup> string) \<Rightarrow> bool" where
  "kept enc dec m fs ins \<longleftrightarrow> (\<forall>i < length fs. ins (fs ! i) \<noteq> None \<longrightarrow> (\<forall>kv \<in> set (m i). survives enc dec kv))"

text \<open>Events without failures of the file system, with orders that Go may choose.\<close>

definition clean :: "('o \<Rightarrow> bool) \<Rightarrow> 'o jobEvent \<Rightarrow> bool" where
  "clean legal ev \<longleftrightarrow> (case ev of Request now \<Rightarrow> True | Advance k seed renamed \<Rightarrow> legal seed \<and> renamed)"

text \<open>The engine: sorting and an application.\<close>

locale mr_engine = go_sort srt + mr_app mapf reducef legal
  for srt :: "KeyValue list \<Rightarrow> KeyValue list" and mapf :: "'o \<Rightarrow> string \<Rightarrow> string \<Rightarrow> KeyValue list"
    and reducef :: "string \<Rightarrow> string list \<Rightarrow> string" and legal :: "'o \<Rightarrow> bool"
begin

text \<open>\<open>m\<close> is the result of the map function on the input files, in some order.\<close>

definition map_results :: "(nat \<Rightarrow> KeyValue list) \<Rightarrow> string list \<Rightarrow> (string \<rightharpoonup> string) \<Rightarrow> bool" where
  "map_results m fs ins \<longleftrightarrow>
     (\<forall>i < length fs. \<forall>content seed. ins (fs ! i) = Some content \<and> legal seed \<longrightarrow> mset (mapf seed (fs ! i) content) = mset (m i))"

definition reported :: "string list \<Rightarrow> nat \<Rightarrow> Coordinator \<Rightarrow> 'j Disk \<Rightarrow> DoneArgs option \<Rightarrow> bool" where
  "reported fs n c d report \<longleftrightarrow>
     (case report of
        None \<Rightarrow> True
      | Some a \<Rightarrow>
          (\<exists>i < length fs. a = \<lparr>doneType = MapTask, doneID = i\<rparr> \<and> inputs d (fs ! i) \<noteq> None \<and>
             (\<forall>j < n. inter d (interName i j) \<noteq> None)) \<or>
          (\<exists>i < n. a = \<lparr>doneType = ReduceTask, doneID = i\<rparr> \<and> mapdone c \<and> outs d (outName i) \<noteq> None))"

lemma begin_ok:
  assumes "run_ok m fs n c d r" "runPhase r = Assigned" "0 < n" "legal seed" "map_results m fs (inputs d)"
    and "workerStep srt mapf reducef enc dec seed renamed r d = (r', d', report)"
  shows "d' = d \<and> report = None \<and> run_ok m fs n c d r'"
proof -
  from assms(1,2) consider (M) i where "i < length fs" "runTask r = mapTaskOf fs n i"
    | (R) i where "i < n" "runTask r = reduceTaskOf fs n i" "mapdone c"
    | (W) "Type (runTask r) = WaitTask \<or> Type (runTask r) = ExitTask" by (auto simp: run_ok_def)
  then show ?thesis
  proof cases
    case (M i)
    show ?thesis
    proof (cases "inputs d (fs ! i)")
      case None
      then show ?thesis using assms(2,6) M by (auto simp: workerStep_def task_simps run_ok_def)
    next
      case (Some content)
      have "mset (mapf seed (fs ! i) content) = mset (m i)" using assms(4,5) M Some by (auto simp: map_results_def)
      then have "mset (bucketOf n k (mapf seed (fs ! i) content)) = mset (refInter m n i k)" for k
        unfolding refInter_def by (rule mset_bucketOf)
      moreover have "r' = r\<lparr>runPhase := Writing (map (\<lambda>k. bucketOf n k (mapf seed (fs ! i) content)) [0..<n]) 0\<rparr>"
          "d' = d" "report = None"
        using assms(2,6) Some by (simp_all add: workerStep_def M task_simps mapBuckets_spec [OF assms(3)])
      ultimately show ?thesis using M Some by (auto intro!: run_ok_writing)
    qed
  next
    case (R i)
    then show ?thesis using assms(2,6) by (auto simp: workerStep_def task_simps run_ok_def refPairs_def)
  next
    case W
    then show ?thesis using assms(2,6) by (auto simp: workerStep_def run_ok_def)
  qed
qed

lemma write_ok:
  assumes "run_ok m fs n c d r" "runPhase r = Writing bs j" "files_ok dec reducef m fs n d" and kept: "kept enc dec m fs (inputs d)"
    and step: "workerStep srt mapf reducef enc dec seed True r d = (r', d', report)"
  shows "files_ok dec reducef m fs n d' \<and> later c d c d' \<and> run_ok m fs n c d' r' \<and> reported fs n c d' report"
proof -
  from assms(1,2) obtain i where i: "i < length fs" "runTask r = mapTaskOf fs n i" "inputs d (fs ! i) \<noteq> None" "j \<le> n"
      "\<forall>k < n. mset (bs ! k) = mset (refInter m n i k)" "\<forall>k < j. inter d (interName i k) \<noteq> None"
    by (auto simp: run_ok_def)
  show ?thesis
  proof (cases "j < n")
    case True
    then have "r' = r\<lparr>runPhase := Writing bs (j + 1)\<rparr>" "report = None"
      and d': "d' = d\<lparr>inter := (inter d)(interName i j \<mapsto> encodeFile enc (bs ! j))\<rparr>"
      using assms(2) step i(2) by (simp_all add: workerStep_def task_simps)
    moreover have "set (bs ! j) \<subseteq> set (m i)"
      using i(5) True mset_eq_setD [of "bs ! j" "refInter m n i j"] by (auto simp: refInter_def bucketOf_def)
    then have "decodeFile dec (encodeFile enc (bs ! j)) = bs ! j" using kept i(1,3) by (intro file_roundtrip) (auto simp: kept_def)
    then have "files_ok dec reducef m fs n d'"
      using assms(3) i(5) True unfolding files_ok_def d' by (auto dest!: interName_inj)
    moreover have "\<forall>k < j + 1. inter d' (interName i k) \<noteq> None" using i(6) by (simp add: d' less_Suc_eq)
    moreover have "run_ok m fs n c d' r'"
      by (rule run_ok_writing) (use i True calculation in \<open>auto simp: d'\<close>)
    ultimately show ?thesis by (simp add: later_def reported_def d')
  next
    case False
    then have "r' = r\<lparr>runPhase := Gone\<rparr>" "d' = d" "report = Some \<lparr>doneType = MapTask, doneID = i\<rparr>"
      using assms(2) step i(2) by (simp_all add: workerStep_def task_simps)
    then show ?thesis using assms(3) i False by (auto simp: run_ok_def reported_def)
  qed
qed

lemma read_ok:
  assumes "run_ok m fs n c d r" "runPhase r = Reading kvs j" "files_ok dec reducef m fs n d" "coord_ok fs n c" "done_ok fs n c d"
    and "workerStep srt mapf reducef enc dec seed True r d = (r', d', report)"
  shows "files_ok dec reducef m fs n d' \<and> later c d c d' \<and> run_ok m fs n c d' r' \<and> reported fs n c d' report"
proof -
  from assms(1,2) obtain i where i: "i < n" "runTask r = reduceTaskOf fs n i" "mapdone c" "j \<le> length fs"
      "mset kvs = mset (refPairs m n j i)"
    by (auto simp: run_ok_def)
  have lenF: "length (Filenames (runTask r)) = length fs" and idr: "ID (runTask r) = i" using i(2) by (simp_all add: reduceTaskOf_def)
  show ?thesis
  proof (cases "j < length fs")
    case True
    have "Statu (mapTasks c ! j) = Completed" using assms(4) i(3) True by (simp add: coord_ok_def tasks_ok_def)
    then obtain v where v: "inter d (interName j i) = Some v" using assms(5) True i(1) unfolding done_ok_def by blast
    then have "mset (decodeFile dec v) = mset (refInter m n j i)" using assms(3) True i(1) by (simp add: files_ok_def)
    then have "mset (kvs @ decodeFile dec v) = mset (refPairs m n (j + 1) i)" using i(5) by (simp add: refPairs_Suc)
    moreover have "Filenames (runTask r) ! j = interName j i" using i(2) True by (simp add: reduceTaskOf_def)
    then have "r' = r\<lparr>runPhase := Reading (kvs @ decodeFile dec v) (j + 1)\<rparr>" "d' = d" "report = None"
      using assms(2,6) True v lenF by (simp_all add: workerStep_def)
    ultimately show ?thesis using i True assms(3) by (auto simp: reported_def intro!: run_ok_reading)
  next
    case False
    then have jl: "j = length fs" using i(4) by simp
    let ?out = "reduceOutput srt reducef kvs"
    have "?out = refOutput reducef (refPairs m n (length fs) i)"
      by (rule reduce_refOutput [OF reducef_order]) (use i(5) jl in simp_all)
    moreover have "r' = r\<lparr>runPhase := Written\<rparr>" "report = None"
      and d': "d' = d\<lparr>outs := (outs d)(outName i \<mapsto> ?out)\<rparr>"
      using assms(2,6) False lenF idr by (simp_all add: workerStep_def)
    ultimately show ?thesis
      using assms(3) i by (auto simp: run_ok_def later_def reported_def files_ok_def dest!: outName_inj)
  qed
qed

lemma workerStep_ok:
  assumes "run_ok m fs n c d r" "files_ok dec reducef m fs n d" "coord_ok fs n c" "done_ok fs n c d"
    and "0 < n" "legal seed" "map_results m fs (inputs d)" and kept: "kept enc dec m fs (inputs d)"
    and step: "workerStep srt mapf reducef enc dec seed True r d = (r', d', report)"
  shows "files_ok dec reducef m fs n d' \<and> later c d c d' \<and> run_ok m fs n c d' r' \<and> reported fs n c d' report"
proof (cases "runPhase r")
  case Assigned
  then show ?thesis using begin_ok [OF assms(1) _ assms(5,6,7) step] assms(2) by (auto simp: reported_def)
next
  case (Writing bs j)
  then show ?thesis using write_ok [OF assms(1) _ assms(2) kept step] by blast
next
  case (Reading kvs j)
  then show ?thesis using read_ok [OF assms(1) _ assms(2,3,4) step] by blast
next
  case Written
  then show ?thesis using assms(1,2) step by (auto simp: workerStep_def run_ok_def reported_def task_simps)
next
  case Gone
  then show ?thesis using assms(1,2) step by (auto simp: workerStep_def reported_def)
qed

lemma request_ok:
  assumes "job_ok dec reducef m fs n ins job"
  shows "\<exists>job'. jobStep srt mapf reducef enc dec (Request now) job = Some job' \<and> job_ok dec reducef m fs n ins job'"
proof -
  obtain c t where a: "AssignTask now (coord job) = (c, t)" by fastforce
  have ok: "coord_ok fs n (coord job)" "done_ok fs n (coord job) (disk job)"
    and runs: "\<forall>r \<in> set (running job). run_ok m fs n (coord job) (disk job) r"
    using assms by (simp_all add: job_ok_def)
  have len: "length (mapTasks (coord job)) = length fs" "length (reduceTasks (coord job)) = n"
    using ok(1) by (simp_all add: coord_ok_def tasks_ok_def)
  have "done_ok fs n c (disk job) \<and> mapdone c = mapdone (coord job) \<and>
      run_ok m fs n c (disk job) \<lparr>runTask = t, runPhase = Assigned\<rparr>"
    using ok(1) a
  proof (cases rule: AssignTask_cases)
    case (map_phase i)
    then show ?thesis using ok(2) len by (auto simp: done_ok_def run_ok_def nth_list_update)
  next
    case (reduce_phase i)
    then show ?thesis using ok(2) len by (auto simp: done_ok_def run_ok_def nth_list_update)
  qed (use ok(2) in \<open>auto simp: run_ok_def\<close>)
  moreover from this have "later (coord job) (disk job) c (disk job)" by (simp add: later_def)
  ultimately show ?thesis
    using assms AssignTask_ok [OF ok(1) a] runs by (auto simp: jobStep_def a job_ok_def intro: run_ok_later)
qed

lemma report_ok:
  assumes "coord_ok fs n c" "done_ok fs n c d" "reported fs n c d (Some a)"
  shows "\<exists>c'. MarkTaskDone a c = Some c' \<and> coord_ok fs n c' \<and> done_ok fs n c' d \<and> later c d c' d"
proof -
  have len: "length (mapTasks c) = length fs" "length (reduceTasks c) = n"
    using assms(1) by (simp_all add: coord_ok_def tasks_ok_def)
  from assms(3) consider
    (M) i where "i < length fs" "a = \<lparr>doneType = MapTask, doneID = i\<rparr>" "inputs d (fs ! i) \<noteq> None"
      "\<forall>j < n. inter d (interName i j) \<noteq> None"
    | (R) i where "i < n" "a = \<lparr>doneType = ReduceTask, doneID = i\<rparr>" "mapdone c" "outs d (outName i) \<noteq> None"
    by (auto simp: reported_def)
  then show ?thesis
  proof cases
    case (M i)
    obtain c' where c': "MarkTaskDone \<lparr>doneType = MapTask, doneID = i\<rparr> c = Some c'" "coord_ok fs n c'"
        "mapTasks c' = (mapTasks c)[i := (mapTasks c ! i)\<lparr>Statu := Completed\<rparr>]" "reduceTasks c' = reduceTasks c"
        "mapdone c \<Longrightarrow> mapdone c'"
      using MarkTaskDone_map [OF assms(1) M(1)] by metis
    then have "done_ok fs n c' d" using assms(2) M len by (auto simp: done_ok_def nth_list_update)
    then show ?thesis using c' M(2) by (auto simp: later_def)
  next
    case (R i)
    obtain c' where c': "MarkTaskDone \<lparr>doneType = ReduceTask, doneID = i\<rparr> c = Some c'" "coord_ok fs n c'"
        "reduceTasks c' = (reduceTasks c)[i := (reduceTasks c ! i)\<lparr>Statu := Completed\<rparr>]" "mapTasks c' = mapTasks c"
        "mapdone c' = mapdone c"
      using MarkTaskDone_reduce [OF assms(1) R(1)] by metis
    then have "done_ok fs n c' d" using assms(2) R len by (auto simp: done_ok_def nth_list_update)
    then show ?thesis using c' R(2) by (auto simp: later_def)
  qed
qed

lemma done_ok_later: "done_ok fs n c d \<Longrightarrow> later c d c d' \<Longrightarrow> done_ok fs n c d'"
  unfolding done_ok_def later_def by metis

lemma advance_ok:
  assumes ok: "job_ok dec reducef m fs n ins job" and "0 < n" "legal seed" "map_results m fs ins" "kept enc dec m fs ins"
  shows "\<exists>job'. jobStep srt mapf reducef enc dec (Advance k seed True) job = Some job' \<and> job_ok dec reducef m fs n ins job'"
proof (cases "k < length (running job)")
  case True
  obtain r d rep where w: "workerStep srt mapf reducef enc dec seed True (running job ! k) (disk job) = (r, d, rep)"
    by (metis prod_cases3)
  let ?c = "coord job"
  have o: "coord_ok fs n ?c" "files_ok dec reducef m fs n (disk job)" "done_ok fs n ?c (disk job)" "inputs (disk job) = ins"
    and runs: "\<forall>r \<in> set (running job). run_ok m fs n ?c (disk job) r"
    using ok by (simp_all add: job_ok_def)
  have k: "run_ok m fs n ?c (disk job) (running job ! k)" using runs True by simp
  have d: "files_ok dec reducef m fs n d" "later ?c (disk job) ?c d" "run_ok m fs n ?c d r" "reported fs n ?c d rep"
    using workerStep_ok [OF k o(2,1,3) assms(2,3) _ _ w] assms(4,5) o(4) by simp_all
  have done_d: "done_ok fs n ?c d" using done_ok_later [OF o(3) d(2)] .
  have ins: "inputs d = ins" using d(2) o(4) by (simp add: later_def)
  have new: "\<forall>x \<in> set ((running job)[k := r]). run_ok m fs n ?c d x"
    using runs d(2,3) run_ok_later set_update_subset_insert [of "running job" k r] by fastforce
  show ?thesis
  proof (cases rep)
    case None
    then show ?thesis using True w o(1) d(1) done_d ins new by (simp add: jobStep_def job_ok_def)
  next
    case (Some a)
    then obtain c' where c': "MarkTaskDone a ?c = Some c'" "coord_ok fs n c'" "done_ok fs n c' d" "later ?c d c' d"
      using report_ok [OF o(1) done_d] d(4) by blast
    then show ?thesis using True w Some d(1) ins new run_ok_later by (fastforce simp: jobStep_def job_ok_def)
  qed
next
  case False
  then show ?thesis using ok by (simp add: jobStep_def)
qed

lemma jobSteps_ok:
  assumes "job_ok dec reducef m fs n ins job" "0 < n" "map_results m fs ins" "kept enc dec m fs ins" "list_all (clean legal) evs"
  shows "\<exists>job'. jobSteps srt mapf reducef enc dec evs job = Some job' \<and> job_ok dec reducef m fs n ins job'"
  using assms(1,5)
proof (induction evs arbitrary: job)
  case (Cons ev evs)
  have "\<exists>job1. jobStep srt mapf reducef enc dec ev job = Some job1 \<and> job_ok dec reducef m fs n ins job1"
  proof (cases ev)
    case (Request now)
    then show ?thesis using request_ok [OF Cons.prems(1)] by simp
  next
    case (Advance k seed renamed)
    then show ?thesis using advance_ok [OF Cons.prems(1) assms(2) _ assms(3,4)] Cons.prems(2) by (simp add: clean_def)
  qed
  then show ?case using Cons by fastforce
qed simp

end

interpretation wc_engine: mr_engine "sort_key Key" "wcMap isLetter" wcReduce "\<lambda>_. True" for isLetter
  by unfold_locales

interpretation indexer_engine: mr_engine "sort_key Key" "indexerMap isLetter" indexerReduce
    "\<lambda>order. \<forall>m. finite m \<longrightarrow> distinct (order m) \<and> set (order m) = m" for isLetter
  by unfold_locales

interpretation crash_engine: mr_engine "sort_key Key" crashMap crashReduce "\<lambda>_. True"
  by unfold_locales

interpretation early_exit_engine: mr_engine "sort_key Key" earlyExitMap earlyExitReduce "\<lambda>_. True"
  by unfold_locales

section \<open>Properties\<close>

lemma sequentialMap_spec:
  "\<forall>f \<in> set fs. ins f \<noteq> None \<Longrightarrow> sequentialMap mapf ins seed r fs acc =
     Some (acc @ concat (map (\<lambda>i. mapf (seed (r + i)) (fs ! i) (the (ins (fs ! i)))) [0..<length fs]))"
proof (induction fs arbitrary: r acc)
  case (Cons f fs)
  then have "[0..<length (f # fs)] = 0 # map Suc [0..<length fs]" by (simp add: map_Suc_upt upt_conv_Cons del: upt_Suc)
  then show ?case using Cons by (auto simp: comp_def simp del: upt_Suc)
qed simp

lemma refPairs_bucket: "refPairs m n k j = bucketOf n j (concat (map m [0..<k]))"
  by (induction k) (simp_all add: refPairs_def refInter_def bucketOf_def)

context mr_engine
begin

lemma map_results_of_seeds:
  assumes "\<And>r. legal (seed r)"
  shows "map_results (\<lambda>i. mapf (seed i) (fs ! i) (the (ins (fs ! i)))) fs ins"
  unfolding map_results_def using assms mapf_order by auto

lemma finished_files:
  assumes "job_ok dec reducef m fs n ins job" "Done (coord job)"
  shows "\<forall>f \<in> set fs. ins f \<noteq> None"
    and "\<forall>i < n. outs (disk job) (outName i) = Some (refOutput reducef (refPairs m n (length fs) i))"
proof -
  have c: "coord_ok fs n (coord job)" and d: "done_ok fs n (coord job) (disk job)" and f: "files_ok dec reducef m fs n (disk job)"
    and ins: "inputs (disk job) = ins" using assms(1) by (simp_all add: job_ok_def)
  have r: "0 < n" "\<forall>i < n. Statu (reduceTasks (coord job) ! i) = Completed"
    using c assms(2) by (simp_all add: coord_ok_def tasks_ok_def Done_def)
  then have "mapdone (coord job)" using d by (auto simp: done_ok_def)
  then have "\<forall>i < length fs. Statu (mapTasks (coord job) ! i) = Completed" using c by (simp add: coord_ok_def tasks_ok_def)
  then show "\<forall>f \<in> set fs. ins f \<noteq> None" using d ins by (auto simp: done_ok_def in_set_conv_nth)
  show "\<forall>i < n. outs (disk job) (outName i) = Some (refOutput reducef (refPairs m n (length fs) i))"
  proof (intro allI impI)
    fix i assume i: "i < n"
    then obtain v where "outs (disk job) (outName i) = Some v" using r(2) d by (auto simp: done_ok_def)
    then show "outs (disk job) (outName i) = Some (refOutput reducef (refPairs m n (length fs) i))"
      using f i by (simp add: files_ok_def)
  qed
qed

lemma job_result:
  assumes "0 < n" and "list_all (clean legal) evs" and "\<And>r. legal (seed r)"
    and json: "\<And>i content r kv. i < length fs \<Longrightarrow> ins (fs ! i) = Some content \<Longrightarrow> legal r \<Longrightarrow>
      kv \<in> set (mapf r (fs ! i) content) \<Longrightarrow> survives enc dec kv"
  shows "\<exists>job. jobSteps srt mapf reducef enc dec evs (startJob fs n ins) = Some job \<and>
     (Done (coord job) \<longrightarrow>
        (\<exists>out. mrsequential srt mapf reducef ins seed fs = Some out \<and>
           (\<forall>i < n. outs (disk job) (outName i) \<noteq> None) \<and>
           mset (concat (map (\<lambda>i. the (outs (disk job) (outName i))) [0..<n])) = mset out))"
proof -
  let ?m = "\<lambda>i. mapf (seed i) (fs ! i) (the (ins (fs ! i)))"
  let ?all = "concat (map ?m [0..<length fs])"
  have keep: "kept enc dec ?m fs ins" unfolding kept_def
  proof (intro allI impI ballI)
    fix i kv assume i: "i < length fs" "ins (fs ! i) \<noteq> None" "kv \<in> set (?m i)"
    then obtain content where c: "ins (fs ! i) = Some content" by auto
    show "survives enc dec kv" by (rule json [OF i(1) c assms(3) [of i]]) (use i(3) c in simp)
  qed
  obtain job where job: "jobSteps srt mapf reducef enc dec evs (startJob fs n ins) = Some job" "job_ok dec reducef ?m fs n ins job"
    using jobSteps_ok [OF startJob_ok assms(1) map_results_of_seeds keep assms(2)] assms(3) by blast
  have "mrsequential srt mapf reducef ins seed fs = Some (refOutput reducef ?all) \<and>
      (\<forall>i < n. outs (disk job) (outName i) \<noteq> None) \<and>
      mset (concat (map (\<lambda>i. the (outs (disk job) (outName i))) [0..<n])) = mset (refOutput reducef ?all)"
    if fin: "Done (coord job)"
  proof -
    note ff = finished_files [OF job(2) fin]
    have "reduceLoop reducef (srt ?all) 0 = refOutput reducef ?all"
      using reduce_refOutput [OF reducef_order refl] by (simp add: reduceOutput_def)
    then have "mrsequential srt mapf reducef ins seed fs = Some (refOutput reducef ?all)"
      using sequentialMap_spec [OF ff(1), of mapf seed 0 "[]"] by (simp add: mrsequential_def)
    moreover have eq: "map (\<lambda>i. the (outs (disk job) (outName i))) [0..<n] = map (\<lambda>i. refOutput reducef (bucketOf n i ?all)) [0..<n]"
      using ff(2) by (simp add: refPairs_bucket)
    have "mset (concat (map (\<lambda>i. the (outs (disk job) (outName i))) [0..<n])) = mset (refOutput reducef ?all)"
      unfolding eq by (rule refOutput_split [OF assms(1)])
    ultimately show ?thesis using ff(2) by blast
  qed
  then show ?thesis using job(1) by blast
qed

end

text \<open>C10: a distributed job computes what the sequential program computes, for an application whose
  results do not depend on the orders that Go leaves open (\<open>mr_engine\<close>: the order of the values
  handed to Reduce and the order of the pairs that Map returns), whose pairs survive the JSON
  encoding of the intermediate files, and in runs in which every renaming succeeds (\<open>clean\<close>).
  Whatever the number of workers, the order in which they request and execute their steps, the tasks that are
  handed out several times, the workers that stop in the middle or die before they report,
  and the orders in which Go iterates over maps and sorts equal keys: the coordinator never
  panics, and when it says that the job is done, all output files exist and together hold
  exactly the lines of the output of \<^verbatim>\<open>mrsequential\<close>.\<close>

theorem mr_job_equals_sequential:
  assumes "mr_engine srt mapf reducef legal" and "0 < n" and "list_all (clean legal) evs" and "\<And>r. legal (seed r)"
    and "\<And>i content r kv. i < length fs \<Longrightarrow> ins (fs ! i) = Some content \<Longrightarrow> legal r \<Longrightarrow>
      kv \<in> set (mapf r (fs ! i) content) \<Longrightarrow> survives enc dec kv"
  shows "\<exists>job. jobSteps srt mapf reducef enc dec evs (startJob fs n ins) = Some job \<and>
     (Done (coord job) \<longrightarrow>
        (\<exists>out. mrsequential srt mapf reducef ins seed fs = Some out \<and>
           (\<forall>i < n. outs (disk job) (outName i) \<noteq> None) \<and>
           mset (concat (map (\<lambda>i. the (outs (disk job) (outName i))) [0..<n])) = mset out))"
  by (rule mr_engine.job_result [OF assms])

text \<open>C40: no task is lost. In every state of the coordinator of a job with at least one input file and
  one reduce task, as long as the job is not done, a worker that asks when every task in
  progress was started more than ten seconds ago gets a task that is not completed, and gets
  a reduce task only when all map tasks are completed; so workers that stop never block the
  job.\<close>

theorem mr_progress:
  assumes "coord_ok fs n c" and "fs \<noteq> []" and "0 < n" and "\<not> Done c"
    and "list_all (\<lambda>ti. Statu ti = Inprogress \<longrightarrow> now - StartTime ti > timeout) (mapTasks c @ reduceTasks c)"
    and "AssignTask now c = (c', t)"
  shows "coord_ok fs n c' \<and>
     ((\<exists>i < length fs. t = mapTaskOf fs n i \<and> Statu (mapTasks c ! i) \<noteq> Completed \<and> Statu (mapTasks c' ! i) = Inprogress) \<or>
      (\<exists>i < n. t = reduceTaskOf fs n i \<and> Statu (reduceTasks c ! i) \<noteq> Completed \<and> Statu (reduceTasks c' ! i) = Inprogress \<and>
         allCompleted (mapTasks c)))"
proof -
  have len: "length (mapTasks c) = length fs" "length (reduceTasks c) = n"
    and md: "mapdone c \<longleftrightarrow> (\<forall>i < length fs. Statu (mapTasks c ! i) = Completed)"
    and rd: "reducedone c \<longleftrightarrow> (\<forall>i < n. Statu (reduceTasks c ! i) = Completed)"
    using assms(1-3) by (auto simp: coord_ok_def tasks_ok_def)
  have open_m: "assignable now (mapTasks c ! i)" if "i < length fs" "Statu (mapTasks c ! i) \<noteq> Completed" for i
    using that assms(5) len by (cases "Statu (mapTasks c ! i)") (auto simp: assignable_def list_all_iff)
  have open_r: "assignable now (reduceTasks c ! i)" if "i < n" "Statu (reduceTasks c ! i) \<noteq> Completed" for i
    using that assms(5) len by (cases "Statu (reduceTasks c ! i)") (auto simp: assignable_def list_all_iff)
  show ?thesis
    using assms(1,6)
  proof (cases rule: AssignTask_cases)
    case (map_phase i)
    then show ?thesis using AssignTask_ok [OF assms(1,6)] assignable_open len by auto
  next
    case (reduce_phase i)
    then show ?thesis using AssignTask_ok [OF assms(1,6)] assignable_open len md by (auto simp: allCompleted_iff)
  next
    case wait
    then show ?thesis using md rd open_m open_r by (auto split: if_splits)
  next
    case exit
    then show ?thesis using assms(4) by (simp add: Done_def)
  qed
qed

theorem mr_progress_witness:
  "coord_ok [''x'', ''y''] 2 (fst (AssignTask 20000 (fst (AssignTask 5 (MakeCoordinator [''x'', ''y''] 2))))) \<and>
   snd (AssignTask 20000 (fst (AssignTask 5 (MakeCoordinator [''x'', ''y''] 2)))) = mapTaskOf [''x'', ''y''] 2 0"
proof -
  let ?c = "fst (AssignTask 5 (MakeCoordinator [''x'', ''y''] 2))"
  have ok: "coord_ok [''x'', ''y''] 2 ?c" using AssignTask_ok [OF MakeCoordinator_ok] by (metis prod.collapse)
  have h: "\<not> Done ?c" "list_all (\<lambda>ti. Statu ti = Inprogress \<longrightarrow> 20000 - StartTime ti > timeout) (mapTasks ?c @ reduceTasks ?c)"
    "snd (AssignTask 20000 ?c) = mapTaskOf [''x'', ''y''] 2 0" by code_simp+
  have ne: "[''x'', ''y''] \<noteq> []" "0 < (2 :: nat)" by simp_all
  show ?thesis using mr_progress [OF ok ne h(1,2) prod.collapse [symmetric]] h(3) by blast
qed

text \<open>The words of a text with the blank as the only separator, counted by two workers; the first
  one is given up in the middle of its map task.\<close>

definition exampleEvents :: "unit jobEvent list" where
  "exampleEvents =
     [Request 1, Advance 0 () True, Advance 0 () True,
      Request 20000, Advance 1 () True, Advance 1 () True, Advance 1 () True, Advance 1 () True,
      Request 20001, Request 20002, Advance 2 () True, Advance 3 () True, Advance 2 () True, Advance 3 () True,
      Advance 3 () True, Advance 3 () True, Advance 2 () True, Advance 2 () True]"

text \<open>A line of a file: the pair with its fields in quotes, if there is no quote in them.\<close>

definition exampleEnc :: "KeyValue \<Rightarrow> string option" where
  "exampleEnc kv =
     (if CHR 34 \<in> set (Key kv @ Value kv) then None
      else Some (CHR 34 # Key kv @ CHR 34 # CHR 34 # Value kv @ [CHR 34]))"

definition exampleDec :: "string \<Rightarrow> KeyValue option" where
  "exampleDec j =
     (let k = takeWhile (\<lambda>c. c \<noteq> CHR 34) (drop 1 j); rest = drop (length k + 3) j
      in if length j < length k + 4 then None else Some \<lparr>Key = k, Value = butlast rest\<rparr>)"

lemma example_survives: "list_all (survives exampleEnc exampleDec) (wcMap (\<lambda>c. c \<noteq> CHR '' '') u ''in'' ''b a b'')"
  by code_simp

definition exampleJob :: "string Job option" where
  "exampleJob = jobSteps (sort_key Key) (wcMap (\<lambda>c. c \<noteq> CHR '' '')) wcReduce exampleEnc exampleDec exampleEvents
     (startJob [''in''] 2 [''in'' \<mapsto> ''b a b''])"

lemma exampleJob_done:
  "map_option (\<lambda>job. (Done (coord job), outs (disk job) ''mr-out-0'', outs (disk job) ''mr-out-1'')) exampleJob =
     Some (True, Some [''a 1''], Some [''b 2''])"
  by code_simp

theorem mr_job_equals_sequential_witness:
  "\<exists>job out. exampleJob = Some job \<and> Done (coord job) \<and>
     mrsequential (sort_key Key) (wcMap (\<lambda>c. c \<noteq> CHR '' '')) wcReduce [''in'' \<mapsto> ''b a b''] (\<lambda>_. ()) [''in''] = Some out \<and>
     mset (the (outs (disk job) (outName 0)) @ the (outs (disk job) (outName 1))) = mset out \<and> out = [''a 1'', ''b 2'']"
proof -
  have "list_all (clean (\<lambda>_. True)) exampleEvents" by (simp add: exampleEvents_def clean_def)
  moreover obtain job where job: "exampleJob = Some job" "Done (coord job)" using exampleJob_done by auto
  moreover have "mrsequential (sort_key Key) (wcMap (\<lambda>c. c \<noteq> CHR '' '')) wcReduce [''in'' \<mapsto> ''b a b''] (\<lambda>_. ()) [''in''] =
      Some [''a 1'', ''b 2'']" by code_simp
  moreover have "[0..<2] = [0, 1 :: nat]" by (simp add: upt_rec)
  moreover have "survives exampleEnc exampleDec kv"
    if "i < length [''in'']" "[''in'' \<mapsto> ''b a b''] ([''in''] ! i) = Some content"
      "kv \<in> set (wcMap (\<lambda>c. c \<noteq> CHR '' '') r ([''in''] ! i) content)" for i content r kv
    using that example_survives [of r] by (simp add: list_all_iff)
  ultimately show ?thesis
    using mr_job_equals_sequential [OF wc_engine.mr_engine_axioms [of "\<lambda>c. c \<noteq> CHR '' ''"], where n = 2 and evs = exampleEvents and
        fs = "[''in'']" and ins = "[''in'' \<mapsto> ''b a b'']" and seed = "\<lambda>_. ()" and enc = exampleEnc and dec = exampleDec]
    by (auto simp: exampleJob_def)
qed

text \<open>A failed renaming loses data silently. \<^verbatim>\<open>Worker\<close> only logs the error of \<^verbatim>\<open>os.Rename\<close> and then
  reports the task as done: when the renaming of an intermediate file fails, the coordinator
  ends the job and lines are missing from the output.\<close>

lemma failed_rename_loses_output:
  "\<exists>job. jobSteps (sort_key Key) (wcMap (\<lambda>c. c \<noteq> CHR '' '')) wcReduce exampleEnc exampleDec
       [Request 1, Advance 0 () True, Advance 0 () False, Advance 0 () True,
        Request 2, Advance 1 () True, Advance 1 () True, Advance 1 () True, Advance 1 () True]
       (startJob [''in''] 1 [''in'' \<mapsto> ''b a b'']) = Some job \<and>
     Done (coord job) \<and> outs (disk job) (outName 0) = Some [] \<and>
     mrsequential (sort_key Key) (wcMap (\<lambda>c. c \<noteq> CHR '' '')) wcReduce [''in'' \<mapsto> ''b a b''] (\<lambda>_. ()) [''in''] =
       Some [''a 1'', ''b 2'']"
proof -
  have "map_option (\<lambda>job. (Done (coord job), outs (disk job) (outName 0)))
      (jobSteps (sort_key Key) (wcMap (\<lambda>c. c \<noteq> CHR '' '')) wcReduce exampleEnc exampleDec
         [Request 1, Advance 0 () True, Advance 0 () False, Advance 0 () True,
          Request 2, Advance 1 () True, Advance 1 () True, Advance 1 () True, Advance 1 () True]
         (startJob [''in''] 1 [''in'' \<mapsto> ''b a b''])) = Some (True, Some [])"
    by code_simp
  moreover have "mrsequential (sort_key Key) (wcMap (\<lambda>c. c \<noteq> CHR '' '')) wcReduce [''in'' \<mapsto> ''b a b''] (\<lambda>_. ()) [''in''] =
      Some [''a 1'', ''b 2'']" by code_simp
  ultimately show ?thesis by (auto simp only: map_option_eq_Some prod.inject)
qed

end
