(* ===== verification/Mr_Probes.thy ===== *)
theory Mr_Probes
  imports Mr_Worker "HOL-Library.Sublist"
begin

text \<open>
  The applications by which the tests of MapReduce look at the workers (\<^verbatim>\<open>mtiming.go\<close>, \<^verbatim>\<open>rtiming.go\<close>,
  \<^verbatim>\<open>jobcount.go\<close>, \<^verbatim>\<open>crash.go\<close> and \<^verbatim>\<open>nocrash.go\<close> of \<^verbatim>\<open>src/mrapps\<close>): they leave files in the current
  directory and count the files of others. The directory is the list of its file names in
  the order in which the system lists them, and \<open>sig0\<close> says to which process ids the signal 0
  can be sent. \<open>None\<close> is a panic.
\<close>

section \<open>Numbers in names\<close>

definition isDigit :: "char \<Rightarrow> bool" where
  "isDigit c = (48 \<le> (of_char c :: nat) \<and> (of_char c :: nat) \<le> 57)"

definition decimal :: "string \<Rightarrow> nat" where
  "decimal cs = foldl (\<lambda>v c. v * 10 + (of_char c - 48)) 0 cs"

text \<open>\<^verbatim>\<open>%d\<close> of \<^verbatim>\<open>fmt.Sscanf\<close>: blanks, a sign, digits; what follows is not looked at. A number that
  does not fit is an error.\<close>

definition scanDigits :: "string \<Rightarrow> nat option" where
  "scanDigits s = (let ds = takeWhile isDigit s in if ds = [] then None else Some (decimal ds))"

definition scanInt :: "string \<Rightarrow> int option" where
  "scanInt s =
     (case dropWhile (\<lambda>c. c = CHR '' '' \<or> c = CHR 0x09) s of
        [] \<Rightarrow> None
      | c # cs \<Rightarrow> do {
          v \<leftarrow> (if c = CHR ''-'' then map_option (\<lambda>n. - int n) (scanDigits cs)
               else if c = CHR ''+'' then map_option int (scanDigits cs)
               else map_option int (scanDigits (c # cs)));
          if - (2 ^ 63) \<le> v \<and> v < 2 ^ 63 then Some v else None
        })"

definition scanName :: "string \<Rightarrow> string \<Rightarrow> int option" where
  "scanName pat name = (if prefix pat name then scanInt (drop (length pat) name) else None)"

lemma isDigit_digit: "d < 10 \<Longrightarrow> isDigit (digit d)" and of_char_digit: "d < 10 \<Longrightarrow> (of_char (digit d) :: nat) = 48 + d"
  by (simp_all add: isDigit_def digit_def)

lemma decimal_snoc: "decimal (cs @ [c]) = decimal cs * 10 + (of_char c - 48)"
  by (simp add: decimal_def)

lemma itoa_digits: "\<forall>c \<in> set (itoa n). isDigit c"
proof (induction n rule: itoa.induct)
  case (1 n)
  then show ?case using isDigit_digit by (subst itoa.simps) auto
qed

lemma decimal_itoa: "decimal (itoa n) = n"
proof (induction n rule: itoa.induct)
  case (1 n)
  show ?case
  proof (cases "n < 10")
    case True
    then show ?thesis using of_char_digit by (simp add: itoa_small decimal_def)
  next
    case False
    then show ?thesis using 1 of_char_digit [of "n mod 10"] by (simp add: itoa_large decimal_snoc)
  qed
qed

lemma scanInt_itoa:
  assumes "n < 2 ^ 63"
  shows "scanInt (itoa n) = Some (int n)"
proof -
  obtain c cs where c: "itoa n = c # cs" using itoa_ne by (meson neq_Nil_conv)
  then have "isDigit c" using itoa_digits [of n] by simp
  then have ne: "c \<noteq> CHR ''-''" "c \<noteq> CHR ''+''" "c \<noteq> CHR '' ''" "c \<noteq> CHR 0x09" by (auto simp: isDigit_def)
  have "takeWhile isDigit (itoa n) = itoa n" using itoa_digits [of n] by (simp add: takeWhile_eq_all_conv)
  then have "scanDigits (c # cs) = Some n" using decimal_itoa [of n] itoa_ne by (simp add: scanDigits_def c)
  then show ?thesis using assms ne by (simp add: scanInt_def c)
qed

section \<open>mtiming and rtiming\<close>

text \<open>\<^verbatim>\<open>nparallel\<close> is two steps: the process writes its file, reads the directory and counts; after
  a second it removes its file.\<close>

definition probeName :: "string \<Rightarrow> nat \<Rightarrow> string" where
  "probeName phase pid = ''mr-worker-'' @ phase @ ''-'' @ itoa pid"

definition nparallelEnter :: "(int \<Rightarrow> bool) \<Rightarrow> string \<Rightarrow> nat \<Rightarrow> string list \<Rightarrow> string list \<times> nat" where
  "nparallelEnter sig0 phase pid dir =
     (let myfilename = probeName phase pid;
          dir1 = (if myfilename \<in> set dir then dir else dir @ [myfilename]);
          names = take 1000000 dir1;
          pat = ''mr-worker-'' @ phase @ ''-''
      in (dir1, foldl (\<lambda>ret name. case scanName pat name of Some xpid \<Rightarrow> if sig0 xpid then ret + 1 else ret | None \<Rightarrow> ret) 0 names))"

definition nparallelLeave :: "string \<Rightarrow> nat \<Rightarrow> string list \<Rightarrow> string list option" where
  "nparallelLeave phase pid dir =
     (let myfilename = probeName phase pid
      in if myfilename \<in> set dir then Some (filter (\<lambda>n. n \<noteq> myfilename) dir) else None)"

text \<open>\<open>others\<close> is what the other processes do to the directory while this one sleeps.\<close>

definition nparallel :: "(int \<Rightarrow> bool) \<Rightarrow> string \<Rightarrow> nat \<Rightarrow> (string list \<Rightarrow> string list) \<Rightarrow> string list \<Rightarrow> (string list \<times> nat) option" where
  "nparallel sig0 phase pid others dir =
     (let (dir1, ret) = nparallelEnter sig0 phase pid dir
      in map_option (\<lambda>dir2. (dir2, ret)) (nparallelLeave phase pid (others dir1)))"

text \<open>\<open>stamp\<close> is the time as it is printed.\<close>

definition mtimingMap :: "string \<Rightarrow> (int \<Rightarrow> bool) \<Rightarrow> nat \<Rightarrow> (string list \<Rightarrow> string list) \<Rightarrow> string list \<Rightarrow> (string list \<times> KeyValue list) option" where
  "mtimingMap stamp sig0 pid others dir = do {
     (dir', n) \<leftarrow> nparallel sig0 ''map'' pid others dir;
     Some (dir', [\<lparr>Key = ''times-'' @ itoa pid, Value = stamp\<rparr>, \<lparr>Key = ''parallel-'' @ itoa pid, Value = itoa n\<rparr>])
   }"

definition mtimingReduce :: "string \<Rightarrow> string list \<Rightarrow> string" where
  "mtimingReduce key values = joinStrings '' '' (sort values)"

definition rtimingMap :: "string \<Rightarrow> string \<Rightarrow> KeyValue list" where
  "rtimingMap filename contents =
     [\<lparr>Key = ''a'', Value = ''1''\<rparr>, \<lparr>Key = ''b'', Value = ''1''\<rparr>, \<lparr>Key = ''c'', Value = ''1''\<rparr>, \<lparr>Key = ''d'', Value = ''1''\<rparr>,
      \<lparr>Key = ''e'', Value = ''1''\<rparr>, \<lparr>Key = ''f'', Value = ''1''\<rparr>, \<lparr>Key = ''g'', Value = ''1''\<rparr>, \<lparr>Key = ''h'', Value = ''1''\<rparr>,
      \<lparr>Key = ''i'', Value = ''1''\<rparr>, \<lparr>Key = ''j'', Value = ''1''\<rparr>]"

definition rtimingReduce :: "(int \<Rightarrow> bool) \<Rightarrow> nat \<Rightarrow> (string list \<Rightarrow> string list) \<Rightarrow> string list \<Rightarrow> (string list \<times> string) option" where
  "rtimingReduce sig0 pid others dir = do {
     (dir', n) \<leftarrow> nparallel sig0 ''reduce'' pid others dir;
     Some (dir', itoa n)
   }"

section \<open>jobcount\<close>

definition jobName :: "nat \<Rightarrow> nat \<Rightarrow> string" where
  "jobName me cnt = ''mr-worker-jobcount-'' @ itoa me @ ''-'' @ itoa cnt"

text \<open>\<open>counts\<close> is the variable \<^verbatim>\<open>count\<close> of every process.\<close>

definition jobcountMap :: "nat \<Rightarrow> (nat \<Rightarrow> nat) \<times> string list \<Rightarrow> ((nat \<Rightarrow> nat) \<times> string list) \<times> KeyValue list" where
  "jobcountMap me = (\<lambda>(counts, dir).
     let f = jobName me (counts me)
     in ((counts(me := counts me + 1), if f \<in> set dir then dir else dir @ [f]), [\<lparr>Key = ''a'', Value = ''x''\<rparr>]))"

definition jobcountReduce :: "string list \<Rightarrow> string" where
  "jobcountReduce dir =
     itoa (foldl (\<lambda>invocations f. if prefix ''mr-worker-jobcount'' f then invocations + 1 else invocations) 0 dir)"

section \<open>crash and nocrash\<close>

datatype crashChoice = CrashExit | CrashSleep int | CrashGoOn

text \<open>\<open>rr\<close> and \<open>ms\<close> are the random numbers.\<close>

definition maybeCrash :: "int \<Rightarrow> int \<Rightarrow> crashChoice" where
  "maybeCrash rr ms = (if rr < 330 then CrashExit else if rr < 660 then CrashSleep ms else CrashGoOn)"

definition nocrashMaybe :: "int \<Rightarrow> crashChoice" where
  "nocrashMaybe rr = (if False \<and> rr < 500 then CrashExit else CrashGoOn)"

definition nocrashMap :: "int \<Rightarrow> string \<Rightarrow> string \<Rightarrow> KeyValue list option" where
  "nocrashMap rr filename contents =
     (case nocrashMaybe rr of
        CrashExit \<Rightarrow> None
      | _ \<Rightarrow> Some [\<lparr>Key = ''a'', Value = filename\<rparr>, \<lparr>Key = ''b'', Value = itoa (length filename)\<rparr>,
                  \<lparr>Key = ''c'', Value = itoa (length contents)\<rparr>, \<lparr>Key = ''d'', Value = ''xyzzy''\<rparr>])"

definition nocrashReduce :: "int \<Rightarrow> string \<Rightarrow> string list \<Rightarrow> string option" where
  "nocrashReduce rr key values =
     (case nocrashMaybe rr of CrashExit \<Rightarrow> None | _ \<Rightarrow> Some (joinStrings '' '' (sort values)))"

text \<open>The application that does not crash is the other one, whatever the random numbers.\<close>

lemma nocrash_crash: "nocrashMap rr f c = Some (crashMap () f c)" "nocrashReduce rr k vs = Some (crashReduce k vs)"
  by (simp_all add: nocrashMap_def nocrashReduce_def nocrashMaybe_def crashMap_def crashReduce_def)

section \<open>What the timing applications report\<close>

lemma foldl_count: "foldl (\<lambda>n x. if P x then n + 1 else n) (k :: nat) xs = k + length (filter P xs)"
  by (induction xs arbitrary: k) auto

lemma probeName_inj: "probeName phase a = probeName phase b \<longleftrightarrow> a = b"
  using itoa_inj by (auto simp: probeName_def)

lemma scanName_append: "scanName pat (pat @ s) = scanInt s"
  by (simp add: scanName_def)

lemma scan_probeName:
  assumes "pid < 2 ^ 63"
  shows "scanName (''mr-worker-'' @ phase @ ''-'') (probeName phase pid) = Some (int pid)"
proof -
  have "probeName phase pid = (''mr-worker-'' @ phase @ ''-'') @ itoa pid" by (simp add: probeName_def)
  then show ?thesis using scanInt_itoa [OF assms] scanName_append by metis
qed

text \<open>Workers of one phase: who has written its file and not removed it, and who is alive. A process
  that dies leaves its file behind.\<close>

record Probe =
  pDir :: "string list"
  pInside :: "nat set"
  pLive :: "nat set"

datatype probeEvent = Enter nat | Leave nat | Die nat

definition probeStep :: "string \<Rightarrow> probeEvent \<Rightarrow> Probe \<Rightarrow> Probe option" where
  "probeStep phase ev p =
     (case ev of
        Enter pid \<Rightarrow>
          if pid \<in> pLive p \<and> pid \<notin> pInside p
          then Some (p\<lparr>pDir := fst (nparallelEnter (\<lambda>x. x \<in> int ` pLive p) phase pid (pDir p)), pInside := insert pid (pInside p)\<rparr>)
          else Some p
      | Leave pid \<Rightarrow>
          if pid \<in> pLive p \<and> pid \<in> pInside p
          then map_option (\<lambda>d. p\<lparr>pDir := d, pInside := pInside p - {pid}\<rparr>) (nparallelLeave phase pid (pDir p))
          else Some p
      | Die pid \<Rightarrow> Some (p\<lparr>pLive := pLive p - {pid}\<rparr>))"

fun probeSteps :: "string \<Rightarrow> probeEvent list \<Rightarrow> Probe \<Rightarrow> Probe option" where
  "probeSteps phase [] p = Some p"
| "probeSteps phase (ev # evs) p = do { p1 \<leftarrow> probeStep phase ev p; probeSteps phase evs p1 }"

definition scanned :: "string \<Rightarrow> string list \<Rightarrow> string set" where
  "scanned phase dir = {n \<in> set dir. scanName (''mr-worker-'' @ phase @ ''-'') n \<noteq> None}"

definition probe_ok :: "string \<Rightarrow> Probe \<Rightarrow> bool" where
  "probe_ok phase p \<longleftrightarrow> distinct (pDir p) \<and> scanned phase (pDir p) = probeName phase ` pInside p \<and> finite (pInside p) \<and>
     (\<forall>pid \<in> pLive p \<union> pInside p. pid < 2 ^ 63)"

lemma probeStep_ok:
  assumes ok: "probe_ok phase p"
  shows "\<exists>p'. probeStep phase ev p = Some p' \<and> probe_ok phase p'"
proof (cases ev)
  case (Enter pid)
  show ?thesis
  proof (cases "pid \<in> pLive p \<and> pid \<notin> pInside p")
    case True
    then have "scanName (''mr-worker-'' @ phase @ ''-'') (probeName phase pid) \<noteq> None" using scan_probeName ok by (simp add: probe_ok_def)
    then have "scanned phase (fst (nparallelEnter sig0 phase pid (pDir p))) = insert (probeName phase pid) (scanned phase (pDir p))" for sig0
      by (auto simp: nparallelEnter_def Let_def scanned_def)
    then show ?thesis using True ok Enter by (auto simp: probeStep_def probe_ok_def nparallelEnter_def Let_def)
  qed (use Enter ok in \<open>auto simp: probeStep_def\<close>)
next
  case (Leave pid)
  show ?thesis
  proof (cases "pid \<in> pLive p \<and> pid \<in> pInside p")
    case True
    have sc: "scanned phase (pDir p) = probeName phase ` pInside p" using ok by (simp add: probe_ok_def)
    then have m: "probeName phase pid \<in> set (pDir p)" using True by (auto simp: scanned_def)
    have "scanned phase (filter (\<lambda>n. n \<noteq> probeName phase pid) (pDir p)) = scanned phase (pDir p) - {probeName phase pid}"
      by (auto simp: scanned_def)
    also have "\<dots> = probeName phase ` (pInside p - {pid})" unfolding sc by (auto simp: probeName_inj)
    finally show ?thesis using True m ok Leave by (auto simp: probeStep_def probe_ok_def nparallelLeave_def Let_def)
  qed (use Leave ok in \<open>auto simp: probeStep_def\<close>)
next
  case (Die pid)
  then show ?thesis using ok by (auto simp: probeStep_def probe_ok_def)
qed

lemma probeSteps_ok: "probe_ok phase p \<Longrightarrow> \<exists>p'. probeSteps phase evs p = Some p' \<and> probe_ok phase p'"
proof (induction evs arbitrary: p)
  case (Cons ev evs)
  then obtain p1 where "probeStep phase ev p = Some p1" "probe_ok phase p1" using probeStep_ok by blast
  then show ?case using Cons.IH by simp
qed simp

text \<open>What a worker reports: the number of live workers that are executing a task of the phase when it
  looks, itself included. Files of workers that died are not counted, and no process panics when
  it removes its file.\<close>

lemma nparallel_counts_live:
  assumes ok: "probe_ok phase p" and pid: "pid \<in> pLive p" "pid \<notin> pInside p" and len: "length (pDir p) < 1000000"
  shows "snd (nparallelEnter (\<lambda>x. x \<in> int ` pLive p) phase pid (pDir p)) = card (insert pid (pInside p) \<inter> pLive p)"
proof -
  let ?pat = "''mr-worker-'' @ phase @ ''-''" let ?sig = "\<lambda>x. x \<in> int ` pLive p" let ?I = "insert pid (pInside p)"
  let ?dir = "fst (nparallelEnter ?sig phase pid (pDir p))"
  let ?P = "\<lambda>name. case scanName ?pat name of Some xpid \<Rightarrow> ?sig xpid | None \<Rightarrow> False"
  obtain p' where "probeStep phase (Enter pid) p = Some p'" and ok': "probe_ok phase p'" using probeStep_ok [OF ok] by blast
  then have p': "pDir p' = ?dir" "pInside p' = ?I" using pid by (auto simp: probeStep_def)
  have d: "distinct ?dir" "scanned phase ?dir = probeName phase ` ?I" "finite ?I" "\<And>q. q \<in> ?I \<Longrightarrow> q < 2 ^ 63"
    using ok' p' by (auto simp: probe_ok_def)
  have t: "take 1000000 ?dir = ?dir" using len by (simp add: nparallelEnter_def Let_def)
  have "snd (nparallelEnter ?sig phase pid (pDir p)) =
      foldl (\<lambda>ret name. case scanName ?pat name of Some xpid \<Rightarrow> if ?sig xpid then ret + 1 else ret | None \<Rightarrow> ret) 0 (take 1000000 ?dir)"
    by (simp add: nparallelEnter_def Let_def)
  also have "(\<lambda>ret name. case scanName ?pat name of Some xpid \<Rightarrow> if ?sig xpid then ret + 1 else ret | None \<Rightarrow> ret) =
      (\<lambda>ret name. if ?P name then ret + 1 else ret)" by (intro ext) (auto split: option.split)
  also have "take 1000000 ?dir = ?dir" by (rule t)
  also have "foldl (\<lambda>ret name. if ?P name then ret + 1 else ret) 0 ?dir = length (filter ?P ?dir)" by (simp only: foldl_count add_0)
  also have "\<dots> = card (set (filter ?P ?dir))"
    by (rule distinct_card [symmetric], rule distinct_filter [OF d(1)])
  also have "set (filter ?P ?dir) = {n \<in> scanned phase ?dir. ?P n}" by (auto simp: scanned_def split: option.splits)
  also have "\<dots> = probeName phase ` (?I \<inter> pLive p)"
    unfolding d(2) using scan_probeName [OF d(4)] by auto
  also have "card \<dots> = card (?I \<inter> pLive p)" by (rule card_image) (auto simp: inj_on_def probeName_inj)
  finally show ?thesis .
qed

text \<open>A process whose file nobody else removes gets its answer, and the answer is the number of live
  processes that are in the same phase at the moment it looks.\<close>

lemma nparallel_result:
  assumes "probe_ok phase p" "pid \<in> pLive p" "pid \<notin> pInside p" "length (pDir p) < 1000000"
    and "probeName phase pid \<in> set (others (fst (nparallelEnter (\<lambda>x. x \<in> int ` pLive p) phase pid (pDir p))))"
  shows "\<exists>dir'. nparallel (\<lambda>x. x \<in> int ` pLive p) phase pid others (pDir p) = Some (dir', card (insert pid (pInside p) \<inter> pLive p)) \<and>
    probeName phase pid \<notin> set dir'"
proof -
  let ?e = "nparallelEnter (\<lambda>x. x \<in> int ` pLive p) phase pid (pDir p)"
  have "snd ?e = card (insert pid (pInside p) \<inter> pLive p)" by (rule nparallel_counts_live [OF assms(1-4)])
  then show ?thesis using assms(5) by (simp add: nparallel_def nparallelLeave_def case_prod_beta Let_def)
qed

lemma rtimingReduce_result:
  assumes "probe_ok ''reduce'' p" "pid \<in> pLive p" "pid \<notin> pInside p" "length (pDir p) < 1000000"
    and "probeName ''reduce'' pid \<in> set (others (fst (nparallelEnter (\<lambda>x. x \<in> int ` pLive p) ''reduce'' pid (pDir p))))"
  shows "map_option snd (rtimingReduce (\<lambda>x. x \<in> int ` pLive p) pid others (pDir p)) = Some (itoa (card (insert pid (pInside p) \<inter> pLive p)))"
  using nparallel_result [where others = others, OF assms] by (auto simp: rtimingReduce_def)

section \<open>What jobcount reports\<close>

lemma jobName_inj: "jobName a k = jobName b m \<longleftrightarrow> a = b \<and> k = m"
  using dash_split [of "itoa a" "itoa k" "itoa b" "itoa m"] itoa_no_dash itoa_inj by (auto simp: jobName_def)

definition jobFiles :: "string list \<Rightarrow> string set" where
  "jobFiles dir = {f \<in> set dir. prefix ''mr-worker-jobcount'' f}"

text \<open>Any number of processes run map tasks, in any order: the answer is the number of map tasks that
  were run.\<close>

lemma jobcount_counts:
  assumes "distinct dir" "jobFiles dir = {}"
  shows "jobcountReduce (snd (fold (\<lambda>me st. fst (jobcountMap me st)) mes (\<lambda>_. 0, dir))) = itoa (length mes)"
proof -
  let ?run = "\<lambda>mes. fold (\<lambda>me st. fst (jobcountMap me st)) mes (\<lambda>_. 0, dir)"
  have inv: "distinct (snd (?run mes)) \<and> jobFiles (snd (?run mes)) = {jobName me k | me k. k < fst (?run mes) me} \<and>
      card (jobFiles (snd (?run mes))) = length mes" for mes
  proof (induction mes rule: rev_induct)
    case Nil
    then show ?case using assms by simp
  next
    case (snoc me mes)
    obtain cs d where r: "?run mes = (cs, d)" by fastforce
    have IH: "distinct d" "jobFiles d = {jobName me k | me k. k < cs me}" "card (jobFiles d) = length mes" using snoc r by auto
    let ?f = "jobName me (cs me)"
    have "prefix ''mr-worker-jobcount'' ?f" by (simp add: jobName_def)
    moreover have new: "?f \<notin> set d"
    proof
      assume "?f \<in> set d"
      then have "?f \<in> jobFiles d" using calculation by (simp add: jobFiles_def)
      then show False unfolding IH(2) by (auto simp: jobName_inj)
    qed
    ultimately have j: "jobFiles (d @ [?f]) = insert ?f (jobFiles d)" by (auto simp: jobFiles_def)
    moreover have "insert ?f (jobFiles d) = {jobName a k | a k. k < (cs(me := cs me + 1)) a}"
      unfolding IH(2) by (auto simp: less_Suc_eq split: if_splits)
    moreover have "card (insert ?f (jobFiles d)) = Suc (length mes)"
      using IH(3) new by (subst card_insert_disjoint) (auto simp: jobFiles_def)
    ultimately show ?case using r IH(1) new by (simp add: jobcountMap_def Let_def)
  qed
  have "foldl (\<lambda>n f. if prefix ''mr-worker-jobcount'' f then n + 1 else n) 0 (snd (?run mes)) =
      length (filter (prefix ''mr-worker-jobcount'') (snd (?run mes)))" by (simp only: foldl_count add_0)
  also have "\<dots> = card (jobFiles (snd (?run mes)))"
    using distinct_card [of "filter (prefix ''mr-worker-jobcount'') (snd (?run mes))"] inv [of mes] by (simp add: jobFiles_def)
  also have "\<dots> = length mes" using inv [of mes] by (elim conjE)
  finally show ?thesis by (simp only: jobcountReduce_def)
qed

end
