(* ===== verification/Lab_Rpc.thy ===== *)
theory Lab_Rpc
  imports Prelude "HOL-Library.Word"
begin

text \<open>
  The simulated network (\<^verbatim>\<open>src/labrpc/labrpc.go\<close>) that connects the peers and clerks in the tests.

  \<^item> Servers are objects that are compared by identity: \<open>heap\<close> maps an address to a server and
    \<^verbatim>\<open>servers\<close> maps a name to an address, or to nil after \<^verbatim>\<open>DeleteServer\<close>.
  \<^item> The receivers of the services of a server share one state \<open>'st\<close>. A handler runs in a goroutine
    of its own: it advances by atomic accesses to this state, between which the handlers of
    other calls advance, and it may never return.
  \<^item> Every \<^verbatim>\<open>Call\<close> is an entry of \<open>calls\<close> with the position of its \<^verbatim>\<open>processReq\<close>. A run is a list of
    events: the random numbers, the delays and the scheduling of the goroutines are the
    choice of the events and of their order.
  \<^item> \<open>None\<close> is \<^verbatim>\<open>log.Fatalf\<close> or a panic.
\<close>

type_synonym encoded = "8 word list"

definition SHORTDELAY :: int where "SHORTDELAY = 27"
definition LONGDELAY :: int where "LONGDELAY = 7000"
definition MAXDELAY :: int where "MAXDELAY = LONGDELAY + 100"

record reqMsg =
  endname :: string
  svcMeth :: string
  reqArgs :: encoded

record replyMsg =
  rmOk :: bool
  rmReply :: encoded

definition failure :: replyMsg where
  "failure = \<lparr>rmOk = False, rmReply = []\<rparr>"

section \<open>Services and servers\<close>

text \<open>A handler that was called: it has returned its encoded reply, or it does one more atomic access.\<close>

codatatype 'st handler = HReturn encoded | HAct "'st \<Rightarrow> 'st \<times> 'st handler"

text \<open>A method as reflection describes it.\<close>

record 'st MethodInfo =
  mName :: string
  mPkgPath :: string
  mNumIn :: nat
  mIn2Ptr :: bool
  mNumOut :: nat
  mFunc :: "encoded \<Rightarrow> 'st handler"

record 'st Service =
  svcName :: string
  methods :: "string \<rightharpoonup> (encoded \<Rightarrow> 'st handler)"

fun methodLoop :: "'st MethodInfo list \<Rightarrow> 'st Service \<Rightarrow> 'st Service" where
  "methodLoop [] svc = svc"
| "methodLoop (mt # mts) svc =
     methodLoop mts
       (if mPkgPath mt \<noteq> '''' \<or> mNumIn mt \<noteq> 3 \<or> \<not> mIn2Ptr mt \<or> mNumOut mt \<noteq> 0 then svc
        else svc\<lparr>methods := (methods svc)(mName mt \<mapsto> mFunc mt)\<rparr>)"

definition MakeService :: "string \<Rightarrow> 'st MethodInfo list \<Rightarrow> 'st Service" where
  "MakeService typename mts = methodLoop mts \<lparr>svcName = typename, methods = Map.empty\<rparr>"

text \<open>The call of the method on the decoded arguments.\<close>

definition serviceDispatch :: "string \<Rightarrow> reqMsg \<Rightarrow> 'st Service \<Rightarrow> 'st handler option" where
  "serviceDispatch methname req svc =
     (case methods svc methname of Some function \<Rightarrow> Some (function (reqArgs req)) | None \<Rightarrow> None)"

record 'st Server =
  services :: "string \<rightharpoonup> 'st Service"
  srvCount :: int
  srvState :: 'st

definition MakeServer :: "'st \<Rightarrow> 'st Server" where
  "MakeServer st = \<lparr>services = Map.empty, srvCount = 0, srvState = st\<rparr>"

definition AddService :: "'st Service \<Rightarrow> 'st Server \<Rightarrow> 'st Server" where
  "AddService svc rs = rs\<lparr>services := (services rs)(svcName svc \<mapsto> svc)\<rparr>"

text \<open>\<^verbatim>\<open>strings.LastIndex (_, ".")\<close>.\<close>

fun lastDot :: "nat \<Rightarrow> string \<Rightarrow> nat option \<Rightarrow> nat option" where
  "lastDot i [] r = r"
| "lastDot i (c # cs) r = lastDot (Suc i) cs (if c = CHR ''.'' then Some i else r)"

text \<open>The critical section of \<^verbatim>\<open>dispatch\<close>, which counts the call and finds the service, and the method
  that is called after it, when the mutex is free again.\<close>

definition serverDispatch :: "reqMsg \<Rightarrow> 'st Server \<Rightarrow> ('st Server \<times> 'st handler) option" where
  "serverDispatch req rs =
     (let rs1 = rs\<lparr>srvCount := srvCount rs + 1\<rparr>
      in case lastDot 0 (svcMeth req) None of
           None \<Rightarrow> None
         | Some dot \<Rightarrow>
             (let serviceName = take dot (svcMeth req); methodName = drop (dot + 1) (svcMeth req)
              in case services rs1 serviceName of
                   Some service \<Rightarrow> map_option (\<lambda>h. (rs1, h)) (serviceDispatch methodName req service)
                 | None \<Rightarrow> None))"

section \<open>The network\<close>

record 'st Network =
  reliable :: bool
  longDelays :: bool
  longReordering :: bool
  ends :: "string set"
  enabled :: "string \<rightharpoonup> bool"
  servers :: "string \<rightharpoonup> nat option"
  connections :: "string \<rightharpoonup> string option"
  netDone :: bool
  netCount :: "32 word"
  netBytes :: "64 word"
  heap :: "nat \<Rightarrow> 'st Server"

definition MakeNetwork :: "(nat \<Rightarrow> 'st Server) \<Rightarrow> 'st Network" where
  "MakeNetwork hp =
     \<lparr>reliable = True, longDelays = False, longReordering = False, ends = {}, enabled = Map.empty, servers = Map.empty,
      connections = Map.empty, netDone = False, netCount = 0, netBytes = 0, heap = hp\<rparr>"

text \<open>Closing a closed channel panics.\<close>

definition Cleanup :: "'st Network \<Rightarrow> 'st Network option" where
  "Cleanup rn = (if netDone rn then None else Some (rn\<lparr>netDone := True\<rparr>))"

definition Reliable :: "bool \<Rightarrow> 'st Network \<Rightarrow> 'st Network" where
  "Reliable yes rn = rn\<lparr>reliable := yes\<rparr>"

definition IsReliable :: "'st Network \<Rightarrow> bool" where
  "IsReliable rn = reliable rn"

definition LongReordering :: "bool \<Rightarrow> 'st Network \<Rightarrow> 'st Network" where
  "LongReordering yes rn = rn\<lparr>longReordering := yes\<rparr>"

definition LongDelays :: "bool \<Rightarrow> 'st Network \<Rightarrow> 'st Network" where
  "LongDelays yes rn = rn\<lparr>longDelays := yes\<rparr>"

definition IsLongDelays :: "'st Network \<Rightarrow> bool" where
  "IsLongDelays rn = longDelays rn"

text \<open>Lookups in the maps give the zero value for a missing key.\<close>

definition enabledAt :: "'st Network \<Rightarrow> string \<Rightarrow> bool" where
  "enabledAt rn e = (enabled rn e = Some True)"

definition serverAt :: "'st Network \<Rightarrow> string \<Rightarrow> nat option" where
  "serverAt rn n = (case servers rn n of Some a \<Rightarrow> a | None \<Rightarrow> None)"

definition connectionAt :: "'st Network \<Rightarrow> string \<Rightarrow> string option" where
  "connectionAt rn e = (case connections rn e of Some n \<Rightarrow> n | None \<Rightarrow> None)"

record endInfo =
  eiEnabled :: bool
  eiServername :: "string option"
  eiServer :: "nat option"
  eiReliable :: bool
  eiLongreordering :: bool

definition readEndnameInfo :: "string \<Rightarrow> 'st Network \<Rightarrow> endInfo" where
  "readEndnameInfo e rn =
     (let servername = connectionAt rn e
      in \<lparr>eiEnabled = enabledAt rn e, eiServername = servername,
          eiServer = (case servername of Some n \<Rightarrow> serverAt rn n | None \<Rightarrow> None),
          eiReliable = reliable rn, eiLongreordering = longReordering rn\<rparr>)"

definition isServerDead :: "string \<Rightarrow> string \<Rightarrow> nat \<Rightarrow> 'st Network \<Rightarrow> bool" where
  "isServerDead e n a rn = (if \<not> enabledAt rn e \<or> serverAt rn n \<noteq> Some a then True else False)"

definition MakeEnd :: "string \<Rightarrow> 'st Network \<Rightarrow> 'st Network option" where
  "MakeEnd e rn =
     (if e \<in> ends rn then None
      else Some (rn\<lparr>ends := insert e (ends rn), enabled := (enabled rn)(e \<mapsto> False),
                    connections := (connections rn)(e \<mapsto> None)\<rparr>))"

definition DeleteEnd :: "string \<Rightarrow> 'st Network \<Rightarrow> 'st Network option" where
  "DeleteEnd e rn =
     (if e \<notin> ends rn then None
      else Some (rn\<lparr>ends := ends rn - {e}, enabled := (enabled rn)(e := None),
                    connections := (connections rn)(e := None)\<rparr>))"

definition AddServer :: "string \<Rightarrow> nat \<Rightarrow> 'st Network \<Rightarrow> 'st Network" where
  "AddServer n rs rn = rn\<lparr>servers := (servers rn)(n \<mapsto> Some rs)\<rparr>"

definition DeleteServer :: "string \<Rightarrow> 'st Network \<Rightarrow> 'st Network" where
  "DeleteServer n rn = rn\<lparr>servers := (servers rn)(n \<mapsto> None)\<rparr>"

definition Connect :: "string \<Rightarrow> string \<Rightarrow> 'st Network \<Rightarrow> 'st Network" where
  "Connect e n rn = rn\<lparr>connections := (connections rn)(e \<mapsto> Some n)\<rparr>"

definition Enable :: "string \<Rightarrow> bool \<Rightarrow> 'st Network \<Rightarrow> 'st Network" where
  "Enable e yes rn = rn\<lparr>enabled := (enabled rn)(e \<mapsto> yes)\<rparr>"

text \<open>A nil server panics.\<close>

definition GetCount :: "string \<Rightarrow> 'st Network \<Rightarrow> int option" where
  "GetCount n rn = map_option (\<lambda>a. srvCount (heap rn a)) (serverAt rn n)"

definition GetTotalCount :: "'st Network \<Rightarrow> int" where
  "GetTotalCount rn = sint (netCount rn)"

definition GetTotalBytes :: "'st Network \<Rightarrow> int" where
  "GetTotalBytes rn = sint (netBytes rn)"

definition addBytes :: "encoded \<Rightarrow> 'st Network \<Rightarrow> 'st Network" where
  "addBytes b rn = rn\<lparr>netBytes := netBytes rn + word_of_nat (length b)\<rparr>"

section \<open>Calls\<close>

text \<open>The position of a call: sent to the network; in \<^verbatim>\<open>processReq\<close> before the handler was started;
  handler started on server \<open>a\<close> under name \<open>n\<close>, with the settings read at the beginning; reply
  received and the server found alive; the answer waits for a timer; answered. The handler of
  a call may go on after the call was answered.\<close>

datatype cphase =
    Sent | Ready string nat bool bool | Waiting string nat bool bool | Checked replyMsg bool bool
  | Delayed replyMsg bool | Answered replyMsg

record 'st RpcCall =
  cReq :: reqMsg
  cPhase :: cphase
  cStarted :: "nat option"
  cHandler :: "'st handler option"

text \<open>What the handler has put on \<^verbatim>\<open>ech\<close>.\<close>

definition cRan :: "'st RpcCall \<Rightarrow> replyMsg option" where
  "cRan c = (case cHandler c of Some (HReturn b) \<Rightarrow> Some \<lparr>rmOk = True, rmReply = b\<rparr> | _ \<Rightarrow> None)"

record 'st Rpc =
  net :: "'st Network"
  calls :: "'st RpcCall list"

datatype netOp =
    OpReliable bool | OpLongReordering bool | OpLongDelays bool | OpMakeEnd string | OpDeleteEnd string
  | OpAddServer string nat | OpDeleteServer string | OpConnect string string | OpEnable string bool | OpCleanup

definition applyOp :: "netOp \<Rightarrow> 'st Network \<Rightarrow> 'st Network option" where
  "applyOp opr rn =
     (case opr of
        OpReliable b \<Rightarrow> Some (Reliable b rn)
      | OpLongReordering b \<Rightarrow> Some (LongReordering b rn)
      | OpLongDelays b \<Rightarrow> Some (LongDelays b rn)
      | OpMakeEnd e \<Rightarrow> MakeEnd e rn
      | OpDeleteEnd e \<Rightarrow> DeleteEnd e rn
      | OpAddServer n a \<Rightarrow> Some (AddServer n a rn)
      | OpDeleteServer n \<Rightarrow> Some (DeleteServer n rn)
      | OpConnect e n \<Rightarrow> Some (Connect e n rn)
      | OpEnable e b \<Rightarrow> Some (Enable e b rn)
      | OpCleanup \<Rightarrow> Cleanup rn)"

text \<open>\<^verbatim>\<open>Call\<close> offers the request to the network; when the network has been cleaned up it may give up
  instead.\<close>

definition CallSend :: "string \<Rightarrow> string \<Rightarrow> encoded \<Rightarrow> 'st Rpc \<Rightarrow> 'st Rpc" where
  "CallSend e meth a s =
     (let req = \<lparr>endname = e, svcMeth = meth, reqArgs = a\<rparr>
      in s\<lparr>calls := calls s @ [\<lparr>cReq = req, cPhase = Sent,
                                cStarted = None, cHandler = None\<rparr>]\<rparr>)"

definition abortSend :: "'st RpcCall \<Rightarrow> 'st Network \<Rightarrow> 'st RpcCall" where
  "abortSend c rn = (if netDone rn \<and> cPhase c = Sent then c\<lparr>cPhase := Answered failure\<rparr> else c)"

text \<open>What \<^verbatim>\<open>Call\<close> returns when it has been answered: the reply, if it returns true.\<close>

definition CallResult :: "'st RpcCall \<Rightarrow> encoded option option" where
  "CallResult c = (case cPhase c of Answered rep \<Rightarrow> Some (if rmOk rep then Some (rmReply rep) else None) | _ \<Rightarrow> None)"

text \<open>The goroutine of \<^verbatim>\<open>MakeNetwork\<close> accepts a request, counts it and starts \<^verbatim>\<open>processReq\<close>, which reads
  the settings of the end.\<close>

definition beginReq :: "'st RpcCall \<Rightarrow> 'st Network \<Rightarrow> 'st RpcCall \<times> 'st Network" where
  "beginReq c rn =
     (let rn1 = addBytes (reqArgs (cReq c)) (rn\<lparr>netCount := netCount rn + 1\<rparr>);
          i = readEndnameInfo (endname (cReq c)) rn1
      in case (eiEnabled i, eiServername i, eiServer i) of
           (True, Some n, Some a) \<Rightarrow> (c\<lparr>cPhase := Ready n a (eiReliable i) (eiLongreordering i)\<rparr>, rn1)
         | _ \<Rightarrow> (c\<lparr>cPhase := Delayed failure False\<rparr>, rn1))"

text \<open>After the short delay: the request may be dropped on an unreliable network, or the handler is
  started in a goroutine of its own.\<close>

definition startReq :: "bool \<Rightarrow> 'st RpcCall \<Rightarrow> 'st RpcCall" where
  "startReq lost c =
     (case cPhase c of
        Ready n a rel reord \<Rightarrow>
          if \<not> rel \<and> lost then c\<lparr>cPhase := Answered failure\<rparr>
          else c\<lparr>cPhase := Waiting n a rel reord, cStarted := Some a\<rparr>
      | _ \<Rightarrow> c)"

text \<open>The handler goroutine: it dispatches the request, and its handler does one access.\<close>

definition dispatchReq :: "'st RpcCall \<Rightarrow> 'st Network \<Rightarrow> ('st RpcCall \<times> 'st Network) option" where
  "dispatchReq c rn =
     (case (cStarted c, cHandler c) of
        (Some a, None) \<Rightarrow>
          map_option (\<lambda>(rs, h). (c\<lparr>cHandler := Some h\<rparr>, rn\<lparr>heap := (heap rn)(a := rs)\<rparr>)) (serverDispatch (cReq c) (heap rn a))
      | _ \<Rightarrow> Some (c, rn))"

definition handlerStep :: "'st RpcCall \<Rightarrow> 'st Network \<Rightarrow> 'st RpcCall \<times> 'st Network" where
  "handlerStep c rn =
     (case (cStarted c, cHandler c) of
        (Some a, Some (HAct f)) \<Rightarrow>
          (case f (srvState (heap rn a)) of
             (st, h) \<Rightarrow> (c\<lparr>cHandler := Some h\<rparr>, rn\<lparr>heap := (heap rn)(a := (heap rn a)\<lparr>srvState := st\<rparr>)\<rparr>))
      | _ \<Rightarrow> (c, rn))"

text \<open>The periodic check while waiting.\<close>

definition poll :: "'st RpcCall \<Rightarrow> 'st Network \<Rightarrow> 'st RpcCall" where
  "poll c rn =
     (case cPhase c of
        Waiting n a rel reord \<Rightarrow>
          if isServerDead (endname (cReq c)) n a rn then c\<lparr>cPhase := Answered failure\<rparr> else c
      | _ \<Rightarrow> c)"

text \<open>The handler has returned: \<^verbatim>\<open>processReq\<close> looks once more whether the server was deleted, and then,
  without holding anything, drops, delays or sends the reply.\<close>

definition finish :: "'st RpcCall \<Rightarrow> 'st Network \<Rightarrow> 'st RpcCall" where
  "finish c rn =
     (case (cPhase c, cRan c) of
        (Waiting n a rel reord, Some reply) \<Rightarrow>
          if isServerDead (endname (cReq c)) n a rn then c\<lparr>cPhase := Answered failure\<rparr>
          else c\<lparr>cPhase := Checked reply rel reord\<rparr>
      | _ \<Rightarrow> c)"

definition sendReply :: "bool \<Rightarrow> bool \<Rightarrow> 'st RpcCall \<Rightarrow> 'st Network \<Rightarrow> 'st RpcCall \<times> 'st Network" where
  "sendReply lost delay c rn =
     (case cPhase c of
        Checked reply rel reord \<Rightarrow>
          if \<not> rel \<and> lost then (c\<lparr>cPhase := Answered failure\<rparr>, rn)
          else if reord \<and> delay then (c\<lparr>cPhase := Delayed reply True\<rparr>, rn)
          else (c\<lparr>cPhase := Answered reply\<rparr>, addBytes (rmReply reply) rn)
      | _ \<Rightarrow> (c, rn))"

text \<open>A timer of \<^verbatim>\<open>time.AfterFunc\<close> fires.\<close>

definition fire :: "'st RpcCall \<Rightarrow> 'st Network \<Rightarrow> 'st RpcCall \<times> 'st Network" where
  "fire c rn =
     (case cPhase c of
        Delayed r counted \<Rightarrow> (c\<lparr>cPhase := Answered r\<rparr>, if counted then addBytes (rmReply r) rn else rn)
      | _ \<Rightarrow> (c, rn))"

datatype rpcEvent =
    Config netOp | Send string string encoded | Abort nat | Begin nat | Start nat bool | Dispatch nat | HandlerStep nat
  | Poll nat | Finish nat | SendReply nat bool bool | Fire nat

definition setCall :: "nat \<Rightarrow> 'st RpcCall \<times> 'st Network \<Rightarrow> 'st Rpc \<Rightarrow> 'st Rpc" where
  "setCall k p s = s\<lparr>calls := (calls s)[k := fst p], net := snd p\<rparr>"

definition rpcStep :: "rpcEvent \<Rightarrow> 'st Rpc \<Rightarrow> 'st Rpc option" where
  "rpcStep ev s =
     (let c = (\<lambda>k. calls s ! k); known = (\<lambda>k. k < length (calls s)) in
      case ev of
        Config opr \<Rightarrow> map_option (\<lambda>rn. s\<lparr>net := rn\<rparr>) (applyOp opr (net s))
      | Send e meth a \<Rightarrow> Some (CallSend e meth a s)
      | Abort k \<Rightarrow> if known k then Some (setCall k (abortSend (c k) (net s), net s) s) else Some s
      | Begin k \<Rightarrow> if known k \<and> cPhase (c k) = Sent then Some (setCall k (beginReq (c k) (net s)) s) else Some s
      | Start k lost \<Rightarrow> if known k then Some (setCall k (startReq lost (c k), net s) s) else Some s
      | Dispatch k \<Rightarrow> if known k then map_option (\<lambda>p. setCall k p s) (dispatchReq (c k) (net s)) else Some s
      | HandlerStep k \<Rightarrow> if known k then Some (setCall k (handlerStep (c k) (net s)) s) else Some s
      | Poll k \<Rightarrow> if known k then Some (setCall k (poll (c k) (net s), net s) s) else Some s
      | Finish k \<Rightarrow> if known k then Some (setCall k (finish (c k) (net s), net s) s) else Some s
      | SendReply k lost delay \<Rightarrow> if known k then Some (setCall k (sendReply lost delay (c k) (net s)) s) else Some s
      | Fire k \<Rightarrow> if known k then Some (setCall k (fire (c k) (net s)) s) else Some s)"

fun rpcSteps :: "rpcEvent list \<Rightarrow> 'st Rpc \<Rightarrow> 'st Rpc option" where
  "rpcSteps [] s = Some s"
| "rpcSteps (ev # evs) s = do { s1 \<leftarrow> rpcStep ev s; rpcSteps evs s1 }"

definition startRpc :: "(nat \<Rightarrow> 'st Server) \<Rightarrow> 'st Rpc" where
  "startRpc hp = \<lparr>net = MakeNetwork hp, calls = []\<rparr>"

section \<open>Well-formed calls\<close>

definition call_ok :: "'st RpcCall \<Rightarrow> bool" where
  "call_ok c \<longleftrightarrow>
     (cHandler c \<noteq> None \<longrightarrow> cStarted c \<noteq> None) \<and>
     (case cPhase c of
        Sent \<Rightarrow> cStarted c = None
      | Ready n a rel reord \<Rightarrow> cStarted c = None
      | Waiting n a rel reord \<Rightarrow> cStarted c = Some a
      | Checked r rel reord \<Rightarrow> cRan c = Some r
      | Delayed r counted \<Rightarrow> rmOk r \<longrightarrow> cRan c = Some r
      | Answered r \<Rightarrow> rmOk r \<longrightarrow> cRan c = Some r)"

text \<open>The part of a call that concerns its execution: the server and how far its handler has got.\<close>

definition hpart :: "'st RpcCall \<Rightarrow> (nat \<times> 'st handler) option" where
  "hpart c = (case (cStarted c, cHandler c) of (Some a, Some h) \<Rightarrow> Some (a, h) | _ \<Rightarrow> None)"

lemmas phase_defs = beginReq_def startReq_def poll_def finish_def sendReply_def fire_def abortSend_def

lemma cRan_cong [simp]: "cRan (c\<lparr>cPhase := p\<rparr>) = cRan c" "cRan (c\<lparr>cStarted := a\<rparr>) = cRan c"
  by (simp_all add: cRan_def)

lemma cRan_Some: "cRan c = Some r \<longleftrightarrow> (\<exists>b. cHandler c = Some (HReturn b) \<and> r = \<lparr>rmOk = True, rmReply = b\<rparr>)"
  by (auto simp: cRan_def split: option.splits handler.splits)

text \<open>All steps of a call except those of its handler.\<close>

lemma quiet_call:
  assumes "call_ok c"
  shows "call_ok (fst (beginReq c rn)) \<or> cPhase c \<noteq> Sent" "hpart (fst (beginReq c rn)) = hpart c" "heap (snd (beginReq c rn)) = heap rn"
    and "call_ok (startReq lost c)" "hpart (startReq lost c) = hpart c"
    and "call_ok (poll c rn)" "hpart (poll c rn) = hpart c"
    and "call_ok (abortSend c rn)" "hpart (abortSend c rn) = hpart c"
    and "call_ok (finish c rn)" "hpart (finish c rn) = hpart c"
    and "call_ok (fst (sendReply lost delay c rn))" "hpart (fst (sendReply lost delay c rn)) = hpart c"
      "heap (snd (sendReply lost delay c rn)) = heap rn"
    and "call_ok (fst (fire c rn))" "hpart (fst (fire c rn)) = hpart c" "heap (snd (fire c rn)) = heap rn"
  using assms
  by (auto simp: phase_defs call_ok_def hpart_def failure_def addBytes_def cRan_Some Let_def
      split: cphase.splits option.splits bool.splits if_splits prod.splits)

lemma quiet_req [simp]:
  "cReq (fst (beginReq c rn)) = cReq c" "cReq (startReq lost c) = cReq c" "cReq (poll c rn) = cReq c"
  "cReq (abortSend c rn) = cReq c" "cReq (finish c rn) = cReq c" "cReq (fst (sendReply lost delay c rn)) = cReq c"
  "cReq (fst (fire c rn)) = cReq c"
  by (auto simp: phase_defs Let_def split: cphase.splits option.splits bool.splits prod.splits)

lemma applyOp_heap: "applyOp opr rn = Some rn' \<Longrightarrow> heap rn' = heap rn"
  by (auto simp: applyOp_def Reliable_def LongReordering_def LongDelays_def MakeEnd_def DeleteEnd_def AddServer_def
      DeleteServer_def Connect_def Enable_def Cleanup_def split: netOp.splits if_splits)

section \<open>What a server executes\<close>

text \<open>The reference: a server that serves the requests \<open>qs\<close>. A turn of request \<open>k\<close> dispatches it, if it
  has not been, and otherwise lets its handler do one access.\<close>

definition serveTurn :: "reqMsg list \<Rightarrow> nat \<Rightarrow> 'st Server \<times> (nat \<rightharpoonup> 'st handler) \<Rightarrow> ('st Server \<times> (nat \<rightharpoonup> 'st handler)) option" where
  "serveTurn qs k = (\<lambda>(rs, hs).
     case hs k of
       None \<Rightarrow> map_option (\<lambda>(rs1, h). (rs1, hs(k \<mapsto> h))) (serverDispatch (qs ! k) rs)
     | Some (HReturn b) \<Rightarrow> Some (rs, hs)
     | Some (HAct f) \<Rightarrow> (case f (srvState rs) of (st, h) \<Rightarrow> Some (rs\<lparr>srvState := st\<rparr>, hs(k \<mapsto> h))))"

fun serve :: "reqMsg list \<Rightarrow> nat list \<Rightarrow> 'st Server \<times> (nat \<rightharpoonup> 'st handler) \<Rightarrow> ('st Server \<times> (nat \<rightharpoonup> 'st handler)) option" where
  "serve qs [] x = Some x"
| "serve qs (k # ks) x = do { x1 \<leftarrow> serveTurn qs k x; serve qs ks x1 }"

lemma serve_append: "serve qs (ks @ ls) x = do { x1 \<leftarrow> serve qs ks x; serve qs ls x1 }"
  by (induction ks arbitrary: x) (simp_all split: bind_splits)

lemma serve_cong:
  fixes x :: "'st Server \<times> (nat \<rightharpoonup> 'st handler)"
  shows "\<forall>k \<in> set ks. qs ! k = qs' ! k \<Longrightarrow> serve qs ks x = serve qs' ks x"
proof (induction ks arbitrary: x)
  case (Cons k ks)
  have "qs ! k = qs' ! k" using Cons.prems by simp
  then have "serveTurn qs k x = serveTurn qs' k x" by (simp only: serveTurn_def)
  moreover have "serve qs ks y = serve qs' ks y" for y :: "'st Server \<times> (nat \<rightharpoonup> 'st handler)"
    using Cons.prems by (intro Cons.IH) simp
  then have "(serve qs ks :: 'st Server \<times> (nat \<rightharpoonup> 'st handler) \<Rightarrow> _) = serve qs' ks" by (rule ext)
  ultimately show ?case by simp
qed simp

text \<open>Each request is counted once.\<close>

lemma serverDispatch_count: "serverDispatch q rs = Some (rs', h) \<Longrightarrow> srvCount rs' = srvCount rs + 1"
  by (auto simp: serverDispatch_def Let_def split: option.splits)

lemma serveTurn_count:
  assumes "serveTurn qs k (rs, hs) = Some (rs', hs')" "finite (dom hs)"
  shows "finite (dom hs') \<and> srvCount rs' - int (card (dom hs')) = srvCount rs - int (card (dom hs))"
proof (cases "hs k")
  case None
  then have "k \<notin> dom hs" by auto
  then have "card (insert k (dom hs)) = Suc (card (dom hs))" using assms(2) by simp
  then show ?thesis using assms None by (auto simp: serveTurn_def dest!: serverDispatch_count)
next
  case (Some h)
  then have "insert k (dom hs) = dom hs" by auto
  then show ?thesis using assms Some by (auto simp: serveTurn_def split: handler.splits prod.splits)
qed

lemma serve_count:
  "serve qs ks (rs, hs) = Some (rs', hs') \<Longrightarrow> finite (dom hs) \<Longrightarrow>
     srvCount rs' - int (card (dom hs')) = srvCount rs - int (card (dom hs))"
proof (induction ks arbitrary: rs hs)
  case (Cons k ks)
  then obtain rs1 hs1 where t: "serveTurn qs k (rs, hs) = Some (rs1, hs1)" "serve qs ks (rs1, hs1) = Some (rs', hs')"
    by (auto simp: bind_Some_iff)
  from serveTurn_count [OF t(1) Cons.prems(2)] Cons.IH [OF t(2)] show ?case by simp
qed simp

section \<open>The network serves every request at most once\<close>

text \<open>The handlers of the calls that were dispatched on server \<open>a\<close>.\<close>

definition handlersOf :: "(nat \<times> 'st handler) option list \<Rightarrow> nat \<Rightarrow> nat \<rightharpoonup> 'st handler" where
  "handlersOf ps a k = (if k < length ps then case ps ! k of Some (b, h) \<Rightarrow> if b = a then Some h else None | None \<Rightarrow> None else None)"

text \<open>\<open>ks\<close> are turns by which server \<open>a\<close> got where it is.\<close>

definition turns :: "(nat \<Rightarrow> 'st Server) \<Rightarrow> (nat \<Rightarrow> 'st Server) \<Rightarrow> reqMsg list \<Rightarrow> (nat \<times> 'st handler) option list \<Rightarrow> nat \<Rightarrow> nat list \<Rightarrow> bool" where
  "turns hp h qs ps a ks \<longleftrightarrow> set ks \<subseteq> {..<length ps} \<and> serve qs ks (hp a, Map.empty) = Some (h a, handlersOf ps a)"

definition exec_inv :: "(nat \<Rightarrow> 'st Server) \<Rightarrow> 'st Rpc \<Rightarrow> bool" where
  "exec_inv hp s \<longleftrightarrow> (\<forall>c \<in> set (calls s). call_ok c) \<and>
     (\<forall>a. \<exists>ks. turns hp (heap (net s)) (map cReq (calls s)) (map hpart (calls s)) a ks)"

lemma turns_Send:
  assumes "turns hp h qs ps a ks" "length qs = length ps"
  shows "turns hp h (qs @ [q]) (ps @ [None]) a ks"
proof -
  have "handlersOf (ps @ [None]) a = handlersOf ps a" by (auto simp: handlersOf_def nth_append fun_eq_iff)
  moreover have "serve (qs @ [q]) ks (hp a, Map.empty) = serve qs ks (hp a, Map.empty)"
    using assms by (intro serve_cong) (auto simp: turns_def nth_append)
  ultimately show ?thesis using assms(1) unfolding turns_def by (auto intro: less_SucI)
qed

text \<open>A turn of call \<open>k\<close> on server \<open>a\<close>.\<close>

lemma turns_step:
  assumes t: "turns hp h qs ps b ks" and k: "k < length ps"
    and a: "serveTurn qs k (h a, handlersOf ps a) = Some (rs, (handlersOf ps a)(k \<mapsto> g))"
    and own: "\<And>c g'. ps ! k = Some (c, g') \<Longrightarrow> c = a"
  shows "turns hp (h(a := rs)) qs (ps[k := Some (a, g)]) b (if b = a then ks @ [k] else ks)"
proof (cases "b = a")
  case True
  have "handlersOf (ps[k := Some (a, g)]) a = (handlersOf ps a)(k \<mapsto> g)"
    using k by (auto simp: handlersOf_def nth_list_update fun_eq_iff)
  then show ?thesis using t k a True by (auto simp: turns_def serve_append)
next
  case False
  have "handlersOf (ps[k := Some (a, g)]) b = handlersOf ps b"
    using k own False by (auto simp: handlersOf_def nth_list_update fun_eq_iff split: option.splits)
  then show ?thesis using t False by (auto simp: turns_def)
qed

lemma setCall_quiet:
  assumes "exec_inv hp s" "k < length (calls s)" "call_ok (fst p)" "hpart (fst p) = hpart (calls s ! k)"
    "cReq (fst p) = cReq (calls s ! k)" "heap (snd p) = heap (net s)"
  shows "exec_inv hp (setCall k p s)"
proof -
  have "map hpart ((calls s)[k := fst p]) = map hpart (calls s)" "map cReq ((calls s)[k := fst p]) = map cReq (calls s)"
    using assms(2,4,5) by (simp_all add: map_update list_update_same_conv)
  moreover have "\<forall>c \<in> set ((calls s)[k := fst p]). call_ok c"
    using assms(1,3) set_update_subset_insert [of "calls s" k "fst p"] by (auto simp: exec_inv_def)
  ultimately show ?thesis using assms(1,6) by (simp add: exec_inv_def setCall_def)
qed

lemma setCall_turn:
  assumes inv: "exec_inv hp s" and k: "k < length (calls s)" and a: "cStarted (calls s ! k) = Some a"
    and t: "serveTurn (map cReq (calls s)) k (heap (net s) a, handlersOf (map hpart (calls s)) a) =
      Some (rs, (handlersOf (map hpart (calls s)) a)(k \<mapsto> g))"
    and ok: "call_ok ((calls s ! k)\<lparr>cHandler := Some g\<rparr>)"
  shows "exec_inv hp (setCall k ((calls s ! k)\<lparr>cHandler := Some g\<rparr>, (net s)\<lparr>heap := (heap (net s))(a := rs)\<rparr>) s)"
proof -
  let ?c = "(calls s ! k)\<lparr>cHandler := Some g\<rparr>"
  have ps: "map hpart ((calls s)[k := ?c]) = (map hpart (calls s))[k := Some (a, g)]" using a by (simp add: map_update hpart_def)
  have qs: "map cReq ((calls s)[k := ?c]) = map cReq (calls s)" using k by (simp add: map_update list_update_same_conv)
  have own: "c = a" if "map hpart (calls s) ! k = Some (c, g')" for c g'
    using that k a by (auto simp: hpart_def split: option.splits)
  have "\<exists>ks. turns hp ((heap (net s))(a := rs)) (map cReq (calls s)) ((map hpart (calls s))[k := Some (a, g)]) b ks" for b
  proof -
    obtain ks where "turns hp (heap (net s)) (map cReq (calls s)) (map hpart (calls s)) b ks" using inv by (auto simp: exec_inv_def)
    then have "turns hp ((heap (net s))(a := rs)) (map cReq (calls s)) ((map hpart (calls s))[k := Some (a, g)]) b
        (if b = a then ks @ [k] else ks)"
      using k own by (intro turns_step [where g = g and h = "heap (net s)" and a = a and k = k, OF _ _ t]) auto
    then show ?thesis by blast
  qed
  moreover have "\<forall>c \<in> set ((calls s)[k := ?c]). call_ok c"
    using inv ok set_update_subset_insert [of "calls s" k ?c] by (auto simp: exec_inv_def)
  ultimately show ?thesis by (simp add: exec_inv_def setCall_def ps qs)
qed

lemma handlersOf_call:
  "k < length (calls s) \<Longrightarrow> cStarted (calls s ! k) = Some a \<Longrightarrow> handlersOf (map hpart (calls s)) a k = cHandler (calls s ! k)"
  by (simp add: handlersOf_def hpart_def split: option.splits)

lemma dispatch_inv:
  assumes inv: "exec_inv hp s" and k: "k < length (calls s)" and d: "dispatchReq (calls s ! k) (net s) = Some p"
  shows "exec_inv hp (setCall k p s)"
proof (cases "\<exists>a. cStarted (calls s ! k) = Some a \<and> cHandler (calls s ! k) = None")
  case True
  let ?c = "calls s ! k"
  obtain a where a: "cStarted ?c = Some a" "cHandler ?c = None" using True by blast
  then obtain rs g where g: "serverDispatch (cReq ?c) (heap (net s) a) = Some (rs, g)"
      "p = (?c\<lparr>cHandler := Some g\<rparr>, (net s)\<lparr>heap := (heap (net s))(a := rs)\<rparr>)"
    using d by (auto simp: dispatchReq_def)
  have "call_ok ?c" using inv k by (simp add: exec_inv_def)
  then have "call_ok (?c\<lparr>cHandler := Some g\<rparr>)" using a by (auto simp: call_ok_def cRan_def split: cphase.splits)
  then show ?thesis unfolding g(2) using g(1) k a handlersOf_call [OF k a(1)]
    by (intro setCall_turn [OF inv k a(1)]) (simp_all add: serveTurn_def)
next
  case False
  then have "p = (calls s ! k, net s)" using d by (auto simp: dispatchReq_def split: option.splits)
  then show ?thesis using inv k by (intro setCall_quiet) (simp_all add: exec_inv_def)
qed

lemma handler_inv:
  assumes inv: "exec_inv hp s" and k: "k < length (calls s)"
  shows "exec_inv hp (setCall k (handlerStep (calls s ! k) (net s)) s)"
proof (cases "\<exists>a f. cStarted (calls s ! k) = Some a \<and> cHandler (calls s ! k) = Some (HAct f)")
  case True
  let ?c = "calls s ! k"
  obtain a f where a: "cStarted ?c = Some a" "cHandler ?c = Some (HAct f)" using True by blast
  obtain st g where g: "f (srvState (heap (net s) a)) = (st, g)" by fastforce
  have "call_ok ?c" using inv k by (simp add: exec_inv_def)
  then have "call_ok (?c\<lparr>cHandler := Some g\<rparr>)" using a by (auto simp: call_ok_def cRan_def split: cphase.splits)
  then have "exec_inv hp (setCall k (?c\<lparr>cHandler := Some g\<rparr>, (net s)\<lparr>heap := (heap (net s))(a := (heap (net s) a)\<lparr>srvState := st\<rparr>)\<rparr>) s)"
    using g a handlersOf_call [OF k a(1)] by (intro setCall_turn [OF inv k a(1)]) (simp_all add: serveTurn_def)
  then show ?thesis using a g by (simp add: handlerStep_def)
next
  case False
  then have "handlerStep (calls s ! k) (net s) = (calls s ! k, net s)"
    by (auto simp: handlerStep_def split: option.splits handler.splits)
  then show ?thesis using inv k by (intro setCall_quiet) (simp_all add: exec_inv_def)
qed

lemma rpcStep_inv:
  fixes s :: "'st Rpc"
  assumes inv: "exec_inv hp s" and step: "rpcStep ev s = Some s'"
  shows "exec_inv hp s'"
proof -
  have ok: "call_ok (calls s ! k)" if "k < length (calls s)" for k using inv that by (simp add: exec_inv_def)
  note quiet = quiet_call [OF ok]
  show ?thesis
  proof (cases ev)
    case (Config opr)
    then show ?thesis using inv step applyOp_heap by (fastforce simp: rpcStep_def exec_inv_def)
  next
    case (Send e meth a)
    let ?c = "\<lparr>cReq = \<lparr>endname = e, svcMeth = meth, reqArgs = a\<rparr>, cPhase = Sent, cStarted = None, cHandler = None\<rparr> :: 'st RpcCall"
    have "hpart ?c = None" "call_ok ?c" by (simp_all add: hpart_def call_ok_def)
    moreover have s': "s' = s\<lparr>calls := calls s @ [?c]\<rparr>" using step Send by (simp add: rpcStep_def CallSend_def Let_def)
    moreover have "\<exists>ks. turns hp (heap (net s)) (map cReq (calls s) @ [cReq ?c]) (map hpart (calls s) @ [None]) b ks" for b
    proof -
      obtain ks where "turns hp (heap (net s)) (map cReq (calls s)) (map hpart (calls s)) b ks" using inv by (auto simp: exec_inv_def)
      then show ?thesis using turns_Send [where q = "cReq ?c"] by (metis length_map)
    qed
    ultimately show ?thesis using inv by (simp add: exec_inv_def)
  next
    case (Dispatch k)
    then show ?thesis using inv step dispatch_inv by (auto simp: rpcStep_def Let_def split: if_splits)
  next
    case (HandlerStep k)
    then show ?thesis using inv step handler_inv by (auto simp: rpcStep_def Let_def split: if_splits)
  next
    case (Begin k)
    then show ?thesis
      using step inv quiet(1-3) [of k "net s"] by (auto simp: rpcStep_def Let_def split: if_splits intro!: setCall_quiet)
  qed (use step inv quiet in \<open>auto simp: rpcStep_def Let_def split: if_splits intro!: setCall_quiet\<close>)
qed

lemma startRpc_inv: "exec_inv hp (startRpc hp)"
  by (auto simp: exec_inv_def startRpc_def turns_def MakeNetwork_def handlersOf_def fun_eq_iff intro!: exI [of _ "[]"])

lemma rpcSteps_inv: "exec_inv hp s \<Longrightarrow> rpcSteps evs s = Some s' \<Longrightarrow> exec_inv hp s'"
  by (induction evs arbitrary: s) (auto intro: rpcStep_inv split: bind_splits)

section \<open>A deleted server does not answer\<close>

text \<open>The reply has passed the last look at the server.\<close>

definition passed :: "'st RpcCall \<Rightarrow> bool" where
  "passed c = (case cPhase c of Checked r rel reord \<Rightarrow> rmOk r | Delayed r counted \<Rightarrow> rmOk r | Answered r \<Rightarrow> rmOk r | _ \<Rightarrow> False)"

text \<open>Calls that cannot get a reply from server \<open>a\<close> while it is installed under no name.\<close>

definition mute :: "nat \<Rightarrow> 'st RpcCall \<Rightarrow> bool" where
  "mute a c \<longleftrightarrow> (case cPhase c of Waiting n b rel reord \<Rightarrow> cStarted c = Some b | _ \<Rightarrow> passed c \<longrightarrow> cStarted c \<noteq> Some a)"

definition silenced :: "nat \<Rightarrow> nat \<Rightarrow> 'st Rpc \<Rightarrow> bool" where
  "silenced a k s \<longleftrightarrow> (\<forall>n. serverAt (net s) n \<noteq> Some a) \<and> (k < length (calls s) \<longrightarrow> mute a (calls s ! k))"

definition reinstalls :: "nat \<Rightarrow> rpcEvent \<Rightarrow> bool" where
  "reinstalls a ev \<longleftrightarrow> (case ev of Config opr \<Rightarrow> (case opr of OpAddServer n b \<Rightarrow> b = a | _ \<Rightarrow> False) | _ \<Rightarrow> False)"

lemma applyOp_serverAt:
  "applyOp opr rn = Some rn' \<Longrightarrow> \<not> reinstalls a (Config opr) \<Longrightarrow> \<forall>n. serverAt rn n \<noteq> Some a \<Longrightarrow> serverAt rn' n \<noteq> Some a"
  by (cases opr) (auto simp: applyOp_def reinstalls_def serverAt_def Reliable_def LongReordering_def LongDelays_def MakeEnd_def
      DeleteEnd_def AddServer_def DeleteServer_def Connect_def Enable_def Cleanup_def split: if_splits option.splits)

lemma step_servers:
  "servers (snd (beginReq c rn)) = servers rn" "servers (snd (sendReply lost delay c rn)) = servers rn" "servers (snd (fire c rn)) = servers rn"
  "servers (snd (handlerStep c rn)) = servers rn" "dispatchReq c rn = Some p \<Longrightarrow> servers (snd p) = servers rn"
  by (auto simp: phase_defs dispatchReq_def handlerStep_def addBytes_def Let_def
      split: cphase.splits option.splits bool.splits prod.splits handler.splits)

lemma silenced_setCall:
  assumes "silenced a k s" "servers (snd p) = servers (net s)" "j = k \<Longrightarrow> k < length (calls s) \<Longrightarrow> mute a (fst p)"
  shows "silenced a k (setCall j p s)"
  using assms by (cases "j = k") (auto simp: silenced_def setCall_def serverAt_def)

lemma mute_calls:
  assumes "mute a c" "\<forall>n. serverAt rn n \<noteq> Some a"
  shows "mute a (fst (beginReq c rn))" "mute a (startReq lost c)" "mute a (abortSend c rn)" "mute a (poll c rn)"
    "mute a (finish c rn)" "mute a (fst (sendReply lost delay c rn))" "mute a (fst (fire c rn))"
    "mute a (fst (handlerStep c rn))" "dispatchReq c rn = Some p \<Longrightarrow> mute a (fst p)"
proof -
  show "mute a (fst (beginReq c rn))"
    by (auto simp: beginReq_def mute_def passed_def failure_def Let_def split: option.split bool.split prod.split)
  show "mute a (startReq lost c)" "mute a (abortSend c rn)" "mute a (poll c rn)"
    using assms(1) by (auto simp: startReq_def abortSend_def poll_def mute_def passed_def failure_def split: cphase.splits)
  show "mute a (finish c rn)"
    using assms by (auto simp: finish_def mute_def passed_def failure_def isServerDead_def split: cphase.splits option.splits)
  show "mute a (fst (sendReply lost delay c rn))" "mute a (fst (fire c rn))"
    using assms(1) by (auto simp: sendReply_def fire_def mute_def passed_def failure_def split: cphase.splits)
  have same: "mute a (c\<lparr>cHandler := h\<rparr>)" for h using assms(1) by (simp add: mute_def passed_def split: cphase.splits)
  show "mute a (fst (handlerStep c rn))"
    using assms(1) same by (auto simp: handlerStep_def split: option.split handler.split prod.split)
  show "mute a (fst p)" if "dispatchReq c rn = Some p"
    using that assms(1) same by (auto simp: dispatchReq_def split: option.splits)
qed

lemma silenced_step:
  fixes s :: "'st Rpc"
  assumes "silenced a k s" "rpcStep ev s = Some s'" "\<not> reinstalls a ev"
  shows "silenced a k s'"
proof -
  have off: "\<forall>n. serverAt (net s) n \<noteq> Some a" and m: "k < length (calls s) \<Longrightarrow> mute a (calls s ! k)"
    using assms(1) by (simp_all add: silenced_def)
  note muted = mute_calls [OF m off]
  show ?thesis
  proof (cases ev)
    case (Config opr)
    then show ?thesis using assms off applyOp_serverAt by (fastforce simp: rpcStep_def silenced_def Let_def)
  next
    case (Send e meth b)
    let ?c = "\<lparr>cReq = \<lparr>endname = e, svcMeth = meth, reqArgs = b\<rparr>, cPhase = Sent, cStarted = None, cHandler = None\<rparr> :: 'st RpcCall"
    have s': "s' = s\<lparr>calls := calls s @ [?c]\<rparr>" using assms(2) Send by (simp add: rpcStep_def CallSend_def Let_def)
    have "mute a ?c" by (simp add: mute_def passed_def)
    then have "mute a (calls s' ! k)" if "k < length (calls s')" using that m by (cases "k < length (calls s)") (auto simp: s' nth_append)
    then show ?thesis using off by (simp add: silenced_def s')
  next
    case (Dispatch j)
    then show ?thesis
      using assms(1,2) muted(9) step_servers(5) by (auto simp: rpcStep_def Let_def split: if_splits intro!: silenced_setCall)
  qed (use assms(1,2) muted step_servers in \<open>auto simp: rpcStep_def Let_def split: if_splits intro!: silenced_setCall\<close>)
qed

lemma silenced_steps:
  "silenced a k s \<Longrightarrow> rpcSteps evs s = Some s' \<Longrightarrow> list_all (\<lambda>ev. \<not> reinstalls a ev) evs \<Longrightarrow> silenced a k s'"
  by (induction evs arbitrary: s) (auto intro: silenced_step split: bind_splits)

section \<open>Properties\<close>

text \<open>C33: a call executes at most once. In every run of the network, whatever is lost, delayed,
  disabled, deleted or given up, each server object is where it gets by serving the calls that
  were dispatched on it: every one of them was dispatched and counted exactly once, with its own
  arguments, and their handlers have run concurrently, in some interleaving of their accesses
  to the state of the server. When \<^verbatim>\<open>Call\<close> returns true, the handler of this call has run to its
  end and the reply is the one that it returned.\<close>

theorem rpc_executes_once:
  assumes "rpcSteps evs (startRpc hp) = Some s"
  shows "(\<forall>a. \<exists>ks. serve (map cReq (calls s)) ks (hp a, Map.empty) = Some (heap (net s) a, handlersOf (map hpart (calls s)) a)) \<and>
     (\<forall>a. srvCount (heap (net s) a) = srvCount (hp a) + int (card {k. k < length (calls s) \<and> (\<exists>h. hpart (calls s ! k) = Some (a, h))})) \<and>
     (\<forall>k < length (calls s). \<forall>b. CallResult (calls s ! k) = Some (Some b) \<longrightarrow>
        (\<exists>a. cStarted (calls s ! k) = Some a \<and> cHandler (calls s ! k) = Some (HReturn b)))"
proof (intro conjI allI impI)
  have inv: "exec_inv hp s" using rpcSteps_inv [OF startRpc_inv assms] .
  fix a
  obtain ks where ks: "serve (map cReq (calls s)) ks (hp a, Map.empty) = Some (heap (net s) a, handlersOf (map hpart (calls s)) a)"
    using inv unfolding exec_inv_def turns_def by blast
  then show "\<exists>ks. serve (map cReq (calls s)) ks (hp a, Map.empty) = Some (heap (net s) a, handlersOf (map hpart (calls s)) a)" by blast
  have "dom (handlersOf (map hpart (calls s)) a) = {k. k < length (calls s) \<and> (\<exists>h. hpart (calls s ! k) = Some (a, h))}"
    by (auto simp: handlersOf_def dom_def split: option.splits if_splits)
  then show "srvCount (heap (net s) a) = srvCount (hp a) + int (card {k. k < length (calls s) \<and> (\<exists>h. hpart (calls s ! k) = Some (a, h))})"
    using serve_count [OF ks] by simp
  fix k b
  assume "k < length (calls s)" and r: "CallResult (calls s ! k) = Some (Some b)"
  then have "call_ok (calls s ! k)" using inv by (simp add: exec_inv_def)
  then show "\<exists>a. cStarted (calls s ! k) = Some a \<and> cHandler (calls s ! k) = Some (HReturn b)"
    using r by (auto simp: call_ok_def CallResult_def cRan_Some split: cphase.splits if_splits)
qed

text \<open>C34: no answer after \<^verbatim>\<open>DeleteServer\<close>. Take any moment of a run at which a server object is installed
  under no name, and any continuation in which it is not installed again. A call that returns
  true there with a reply of this object was already past the last look at the server before
  that moment, its reply being sent or delayed by a timer. All other calls, those whose handler
  still runs, those that are on their way and those that are made later, never return true with
  a reply of the deleted object.\<close>

theorem no_reply_after_delete:
  assumes "rpcSteps evs0 (startRpc hp) = Some s" and "\<And>n. serverAt (net s) n \<noteq> Some a"
    and "rpcSteps evs s = Some s'" and "list_all (\<lambda>ev. \<not> reinstalls a ev) evs"
    and "k < length (calls s')" "cStarted (calls s' ! k) = Some a" "CallResult (calls s' ! k) = Some (Some b)"
  shows "k < length (calls s) \<and> passed (calls s ! k)"
proof (rule ccontr)
  assume no: "\<not> (k < length (calls s) \<and> passed (calls s ! k))"
  have "call_ok (calls s ! k)" if "k < length (calls s)"
    using rpcSteps_inv [OF startRpc_inv assms(1)] that by (simp add: exec_inv_def)
  then have "silenced a k s" using assms(2) no by (auto simp: silenced_def mute_def call_ok_def passed_def split: cphase.splits)
  then have "silenced a k s'" using silenced_steps assms(3,4) by blast
  then have "mute a (calls s' ! k)" using assms(5) by (simp add: silenced_def)
  then show False using assms(6,7) by (auto simp: mute_def passed_def CallResult_def split: cphase.splits if_splits)
qed

text \<open>A call that waits is answered: at the next check when its server is gone, and otherwise as soon
  as the handler has returned and the reply is on its way.\<close>

lemma waiting_call_returns:
  assumes "cPhase c = Waiting n a rel reord"
  shows "isServerDead (endname (cReq c)) n a rn \<Longrightarrow> CallResult (poll c rn) = Some None"
    and "cRan c = Some r \<Longrightarrow> CallResult (fst (fire (fst (sendReply lost delay (finish c rn) rn1)) rn2)) \<noteq> None"
  using assms by (auto simp: poll_def finish_def sendReply_def fire_def CallResult_def failure_def split: prod.splits)

text \<open>A counter service whose handler is not atomic: it reads the counter, and writes one more than
  what it has read, which is also its reply.\<close>

definition incHandler :: "encoded \<Rightarrow> 8 word handler" where
  "incHandler args = HAct (\<lambda>st. (st, HAct (\<lambda>_. (st + 1, HReturn [st + 1]))))"

definition counterServer :: "8 word Server" where
  "counterServer = AddService (MakeService ''Counter''
       [\<lparr>mName = ''Inc'', mPkgPath = '''', mNumIn = 3, mIn2Ptr = True, mNumOut = 0, mFunc = incHandler\<rparr>,
        \<lparr>mName = ''Get'', mPkgPath = '''', mNumIn = 1, mIn2Ptr = False, mNumOut = 1, mFunc = (\<lambda>_. HReturn [])\<rparr>])
     (MakeServer 0)"

text \<open>Two calls whose handlers overlap: both have read the counter before the first one writes.\<close>

definition exampleCalls :: "rpcEvent list" where
  "exampleCalls =
     [Config (OpMakeEnd ''e''), Config (OpAddServer ''s'' 7), Config (OpConnect ''e'' ''s''), Config (OpEnable ''e'' True),
      Send ''e'' ''Counter.Inc'' [], Send ''e'' ''Counter.Inc'' [], Begin 1, Start 1 False, Dispatch 1, HandlerStep 1,
      Begin 0, Start 0 False, Dispatch 0, HandlerStep 0, HandlerStep 1, Finish 1, SendReply 1 False False]"

definition exampleRpc :: "8 word Rpc" where
  "exampleRpc = the (rpcSteps exampleCalls (startRpc (\<lambda>_. counterServer)))"

lemmas example_simps = exampleRpc_def exampleCalls_def startRpc_def MakeNetwork_def rpcStep_def applyOp_def MakeEnd_def
  AddServer_def Connect_def Enable_def CallSend_def beginReq_def addBytes_def readEndnameInfo_def connectionAt_def enabledAt_def
  serverAt_def startReq_def dispatchReq_def handlerStep_def serverDispatch_def serviceDispatch_def counterServer_def incHandler_def
  AddService_def MakeService_def MakeServer_def finish_def sendReply_def cRan_def isServerDead_def CallResult_def setCall_def Let_def

lemma exampleRpc_run:
  "rpcSteps exampleCalls (startRpc (\<lambda>_. counterServer)) = Some exampleRpc"
  "length (calls exampleRpc) = 2" "CallResult (calls exampleRpc ! 1) = Some (Some [1])"
  "cPhase (calls exampleRpc ! 0) = Waiting ''s'' 7 True False"
  "servers (net exampleRpc) = [''s'' \<mapsto> Some 7]"
  by (simp_all add: example_simps)

theorem rpc_executes_once_witness:
  "(\<exists>ks. serve (map cReq (calls exampleRpc)) ks (counterServer, Map.empty) =
      Some (heap (net exampleRpc) 7, handlersOf (map hpart (calls exampleRpc)) 7)) \<and>
   srvCount (heap (net exampleRpc) 7) = 2 \<and> cHandler (calls exampleRpc ! 1) = Some (HReturn [1])"
proof -
  have "\<exists>h. hpart (calls exampleRpc ! k) = Some (7, h)" if "k < 2" for k
    using that by (auto simp: example_simps hpart_def less_2_cases_iff)
  then have "{k. k < length (calls exampleRpc) \<and> (\<exists>h. hpart (calls exampleRpc ! k) = Some (7, h))} = {0, 1}"
    unfolding exampleRpc_run(2) by (auto simp: less_2_cases_iff)
  moreover have "srvCount counterServer = 0" by (simp add: counterServer_def AddService_def MakeServer_def)
  ultimately show ?thesis using rpc_executes_once [OF exampleRpc_run(1)] exampleRpc_run(2,3) by (auto simp: numeral_2_eq_2)
qed

text \<open>The server is deleted while the handler of call 0 still runs: the handler finishes, its reply is
  lost.\<close>

definition deletedRun :: "rpcEvent list" where
  "deletedRun = [HandlerStep 0, Finish 0, SendReply 0 False False]"

theorem no_reply_after_delete_witness:
  "\<exists>s'. rpcSteps deletedRun (exampleRpc\<lparr>net := DeleteServer ''s'' (net exampleRpc)\<rparr>) = Some s' \<and>
     cStarted (calls s' ! 0) = Some 7 \<and> cHandler (calls s' ! 0) = Some (HReturn [1]) \<and> (\<forall>b. CallResult (calls s' ! 0) \<noteq> Some (Some b))"
proof -
  let ?s = "exampleRpc\<lparr>net := DeleteServer ''s'' (net exampleRpc)\<rparr>"
  have app: "rpcSteps (xs @ ys) x = do { x1 \<leftarrow> rpcSteps xs x; rpcSteps ys x1 }" for xs ys and x :: "8 word Rpc"
    by (induction xs arbitrary: x) (simp_all split: bind_splits)
  have 0: "rpcSteps (exampleCalls @ [Config (OpDeleteServer ''s'')]) (startRpc (\<lambda>_. counterServer)) = Some ?s"
    unfolding app exampleRpc_run(1) by (simp add: rpcStep_def applyOp_def)
  obtain s' where s': "rpcSteps deletedRun ?s = Some s'" "cStarted (calls s' ! 0) = Some 7"
      "cHandler (calls s' ! 0) = Some (HReturn [1])" "0 < length (calls s')"
    by (simp add: deletedRun_def example_simps DeleteServer_def)
  have off: "serverAt (net ?s) n \<noteq> Some 7" for n using exampleRpc_run(5) by (simp add: DeleteServer_def serverAt_def)
  have ev: "list_all (\<lambda>ev. \<not> reinstalls 7 ev) deletedRun" by (simp add: deletedRun_def reinstalls_def)
  have "\<not> passed (calls ?s ! 0)" using exampleRpc_run(4) by (simp add: passed_def)
  then have "CallResult (calls s' ! 0) \<noteq> Some (Some b)" for b
    using no_reply_after_delete [OF 0 off s'(1) ev s'(4,2)] by blast
  then show ?thesis using s' by blast
qed

text \<open>A reply that has passed the last look is not stopped by a deletion.\<close>

lemma checked_reply_arrives:
  assumes "cPhase c = Checked r rel reord"
  shows "cPhase (fst (fire (fst (sendReply False delay c rn)) (DeleteServer n rn))) = Answered r"
  using assms by (simp add: sendReply_def fire_def)

end
