(* ===== verification/Test_Group.thy ===== *)
theory Test_Group
  imports Lab_Rpc Persister Itoa
begin

text \<open>
  The part of the test harness that makes, stops, connects and partitions servers
  (\<^verbatim>\<open>src/tester1/group.go\<close> and \<^verbatim>\<open>src/tester1/srv.go\<close>) and clients (\<^verbatim>\<open>src/tester1/clnts.go\<close>), on top of the
  simulated network. Every server has one end per server of its group; a message passes when
  the end is enabled. Random end names are arguments; \<open>None\<close> is \<^verbatim>\<open>log.Fatal\<close> or a panic.
\<close>

section \<open>Servers of a group\<close>

text \<open>\<open>'v\<close> are the services that a server exports.\<close>

record ('r, 's, 'v) TServer =
  saved :: "('r, 's) Persister option"
  svcs :: "'v list option"
  endNames :: "string list"

record ('st, 'r, 's, 'v) ServerGrp =
  gnet :: "'st Network"
  srvs :: "('r, 's, 'v) TServer list"
  gid :: nat
  connected :: "bool list"
  stopped :: "'v list"

definition ServerName :: "nat \<Rightarrow> nat \<Rightarrow> string" where
  "ServerName g i = ''server-'' @ itoa g @ ''-'' @ itoa i"

fun makeEnds :: "nat \<Rightarrow> nat \<Rightarrow> string list \<Rightarrow> 'st Network \<Rightarrow> 'st Network option" where
  "makeEnds g j [] rn = Some rn"
| "makeEnds g j (e # es) rn = do {
     rn1 \<leftarrow> MakeEnd e rn;
     makeEnds g (j + 1) es (Connect e (ServerName g j) rn1)
   }"

definition makeServer :: "nat \<Rightarrow> string list \<Rightarrow> 'st Network \<Rightarrow> (('r, 's, 'v) TServer \<times> 'st Network) option" where
  "makeServer g names rn = do {
     rn1 \<leftarrow> makeEnds g 0 names rn;
     Some (\<lparr>saved = None, svcs = None, endNames = names\<rparr>, rn1)
   }"

text \<open>A fresh persister with the content of the old one.\<close>

definition startServer :: "nat \<Rightarrow> string list \<Rightarrow> ('r, 's, 'v) TServer \<Rightarrow> 'st Network \<Rightarrow>
    (('r, 's, 'v) TServer \<times> 'st Network) option" where
  "startServer g names s rn = do {
     (srv, rn1) \<leftarrow> makeServer g names rn;
     Some (srv\<lparr>saved := Some (case saved s of Some ps \<Rightarrow> Copy ps | None \<Rightarrow> MakePersister)\<rparr>, rn1)
   }"

text \<open>The services are told to stop.\<close>

definition shutdownServer :: "('r, 's, 'v) TServer \<Rightarrow> ('r, 's, 'v) TServer \<times> 'v list" where
  "shutdownServer s =
     (s\<lparr>saved := map_option Copy (saved s), svcs := None\<rparr>, case svcs s of Some l \<Rightarrow> l | None \<Rightarrow> [])"

definition serverConnect :: "bool list \<Rightarrow> nat list \<Rightarrow> ('r, 's, 'v) TServer \<Rightarrow> 'st Network \<Rightarrow> 'st Network" where
  "serverConnect conn to s rn = fold (\<lambda>j rn. if conn ! j then Enable (endNames s ! j) True rn else rn) to rn"

definition serverDisconnect :: "nat list \<Rightarrow> ('r, 's, 'v) TServer \<Rightarrow> 'st Network \<Rightarrow> 'st Network" where
  "serverDisconnect from s rn = fold (\<lambda>j. Enable (endNames s ! j) False) from rn"

section \<open>Groups\<close>

fun makeServers :: "nat \<Rightarrow> string list list \<Rightarrow> 'st Network \<Rightarrow> (('r, 's, 'v) TServer list \<times> 'st Network) option" where
  "makeServers g [] rn = Some ([], rn)"
| "makeServers g (names # rest) rn = do {
     (srv, rn1) \<leftarrow> makeServer g names rn;
     (ss, rn2) \<leftarrow> makeServers g rest rn1;
     Some (srv # ss, rn2)
   }"

definition makeSrvGrp :: "nat \<Rightarrow> string list list \<Rightarrow> 'st Network \<Rightarrow> ('st, 'r, 's, 'v) ServerGrp option" where
  "makeSrvGrp g names rn = do {
     (ss, rn1) \<leftarrow> makeServers g names rn;
     Some \<lparr>gnet = rn1, srvs = ss, gid = g, connected = replicate (length names) False, stopped = []\<rparr>
   }"

definition grpN :: "('st, 'r, 's, 'v) ServerGrp \<Rightarrow> nat" where
  "grpN sg = length (srvs sg)"

definition grpAll :: "('st, 'r, 's, 'v) ServerGrp \<Rightarrow> nat list" where
  "grpAll sg = [0..<grpN sg]"

text \<open>An index out of range panics.\<close>

definition inGroup :: "('st, 'r, 's, 'v) ServerGrp \<Rightarrow> nat list \<Rightarrow> bool" where
  "inGroup sg l = list_all (\<lambda>j. j < grpN sg) l"

definition SrvNamesTo :: "nat list \<Rightarrow> ('st, 'r, 's, 'v) ServerGrp \<Rightarrow> string list option" where
  "SrvNamesTo to sg = (if inGroup sg to then Some (map (ServerName (gid sg)) to) else None)"

definition grpConnect :: "nat \<Rightarrow> nat list \<Rightarrow> ('st, 'r, 's, 'v) ServerGrp \<Rightarrow> ('st, 'r, 's, 'v) ServerGrp option" where
  "grpConnect i to sg =
     (if \<not> inGroup sg (i # to) then None
      else
        let conn = (connected sg)[i := True];
            rn1 = serverConnect conn to (srvs sg ! i) (gnet sg);
            rn2 = fold (\<lambda>j rn. if conn ! j then Enable (endNames (srvs sg ! j) ! i) True rn else rn) to rn1
        in Some (sg\<lparr>connected := conn, gnet := rn2\<rparr>))"

definition grpDisconnect :: "nat \<Rightarrow> nat list \<Rightarrow> ('st, 'r, 's, 'v) ServerGrp \<Rightarrow> ('st, 'r, 's, 'v) ServerGrp option" where
  "grpDisconnect i from sg =
     (if \<not> inGroup sg (i # from) then None
      else
        let rn1 = serverDisconnect from (srvs sg ! i) (gnet sg);
            rn2 = fold (\<lambda>j. Enable (endNames (srvs sg ! j) ! i) False) from rn1
        in Some (sg\<lparr>connected := (connected sg)[i := False], gnet := rn2\<rparr>))"

definition ConnectOne :: "nat \<Rightarrow> ('st, 'r, 's, 'v) ServerGrp \<Rightarrow> ('st, 'r, 's, 'v) ServerGrp option" where
  "ConnectOne i sg = grpConnect i (grpAll sg) sg"

definition DisconnectAll :: "nat \<Rightarrow> ('st, 'r, 's, 'v) ServerGrp \<Rightarrow> ('st, 'r, 's, 'v) ServerGrp option" where
  "DisconnectAll i sg = grpDisconnect i (grpAll sg) sg"

fun connectLoop :: "nat list \<Rightarrow> ('st, 'r, 's, 'v) ServerGrp \<Rightarrow> ('st, 'r, 's, 'v) ServerGrp option" where
  "connectLoop [] sg = Some sg"
| "connectLoop (i # is) sg = do { sg1 \<leftarrow> ConnectOne i sg; connectLoop is sg1 }"

definition ConnectAll :: "('st, 'r, 's, 'v) ServerGrp \<Rightarrow> ('st, 'r, 's, 'v) ServerGrp option" where
  "ConnectAll sg = connectLoop (grpAll sg) sg"

text \<open>\<open>mks\<close> makes the services of a server from its persister and \<open>labServer\<close> the \<^verbatim>\<open>labrpc\<close> server with
  them; \<open>a\<close> is the address of the new object and \<open>names\<close> are as many random names as there are ends.\<close>

definition StartServer :: "(nat \<Rightarrow> ('r, 's) Persister \<Rightarrow> 'v list) \<Rightarrow> ('v list \<Rightarrow> 'st Server) \<Rightarrow> string list \<Rightarrow> nat \<Rightarrow>
    nat \<Rightarrow> ('st, 'r, 's, 'v) ServerGrp \<Rightarrow> ('st, 'r, 's, 'v) ServerGrp option" where
  "StartServer mks labServer names a i sg =
     (if \<not> inGroup sg [i] \<or> length names \<noteq> length (endNames (srvs sg ! i)) then None
      else do {
        (srv, rn1) \<leftarrow> startServer (gid sg) names (srvs sg ! i) (gnet sg);
        ps \<leftarrow> saved srv;
        let vs = mks i ps;
        let rn2 = rn1\<lparr>heap := (heap rn1)(a := labServer vs)\<rparr>;
        Some (sg\<lparr>srvs := (srvs sg)[i := srv\<lparr>svcs := Some vs\<rparr>],
                 gnet := AddServer (ServerName (gid sg) i) a rn2\<rparr>)
      })"

definition ShutdownServer :: "nat \<Rightarrow> ('st, 'r, 's, 'v) ServerGrp \<Rightarrow> ('st, 'r, 's, 'v) ServerGrp option" where
  "ShutdownServer i sg = do {
     sg1 \<leftarrow> grpDisconnect i (grpAll sg) sg;
     let (srv, vs) = shutdownServer (srvs sg1 ! i);
     Some (sg1\<lparr>gnet := DeleteServer (ServerName (gid sg1) i) (gnet sg1), srvs := (srvs sg1)[i := srv],
               stopped := stopped sg1 @ vs\<rparr>)
   }"

text \<open>The loop of \<^verbatim>\<open>MakePartition\<close>: \<open>j\<close> counts the servers that have been placed.\<close>

definition placeServer :: "nat \<Rightarrow> nat \<Rightarrow> nat list \<times> nat list \<times> nat \<Rightarrow> nat list \<times> nat list \<times> nat" where
  "placeServer l i = (\<lambda>(p1, p2, j).
     if i \<noteq> l then if j < length p1 then (p1[j := i], p2, j + 1) else (p1, p2[j - length p1 := i], j + 1)
     else (p1, p2, j))"

definition MakePartition :: "nat \<Rightarrow> ('st, 'r, 's, 'v) ServerGrp \<Rightarrow> (nat list \<times> nat list) option" where
  "MakePartition l sg =
     (let n = grpN sg;
          (p1, p2, j) = fold (placeServer l) [0..<n] (replicate (n div 2 + 1) 0, replicate (n div 2) 0, 0)
      in if p2 = [] then None else Some (p1, p2[length p2 - 1 := l]))"

fun partitionLoop :: "nat list \<Rightarrow> nat list \<Rightarrow> nat list \<Rightarrow> ('st, 'r, 's, 'v) ServerGrp \<Rightarrow> ('st, 'r, 's, 'v) ServerGrp option" where
  "partitionLoop [] mine other sg = Some sg"
| "partitionLoop (i # is) mine other sg = do {
     sg1 \<leftarrow> grpDisconnect i other sg;
     sg2 \<leftarrow> grpConnect i mine sg1;
     partitionLoop is mine other sg2
   }"

definition Partition :: "nat list \<Rightarrow> nat list \<Rightarrow> ('st, 'r, 's, 'v) ServerGrp \<Rightarrow> ('st, 'r, 's, 'v) ServerGrp option" where
  "Partition p1 p2 sg = do { sg1 \<leftarrow> partitionLoop p1 p1 p2 sg; partitionLoop p2 p2 p1 sg1 }"

definition LogSize :: "('r list \<Rightarrow> int) \<Rightarrow> ('st, 'r, 's, 'v) ServerGrp \<Rightarrow> int option" where
  "LogSize bytes sg =
     foldl (\<lambda>acc s. do { logsize \<leftarrow> acc; ps \<leftarrow> saved s;
              let n = RaftStateSize bytes ps; Some (if n > logsize then n else logsize) }) (Some 0) (srvs sg)"

section \<open>Links\<close>

text \<open>Server \<open>i\<close> can send to server \<open>j\<close>.\<close>

definition link :: "('st, 'r, 's, 'v) ServerGrp \<Rightarrow> nat \<Rightarrow> nat \<Rightarrow> bool" where
  "link sg i j = enabledAt (gnet sg) (endNames (srvs sg ! i) ! j)"

definition online :: "('st, 'r, 's, 'v) ServerGrp \<Rightarrow> nat \<Rightarrow> bool" where
  "online sg i = connected sg ! i"

text \<open>Every server has its own ends, one per server.\<close>

definition endOf :: "('st, 'r, 's, 'v) ServerGrp \<Rightarrow> nat \<times> nat \<Rightarrow> string" where
  "endOf sg = (\<lambda>(i, j). endNames (srvs sg ! i) ! j)"

definition grp_ok :: "('st, 'r, 's, 'v) ServerGrp \<Rightarrow> bool" where
  "grp_ok sg \<longleftrightarrow> length (connected sg) = grpN sg \<and> (\<forall>s \<in> set (srvs sg). length (endNames s) = grpN sg) \<and>
     inj_on (endOf sg) ({..<grpN sg} \<times> {..<grpN sg}) \<and>
     (\<forall>i < grpN sg. \<forall>j < grpN sg. endOf sg (i, j) \<in> ends (gnet sg))"

lemma enabledAt_Enable [simp]: "enabledAt (Enable e b rn) e' = (if e' = e then b else enabledAt rn e')"
  by (simp add: enabledAt_def Enable_def)

lemma ends_Enable [simp]: "ends (Enable e b rn) = ends rn"
  by (simp add: Enable_def)

text \<open>A loop that sets some ends to one value.\<close>

lemma enabledAt_loop:
  "enabledAt (fold (\<lambda>j rn. if P j then Enable (f j) b rn else rn) js rn) e =
     (if \<exists>j \<in> set js. P j \<and> f j = e then b else enabledAt rn e)"
  by (induction js arbitrary: rn) auto

lemma ends_loop: "ends (fold (\<lambda>j rn. if P j then Enable (f j) b rn else rn) js rn) = ends rn"
  by (induction js arbitrary: rn) auto

lemma servers_loop: "servers (fold (\<lambda>j. Enable (f j) b) js rn) = servers rn"
  by (induction js arbitrary: rn) (simp_all add: Enable_def)

lemmas plain_loop = enabledAt_loop [where P = "\<lambda>_. True", simplified] ends_loop [where P = "\<lambda>_. True", simplified]

lemma endOf_eq:
  assumes "grp_ok sg" "a < grpN sg" "b < grpN sg" "c < grpN sg" "d < grpN sg"
  shows "endNames (srvs sg ! a) ! b = endNames (srvs sg ! c) ! d \<longleftrightarrow> a = c \<and> b = d"
proof
  assume "endNames (srvs sg ! a) ! b = endNames (srvs sg ! c) ! d"
  then have "endOf sg (a, b) = endOf sg (c, d)" by (simp add: endOf_def)
  then show "a = c \<and> b = d" using assms unfolding grp_ok_def inj_on_def by blast
qed simp

text \<open>Connecting a server: both directions to every listed server that is online.\<close>

lemma grpConnect_spec:
  assumes ok: "grp_ok sg" and i: "inGroup sg (i # to)"
  shows "\<exists>sg'. grpConnect i to sg = Some sg' \<and> grp_ok sg' \<and> grpN sg' = grpN sg \<and>
     (\<forall>a < grpN sg. online sg' a \<longleftrightarrow> a = i \<or> online sg a) \<and>
     (\<forall>a < grpN sg. \<forall>b < grpN sg. link sg' a b \<longleftrightarrow>
        a = i \<and> b \<in> set to \<and> (b = i \<or> online sg b) \<or> b = i \<and> a \<in> set to \<and> (a = i \<or> online sg a) \<or> link sg a b)"
proof -
  have n: "i < grpN sg" "\<And>j. j \<in> set to \<Longrightarrow> j < grpN sg" "length (connected sg) = grpN sg"
    using i ok by (auto simp: inGroup_def list_all_iff grp_ok_def)
  let ?c = "(connected sg)[i := True]"
  obtain sg' where sg': "grpConnect i to sg = Some sg'" by (simp add: grpConnect_def i Let_def)
  then have e: "sg' = sg\<lparr>connected := ?c, gnet := fold (\<lambda>j rn. if ?c ! j then Enable (endNames (srvs sg ! j) ! i) True rn else rn) to
      (fold (\<lambda>j rn. if ?c ! j then Enable (endNames (srvs sg ! i) ! j) True rn else rn) to (gnet sg))\<rparr>"
    by (simp add: grpConnect_def i Let_def serverConnect_def)
  have N: "grpN sg' = grpN sg" "srvs sg' = srvs sg" by (simp_all add: e grpN_def)
  have c: "a < grpN sg \<Longrightarrow> ?c ! a \<longleftrightarrow> a = i \<or> online sg a" for a using n by (auto simp: online_def nth_list_update)
  have "grp_ok sg'" using ok n by (simp add: grp_ok_def N endOf_def e ends_loop) (simp add: grpN_def)
  moreover have "link sg' a b \<longleftrightarrow> a = i \<and> b \<in> set to \<and> (b = i \<or> online sg b) \<or> b = i \<and> a \<in> set to \<and> (a = i \<or> online sg a) \<or> link sg a b"
    if "a < grpN sg" "b < grpN sg" for a b
    using that n c endOf_eq [OF ok] by (auto simp: link_def e enabledAt_loop)
  moreover have "online sg' a \<longleftrightarrow> a = i \<or> online sg a" if "a < grpN sg" for a using c [OF that] by (simp add: online_def e)
  ultimately show ?thesis using sg' N(1) by blast
qed

lemma grpDisconnect_spec:
  assumes ok: "grp_ok sg" and i: "inGroup sg (i # from)"
  shows "\<exists>sg'. grpDisconnect i from sg = Some sg' \<and> grp_ok sg' \<and> grpN sg' = grpN sg \<and> srvs sg' = srvs sg \<and> gid sg' = gid sg \<and>
     stopped sg' = stopped sg \<and> servers (gnet sg') = servers (gnet sg) \<and>
     (\<forall>a < grpN sg. online sg' a \<longleftrightarrow> a \<noteq> i \<and> online sg a) \<and>
     (\<forall>a < grpN sg. \<forall>b < grpN sg. link sg' a b \<longleftrightarrow>
        \<not> (a = i \<and> b \<in> set from) \<and> \<not> (b = i \<and> a \<in> set from) \<and> link sg a b)"
proof -
  have n: "i < grpN sg" "\<And>j. j \<in> set from \<Longrightarrow> j < grpN sg" "length (connected sg) = grpN sg"
    using i ok by (auto simp: inGroup_def list_all_iff grp_ok_def)
  obtain sg' where sg': "grpDisconnect i from sg = Some sg'" by (simp add: grpDisconnect_def i Let_def)
  then have e: "sg' = sg\<lparr>connected := (connected sg)[i := False], gnet := fold (\<lambda>j. Enable (endNames (srvs sg ! j) ! i) False) from
      (fold (\<lambda>j. Enable (endNames (srvs sg ! i) ! j) False) from (gnet sg))\<rparr>"
    by (simp add: grpDisconnect_def i Let_def serverDisconnect_def)
  have N: "grpN sg' = grpN sg" "srvs sg' = srvs sg" by (simp_all add: e grpN_def)
  have "servers (gnet sg') = servers (gnet sg)" by (simp add: e servers_loop)
  moreover have "grp_ok sg'" using ok n by (simp add: grp_ok_def N endOf_def e plain_loop) (simp add: grpN_def)
  moreover have "link sg' a b \<longleftrightarrow> \<not> (a = i \<and> b \<in> set from) \<and> \<not> (b = i \<and> a \<in> set from) \<and> link sg a b"
    if "a < grpN sg" "b < grpN sg" for a b
    using that n endOf_eq [OF ok] by (auto simp: link_def e plain_loop)
  moreover have "online sg' a \<longleftrightarrow> a \<noteq> i \<and> online sg a" if "a < grpN sg" for a
    using n that by (auto simp: online_def e nth_list_update)
  ultimately show ?thesis using sg' N e by (intro exI [of _ sg']) simp
qed

section \<open>Partitions\<close>

text \<open>The servers of \<open>D\<close> are online and connected with each other, and cut off from those of \<open>Q\<close>.\<close>

definition island :: "nat set \<Rightarrow> nat set \<Rightarrow> ('st, 'r, 's, 'v) ServerGrp \<Rightarrow> bool" where
  "island D Q sg \<longleftrightarrow> (\<forall>a \<in> D. online sg a \<and> (\<forall>b \<in> D. link sg a b) \<and> (\<forall>b \<in> Q. \<not> link sg a b \<and> \<not> link sg b a))"

lemma islandI:
  assumes "\<And>a. a \<in> D \<Longrightarrow> online sg a" "\<And>a b. a \<in> D \<Longrightarrow> b \<in> D \<Longrightarrow> link sg a b"
    "\<And>a b. a \<in> D \<Longrightarrow> b \<in> Q \<Longrightarrow> \<not> link sg a b" "\<And>a b. a \<in> D \<Longrightarrow> b \<in> Q \<Longrightarrow> \<not> link sg b a"
  shows "island D Q sg"
  using assms by (simp add: island_def)

text \<open>The loop over one side, with the part \<open>D\<close> of it that is done and an island \<open>E\<close> on the other side.\<close>

lemma partitionLoop_spec:
  assumes "grp_ok sg" "inGroup sg (todo @ mine @ other)" "set todo \<subseteq> set mine" "set mine \<inter> set other = {}"
    and "D \<subseteq> set mine" "island D (set other) sg" "E \<subseteq> set other" "island E (set mine) sg"
  shows "\<exists>sg'. partitionLoop todo mine other sg = Some sg' \<and> grp_ok sg' \<and> grpN sg' = grpN sg \<and>
     island (D \<union> set todo) (set other) sg' \<and> island E (set mine) sg' \<and>
     (\<forall>a b. a < grpN sg \<longrightarrow> b < grpN sg \<longrightarrow> a \<notin> set todo \<longrightarrow> b \<notin> set todo \<longrightarrow> link sg' a b = link sg a b)"
  using assms
proof (induction todo arbitrary: sg D)
  case (Cons i todo)
  have i: "i < grpN sg" "i \<in> set mine" "i \<notin> set other" and all: "\<And>a. a \<in> set mine \<union> set other \<Longrightarrow> a < grpN sg"
    using Cons.prems(2-4) by (auto simp: inGroup_def list_all_iff)
  obtain sg1 where 1: "grpDisconnect i other sg = Some sg1" "grp_ok sg1" "grpN sg1 = grpN sg"
      "\<forall>a < grpN sg. online sg1 a \<longleftrightarrow> a \<noteq> i \<and> online sg a"
      "\<forall>a < grpN sg. \<forall>b < grpN sg. link sg1 a b \<longleftrightarrow> \<not> (a = i \<and> b \<in> set other) \<and> \<not> (b = i \<and> a \<in> set other) \<and> link sg a b"
    using grpDisconnect_spec [OF Cons.prems(1), of i other] Cons.prems(2) by (auto simp: inGroup_def)
  have "inGroup sg1 (i # mine)" using Cons.prems(2) 1(3) by (simp add: inGroup_def)
  then obtain sg2 where 2: "grpConnect i mine sg1 = Some sg2" "grp_ok sg2" "grpN sg2 = grpN sg"
      "\<forall>a < grpN sg. online sg2 a \<longleftrightarrow> a = i \<or> online sg1 a"
      "\<forall>a < grpN sg. \<forall>b < grpN sg. link sg2 a b \<longleftrightarrow>
        a = i \<and> b \<in> set mine \<and> (b = i \<or> online sg1 b) \<or> b = i \<and> a \<in> set mine \<and> (a = i \<or> online sg1 a) \<or> link sg1 a b"
    using grpConnect_spec [OF 1(2), of i mine] 1(3) by auto
  have on: "a < grpN sg \<Longrightarrow> online sg2 a \<longleftrightarrow> a = i \<or> online sg a" for a using 1(4) 2(4) by auto
  have ln: "a < grpN sg \<Longrightarrow> b < grpN sg \<Longrightarrow> link sg2 a b \<longleftrightarrow>
      a = i \<and> b \<in> set mine \<and> (b = i \<or> online sg b) \<or> b = i \<and> a \<in> set mine \<and> (a = i \<or> online sg a) \<or>
      \<not> (a = i \<and> b \<in> set other) \<and> \<not> (b = i \<and> a \<in> set other) \<and> link sg a b" for a b
    using 1(4,5) 2(5) by auto
  have other: "b < grpN sg" "b \<noteq> i" "b \<notin> set mine" if "b \<in> set other" for b using that all i Cons.prems(4) by auto
  have mine: "a < grpN sg" "a \<in> set mine" "a \<notin> set other" if "a \<in> insert i D" for a using that all i Cons.prems(4,5) by auto
  have old: "a \<noteq> i \<Longrightarrow> online sg a" "a \<noteq> i \<Longrightarrow> b \<noteq> i \<Longrightarrow> link sg a b" if "a \<in> insert i D" "b \<in> insert i D" for a b
    using Cons.prems(6) that by (auto simp: island_def)
  have cut: "a = i \<or> \<not> link sg a b \<and> \<not> link sg b a" if "a \<in> insert i D" "b \<in> set other" for a b
    using Cons.prems(6) that by (auto simp: island_def)
  have "island (insert i D) (set other) sg2"
  proof (rule islandI)
    show "online sg2 a" if "a \<in> insert i D" for a using on [OF mine(1) [OF that]] old(1) [OF that that] by blast
    show "link sg2 a b" if "a \<in> insert i D" "b \<in> insert i D" for a b
      using ln [OF mine(1) [OF that(1)] mine(1) [OF that(2)]] old [OF that] old(1) [OF that(2,1)] mine(2,3) [OF that(1)] mine(2,3) [OF that(2)]
      by blast
    show "\<not> link sg2 a b" "\<not> link sg2 b a" if "a \<in> insert i D" "b \<in> set other" for a b
      using ln [OF mine(1) [OF that(1)] other(1) [OF that(2)]] ln [OF other(1) [OF that(2)] mine(1) [OF that(1)]]
        cut [OF that] other(2,3) [OF that(2)] that(2) by blast+
  qed
  moreover have "island E (set mine) sg2"
  proof (rule islandI)
    fix a assume a: "a \<in> E"
    then have o: "a \<in> set other" using Cons.prems(7) by blast
    have ol: "online sg a" "\<And>b. b \<in> E \<Longrightarrow> link sg a b" "\<And>b. b \<in> set mine \<Longrightarrow> \<not> link sg a b \<and> \<not> link sg b a"
      using Cons.prems(8) a by (auto simp: island_def)
    show "online sg2 a" using on [OF other(1) [OF o]] ol(1) by blast
    show "link sg2 a b" if "b \<in> E" for b
      using ln [OF other(1) [OF o] other(1), of b] ol(2) [OF that] other(2) [OF o] other(2) [of b] that Cons.prems(7) by blast
    show "\<not> link sg2 a b" "\<not> link sg2 b a" if "b \<in> set mine" for b
      using ln [OF other(1) [OF o] all, of b] ln [OF all other(1) [OF o], of b] ol(3) [OF that] other(2,3) [OF o] that by blast+
  qed
  moreover have "inGroup sg2 (todo @ mine @ other)" using Cons.prems(2) 2(3) by (simp add: inGroup_def)
  ultimately obtain sg' where sg': "partitionLoop todo mine other sg2 = Some sg'" "grp_ok sg'" "grpN sg' = grpN sg"
      "island (insert i D \<union> set todo) (set other) sg'" "island E (set mine) sg'"
      "\<forall>a b. a < grpN sg \<longrightarrow> b < grpN sg \<longrightarrow> a \<notin> set todo \<longrightarrow> b \<notin> set todo \<longrightarrow> link sg' a b = link sg2 a b"
    using Cons.IH [OF 2(2), of "insert i D"] Cons.prems(3,4,5,7) 2(3) i(2) by auto
  then show ?case using 1(1) 2(1) ln by auto
qed auto

lemma Partition_separates:
  assumes ok: "grp_ok sg" and g: "inGroup sg (p1 @ p2)" and d: "set p1 \<inter> set p2 = {}"
  shows "\<exists>sg'. Partition p1 p2 sg = Some sg' \<and> grp_ok sg' \<and> grpN sg' = grpN sg \<and>
     island (set p1) (set p2) sg' \<and> island (set p2) (set p1) sg'"
proof -
  have none: "island {} Q sg" for Q by (simp add: island_def)
  have "inGroup sg (p1 @ p1 @ p2)" using g by (simp add: inGroup_def)
  then obtain sg1 where 1: "partitionLoop p1 p1 p2 sg = Some sg1" "grp_ok sg1" "grpN sg1 = grpN sg" "island (set p1) (set p2) sg1"
    using partitionLoop_spec [OF ok _ _ d _ none _ none, of p1] by auto
  have "inGroup sg1 (p2 @ p2 @ p1)" using g 1(3) by (simp add: inGroup_def)
  moreover have "island {} (set p1) sg1" by (simp add: island_def)
  moreover have "set p2 \<inter> set p1 = {}" using d by blast
  ultimately obtain sg2 where "partitionLoop p2 p2 p1 sg1 = Some sg2" "grp_ok sg2" "grpN sg2 = grpN sg1"
      "island (set p2) (set p1) sg2" "island (set p1) (set p2) sg2"
    using partitionLoop_spec [of sg1 p2 p2 p1 "{}" "set p1"] 1(2,4) by auto
  then show ?thesis using 1 by (auto simp: Partition_def)
qed

text \<open>The loop of \<^verbatim>\<open>MakePartition\<close> fills the first list and then the second one.\<close>

lemma placeServer_fold:
  assumes "m \<le> k + h" "os = filter (\<lambda>i. i \<noteq> l) [0..<m]"
  shows "fold (placeServer l) [0..<m] (replicate k 0, replicate h 0, 0) =
     (take k os @ replicate (k - length os) 0, drop k os @ replicate (h - (length os - k)) 0, length os)"
  using assms
proof (induction m arbitrary: os)
  case (Suc m)
  let ?os = "filter (\<lambda>i. i \<noteq> l) [0..<m]"
  have len: "length ?os \<le> m" by (metis length_filter_le length_upt minus_nat.diff_0)
  have IH: "fold (placeServer l) [0..<m] (replicate k 0, replicate h 0, 0) =
      (take k ?os @ replicate (k - length ?os) 0, drop k ?os @ replicate (h - (length ?os - k)) 0, length ?os)"
    using Suc.IH [OF _ refl] Suc.prems(1) by simp
  have step: "fold (placeServer l) [0..<Suc m] (replicate k 0, replicate h 0, 0) = placeServer l m
      (take k ?os @ replicate (k - length ?os) 0, drop k ?os @ replicate (h - (length ?os - k)) 0, length ?os)"
    unfolding upt_Suc_append [OF le0] fold_append comp_apply IH by simp
  show ?case
  proof (cases "m = l")
    case True
    then show ?thesis unfolding step using Suc.prems(2) by (simp add: placeServer_def)
  next
    case False
    then have os: "os = ?os @ [m]" using Suc.prems(2) by simp
    show ?thesis
    proof (cases "length ?os < k")
      case True
      then obtain r where r: "k - length ?os = Suc r" by (cases "k - length ?os") auto
      then have "length ?os + Suc r = k" using True by simp
      then show ?thesis unfolding step using False True r by (auto simp: placeServer_def os list_update_append)
    next
      case le: False
      then obtain r where r: "h - (length ?os - k) = Suc r" using len Suc.prems(1) by (cases "h - (length ?os - k)") auto
      have "length ?os - k + Suc r = h" using r by simp
      then show ?thesis unfolding step using False le r by (auto simp: placeServer_def os list_update_append)
    qed
  qed
qed simp

lemma MakePartition_splits:
  assumes odd: "odd (grpN sg)" "3 \<le> grpN sg" and l: "l < grpN sg"
  shows "\<exists>p1 p2. MakePartition l sg = Some (p1, p2) \<and> distinct (p1 @ p2) \<and> set (p1 @ p2) = {..<grpN sg} \<and>
     length p1 = grpN sg div 2 + 1 \<and> l \<in> set p2"
proof -
  let ?n = "grpN sg" let ?h = "?n div 2" let ?os = "filter (\<lambda>i. i \<noteq> l) [0..<?n]"
  have n: "?n = 2 * ?h + 1" using odd(1) by (metis odd_two_times_div_two_succ)
  have os: "distinct ?os" "set ?os = {..<?n} - {l}" by auto
  then have "card (set ?os) = ?n - 1" using l by simp
  then have len: "length ?os = 2 * ?h" using distinct_card [OF os(1)] n by linarith
  have f: "fold (placeServer l) [0..<?n] (replicate (?h + 1) 0, replicate ?h 0, 0) =
      (take (?h + 1) ?os, drop (?h + 1) ?os @ [0], 2 * ?h)"
  proof -
    have "fold (placeServer l) [0..<?n] (replicate (?h + 1) 0, replicate ?h 0, 0) =
      (take (?h + 1) ?os @ replicate (?h + 1 - length ?os) 0, drop (?h + 1) ?os @ replicate (?h - (length ?os - (?h + 1))) 0, length ?os)"
      using n by (intro placeServer_fold) simp_all
    moreover have "?h + 1 - length ?os = 0" "?h - (length ?os - (?h + 1)) = 1" using len n odd(2) by linarith+
    ultimately show ?thesis using len by simp
  qed
  have p: "MakePartition l sg = Some (take (?h + 1) ?os, drop (?h + 1) ?os @ [l])"
    unfolding MakePartition_def Let_def f by (simp add: list_update_append)
  have "distinct (take (?h + 1) ?os @ drop (?h + 1) ?os @ [l])" "set (take (?h + 1) ?os @ drop (?h + 1) ?os @ [l]) = {..<?n}"
    using os l unfolding append_assoc [symmetric] append_take_drop_id by auto
  moreover have "length (take (?h + 1) ?os) = ?h + 1" using len n odd(2) by simp
  ultimately show ?thesis using p by simp
qed

section \<open>Making and restarting servers\<close>

lemma makeEnds_spec:
  assumes "makeEnds g j es rn = Some rn'"
  shows "distinct es \<and> set es \<inter> ends rn = {} \<and> ends rn' = ends rn \<union> set es \<and> servers rn' = servers rn \<and>
     (\<forall>e. enabledAt rn' e \<longleftrightarrow> e \<notin> set es \<and> enabledAt rn e) \<and>
     (\<forall>k < length es. connectionAt rn' (es ! k) = Some (ServerName g (j + k)))"
  using assms
proof (induction es arbitrary: j rn)
  case (Cons e es)
  then obtain rn1 where 1: "MakeEnd e rn = Some rn1" "makeEnds g (j + 1) es (Connect e (ServerName g j) rn1) = Some rn'"
    by (auto simp: bind_Some_iff)
  let ?rn = "Connect e (ServerName g j) rn1"
  have e: "e \<notin> ends rn" "ends ?rn = insert e (ends rn)" "servers ?rn = servers rn"
      "\<And>x. enabledAt ?rn x \<longleftrightarrow> x \<noteq> e \<and> enabledAt rn x" "connectionAt ?rn e = Some (ServerName g j)"
    using 1(1) by (auto simp: MakeEnd_def Connect_def enabledAt_def connectionAt_def split: if_splits)
  have keep: "connectionAt rn' x = connectionAt rn0 x" if "makeEnds g j' es rn0 = Some rn'" "x \<notin> set es" for j' rn0 x
    using that by (induction es arbitrary: j' rn0)
      (fastforce simp: bind_Some_iff MakeEnd_def Connect_def connectionAt_def split: if_splits)+
  have IH: "distinct es \<and> set es \<inter> ends ?rn = {} \<and> ends rn' = ends ?rn \<union> set es \<and> servers rn' = servers ?rn \<and>
     (\<forall>x. enabledAt rn' x \<longleftrightarrow> x \<notin> set es \<and> enabledAt ?rn x) \<and>
     (\<forall>k < length es. connectionAt rn' (es ! k) = Some (ServerName g (j + 1 + k)))"
    by (rule Cons.IH [OF 1(2)])
  then have "e \<notin> set es" using e(2) by auto
  then have "connectionAt rn' e = Some (ServerName g j)" using keep [OF 1(2)] e(5) by simp
  then show ?case using IH e by (auto simp: nth_Cons split: nat.split)
qed simp

lemma makeServers_spec:
  assumes "makeServers g nss rn = Some (ss, rn')"
  shows "map endNames ss = nss \<and> (\<forall>s \<in> set ss. saved s = None \<and> svcs s = None) \<and> distinct (concat nss) \<and> set (concat nss) \<inter> ends rn = {} \<and>
     ends rn' = ends rn \<union> set (concat nss) \<and> (\<forall>e. enabledAt rn' e \<longleftrightarrow> e \<notin> set (concat nss) \<and> enabledAt rn e)"
  using assms
proof (induction nss arbitrary: rn ss)
  case (Cons ns nss)
  then obtain s rn1 ss1 where 1: "makeServer g ns rn = Some (s, rn1)" "makeServers g nss rn1 = Some (ss1, rn')" "ss = s # ss1"
    by (auto simp: bind_Some_iff)
  then have "makeEnds g 0 ns rn = Some rn1" "s = \<lparr>saved = None, svcs = None, endNames = ns\<rparr>" by (auto simp: makeServer_def bind_Some_iff)
  then show ?case using makeEnds_spec [of g 0 ns rn rn1] Cons.IH [OF 1(2)] 1(3) by auto
qed simp

lemma nth_concat_mem: "i < length xss \<Longrightarrow> a < length (xss ! i) \<Longrightarrow> xss ! i ! a \<in> set (concat xss)"
  unfolding set_concat by (rule UN_I [of "xss ! i"]) simp_all

lemma concat_position:
  "distinct (concat xss) \<Longrightarrow> i < length xss \<Longrightarrow> j < length xss \<Longrightarrow> a < length (xss ! i) \<Longrightarrow> b < length (xss ! j) \<Longrightarrow>
     xss ! i ! a = xss ! j ! b \<Longrightarrow> i = j \<and> a = b"
proof (induction xss arbitrary: i j)
  case (Cons xs xss)
  have ne: "xs ! c \<noteq> xss ! k ! d" if "c < length xs" "k < length xss" "d < length (xss ! k)" for c k d
    using Cons.prems(1) nth_mem [OF that(1)] nth_concat_mem [OF that(2,3)] by auto
  show ?case
    using Cons.IH [of "i - 1" "j - 1"] Cons.prems ne [of a "j - 1" b] ne [of b "i - 1" a]
    by (cases i; cases j) (simp_all add: nth_eq_iff_index_eq)
qed simp

text \<open>A new group: nobody is online and no message passes.\<close>

lemma makeSrvGrp_ok:
  assumes "makeSrvGrp g nss rn = Some sg" "\<forall>ns \<in> set nss. length ns = length nss"
  shows "grp_ok sg \<and> grpN sg = length nss \<and> (\<forall>a < grpN sg. \<not> online sg a \<and> (\<forall>b < grpN sg. \<not> link sg a b))"
proof -
  obtain ss rn1 where 1: "makeServers g nss rn = Some (ss, rn1)"
      "sg = \<lparr>gnet = rn1, srvs = ss, gid = g, connected = replicate (length nss) False, stopped = []\<rparr>"
    using assms(1) by (auto simp: makeSrvGrp_def bind_Some_iff)
  note sp = makeServers_spec [OF 1(1)]
  then have len: "length ss = length nss" and nm: "\<And>i. i < length nss \<Longrightarrow> endNames (ss ! i) = nss ! i"
    by (metis length_map, metis length_map nth_map)
  have mem: "nss ! i ! j \<in> set (concat nss)" if "i < length nss" "j < length nss" for i j
    using that assms(2) by (intro nth_concat_mem) simp_all
  have "inj_on (endOf sg) ({..<length nss} \<times> {..<length nss})"
  proof (rule inj_onI)
    fix p q assume "p \<in> {..<length nss} \<times> {..<length nss}" "q \<in> {..<length nss} \<times> {..<length nss}" "endOf sg p = endOf sg q"
    moreover obtain a b c d where "p = (a, b)" "q = (c, d)" by fastforce
    ultimately show "p = q"
      using concat_position [of nss a c b d] sp assms(2) by (auto simp: endOf_def 1(2) nm)
  qed
  moreover have "\<forall>s \<in> set ss. length (endNames s) = length nss"
    using sp assms(2) by (metis image_eqI list.set_map)
  ultimately show ?thesis
    using sp mem assms(2) by (auto simp: grp_ok_def grpN_def 1(2) len endOf_def nm online_def link_def)
qed

text \<open>C31: a partition around the leader. In a group of an odd number of servers, at least three,
  \<^verbatim>\<open>MakePartition\<close> puts the leader into the smaller part and \<^verbatim>\<open>Partition\<close> makes exactly these two parts:
  afterwards two servers can send to each other if and only if they are in the same part, in
  both directions, and all are online, whatever the links were before.\<close>

theorem partition_isolates_leader:
  assumes "grp_ok sg" "odd (grpN sg)" "3 \<le> grpN sg" "l < grpN sg"
  shows "\<exists>p1 p2 sg'. MakePartition l sg = Some (p1, p2) \<and> Partition p1 p2 sg = Some sg' \<and>
     l \<in> set p2 \<and> length p1 = grpN sg div 2 + 1 \<and> distinct (p1 @ p2) \<and> set (p1 @ p2) = {..<grpN sg} \<and>
     (\<forall>a < grpN sg. online sg' a \<and> (\<forall>b < grpN sg. link sg' a b \<longleftrightarrow> (a \<in> set p1 \<longleftrightarrow> b \<in> set p1)))"
proof -
  obtain p1 p2 where p: "MakePartition l sg = Some (p1, p2)" "distinct (p1 @ p2)" "set (p1 @ p2) = {..<grpN sg}"
      "length p1 = grpN sg div 2 + 1" "l \<in> set p2" using MakePartition_splits [OF assms(2-4)] by blast
  have g: "inGroup sg (p1 @ p2)" unfolding inGroup_def list_all_iff p(3) by simp
  then obtain sg' where sg': "Partition p1 p2 sg = Some sg'" "island (set p1) (set p2) sg'" "island (set p2) (set p1) sg'"
    using Partition_separates [OF assms(1) g] p(2) by auto
  have "online sg' a \<and> (\<forall>b < grpN sg. link sg' a b \<longleftrightarrow> (a \<in> set p1 \<longleftrightarrow> b \<in> set p1))" if "a < grpN sg" for a
  proof -
    have mem: "x \<in> set p1 \<and> x \<notin> set p2 \<or> x \<in> set p2 \<and> x \<notin> set p1" if "x < grpN sg" for x
      using that p(2,3) by (auto simp: set_eq_iff)
    then show ?thesis using mem [OF that] sg'(2,3) unfolding island_def by blast
  qed
  then show ?thesis using p sg'(1) by blast
qed

definition exampleNames :: "string list list" where
  "exampleNames = [[''aa'', ''ab'', ''ac''], [''ba'', ''bb'', ''bc''], [''ca'', ''cb'', ''cc'']]"

definition exampleGroup :: "(unit, nat, nat, nat) ServerGrp option" where
  "exampleGroup = makeSrvGrp 0 exampleNames (MakeNetwork (\<lambda>_. MakeServer ()))"

lemma exampleGroup_ok: "\<exists>sg. exampleGroup = Some sg \<and> grp_ok sg \<and> grpN sg = 3"
proof -
  have "exampleGroup \<noteq> None" by code_simp
  then obtain sg where sg: "exampleGroup = Some sg" by blast
  moreover have "\<forall>ns \<in> set exampleNames. length ns = length exampleNames" "length exampleNames = 3" by (simp_all add: exampleNames_def)
  ultimately show ?thesis using makeSrvGrp_ok [of 0 exampleNames "MakeNetwork (\<lambda>_. MakeServer ())" sg] by (simp add: exampleGroup_def)
qed

theorem partition_isolates_leader_witness:
  "\<exists>sg p1 p2 sg'. exampleGroup = Some sg \<and> MakePartition 1 sg = Some (p1, p2) \<and> Partition p1 p2 sg = Some sg' \<and>
     1 \<in> set p2 \<and> (\<forall>b < 3. link sg' 1 b \<longleftrightarrow> b \<notin> set p1)"
proof -
  obtain sg where sg: "exampleGroup = Some sg" "grp_ok sg" "grpN sg = 3" using exampleGroup_ok by blast
  then have "odd (grpN sg)" "3 \<le> grpN sg" "1 < grpN sg" by simp_all
  from partition_isolates_leader [OF sg(2) this] obtain p1 p2 sg' where
    "MakePartition 1 sg = Some (p1, p2)" "Partition p1 p2 sg = Some sg'" "1 \<in> set p2" "distinct (p1 @ p2)"
    "\<forall>b < 3. link sg' 1 b \<longleftrightarrow> (1 \<in> set p1 \<longleftrightarrow> b \<in> set p1)" using sg(3) by auto
  moreover from this have "1 \<notin> set p1" by auto
  ultimately show ?thesis using sg(1) by blast
qed

text \<open>With an even number of servers the parts overlap: a slot of the second list is never filled and
  stands for server 0, which is also in the first one.\<close>

lemma MakePartition_even:
  assumes "grpN sg = 4"
  shows "MakePartition 1 sg = Some ([0, 2, 3], [0, 1])"
  unfolding MakePartition_def assms by code_simp

lemma startServer_Some:
  assumes "startServer g names s rn = Some (srv, rn')"
  shows "makeEnds g 0 names rn = Some rn'"
    "srv = \<lparr>saved = Some (case saved s of Some ps \<Rightarrow> ps | None \<Rightarrow> MakePersister), svcs = None, endNames = names\<rparr>"
  using assms by (auto simp: startServer_def makeServer_def bind_Some_iff split: option.split)

lemma AddServer_frame [simp]:
  "ends (AddServer n a rn) = ends rn" "enabledAt (AddServer n a rn) e = enabledAt rn e"
  "serverAt (AddServer n a rn) n' = (if n' = n then Some a else serverAt rn n')"
  by (simp_all add: AddServer_def enabledAt_def serverAt_def)

lemma DeleteServer_frame [simp]:
  "ends (DeleteServer n rn) = ends rn" "enabledAt (DeleteServer n rn) e = enabledAt rn e"
  "serverAt (DeleteServer n rn) n' = (if n' = n then None else serverAt rn n')"
  by (simp_all add: DeleteServer_def enabledAt_def serverAt_def)

text \<open>New ends for one server.\<close>

lemma grp_ok_restart:
  assumes ok: "grp_ok sg" and i: "i < grpN sg" and s: "endNames srv = names" "length names = grpN sg" "distinct names"
    and new: "set names \<inter> ends (gnet sg) = {}" "ends rn = ends (gnet sg) \<union> set names"
  shows "grp_ok (sg\<lparr>srvs := (srvs sg)[i := srv], gnet := rn\<rparr>)"
proof -
  let ?sg = "sg\<lparr>srvs := (srvs sg)[i := srv], gnet := rn\<rparr>"
  have N: "grpN ?sg = grpN sg" by (simp add: grpN_def)
  have e: "endOf ?sg (a, b) = (if a = i then names ! b else endOf sg (a, b))" if "a < grpN sg" for a b
    using that s(1) by (simp add: endOf_def grpN_def)
  have old: "endOf sg (a, b) \<in> ends (gnet sg)" if "a < grpN sg" "b < grpN sg" for a b using ok that by (simp add: grp_ok_def)
  have "names ! b \<noteq> endOf sg (c, d)" if "b < grpN sg" "c < grpN sg" "d < grpN sg" for b c d
    using old [OF that(2,3)] new(1) nth_mem [of b names] s(2) that(1) by (metis disjoint_iff)
  then have "a = c \<and> b = d" if "a < grpN sg" "b < grpN sg" "c < grpN sg" "d < grpN sg" "endOf ?sg (a, b) = endOf ?sg (c, d)" for a b c d
    using that e nth_eq_iff_index_eq [OF s(3), of b d] s(2) endOf_eq [OF ok that(1-4)]
    by (auto simp: endOf_def [of sg] split: if_splits) metis+
  then have "inj_on (endOf ?sg) ({..<grpN sg} \<times> {..<grpN sg})" by (auto simp: inj_on_def)
  moreover have "\<forall>s \<in> set ((srvs sg)[i := srv]). length (endNames s) = grpN sg"
    using ok s(1,2) set_update_subset_insert [of "srvs sg" i srv] by (auto simp: grp_ok_def)
  moreover have "endOf ?sg (a, b) \<in> ends rn" if "a < grpN sg" "b < grpN sg" for a b
    using e [OF that(1)] old [OF that] new(2) that(2) s(2) by simp
  ultimately show ?thesis using ok by (simp add: grp_ok_def N)
qed

text \<open>A restart. A server that is shut down is deleted from the network, its services are told to
  stop, and when it is started again it has new services made from what it had persisted, is
  known to the network under its old name, and is cut off, in both directions, until it is
  connected; the links of the others are as before.\<close>

lemma restart_keeps_state_isolated:
  assumes ok: "grp_ok sg" and i: "i < grpN sg"
    and sh: "ShutdownServer i sg = Some sg1" and st: "StartServer mks labServer names a i sg1 = Some sg2"
  shows "grp_ok sg2 \<and> serverAt (gnet sg1) (ServerName (gid sg) i) = None \<and> serverAt (gnet sg2) (ServerName (gid sg) i) = Some a \<and>
     (let ps = (case saved (srvs sg ! i) of Some ps \<Rightarrow> ps | None \<Rightarrow> MakePersister)
      in saved (srvs sg2 ! i) = Some ps \<and> svcs (srvs sg2 ! i) = Some (mks i ps)) \<and>
     stopped sg2 = stopped sg @ (case svcs (srvs sg ! i) of Some l \<Rightarrow> l | None \<Rightarrow> []) \<and> \<not> online sg2 i \<and>
     (\<forall>x < grpN sg. \<not> link sg2 i x \<and> \<not> link sg2 x i \<and> (\<forall>y < grpN sg. x \<noteq> i \<longrightarrow> y \<noteq> i \<longrightarrow> link sg2 x y = link sg x y))"
proof -
  have "inGroup sg (i # grpAll sg)" using i by (simp add: inGroup_def grpAll_def list_all_iff)
  then obtain sg0 where d: "grpDisconnect i (grpAll sg) sg = Some sg0" "grp_ok sg0" "grpN sg0 = grpN sg" "srvs sg0 = srvs sg" "gid sg0 = gid sg"
      "stopped sg0 = stopped sg" "\<forall>x < grpN sg. online sg0 x \<longleftrightarrow> x \<noteq> i \<and> online sg x"
      "\<forall>x < grpN sg. \<forall>y < grpN sg. link sg0 x y \<longleftrightarrow> \<not> (x = i \<and> y \<in> set (grpAll sg)) \<and> \<not> (y = i \<and> x \<in> set (grpAll sg)) \<and> link sg x y"
    using grpDisconnect_spec [OF ok] by metis
  let ?old = "srvs sg ! i" let ?name = "ServerName (gid sg) i"
  have sg1: "sg1 = sg0\<lparr>gnet := DeleteServer ?name (gnet sg0), srvs := (srvs sg)[i := ?old\<lparr>saved := map_option Copy (saved ?old), svcs := None\<rparr>],
      stopped := stopped sg @ (case svcs ?old of Some l \<Rightarrow> l | None \<Rightarrow> [])\<rparr>"
    using sh d by (simp add: ShutdownServer_def shutdownServer_def Let_def)
  have len: "i < length (srvs sg)" using i by (simp add: grpN_def)
  have nlen: "length (endNames ?old) = grpN sg" using ok len nth_mem [OF len] by (simp add: grp_ok_def)
  obtain srv rn ps where r: "startServer (gid sg) names (srvs sg1 ! i) (gnet sg1) = Some (srv, rn)" "saved srv = Some ps" "length names = grpN sg"
      "sg2 = sg1\<lparr>srvs := (srvs sg1)[i := srv\<lparr>svcs := Some (mks i ps)\<rparr>], gnet := AddServer ?name a (rn\<lparr>heap := (heap rn)(a := labServer (mks i ps))\<rparr>)\<rparr>"
    using st d(5) len nlen by (auto simp: StartServer_def bind_Some_iff Let_def sg1 split: if_splits)
  note ss = startServer_Some [OF r(1)]
  note ends = makeEnds_spec [OF ss(1)]
  have ps: "ps = (case saved ?old of Some ps \<Rightarrow> ps | None \<Rightarrow> MakePersister)" using r(2) ss(2) len by (auto simp: sg1 split: option.split)
  let ?sg = "sg0\<lparr>srvs := (srvs sg0)[i := srv\<lparr>svcs := Some (mks i ps)\<rparr>], gnet := gnet sg2\<rparr>"
  have "grp_ok ?sg"
    using ends ss(2) r(3,4) i d(3) by (intro grp_ok_restart [OF d(2), of i _ names]) (auto simp: sg1)
  moreover have "grp_ok sg2 = grp_ok ?sg" by (simp add: grp_ok_def grpN_def endOf_def r(4) sg1 d(4))
  moreover have "link sg2 x y \<longleftrightarrow> x \<noteq> i \<and> y \<noteq> i \<and> link sg x y" if "x < grpN sg" "y < grpN sg" for x y
  proof -
    have al: "set (grpAll sg) = {..<grpN sg}" by (auto simp: grpAll_def)
    have en: "enabledAt (gnet sg2) e \<longleftrightarrow> e \<notin> set names \<and> enabledAt (gnet sg0) e" for e
      using ends by (simp add: r(4) sg1) (simp add: enabledAt_def)
    show ?thesis
    proof (cases "x = i")
      case True
      then have "endNames (srvs sg2 ! x) = names" using len ss(2) by (simp add: r(4) sg1)
      then have "\<not> link sg2 x y" using that(2) r(3) by (simp only: link_def en) simp
      then show ?thesis using True by simp
    next
      case False
      have "endNames (srvs sg ! x) ! y \<in> ends (gnet sg0)" using d(2,3,4) that by (auto simp: grp_ok_def endOf_def)
      then have "endNames (srvs sg ! x) ! y \<notin> set names" using ends by (auto simp: sg1)
      moreover have "srvs sg2 ! x = srvs sg ! x" using False by (simp add: r(4) sg1)
      ultimately have "link sg2 x y \<longleftrightarrow> link sg0 x y" by (simp only: link_def en d(4)) simp
      then show ?thesis using d(8) that al False by auto
    qed
  qed
  moreover have "\<not> online sg2 i" using d(7) i by (auto simp: online_def r(4) sg1)
  ultimately show ?thesis using len ps d(6) i r(2) by (auto simp: r(4) sg1 Let_def)
qed

lemma exampleRestart:
  "case exampleGroup of Some sg \<Rightarrow>
     (case ShutdownServer 0 sg of Some sg1 \<Rightarrow>
        StartServer (\<lambda>i ps. [7]) (\<lambda>_. MakeServer ()) [''da'', ''db'', ''dc''] 5 0 sg1 \<noteq> None | None \<Rightarrow> False) | None \<Rightarrow> False"
  by code_simp

section \<open>Clients\<close>

text \<open>The ends that a client has made, by the name of the server, and the servers it may talk to: all
  when \<open>None\<close>.\<close>

record Clnt =
  cends :: "(string \<times> string) list"
  csrvs :: "string list option"

definition makeClntTo :: "string list option \<Rightarrow> Clnt" where
  "makeClntTo allowed = \<lparr>cends = [], csrvs = allowed\<rparr>"

definition allowedL :: "Clnt \<Rightarrow> string \<Rightarrow> bool" where
  "allowedL clnt server = (case csrvs clnt of None \<Rightarrow> True | Some l \<Rightarrow> list_ex (\<lambda>n. n = server) l)"

text \<open>\<open>name\<close> is the random name of the end, if one has to be made.\<close>

definition clntMakeEnd :: "string \<Rightarrow> string \<Rightarrow> Clnt \<Rightarrow> 'st Network \<Rightarrow> (string \<times> Clnt \<times> 'st Network) option" where
  "clntMakeEnd name server clnt rn =
     (case map_of (cends clnt) server of
        Some e \<Rightarrow> Some (e, clnt, rn)
      | None \<Rightarrow> do {
          rn1 \<leftarrow> MakeEnd name rn;
          let rn2 = Connect name server rn1;
          let rn3 = (if allowedL clnt server then Enable name True rn2 else Enable name False rn2);
          Some (name, clnt\<lparr>cends := (server, name) # cends clnt\<rparr>, rn3)
        })"

definition clntConnectAll :: "Clnt \<Rightarrow> 'st Network \<Rightarrow> Clnt \<times> 'st Network" where
  "clntConnectAll clnt rn = (clnt\<lparr>csrvs := None\<rparr>, fold (\<lambda>(s, e). Enable e True) (cends clnt) rn)"

definition ConnectTo :: "string list \<Rightarrow> Clnt \<Rightarrow> 'st Network \<Rightarrow> Clnt \<times> 'st Network" where
  "ConnectTo allowed clnt rn =
     (let clnt1 = clnt\<lparr>csrvs := Some allowed\<rparr>
      in (clnt1, fold (\<lambda>(s, e) rn. if allowedL clnt1 s then Enable e True rn else rn) (cends clnt1) rn))"

definition clntDisconnect :: "string \<Rightarrow> Clnt \<Rightarrow> 'st Network \<Rightarrow> Clnt \<times> 'st Network" where
  "clntDisconnect srv clnt rn = (clnt, fold (\<lambda>(s, e) rn. if s = srv then Enable e False rn else rn) (cends clnt) rn)"

definition clntDisconnectAll :: "Clnt \<Rightarrow> 'st Network \<Rightarrow> Clnt \<times> 'st Network" where
  "clntDisconnectAll clnt rn = (clnt\<lparr>csrvs := Some []\<rparr>, fold (\<lambda>(s, e). Enable e False) (cends clnt) rn)"

fun removeEnds :: "(string \<times> string) list \<Rightarrow> 'st Network \<Rightarrow> 'st Network option" where
  "removeEnds [] rn = Some rn"
| "removeEnds ((s, e) # l) rn = do { rn1 \<leftarrow> DeleteEnd e rn; removeEnds l rn1 }"

text \<open>A client whose ends are its own and exist.\<close>

definition clnt_ok :: "Clnt \<Rightarrow> 'st Network \<Rightarrow> bool" where
  "clnt_ok clnt rn \<longleftrightarrow> distinct (map fst (cends clnt)) \<and> distinct (map snd (cends clnt)) \<and> snd ` set (cends clnt) \<subseteq> ends rn"

definition reachable :: "Clnt \<Rightarrow> 'st Network \<Rightarrow> string \<Rightarrow> bool" where
  "reachable clnt rn server = (case map_of (cends clnt) server of Some e \<Rightarrow> enabledAt rn e | None \<Rightarrow> allowedL clnt server)"

lemma enabledAt_pairs:
  "enabledAt (fold (\<lambda>(s, e) rn. if P s then Enable e b rn else rn) l rn) x =
     (if \<exists>s. P s \<and> (s, x) \<in> set l then b else enabledAt rn x)"
  by (induction l arbitrary: rn) (auto split: if_splits)

lemmas enabledAt_all_pairs = enabledAt_pairs [where P = "\<lambda>_. True", simplified]

lemma cends_unique:
  assumes "clnt_ok clnt rn" "(s, e) \<in> set (cends clnt)" "(s', e) \<in> set (cends clnt)"
  shows "s = s'"
proof -
  have "inj_on snd (set (cends clnt))" using assms(1) by (simp add: clnt_ok_def distinct_map)
  from inj_onD [OF this _ assms(2,3)] show ?thesis by simp
qed

text \<open>A client after \<^verbatim>\<open>ConnectAll\<close>, \<^verbatim>\<open>DisconnectAll\<close>, \<^verbatim>\<open>ConnectTo\<close>: which servers it reaches, through the ends
  it has and through those it would make.\<close>

lemma clnt_reachable:
  assumes "clnt_ok clnt rn"
  shows "reachable (fst (clntConnectAll clnt rn)) (snd (clntConnectAll clnt rn)) server"
    "\<not> reachable (fst (clntDisconnectAll clnt rn)) (snd (clntDisconnectAll clnt rn)) server"
    "reachable (fst (ConnectTo l clnt rn)) (snd (ConnectTo l clnt rn)) server \<longleftrightarrow>
       server \<in> set l \<or> (\<exists>e. map_of (cends clnt) server = Some e \<and> enabledAt rn e)"
proof -
  have m: "map_of (cends clnt) server = Some e \<Longrightarrow> (server, e) \<in> set (cends clnt)" for e by (rule map_of_SomeD)
  show "reachable (fst (clntConnectAll clnt rn)) (snd (clntConnectAll clnt rn)) server"
    "\<not> reachable (fst (clntDisconnectAll clnt rn)) (snd (clntDisconnectAll clnt rn)) server"
    using m by (auto simp: reachable_def clntConnectAll_def clntDisconnectAll_def allowedL_def enabledAt_all_pairs split: option.split)
  show "reachable (fst (ConnectTo l clnt rn)) (snd (ConnectTo l clnt rn)) server \<longleftrightarrow>
       server \<in> set l \<or> (\<exists>e. map_of (cends clnt) server = Some e \<and> enabledAt rn e)"
    using m cends_unique [OF assms]
    by (auto simp: reachable_def ConnectTo_def Let_def allowedL_def enabledAt_pairs list_ex_iff split: option.split)
qed

text \<open>\<^verbatim>\<open>ConnectTo\<close> does not disconnect. A client that has talked to a server before and is then
  restricted to other servers, or to none, still reaches it; only servers for which it has
  made no end yet are refused.\<close>

lemma ConnectTo_does_not_disconnect:
  assumes "clnt_ok clnt rn" "clntMakeEnd name server clnt rn = Some (e, clnt1, rn1)" "csrvs clnt = None" "server \<notin> fst ` set (cends clnt)"
  shows "reachable (fst (ConnectTo [] clnt1 rn1)) (snd (ConnectTo [] clnt1 rn1)) server \<and>
     \<not> allowedL (fst (ConnectTo [] clnt1 rn1)) server"
proof -
  have n: "map_of (cends clnt) server = None" using assms(4) by (simp add: map_of_eq_None_iff)
  have c: "cends clnt1 = (server, name) # cends clnt" "name \<notin> ends rn" "enabledAt rn1 name" "ends rn1 = insert name (ends rn)"
    using assms(2,3) n by (auto simp: clntMakeEnd_def bind_Some_iff Let_def allowedL_def MakeEnd_def Connect_def Enable_def enabledAt_def split: if_splits)
  then have "clnt_ok clnt1 rn1" using assms(1,4) by (auto simp: clnt_ok_def)
  then show ?thesis using clnt_reachable(3) [of clnt1 rn1 "[]" server] c by (auto simp: ConnectTo_def Let_def allowedL_def)
qed

end
