(* ===== verification/Test_Users.thy ===== *)
theory Test_Users
  imports Test_Group
begin

text \<open>
  Groups of servers and clients as users of one network. The rest of \<^verbatim>\<open>src/tester1/group.go\<close> (whole
  groups started, shut down and asked about) and the contract of everything that works on the
  shared network: a user changes only ends of its own, makes only new ends, and registers
  servers only under its own names. What one user can reach therefore never depends on what
  the others do.
\<close>

section \<open>Whole groups\<close>

definition SrvNames :: "('st, 'r, 's, 'v) ServerGrp \<Rightarrow> string list" where
  "SrvNames sg = map (ServerName (gid sg)) [0..<grpN sg]"

definition SrvName :: "nat \<Rightarrow> ('st, 'r, 's, 'v) ServerGrp \<Rightarrow> string option" where
  "SrvName i sg = (if i < grpN sg then Some (SrvNames sg ! i) else None)"

definition Services :: "('st, 'r, 's, 'v) ServerGrp \<Rightarrow> 'v list option list" where
  "Services sg = foldl (\<lambda>ss s. ss @ [svcs s]) [] (srvs sg)"

text \<open>The services are told to stop; \<open>stopped\<close> collects those that were.\<close>

definition grpCleanup :: "('st, 'r, 's, 'v) ServerGrp \<Rightarrow> ('st, 'r, 's, 'v) ServerGrp" where
  "grpCleanup sg =
     sg\<lparr>stopped := stopped sg @ concat (map (\<lambda>s. case svcs s of Some l \<Rightarrow> l | None \<Rightarrow> []) (srvs sg))\<rparr>"

definition IsConnected :: "nat \<Rightarrow> ('st, 'r, 's, 'v) ServerGrp \<Rightarrow> bool option" where
  "IsConnected i sg = (if i < length (connected sg) then Some (connected sg ! i) else None)"

definition GetConnected :: "('st, 'r, 's, 'v) ServerGrp \<Rightarrow> bool list" where
  "GetConnected sg = connected sg"

definition grpSnapshotSize :: "('s list \<Rightarrow> int) \<Rightarrow> ('st, 'r, 's, 'v) ServerGrp \<Rightarrow> int option" where
  "grpSnapshotSize bytes sg =
     foldl (\<lambda>acc s. do { snapshotsize \<leftarrow> acc; ps \<leftarrow> saved s;
              let n = SnapshotSize bytes ps; Some (if n > snapshotsize then n else snapshotsize) }) (Some 0) (srvs sg)"

text \<open>The loop of \<^verbatim>\<open>start\<close> from server \<open>i\<close> on; every server gets random names for its ends and the
  address of its new object.\<close>

fun startLoop :: "(nat \<Rightarrow> ('r, 's) Persister \<Rightarrow> 'v list) \<Rightarrow> ('v list \<Rightarrow> 'st Server) \<Rightarrow> (string list \<times> nat) list \<Rightarrow> nat \<Rightarrow>
    ('st, 'r, 's, 'v) ServerGrp \<Rightarrow> ('st, 'r, 's, 'v) ServerGrp option" where
  "startLoop mks labServer [] i sg = Some sg"
| "startLoop mks labServer ((names, a) # picks) i sg = do {
     sg1 \<leftarrow> StartServer mks labServer names a i sg;
     startLoop mks labServer picks (i + 1) sg1
   }"

definition grpStart :: "(nat \<Rightarrow> ('r, 's) Persister \<Rightarrow> 'v list) \<Rightarrow> ('v list \<Rightarrow> 'st Server) \<Rightarrow> (string list \<times> nat) list \<Rightarrow>
    ('st, 'r, 's, 'v) ServerGrp \<Rightarrow> ('st, 'r, 's, 'v) ServerGrp option" where
  "grpStart mks labServer picks sg = (if length picks \<noteq> grpN sg then None else startLoop mks labServer picks 0 sg)"

definition StartServers :: "(nat \<Rightarrow> ('r, 's) Persister \<Rightarrow> 'v list) \<Rightarrow> ('v list \<Rightarrow> 'st Server) \<Rightarrow> (string list \<times> nat) list \<Rightarrow>
    ('st, 'r, 's, 'v) ServerGrp \<Rightarrow> ('st, 'r, 's, 'v) ServerGrp option" where
  "StartServers mks labServer picks sg = do { sg1 \<leftarrow> grpStart mks labServer picks sg; ConnectAll sg1 }"

fun shutdownLoop :: "nat list \<Rightarrow> ('st, 'r, 's, 'v) ServerGrp \<Rightarrow> ('st, 'r, 's, 'v) ServerGrp option" where
  "shutdownLoop [] sg = Some sg"
| "shutdownLoop (i # is) sg = do { sg1 \<leftarrow> ShutdownServer i sg; shutdownLoop is sg1 }"

definition Shutdown :: "('st, 'r, 's, 'v) ServerGrp \<Rightarrow> ('st, 'r, 's, 'v) ServerGrp option" where
  "Shutdown sg = shutdownLoop [0..<grpN sg] sg"

definition RpcCount :: "nat \<Rightarrow> ('st, 'r, 's, 'v) ServerGrp \<Rightarrow> int option" where
  "RpcCount server sg = GetCount (ServerName (gid sg) server) (gnet sg)"

section \<open>The contract of a user of the network\<close>

text \<open>Between two states of the network, only the ends in \<open>E\<close> and the servers named in \<open>N\<close> may have
  changed, and ends may have been added.\<close>

definition net_frame :: "string set \<Rightarrow> string set \<Rightarrow> 'st Network \<Rightarrow> 'st Network \<Rightarrow> bool" where
  "net_frame E N rn rn' \<longleftrightarrow>
     (\<forall>e \<in> ends rn - E. e \<in> ends rn' \<and> enabledAt rn' e = enabledAt rn e \<and> connectionAt rn' e = connectionAt rn e) \<and>
     (\<forall>n. n \<notin> N \<longrightarrow> serverAt rn' n = serverAt rn n) \<and> netDone rn' = netDone rn"

lemma net_frame_refl [simp]: "net_frame E N rn rn"
  by (simp add: net_frame_def)

lemma net_frame_trans:
  "net_frame E N rn1 rn2 \<Longrightarrow> net_frame E' N rn2 rn3 \<Longrightarrow> E' \<inter> ends rn1 \<subseteq> E \<Longrightarrow> net_frame E N rn1 rn3"
  unfolding net_frame_def by (metis (no_types, lifting) DiffD1 DiffD2 DiffI IntI subsetD)

text \<open>The objects, the ends they use, the names of their servers, and when they fit a network. An
  operation changes the object and the network.\<close>

locale network_user =
  fixes uses :: "'u \<Rightarrow> string set"
    and names :: "'u \<Rightarrow> string set"
    and ok :: "'u \<Rightarrow> 'st Network \<Rightarrow> bool"
  assumes ok_uses: "ok u rn \<Longrightarrow> uses u \<subseteq> ends rn"
    and ok_frame: "ok u rn \<Longrightarrow> net_frame E N rn rn' \<Longrightarrow> uses u \<inter> E = {} \<Longrightarrow> ok u rn'"
begin

definition tame :: "('u \<Rightarrow> 'st Network \<Rightarrow> ('u \<times> 'st Network) option) \<Rightarrow> bool" where
  "tame f \<longleftrightarrow> (\<forall>u rn u' rn'. ok u rn \<longrightarrow> f u rn = Some (u', rn') \<longrightarrow>
     net_frame (uses u) (names u) rn rn' \<and> ok u' rn' \<and> uses u' \<inter> ends rn \<subseteq> uses u \<and> names u' = names u)"

lemma tameI:
  assumes "\<And>u rn u' rn'. ok u rn \<Longrightarrow> f u rn = Some (u', rn') \<Longrightarrow>
     net_frame (uses u) (names u) rn rn' \<and> ok u' rn' \<and> uses u' \<inter> ends rn \<subseteq> uses u \<and> names u' = names u"
  shows "tame f"
  using assms by (simp add: tame_def)

lemma tameD:
  assumes "tame f" "ok u rn" "f u rn = Some (u', rn')"
  shows "net_frame (uses u) (names u) rn rn'" "ok u' rn'" "uses u' \<inter> ends rn \<subseteq> uses u" "names u' = names u"
  using assms by (simp_all add: tame_def)

text \<open>Operations in sequence.\<close>

lemma tame_bind:
  assumes "tame f" "tame g"
  shows "tame (\<lambda>u rn. f u rn \<bind> (\<lambda>(u1, rn1). g u1 rn1))"
proof (rule tameI)
  fix u rn u' rn' assume ok: "ok u rn" and "f u rn \<bind> (\<lambda>(u1, rn1). g u1 rn1) = Some (u', rn')"
  then obtain u1 rn1 where f: "f u rn = Some (u1, rn1)" and g: "g u1 rn1 = Some (u', rn')" by (auto simp: bind_eq_Some_conv)
  note F = tameD [OF assms(1) ok f] and G = tameD [OF assms(2) tameD(2) [OF assms(1) ok f] g]
  have "e \<in> ends rn1 \<or> e \<in> uses u" if "e \<in> ends rn" for e using F(1) that by (auto simp: net_frame_def)
  then show "net_frame (uses u) (names u) rn rn' \<and> ok u' rn' \<and> uses u' \<inter> ends rn \<subseteq> uses u \<and> names u' = names u"
    using net_frame_trans [OF F(1), of "uses u1" rn'] F G by auto
qed

text \<open>What another user sees.\<close>

lemma others_unchanged:
  assumes "tame f" "ok u rn" "f u rn = Some (u', rn')" "X \<subseteq> ends rn" "uses u \<inter> X = {}"
  shows "uses u' \<inter> X = {}" "X \<subseteq> ends rn'" "\<forall>e \<in> X. enabledAt rn' e = enabledAt rn e \<and> connectionAt rn' e = connectionAt rn e"
    and "\<forall>n. n \<notin> names u \<longrightarrow> serverAt rn' n = serverAt rn n"
  using tameD [OF assms(1-3)] assms(4,5) unfolding net_frame_def by blast+

end

section \<open>Groups as users\<close>

definition grpUses :: "('st, 'r, 's, 'v) ServerGrp \<Rightarrow> string set" where
  "grpUses sg = (\<Union>s \<in> set (srvs sg). set (endNames s))"

definition grpNames :: "('st, 'r, 's, 'v) ServerGrp \<Rightarrow> string set" where
  "grpNames sg = ServerName (gid sg) ` {..<grpN sg}"

definition grpFits :: "('st, 'r, 's, 'v) ServerGrp \<Rightarrow> 'st Network \<Rightarrow> bool" where
  "grpFits sg rn = grp_ok (sg\<lparr>gnet := rn\<rparr>)"

text \<open>All groups point to one network: an operation of a group on it.\<close>

definition onNet :: "(('st, 'r, 's, 'v) ServerGrp \<Rightarrow> ('st, 'r, 's, 'v) ServerGrp option) \<Rightarrow>
    ('st, 'r, 's, 'v) ServerGrp \<Rightarrow> 'st Network \<Rightarrow> (('st, 'r, 's, 'v) ServerGrp \<times> 'st Network) option" where
  "onNet f sg rn = map_option (\<lambda>sg'. (sg', gnet sg')) (f (sg\<lparr>gnet := rn\<rparr>))"

lemma grpUses_mem:
  assumes "grp_ok sg" "i < grpN sg" "j < grpN sg"
  shows "endNames (srvs sg ! i) ! j \<in> grpUses sg"
proof -
  have s: "srvs sg ! i \<in> set (srvs sg)" using assms(2) by (simp add: grpN_def)
  then have "length (endNames (srvs sg ! i)) = grpN sg" using assms(1) by (simp add: grp_ok_def)
  then show ?thesis unfolding grpUses_def using s assms(3) by (intro UN_I [OF s]) simp
qed

lemma grpUses_iff:
  assumes "grp_ok sg"
  shows "e \<in> grpUses sg \<longleftrightarrow> (\<exists>i < grpN sg. \<exists>j < grpN sg. e = endNames (srvs sg ! i) ! j)"
proof
  assume "e \<in> grpUses sg"
  then obtain s where s: "s \<in> set (srvs sg)" "e \<in> set (endNames s)" by (auto simp: grpUses_def)
  then have "length (endNames s) = grpN sg" using assms by (simp add: grp_ok_def)
  then show "\<exists>i < grpN sg. \<exists>j < grpN sg. e = endNames (srvs sg ! i) ! j" using s by (metis grpN_def in_set_conv_nth)
qed (use grpUses_mem [OF assms] in blast)

lemma grp_view [simp]:
  "grpUses (sg\<lparr>gnet := rn\<rparr>) = grpUses sg" "grpNames (sg\<lparr>gnet := rn\<rparr>) = grpNames sg" "grpN (sg\<lparr>gnet := rn\<rparr>) = grpN sg"
  "endOf (sg\<lparr>gnet := rn\<rparr>) = endOf sg"
  by (simp_all add: grpUses_def grpNames_def grpN_def endOf_def)

lemma grp_ok_uses: "grp_ok sg \<Longrightarrow> grpUses sg \<subseteq> ends (gnet sg)"
  by (auto simp: grpUses_iff) (auto simp: grp_ok_def endOf_def)

lemma grp_ok_net: "grp_ok sg \<Longrightarrow> grpUses sg \<subseteq> ends rn \<Longrightarrow> grp_ok (sg\<lparr>gnet := rn\<rparr>)"
  using grpUses_mem [of sg] by (auto simp: grp_ok_def endOf_def)

interpretation group_user: network_user grpUses grpNames grpFits
proof unfold_locales
  fix u :: "('st, 'r, 's, 'v) ServerGrp" and rn rn' :: "'st Network" and E N
  assume ok: "grpFits u rn"
  then show "grpUses u \<subseteq> ends rn" using grp_ok_uses [of "u\<lparr>gnet := rn\<rparr>"] by (simp add: grpFits_def)
  moreover assume "net_frame E N rn rn'" "grpUses u \<inter> E = {}"
  ultimately have "grpUses u \<subseteq> ends rn'" by (auto simp: net_frame_def)
  then show "grpFits u rn'" using grp_ok_net [of "u\<lparr>gnet := rn\<rparr>" rn'] ok by (simp add: grpFits_def)
qed

text \<open>The contract for one step of a group that carries its network.\<close>

definition grp_step :: "('st, 'r, 's, 'v) ServerGrp \<Rightarrow> ('st, 'r, 's, 'v) ServerGrp \<Rightarrow> bool" where
  "grp_step sg sg' \<longleftrightarrow> net_frame (grpUses sg) (grpNames sg) (gnet sg) (gnet sg') \<and> grp_ok sg' \<and>
     grpUses sg' \<inter> ends (gnet sg) \<subseteq> grpUses sg \<and> gid sg' = gid sg \<and> grpN sg' = grpN sg"

lemma tame_onNet:
  assumes "\<And>sg sg'. grp_ok sg \<Longrightarrow> f sg = Some sg' \<Longrightarrow> grp_step sg sg'"
  shows "group_user.tame (onNet f)"
proof (rule group_user.tameI)
  fix sg rn sg' rn' assume "grpFits sg rn" "onNet f sg rn = Some (sg', rn')"
  then have "grp_step (sg\<lparr>gnet := rn\<rparr>) sg'" "rn' = gnet sg'" using assms by (auto simp: grpFits_def onNet_def)
  then show "net_frame (grpUses sg) (grpNames sg) rn rn' \<and> grpFits sg' rn' \<and> grpUses sg' \<inter> ends rn \<subseteq> grpUses sg \<and> grpNames sg' = grpNames sg"
    by (auto simp: grp_step_def grpFits_def grpNames_def)
qed

lemma onNet_Some [simp]: "group_user.tame (onNet Some)"
  by (rule tame_onNet) (simp add: grp_step_def)

lemma onNet_bind:
  assumes "group_user.tame (onNet f)" "group_user.tame (onNet g)"
  shows "group_user.tame (onNet (\<lambda>sg. f sg \<bind> g))"
proof -
  have "onNet (\<lambda>sg. f sg \<bind> g) = (\<lambda>u rn. onNet f u rn \<bind> (\<lambda>(u1, rn1). onNet g u1 rn1))"
    by (intro ext) (auto simp: onNet_def split: bind_split)
  then show ?thesis using group_user.tame_bind [OF assms] by simp
qed

lemma onNet_dep: "(\<And>x. group_user.tame (onNet (F x))) \<Longrightarrow> group_user.tame (onNet (\<lambda>sg. F (h sg) sg))"
  unfolding group_user.tame_def onNet_def by meson

text \<open>The operations.\<close>

lemma enable_loop_frame:
  assumes "\<And>j. j \<in> set js \<Longrightarrow> f j \<in> E"
  shows "net_frame E N rn (fold (\<lambda>j rn. if P j then Enable (f j) b rn else rn) js rn)"
proof -
  have "connections (fold (\<lambda>j rn. if P j then Enable (f j) b rn else rn) js rn) = connections rn"
    "servers (fold (\<lambda>j rn. if P j then Enable (f j) b rn else rn) js rn) = servers rn"
    "netDone (fold (\<lambda>j rn. if P j then Enable (f j) b rn else rn) js rn) = netDone rn"
    by (induction js arbitrary: rn) (simp_all add: Enable_def)
  then show ?thesis using assms by (auto simp: net_frame_def enabledAt_loop ends_loop connectionAt_def serverAt_def)
qed

lemmas plain_loop_frame = enable_loop_frame [where P = "\<lambda>_. True", simplified]

lemma net_frame_same:
  "net_frame E N rn rn1 \<Longrightarrow> net_frame E N rn1 rn2 \<Longrightarrow> net_frame E N rn rn2"
  by (rule net_frame_trans) auto

lemma grpConnect_tame: "group_user.tame (onNet (grpConnect i to))"
proof (rule tame_onNet)
  fix sg sg' :: "('st, 'r, 's, 'v) ServerGrp" assume ok: "grp_ok sg" and c: "grpConnect i to sg = Some sg'"
  then have g: "inGroup sg (i # to)" by (simp add: grpConnect_def split: if_splits)
  have "grp_ok sg'" "grpN sg' = grpN sg" using grpConnect_spec [OF ok g] c by auto
  moreover have "gid sg' = gid sg" "srvs sg' = srvs sg" using c g by (auto simp: grpConnect_def Let_def)
  moreover have m: "j \<in> set (i # to) \<Longrightarrow> k \<in> set (i # to) \<Longrightarrow> endNames (srvs sg ! j) ! k \<in> grpUses sg" for j k
    using g by (intro grpUses_mem [OF ok]) (auto simp: inGroup_def list_all_iff)
  have "net_frame (grpUses sg) (grpNames sg) (gnet sg) (gnet sg')"
  proof -
    have "gnet sg' = fold (\<lambda>j rn. if (connected sg)[i := True] ! j then Enable (endNames (srvs sg ! j) ! i) True rn else rn) to
        (serverConnect ((connected sg)[i := True]) to (srvs sg ! i) (gnet sg))" using c g by (auto simp: grpConnect_def Let_def)
    then show ?thesis unfolding serverConnect_def
      using m by (simp only:) (intro net_frame_same [OF enable_loop_frame enable_loop_frame]; simp)
  qed
  ultimately show "grp_step sg sg'" by (auto simp: grp_step_def grpUses_def)
qed

lemma grpDisconnect_tame: "group_user.tame (onNet (grpDisconnect i from))"
proof (rule tame_onNet)
  fix sg sg' :: "('st, 'r, 's, 'v) ServerGrp" assume ok: "grp_ok sg" and c: "grpDisconnect i from sg = Some sg'"
  then have g: "inGroup sg (i # from)" by (simp add: grpDisconnect_def split: if_splits)
  have "grp_ok sg'" "grpN sg' = grpN sg" "srvs sg' = srvs sg" "gid sg' = gid sg" using grpDisconnect_spec [OF ok g] c by auto
  moreover have m: "j \<in> set (i # from) \<Longrightarrow> k \<in> set (i # from) \<Longrightarrow> endNames (srvs sg ! j) ! k \<in> grpUses sg" for j k
    using g by (intro grpUses_mem [OF ok]) (auto simp: inGroup_def list_all_iff)
  have "net_frame (grpUses sg) (grpNames sg) (gnet sg) (gnet sg')"
  proof -
    have "gnet sg' = fold (\<lambda>j. Enable (endNames (srvs sg ! j) ! i) False) from (serverDisconnect from (srvs sg ! i) (gnet sg))"
      using c g by (auto simp: grpDisconnect_def Let_def)
    then show ?thesis unfolding serverDisconnect_def
      using m by (simp only:) (intro net_frame_same [OF plain_loop_frame plain_loop_frame]; simp)
  qed
  ultimately show "grp_step sg sg'" by (auto simp: grp_step_def grpUses_def)
qed

lemma makeEnds_frame: "makeEnds g j es rn = Some rn' \<Longrightarrow> net_frame {} {} rn rn'"
proof (induction es arbitrary: j rn)
  case (Cons e es)
  then obtain rn1 where 1: "MakeEnd e rn = Some rn1" "makeEnds g (j + 1) es (Connect e (ServerName g j) rn1) = Some rn'"
    by (auto simp: bind_Some_iff)
  then have "net_frame {} {} rn (Connect e (ServerName g j) rn1)"
    by (auto simp: net_frame_def MakeEnd_def Connect_def enabledAt_def connectionAt_def serverAt_def split: if_splits)
  then show ?case using net_frame_trans [OF _ Cons.IH [OF 1(2)]] by simp
qed simp

lemma net_frame_mono: "net_frame E N rn rn' \<Longrightarrow> E \<subseteq> E' \<Longrightarrow> N \<subseteq> N' \<Longrightarrow> net_frame E' N' rn rn'"
  by (auto simp: net_frame_def)

lemma StartServer_tame: "group_user.tame (onNet (StartServer mks labServer ns a i))"
proof (rule tame_onNet)
  fix sg sg' assume ok: "grp_ok sg" and s: "StartServer mks labServer ns a i sg = Some sg'"
  then have i: "i < grpN sg" "length ns = length (endNames (srvs sg ! i))" by (auto simp: StartServer_def inGroup_def split: if_splits)
  then have len: "i < length (srvs sg)" "length ns = grpN sg"
    using ok nth_mem [of i "srvs sg"] by (auto simp: grp_ok_def grpN_def)
  obtain srv rn ps where r: "startServer (gid sg) ns (srvs sg ! i) (gnet sg) = Some (srv, rn)"
      "sg' = sg\<lparr>srvs := (srvs sg)[i := srv\<lparr>svcs := Some (mks i ps)\<rparr>],
                 gnet := AddServer (ServerName (gid sg) i) a (rn\<lparr>heap := (heap rn)(a := labServer (mks i ps))\<rparr>)\<rparr>"
    using s by (auto simp: StartServer_def bind_Some_iff Let_def split: if_splits)
  note ss = startServer_Some [OF r(1)]
  note ends = makeEnds_spec [OF ss(1)]
  have "grp_ok sg'" unfolding r(2) using ends ss(2) len i(1) by (intro grp_ok_restart [OF ok, of i _ ns]) auto
  moreover have "net_frame (grpUses sg) (grpNames sg) (gnet sg) (gnet sg')"
  proof -
    have "net_frame (grpUses sg) (grpNames sg) rn (gnet sg')"
      using i(1) by (auto simp: r(2) net_frame_def grpNames_def enabledAt_def connectionAt_def serverAt_def AddServer_def)
    then show ?thesis using net_frame_mono [OF makeEnds_frame [OF ss(1)], of "grpUses sg" "grpNames sg"] net_frame_same by blast
  qed
  moreover have "grpUses sg' \<subseteq> grpUses sg \<union> set ns"
    using set_update_subset_insert [of "srvs sg" i "srv\<lparr>svcs := Some (mks i ps)\<rparr>"] ss(2) by (auto simp: grpUses_def r(2))
  ultimately show "grp_step sg sg'" using ends by (auto simp: grp_step_def r(2) grpN_def)
qed

lemma ShutdownServer_tame: "group_user.tame (onNet (ShutdownServer i :: ('st, 'r, 's, 'v) ServerGrp \<Rightarrow> _))"
proof -
  let ?stop = "\<lambda>sg :: ('st, 'r, 's, 'v) ServerGrp. let (srv, vs) = shutdownServer (srvs sg ! i) in
     if i < grpN sg then Some (sg\<lparr>gnet := DeleteServer (ServerName (gid sg) i) (gnet sg), srvs := (srvs sg)[i := srv], stopped := stopped sg @ vs\<rparr>)
     else None"
  have "group_user.tame (onNet ?stop)"
  proof (rule tame_onNet)
    fix sg sg' :: "('st, 'r, 's, 'v) ServerGrp" assume ok: "grp_ok sg" and s: "?stop sg = Some sg'"
    then obtain srv vs where r: "i < grpN sg" "shutdownServer (srvs sg ! i) = (srv, vs)"
        "sg' = sg\<lparr>gnet := DeleteServer (ServerName (gid sg) i) (gnet sg), srvs := (srvs sg)[i := srv], stopped := stopped sg @ vs\<rparr>"
      by (auto split: prod.splits if_splits)
    have e: "map endNames ((srvs sg)[i := srv]) = map endNames (srvs sg)"
      using r(1,2) by (auto simp: shutdownServer_def map_update grpN_def list_update_same_conv)
    then have nth: "endNames ((srvs sg)[i := srv] ! k) = endNames (srvs sg ! k)" if "k < grpN sg" for k
      using that by (metis grpN_def length_list_update nth_map)
    have "(endNames ` set ((srvs sg)[i := srv])) = endNames ` set (srvs sg)" using arg_cong [OF e, of set] by simp
    moreover have "grpUses x = \<Union> (set ` (endNames ` set (srvs x)))" for x :: "('st, 'r, 's, 'v) ServerGrp" unfolding grpUses_def image_image by (rule refl)
    ultimately have u: "grpUses sg' = grpUses sg" by (simp add: r(3) del: UN_simps image_image)
    have "\<forall>s \<in> set ((srvs sg)[i := srv]). length (endNames s) = grpN sg"
      using ok nth by (simp add: grp_ok_def all_set_conv_all_nth grpN_def)
    then have "grp_ok sg'" using ok nth by (auto simp: grp_ok_def r(3) grpN_def endOf_def inj_on_def)
    then show "grp_step sg sg'" using u r(1)
      by (auto simp: grp_step_def r(3) grpN_def net_frame_def grpNames_def enabledAt_def connectionAt_def serverAt_def DeleteServer_def)
  qed
  moreover have "ShutdownServer i = (\<lambda>sg :: ('st, 'r, 's, 'v) ServerGrp. grpDisconnect i (grpAll sg) sg \<bind> ?stop)"
    by (rule ext) (auto simp: ShutdownServer_def grpDisconnect_def inGroup_def Let_def grpN_def split: bind_split prod.split)
  moreover have "group_user.tame (onNet (\<lambda>sg :: ('st, 'r, 's, 'v) ServerGrp. grpDisconnect i (grpAll sg) sg))"
    by (rule onNet_dep [OF grpDisconnect_tame])
  ultimately show ?thesis using onNet_bind [of "\<lambda>sg. grpDisconnect i (grpAll sg) sg" ?stop] by simp
qed

lemma loop_eqs:
  "connectLoop [] = Some" "connectLoop (i # is) = (\<lambda>sg. ConnectOne i sg \<bind> connectLoop is)"
  "startLoop mks labServer [] i = Some"
  "startLoop mks labServer ((names, a) # picks) i = (\<lambda>sg. StartServer mks labServer names a i sg \<bind> startLoop mks labServer picks (i + 1))"
  "shutdownLoop [] = Some" "shutdownLoop (i # is) = (\<lambda>sg. ShutdownServer i sg \<bind> shutdownLoop is)"
  "partitionLoop [] mine other = Some"
  "partitionLoop (i # is) mine other = (\<lambda>sg. grpDisconnect i other sg \<bind> (\<lambda>sg1. grpConnect i mine sg1 \<bind> partitionLoop is mine other))"
  by (rule ext, simp)+

lemma connectLoop_tame: "group_user.tame (onNet (connectLoop is))"
proof (induction "is")
  case (Cons i js)
  have "group_user.tame (onNet (ConnectOne i))" unfolding ConnectOne_def by (rule onNet_dep [OF grpConnect_tame])
  then show ?case using onNet_bind [OF _ Cons.IH] by (simp add: loop_eqs)
qed (simp add: loop_eqs)

lemma startLoop_tame: "group_user.tame (onNet (startLoop mks labServer picks i))"
proof (induction picks arbitrary: i)
  case (Cons p picks)
  then show ?case using onNet_bind [OF StartServer_tame Cons.IH] by (cases p) (simp add: loop_eqs)
qed (simp add: loop_eqs)

lemma shutdownLoop_tame: "group_user.tame (onNet (shutdownLoop is))"
proof (induction "is")
  case (Cons i js)
  then show ?case using onNet_bind [OF ShutdownServer_tame Cons.IH] by (simp add: loop_eqs)
qed (simp add: loop_eqs)

lemma partitionLoop_tame: "group_user.tame (onNet (partitionLoop is mine other))"
proof (induction "is")
  case (Cons i js)
  then show ?case using onNet_bind [OF grpDisconnect_tame onNet_bind [OF grpConnect_tame Cons.IH]] by (simp add: loop_eqs)
qed (simp add: loop_eqs)

lemma ConnectAll_tame: "group_user.tame (onNet ConnectAll)"
  unfolding ConnectAll_def by (rule onNet_dep [OF connectLoop_tame])

lemma ConnectOne_tame: "group_user.tame (onNet (ConnectOne i))"
  unfolding ConnectOne_def by (rule onNet_dep [OF grpConnect_tame])

lemma DisconnectAll_tame: "group_user.tame (onNet (DisconnectAll i))"
  unfolding DisconnectAll_def by (rule onNet_dep [OF grpDisconnect_tame])

lemma Shutdown_tame: "group_user.tame (onNet Shutdown)"
  unfolding Shutdown_def by (rule onNet_dep [OF shutdownLoop_tame])

lemma Partition_tame: "group_user.tame (onNet (Partition p1 p2))"
  unfolding Partition_def by (rule onNet_bind [OF partitionLoop_tame partitionLoop_tame])

lemma StartServers_tame: "group_user.tame (onNet (StartServers mks labServer picks))"
proof -
  have "group_user.tame (onNet (grpStart mks labServer picks))"
    using startLoop_tame [of mks labServer picks 0] unfolding grpStart_def group_user.tame_def onNet_def by (auto split: if_splits)
  then show ?thesis unfolding StartServers_def by (rule onNet_bind [OF _ ConnectAll_tame])
qed

lemmas group_operations_tame = grpConnect_tame grpDisconnect_tame ConnectAll_tame ConnectOne_tame DisconnectAll_tame StartServer_tame
  StartServers_tame ShutdownServer_tame Shutdown_tame Partition_tame

section \<open>Clients as users\<close>

definition clntUses :: "Clnt \<Rightarrow> string set" where
  "clntUses clnt = snd ` set (cends clnt)"

interpretation client_user: network_user clntUses "\<lambda>_. {}" clnt_ok
  by unfold_locales (auto simp: clnt_ok_def clntUses_def net_frame_def)

lemma pair_loop_frame:
  "net_frame (snd ` set l) N rn (fold (\<lambda>(s, e) rn. if P s then Enable e b rn else rn) l rn)"
proof -
  have "fold (\<lambda>(s, e) rn. if P s then Enable e b rn else rn) l rn =
      fold (\<lambda>p rn. if P (fst p) then Enable (snd p) b rn else rn) l rn" by (simp add: case_prod_beta')
  moreover have "net_frame (snd ` set l) N rn (fold (\<lambda>p rn. if P (fst p) then Enable (snd p) b rn else rn) l rn)"
    by (rule enable_loop_frame) simp
  ultimately show ?thesis by simp
qed

lemma ends_pair_loop [simp]: "ends (fold (\<lambda>(s, e) rn. if P s then Enable e b rn else rn) l rn) = ends rn"
  by (induction l arbitrary: rn) (auto split: if_splits)

text \<open>The operations that set the ends a client has.\<close>

lemma client_loop_tame:
  assumes "\<And>clnt. cends (h clnt) = cends clnt"
  shows "client_user.tame (\<lambda>clnt rn. Some (h clnt, fold (\<lambda>(s, e) rn. if P clnt s then Enable e b rn else rn) (cends clnt) rn))"
proof (rule client_user.tameI)
  fix u rn u' rn' assume ok: "clnt_ok u rn"
    and "Some (h u, fold (\<lambda>(s, e) rn. if P u s then Enable e b rn else rn) (cends u) rn) = Some (u', rn')"
  then have r: "u' = h u" "rn' = fold (\<lambda>(s, e) rn. if P u s then Enable e b rn else rn) (cends u) rn" by simp_all
  have "clntUses u' = clntUses u" using assms by (simp add: clntUses_def r(1))
  moreover have "net_frame (clntUses u) {} rn rn'" using pair_loop_frame by (simp add: clntUses_def r(2))
  moreover have "clnt_ok u' rn'" using ok assms by (simp add: clnt_ok_def r)
  ultimately show "net_frame (clntUses u) {} rn rn' \<and> clnt_ok u' rn' \<and> clntUses u' \<inter> ends rn \<subseteq> clntUses u \<and> {} = ({} :: string set)" by simp
qed

lemma client_operations_tame:
  "client_user.tame (\<lambda>clnt rn. Some (clntConnectAll clnt rn))" "client_user.tame (\<lambda>clnt rn. Some (ConnectTo l clnt rn))"
  "client_user.tame (\<lambda>clnt rn. Some (clntDisconnect srv clnt rn))" "client_user.tame (\<lambda>clnt rn. Some (clntDisconnectAll clnt rn))"
  using client_loop_tame [of "\<lambda>clnt. clnt\<lparr>csrvs := None\<rparr>" "\<lambda>_ _. True" True]
    client_loop_tame [of "\<lambda>clnt. clnt\<lparr>csrvs := Some l\<rparr>" "\<lambda>clnt. allowedL (clnt\<lparr>csrvs := Some l\<rparr>)" True]
    client_loop_tame [of "\<lambda>clnt. clnt" "\<lambda>_ s. s = srv" False] client_loop_tame [of "\<lambda>clnt. clnt\<lparr>csrvs := Some []\<rparr>" "\<lambda>_ _. True" False]
  by (simp_all add: clntConnectAll_def ConnectTo_def clntDisconnect_def clntDisconnectAll_def Let_def)

lemma clntMakeEnd_tame:
  "client_user.tame (\<lambda>clnt rn. map_option snd (clntMakeEnd name server clnt rn))"
proof (rule client_user.tameI)
  fix u rn u' rn' assume ok: "clnt_ok u rn" and s: "map_option snd (clntMakeEnd name server u rn) = Some (u', rn')"
  show "net_frame (clntUses u) {} rn rn' \<and> clnt_ok u' rn' \<and> clntUses u' \<inter> ends rn \<subseteq> clntUses u \<and> {} = ({} :: string set)"
  proof (cases "map_of (cends u) server")
    case None
    then have "server \<notin> fst ` set (cends u)" by (simp add: map_of_eq_None_iff)
    moreover obtain rn1 b where "MakeEnd name rn = Some rn1" "rn' = Enable name b (Connect name server rn1)"
        "u' = u\<lparr>cends := (server, name) # cends u\<rparr>"
      using s None by (auto simp: clntMakeEnd_def bind_Some_iff Let_def split: if_splits)
    ultimately show ?thesis using ok
      by (auto simp: clnt_ok_def clntUses_def net_frame_def MakeEnd_def Connect_def Enable_def enabledAt_def connectionAt_def serverAt_def
          split: if_splits)
  qed (use ok s in \<open>auto simp: clntMakeEnd_def\<close>)
qed

text \<open>Removing a client takes its ends off the network; it never meets an end that is gone.\<close>

lemma removeEnds_frame:
  assumes "distinct (map snd l)" "snd ` set l \<subseteq> ends rn"
  shows "\<exists>rn'. removeEnds l rn = Some rn' \<and> ends rn' = ends rn - snd ` set l \<and> net_frame (snd ` set l) {} rn rn'"
  using assms
proof (induction l arbitrary: rn)
  case (Cons p l)
  obtain s e where p: "p = (s, e)" by fastforce
  obtain rn1 where 1: "DeleteEnd e rn = Some rn1" "ends rn1 = ends rn - {e}" "net_frame {e} {} rn rn1"
    using Cons.prems(2) p by (auto simp: DeleteEnd_def net_frame_def enabledAt_def connectionAt_def serverAt_def)
  then obtain rn' where "removeEnds l rn1 = Some rn'" "ends rn' = ends rn1 - snd ` set l" "net_frame (snd ` set l) {} rn1 rn'"
    using Cons.IH [of rn1] Cons.prems p by (auto simp: subset_Diff_insert)
  moreover have "net_frame (insert e (snd ` set l)) {} rn rn'"
    by (rule net_frame_same [OF net_frame_mono [OF 1(3)] net_frame_mono [OF calculation(3)]]) auto
  ultimately show ?case using 1 p by auto
qed simp

section \<open>Starting a group\<close>

lemma ServerName_inj: "ServerName g i = ServerName h j \<longleftrightarrow> g = h \<and> i = j"
  using dash_split [of "itoa g" "itoa i" "itoa h" "itoa j"] itoa_no_dash itoa_inj by (auto simp: ServerName_def)

lemma servers_if_loop [simp]: "servers (fold (\<lambda>j rn. if P j then Enable (f j) b rn else rn) js rn) = servers rn"
  by (induction js arbitrary: rn) (simp_all add: Enable_def)

lemma grpConnect_keeps:
  "grpConnect i to sg = Some sg' \<Longrightarrow> srvs sg' = srvs sg \<and> gid sg' = gid sg \<and> servers (gnet sg') = servers (gnet sg)"
  by (auto simp: grpConnect_def Let_def serverConnect_def split: if_splits)

text \<open>The servers in \<open>D\<close> are connected with each other already.\<close>

lemma connectLoop_spec:
  assumes "grp_ok sg" "set js \<subseteq> {..<grpN sg}" "D \<subseteq> {..<grpN sg}" "island D {} sg"
  shows "\<exists>sg'. connectLoop js sg = Some sg' \<and> grp_ok sg' \<and> island (D \<union> set js) {} sg' \<and>
     srvs sg' = srvs sg \<and> gid sg' = gid sg \<and> servers (gnet sg') = servers (gnet sg)"
  using assms
proof (induction js arbitrary: sg D)
  case (Cons i js)
  have all: "set (grpAll sg) = {..<grpN sg}" by (auto simp: grpAll_def)
  have i: "i < grpN sg" "inGroup sg (i # grpAll sg)" using Cons.prems(2) by (auto simp: inGroup_def list_all_iff all)
  obtain sg1 where 1: "grpConnect i (grpAll sg) sg = Some sg1" "grp_ok sg1" "grpN sg1 = grpN sg"
      "\<forall>a < grpN sg. online sg1 a \<longleftrightarrow> a = i \<or> online sg a"
      "\<forall>a < grpN sg. \<forall>b < grpN sg. link sg1 a b \<longleftrightarrow> a = i \<and> b \<in> set (grpAll sg) \<and> (b = i \<or> online sg b) \<or>
         b = i \<and> a \<in> set (grpAll sg) \<and> (a = i \<or> online sg a) \<or> link sg a b"
    using grpConnect_spec [OF Cons.prems(1) i(2)] by (elim exE conjE) (rule that)
  have "island (insert i D) {} sg1"
  proof (rule islandI)
    fix a assume a: "a \<in> insert i D"
    have lt: "x < grpN sg" if "x \<in> insert i D" for x using that i(1) Cons.prems(3) by auto
    have on: "x = i \<or> online sg x" if "x \<in> insert i D" for x using that Cons.prems(4) by (auto simp: island_def)
    show "online sg1 a" using 1(4) lt [OF a] on [OF a] by blast
    show "link sg1 a b" if b: "b \<in> insert i D" for b
    proof (cases "a = i \<or> b = i")
      case True
      then show ?thesis using 1(5) lt [OF a] lt [OF b] on [OF a] on [OF b] unfolding all by blast
    next
      case False
      then have "link sg a b" using a b Cons.prems(4) by (auto simp: island_def)
      then show ?thesis using 1(5) lt [OF a] lt [OF b] by blast
    qed
  qed simp_all
  then obtain sg' where "connectLoop js sg1 = Some sg'" "grp_ok sg'" "island (insert i D \<union> set js) {} sg'"
      "srvs sg' = srvs sg1" "gid sg' = gid sg1" "servers (gnet sg') = servers (gnet sg1)"
    using Cons.IH [OF 1(2), of "insert i D"] Cons.prems(2,3) 1(3) by auto
  then show ?case using 1(1) grpConnect_keeps [OF 1(1)] by (auto simp: ConnectOne_def)
qed auto

lemma ConnectAll_spec:
  assumes "grp_ok sg"
  shows "\<exists>sg'. ConnectAll sg = Some sg' \<and> grp_ok sg' \<and> (\<forall>a < grpN sg. online sg' a \<and> (\<forall>b < grpN sg. link sg' a b)) \<and>
     srvs sg' = srvs sg \<and> gid sg' = gid sg \<and> servers (gnet sg') = servers (gnet sg)"
proof -
  have "set (grpAll sg) = {..<grpN sg}" by (auto simp: grpAll_def)
  moreover have "island {} {} sg" by (simp add: island_def)
  ultimately show ?thesis using connectLoop_spec [OF assms, of "grpAll sg" "{}"] by (auto simp: ConnectAll_def island_def)
qed

lemma makeEnds_total: "distinct es \<Longrightarrow> set es \<inter> ends rn = {} \<Longrightarrow> \<exists>rn'. makeEnds g j es rn = Some rn'"
proof (induction es arbitrary: j rn)
  case (Cons e es)
  then obtain rn1 where 1: "MakeEnd e rn = Some rn1" "ends rn1 = insert e (ends rn)" by (auto simp: MakeEnd_def)
  then show ?case using Cons.IH [of "Connect e (ServerName g j) rn1" "j + 1"] Cons.prems by (auto simp: Connect_def)
qed simp

text \<open>The persister that a started server gets.\<close>

definition savedOr :: "('r, 's, 'v) TServer \<Rightarrow> ('r, 's) Persister" where
  "savedOr s = (case saved s of Some ps \<Rightarrow> ps | None \<Rightarrow> MakePersister)"

lemma StartServer_spec:
  assumes ok: "grp_ok sg" and i: "i < grpN sg" and ns: "length ns = grpN sg" "distinct ns" "set ns \<inter> ends (gnet sg) = {}"
  shows "\<exists>sg'. StartServer mks labServer ns a i sg = Some sg' \<and> grp_ok sg' \<and> grpN sg' = grpN sg \<and> gid sg' = gid sg \<and>
     ends (gnet sg') = ends (gnet sg) \<union> set ns \<and>
     (\<forall>n. serverAt (gnet sg') n = (if n = ServerName (gid sg) i then Some a else serverAt (gnet sg) n)) \<and>
     srvs sg' = (srvs sg)[i := \<lparr>saved = Some (savedOr (srvs sg ! i)), svcs = Some (mks i (savedOr (srvs sg ! i))), endNames = ns\<rparr>]"
proof -
  have len: "i < length (srvs sg)" "length (endNames (srvs sg ! i)) = grpN sg" using ok i by (auto simp: grp_ok_def grpN_def)
  obtain rn where rn: "makeEnds (gid sg) 0 ns (gnet sg) = Some rn" using makeEnds_total [OF ns(2,3)] by blast
  let ?srv = "\<lparr>saved = Some (savedOr (srvs sg ! i)), svcs = Some (mks i (savedOr (srvs sg ! i))), endNames = ns\<rparr>"
  let ?sg = "sg\<lparr>srvs := (srvs sg)[i := ?srv], gnet := AddServer (ServerName (gid sg) i) a
       (rn\<lparr>heap := (heap rn)(a := labServer (mks i (savedOr (srvs sg ! i))))\<rparr>)\<rparr>"
  have "startServer (gid sg) ns (srvs sg ! i) (gnet sg) =
      Some (\<lparr>saved = Some (savedOr (srvs sg ! i)), svcs = None, endNames = ns\<rparr>, rn)"
    using rn by (simp add: startServer_def makeServer_def savedOr_def split: option.split)
  then have s: "StartServer mks labServer ns a i sg = Some ?sg"
    using i ns(1) len(2) by (simp add: StartServer_def inGroup_def Let_def)
  note e = makeEnds_spec [OF rn]
  have "serverAt rn = serverAt (gnet sg)" using e by (auto simp: serverAt_def)
  moreover have "grp_ok ?sg" using e ns by (intro grp_ok_restart [OF ok i, of _ ns]) auto
  moreover have "serverAt (rn\<lparr>heap := h\<rparr>) = serverAt rn" for h by (simp add: serverAt_def fun_eq_iff)
  ultimately show ?thesis using s e by (intro exI [of _ ?sg]) (simp add: grpN_def)
qed

text \<open>Random names that are new and as many as a group of \<open>n\<close> servers needs.\<close>

definition fresh_picks :: "nat \<Rightarrow> (string list \<times> nat) list \<Rightarrow> 'st Network \<Rightarrow> bool" where
  "fresh_picks n picks rn \<longleftrightarrow> (\<forall>p \<in> set picks. length (fst p) = n) \<and> distinct (concat (map fst picks)) \<and>
     set (concat (map fst picks)) \<inter> ends rn = {}"

text \<open>Server \<open>k\<close> runs with services made from what it had persisted and is known under its name.\<close>

definition started :: "(nat \<Rightarrow> ('r, 's) Persister \<Rightarrow> 'v list) \<Rightarrow> nat \<Rightarrow> nat \<Rightarrow> ('r, 's, 'v) TServer \<Rightarrow> ('st, 'r, 's, 'v) ServerGrp \<Rightarrow> bool" where
  "started mks a k old sg \<longleftrightarrow> serverAt (gnet sg) (ServerName (gid sg) k) = Some a \<and>
     saved (srvs sg ! k) = Some (savedOr old) \<and> svcs (srvs sg ! k) = Some (mks k (savedOr old))"

lemma startLoop_spec:
  assumes "grp_ok sg" "i + length picks \<le> grpN sg" "fresh_picks (grpN sg) picks (gnet sg)"
  shows "\<exists>sg'. startLoop mks labServer picks i sg = Some sg' \<and> grp_ok sg' \<and> grpN sg' = grpN sg \<and> gid sg' = gid sg \<and>
     (\<forall>k < length picks. started mks (snd (picks ! k)) (i + k) (srvs sg ! (i + k)) sg') \<and>
     (\<forall>k < i. srvs sg' ! k = srvs sg ! k \<and> serverAt (gnet sg') (ServerName (gid sg) k) = serverAt (gnet sg) (ServerName (gid sg) k))"
  using assms
proof (induction picks arbitrary: i sg)
  case (Cons p picks)
  obtain ns a where p: "p = (ns, a)" by fastforce
  have i: "i < grpN sg" "i < length (srvs sg)" using Cons.prems(2) by (simp_all add: grpN_def)
  have ns: "length ns = grpN sg" "distinct ns" "set ns \<inter> ends (gnet sg) = {}" using Cons.prems(3) p by (auto simp: fresh_picks_def)
  obtain sg1 where 1: "StartServer mks labServer ns a i sg = Some sg1" "grp_ok sg1" "grpN sg1 = grpN sg" "gid sg1 = gid sg"
     "ends (gnet sg1) = ends (gnet sg) \<union> set ns"
     "\<forall>n. serverAt (gnet sg1) n = (if n = ServerName (gid sg) i then Some a else serverAt (gnet sg) n)"
     "srvs sg1 = (srvs sg)[i := \<lparr>saved = Some (savedOr (srvs sg ! i)), svcs = Some (mks i (savedOr (srvs sg ! i))), endNames = ns\<rparr>]"
    using StartServer_spec [OF Cons.prems(1) i(1) ns, of mks labServer a] by (elim exE conjE) (rule that)
  have "fresh_picks (grpN sg1) picks (gnet sg1)" using Cons.prems(3) p 1(3,5) by (auto simp: fresh_picks_def)
  then obtain sg' where 2: "startLoop mks labServer picks (i + 1) sg1 = Some sg'" "grp_ok sg'" "grpN sg' = grpN sg1" "gid sg' = gid sg1"
     "\<forall>k < length picks. started mks (snd (picks ! k)) (i + 1 + k) (srvs sg1 ! (i + 1 + k)) sg'"
     "\<forall>k < i + 1. srvs sg' ! k = srvs sg1 ! k \<and> serverAt (gnet sg') (ServerName (gid sg1) k) = serverAt (gnet sg1) (ServerName (gid sg1) k)"
    using Cons.IH [OF 1(2), of "i + 1"] Cons.prems(2) 1(3) by (auto simp del: add_Suc_right)
  have "started mks (snd ((p # picks) ! k)) (i + k) (srvs sg ! (i + k)) sg'" if "k < length (p # picks)" for k
  proof (cases k)
    case 0
    have "srvs sg' ! i = \<lparr>saved = Some (savedOr (srvs sg ! i)), svcs = Some (mks i (savedOr (srvs sg ! i))), endNames = ns\<rparr>"
      "serverAt (gnet sg') (ServerName (gid sg) i) = Some a" using 2(6) 1(4,6,7) i(2) by auto
    then show ?thesis using 0 p 2(4) 1(4) by (simp add: started_def)
  next
    case (Suc m)
    then show ?thesis using 2(5) that 1(7) by (auto simp: nth_list_update)
  qed
  moreover have "srvs sg' ! k = srvs sg ! k \<and> serverAt (gnet sg') (ServerName (gid sg) k) = serverAt (gnet sg) (ServerName (gid sg) k)"
    if "k < i" for k using 2(6) 1(4,6,7) that by (simp add: ServerName_inj)
  ultimately show ?case using 1(1,3,4) 2(1-4) p by auto
qed simp

text \<open>A group that is started: it comes up whatever state it was in, every server runs with services
  made from what it had persisted, is known under its name, and can send to every server.\<close>

lemma StartServers_spec:
  assumes "grp_ok sg" "length picks = grpN sg" "fresh_picks (grpN sg) picks (gnet sg)"
  shows "\<exists>sg'. StartServers mks labServer picks sg = Some sg' \<and> grp_ok sg' \<and> grpN sg' = grpN sg \<and> gid sg' = gid sg \<and>
     (\<forall>k < grpN sg. started mks (snd (picks ! k)) k (srvs sg ! k) sg' \<and> online sg' k \<and> (\<forall>j < grpN sg. link sg' k j))"
proof -
  obtain sg1 where 1: "startLoop mks labServer picks 0 sg = Some sg1" "grp_ok sg1" "grpN sg1 = grpN sg" "gid sg1 = gid sg"
     "\<forall>k < grpN sg. started mks (snd (picks ! k)) k (srvs sg ! k) sg1"
    using startLoop_spec [OF assms(1), of 0 picks mks labServer] assms(2,3) by auto
  obtain sg' where 2: "ConnectAll sg1 = Some sg'" "grp_ok sg'" "\<forall>a < grpN sg1. online sg' a \<and> (\<forall>b < grpN sg1. link sg' a b)"
     "srvs sg' = srvs sg1" "gid sg' = gid sg1" "servers (gnet sg') = servers (gnet sg1)"
    using ConnectAll_spec [OF 1(2)] by blast
  have "started mks a k s sg' = started mks a k s sg1" for a k s using 2(4-6) by (simp add: started_def serverAt_def)
  then show ?thesis using 1 2 assms(2) by (auto simp: StartServers_def grpStart_def grpN_def)
qed

end
