(* ===== verification/Test_Config.thy ===== *)
theory Test_Config
  imports Test_Users Test_Annotation "HOL-Library.Sublist" "HOL-Library.Multiset"
begin

text \<open>
  The configuration of a test (\<^verbatim>\<open>src/tester1/config.go\<close>): several groups of servers (\<^verbatim>\<open>Groups\<close> in
  \<^verbatim>\<open>group.go\<close>) and clients (\<^verbatim>\<open>Clnts\<close> in \<^verbatim>\<open>clnts.go\<close>) on one shared network, from \<^verbatim>\<open>MakeConfig\<close> to
  \<^verbatim>\<open>Cleanup\<close>. Groups and clients are users of the network, so whatever a test does with one of them
  leaves the others as they are. Times are in nanoseconds; \<open>None\<close> is a panic or \<^verbatim>\<open>log.Fatal\<close>.
\<close>

section \<open>Random names\<close>

text \<open>The encoding of \<^verbatim>\<open>base64.URLEncoding\<close>.\<close>

definition alphabet64 :: string where
  "alphabet64 = ''ABCDEFGHIJKLMNOPQRSTUVWXYZabcdefghijklmnopqrstuvwxyz0123456789-_''"

definition char64 :: "nat \<Rightarrow> char" where
  "char64 k = alphabet64 ! (k mod 64)"

fun encode64 :: "8 word list \<Rightarrow> string" where
  "encode64 [] = []"
| "encode64 [a] = (let v = unat a * 65536 in [char64 (v div 262144), char64 (v div 4096), CHR ''='', CHR ''=''])"
| "encode64 [a, b] = (let v = unat a * 65536 + unat b * 256
     in [char64 (v div 262144), char64 (v div 4096), char64 (v div 64), CHR ''=''])"
| "encode64 (a # b # c # l) = (let v = unat a * 65536 + unat b * 256 + unat c
     in [char64 (v div 262144), char64 (v div 4096), char64 (v div 64), char64 v] @ encode64 l)"

text \<open>\<open>b\<close> are the bytes from the random source, as many as the code asks for.\<close>

definition Randstring :: "nat \<Rightarrow> 8 word list \<Rightarrow> string option" where
  "Randstring n b =
     (if length b \<noteq> 2 * n then None
      else let s = encode64 b in if n \<le> length s then Some (take n s) else None)"

text \<open>\<open>js ! i\<close> is the random number drawn for position \<open>i\<close>, at most \<open>i\<close>.\<close>

definition random_handles :: "nat list \<Rightarrow> 'a list \<Rightarrow> 'a list" where
  "random_handles js kvh = fold (\<lambda>i sa. let j = js ! i in sa[i := sa ! j, j := sa ! i]) [0..<length kvh] kvh"

lemma char64_mem: "char64 k \<in> set alphabet64"
proof -
  have "length alphabet64 = 64" by (simp add: alphabet64_def)
  then show ?thesis unfolding char64_def by (intro nth_mem) simp
qed

lemma encode64_core: "\<exists>core pad. encode64 b = core @ pad \<and> set core \<subseteq> set alphabet64 \<and> 8 * length b \<le> 6 * length core"
proof (induction b rule: encode64.induct)
  case (4 a b c l)
  let ?v = "unat a * 65536 + unat b * 256 + unat c"
  obtain core pad where "encode64 l = core @ pad" "set core \<subseteq> set alphabet64" "8 * length l \<le> 6 * length core" using 4 by blast
  then show ?case
    by (intro exI [of _ "[char64 (?v div 262144), char64 (?v div 4096), char64 (?v div 64), char64 ?v] @ core"] exI [of _ pad])
      (simp add: Let_def char64_mem)
next
  case (2 a)
  show ?case
    by (intro exI [of _ "[char64 (unat a * 65536 div 262144), char64 (unat a * 65536 div 4096)]"] exI [of _ "''==''"]) (simp add: Let_def char64_mem)
next
  case (3 a b)
  let ?v = "unat a * 65536 + unat b * 256"
  show ?case
    by (intro exI [of _ "[char64 (?v div 262144), char64 (?v div 4096), char64 (?v div 64)]"] exI [of _ "''=''"]) (simp add: Let_def char64_mem)
qed simp

text \<open>The slice is in range and free of padding.\<close>

lemma Randstring_spec:
  assumes "length b = 2 * n"
  shows "\<exists>s. Randstring n b = Some s \<and> length s = n \<and> set s \<subseteq> set alphabet64"
proof -
  obtain core pad where c: "encode64 b = core @ pad" "set core \<subseteq> set alphabet64" "8 * length b \<le> 6 * length core" using encode64_core by blast
  then have n: "n \<le> length core" using assms by linarith
  then have "Randstring n b = Some (take n core)" using assms c(1) by (simp add: Randstring_def Let_def)
  then show ?thesis using n c(2) set_take_subset [of n core] by auto
qed

lemma random_handles_permutes:
  assumes "\<forall>i < length kvh. js ! i \<le> i"
  shows "mset (random_handles js kvh) = mset kvh"
proof -
  have "mset (fold (\<lambda>i sa. let j = js ! i in sa[i := sa ! j, j := sa ! i]) is sa) = mset sa" if "\<forall>i \<in> set is. i < length sa \<and> js ! i \<le> i" for "is" and sa :: "'a list"
    using that
  proof (induction "is" arbitrary: sa)
    case (Cons i l)
    let ?sa = "sa[i := sa ! (js ! i), js ! i := sa ! i]"
    have "i < length sa" "js ! i < length sa" using Cons.prems by auto
    then have "mset ?sa = mset sa" using mset_swap [of "js ! i" sa i] by simp
    moreover have "mset (fold (\<lambda>i sa. let j = js ! i in sa[i := sa ! j, j := sa ! i]) l ?sa) = mset ?sa"
      using Cons.prems by (intro Cons.IH) simp
    ultimately show ?case by (simp add: Let_def)
  qed simp
  from this [of "[0..<length kvh]" kvh] show ?thesis using assms by (simp add: random_handles_def)
qed

section \<open>The configuration\<close>

text \<open>\<open>cNet\<close> is the network that all groups and clients point to; the networks inside the stored groups
  are not used. Clients are objects with addresses, \<open>clerks\<close> the set of those that are in use,
  nil after \<^verbatim>\<open>cleanup\<close>.\<close>

record ('st, 'r, 's, 'v) TConfig =
  cNet :: "'st Network"
  grps :: "nat \<rightharpoonup> ('st, 'r, 's, 'v) ServerGrp"
  clnts :: "nat \<rightharpoonup> Clnt"
  clerks :: "nat list option"
  tFailed :: bool
  cStart :: int
  cT0 :: int
  rpcs0 :: int
  cOps :: "32 word"

definition GRP0 :: nat where "GRP0 = 0"

subsection \<open>Groups\<close>

definition newGroups :: "'st Network \<Rightarrow> ('st, 'r, 's, 'v) TConfig" where
  "newGroups rn = \<lparr>cNet = rn, grps = Map.empty, clnts = Map.empty, clerks = None, tFailed = False, cStart = 0, cT0 = 0,
     rpcs0 = 0, cOps = 0\<rparr>"

text \<open>\<open>names\<close> are \<open>nsrv\<close> random names for each of the \<open>nsrv\<close> servers.\<close>

definition MakeGroup :: "nat \<Rightarrow> nat \<Rightarrow> string list list \<Rightarrow> ('st, 'r, 's, 'v) TConfig \<Rightarrow> ('st, 'r, 's, 'v) TConfig option" where
  "MakeGroup g nsrv names cfg =
     (if length names \<noteq> nsrv \<or> \<not> list_all (\<lambda>ns. length ns = nsrv) names then None
      else do {
        sg \<leftarrow> makeSrvGrp g names (cNet cfg);
        Some (cfg\<lparr>cNet := gnet sg, grps := (grps cfg)(g \<mapsto> sg)\<rparr>)
      })"

definition lookupGroup :: "nat \<Rightarrow> ('st, 'r, 's, 'v) TConfig \<Rightarrow> ('st, 'r, 's, 'v) ServerGrp option" where
  "lookupGroup g cfg = map_option (\<lambda>sg. sg\<lparr>gnet := cNet cfg\<rparr>) (grps cfg g)"

definition deleteGroup :: "nat \<Rightarrow> ('st, 'r, 's, 'v) TConfig \<Rightarrow> ('st, 'r, 's, 'v) TConfig" where
  "deleteGroup g cfg = cfg\<lparr>grps := (grps cfg)(g := None)\<rparr>"

text \<open>An operation of one group, as in \<^verbatim>\<open>cfg.Group(gid).f()\<close>; a missing group is a nil pointer.\<close>

definition withGroup :: "nat \<Rightarrow> (('st, 'r, 's, 'v) ServerGrp \<Rightarrow> ('st, 'r, 's, 'v) ServerGrp option) \<Rightarrow>
    ('st, 'r, 's, 'v) TConfig \<Rightarrow> ('st, 'r, 's, 'v) TConfig option" where
  "withGroup g f cfg = do {
     sg \<leftarrow> grps cfg g;
     (sg', rn) \<leftarrow> onNet f sg (cNet cfg);
     Some (cfg\<lparr>cNet := rn, grps := (grps cfg)(g \<mapsto> sg')\<rparr>)
   }"

text \<open>\<open>order\<close> are the keys of the map in the order of the iteration.\<close>

definition groupsCleanup :: "nat list \<Rightarrow> ('st, 'r, 's, 'v) TConfig \<Rightarrow> ('st, 'r, 's, 'v) TConfig" where
  "groupsCleanup order cfg =
     cfg\<lparr>grps := fold (\<lambda>g m. case m g of Some sg \<Rightarrow> m(g \<mapsto> grpCleanup sg) | None \<Rightarrow> m) order (grps cfg)\<rparr>"

subsection \<open>Clients\<close>

definition makeClnts :: "('st, 'r, 's, 'v) TConfig \<Rightarrow> ('st, 'r, 's, 'v) TConfig" where
  "makeClnts cfg = cfg\<lparr>clerks := Some []\<rparr>"

definition clntsMakeEnd :: "string \<Rightarrow> string \<Rightarrow> ('st, 'r, 's, 'v) TConfig \<Rightarrow> ('st, 'r, 's, 'v) TConfig option" where
  "clntsMakeEnd name servername cfg = do {
     rn1 \<leftarrow> MakeEnd name (cNet cfg);
     Some (cfg\<lparr>cNet := Enable name True (Connect name servername rn1)\<rparr>)
   }"

text \<open>\<open>a\<close> is the address of the new object. Writing to a nil map panics.\<close>

definition MakeClientTo :: "nat \<Rightarrow> string list option \<Rightarrow> ('st, 'r, 's, 'v) TConfig \<Rightarrow> ('st, 'r, 's, 'v) TConfig option" where
  "MakeClientTo a allowed cfg =
     (if clnts cfg a \<noteq> None then None
      else do {
        cs \<leftarrow> clerks cfg;
        Some (cfg\<lparr>clnts := (clnts cfg)(a \<mapsto> makeClntTo allowed), clerks := Some (a # cs)\<rparr>)
      })"

definition MakeClient :: "nat \<Rightarrow> ('st, 'r, 's, 'v) TConfig \<Rightarrow> ('st, 'r, 's, 'v) TConfig option" where
  "MakeClient a cfg = MakeClientTo a None cfg"

definition removeClnt :: "nat \<Rightarrow> ('st, 'r, 's, 'v) TConfig \<Rightarrow> ('st, 'r, 's, 'v) TConfig option" where
  "removeClnt a cfg = do {
     clnt \<leftarrow> clnts cfg a;
     rn \<leftarrow> removeEnds (cends clnt) (cNet cfg);
     Some (cfg\<lparr>cNet := rn\<rparr>)
   }"

fun removeClnts :: "nat list \<Rightarrow> ('st, 'r, 's, 'v) TConfig \<Rightarrow> ('st, 'r, 's, 'v) TConfig option" where
  "removeClnts [] cfg = Some cfg"
| "removeClnts (a # l) cfg = do { cfg1 \<leftarrow> removeClnt a cfg; removeClnts l cfg1 }"

definition clntsCleanup :: "nat list \<Rightarrow> ('st, 'r, 's, 'v) TConfig \<Rightarrow> ('st, 'r, 's, 'v) TConfig option" where
  "clntsCleanup order cfg = do { cfg1 \<leftarrow> removeClnts order cfg; Some (cfg1\<lparr>clerks := None\<rparr>) }"

definition DeleteClient :: "nat \<Rightarrow> ('st, 'r, 's, 'v) TConfig \<Rightarrow> ('st, 'r, 's, 'v) TConfig option" where
  "DeleteClient a cfg =
     (case clerks cfg of
        None \<Rightarrow> Some cfg
      | Some cs \<Rightarrow>
          if a \<in> set cs
          then do { cfg1 \<leftarrow> removeClnt a cfg; Some (cfg1\<lparr>clerks := Some (removeAll a cs)\<rparr>) }
          else Some cfg)"

definition withClnt :: "nat \<Rightarrow> (Clnt \<Rightarrow> 'st Network \<Rightarrow> (Clnt \<times> 'st Network) option) \<Rightarrow>
    ('st, 'r, 's, 'v) TConfig \<Rightarrow> ('st, 'r, 's, 'v) TConfig option" where
  "withClnt a f cfg = do {
     clnt \<leftarrow> clnts cfg a;
     (clnt', rn) \<leftarrow> f clnt (cNet cfg);
     Some (cfg\<lparr>cNet := rn, clnts := (clnts cfg)(a \<mapsto> clnt')\<rparr>)
   }"

text \<open>\<^verbatim>\<open>Clnt.Call\<close>: the end is made when it is first needed, and the call is sent on it.\<close>

definition clntCall :: "string \<Rightarrow> string \<Rightarrow> string \<Rightarrow> encoded \<Rightarrow> Clnt \<Rightarrow> 'st Rpc \<Rightarrow> (Clnt \<times> 'st Rpc) option" where
  "clntCall name server meth args clnt s = do {
     (e, clnt1, rn1) \<leftarrow> clntMakeEnd name server clnt (net s);
     Some (clnt1, CallSend e meth args (s\<lparr>net := rn1\<rparr>))
   }"

subsection \<open>A test\<close>

definition MakeGroupStart :: "(nat \<Rightarrow> ('r, 's) Persister \<Rightarrow> 'v list) \<Rightarrow> ('v list \<Rightarrow> 'st Server) \<Rightarrow> nat \<Rightarrow> nat \<Rightarrow> string list list \<Rightarrow>
    (string list \<times> nat) list \<Rightarrow> ('st, 'r, 's, 'v) TConfig \<Rightarrow> ('st, 'r, 's, 'v) TConfig option" where
  "MakeGroupStart mks labServer g nsrv names picks cfg = do {
     cfg1 \<leftarrow> MakeGroup g nsrv names cfg;
     withGroup g (StartServers mks labServer picks) cfg1
   }"

definition ExitGroup :: "nat \<Rightarrow> ('st, 'r, 's, 'v) TConfig \<Rightarrow> ('st, 'r, 's, 'v) TConfig option" where
  "ExitGroup g cfg = do { cfg1 \<leftarrow> withGroup g Test_Users.Shutdown cfg; Some (deleteGroup g cfg1) }"

definition MakeConfig :: "(nat \<Rightarrow> 'st Server) \<Rightarrow> (nat \<Rightarrow> ('r, 's) Persister \<Rightarrow> 'v list) \<Rightarrow> ('v list \<Rightarrow> 'st Server) \<Rightarrow> nat \<Rightarrow> bool \<Rightarrow>
    string list list \<Rightarrow> (string list \<times> nat) list \<Rightarrow> int \<Rightarrow> ('st, 'r, 's, 'v) TConfig option" where
  "MakeConfig hp mks labServer n rel names picks now = do {
     cfg1 \<leftarrow> MakeGroupStart mks labServer GRP0 n names picks (newGroups (MakeNetwork hp));
     let cfg2 = (makeClnts cfg1)\<lparr>cStart := now\<rparr>;
     Some (cfg2\<lparr>cNet := Reliable rel (cNet cfg2)\<rparr>)
   }"

definition SetReliable :: "bool \<Rightarrow> ('st, 'r, 's, 'v) TConfig \<Rightarrow> ('st, 'r, 's, 'v) TConfig" where
  "SetReliable rel cfg = cfg\<lparr>cNet := Reliable rel (cNet cfg)\<rparr>"

definition cfgIsReliable :: "('st, 'r, 's, 'v) TConfig \<Rightarrow> bool" where
  "cfgIsReliable cfg = IsReliable (cNet cfg)"

definition SetLongReordering :: "bool \<Rightarrow> ('st, 'r, 's, 'v) TConfig \<Rightarrow> ('st, 'r, 's, 'v) TConfig" where
  "SetLongReordering longrel cfg = cfg\<lparr>cNet := LongReordering longrel (cNet cfg)\<rparr>"

definition SetLongDelays :: "bool \<Rightarrow> ('st, 'r, 's, 'v) TConfig \<Rightarrow> ('st, 'r, 's, 'v) TConfig" where
  "SetLongDelays longdel cfg = cfg\<lparr>cNet := LongDelays longdel (cNet cfg)\<rparr>"

definition RpcTotal :: "('st, 'r, 's, 'v) TConfig \<Rightarrow> int" where
  "RpcTotal cfg = GetTotalCount (cNet cfg)"

definition BytesTotal :: "('st, 'r, 's, 'v) TConfig \<Rightarrow> int" where
  "BytesTotal cfg = GetTotalBytes (cNet cfg)"

text \<open>The message of the beginning of a test and the configuration.\<close>

definition cfgBegin :: "int \<Rightarrow> string \<Rightarrow> ('st, 'r, 's, 'v) TConfig \<Rightarrow> string \<times> ('st, 'r, 's, 'v) TConfig" where
  "cfgBegin now description cfg =
     (let rel = (if \<not> IsReliable (cNet cfg) then ''unreliable'' else ''reliable'')
      in (description @ '' ('' @ rel @ '' network)...'' @ [CHR 0x0A],
          cfg\<lparr>cT0 := now, rpcs0 := RpcTotal cfg, cOps := 0\<rparr>))"

definition cfgOp :: "('st, 'r, 's, 'v) TConfig \<Rightarrow> ('st, 'r, 's, 'v) TConfig" where
  "cfgOp cfg = cfg\<lparr>cOps := cOps cfg + 1\<rparr>"

text \<open>\<open>Inl\<close>: \<^verbatim>\<open>t.Fatal\<close> has marked the test as failed and ends the goroutine.\<close>

definition CheckTimeout :: "int \<Rightarrow> ('st, 'r, 's, 'v) TConfig \<Rightarrow> ('st, 'r, 's, 'v) TConfig + ('st, 'r, 's, 'v) TConfig" where
  "CheckTimeout now cfg =
     (if \<not> tFailed cfg \<and> now - cStart cfg > 120 * 10 ^ 9 then Inl (cfg\<lparr>tFailed := True\<rparr>) else Inr cfg)"

text \<open>What is printed at the end of a test that passed: elapsed time, peers, RPCs and operations.\<close>

definition cfgEnd :: "int \<Rightarrow> ('st, 'r, 's, 'v) TConfig \<Rightarrow>
    (('st, 'r, 's, 'v) TConfig + ('st, 'r, 's, 'v) TConfig \<times> (int \<times> nat \<times> int \<times> int) option) option" where
  "cfgEnd now cfg =
     (case CheckTimeout now cfg of
        Inl cfg1 \<Rightarrow> Some (Inl cfg1)
      | Inr cfg1 \<Rightarrow>
          if tFailed cfg1 then Some (Inr (cfg1, None))
          else do {
            sg \<leftarrow> lookupGroup GRP0 cfg1;
            Some (Inr (cfg1, Some (now - cT0 cfg1, grpN sg, RpcTotal cfg1 - rpcs0 cfg1, sint (cOps cfg1))))
          })"

text \<open>\<open>frames\<close> are the file names and lines of the callers; those of the tests are printed.\<close>

definition Fatalf :: "(string \<times> nat) list \<Rightarrow> ('st, 'r, 's, 'v) TConfig \<Rightarrow> ((string \<times> nat) list \<times> ('st, 'r, 's, 'v) TConfig) option" where
  "Fatalf frames cfg =
     (if frames = [] then None
      else Some (filter (\<lambda>(file, line). sublist ''test.go'' file) frames, cfg\<lparr>tFailed := True\<rparr>))"

text \<open>The end of a test. The arguments are the iteration orders of the two maps, those of
  \<^verbatim>\<open>annotation.cleanup\<close> and the time of the last check.\<close>

definition cfgCleanup :: "nat list \<Rightarrow> nat list \<Rightarrow> string \<Rightarrow> bool \<Rightarrow> string list \<Rightarrow> int \<Rightarrow> int \<Rightarrow> int \<Rightarrow>
    ('st, 'r, 's, 'v) TConfig \<times> Annotation \<Rightarrow>
    ((('st, 'r, 's, 'v) TConfig + ('st, 'r, 's, 'v) TConfig) \<times> Annotation \<times> PAnnotation list option) option" where
  "cfgCleanup corder gorder vis opened order t t' now = (\<lambda>(cfg, an). do {
     cfg1 \<leftarrow> clntsCleanup corder cfg;
     let cfg2 = groupsCleanup gorder cfg1;
     rn \<leftarrow> Cleanup (cNet cfg2);
     let cfg3 = cfg2\<lparr>cNet := rn\<rparr>;
     let (an', file) = (if tFailed cfg3 then annCleanup vis opened order t t' True ''test failed'' an
                        else annCleanup vis opened order t t' False ''test passed'' an);
     Some (CheckTimeout now cfg3, an', file)
   })"

section \<open>Runs of a test\<close>

datatype groupOp =
    GConnect nat "nat list" | GDisconnect nat "nat list" | GConnectAll | GConnectOne nat | GDisconnectAll nat
  | GStartServer "string list" nat nat | GStartServers "(string list \<times> nat) list" | GShutdownServer nat | GShutdown
  | GPartition "nat list" "nat list"

datatype clntOp = CMakeEnd string string | CConnectAll | CConnectTo "string list" | CDisconnect string | CDisconnectAll

datatype cfgEvent =
    EGroup nat groupOp | EMakeGroup nat nat "string list list" | EExitGroup nat
  | EMakeClient nat "string list option" | EClnt nat clntOp | EDeleteClient nat | EMakeEnd string string
  | EReliable bool | ELongReordering bool | ELongDelays bool | EBegin int string | EOp

definition groupOperation :: "(nat \<Rightarrow> ('r, 's) Persister \<Rightarrow> 'v list) \<Rightarrow> ('v list \<Rightarrow> 'st Server) \<Rightarrow> groupOp \<Rightarrow>
    ('st, 'r, 's, 'v) ServerGrp \<Rightarrow> ('st, 'r, 's, 'v) ServerGrp option" where
  "groupOperation mks labServer opr =
     (case opr of
        GConnect i to \<Rightarrow> grpConnect i to
      | GDisconnect i from \<Rightarrow> grpDisconnect i from
      | GConnectAll \<Rightarrow> ConnectAll
      | GConnectOne i \<Rightarrow> ConnectOne i
      | GDisconnectAll i \<Rightarrow> DisconnectAll i
      | GStartServer names a i \<Rightarrow> StartServer mks labServer names a i
      | GStartServers picks \<Rightarrow> StartServers mks labServer picks
      | GShutdownServer i \<Rightarrow> ShutdownServer i
      | GShutdown \<Rightarrow> Test_Users.Shutdown
      | GPartition p1 p2 \<Rightarrow> Test_Group.Partition p1 p2)"

definition clntOperation :: "clntOp \<Rightarrow> Clnt \<Rightarrow> 'st Network \<Rightarrow> (Clnt \<times> 'st Network) option" where
  "clntOperation opr =
     (case opr of
        CMakeEnd name server \<Rightarrow> (\<lambda>clnt rn. map_option snd (clntMakeEnd name server clnt rn))
      | CConnectAll \<Rightarrow> (\<lambda>clnt rn. Some (clntConnectAll clnt rn))
      | CConnectTo allowed \<Rightarrow> (\<lambda>clnt rn. Some (ConnectTo allowed clnt rn))
      | CDisconnect srv \<Rightarrow> (\<lambda>clnt rn. Some (clntDisconnect srv clnt rn))
      | CDisconnectAll \<Rightarrow> (\<lambda>clnt rn. Some (clntDisconnectAll clnt rn)))"

definition cfgStep :: "(nat \<Rightarrow> ('r, 's) Persister \<Rightarrow> 'v list) \<Rightarrow> ('v list \<Rightarrow> 'st Server) \<Rightarrow> cfgEvent \<Rightarrow>
    ('st, 'r, 's, 'v) TConfig \<Rightarrow> ('st, 'r, 's, 'v) TConfig option" where
  "cfgStep mks labServer ev cfg =
     (case ev of
        EGroup g opr \<Rightarrow> withGroup g (groupOperation mks labServer opr) cfg
      | EMakeGroup g nsrv names \<Rightarrow> MakeGroup g nsrv names cfg
      | EExitGroup g \<Rightarrow> ExitGroup g cfg
      | EMakeClient a allowed \<Rightarrow> MakeClientTo a allowed cfg
      | EClnt a opr \<Rightarrow> withClnt a (clntOperation opr) cfg
      | EDeleteClient a \<Rightarrow> DeleteClient a cfg
      | EMakeEnd name server \<Rightarrow> clntsMakeEnd name server cfg
      | EReliable b \<Rightarrow> Some (SetReliable b cfg)
      | ELongReordering b \<Rightarrow> Some (SetLongReordering b cfg)
      | ELongDelays b \<Rightarrow> Some (SetLongDelays b cfg)
      | EBegin now description \<Rightarrow> Some (snd (cfgBegin now description cfg))
      | EOp \<Rightarrow> Some (cfgOp cfg))"

text \<open>The clients in use, and tests that use only those.\<close>

definition live :: "('st, 'r, 's, 'v) TConfig \<Rightarrow> nat \<Rightarrow> bool" where
  "live cfg a = (case clerks cfg of Some cs \<Rightarrow> a \<in> set cs | None \<Rightarrow> False)"

fun usesLive :: "cfgEvent \<Rightarrow> ('st, 'r, 's, 'v) TConfig \<Rightarrow> bool" where
  "usesLive (EClnt a opr) cfg = live cfg a"
| "usesLive ev cfg = True"

inductive testRun :: "(nat \<Rightarrow> ('r, 's) Persister \<Rightarrow> 'v list) \<Rightarrow> ('v list \<Rightarrow> 'st Server) \<Rightarrow> ('st, 'r, 's, 'v) TConfig \<Rightarrow> bool"
  for mks labServer where
  testRun_make: "MakeConfig hp mks labServer n rel names picks now = Some cfg \<Longrightarrow> testRun mks labServer cfg"
| testRun_step: "testRun mks labServer cfg \<Longrightarrow> usesLive ev cfg \<Longrightarrow> cfgStep mks labServer ev cfg = Some cfg' \<Longrightarrow> testRun mks labServer cfg'"

section \<open>Users do not meet\<close>

datatype owner = OGroup nat | OClnt nat

fun owned :: "('st, 'r, 's, 'v) TConfig \<Rightarrow> owner \<Rightarrow> string set" where
  "owned cfg (OGroup g) = (case grps cfg g of Some sg \<Rightarrow> grpUses sg | None \<Rightarrow> {})"
| "owned cfg (OClnt a) = (if live cfg a then case clnts cfg a of Some clnt \<Rightarrow> clntUses clnt | None \<Rightarrow> {} else {})"

fun user_fits :: "('st, 'r, 's, 'v) TConfig \<Rightarrow> owner \<Rightarrow> bool" where
  "user_fits cfg (OGroup g) \<longleftrightarrow> (\<forall>sg. grps cfg g = Some sg \<longrightarrow> grpNames sg \<subseteq> range (ServerName g) \<and> grpFits sg (cNet cfg))"
| "user_fits cfg (OClnt a) \<longleftrightarrow> (live cfg a \<longrightarrow> (\<exists>clnt. clnts cfg a = Some clnt \<and> clnt_ok clnt (cNet cfg)))"

definition cfg_ok :: "('st, 'r, 's, 'v) TConfig \<Rightarrow> bool" where
  "cfg_ok cfg \<longleftrightarrow> (\<forall>u. user_fits cfg u) \<and> (\<forall>u w. u \<noteq> w \<longrightarrow> owned cfg u \<inter> owned cfg w = {}) \<and>
     \<not> netDone (cNet cfg) \<and> (\<exists>cs. clerks cfg = Some cs \<and> distinct cs)"

lemma cfg_okD:
  assumes "cfg_ok cfg"
  shows "user_fits cfg u" "u \<noteq> w \<Longrightarrow> owned cfg u \<inter> owned cfg w = {}"
  using assms unfolding cfg_ok_def by blast+

text \<open>A step of user \<open>u\<close>: all others are the same objects, and their ends are as they were.\<close>

definition same_user :: "('st, 'r, 's, 'v) TConfig \<Rightarrow> ('st, 'r, 's, 'v) TConfig \<Rightarrow> owner \<Rightarrow> bool" where
  "same_user cfg cfg' w \<longleftrightarrow>
     (case w of OGroup g \<Rightarrow> grps cfg' g = grps cfg g | OClnt a \<Rightarrow> clnts cfg' a = clnts cfg a \<and> live cfg' a = live cfg a)"

definition same_ends :: "('st, 'r, 's, 'v) TConfig \<Rightarrow> ('st, 'r, 's, 'v) TConfig \<Rightarrow> owner \<Rightarrow> bool" where
  "same_ends cfg cfg' w \<longleftrightarrow> (\<forall>e \<in> owned cfg w. enabledAt (cNet cfg') e = enabledAt (cNet cfg) e \<and>
     connectionAt (cNet cfg') e = connectionAt (cNet cfg) e)"

lemma owned_same: "same_user cfg cfg' w \<Longrightarrow> owned cfg' w = owned cfg w"
  by (cases w) (simp_all add: same_user_def)

lemma owned_ends:
  assumes "user_fits cfg w"
  shows "owned cfg w \<subseteq> ends (cNet cfg)"
proof (cases w)
  case (OGroup g)
  then show ?thesis using assms by (cases "grps cfg g") (simp_all add: group_user.ok_uses)
next
  case (OClnt a)
  then show ?thesis using assms by (cases "live cfg a") (auto dest: subsetD [OF client_user.ok_uses])
qed

lemma user_fits_frame:
  assumes "user_fits cfg w" "same_user cfg cfg' w" "net_frame E N (cNet cfg) (cNet cfg')" "owned cfg w \<inter> E = {}"
  shows "user_fits cfg' w"
proof (cases w)
  case (OGroup g)
  then show ?thesis using assms by (cases "grps cfg g") (simp_all add: same_user_def group_user.ok_frame [OF _ assms(3)])
next
  case (OClnt a)
  then show ?thesis using assms by (cases "live cfg a") (auto simp: same_user_def client_user.ok_frame [OF _ assms(3)])
qed

lemma user_step:
  assumes ok: "cfg_ok cfg" and fr: "net_frame (owned cfg u) N (cNet cfg) (cNet cfg')"
    and same: "\<And>w. w \<noteq> u \<Longrightarrow> same_user cfg cfg' w"
    and own: "owned cfg' u \<inter> ends (cNet cfg) \<subseteq> owned cfg u" "user_fits cfg' u"
    and cs: "clerks cfg' = Some cs" "distinct cs"
  shows "cfg_ok cfg' \<and> (\<forall>w. w \<noteq> u \<longrightarrow> same_user cfg cfg' w \<and> same_ends cfg cfg' w)"
proof -
  have fit: "user_fits cfg w" "owned cfg w \<subseteq> ends (cNet cfg)" for w using ok owned_ends by (auto simp: cfg_ok_def)
  have dis: "owned cfg w \<inter> owned cfg w' = {}" if "w \<noteq> w'" for w w' using ok that by (auto simp: cfg_ok_def)
  have "user_fits cfg' w" for w
    using user_fits_frame [OF fit(1) same fr dis] own(2) by (cases "w = u") auto
  moreover have "owned cfg' w \<inter> owned cfg' w' = {}" if "w \<noteq> w'" for w w'
  proof -
    have mine: "owned cfg' u \<inter> owned cfg' v = {}" if "v \<noteq> u" for v
      using own(1) fit(2) [of v] dis [OF that] unfolding owned_same [OF same [OF that]] by blast
    show ?thesis
      using mine [of w] mine [of w'] that dis [OF that] owned_same [OF same, of w] owned_same [OF same, of w']
      by (cases "w = u"; cases "w' = u") (simp_all add: Int_commute)
  qed
  moreover have "same_ends cfg cfg' w" if "w \<noteq> u" for w
    using fr fit(2) [of w] dis [OF that] by (auto simp: same_ends_def net_frame_def)
  moreover have "\<not> netDone (cNet cfg')" using ok fr by (simp add: cfg_ok_def net_frame_def)
  ultimately show ?thesis using cs same by (simp add: cfg_ok_def)
qed

text \<open>The user that an event is about, and what everybody else sees of it.\<close>

fun concerns :: "cfgEvent \<Rightarrow> owner option" where
  "concerns (EGroup g opr) = Some (OGroup g)"
| "concerns (EMakeGroup g nsrv names) = Some (OGroup g)"
| "concerns (EExitGroup g) = Some (OGroup g)"
| "concerns (EMakeClient a allowed) = Some (OClnt a)"
| "concerns (EClnt a opr) = Some (OClnt a)"
| "concerns (EDeleteClient a) = Some (OClnt a)"
| "concerns ev = None"

definition untouched :: "owner option \<Rightarrow> ('st, 'r, 's, 'v) TConfig \<Rightarrow> ('st, 'r, 's, 'v) TConfig \<Rightarrow> bool" where
  "untouched c cfg cfg' \<longleftrightarrow> (\<forall>w. c \<noteq> Some w \<longrightarrow> same_user cfg cfg' w \<and> same_ends cfg cfg' w) \<and>
     (\<forall>h k. c \<noteq> Some (OGroup h) \<longrightarrow> serverAt (cNet cfg') (ServerName h k) = serverAt (cNet cfg) (ServerName h k))"

lemma untouched_trans: "untouched c cfg1 cfg2 \<Longrightarrow> untouched c cfg2 cfg3 \<Longrightarrow> untouched c cfg1 cfg3"
proof -
  have "same_user cfg1 cfg3 w" if "same_user cfg1 cfg2 w" "same_user cfg2 cfg3 w" for w
    using that by (cases w) (simp_all add: same_user_def)
  moreover have "same_ends cfg1 cfg3 w" if "same_user cfg1 cfg2 w" "same_ends cfg1 cfg2 w" "same_ends cfg2 cfg3 w" for w
    using that owned_same [OF that(1)] by (simp add: same_ends_def)
  ultimately show "untouched c cfg1 cfg2 \<Longrightarrow> untouched c cfg2 cfg3 \<Longrightarrow> untouched c cfg1 cfg3"
    unfolding untouched_def by metis
qed

lemma quiet_step:
  assumes ok: "cfg_ok cfg" and fr: "net_frame {} {} (cNet cfg) (cNet cfg')"
    and same: "grps cfg' = grps cfg" "clnts cfg' = clnts cfg" "clerks cfg' = clerks cfg"
  shows "cfg_ok cfg' \<and> untouched c cfg cfg'"
proof -
  have s: "same_user cfg cfg' w" for w using same by (cases w) (simp_all add: same_user_def live_def)
  have o: "owned cfg' w = owned cfg w" "user_fits cfg w" for w using ok owned_same [OF s] by (simp_all add: cfg_ok_def)
  have "user_fits cfg' w" for w by (rule user_fits_frame [OF o(2) s fr]) simp
  then have "cfg_ok cfg'" using ok fr o same(3) by (simp add: cfg_ok_def net_frame_def)
  moreover have "same_ends cfg cfg' w" for w using owned_ends [OF o(2), of w] fr by (auto simp: same_ends_def net_frame_def)
  ultimately show ?thesis using s fr by (simp add: untouched_def net_frame_def)
qed

lemma user_step_untouched:
  assumes "cfg_ok cfg" "net_frame (owned cfg u) N (cNet cfg) (cNet cfg')" "\<And>w. w \<noteq> u \<Longrightarrow> same_user cfg cfg' w"
    "owned cfg' u \<inter> ends (cNet cfg) \<subseteq> owned cfg u" "user_fits cfg' u" "clerks cfg' = Some cs" "distinct cs"
    "\<And>h. u \<noteq> OGroup h \<Longrightarrow> N \<inter> range (ServerName h) = {}"
  shows "cfg_ok cfg' \<and> untouched (Some u) cfg cfg'"
proof -
  have "cfg_ok cfg' \<and> (\<forall>w. w \<noteq> u \<longrightarrow> same_user cfg cfg' w \<and> same_ends cfg cfg' w)"
    by (rule user_step [OF assms(1,2) _ assms(4-7)]) (rule assms(3))
  moreover have "serverAt (cNet cfg') (ServerName h k) = serverAt (cNet cfg) (ServerName h k)" if "u \<noteq> OGroup h" for h k
    using assms(2) assms(8) [OF that] by (auto simp: net_frame_def)
  ultimately show ?thesis by (simp add: untouched_def)
qed

lemma range_ServerName: "A \<subseteq> range (ServerName g) \<Longrightarrow> g \<noteq> h \<Longrightarrow> A \<inter> range (ServerName h) = {}"
  by (auto simp: ServerName_inj)

lemma withGroup_ok:
  assumes ok: "cfg_ok cfg" and w: "withGroup g f cfg = Some cfg'" and t: "group_user.tame (onNet f)"
  shows "cfg_ok cfg' \<and> untouched (Some (OGroup g)) cfg cfg'"
proof -
  obtain sg sg' rn where 1: "grps cfg g = Some sg" "onNet f sg (cNet cfg) = Some (sg', rn)"
      "cfg' = cfg\<lparr>cNet := rn, grps := (grps cfg)(g \<mapsto> sg')\<rparr>"
    using w by (auto simp: withGroup_def bind_Some_iff)
  obtain cs where cs: "clerks cfg = Some cs" "distinct cs" using ok by (auto simp: cfg_ok_def)
  have "user_fits cfg (OGroup g)" by (rule cfg_okD(1) [OF ok])
  then have fit: "grpNames sg \<subseteq> range (ServerName g)" "grpFits sg (cNet cfg)" using 1(1) by simp_all
  note T = group_user.tameD [OF t fit(2) 1(2)]
  have n: "u \<noteq> OGroup h \<Longrightarrow> u = OGroup g \<Longrightarrow> grpNames sg \<inter> range (ServerName h) = {}" for u h using range_ServerName [OF fit(1)] by auto
  show ?thesis
    by (rule user_step_untouched [OF ok, where N = "grpNames sg" and cs = cs])
      (use 1 T fit cs n in \<open>auto simp: same_user_def live_def split: owner.split\<close>)
qed

lemma makeServers_frame: "makeServers g nss rn = Some (ss, rn') \<Longrightarrow> net_frame {} {} rn rn'"
proof (induction nss arbitrary: rn ss)
  case (Cons ns nss)
  then obtain s rn1 ss1 where 1: "makeServer g ns rn = Some (s, rn1)" "makeServers g nss rn1 = Some (ss1, rn')" "ss = s # ss1"
    by (auto simp: bind_Some_iff)
  then have "makeEnds g 0 ns rn = Some rn1" by (auto simp: makeServer_def bind_Some_iff)
  then show ?case using net_frame_same [OF makeEnds_frame Cons.IH [OF 1(2)]] by blast
qed simp

lemma MakeGroup_ok:
  assumes ok: "cfg_ok cfg" and w: "MakeGroup g nsrv nss cfg = Some cfg'"
  shows "cfg_ok cfg' \<and> untouched (Some (OGroup g)) cfg cfg'"
proof -
  obtain sg where 1: "makeSrvGrp g nss (cNet cfg) = Some sg" "\<forall>ns \<in> set nss. length ns = length nss"
      "cfg' = cfg\<lparr>cNet := gnet sg, grps := (grps cfg)(g \<mapsto> sg)\<rparr>"
    using w by (auto simp: MakeGroup_def bind_Some_iff list_all_iff split: if_splits)
  then obtain ss where 2: "makeServers g nss (cNet cfg) = Some (ss, gnet sg)" "srvs sg = ss" "gid sg = g"
    by (auto simp: makeSrvGrp_def bind_Some_iff)
  obtain cs where cs: "clerks cfg = Some cs" "distinct cs" using ok by (auto simp: cfg_ok_def)
  have "grpUses sg = set (concat nss)" using makeServers_spec [OF 2(1)] by (auto simp: grpUses_def 2(2))
  then have own: "grpUses sg \<inter> ends (cNet cfg) = {}" using makeServers_spec [OF 2(1)] by auto
  have fit: "grpFits sg (gnet sg)" using makeSrvGrp_ok [OF 1(1,2)] by (simp add: grpFits_def)
  have "net_frame (owned cfg (OGroup g)) {} (cNet cfg) (gnet sg)" using net_frame_mono [OF makeServers_frame [OF 2(1)]] by blast
  then show ?thesis
    by (intro user_step_untouched [OF ok, where N = "{}" and cs = cs])
      (use 1(3) own fit cs 2(3) in \<open>auto simp: same_user_def live_def grpNames_def split: owner.split\<close>)
qed

lemma ExitGroup_ok:
  assumes ok: "cfg_ok cfg" and w: "ExitGroup g cfg = Some cfg'"
  shows "cfg_ok cfg' \<and> untouched (Some (OGroup g)) cfg cfg'"
proof -
  obtain cfg1 where 1: "withGroup g Test_Users.Shutdown cfg = Some cfg1" "cfg' = deleteGroup g cfg1"
    using w by (auto simp: ExitGroup_def bind_Some_iff)
  note ok1 = withGroup_ok [OF ok 1(1) Shutdown_tame]
  then obtain cs where cs: "clerks cfg1 = Some cs" "distinct cs" by (auto simp: cfg_ok_def)
  have "cfg_ok cfg' \<and> untouched (Some (OGroup g)) cfg1 cfg'"
    by (rule user_step_untouched [OF conjunct1 [OF ok1], where N = "{}" and cs = cs])
      (use 1(2) cs in \<open>auto simp: deleteGroup_def same_user_def live_def split: owner.split\<close>)
  then show ?thesis using ok1 untouched_trans by blast
qed

lemma live_iff: "clerks cfg = Some cs \<Longrightarrow> live cfg a \<longleftrightarrow> a \<in> set cs"
  by (simp add: live_def)

lemma MakeClientTo_ok:
  assumes ok: "cfg_ok cfg" and w: "MakeClientTo a allowed cfg = Some cfg'"
  shows "cfg_ok cfg' \<and> untouched (Some (OClnt a)) cfg cfg'"
proof -
  obtain cs where cs: "clerks cfg = Some cs" "distinct cs" using ok by (auto simp: cfg_ok_def)
  then have 1: "clnts cfg a = None" "cfg' = cfg\<lparr>clnts := (clnts cfg)(a \<mapsto> makeClntTo allowed), clerks := Some (a # cs)\<rparr>"
    using w by (auto simp: MakeClientTo_def split: if_splits)
  have "user_fits cfg (OClnt a)" by (rule cfg_okD(1) [OF ok])
  then have "a \<notin> set cs" using 1(1) cs(1) by (auto simp: live_iff)
  then show ?thesis
    by (intro user_step_untouched [OF ok, where N = "{}" and cs = "a # cs"])
      (use 1 cs in \<open>auto simp: same_user_def live_def makeClntTo_def clntUses_def clnt_ok_def split: owner.split\<close>)
qed

lemma withClnt_ok:
  assumes ok: "cfg_ok cfg" and w: "withClnt a f cfg = Some cfg'" and l: "live cfg a" and t: "client_user.tame f"
  shows "cfg_ok cfg' \<and> untouched (Some (OClnt a)) cfg cfg'"
proof -
  obtain clnt clnt' rn where 1: "clnts cfg a = Some clnt" "f clnt (cNet cfg) = Some (clnt', rn)"
      "cfg' = cfg\<lparr>cNet := rn, clnts := (clnts cfg)(a \<mapsto> clnt')\<rparr>"
    using w by (auto simp: withClnt_def bind_Some_iff)
  obtain cs where cs: "clerks cfg = Some cs" "distinct cs" using ok by (auto simp: cfg_ok_def)
  have "user_fits cfg (OClnt a)" by (rule cfg_okD(1) [OF ok])
  then have fit: "clnt_ok clnt (cNet cfg)" using l 1(1) by simp
  note T = client_user.tameD [OF t fit 1(2)]
  have l': "live cfg' a" using l cs(1) by (simp add: 1(3) live_def)
  show ?thesis
    by (rule user_step_untouched [OF ok, where N = "{}" and cs = cs])
      (use 1 T l l' cs in \<open>auto simp: same_user_def live_def split: owner.split\<close>)
qed

text \<open>Removing a client that is in use.\<close>

lemma removeClnt_ok:
  assumes ok: "cfg_ok cfg" and l: "live cfg a"
  shows "\<exists>rn clnt. clnts cfg a = Some clnt \<and> removeClnt a cfg = Some (cfg\<lparr>cNet := rn\<rparr>) \<and> ends rn = ends (cNet cfg) - owned cfg (OClnt a) \<and>
     net_frame (owned cfg (OClnt a)) {} (cNet cfg) rn"
proof -
  have "user_fits cfg (OClnt a)" by (rule cfg_okD(1) [OF ok])
  then obtain clnt where c: "clnts cfg a = Some clnt" "clnt_ok clnt (cNet cfg)" using l by auto
  then show ?thesis using removeEnds_frame [of "cends clnt" "cNet cfg"] l by (auto simp: removeClnt_def clnt_ok_def clntUses_def)
qed

lemma drop_client_ok:
  assumes ok: "cfg_ok cfg" and cs: "clerks cfg = Some cs" and a: "a \<in> set cs" and fr: "net_frame (owned cfg (OClnt a)) {} (cNet cfg) rn"
  shows "cfg_ok (cfg\<lparr>cNet := rn, clerks := Some (removeAll a cs)\<rparr>) \<and> untouched (Some (OClnt a)) cfg (cfg\<lparr>cNet := rn, clerks := Some (removeAll a cs)\<rparr>)"
proof -
  have "distinct cs" using ok cs by (auto simp: cfg_ok_def)
  then show ?thesis
    by (intro user_step_untouched [OF ok, where N = "{}" and cs = "removeAll a cs"])
      (use fr cs in \<open>auto simp: same_user_def live_def distinct_removeAll split: owner.split\<close>)
qed

lemma DeleteClient_ok:
  assumes ok: "cfg_ok cfg" and w: "DeleteClient a cfg = Some cfg'"
  shows "cfg_ok cfg' \<and> untouched (Some (OClnt a)) cfg cfg'"
proof -
  obtain cs where cs: "clerks cfg = Some cs" using ok by (auto simp: cfg_ok_def)
  show ?thesis
  proof (cases "a \<in> set cs")
    case True
    then obtain rn where "removeClnt a cfg = Some (cfg\<lparr>cNet := rn\<rparr>)" "net_frame (owned cfg (OClnt a)) {} (cNet cfg) rn"
      using removeClnt_ok [OF ok, of a] cs by (auto simp: live_def)
    then show ?thesis using w cs True drop_client_ok [OF ok cs True] by (auto simp: DeleteClient_def)
  next
    case False
    then have "cfg' = cfg" using w cs by (simp add: DeleteClient_def)
    then show ?thesis using quiet_step [OF ok] by simp
  qed
qed

lemma groupOperation_tame: "group_user.tame (onNet (groupOperation mks labServer opr))"
  by (cases opr) (simp_all add: groupOperation_def group_operations_tame)

lemma clntOperation_tame: "client_user.tame (clntOperation opr)"
  by (cases opr) (simp_all add: clntOperation_def client_operations_tame clntMakeEnd_tame)

lemma settings_frame [simp]:
  "net_frame {} {} rn (Reliable b rn)" "net_frame {} {} rn (LongReordering b rn)" "net_frame {} {} rn (LongDelays b rn)"
  by (simp_all add: net_frame_def Reliable_def LongReordering_def LongDelays_def enabledAt_def connectionAt_def serverAt_def)

lemmas step_oks = withGroup_ok [OF _ _ groupOperation_tame] MakeGroup_ok ExitGroup_ok MakeClientTo_ok DeleteClient_ok quiet_step

lemmas step_rules = step_oks [THEN conjunct1] step_oks [THEN conjunct2]

lemma cfgStep_ok:
  assumes ok: "cfg_ok cfg" and l: "usesLive ev cfg" and s: "cfgStep mks labServer ev cfg = Some cfg'"
  shows "cfg_ok cfg' \<and> untouched (concerns ev) cfg cfg'"
proof (cases ev)
  case (EMakeEnd name server)
  then have "net_frame {} {} (cNet cfg) (cNet cfg')" "grps cfg' = grps cfg" "clnts cfg' = clnts cfg" "clerks cfg' = clerks cfg"
    using s by (auto simp: cfgStep_def clntsMakeEnd_def bind_Some_iff net_frame_def MakeEnd_def Connect_def Enable_def enabledAt_def
        connectionAt_def serverAt_def split: if_splits)
  then show ?thesis by (rule quiet_step [OF ok])
qed (use s l in \<open>auto simp: cfgStep_def SetReliable_def SetLongReordering_def SetLongDelays_def cfgBegin_def Let_def cfgOp_def
      intro: step_rules [OF ok] withClnt_ok [OF ok _ _ clntOperation_tame, THEN conjunct1] withClnt_ok [OF ok _ _ clntOperation_tame, THEN conjunct2]\<close>)

lemma newGroups_ok: "cfg_ok (makeClnts (newGroups (MakeNetwork hp)))"
  (is "cfg_ok ?cfg")
proof -
  have "user_fits ?cfg u" "owned ?cfg u = {}" for u by (cases u; simp add: makeClnts_def newGroups_def live_def)+
  moreover have "\<not> netDone (cNet ?cfg)" "clerks ?cfg = Some []" by (simp_all add: makeClnts_def newGroups_def MakeNetwork_def)
  ultimately show ?thesis by (simp add: cfg_ok_def)
qed

lemma MakeGroupStart_makeClnts:
  "MakeGroupStart mks labServer g n nss picks cfg = Some cfg1 \<Longrightarrow> MakeGroupStart mks labServer g n nss picks (makeClnts cfg) = Some (makeClnts cfg1)"
  by (auto simp: MakeGroupStart_def MakeGroup_def withGroup_def makeClnts_def bind_Some_iff split: if_splits)

lemma MakeGroupStart_ok:
  assumes ok: "cfg_ok cfg" and s: "MakeGroupStart mks labServer g n nss picks cfg = Some cfg'"
  shows "cfg_ok cfg'"
proof -
  obtain cfg1 where 1: "MakeGroup g n nss cfg = Some cfg1" "withGroup g (StartServers mks labServer picks) cfg1 = Some cfg'"
    using s by (auto simp: MakeGroupStart_def bind_Some_iff)
  have "cfg_ok cfg1" using MakeGroup_ok [OF ok 1(1)] by blast
  from withGroup_ok [OF this 1(2) StartServers_tame] show ?thesis by blast
qed

lemma MakeConfig_ok:
  assumes "MakeConfig hp mks labServer n rel nss picks now = Some cfg"
  shows "cfg_ok cfg"
proof -
  obtain cfg1 where 1: "MakeGroupStart mks labServer GRP0 n nss picks (newGroups (MakeNetwork hp)) = Some cfg1"
      "cfg = (makeClnts cfg1)\<lparr>cStart := now, cNet := Reliable rel (cNet cfg1)\<rparr>"
    using assms by (auto simp: MakeConfig_def bind_Some_iff Let_def makeClnts_def)
  have "cfg_ok (makeClnts cfg1)" using MakeGroupStart_ok [OF newGroups_ok MakeGroupStart_makeClnts [OF 1(1)]] .
  then show ?thesis using 1(2) by (auto intro: step_rules(6) simp: makeClnts_def)
qed

lemma testRun_ok: "testRun mks labServer cfg \<Longrightarrow> cfg_ok cfg"
  by (induction rule: testRun.induct) (auto intro: MakeConfig_ok dest: cfgStep_ok)

text \<open>C29: isolation of the parts of a test. In every run of a test, an operation on one group of
  servers or one client (starting, stopping, connecting, partitioning, restricting, deleting) or
  on the network as a whole leaves every other group and every other client as it is: the same
  messages pass between the servers of the other groups, they are found under their names, and
  the other clients reach the same servers.\<close>

theorem test_users_isolated:
  assumes "testRun mks labServer cfg" "usesLive ev cfg" "cfgStep mks labServer ev cfg = Some cfg'"
  shows "(\<forall>h sg. concerns ev \<noteq> Some (OGroup h) \<longrightarrow> lookupGroup h cfg = Some sg \<longrightarrow>
       lookupGroup h cfg' = Some (sg\<lparr>gnet := cNet cfg'\<rparr>) \<and>
       (\<forall>i < grpN sg. serverAt (cNet cfg') (ServerName h i) = serverAt (cNet cfg) (ServerName h i) \<and>
          (\<forall>j < grpN sg. link (sg\<lparr>gnet := cNet cfg'\<rparr>) i j = link sg i j))) \<and>
     (\<forall>a clnt. concerns ev \<noteq> Some (OClnt a) \<longrightarrow> live cfg a \<longrightarrow> clnts cfg a = Some clnt \<longrightarrow>
       live cfg' a \<and> clnts cfg' a = Some clnt \<and> (\<forall>server. reachable clnt (cNet cfg') server = reachable clnt (cNet cfg) server))"
proof -
  have ok: "cfg_ok cfg" by (rule testRun_ok [OF assms(1)])
  note step = conjunct2 [OF cfgStep_ok [OF ok assms(2,3)]]
  have "lookupGroup h cfg' = Some (sg\<lparr>gnet := cNet cfg'\<rparr>) \<and>
       (\<forall>i < grpN sg. serverAt (cNet cfg') (ServerName h i) = serverAt (cNet cfg) (ServerName h i) \<and>
          (\<forall>j < grpN sg. link (sg\<lparr>gnet := cNet cfg'\<rparr>) i j = link sg i j))"
    if c: "concerns ev \<noteq> Some (OGroup h)" and g: "lookupGroup h cfg = Some sg" for h sg
  proof -
    obtain sg0 where 0: "grps cfg h = Some sg0" "sg = sg0\<lparr>gnet := cNet cfg\<rparr>" using g by (auto simp: lookupGroup_def)
    have fit: "grp_ok sg" using cfg_okD(1) [OF ok, of "OGroup h"] 0 by (simp add: grpFits_def)
    have same: "same_user cfg cfg' (OGroup h)" "same_ends cfg cfg' (OGroup h)"
        "\<And>k. serverAt (cNet cfg') (ServerName h k) = serverAt (cNet cfg) (ServerName h k)"
      using step c unfolding untouched_def by blast+
    have "link (sg\<lparr>gnet := cNet cfg'\<rparr>) i j = link sg i j" if "i < grpN sg" "j < grpN sg" for i j
      using same(2) grpUses_mem [OF fit that] 0 by (simp add: same_ends_def link_def)
    then show ?thesis using same(1,3) 0 by (simp add: lookupGroup_def same_user_def)
  qed
  moreover have "live cfg' a \<and> clnts cfg' a = Some clnt \<and> (\<forall>server. reachable clnt (cNet cfg') server = reachable clnt (cNet cfg) server)"
    if c: "concerns ev \<noteq> Some (OClnt a)" and l: "live cfg a" "clnts cfg a = Some clnt" for a clnt
  proof -
    have same: "same_user cfg cfg' (OClnt a)" "same_ends cfg cfg' (OClnt a)" using step c by (auto simp: untouched_def)
    have "map_of (cends clnt) server = Some e \<Longrightarrow> e \<in> owned cfg (OClnt a)" for server e
      using l map_of_SomeD [of "cends clnt" server e] by (force simp: clntUses_def)
    then have "reachable clnt (cNet cfg') server = reachable clnt (cNet cfg) server" for server
      using same(2) by (auto simp: reachable_def same_ends_def split: option.split)
    then show ?thesis using same(1) l by (simp add: same_user_def)
  qed
  ultimately show ?thesis by blast
qed

section \<open>The end of a test\<close>

lemma removeClnts_clerks: "removeClnts l (cfg\<lparr>clerks := c\<rparr>) = map_option (\<lambda>cfg. cfg\<lparr>clerks := c\<rparr>) (removeClnts l cfg)"
proof (induction l arbitrary: cfg)
  case (Cons a l)
  have "removeClnt a (cfg\<lparr>clerks := c\<rparr>) = map_option (\<lambda>cfg. cfg\<lparr>clerks := c\<rparr>) (removeClnt a cfg)"
    by (auto simp: removeClnt_def split: bind_split)
  then show ?case using Cons.IH by (auto split: bind_split)
qed simp

text \<open>All clients are removed, in any order, and no end is missing.\<close>

lemma removeClnts_ok:
  assumes "cfg_ok cfg" "clerks cfg = Some cs" "distinct l" "set l = set cs"
  shows "\<exists>rn. removeClnts l cfg = Some (cfg\<lparr>cNet := rn\<rparr>) \<and> ends rn = ends (cNet cfg) - (\<Union>a. owned cfg (OClnt a)) \<and> \<not> netDone rn"
  using assms
proof (induction l arbitrary: cfg cs)
  case Nil
  then have "owned cfg (OClnt a) = {}" for a by (simp add: live_def)
  then show ?case using Nil(1) by (auto simp: cfg_ok_def intro: exI [of _ "cNet cfg"])
next
  case (Cons a l)
  have a: "a \<in> set cs" "live cfg a" using Cons.prems(2,4) by (auto simp: live_def)
  obtain rn1 where 1: "removeClnt a cfg = Some (cfg\<lparr>cNet := rn1\<rparr>)" "ends rn1 = ends (cNet cfg) - owned cfg (OClnt a)"
      "net_frame (owned cfg (OClnt a)) {} (cNet cfg) rn1"
    using removeClnt_ok [OF Cons.prems(1) a(2)] by blast
  let ?cfg = "cfg\<lparr>cNet := rn1, clerks := Some (removeAll a cs)\<rparr>"
  have "cfg_ok ?cfg" using drop_client_ok [OF Cons.prems(1,2) a(1) 1(3)] by blast
  then obtain rn where 2: "removeClnts l ?cfg = Some (?cfg\<lparr>cNet := rn\<rparr>)" "ends rn = ends rn1 - (\<Union>b. owned ?cfg (OClnt b))" "\<not> netDone rn"
    using Cons.IH [of ?cfg "removeAll a cs"] Cons.prems(3,4) by auto
  have own: "owned ?cfg (OClnt b) = (if b = a then {} else owned cfg (OClnt b))" for b using Cons.prems(2) by (auto simp: live_def)
  have "(\<Union>b. owned cfg (OClnt b)) = owned cfg (OClnt a) \<union> (\<Union>b. owned ?cfg (OClnt b))" unfolding own by (auto split: if_splits)
  moreover have "removeClnts l (cfg\<lparr>cNet := rn1\<rparr>) = Some (cfg\<lparr>cNet := rn\<rparr>)"
    using removeClnts_clerks [of l "clerks cfg" ?cfg] 2(1) by simp
  ultimately show ?case using 1(1,2) 2(2,3) by (auto simp del: owned.simps)
qed

lemma groupsCleanup_keeps [simp]:
  "cNet (groupsCleanup order cfg) = cNet cfg" "tFailed (groupsCleanup order cfg) = tFailed cfg"
  "cStart (groupsCleanup order cfg) = cStart cfg" "clerks (groupsCleanup order cfg) = clerks cfg"
  by (simp_all add: groupsCleanup_def)

lemma groupsCleanup_grps:
  "distinct order \<Longrightarrow> grps (groupsCleanup order cfg) g = (if g \<in> set order then map_option grpCleanup (grps cfg g) else grps cfg g)"
proof -
  have "distinct order \<Longrightarrow> fold (\<lambda>g m. case m g of Some sg \<Rightarrow> m(g \<mapsto> grpCleanup sg) | None \<Rightarrow> m) order m g =
      (if g \<in> set order then map_option grpCleanup (m g) else m g)" for m :: "nat \<rightharpoonup> ('a, 'b, 'c, 'd) ServerGrp"
    by (induction order arbitrary: m) (auto split: option.splits)
  then show "distinct order \<Longrightarrow> grps (groupsCleanup order cfg) g = (if g \<in> set order then map_option grpCleanup (grps cfg g) else grps cfg g)"
    by (simp add: groupsCleanup_def)
qed

text \<open>C30: the end of a test. In every run of a test \<^verbatim>\<open>Cleanup\<close> succeeds, in whatever order it meets the
  clients and the groups: it finds every end it deletes, removes exactly the ends of the clients
  in use, tells every service that is running to stop, once, and stops the network; after that a
  test that is out of time, and only such a test, is marked as failed.\<close>

theorem test_cleanup_succeeds:
  assumes run: "testRun mks labServer cfg" and c: "clerks cfg = Some cs" "distinct corder" "set corder = set cs"
    and g: "distinct gorder" "set gorder = dom (grps cfg)"
  shows "\<exists>cfg' an' file. cfgCleanup corder gorder vis opened order t t' now (cfg, an) =
       Some (if \<not> tFailed cfg \<and> now - cStart cfg > 120 * 10 ^ 9 then Inl (cfg'\<lparr>tFailed := True\<rparr>) else Inr cfg', an', file) \<and>
     netDone (cNet cfg') \<and> clerks cfg' = None \<and> tFailed cfg' = tFailed cfg \<and>
     ends (cNet cfg') = ends (cNet cfg) - (\<Union>a. owned cfg (OClnt a)) \<and>
     (\<forall>h. grps cfg' h = map_option (\<lambda>sg. sg\<lparr>stopped := stopped sg @ concat (map (\<lambda>s. case svcs s of Some l \<Rightarrow> l | None \<Rightarrow> []) (srvs sg))\<rparr>) (grps cfg h))"
proof -
  obtain rn where rn: "removeClnts corder cfg = Some (cfg\<lparr>cNet := rn\<rparr>)" "ends rn = ends (cNet cfg) - (\<Union>a. owned cfg (OClnt a))" "\<not> netDone rn"
    using removeClnts_ok [OF testRun_ok [OF run] c] by blast
  let ?cfg = "(groupsCleanup gorder (cfg\<lparr>cNet := rn, clerks := None\<rparr>))\<lparr>cNet := rn\<lparr>netDone := True\<rparr>\<rparr>"
  have "grps ?cfg h = map_option grpCleanup (grps cfg h)" for h
    using groupsCleanup_grps [OF g(1), of "cfg\<lparr>cNet := rn, clerks := None\<rparr>" h] g(2) by (auto simp: dom_def)
  then have "grps ?cfg h = map_option (\<lambda>sg. sg\<lparr>stopped := stopped sg @ concat (map (\<lambda>s. case svcs s of Some l \<Rightarrow> l | None \<Rightarrow> []) (srvs sg))\<rparr>) (grps cfg h)" for h
    unfolding grpCleanup_def [abs_def] .
  moreover have "clntsCleanup corder cfg = Some (cfg\<lparr>cNet := rn, clerks := None\<rparr>)" using rn(1) by (simp add: clntsCleanup_def)
  ultimately show ?thesis using rn(2,3)
    by (intro exI [of _ ?cfg]) (auto simp: cfgCleanup_def Cleanup_def CheckTimeout_def Let_def simp del: owned.simps split: prod.split)
qed

section \<open>A configuration that was just made\<close>

lemma makeServers_total:
  "distinct (concat nss) \<Longrightarrow> set (concat nss) \<inter> ends rn = {} \<Longrightarrow> \<exists>ss rn'. makeServers g nss rn = Some (ss, rn')"
proof (induction nss arbitrary: rn)
  case (Cons ns nss)
  then obtain rn1 where 1: "makeEnds g 0 ns rn = Some rn1" using makeEnds_total [of ns rn g 0] by auto
  note e = makeEnds_spec [OF 1]
  have "set (concat nss) \<inter> ends rn1 = {}" using e Cons.prems by auto
  then show ?case using Cons.IH [of rn1] Cons.prems 1 by (auto simp: makeServer_def)
qed simp

text \<open>\<^verbatim>\<open>MakeConfig\<close> with random names that do not repeat succeeds, and its servers are all running, with
  services made from empty persisters, and all connected.\<close>

lemma MakeConfig_spec:
  fixes mks :: "nat \<Rightarrow> ('r, 's) Persister \<Rightarrow> 'v list" and hp :: "nat \<Rightarrow> 'st Server"
  assumes nss: "length nss = n" "\<forall>ns \<in> set nss. length ns = n" and picks: "length picks = n" "\<forall>p \<in> set picks. length (fst p) = n"
    and dist: "distinct (concat nss @ concat (map fst picks))"
  shows "\<exists>cfg sg. MakeConfig hp mks labServer n rel nss picks now = Some cfg \<and> lookupGroup GRP0 cfg = Some sg \<and> grpN sg = n \<and>
     cfgIsReliable cfg = rel \<and> (\<forall>i < n. serverAt (cNet cfg) (ServerName GRP0 i) = Some (snd (picks ! i)) \<and>
       svcs (srvs sg ! i) = Some (mks i MakePersister) \<and> (\<forall>j < n. link sg i j))"
proof -
  obtain ss :: "('r, 's, 'v) TServer list" and rn where 1: "makeServers GRP0 nss (MakeNetwork hp) = Some (ss, rn)"
    using makeServers_total [of nss "MakeNetwork hp" GRP0] dist by (auto simp: MakeNetwork_def)
  let ?sg = "\<lparr>gnet = rn, srvs = ss, gid = GRP0, connected = replicate (length nss) False, stopped = []\<rparr>"
  have m: "makeSrvGrp GRP0 nss (MakeNetwork hp) = Some ?sg" using 1 by (simp add: makeSrvGrp_def)
  have ok: "grp_ok ?sg" "grpN ?sg = n" using makeSrvGrp_ok [OF m] nss by auto
  note sp = makeServers_spec [OF 1]
  have "fresh_picks (grpN ?sg) picks (gnet ?sg)"
    using sp dist picks(2) ok(2) by (simp add: fresh_picks_def MakeNetwork_def) blast
  then obtain sg where sg: "StartServers mks labServer picks ?sg = Some sg" "grpN sg = n" "gid sg = GRP0"
      "\<forall>k < n. started mks (snd (picks ! k)) k (srvs ?sg ! k) sg \<and> (\<forall>j < n. link sg k j)"
    using StartServers_spec [OF ok(1), of picks mks labServer] picks(1) ok(2) by auto
  have old: "savedOr (ss ! k) = MakePersister" if "k < n" for k
  proof -
    have "ss ! k \<in> set ss" using that ok(2) by (simp add: grpN_def)
    then show ?thesis using sp by (simp add: savedOr_def)
  qed
  let ?cfg = "(newGroups (MakeNetwork hp))\<lparr>clerks := Some [], cStart := now, cNet := Reliable rel (gnet sg), grps := [GRP0 \<mapsto> sg]\<rparr>"
  have c: "MakeConfig hp mks labServer n rel nss picks now = Some ?cfg"
    using m sg(1) nss by (simp add: MakeConfig_def MakeGroupStart_def MakeGroup_def withGroup_def onNet_def newGroups_def makeClnts_def list_all_iff Let_def)
  have e: "enabledAt (Reliable rel rn) = enabledAt rn" "serverAt (Reliable rel rn) = serverAt rn" for rn :: "'st Network"
    by (simp_all add: fun_eq_iff enabledAt_def serverAt_def Reliable_def)
  show ?thesis
    by (intro exI [of _ ?cfg] exI [of _ "sg\<lparr>gnet := Reliable rel (gnet sg)\<rparr>"])
      (use c sg old in \<open>simp add: lookupGroup_def started_def link_def e cfgIsReliable_def IsReliable_def\<close>, simp add: Reliable_def)
qed

lemma MakeConfig_fields:
  "MakeConfig hp mks labServer n rel nss picks now = Some cfg \<Longrightarrow>
     clerks cfg = Some [] \<and> clnts cfg = Map.empty \<and> \<not> tFailed cfg \<and> cStart cfg = now \<and> (\<exists>sg. grps cfg = [GRP0 \<mapsto> sg])"
  by (auto simp: MakeConfig_def MakeGroupStart_def MakeGroup_def withGroup_def newGroups_def makeClnts_def bind_Some_iff Let_def
      split: if_splits)

section \<open>An example\<close>

definition exampleMks :: "nat \<Rightarrow> (nat, nat) Persister \<Rightarrow> nat list" where
  "exampleMks = (\<lambda>i ps. [7])"

definition exampleServer :: "nat list \<Rightarrow> unit Server" where
  "exampleServer = (\<lambda>_. MakeServer ())"

definition examplePicks :: "(string list \<times> nat) list" where
  "examplePicks = [([''da'', ''db'', ''dc''], 0), ([''ea'', ''eb'', ''ec''], 1), ([''fa'', ''fb'', ''fc''], 2)]"

definition exampleConfig :: "(unit, nat, nat, nat) TConfig option" where
  "exampleConfig = MakeConfig (\<lambda>_. MakeServer ()) exampleMks exampleServer 3 True exampleNames examplePicks 0"

lemma exampleConfig_spec:
  "\<exists>cfg sg. exampleConfig = Some cfg \<and> lookupGroup GRP0 cfg = Some sg \<and> grpN sg = 3 \<and> link sg 0 1 \<and> testRun exampleMks exampleServer cfg"
proof -
  have "distinct (concat exampleNames @ concat (map fst examplePicks))" by (simp add: exampleNames_def examplePicks_def)
  then obtain cfg sg where "exampleConfig = Some cfg" "lookupGroup GRP0 cfg = Some sg" "grpN sg = 3" "\<forall>i < 3. \<forall>j < 3. link sg i j"
    using MakeConfig_spec [of exampleNames 3 examplePicks "\<lambda>_. MakeServer ()" exampleMks exampleServer True 0]
    by (auto simp: exampleConfig_def exampleNames_def examplePicks_def)
  then show ?thesis using testRun_make [of _ exampleMks exampleServer] by (auto simp: exampleConfig_def)
qed

theorem test_users_isolated_witness:
  "\<exists>cfg cfg1 cfg2 sg. exampleConfig = Some cfg \<and> cfgStep exampleMks exampleServer (EMakeClient 5 None) cfg = Some cfg1 \<and>
     cfgStep exampleMks exampleServer (EClnt 5 CDisconnectAll) cfg1 = Some cfg2 \<and> lookupGroup 0 cfg2 = Some sg \<and> link sg 0 1"
proof -
  obtain cfg sg where c: "exampleConfig = Some cfg" "lookupGroup GRP0 cfg = Some sg" "grpN sg = 3" "link sg 0 1" "testRun exampleMks exampleServer cfg"
    using exampleConfig_spec by blast
  have "clerks cfg = Some [] \<and> clnts cfg = Map.empty"
    using MakeConfig_fields c(1) unfolding exampleConfig_def by blast
  then obtain cfg1 cfg2 where s: "cfgStep exampleMks exampleServer (EMakeClient 5 None) cfg = Some cfg1"
      "cfgStep exampleMks exampleServer (EClnt 5 CDisconnectAll) cfg1 = Some cfg2" and l: "live cfg1 5"
    by (simp add: cfgStep_def MakeClientTo_def withClnt_def clntOperation_def clntDisconnectAll_def live_def)
  have "testRun exampleMks exampleServer cfg1" using testRun_step [OF c(5) _ s(1)] by simp
  then have t: "lookupGroup 0 a = Some x \<Longrightarrow> lookupGroup 0 b = Some (x\<lparr>gnet := cNet b\<rparr>) \<and>
      (\<forall>i < grpN x. \<forall>j < grpN x. link (x\<lparr>gnet := cNet b\<rparr>) i j = link x i j)" if "(a, b) \<in> {(cfg, cfg1), (cfg1, cfg2)}" for a b x
    using test_users_isolated [OF c(5) _ s(1)] test_users_isolated [OF _ _ s(2)] l that by auto
  let ?sg1 = "sg\<lparr>gnet := cNet cfg1\<rparr>" let ?sg2 = "?sg1\<lparr>gnet := cNet cfg2\<rparr>"
  have 1: "lookupGroup 0 cfg1 = Some ?sg1" "link ?sg1 0 1 = link sg 0 1" using t [of cfg cfg1 sg] c(2,3) by (simp_all add: GRP0_def)
  have "lookupGroup 0 cfg2 = Some ?sg2" "link ?sg2 0 1 = link ?sg1 0 1" using t [of cfg1 cfg2 ?sg1] 1(1) c(3) by simp_all
  then show ?thesis using c(1,4) s 1(2) by blast
qed

theorem test_cleanup_succeeds_witness:
  "\<exists>cfg cfg' an' file. exampleConfig = Some cfg \<and>
     cfgCleanup [] [0] ''never'' True [] 0 0 (121 * 10 ^ 9) (cfg, mkAnnotation) = Some (Inl cfg', an', file) \<and> tFailed cfg' \<and> netDone (cNet cfg')"
proof -
  obtain cfg where c: "exampleConfig = Some cfg" "testRun exampleMks exampleServer cfg" using exampleConfig_spec by blast
  then obtain sg where f: "clerks cfg = Some []" "\<not> tFailed cfg" "cStart cfg = 0" "grps cfg = [GRP0 \<mapsto> sg]"
    using MakeConfig_fields unfolding exampleConfig_def by blast
  from f(4) have g: "set [0] = dom (grps cfg)" by (simp add: GRP0_def)
  show ?thesis
    using test_cleanup_succeeds [OF c(2) f(1) _ _ _ g, of "[]" "''never''" True "[]" 0 0 "121 * 10 ^ 9" mkAnnotation] f(2,3) c(1) by fastforce
qed

end
