(* ===== verification/Test_Partitioner.thy ===== *)
theory Test_Partitioner
  imports Test_Config Kv_Steps
begin

text \<open>
  What the key/value tests do to the servers and clients of a test while the clients run
  (\<^verbatim>\<open>src/kvtest1/kvtest.go\<close>): the goroutine that repartitions a group until it is told to stop, the
  reconnection of clients, and the end of a test; and the same operations of the Raft tests. Shown is that repartitioning in any run of a
  test never panics, and that the servers are left in the parts of the last round.
\<close>

section \<open>Operations\<close>

text \<open>One round of the loop: \<open>r\<close> is the random number for each server, \<open>t\<close> the time of the annotation.\<close>

definition partitionerRound :: "nat \<Rightarrow> (nat \<Rightarrow> nat) \<Rightarrow> int \<Rightarrow> ('st, 'r, 's, 'v) TConfig \<times> Annot \<Rightarrow>
    (('st, 'r, 's, 'v) TConfig \<times> Annot) option" where
  "partitionerRound g r t = (\<lambda>(cfg, an). do {
     sg \<leftarrow> lookupGroup g cfg;
     let (p0, p1) = partitionerParts (map r [0..<grpN sg]);
     cfg' \<leftarrow> withGroup g (Test_Group.Partition p0 p1) cfg;
     Some (cfg', AnnotateTwoPartitions t p0 p1 an)
   })"

text \<open>The rounds before the signal to stop is found on the channel.\<close>

fun Partitioner :: "nat \<Rightarrow> ((nat \<Rightarrow> nat) \<times> int) list \<Rightarrow> ('st, 'r, 's, 'v) TConfig \<times> Annot \<Rightarrow>
    (('st, 'r, 's, 'v) TConfig \<times> Annot) option" where
  "Partitioner g [] st = Some st"
| "Partitioner g ((r, t) # rounds) st = do { st' \<leftarrow> partitionerRound g r t st; Partitioner g rounds st' }"

fun ConnectClnts :: "nat list \<Rightarrow> ('st, 'r, 's, 'v) TConfig \<Rightarrow> ('st, 'r, 's, 'v) TConfig option" where
  "ConnectClnts [] cfg = Some cfg"
| "ConnectClnts (c # l) cfg = do { cfg1 \<leftarrow> withClnt c (\<lambda>clnt rn. Some (clntConnectAll clnt rn)) cfg; ConnectClnts l cfg1 }"

text \<open>\<^verbatim>\<open>Cleanup\<close> of a test: after a failure in \<^verbatim>\<open>End\<close> the goroutine of the test ends there.\<close>

definition kvCleanup :: "nat list \<Rightarrow> nat list \<Rightarrow> string \<Rightarrow> bool \<Rightarrow> string list \<Rightarrow> int \<Rightarrow> int \<Rightarrow> int \<Rightarrow> int \<Rightarrow>
    ('st, 'r, 's, 'v) TConfig \<times> Annotation \<Rightarrow>
    ((('st, 'r, 's, 'v) TConfig + ('st, 'r, 's, 'v) TConfig) \<times> Annotation \<times> PAnnotation list option) option" where
  "kvCleanup corder gorder vis opened order t t' now now' = (\<lambda>(cfg, an). do {
     r \<leftarrow> cfgEnd now cfg;
     (case r of
        Inl cfg1 \<Rightarrow> Some (Inl cfg1, an, None)
      | Inr (cfg1, _) \<Rightarrow> cfgCleanup corder gorder vis opened order t t' now' (cfg1, an))
   })"

text \<open>\<^verbatim>\<open>SpreadPuts\<close>: values of 20 characters from the random bytes \<open>bs\<close>, one string for each of the \<open>n\<close> keys.\<close>

definition SpreadPuts :: "int \<Rightarrow> nat \<Rightarrow> (nat \<Rightarrow> 8 word list) \<Rightarrow> fate list list \<Rightarrow> Hist \<times> Annot \<Rightarrow> ((Hist \<times> Annot) \<times> bool) option" where
  "SpreadPuts t n bs fss st = do {
     va \<leftarrow> those (map (\<lambda>i. Randstring 20 (bs i)) [0..<n]);
     SpreadPutsSize t n va fss st
   }"

text \<open>\<^verbatim>\<open>restart\<close> and \<^verbatim>\<open>cleanup\<close> of the Raft tests (\<^verbatim>\<open>src/raft1/test.go\<close>).\<close>

definition raftRestart :: "(nat \<Rightarrow> ('r, 's) Persister \<Rightarrow> 'v list) \<Rightarrow> ('v list \<Rightarrow> 'st Server) \<Rightarrow> string list \<Rightarrow> nat \<Rightarrow> nat \<Rightarrow>
    ('st, 'r, 's, 'v) TConfig \<Rightarrow> ('st, 'r, 's, 'v) TConfig option" where
  "raftRestart mks labServer names a i cfg = do {
     cfg1 \<leftarrow> withGroup GRP0 (StartServer mks labServer names a i) cfg;
     withGroup GRP0 ConnectAll cfg1
   }"

definition raftCleanup :: "nat list \<Rightarrow> nat list \<Rightarrow> string \<Rightarrow> bool \<Rightarrow> string list \<Rightarrow> int \<Rightarrow> int \<Rightarrow> int \<Rightarrow> int \<Rightarrow> int \<Rightarrow>
    ('st, 'r, 's, 'v) TConfig \<times> Annotation \<Rightarrow>
    ((('st, 'r, 's, 'v) TConfig + ('st, 'r, 's, 'v) TConfig) \<times> Annotation \<times> PAnnotation list option) option" where
  "raftCleanup corder gorder vis opened order t t' now now' now'' st = do {
     (r, an, file) \<leftarrow> kvCleanup corder gorder vis opened order t t' now now' st;
     Some (case r of Inl cfg \<Rightarrow> Inl cfg | Inr cfg \<Rightarrow> CheckTimeout now'' cfg, an, file)
   }"

section \<open>Repartitioning\<close>

lemma partitionerRound_spec:
  assumes run: "testRun mks labServer cfg" and g: "grps cfg g = Some sg" and p: "partitionerParts (map r [0..<grpN sg]) = (p0, p1)"
  shows "\<exists>cfg' sg'. partitionerRound g r t (cfg, an) = Some (cfg', AnnotateTwoPartitions t p0 p1 an) \<and> testRun mks labServer cfg' \<and>
    grps cfg' g = Some sg' \<and> gnet sg' = cNet cfg' \<and> grpN sg' = grpN sg \<and>
    island (set p0) (set p1) sg' \<and> island (set p1) (set p0) sg'"
proof -
  let ?sg = "sg\<lparr>gnet := cNet cfg\<rparr>"
  have n: "grpN ?sg = grpN sg" by (simp add: grpN_def)
  have ok: "grp_ok ?sg" using cfg_okD(1) [OF testRun_ok [OF run], of "OGroup g"] g by (simp add: grpFits_def)
  have parts: "set p0 \<inter> set p1 = {}" "set p0 \<union> set p1 = {..<grpN sg}"
    using partitionerParts_partition [of "map r [0..<grpN sg]"] p by simp_all
  then have "inGroup ?sg (p0 @ p1)" unfolding inGroup_def n list_all_iff set_append by blast
  then obtain sg' where sg': "Test_Group.Partition p0 p1 ?sg = Some sg'" "grpN sg' = grpN sg" "island (set p0) (set p1) sg'" "island (set p1) (set p0) sg'"
    using Partition_separates [OF ok _ parts(1)] n by auto
  let ?cfg = "cfg\<lparr>cNet := gnet sg', grps := (grps cfg)(g \<mapsto> sg')\<rparr>"
  have w: "withGroup g (Test_Group.Partition p0 p1) cfg = Some ?cfg" using g sg'(1) by (simp add: withGroup_def onNet_def)
  then have "cfgStep mks labServer (EGroup g (GPartition p0 p1)) cfg = Some ?cfg" by (simp add: cfgStep_def groupOperation_def)
  then have "testRun mks labServer ?cfg" by (rule testRun_step [OF run, rotated]) simp
  moreover have "partitionerRound g r t (cfg, an) = Some (?cfg, AnnotateTwoPartitions t p0 p1 an)"
    using g p w n by (simp add: partitionerRound_def lookupGroup_def)
  ultimately show ?thesis using sg'(2-4) by auto
qed

text \<open>However long it runs, the goroutine does not panic; when it stops, the servers are in the parts
  of the last round: all messages pass inside a part and none between the parts.\<close>

lemma Partitioner_last:
  assumes "testRun mks labServer cfg" "grps cfg g = Some sg" "rounds \<noteq> []"
    and "partitionerParts (map (fst (last rounds)) [0..<grpN sg]) = (p0, p1)"
  shows "\<exists>cfg' an' sg'. Partitioner g rounds (cfg, an) = Some (cfg', an') \<and> testRun mks labServer cfg' \<and>
    grps cfg' g = Some sg' \<and> gnet sg' = cNet cfg' \<and> island (set p0) (set p1) sg' \<and> island (set p1) (set p0) sg'"
  using assms
proof (induction rounds arbitrary: cfg an sg)
  case (Cons x rounds)
  obtain r t where x: "x = (r, t)" by (cases x)
  obtain q0 q1 where q: "partitionerParts (map r [0..<grpN sg]) = (q0, q1)" by (cases "partitionerParts (map r [0..<grpN sg])")
  obtain cfg1 sg1 where 1: "partitionerRound g r t (cfg, an) = Some (cfg1, AnnotateTwoPartitions t q0 q1 an)" "testRun mks labServer cfg1"
      "grps cfg1 g = Some sg1" "gnet sg1 = cNet cfg1" "grpN sg1 = grpN sg" "island (set q0) (set q1) sg1" "island (set q1) (set q0) sg1"
    using partitionerRound_spec [OF Cons.prems(1,2) q, of t an] by blast
  show ?case
  proof (cases "rounds = []")
    case True
    then show ?thesis using 1 Cons.prems(4) q x by auto
  next
    case False
    then have "partitionerParts (map (fst (last rounds)) [0..<grpN sg1]) = (p0, p1)" using Cons.prems(4) 1(5) by simp
    from Cons.IH [OF 1(2,3) False this, of "AnnotateTwoPartitions t q0 q1 an"] show ?thesis using 1(1) x by simp
  qed
qed simp

section \<open>Clients, restarts and cleanup\<close>

text \<open>After a restart of a server of the Raft tests the test is in a state of its runs, so that all
  that holds in these states holds again.\<close>

lemma raftRestart_run:
  assumes "testRun mks labServer cfg" "raftRestart mks labServer names a i cfg = Some cfg'"
  shows "testRun mks labServer cfg'"
proof -
  obtain cfg1 where 1: "withGroup GRP0 (StartServer mks labServer names a i) cfg = Some cfg1" "withGroup GRP0 ConnectAll cfg1 = Some cfg'"
    using assms(2) by (auto simp: raftRestart_def bind_Some_iff)
  have "cfgStep mks labServer (EGroup GRP0 (GStartServer names a i)) cfg = Some cfg1"
      "cfgStep mks labServer (EGroup GRP0 GConnectAll) cfg1 = Some cfg'"
    using 1 by (simp_all add: cfgStep_def groupOperation_def)
  then show ?thesis using testRun_step [OF testRun_step [OF assms(1)]] by (meson usesLive.simps(2))
qed

text \<open>The random values always exist, so \<^verbatim>\<open>SpreadPuts\<close> is \<^verbatim>\<open>SpreadPutsSize\<close> on \<open>n\<close> values of 20 characters.\<close>

lemma SpreadPuts_size:
  assumes "\<And>i. i < n \<Longrightarrow> length (bs i) = 40"
  shows "\<exists>va. length va = n \<and> (\<forall>v \<in> set va. length v = 20) \<and> SpreadPuts t n bs fss st = SpreadPutsSize t n va fss st"
proof -
  let ?f = "\<lambda>i. Randstring 20 (bs i)"
  have f: "\<exists>s. ?f i = Some s \<and> length s = 20" if "i < n" for i using Randstring_spec [of "bs i" 20] assms [OF that] by auto
  have "those (map ?f is) = Some (map (the \<circ> ?f) is)" if "\<forall>i \<in> set is. i < n" for "is"
    using that by (induction "is") (auto dest: f)
  then have "those (map ?f [0..<n]) = Some (map (the \<circ> ?f) [0..<n])" by simp
  moreover have "length (the (?f i)) = 20" if "i < n" for i using f [OF that] by auto
  ultimately show ?thesis by (intro exI [of _ "map (the \<circ> ?f) [0..<n]"]) (simp add: SpreadPuts_def)
qed

lemma ConnectClnts_ok:
  assumes "testRun mks labServer cfg" "\<forall>c \<in> set cl. live cfg c"
  shows "\<exists>cfg'. ConnectClnts cl cfg = Some cfg' \<and> testRun mks labServer cfg'"
  using assms
proof (induction cl arbitrary: cfg)
  case (Cons c cl)
  have "user_fits cfg (OClnt c)" by (rule cfg_okD(1) [OF testRun_ok [OF Cons.prems(1)]])
  then obtain clnt where "clnts cfg c = Some clnt" using Cons.prems(2) by auto
  then obtain cfg1 where 1: "withClnt c (\<lambda>clnt rn. Some (clntConnectAll clnt rn)) cfg = Some cfg1" "clerks cfg1 = clerks cfg"
    by (simp add: withClnt_def case_prod_beta)
  then have "cfgStep mks labServer (EClnt c CConnectAll) cfg = Some cfg1" by (simp add: cfgStep_def clntOperation_def)
  then have "testRun mks labServer cfg1" using Cons.prems by (intro testRun_step [OF Cons.prems(1)]) simp_all
  moreover have "\<forall>c \<in> set cl. live cfg1 c" using Cons.prems(2) 1(2) by (simp add: live_def)
  ultimately show ?case using Cons.IH 1(1) by simp
qed simp

end
