(* ===== verification/Lab_Gob.thy ===== *)
theory Lab_Gob
  imports Prelude "HOL-Library.Multiset"
begin

text \<open>
  The wrapper \<^verbatim>\<open>src/labgob/labgob.go\<close> around the encoder of the Go library: before it encodes or
  decodes it warns about struct fields that the encoder would silently skip, and about
  decoding into variables that are not empty. Go types can be recursive: a type is a number
  here, and its structure is looked up in an environment, as \<^verbatim>\<open>reflect.Type\<close> does.
\<close>

section \<open>Types and their check\<close>

type_synonym tid = nat

text \<open>What \<^verbatim>\<open>reflect\<close> tells about a type. \<open>Basic\<close> stands for booleans, numbers and strings.\<close>

datatype gtype = Struct "(string \<times> tid) list" | Slice tid | Array tid | Ptr tid | Map tid tid | Basic | OtherKind

text \<open>What the package prints: a lower case field of a struct type, or a variable that is not empty.\<close>

datatype gobMsg = LowerCaseField string tid | NonDefault string

text \<open>The globals of the package; \<open>printed\<close> is what went to the standard output.\<close>

record labgob =
  errorCount :: int
  checked :: "tid set"
  printed :: "gobMsg list"

definition startGob :: labgob where
  "startGob = \<lparr>errorCount = 0, checked = {}, printed = []\<rparr>"

text \<open>\<open>isUpper\<close> is \<^verbatim>\<open>unicode.IsUpper\<close>; the empty name has no first letter.\<close>

definition capital :: "(char \<Rightarrow> bool) \<Rightarrow> string \<Rightarrow> bool" where
  "capital isUpper name = (case name of [] \<Rightarrow> False | c # _ \<Rightarrow> isUpper c)"

definition complain :: "string \<Rightarrow> tid \<Rightarrow> labgob \<Rightarrow> labgob" where
  "complain name t g = g\<lparr>printed := printed g @ [LowerCaseField name t], errorCount := errorCount g + 1\<rparr>"

text \<open>The first argument bounds the depth of the recursion; \<open>None\<close>: not enough.\<close>

fun checkType :: "nat \<Rightarrow> (char \<Rightarrow> bool) \<Rightarrow> (tid \<Rightarrow> gtype) \<Rightarrow> tid \<Rightarrow> labgob \<Rightarrow> labgob option"
  and checkFields :: "nat \<Rightarrow> (char \<Rightarrow> bool) \<Rightarrow> (tid \<Rightarrow> gtype) \<Rightarrow> tid \<Rightarrow> (string \<times> tid) list \<Rightarrow> labgob \<Rightarrow> labgob option" where
  "checkType 0 up env t g = None"
| "checkType (Suc n) up env t g =
     (if t \<in> checked g then Some g
      else
        let g1 = g\<lparr>checked := insert t (checked g)\<rparr>
        in case env t of
             Struct fs \<Rightarrow> checkFields n up env t fs g1
           | Slice e \<Rightarrow> checkType n up env e g1
           | Array e \<Rightarrow> checkType n up env e g1
           | Ptr e \<Rightarrow> checkType n up env e g1
           | Map e k \<Rightarrow> do { g2 \<leftarrow> checkType n up env e g1; checkType n up env k g2 }
           | Basic \<Rightarrow> Some g1
           | OtherKind \<Rightarrow> Some g1)"
| "checkFields n up env s [] g = Some g"
| "checkFields n up env s ((name, t) # fs) g = do {
     g1 \<leftarrow> checkType n up env t (if capital up name then g else complain name s g);
     checkFields n up env s fs g1
   }"

text \<open>\<^verbatim>\<open>checkValue\<close> looks only at the type. A nil interface has none, and asking for its kind panics:
  \<open>Inl\<close>.\<close>

definition checkValue :: "nat \<Rightarrow> (char \<Rightarrow> bool) \<Rightarrow> (tid \<Rightarrow> gtype) \<Rightarrow> tid option \<Rightarrow> labgob \<Rightarrow> (unit + labgob) option" where
  "checkValue n up env value g =
     (case value of None \<Rightarrow> Some (Inl ()) | Some t \<Rightarrow> map_option Inr (checkType n up env t g))"

section \<open>Decoding into variables that are not empty\<close>

text \<open>Values: \<open>Leaf name zero\<close> is a boolean, number or string of a type with that name, and whether
  it is the zero value; \<open>Opaque\<close> is anything \<^verbatim>\<open>checkDefault1\<close> does not look into.\<close>

datatype gval = StructV "(string \<times> gval) list" | NilPtr | PtrV gval | Leaf string bool | Opaque

fun checkDefault1 :: "gval \<Rightarrow> nat \<Rightarrow> string \<Rightarrow> labgob \<Rightarrow> labgob"
  and checkDefaults :: "(string \<times> gval) list \<Rightarrow> nat \<Rightarrow> string \<Rightarrow> labgob \<Rightarrow> labgob" where
  "checkDefault1 (StructV fs) depth name g = (if depth > 3 then g else checkDefaults fs depth name g)"
| "checkDefault1 NilPtr depth name g = g"
| "checkDefault1 (PtrV v) depth name g = (if depth > 3 then g else checkDefault1 v (depth + 1) name g)"
| "checkDefault1 (Leaf tname zero) depth name g =
     (if depth > 3 then g
      else if \<not> zero
      then let g1 = (if errorCount g < 1 then g\<lparr>printed := printed g @ [NonDefault (if name = '''' then tname else name)]\<rparr> else g)
           in g1\<lparr>errorCount := errorCount g1 + 1\<rparr>
      else g)"
| "checkDefault1 Opaque depth name g = g"
| "checkDefaults [] depth name g = g"
| "checkDefaults ((fname, v) # fs) depth name g =
     checkDefaults fs depth name
       (checkDefault1 v (depth + 1) (if name \<noteq> '''' then name @ ''.'' @ fname else fname) g)"

text \<open>A nil interface has no value to look at.\<close>

definition checkDefault :: "gval option \<Rightarrow> labgob \<Rightarrow> labgob" where
  "checkDefault value g = (case value of None \<Rightarrow> g | Some v \<Rightarrow> checkDefault1 v 1 '''' g)"

section \<open>The operations\<close>

text \<open>The encoder and decoder of the Go library are parameters. A value is a type and its content;
  the nil interface is \<open>None\<close>, and the panic on it is \<open>Inl\<close>.\<close>

definition Encode :: "(tid \<Rightarrow> gval \<Rightarrow> 'b list \<Rightarrow> 'b list option) \<Rightarrow> nat \<Rightarrow> (char \<Rightarrow> bool) \<Rightarrow> (tid \<Rightarrow> gtype) \<Rightarrow>
    (tid \<times> gval) option \<Rightarrow> 'b list \<Rightarrow> labgob \<Rightarrow> (unit + labgob \<times> 'b list option) option" where
  "Encode enc n up env e w g = do {
     r \<leftarrow> checkValue n up env (map_option fst e) g;
     Some (case (r, e) of (Inr g1, Some (t, v)) \<Rightarrow> Inr (g1, enc t v w) | _ \<Rightarrow> Inl ())
   }"

definition Decode :: "(tid \<Rightarrow> 'b list \<Rightarrow> (gval \<times> 'b list) option) \<Rightarrow> nat \<Rightarrow> (char \<Rightarrow> bool) \<Rightarrow> (tid \<Rightarrow> gtype) \<Rightarrow>
    (tid \<times> gval) option \<Rightarrow> 'b list \<Rightarrow> labgob \<Rightarrow> (unit + labgob \<times> (gval \<times> 'b list) option) option" where
  "Decode dec n up env e w g = do {
     r \<leftarrow> checkValue n up env (map_option fst e) g;
     Some (case (r, e) of (Inr g1, Some (t, v)) \<Rightarrow> Inr (checkDefault (Some v) g1, dec t w) | _ \<Rightarrow> Inl ())
   }"

section \<open>The check of types ends and finds what it looks for\<close>

text \<open>The types a type is built from, and the fields of it that start in lower case.\<close>

definition parts :: "gtype \<Rightarrow> tid set" where
  "parts k = (case k of Struct fs \<Rightarrow> snd ` set fs | Slice e \<Rightarrow> {e} | Array e \<Rightarrow> {e} | Ptr e \<Rightarrow> {e} | Map e m \<Rightarrow> {e, m} | _ \<Rightarrow> {})"

definition lowerFields :: "(char \<Rightarrow> bool) \<Rightarrow> gtype \<Rightarrow> string list" where
  "lowerFields up k = (case k of Struct fs \<Rightarrow> filter (\<lambda>f. \<not> capital up f) (map fst fs) | _ \<Rightarrow> [])"

definition closed :: "(tid \<Rightarrow> gtype) \<Rightarrow> tid set \<Rightarrow> bool" where
  "closed env U \<longleftrightarrow> (\<forall>t \<in> U. parts (env t) \<subseteq> U)"

inductive reaches_type :: "(tid \<Rightarrow> gtype) \<Rightarrow> tid \<Rightarrow> tid \<Rightarrow> bool" for env where
  refl: "reaches_type env t t"
| step: "reaches_type env t u \<Longrightarrow> v \<in> parts (env u) \<Longrightarrow> reaches_type env t v"

text \<open>The complaints about the fields of one type.\<close>

definition complaints :: "(char \<Rightarrow> bool) \<Rightarrow> (tid \<Rightarrow> gtype) \<Rightarrow> tid \<Rightarrow> gobMsg multiset" where
  "complaints up env t = mset (map (\<lambda>f. LowerCaseField f t) (lowerFields up (env t)))"

text \<open>From state \<open>g\<close> to \<open>g'\<close> types of \<open>U\<close> were checked, each once: what was printed are the complaints
  about their fields and \<open>e\<close> more, each message was counted, and all of their parts are checked.\<close>

definition gains :: "(char \<Rightarrow> bool) \<Rightarrow> (tid \<Rightarrow> gtype) \<Rightarrow> tid set \<Rightarrow> gobMsg multiset \<Rightarrow> labgob \<Rightarrow> labgob \<Rightarrow> bool" where
  "gains up env U e g g' \<longleftrightarrow> checked g \<subseteq> checked g' \<and> checked g' - checked g \<subseteq> U \<and>
     mset (printed g') = mset (printed g) + e + (\<Sum>t \<in> checked g' - checked g. complaints up env t) \<and>
     errorCount g' - int (length (printed g')) = errorCount g - int (length (printed g)) \<and>
     (\<forall>t \<in> checked g' - checked g. parts (env t) \<subseteq> checked g')"

lemma gains_refl: "checked g' = checked g \<Longrightarrow> mset (printed g') = mset (printed g) + e \<Longrightarrow>
    errorCount g' - int (length (printed g')) = errorCount g - int (length (printed g)) \<Longrightarrow> gains up env U e g g'"
  by (simp add: gains_def)

lemma gains_trans:
  assumes "gains up env U d g g1" "gains up env U e g1 g2" "finite U"
  shows "gains up env U (d + e) g g2"
proof -
  let ?f = "complaints up env"
  have sub: "checked g \<subseteq> checked g1" "checked g1 \<subseteq> checked g2" "checked g1 - checked g \<subseteq> U" "checked g2 - checked g1 \<subseteq> U"
    using assms(1,2) by (simp_all add: gains_def)
  then have eq: "checked g2 - checked g = (checked g1 - checked g) \<union> (checked g2 - checked g1)" by auto
  have "sum ?f (checked g2 - checked g) = sum ?f (checked g1 - checked g) + sum ?f (checked g2 - checked g1)"
    unfolding eq using sub(3,4) assms(3) by (intro sum.union_disjoint) (auto intro: finite_subset)
  moreover have "parts (env t) \<subseteq> checked g2" if "t \<in> checked g2 - checked g" for t
    using that assms(1,2) sub(2) unfolding gains_def by blast
  ultimately show ?thesis using assms(1,2) sub unfolding gains_def by (intro conjI) (blast, blast, simp, simp, blast)
qed

text \<open>Checking a type that has not been seen: its own fields and its parts.\<close>

lemma gains_insert:
  assumes "gains up env U (complaints up env t) (g\<lparr>checked := insert t (checked g)\<rparr>) g'" "t \<notin> checked g" "t \<in> U"
    and "parts (env t) \<subseteq> checked g'" "finite U"
  shows "gains up env U {#} g g'"
proof -
  let ?f = "complaints up env"
  have sub: "insert t (checked g) \<subseteq> checked g'" "checked g' - insert t (checked g) \<subseteq> U" using assms(1) by (simp_all add: gains_def)
  then have eq: "checked g' - checked g = insert t (checked g' - insert t (checked g))" using assms(2) by auto
  have "finite (checked g' - insert t (checked g))" using sub(2) assms(5) by (rule finite_subset)
  then have "sum ?f (checked g' - checked g) = ?f t + sum ?f (checked g' - insert t (checked g))" unfolding eq by (subst sum.insert) auto
  moreover have "parts (env u) \<subseteq> checked g'" if "u \<in> checked g' - checked g" for u
    using that assms(1,4) unfolding gains_def by (cases "u = t") auto
  moreover have "mset (printed g') = mset (printed g) + ?f t + sum ?f (checked g' - insert t (checked g))"
      "errorCount g' - int (length (printed g')) = errorCount g - int (length (printed g))"
    using assms(1) by (simp_all add: gains_def)
  ultimately show ?thesis using assms(3) sub unfolding gains_def by (intro conjI) (blast, blast, simp, simp, blast)
qed

lemma card_unchecked:
  assumes "card (U - C) < n" "C \<subseteq> C'" "finite U"
  shows "card (U - C') < n"
  using assms card_mono [of "U - C" "U - C'"] by (meson Diff_mono finite_Diff order_refl order_le_less_trans)

lemma lower_Struct: "lowerFields up (Struct ((name, t) # fs)) =
    (if capital up name then [] else [name]) @ lowerFields up (Struct fs)"
  by (simp add: lowerFields_def)

lemma checkType_gains:
  assumes "finite U" "closed env U"
  shows "t \<in> U \<Longrightarrow> card (U - checked g) < n \<Longrightarrow>
     \<exists>g'. checkType n up env t g = Some g' \<and> t \<in> checked g' \<and> gains up env U {#} g g'"
proof (induction n arbitrary: t g)
  case (Suc n)
  show ?case
  proof (cases "t \<in> checked g")
    case True
    then show ?thesis by (simp add: gains_refl)
  next
    case False
    let ?g = "g\<lparr>checked := insert t (checked g)\<rparr>"
    have "card (U - insert t (checked g)) < card (U - checked g)"
      using False Suc.prems(1) assms(1) by (intro psubset_card_mono) auto
    then have fuel: "card (U - checked ?g) < n" using Suc.prems(2) by simp
    have parts: "parts (env t) \<subseteq> U" using assms(2) Suc.prems(1) by (auto simp: closed_def)
    let ?lower = "\<lambda>fs. mset (map (\<lambda>f. LowerCaseField f t) (lowerFields up (Struct fs)))"
    have fields: "snd ` set fs \<subseteq> U \<Longrightarrow> card (U - checked h) < n \<Longrightarrow> \<exists>g'. checkFields n up env t fs h = Some g' \<and>
        snd ` set fs \<subseteq> checked g' \<and> gains up env U (?lower fs) h g'" for fs h
    proof (induction fs arbitrary: h)
      case Nil
      then show ?case by (simp add: gains_refl lowerFields_def)
    next
      case (Cons f fs)
      obtain name u where f: "f = (name, u)" by fastforce
      let ?h = "if capital up name then h else complain name t h"
      have h: "checked ?h = checked h" by (simp add: complain_def)
      obtain g1 where g1: "checkType n up env u ?h = Some g1" "u \<in> checked g1" "gains up env U {#} ?h g1"
        using Suc.IH [of u ?h] Cons.prems h f by auto
      then have le: "checked h \<subseteq> checked g1" using h by (auto simp: gains_def)
      obtain g2 where g2: "checkFields n up env t fs g1 = Some g2" "snd ` set fs \<subseteq> checked g2"
          "gains up env U (?lower fs) g1 g2"
        using Cons.IH [of g1] Cons.prems card_unchecked [OF Cons.prems(2) le assms(1)] by auto
      let ?own = "if capital up name then {#} else {#LowerCaseField name t#}"
      have "gains up env U ?own h ?h" using h by (intro gains_refl) (simp_all add: complain_def)
      then have "gains up env U (?own + {#} + ?lower fs) h g2"
        using g1(3) g2(3) assms(1) by (intro gains_trans)
      moreover have "checked g1 \<subseteq> checked g2" using g2(3) by (simp add: gains_def)
      ultimately show ?case using g1 g2 by (auto simp: f lower_Struct)
    qed
    have one: "\<exists>g'. checkType n up env e ?g = Some g' \<and> {e} \<subseteq> checked g' \<and> gains up env U {#} ?g g'" if "e \<in> U" for e
      using Suc.IH [OF that fuel] by simp
    have "\<exists>g'. checkType (Suc n) up env t g = Some g' \<and> parts (env t) \<subseteq> checked g' \<and>
        gains up env U (complaints up env t) ?g g'"
    proof (cases "env t")
      case (Struct fs)
      then show ?thesis using fields [OF _ fuel, of fs] parts False by (auto simp: parts_def complaints_def)
    next
      case (Map e k)
      obtain g1 where g1: "checkType n up env e ?g = Some g1" "e \<in> checked g1" "gains up env U {#} ?g g1"
        using one [of e] parts Map by (auto simp: parts_def)
      then have le: "checked ?g \<subseteq> checked g1" by (simp add: gains_def)
      obtain g2 where g2: "checkType n up env k g1 = Some g2" "k \<in> checked g2" "gains up env U {#} g1 g2"
        using Suc.IH [of k g1] card_unchecked [OF fuel le assms(1)] parts Map by (auto simp: parts_def)
      have "gains up env U ({#} + {#}) ?g g2" using g1(3) g2(3) assms(1) by (rule gains_trans)
      moreover have "checked g1 \<subseteq> checked g2" using g2(3) by (simp add: gains_def)
      ultimately show ?thesis using g1 g2 Map False by (auto simp: parts_def lowerFields_def complaints_def)
    qed (use one parts False in \<open>auto simp: parts_def lowerFields_def complaints_def gains_refl\<close>)
    then obtain g' where g': "checkType (Suc n) up env t g = Some g'" "parts (env t) \<subseteq> checked g'"
        "gains up env U (complaints up env t) ?g g'" by blast
    then have "t \<in> checked g'" by (auto simp: gains_def)
    then show ?thesis using gains_insert [OF g'(3) False Suc.prems(1) g'(2) assms(1)] g'(1) by blast
  qed
qed simp

lemma reaches_closed: "reaches_type env t u \<Longrightarrow> closed env C \<Longrightarrow> t \<in> C \<Longrightarrow> u \<in> C"
  by (induction rule: reaches_type.induct) (auto simp: closed_def)

lemma closed_reachable: "closed env {u. reaches_type env t u}"
  by (auto simp: closed_def intro: reaches_type.step)

text \<open>C32: in a state in which the parts of every checked type are checked, as at the start and after
  every check, the check of a type ends, also for recursive types, within one more level than
  there are types to look at. Afterwards exactly the types reachable from it have been added to those
  checked before. What is printed are, in some order, one line for every lower case field of
  every type that was new, with the name of the field and the type, and nothing else; the count
  of errors grows by the number of these lines. Whatever is checked later, none is printed
  again. A nil value panics.\<close>

theorem checkValue_reports_once:
  assumes "finite {u. reaches_type env t u}" "card {u. reaches_type env t u} < n" and "closed env (checked g)"
  shows "(\<exists>g'. checkValue n up env (Some t) g = Some (Inr g') \<and> checked g' = checked g \<union> {u. reaches_type env t u} \<and>
       closed env (checked g') \<and>
       mset (printed g') = mset (printed g) +
         (\<Sum>u \<in> {u. reaches_type env t u} - checked g. mset (map (\<lambda>f. LowerCaseField f u) (lowerFields up (env u)))) \<and>
       errorCount g' = errorCount g + (int (length (printed g')) - int (length (printed g))) \<and>
       checkValue n up env (Some t) g' = Some (Inr g')) \<and>
     checkValue n up env None g = Some (Inl ())"
proof -
  let ?U = "{u. reaches_type env t u}"
  have t: "t \<in> ?U" by (simp add: reaches_type.refl)
  have "card (?U - checked g) < n" using assms(1,2) by (meson Diff_subset card_mono order_le_less_trans)
  then obtain g' where g': "checkType n up env t g = Some g'" "t \<in> checked g'" "gains up env ?U {#} g g'"
    using checkType_gains [OF assms(1) closed_reachable t] by blast
  have cl: "closed env (checked g')" using g'(3) assms(3) unfolding gains_def closed_def by blast
  then have "?U \<subseteq> checked g'" using reaches_closed g'(2) by blast
  then have eq: "checked g' = checked g \<union> ?U" using g'(3) by (auto simp: gains_def)
  then have "checked g' - checked g = ?U - checked g" by auto
  moreover have "checkType n up env t g' = Some g'" using g'(2) assms(2) by (cases n) simp_all
  ultimately show ?thesis using g'(1,3) cl eq by (simp add: gains_def checkValue_def complaints_def)
qed

definition asciiUpper :: "char \<Rightarrow> bool" where
  "asciiUpper c \<longleftrightarrow> 65 \<le> (of_char c :: nat) \<and> (of_char c :: nat) \<le> 90"

text \<open>A linked list whose link is not capitalised.\<close>

definition exampleTypes :: "tid \<Rightarrow> gtype" where
  "exampleTypes t = (if t = 0 then Struct [(''next'', 1), (''Val'', 2)] else if t = 1 then Ptr 0 else Basic)"

lemma exampleTypes_reach: "{u. reaches_type exampleTypes 0 u} = {0, 1, 2}"
proof (intro equalityI subsetI)
  have "closed exampleTypes {0, 1, 2}" by (auto simp: closed_def exampleTypes_def parts_def)
  then show "u \<in> {0, 1, 2}" if "u \<in> {u. reaches_type exampleTypes 0 u}" for u
    using that reaches_closed [of exampleTypes 0 u "{0, 1, 2}"] by simp
  have "1 \<in> parts (exampleTypes 0)" "2 \<in> parts (exampleTypes 0)" by (simp_all add: exampleTypes_def parts_def)
  then show "u \<in> {u. reaches_type exampleTypes 0 u}" if "u \<in> {0, 1, 2}" for u
    using that reaches_type.step [OF reaches_type.refl] by (auto intro: reaches_type.refl)
qed

theorem checkValue_reports_once_witness:
  "\<exists>g. checkValue 4 asciiUpper exampleTypes (Some 0) startGob = Some (Inr g) \<and> checked g = {0, 1, 2} \<and>
     printed g = [LowerCaseField ''next'' 0] \<and> errorCount g = 1"
proof -
  have "lowerFields asciiUpper (exampleTypes 0) = [''next'']" "lowerFields asciiUpper (exampleTypes 1) = []"
    "lowerFields asciiUpper (exampleTypes 2) = []" by code_simp+
  moreover have "closed exampleTypes (checked startGob)" by (simp add: closed_def startGob_def)
  ultimately obtain g where g: "checkValue 4 asciiUpper exampleTypes (Some 0) startGob = Some (Inr g)" "checked g = {0, 1, 2}"
      "mset (printed g) = {#LowerCaseField ''next'' 0#}" "errorCount g = int (length (printed g))"
    using checkValue_reports_once [of exampleTypes 0 4 startGob asciiUpper] unfolding exampleTypes_reach
    by (auto simp: startGob_def)
  moreover from g(3) have "printed g = [LowerCaseField ''next'' 0]" by simp
  ultimately show ?thesis by auto
qed

section \<open>What the check of defaults sees\<close>

text \<open>Values that are not zero, down to a depth: structs and pointers count as levels.\<close>

fun nonDefaults :: "nat \<Rightarrow> gval \<Rightarrow> nat" where
  "nonDefaults 0 v = 0"
| "nonDefaults (Suc k) (StructV fs) = sum_list (map (nonDefaults k \<circ> snd) fs)"
| "nonDefaults (Suc k) (PtrV v) = nonDefaults k v"
| "nonDefaults (Suc k) (Leaf tname zero) = (if zero then 0 else 1)"
| "nonDefaults (Suc k) _ = 0"

text \<open>\<open>m\<close> values have been found: they are counted, and the first of all errors is printed.\<close>

definition warned :: "nat \<Rightarrow> labgob \<Rightarrow> labgob \<Rightarrow> bool" where
  "warned m g g' \<longleftrightarrow> checked g' = checked g \<and> errorCount g' = errorCount g + int m \<and>
     length (printed g') = length (printed g) + (if errorCount g < 1 \<and> 0 < m then 1 else 0)"

lemma nonDefaults_none [simp]: "nonDefaults k NilPtr = 0" "nonDefaults k Opaque = 0"
  by (cases k; simp)+

lemma warned_trans: "warned a g g1 \<Longrightarrow> warned b g1 g2 \<Longrightarrow> 0 \<le> errorCount g \<Longrightarrow> warned (a + b) g g2"
  by (auto simp: warned_def)

lemma checkDefault_warned:
  "0 \<le> errorCount g \<Longrightarrow> 0 < depth \<Longrightarrow> warned (nonDefaults (4 - depth) v) g (checkDefault1 v depth name g)"
  "0 \<le> errorCount g \<Longrightarrow> 0 < depth \<Longrightarrow> depth \<le> 3 \<Longrightarrow>
     warned (sum_list (map (nonDefaults (3 - depth) \<circ> snd) fs)) g (checkDefaults fs depth name g)"
proof (induction v depth name g and fs depth name g rule: checkDefault1_checkDefaults.induct)
  case (1 fs depth name g)
  show ?case
  proof (cases "depth \<le> 3")
    case True
    then have "4 - depth = Suc (3 - depth)" by simp
    then show ?thesis using 1 True by (simp add: comp_def)
  qed (simp add: warned_def)
next
  case (3 v depth name g)
  show ?case
  proof (cases "depth \<le> 3")
    case True
    then have "4 - depth = Suc (4 - (depth + 1))" by simp
    then show ?thesis using 3 True by simp
  qed (simp add: warned_def)
next
  case (7 fname v fs depth name g)
  let ?name = "if name \<noteq> '''' then name @ ''.'' @ fname else fname"
  have a: "warned (nonDefaults (3 - depth) v) g (checkDefault1 v (depth + 1) ?name g)" using 7(1) 7(3) by simp
  then have "0 \<le> errorCount (checkDefault1 v (depth + 1) ?name g)" using 7(3) by (simp add: warned_def)
  then show ?case using warned_trans [OF a 7(2)] 7(3-5) by simp
next
  case (4 tname zero depth name g)
  show ?case
  proof (cases "depth \<le> 3")
    case True
    then have "4 - depth = Suc (3 - depth)" by simp
    then show ?thesis using True by (simp add: warned_def Let_def)
  qed (simp add: warned_def)
qed (simp_all add: warned_def)

text \<open>Before decoding, the variables are looked at down to three levels, structs and pointers
  counted: every value there that is not zero adds one to the count of errors, deeper ones none,
  and a warning is printed only for the very first error of the program.\<close>

lemma checkDefault_counts:
  assumes "0 \<le> errorCount g"
  shows "errorCount (checkDefault (Some v) g) = errorCount g + int (nonDefaults 3 v) \<and>
     length (printed (checkDefault (Some v) g)) = length (printed g) + (if errorCount g < 1 \<and> 0 < nonDefaults 3 v then 1 else 0)"
  using checkDefault_warned(1) [OF assms, of 1 v "''''"] by (simp add: checkDefault_def warned_def)

end
