(* ===== verification/Spec2Isabelle.thy ===== *)
theory Spec2Isabelle
  imports Raft_Agree Raft_Defects Raft_Total Kv_Linear Rsm_Counter Kv_Lock Kv_Appends Kv_Steps Shard_Config Mr_Job Mr_Probes Test_Partitioner Lab_Gob
begin

text \<open>
  This library models and verifies the programs of the repository: the Go implementations of the
  distributed systems labs under \<^verbatim>\<open>src/\<close>. It is a shallow embedding: every operation of
  the code is a HOL function over a record of the state it works on, a panic, \<^verbatim>\<open>log.Fatal\<close> or
  failed slice is \<open>None\<close>, and everything the code leaves to chance (clocks, random numbers, the
  scheduling of goroutines, the fate of messages, the iteration order of Go maps) is an
  argument of the function or an event of a run.

  \<^bold>\<open>The programs and how they interact.\<close> Raft (\<^verbatim>\<open>raft1/raft.go\<close>) replicates a log of commands over
  peers that talk by RPC and persist their state in a \<^verbatim>\<open>Persister\<close> (\<^verbatim>\<open>tester1/persister.go\<close>). The
  replicated state machine layer (\<^verbatim>\<open>kvraft1/rsm/rsm.go\<close>) submits operations to Raft and applies what
  Raft delivers to a service; the key/value service (\<^verbatim>\<open>kvraft1/server.go\<close>) is such a service and
  \<^verbatim>\<open>kvraft1/client.go\<close> its clerk. \<^verbatim>\<open>kvsrv1\<close> is the same store without replication, with a clerk that
  has to live with lost replies and a distributed lock built on it; \<^verbatim>\<open>models1/kv.go\<close> is the sequential
  model against which histories of the stores are checked. \<^verbatim>\<open>labrpc/labrpc.go\<close> is the simulated
  network, \<^verbatim>\<open>labgob\<close> the wrapper of the encoder. \<^verbatim>\<open>tester1\<close> starts, stops and partitions groups of
  servers for the tests and annotates their diagrams, and \<^verbatim>\<open>kvtest1\<close> has the clients and the checks
  of the key/value tests. \<^verbatim>\<open>shardkv1/shardcfg\<close> assigns shards to groups. \<^verbatim>\<open>mr\<close> is MapReduce: a coordinator that hands
  out tasks and workers that execute them on shared files, with \<^verbatim>\<open>main/mrsequential.go\<close> as the
  sequential reference and \<^verbatim>\<open>mrapps\<close> as applications.

  \<^bold>\<open>Theories, in the order of their dependencies.\<close>

  \<^item> \<open>Prelude\<close>: slices with Go's bounds checks, lists with consecutive indices, generic lemmas.
  \<^item> \<open>Persister\<close>: the two buffers and their atomic \<^verbatim>\<open>Save\<close>; a buffer is the list of the values
    encoded into it.
  \<^item> \<open>Raft_State\<close>: the struct \<^verbatim>\<open>Raft\<close>, index conversions, persistence, timers, \<^verbatim>\<open>Make\<close> and \<^verbatim>\<open>Kill\<close>; the
    invariant \<open>wf_raft\<close>. \<open>Raft_Contract\<close>: what every operation owes the others, as the locale
    \<open>raft_operation\<close> that each handler is shown to satisfy (terms and commit index grow, votes are
    kept and are durable, the invariant holds).
  \<^item> \<open>Raft_Election\<close>: \<^verbatim>\<open>RequestVote\<close>, \<^verbatim>\<open>AttemptElection\<close>, \<^verbatim>\<open>BecomeLeader\<close>, \<^verbatim>\<open>ticker\<close>. \<open>Raft_Replication\<close>:
    \<^verbatim>\<open>AppendEntries\<close>, \<^verbatim>\<open>Start\<close>, \<^verbatim>\<open>BroadcastEntries\<close>, \<^verbatim>\<open>updateCommitIndex\<close>. \<open>Raft_Snapshot\<close>: \<^verbatim>\<open>Snapshot\<close>,
    \<^verbatim>\<open>InstallSnapShot\<close>, \<^verbatim>\<open>sendSnapShot\<close>. \<open>Raft_Apply\<close>: the applier goroutine between its critical
    sections, interleaved with the handlers. A function of the source that releases the mutex
    in the middle is one definition per critical section.
  \<^item> \<open>Raft_Cluster\<close>: the peers composed over a network that delays, reorders, duplicates and
    loses messages, with crashes and restarts; a run is a list of events.
    \<open>Raft_Safety\<close>: at most one leader per term, from the quorum locale and the votes.
    \<open>Raft_Matching\<close>: the log matching property, from a ledger of what each leader appended.
    \<open>Raft_Completeness\<close>: for runs without snapshots, what a majority has acknowledged is in the
    log of every later leader. \<open>Raft_Commit\<close>: hence commit indices never disagree.
    \<open>Raft_System\<close>: the appliers of all peers and a service that reads from them, with the locale
    \<open>apply_service\<close> as what such a service relies on and owes. \<open>Raft_Tester\<close>: the service and the
    checks of the Raft tests (\<^verbatim>\<open>raft1/server.go\<close>, \<^verbatim>\<open>raft1/test.go\<close>), an instance of it;
    \<open>Raft_Agree\<close>: how these tests wait for agreement (\<^verbatim>\<open>one\<close>, \<^verbatim>\<open>wait\<close>).
    \<open>Raft_Total\<close>: which runs are free of panics.
    \<open>Raft_Validity\<close>: logs hold only commands that were handed to \<^verbatim>\<open>Start\<close>.
    \<open>Raft_Defects\<close>: concrete runs that reach states the design excludes.
  \<^item> \<open>Kv_Store\<close>: the versioned map as the contract of both stores (locale \<open>versioned_store\<close>).
    \<open>Kv_Server\<close>, \<open>Kv_Clerk\<close>, \<open>Kv_Model\<close>: the unreplicated store, its clerk on a lossy network, the
    model of the linearizability checker. \<open>Kv_Attempt\<close>: one attempt of an RPC as a step, for
    systems of many clients: \<open>Kv_Lock\<close>, the lock, and \<open>Kv_History\<close>, \<open>Kv_Tests\<close>, \<open>Kv_Appends\<close> and
    \<open>Kv_Steps\<close>, the recording, the clients and the checks of \<^verbatim>\<open>kvtest1\<close>.
  \<^item> \<open>Rsm\<close>: \<^verbatim>\<open>Submit\<close> and \<^verbatim>\<open>Reader\<close> over an arbitrary service (locale \<open>state_machine\<close>). \<open>Kv_Raft\<close>: the
    service with its duplicate table, its snapshots, handlers and clerk. \<open>Rsm_System\<close>: the layer
    on every server of a cluster, an instance of \<open>apply_service\<close>; \<open>Kv_System\<close> and \<open>Rsm_Counter\<close>: the
    store and the counter of \<^verbatim>\<open>kvraft1/rsm/server.go\<close> on it. \<open>Kv_Oplog\<close>, \<open>Kv_Clients\<close>, \<open>Kv_Order\<close>,
    \<open>Kv_Linear\<close>: the clerks of the replicated store on the cluster, cut where they wait, with the
    recording of their operations; the order in which these take effect; linearizability.
  \<^item> \<open>Lab_Rpc\<close>: the simulated network: configuration, dispatch, and the life of a call. \<open>Lab_Gob\<close>:
    the checks of the encoder's wrapper on types and values. \<open>Itoa\<close>: decimal numbers.
    \<open>Test_Group\<close>: servers, groups and clients of the tests on the network. \<open>Test_Annotation\<close>: the
    annotations of the diagrams. \<open>Test_Users\<close>: what every user of the network owes the others, as the
    locale \<open>network_user\<close>, with groups and clients as its instances. \<open>Test_Config\<close>: a whole test
    (\<^verbatim>\<open>tester1/config.go\<close>, \<^verbatim>\<open>tester1/clnts.go\<close>) with any number of groups and clients, as a transition
    system. \<open>Test_Partitioner\<close>: what the key/value and Raft tests do to it while they run.
  \<^item> \<open>Fnv\<close>: the hash of the Go library. \<open>Shard_Config\<close>: joining, leaving and rebalancing.
  \<^item> \<open>Mr_Coordinator\<close>, \<open>Mr_Worker\<close>, \<open>Mr_Job\<close>: the coordinator; map and reduce tasks, the sequential
    program and the applications; a job as an interleaving of file operations of any number
    of workers. \<open>Mr_Probes\<close>: the applications that observe the workers.

  \<^bold>\<open>What is shown.\<close> For the peers: the functional behaviour of every handler on every branch, that
  the invariant is kept and nothing panics on states that satisfy it, durability before
  replies, and in every run of a cluster at most one leader per term and log matching. In every
  run without snapshots, later leaders have everything that has been committed and no two peers
  ever commit different entries at one index, and no peer panics; with snapshots both fail, as runs
  show. In all of these runs the tests never find two leaders of a term, however long they take to
  ask all servers, and as long as no server is restarted their other safety checks pass too. The
  applier delivers in order, without gaps or repetitions, and never sleeps while there is work.
  Every entry of a log was submitted. The stores refine the versioned map; replicas that read
  faithful messages are in the state of the committed sequence, requests take effect at most
  once, retries return the first reply. The replicated store and the counter are verified on a
  cluster as a whole, without snapshots: all servers execute prefixes of one sequence that
  respects real time; and provided that operation ids do not collide, callers get the results of
  their own operations, and what the tests record of any clerks of the replicated store is
  linearizable (as long as no put is answered \<^verbatim>\<open>ErrNoKey\<close>, which the model of the checker does not
  know; the same holds for the unreplicated store). The clerk of the unreplicated store keeps its error contract under all
  losses, the lock excludes mutually, what the tests record of any clients on it is
  linearizable, and the tests of concurrent puts and appends pass. The network dispatches each
  call at most once, with handlers that run concurrently, and a reply that has not passed the
  last look at its server before that is deleted never arrives. A partition that the tests make
  of an odd group cuts off exactly what it says; groups and clients of one test never disturb each other, and the
  cleanup at its end succeeds; the annotation of a fault is the current one; the check of a type
  ends and prints one line for every lower case field. Rebalancing ends, balances and does not depend on iteration orders. A
  MapReduce job that is done has produced exactly the lines of the sequential program, if every
  renaming succeeds, the pairs survive their JSON encoding and the application does not depend
  on the order of pairs and values; and a job that is not done always has a task for a worker
  that asks late enough.

  Where the code does not do what it means to do, a theorem shows it: a run in which two live
  peers commit different commands at one index because \<^verbatim>\<open>InstallSnapShot\<close> discards acknowledged
  entries; a leader that panics because a snapshot of another peer moves the index
  it sends next beyond its own log;
  operations of two clerks with the same id, of which one is acknowledged and lost; a mutex that stays locked; votes kept across a change of term; a lock nobody can
  get after one lost reply; a timeout that never fires; a refused \<^verbatim>\<open>Leave\<close> that has removed groups;
  a failed renaming that loses output; the reader of a killed server of the Raft tests, which
  reports correct entries as out of order; a client of the tests that still reaches servers it was
  cut off from; parts of an even group that overlap; a check of default values that does not
  look deep enough; annotations of failures that never were.

  \<^bold>\<open>Bounds and loops.\<close> Versions are 64-bit words and operation ids are computed on 64-bit words, with
  their wrap-around; that distinct operations have distinct ids is a hypothesis of linearizability,
  with fewer than \<open>2 ^ 64\<close> of them, and a run shows what happens without it; indices, terms and counters of the code are integers, which is the code's
  \<^verbatim>\<open>int\<close> as long as it does not overflow. Loops are structural or have termination proofs; the
  rebalancing loop is \<open>while_option\<close> and shown to end; retry loops that may run for ever
  take the sequence of answers they get, or a bound on the attempts, and the liveness theorems
  give a bound that is enough. The tests count puts, so their theorems bound the number of steps
  by the width of the version counter. The sorting routine of the library and the predicate for
  letters are parameters, with the documented contract of sorting as a locale; so are the JSON
  library, with the hypothesis that decoding inverts encoding on the values in use, and the linearizability checker,
  with the hypothesis that it rejects only histories that are not linearizable.

  \<^bold>\<open>Not modelled.\<close> The encoder behind \<^verbatim>\<open>labgob\<close> and the reflection of Go: encoded data are lists of
  values, and types are a datatype. The files \<^verbatim>\<open>test.go\<close> of \<^verbatim>\<open>kvraft1\<close>, \<^verbatim>\<open>kvsrv1\<close>
  and \<^verbatim>\<open>shardkv1\<close> wire the parts together. After a restart the goroutines of the killed server are
  not followed any further (see \<open>Raft_System\<close>). In the systems of clerks of the unreplicated store a
  reply that is not lost arrives in the step that executes the request; random seeds and settings of the Go runtime have no
  counterpart here. The bodies of the
  sharded service in \<^verbatim>\<open>shardkv1\<close> are empty skeletons. The commands in \<^verbatim>\<open>main\<close> load plugins and call
  the functions modelled here. \<^verbatim>\<open>String\<close> and \<^verbatim>\<open>FromString\<close> of configurations call the JSON library.

  \<^bold>\<open>Plan.\<close> What is left concerns snapshots: which restriction on \<^verbatim>\<open>InstallSnapShot\<close> and on the use of
  \<^verbatim>\<open>Snapshot\<close> makes the safety theorems hold in runs with snapshots too; and the sharded service, when
  its bodies are written.
\<close>

end
